(* ===== verification/Prelude.thy ===== *)
theory Prelude imports Main "HOL-Library.Word" begin

text \<open>
  Prelude of the development.  Python integers are HOL integers, bytes objects are lists of
  integers, every raise of the source is an \<open>Inl\<close> of the sum type \<open>result\<close>,
  and reads out of range are errors rather than unspecified values.  The theory holds the
  shared list, index and bit lemmas, the named collections the component proofs use, and the
  interface \<open>codec\<close> (an encoder with a decoder that inverts it) together with its
  composition.
\<close>

unbundle bit_operations_syntax

section \<open>Results and errors\<close>

text \<open>The exceptions the sources raise, by their Python names.\<close>

datatype py_error =
    IndexError
  | ValueError
  | TypeError
  | KeyError
  | AssertionError
  | AttributeError
  | StructError
  | OverflowError
  | QueueFull
  | QueueEmpty
  | Raised string

type_synonym 'a result = "py_error + 'a"

type_synonym bytes = "int list"

definition rbind :: "'a result \<Rightarrow> ('a \<Rightarrow> 'b result) \<Rightarrow> 'b result" where
  "rbind m f = (case m of Inl e \<Rightarrow> Inl e | Inr x \<Rightarrow> f x)"

lemma rbind_simps [simp]: "rbind (Inl e) f = Inl e" "rbind (Inr x) f = f x"
  by (simp_all add: rbind_def)

lemma rbind_Inr_iff: "rbind m f = Inr y \<longleftrightarrow> (\<exists>x. m = Inr x \<and> f x = Inr y)"
  by (cases m) auto

lemma rbind_assoc: "rbind (rbind m f) g = rbind m (\<lambda>x. rbind (f x) g)"
  by (cases m) auto

definition guard_err :: "bool \<Rightarrow> py_error \<Rightarrow> unit result" where
  "guard_err b e = (if b then Inr () else Inl e)"

lemma guard_err_simps [simp]: "guard_err True e = Inr ()" "guard_err False e = Inl e"
  by (simp_all add: guard_err_def)

text \<open>A loop whose body may raise: the first error ends it.\<close>

fun rmap :: "('a \<Rightarrow> 'b result) \<Rightarrow> 'a list \<Rightarrow> 'b list result" where
  "rmap f [] = Inr []"
| "rmap f (x # xs) = rbind (f x) (\<lambda>y. rbind (rmap f xs) (\<lambda>ys. Inr (y # ys)))"

fun rfold :: "('a \<Rightarrow> 's \<Rightarrow> 's result) \<Rightarrow> 'a list \<Rightarrow> 's \<Rightarrow> 's result" where
  "rfold f [] s = Inr s"
| "rfold f (x # xs) s = rbind (f x s) (rfold f xs)"

lemma rmap_all_Inr: "(\<And>x. x \<in> set xs \<Longrightarrow> f x = Inr (g x)) \<Longrightarrow> rmap f xs = Inr (map g xs)"
  by (induction xs) auto

lemma rfold_append: "rfold f (xs @ ys) s = rbind (rfold f xs s) (rfold f ys)"
  by (induction xs arbitrary: s) (auto simp: rbind_def split: sum.splits)

lemma rfold_invariant:
  assumes "rfold f xs s = Inr t" and "P s"
    and "\<And>x a b. x \<in> set xs \<Longrightarrow> P a \<Longrightarrow> f x a = Inr b \<Longrightarrow> P b"
  shows "P t"
  using assms
proof (induction xs arbitrary: s)
  case Nil
  then show ?case by simp
next
  case (Cons x xs)
  from Cons.prems(1) obtain s' where "f x s = Inr s'" and "rfold f xs s' = Inr t"
    by (auto simp: rbind_Inr_iff)
  moreover from this(1) Cons.prems have "P s'" by auto
  ultimately show ?case using Cons.IH Cons.prems(3) by (metis list.set_intros(2))
qed

text \<open>A loop that never raises while an invariant holds is the pure fold.\<close>

lemma rfold_pure:
  assumes "P s" and "\<And>x a. x \<in> set xs \<Longrightarrow> P a \<Longrightarrow> f x a = Inr (g x a) \<and> P (g x a)"
  shows "rfold f xs s = Inr (fold g xs s) \<and> P (fold g xs s)"
  using assms by (induction xs arbitrary: s) auto

lemma rfold_total:
  assumes "P s" and "\<And>x a. x \<in> set xs \<Longrightarrow> P a \<Longrightarrow> \<exists>b. f x a = Inr b \<and> P b"
  shows "\<exists>t. rfold f xs s = Inr t \<and> P t"
  using assms
proof (induction xs arbitrary: s)
  case Nil
  then show ?case by simp
next
  case (Cons x xs)
  then obtain s' where "f x s = Inr s'" "P s'"
    by (metis list.set_intros(1))
  with Cons show ?case by (metis list.set_intros(2) rbind_simps(2) rfold.simps(2))
qed

text \<open>Drawing \<open>n\<close> values from a generator, stopping at the first error.\<close>

fun draws :: "('s \<Rightarrow> ('a \<times> 's) result) \<Rightarrow> nat \<Rightarrow> 's \<Rightarrow> ('a list \<times> 's) result" where
  "draws g 0 s = Inr ([], s)"
| "draws g (Suc n) s =
     rbind (g s) (\<lambda>(x, s'). rbind (draws g n s') (\<lambda>(xs, s''). Inr (x # xs, s'')))"

section \<open>Python sequences\<close>

text \<open>Indexing as Python has it: a negative index counts from the end, anything else outside
  the sequence raises \<open>IndexError\<close>.\<close>

definition py_idx :: "nat \<Rightarrow> int \<Rightarrow> nat result" where
  "py_idx n i =
     (if 0 \<le> i \<and> i < int n then Inr (nat i)
      else if i < 0 \<and> - int n \<le> i then Inr (nat (i + int n))
      else Inl IndexError)"

definition py_get :: "'a list \<Rightarrow> int \<Rightarrow> 'a result" where
  "py_get xs i = rbind (py_idx (length xs) i) (\<lambda>k. Inr (xs ! k))"

definition py_set :: "'a list \<Rightarrow> int \<Rightarrow> 'a \<Rightarrow> 'a list result" where
  "py_set xs i v = rbind (py_idx (length xs) i) (\<lambda>k. Inr (xs[k := v]))"

lemma py_idx_nonneg: "0 \<le> i \<Longrightarrow> i < int n \<Longrightarrow> py_idx n i = Inr (nat i)"
  by (simp add: py_idx_def)

lemma py_idx_neg: "i < 0 \<Longrightarrow> - int n \<le> i \<Longrightarrow> py_idx n i = Inr (nat (i + int n))"
  by (simp add: py_idx_def)

lemma py_get_pos: "0 \<le> i \<Longrightarrow> i < int (length xs) \<Longrightarrow> py_get xs i = Inr (xs ! nat i)"
  by (simp add: py_get_def py_idx_def)

lemma py_set_pos: "0 \<le> i \<Longrightarrow> i < int (length xs) \<Longrightarrow> py_set xs i v = Inr (xs[nat i := v])"
  by (simp add: py_set_def py_idx_def)

lemma py_get_nat [simp]: "k < length xs \<Longrightarrow> py_get xs (int k) = Inr (xs ! k)"
  by (simp add: py_get_def py_idx_def)

lemma py_set_nat [simp]: "k < length xs \<Longrightarrow> py_set xs (int k) v = Inr (xs[k := v])"
  by (simp add: py_set_def py_idx_def)

lemma py_get_neg:
  "0 < k \<Longrightarrow> k \<le> length xs \<Longrightarrow> py_get xs (- int k) = Inr (xs ! (length xs - k))"
  by (simp add: py_get_def py_idx_def nat_diff_distrib' of_nat_diff add.commute)

text \<open>The slice \<open>xs[a:b]\<close> for bounds that are not negative.\<close>

definition py_slice :: "nat \<Rightarrow> nat \<Rightarrow> 'a list \<Rightarrow> 'a list" where
  "py_slice a b xs = take (b - a) (drop a xs)"

lemma length_slice [simp]: "length (py_slice a b xs) = min (b - a) (length xs - a)"
  by (simp add: py_slice_def)

lemma nth_slice [simp]: "k < b - a \<Longrightarrow> a + k < length xs \<Longrightarrow> py_slice a b xs ! k = xs ! (a + k)"
  by (simp add: py_slice_def)

lemma slice_append_slice: "a \<le> b \<Longrightarrow> b \<le> c \<Longrightarrow> py_slice a b xs @ py_slice b c xs = py_slice a c xs"
proof -
  assume h: "a \<le> b" "b \<le> c"
  then have "py_slice b c xs = take (c - b) (drop (b - a) (drop a xs))"
    by (simp add: py_slice_def)
  then have "py_slice a b xs @ py_slice b c xs = take ((b - a) + (c - b)) (drop a xs)"
    by (simp add: py_slice_def take_add)
  with h show ?thesis by (simp add: py_slice_def)
qed

lemma slice_full: "py_slice 0 (length xs) xs = xs"
  by (simp add: py_slice_def)

text \<open>What a bytes object holds.\<close>

definition is_bytes :: "int list \<Rightarrow> bool" where
  "is_bytes xs \<longleftrightarrow> (\<forall>x \<in> set xs. 0 \<le> x \<and> x < 256)"

lemma is_bytes_simps [simp]:
  "is_bytes []"
  "is_bytes (x # xs) \<longleftrightarrow> 0 \<le> x \<and> x < 256 \<and> is_bytes xs"
  "is_bytes (xs @ ys) \<longleftrightarrow> is_bytes xs \<and> is_bytes ys"
  by (auto simp: is_bytes_def)

lemma is_bytes_nth: "is_bytes xs \<Longrightarrow> i < length xs \<Longrightarrow> 0 \<le> xs ! i \<and> xs ! i < 256"
  by (simp add: is_bytes_def)

lemma is_bytes_sub: "is_bytes xs \<Longrightarrow> set ys \<subseteq> set xs \<Longrightarrow> is_bytes ys"
  by (auto simp: is_bytes_def)

lemma is_bytes_take_drop: "is_bytes xs \<Longrightarrow> is_bytes (take n xs)" "is_bytes xs \<Longrightarrow> is_bytes (drop n xs)"
  by (auto simp: is_bytes_def dest: in_set_takeD in_set_dropD)

text \<open>\<open>struct.pack('B', p)\<close>.\<close>

definition pack_B :: "int \<Rightarrow> int result" where
  "pack_B p = (if 0 \<le> p \<and> p < 256 then Inr p else Inl StructError)"

lemma rmap_pack_B: "is_bytes xs \<Longrightarrow> rmap pack_B xs = Inr xs"
  using rmap_all_Inr [of xs pack_B id] by (simp add: pack_B_def is_bytes_def)

lemma map_int_upt: "map int [a..<b] = [int a..int b - 1]"
proof (induction b)
  case 0
  then show ?case by simp
next
  case (Suc b)
  then show ?case
    by (cases "a \<le> b") (auto simp: upto_rec2 [of "int a" "int b"])
qed

section \<open>Bounded integers\<close>

text \<open>An integer fits in \<open>n\<close> bits; the bitwise operations of the sources keep that.\<close>

definition fits :: "nat \<Rightarrow> int \<Rightarrow> bool" where
  "fits n x \<longleftrightarrow> 0 \<le> x \<and> x < 2 ^ n"

lemma fits_take_bit: "fits n x \<longleftrightarrow> take_bit n x = x"
  by (auto simp: fits_def take_bit_int_eq_self_iff)

lemma fits_bit: "fits n x \<longleftrightarrow> (\<forall>i \<ge> n. \<not> bit x i)"
  unfolding fits_take_bit
  by (metis bit_take_bit_iff bit_eq_iff not_le)

lemma fits_bitwise [simp]:
  "fits n x \<Longrightarrow> fits n y \<Longrightarrow> fits n (x XOR y)"
  "fits n x \<Longrightarrow> fits n y \<Longrightarrow> fits n (x OR y)"
  "fits n x \<Longrightarrow> fits n (x AND y)"
  "fits n x \<Longrightarrow> fits n (y AND x)"
  "fits n x \<Longrightarrow> fits n (drop_bit k x)"
  "fits n (take_bit n x)"
  "fits n 0"
  by (auto simp: fits_bit bit_simps)

lemma fits_mask_const: "fits n c \<Longrightarrow> fits n (x AND c)"
  by simp

lemma fits_mask [simp]: "fits n (x AND mask n)"
  by (simp flip: take_bit_eq_mask)

lemma fits_mono: "fits m x \<Longrightarrow> m \<le> n \<Longrightarrow> fits n x"
  by (auto simp: fits_bit)

lemma fitsD: "fits n x \<Longrightarrow> 0 \<le> x \<and> x < 2 ^ n"
  by (simp add: fits_def)

definition words_fit :: "nat \<Rightarrow> int list \<Rightarrow> bool" where
  "words_fit n m \<longleftrightarrow> (\<forall>x \<in> set m. fits n x)"

lemma words_fit_nth: "words_fit n m \<Longrightarrow> i < length m \<Longrightarrow> fits n (m ! i)"
  by (simp add: words_fit_def)

lemma words_fit_update: "words_fit n m \<Longrightarrow> fits n v \<Longrightarrow> words_fit n (m[k := v])"
  by (auto simp: words_fit_def dest: set_update_subset_insert [THEN subsetD])

lemma words_fit_fold_updates:
  assumes "\<And>i m. fits n (v i m)"
  shows "words_fit n m \<Longrightarrow> words_fit n (fold (\<lambda>i m. m[p i := v i m]) is m)"
  by (induction "is" arbitrary: m) (simp_all add: words_fit_update assms)

section \<open>Integers as bytes\<close>

text \<open>\<open>int.bit_length\<close> of a number that is not negative.\<close>

fun bit_length :: "nat \<Rightarrow> nat" where
  "bit_length n = (if n = 0 then 0 else Suc (bit_length (n div 2)))"

declare bit_length.simps [simp del]

text \<open>\<open>int.from_bytes(b, 'little')\<close>, and \<open>to_bytes(n, 'little')\<close> of a value that fits.\<close>

fun le_int :: "bytes \<Rightarrow> int" where
  "le_int [] = 0"
| "le_int (b # bs) = b + 256 * le_int bs"

definition le_bytes :: "nat \<Rightarrow> int \<Rightarrow> bytes" where
  "le_bytes n v = map (\<lambda>j. take_bit 8 (drop_bit (8 * j) v)) [0..<n]"

definition to_bytes_le :: "nat \<Rightarrow> int \<Rightarrow> bytes result" where
  "to_bytes_le n v = (if 0 \<le> v \<and> v < 2 ^ (8 * n) then Inr (le_bytes n v) else Inl OverflowError)"

definition to_bytes_be :: "nat \<Rightarrow> int \<Rightarrow> bytes result" where
  "to_bytes_be n v = rbind (to_bytes_le n v) (\<lambda>b. Inr (rev b))"

lemma le_bytes_facts: "length (le_bytes n v) = n" "i < n \<Longrightarrow> le_bytes n v ! i = take_bit 8 (drop_bit (8 * i) v)"
  by (simp_all add: le_bytes_def)

lemma le_int_bounds: "is_bytes bs \<Longrightarrow> 0 \<le> le_int bs \<and> le_int bs < 256 ^ length bs"
  by (induction bs) auto

lemma le_int_byte: "is_bytes bs \<Longrightarrow> j < length bs \<Longrightarrow> take_bit 8 (drop_bit (8 * j) (le_int bs)) = bs ! j"
proof (induction bs arbitrary: j)
  case (Cons b bs)
  have b: "0 \<le> b" "b < 256" using Cons.prems by simp_all
  show ?case
  proof (cases j)
    case 0
    then show ?thesis using b by (simp add: take_bit_eq_mod)
  next
    case (Suc i)
    have "(b + 256 * le_int bs) div 256 = le_int bs" using b by simp
    moreover have "drop_bit (8 * j) x = drop_bit (8 * i) (x div 256)" for x :: int
      unfolding Suc by (simp add: drop_bit_eq_div zdiv_zmult2_eq power_add)
    ultimately show ?thesis using Cons Suc by simp
  qed
qed simp

lemma le_bytes_is_bytes: "is_bytes (le_bytes n v)"
proof -
  have "take_bit 8 (x :: int) < 256" for x using take_bit_int_less_exp [of 8 x] by simp
  then show ?thesis by (simp add: le_bytes_def is_bytes_def)
qed

lemma le_int_le_bytes: "0 \<le> v \<Longrightarrow> v < 256 ^ n \<Longrightarrow> le_int (le_bytes n v) = v"
proof (induction n arbitrary: v)
  case (Suc n)
  have "le_bytes (Suc n) v = take_bit 8 v # le_bytes n (v div 256)"
    unfolding le_bytes_def by (simp add: upt_conv_Cons map_Suc_upt [symmetric] comp_def drop_bit_eq_div zdiv_zmult2_eq power_add
        del: upt_Suc map_Suc_upt)
  moreover have "le_int (le_bytes n (v div 256)) = v div 256" using Suc by (intro Suc.IH) auto
  ultimately show ?case by (simp add: take_bit_eq_mod)
qed (simp add: le_bytes_def)

lemma le_bytes_le_int: "is_bytes b \<Longrightarrow> length b = n \<Longrightarrow> le_bytes n (le_int b) = b"
  by (rule nth_equalityI) (simp_all add: le_bytes_facts le_int_byte)

text \<open>Words of \<open>w\<close> bytes, read one after the other and written back.\<close>

lemma le_chunks:
  "is_bytes b \<Longrightarrow> length b = w * n \<Longrightarrow> concat (map (\<lambda>k. le_bytes w (le_int (take w (drop (w * k) b)))) [0..<n]) = b"
proof (induction n arbitrary: b)
  case (Suc n)
  have "map (\<lambda>k. le_bytes w (le_int (take w (drop (w * k) b)))) [0..<Suc n] =
      le_bytes w (le_int (take w b)) # map (\<lambda>k. le_bytes w (le_int (take w (drop (w * k) (drop w b))))) [0..<n]"
    by (simp add: upt_conv_Cons map_Suc_upt [symmetric] comp_def add.commute del: upt_Suc map_Suc_upt)
  moreover have "concat (map (\<lambda>k. le_bytes w (le_int (take w (drop (w * k) (drop w b))))) [0..<n]) = drop w b"
    by (rule Suc.IH) (use Suc.prems in \<open>simp_all add: is_bytes_take_drop\<close>)
  moreover have "le_bytes w (le_int (take w b)) = take w b"
    by (rule le_bytes_le_int) (use Suc.prems in \<open>simp_all add: is_bytes_take_drop\<close>)
  ultimately show ?case by simp
qed simp

section \<open>Codecs\<close>

text \<open>
  An encoder and a decoder that gives the value back.  The laws are used by every
  wire format of the repository; the lemmas below are proved once for all of them.
\<close>

locale codec =
  fixes enc :: "'a \<Rightarrow> 'b"
    and dec :: "'b \<Rightarrow> 'a result"
    and valid :: "'a \<Rightarrow> bool"
  assumes dec_enc: "valid x \<Longrightarrow> dec (enc x) = Inr x"
begin

lemma enc_inj: "valid x \<Longrightarrow> valid y \<Longrightarrow> enc x = enc y \<Longrightarrow> x = y"
  using dec_enc by (metis Inr_inject)

lemma dec_enc_list: "(\<And>x. x \<in> set xs \<Longrightarrow> valid x) \<Longrightarrow> rmap dec (map enc xs) = Inr xs"
  by (induction xs) (auto simp: dec_enc)

end

text \<open>Two codecs one after the other, as a frame format under a byte-stuffing code.\<close>

locale codec_stack =
  inner: codec enc1 dec1 valid1 + outer: codec enc2 dec2 valid2
  for enc1 :: "'a \<Rightarrow> 'b" and dec1 valid1 and enc2 :: "'b \<Rightarrow> 'c" and dec2 valid2 +
  assumes valid_enc: "valid1 x \<Longrightarrow> valid2 (enc1 x)"
begin

lemma stack_dec_enc: "valid1 x \<Longrightarrow> rbind (dec2 (enc2 (enc1 x))) dec1 = Inr x"
  by (simp add: valid_enc outer.dec_enc inner.dec_enc)

end

sublocale codec_stack \<subseteq> stacked: codec "\<lambda>x. enc2 (enc1 x)" "\<lambda>w. rbind (dec2 w) dec1" valid1
  by unfold_locales (rule stack_dec_enc)

end
