(* ===== verification/Mersenne.thy ===== *)
theory Mersenne imports Prelude begin

text \<open>
  The Mersenne Twister models \<^verbatim>\<open>src/src/math/tb/mt19937.py\<close> and
  \<^verbatim>\<open>mt19937_64.py\<close>.  Each class has the array \<open>mt\<close> and the
  position \<open>mti\<close>; every list access goes through Python's indexing, negative
  indices included.  The locale \<open>twist_generator\<close> states what the two drawing
  methods of a class share and proves once that drawing block by block
  (\<open>int32\<close>, \<open>int64\<close>) and drawing element by element (\<open>int32b\<close>,
  \<open>int64b\<close>) give the same stream; both classes are interpretations.
\<close>

section \<open>State\<close>

record mt_state =
  mt :: "int list"
  mti :: int

section \<open>MT19937, 32 bits\<close>

definition mt19937_new :: mt_state where
  "mt19937_new = \<lparr>mt = replicate 624 0, mti = 625\<rparr>"

text \<open>One step of the loop of \<open>seed\<close>.\<close>

definition seed_step :: "int \<Rightarrow> int list \<Rightarrow> int list result" where
  "seed_step i m =
     rbind (py_get m (i - 1)) (\<lambda>p.
       py_set m i ((1812433253 * (p XOR drop_bit 30 p) + i) AND 0xffffffff))"

definition seed :: "int \<Rightarrow> mt_state \<Rightarrow> mt_state result" where
  "seed sd s =
     rbind (py_set (mt s) 0 (sd AND 0xffffffff)) (\<lambda>m0.
     rbind (rfold seed_step [1..623] m0) (\<lambda>m.
       Inr (s\<lparr>mt := m, mti := 624\<rparr>)))"

text \<open>The two loops of \<open>init_by_array\<close>; the loop state is the array with \<open>i\<close> and
  \<open>j\<close>.\<close>

definition key_step :: "int list \<Rightarrow> int list \<times> int \<times> int \<Rightarrow> (int list \<times> int \<times> int) result" where
  "key_step key = (\<lambda>(m, i, j).
     rbind (py_get m i) (\<lambda>a. rbind (py_get m (i - 1)) (\<lambda>p. rbind (py_get key j) (\<lambda>kj.
     rbind (py_set m i (((a XOR ((p XOR drop_bit 30 p) * 1664525)) + kj + j) AND 0xffffffff)) (\<lambda>m1.
     let i1 = i + 1; j1 = j + 1 in
     rbind (if i1 \<ge> 624 then rbind (py_get m1 623) (\<lambda>l. rbind (py_set m1 0 l) (\<lambda>m2. Inr (m2, 1)))
            else Inr (m1, i1)) (\<lambda>(m2, i2).
     Inr (m2, i2, if j1 \<ge> int (length key) then 0 else j1)))))))"

definition mix_step :: "int list \<times> int \<Rightarrow> (int list \<times> int) result" where
  "mix_step = (\<lambda>(m, i).
     rbind (py_get m i) (\<lambda>a. rbind (py_get m (i - 1)) (\<lambda>p.
     rbind (py_set m i (((a XOR ((p XOR drop_bit 30 p) * 1566083941)) - i) AND 0xffffffff)) (\<lambda>m1.
     let i1 = i + 1 in
     if i1 \<ge> 624 then rbind (py_get m1 623) (\<lambda>l. rbind (py_set m1 0 l) (\<lambda>m2. Inr (m2, 1)))
     else Inr (m1, i1)))))"

definition init_by_array :: "int list \<Rightarrow> mt_state \<Rightarrow> mt_state result" where
  "init_by_array key s =
     rbind (seed 19650218 s) (\<lambda>s0.
     rbind (rfold (\<lambda>_. key_step key) [0..<max 624 (length key)] (mt s0, 1, 0)) (\<lambda>(m, i, j).
     rbind (rfold (\<lambda>_. mix_step) [0..<624] (m, i)) (\<lambda>(m', i').
     rbind (py_set m' 0 0x80000000) (\<lambda>m''. Inr (s0\<lparr>mt := m''\<rparr>)))))"

definition mag :: "int \<Rightarrow> int" where
  "mag y = (if y AND 1 \<noteq> 0 then 0x9908b0df else 0)"

definition twist_at :: "int \<Rightarrow> int list \<Rightarrow> int list result" where
  "twist_at k m =
     rbind (py_get m k) (\<lambda>a. rbind (py_get m (k + 1)) (\<lambda>b.
     let y = (a AND 0x80000000) OR (b AND 0x7fffffff) in
     if k < 624 - 397
     then rbind (py_get m (k + 397)) (\<lambda>c. py_set m k (c XOR drop_bit 1 y XOR mag y))
     else rbind (py_get m (k + 397 - 624)) (\<lambda>c. py_set m k (c XOR drop_bit 1 y XOR mag y))))"

definition twist_last :: "int list \<Rightarrow> int list result" where
  "twist_last m =
     rbind (py_get m 623) (\<lambda>a. rbind (py_get m 0) (\<lambda>b.
     let y = (a AND 0x80000000) OR (b AND 0x7fffffff) in
     rbind (py_get m 396) (\<lambda>c. py_set m 623 (c XOR drop_bit 1 y XOR mag y))))"

definition temper :: "int \<Rightarrow> int" where
  "temper y0 =
     (let y1 = y0 XOR drop_bit 11 y0;
          y2 = y1 XOR (push_bit 7 y1 AND 0x9d2c5680);
          y3 = y2 XOR (push_bit 15 y2 AND 0xefc60000)
      in y3 XOR drop_bit 18 y3)"

definition int32 :: "mt_state \<Rightarrow> (int \<times> mt_state) result" where
  "int32 s =
     rbind (if mti s \<ge> 624
            then rbind (if mti s = 625 then seed 5489 s else Inr s) (\<lambda>s0.
                 rbind (rfold twist_at [0..622] (mt s0)) (\<lambda>m.
                 rbind (twist_last m) (\<lambda>m'. Inr (s0\<lparr>mt := m', mti := 0\<rparr>))))
            else Inr s) (\<lambda>s1.
     rbind (py_get (mt s1) (mti s1)) (\<lambda>y.
     Inr (temper y, s1\<lparr>mti := mti s1 + 1\<rparr>)))"

definition int32b :: "mt_state \<Rightarrow> (int \<times> mt_state) result" where
  "int32b s =
     rbind (if mti s = 625 then seed 5489 s else Inr s) (\<lambda>s0.
     let (k, s1) = (if mti s0 = 624 then (0, s0\<lparr>mti := 0\<rparr>) else (mti s0, s0)) in
     rbind (if k = 623 then twist_last (mt s1) else twist_at k (mt s1)) (\<lambda>m.
     rbind (py_get m (mti s1)) (\<lambda>y.
     Inr (temper y, s1\<lparr>mt := m, mti := mti s1 + 1\<rparr>))))"


section \<open>Block drawing and element drawing\<close>

text \<open>
  The shape both classes share: an array of \<open>N\<close> words, a pure update \<open>tw k\<close> of
  word \<open>k\<close>, and the two drawing methods in terms of it.
\<close>

definition mt_wf :: "nat \<Rightarrow> mt_state \<Rightarrow> bool" where
  "mt_wf N s \<longleftrightarrow> length (mt s) = N \<and> 0 \<le> mti s \<and> mti s \<le> int N + 1"

definition mt_ok :: "nat \<Rightarrow> nat \<Rightarrow> mt_state \<Rightarrow> bool" where
  "mt_ok w N s \<longleftrightarrow> mt_wf N s \<and> words_fit w (mt s)"

locale twist_generator =
  fixes N w :: nat
    and tw :: "nat \<Rightarrow> int list \<Rightarrow> int list"
    and out :: "int \<Rightarrow> int"
    and reseed :: "int list \<Rightarrow> int list"
    and blk inc :: "mt_state \<Rightarrow> (int \<times> mt_state) result"
  assumes N_pos: "0 < N"
    and tw_length: "length (tw k m) = length m"
    and tw_other: "i \<noteq> k \<Longrightarrow> tw k m ! i = m ! i"
    and reseed_length: "length m = N \<Longrightarrow> length (reseed m) = N"
    and tw_fit: "words_fit w m \<Longrightarrow> length m = N \<Longrightarrow> k < N \<Longrightarrow> words_fit w (tw k m)"
    and reseed_fit: "words_fit w m \<Longrightarrow> words_fit w (reseed m)"
    and out_fit: "fits w y \<Longrightarrow> fits w (out y)"
    and blk_eq: "mt_wf N s \<Longrightarrow> blk s =
      (let m0 = (if mti s = int N + 1 then reseed (mt s) else mt s);
           (m, k) = (if mti s \<ge> int N then (fold tw [0..<N] m0, 0) else (mt s, mti s))
       in Inr (out (m ! nat k), \<lparr>mt = m, mti = k + 1\<rparr>))"
    and inc_eq: "mt_wf N s \<Longrightarrow> inc s =
      (let m0 = (if mti s = int N + 1 then reseed (mt s) else mt s);
           k = (if mti s \<ge> int N then 0 else nat (mti s));
           m = tw k m0
       in Inr (out (m ! k), \<lparr>mt = m, mti = int k + 1\<rparr>))"
begin

lemma fold_tw_length: "length (fold tw ks m) = length m"
  by (induction ks arbitrary: m) (auto simp: tw_length)

lemma fold_tw_untouched: "j \<notin> set ks \<Longrightarrow> fold tw ks m ! j = m ! j"
  by (induction ks arbitrary: m) (auto simp: tw_other)

lemma fold_tw_settled:
  assumes "j < N"
  shows "fold tw [0..<N] m ! j = fold tw [0..<Suc j] m ! j"
proof -
  from assms have "[0..<N] = [0..<Suc j] @ [Suc j..<N]"
    using upt_add_eq_append [of 0 "Suc j" "N - Suc j"] by simp
  then show ?thesis by (simp add: fold_tw_untouched del: upt_Suc)
qed

text \<open>The states of the two objects after the same number of draws: the block object has the
  whole next array, the other one its first \<open>j\<close> words.\<close>

definition in_step :: "mt_state \<Rightarrow> mt_state \<Rightarrow> bool" where
  "in_step s t \<longleftrightarrow>
     (s = t \<and> mt_wf N s \<and> int N \<le> mti s) \<or>
     (\<exists>m0 j. length m0 = N \<and> j < N \<and>
        s = \<lparr>mt = fold tw [0..<N] m0, mti = int j\<rparr> \<and>
        t = \<lparr>mt = fold tw [0..<j] m0, mti = int j\<rparr>)"

lemma in_step_intro:
  assumes "length m0 = N" "j < N"
  shows "in_step \<lparr>mt = fold tw [0..<N] m0, mti = int j + 1\<rparr>
                 \<lparr>mt = fold tw [0..<Suc j] m0, mti = int j + 1\<rparr>"
proof (cases "Suc j = N")
  case True
  then show ?thesis
    using assms by (auto simp: in_step_def mt_wf_def fold_tw_length)
next
  case False
  with assms have "Suc j < N" by simp
  with assms show ?thesis
    by (auto simp: in_step_def intro!: exI [of _ m0] exI [of _ "Suc j"] simp del: upt_Suc)
qed

lemma in_step_step:
  assumes "in_step s t"
  shows "\<exists>x s' t'. blk s = Inr (x, s') \<and> inc t = Inr (x, t') \<and> in_step s' t'"
proof -
  from assms consider (fresh) "s = t" "mt_wf N s" "int N \<le> mti s"
    | (mid) m0 j where "length m0 = N" "j < N"
        "s = \<lparr>mt = fold tw [0..<N] m0, mti = int j\<rparr>"
        "t = \<lparr>mt = fold tw [0..<j] m0, mti = int j\<rparr>"
    by (auto simp: in_step_def)
  then show ?thesis
  proof cases
    case fresh
    define m0 where "m0 = (if mti s = int N + 1 then reseed (mt s) else mt s)"
    have len: "length m0 = N"
      using fresh(2) by (simp add: m0_def reseed_length mt_wf_def)
    have "blk s = Inr (out (fold tw [0..<N] m0 ! 0), \<lparr>mt = fold tw [0..<N] m0, mti = int 0 + 1\<rparr>)"
      using fresh by (simp add: blk_eq m0_def Let_def)
    moreover have "inc t = Inr (out (tw 0 m0 ! 0), \<lparr>mt = fold tw [0..<Suc 0] m0, mti = int 0 + 1\<rparr>)"
      using fresh by (simp add: inc_eq m0_def Let_def)
    moreover have "fold tw [0..<N] m0 ! 0 = tw 0 m0 ! 0"
      using fold_tw_settled [OF N_pos, of m0] by simp
    ultimately show ?thesis
      using in_step_intro [OF len N_pos] by metis
  next
    case mid
    have "mt_wf N s" "mt_wf N t"
      using mid by (auto simp: mt_wf_def fold_tw_length)
    with mid have "blk s = Inr (out (fold tw [0..<N] m0 ! j), \<lparr>mt = fold tw [0..<N] m0, mti = int j + 1\<rparr>)"
      and "inc t = Inr (out (fold tw [0..<Suc j] m0 ! j), \<lparr>mt = fold tw [0..<Suc j] m0, mti = int j + 1\<rparr>)"
      by (simp_all add: blk_eq inc_eq Let_def)
    with fold_tw_settled [OF mid(2), of m0] in_step_intro [OF mid(1,2)] show ?thesis
      by metis
  qed
qed

lemma same_stream:
  assumes "in_step s t"
  shows "\<exists>xs s' t'. draws blk n s = Inr (xs, s') \<and> draws inc n t = Inr (xs, t') \<and> length xs = n"
  using assms
proof (induction n arbitrary: s t)
  case 0
  then show ?case by simp
next
  case (Suc n)
  obtain x s' t' where "blk s = Inr (x, s')" "inc t = Inr (x, t')" and "in_step s' t'"
    using in_step_step [OF Suc.prems] by blast
  moreover obtain xs s'' t'' where "draws blk n s' = Inr (xs, s'')" "draws inc n t' = Inr (xs, t'')"
    "length xs = n"
    using Suc.IH [OF \<open>in_step s' t'\<close>] by blast
  ultimately show ?case by simp
qed

text \<open>Every draw gives a word of \<open>w\<close> bits and keeps the array well formed.\<close>

lemma fold_tw_fit:
  "words_fit w m \<Longrightarrow> length m = N \<Longrightarrow> \<forall>k \<in> set ks. k < N \<Longrightarrow> words_fit w (fold tw ks m)"
  by (induction ks arbitrary: m) (simp_all add: tw_fit tw_length)

lemma array_fit:
  assumes "mt_ok w N s"
  shows "length (if mti s = int N + 1 then reseed (mt s) else mt s) = N
    \<and> words_fit w (if mti s = int N + 1 then reseed (mt s) else mt s)"
  using assms by (simp add: mt_ok_def mt_wf_def reseed_length reseed_fit)

lemma blk_ok:
  assumes ok: "mt_ok w N s"
  shows "\<exists>y s'. blk s = Inr (y, s') \<and> fits w y \<and> mt_ok w N s'"
proof -
  define m0 where "m0 = (if mti s = int N + 1 then reseed (mt s) else mt s)"
  define m where "m = (if mti s \<ge> int N then fold tw [0..<N] m0 else mt s)"
  define k where "k = (if mti s \<ge> int N then 0 else mti s)"
  have m: "length m = N" "words_fit w m"
    using ok array_fit [OF ok] fold_tw_fit [of m0 "[0..<N]"]
    by (auto simp: m_def m0_def [symmetric] fold_tw_length mt_ok_def mt_wf_def)
  have k: "0 \<le> k" "k < int N" using ok N_pos by (auto simp: k_def mt_ok_def mt_wf_def)
  have "blk s = Inr (out (m ! nat k), \<lparr>mt = m, mti = k + 1\<rparr>)"
    using ok by (simp add: blk_eq mt_ok_def m_def m0_def k_def Let_def)
  with m k show ?thesis
    by (simp add: mt_ok_def mt_wf_def out_fit words_fit_nth)
qed

lemma inc_ok:
  assumes ok: "mt_ok w N s"
  shows "\<exists>y s'. inc s = Inr (y, s') \<and> fits w y \<and> mt_ok w N s'"
proof -
  define m0 where "m0 = (if mti s = int N + 1 then reseed (mt s) else mt s)"
  define k where "k = (if mti s \<ge> int N then 0 else nat (mti s))"
  have k: "k < N" using ok N_pos by (auto simp: k_def mt_ok_def mt_wf_def)
  have m: "length (tw k m0) = N" "words_fit w (tw k m0)"
    using array_fit [OF ok] tw_fit k by (simp_all add: m0_def [symmetric] tw_length)
  have "inc s = Inr (out (tw k m0 ! k), \<lparr>mt = tw k m0, mti = int k + 1\<rparr>)"
    using ok by (simp add: inc_eq mt_ok_def m0_def k_def Let_def)
  with m k show ?thesis
    by (simp add: mt_ok_def mt_wf_def out_fit words_fit_nth)
qed

lemma fresh_in_step: "mt_wf N s \<Longrightarrow> int N \<le> mti s \<Longrightarrow> in_step s s"
  by (simp add: in_step_def)

end

section \<open>The linear recurrence\<close>

text \<open>
  The published definition of the sequence: the first \<open>N\<close> words are the array, and word
  \<open>n\<close> combines the words \<open>n - N\<close>, \<open>n - N + 1\<close> and \<open>n - N + M\<close>.
\<close>

function lin_word :: "nat \<Rightarrow> nat \<Rightarrow> (int \<Rightarrow> int \<Rightarrow> int \<Rightarrow> int) \<Rightarrow> int list \<Rightarrow> nat \<Rightarrow> int" where
  "lin_word N M comb m n =
     (if n < N \<or> N < 2 \<or> N \<le> M then m ! n
      else comb (lin_word N M comb m (n - N)) (lin_word N M comb m (n - N + 1))
             (lin_word N M comb m (n - N + M)))"
  by pat_completeness auto
termination
  by (relation "measure (\<lambda>(N, M, comb, m, n). n)") auto

declare lin_word.simps [simp del]

locale recurrence_generator = twist_generator +
  fixes M :: nat
    and comb :: "int \<Rightarrow> int \<Rightarrow> int \<Rightarrow> int"
  assumes two: "2 \<le> N" and M_less: "M < N"
    and tw_comb: "tw k m = m[k := comb (m ! k) (m ! ((k + 1) mod N)) (m ! ((k + M) mod N))]"
begin

text \<open>After \<open>j\<close> draws the array is a window of the sequence, stored cyclically.\<close>

definition window :: "int list \<Rightarrow> nat \<Rightarrow> int list \<Rightarrow> bool" where
  "window m0 j m \<longleftrightarrow> length m = N \<and> (\<forall>p. j \<le> p \<and> p < j + N \<longrightarrow> m ! (p mod N) = lin_word N M comb m0 p)"

lemma window_start: "length m0 = N \<Longrightarrow> window m0 0 m0"
  by (auto simp: window_def lin_word.simps)

lemma window_new_word:
  assumes "window m0 j m"
  shows "tw (j mod N) m ! (j mod N) = lin_word N M comb m0 (j + N)"
proof -
  have "m ! (p mod N) = lin_word N M comb m0 p" if "j \<le> p" "p < j + N" for p
    using assms that by (simp add: window_def)
  from this [of j] this [of "j + 1"] this [of "j + M"]
  have "m ! (j mod N) = lin_word N M comb m0 j" "m ! ((j mod N + 1) mod N) = lin_word N M comb m0 (j + 1)"
    "m ! ((j mod N + M) mod N) = lin_word N M comb m0 (j + M)"
    using two M_less N_pos by (simp_all add: mod_simps)
  moreover have "length m = N" using assms by (simp add: window_def)
  ultimately show ?thesis
    using two M_less N_pos by (simp add: tw_comb lin_word.simps [of N M comb m0 "j + N"])
qed

lemma window_step:
  assumes "window m0 j m"
  shows "window m0 (Suc j) (tw (j mod N) m)"
proof -
  have "tw (j mod N) m ! (p mod N) = lin_word N M comb m0 p" if "Suc j \<le> p" "p < Suc j + N" for p
  proof (cases "p = j + N")
    case True
    with window_new_word [OF assms] show ?thesis by simp
  next
    case False
    with that have p: "j < p" "p < j + N" by auto
    then have "p mod N \<noteq> j mod N"
      by (metis mod_eq_dvd_iff_nat diff_less_mono less_imp_le_nat nat_dvd_not_less
          add_diff_cancel_left' zero_less_diff)
    with assms p show ?thesis by (simp add: tw_other window_def)
  qed
  with assms show ?thesis by (simp add: window_def tw_length)
qed

lemma inc_stream:
  assumes "window m0 j (mt s)" and "0 \<le> mti s" "mti s \<le> int N" and "nat (mti s) mod N = j mod N"
  shows "\<exists>t. draws inc n s = Inr (map (\<lambda>i. out (lin_word N M comb m0 (j + N + i))) [0..<n], t)"
  using assms
proof (induction n arbitrary: s j)
  case 0
  then show ?case by simp
next
  case (Suc n)
  define k where "k = (if int N \<le> mti s then 0 else nat (mti s))"
  have k: "k = j mod N"
  proof (cases "mti s = int N")
    case True
    with Suc.prems show ?thesis by (simp add: k_def)
  next
    case False
    with Suc.prems have "nat (mti s) < N" by linarith
    with Suc.prems show ?thesis by (simp add: k_def)
  qed
  define s' where "s' = \<lparr>mt = tw k (mt s), mti = int k + 1\<rparr>"
  have wf: "mt_wf N s" using Suc.prems by (auto simp: mt_wf_def window_def)
  have step: "inc s = Inr (out (lin_word N M comb m0 (j + N)), s')"
  proof -
    have "inc s = Inr (out (tw k (mt s) ! k), s')"
      using wf Suc.prems(3) by (simp add: inc_eq k_def s'_def Let_def)
    with window_new_word [OF Suc.prems(1)] show ?thesis by (simp add: k)
  qed
  have "k < N" using N_pos by (simp add: k)
  then have "\<exists>t. draws inc n s' = Inr (map (\<lambda>i. out (lin_word N M comb m0 (Suc j + N + i))) [0..<n], t)"
    using Suc.prems k window_step [OF Suc.prems(1)]
    by (intro Suc.IH) (auto simp: s'_def nat_add_distrib mod_Suc_eq)
  then obtain t where "draws inc n s' = Inr (map (\<lambda>i. out (lin_word N M comb m0 (j + N + Suc i))) [0..<n], t)"
    by auto
  with step show ?case
    by (auto simp: map_Suc_upt [symmetric] comp_def upt_conv_Cons simp del: upt_Suc)
qed

text \<open>Both drawing methods give the tempered words of the recurrence.\<close>

lemma both_streams:
  assumes "length (mt s) = N" and "mti s = int N"
  shows "\<exists>s' t'. draws blk n s = Inr (map (\<lambda>i. out (lin_word N M comb (mt s) (N + i))) [0..<n], s') \<and>
    draws inc n s = Inr (map (\<lambda>i. out (lin_word N M comb (mt s) (N + i))) [0..<n], t')"
proof -
  have "\<exists>t'. draws inc n s = Inr (map (\<lambda>i. out (lin_word N M comb (mt s) (N + i))) [0..<n], t')"
    using assms inc_stream [of "mt s" 0 s n] window_start by simp
  moreover have "in_step s s"
    using assms by (intro fresh_in_step) (auto simp: mt_wf_def)
  ultimately show ?thesis
    using same_stream [of s s n] by force
qed

end

section \<open>The 32-bit generator: recurrence, equivalence, bounds\<close>

text \<open>The published recurrence on word \<open>k\<close>, indices modulo 624.\<close>

definition recur32 :: "nat \<Rightarrow> int list \<Rightarrow> int list" where
  "recur32 k m =
     (let y = (m ! k AND 0x80000000) OR (m ! ((k + 1) mod 624) AND 0x7fffffff)
      in m[k := m ! ((k + 397) mod 624) XOR drop_bit 1 y XOR mag y])"

definition seed_words32 :: "int \<Rightarrow> int list \<Rightarrow> int list" where
  "seed_words32 sd m =
     fold (\<lambda>i m. m[nat i := (1812433253 * (m ! nat (i - 1) XOR drop_bit 30 (m ! nat (i - 1))) + i)
                      AND 0xffffffff])
       [1..623] (m[0 := sd AND 0xffffffff])"

lemma twist_at_recur: "length m = 624 \<Longrightarrow> k < 623 \<Longrightarrow> twist_at (int k) m = Inr (recur32 k m)"
proof -
  assume h: "length m = 624" "k < 623"
  then have "(k + 1) mod 624 = k + 1" by simp
  moreover have "(k + 397) mod 624 = (if k < 227 then k + 397 else k + 397 - 624)"
    using h by (auto simp: mod_if)
  moreover have "nat (int k + 397) = k + 397" "nat (int k + 1) = k + 1" by simp_all
  moreover have "nat (int k + 397 - 624) = k + 397 - 624" if "\<not> k < 227"
    using that by simp
  ultimately show ?thesis
    using h by (auto simp: twist_at_def recur32_def py_get_pos py_set_pos Let_def)
qed

lemma twist_last_recur: "length m = 624 \<Longrightarrow> twist_last m = Inr (recur32 623 m)"
  by (simp add: twist_last_def recur32_def py_get_pos py_set_pos Let_def)

lemma length_recur32 [simp]: "length (recur32 k m) = length m"
  by (simp add: recur32_def Let_def)

lemma seed_words:
  assumes "length (mt s) = 624"
  shows "seed sd s = Inr \<lparr>mt = seed_words32 sd (mt s), mti = 624\<rparr> \<and> length (seed_words32 sd (mt s)) = 624"
proof -
  have "rfold seed_step [1..623] m = Inr (fold (\<lambda>i m. m[nat i := (1812433253 *
      (m ! nat (i - 1) XOR drop_bit 30 (m ! nat (i - 1))) + i) AND 0xffffffff]) [1..623] m) \<and>
    length (fold (\<lambda>i m. m[nat i := (1812433253 *
      (m ! nat (i - 1) XOR drop_bit 30 (m ! nat (i - 1))) + i) AND 0xffffffff]) [1..623] m) = 624"
    if "length m = 624" for m
    using that by (intro rfold_pure) (auto simp: seed_step_def py_get_pos py_set_pos)
  from this [of "(mt s)[0 := sd AND 0xffffffff]"] assms show ?thesis
    by (simp add: seed_def seed_words32_def py_set_pos)
qed

lemma block_recur:
  assumes "length m = 624"
  shows "rbind (rfold twist_at [0..622] m) twist_last = Inr (fold recur32 [0..<624] m)"
proof -
  have split: "[0..<624] = [0..<623] @ [623::nat]"
    using upt_Suc_append [of 0 "623::nat"] by simp
  have "map int [0..<623] = [0..622]"
    by (simp add: map_int_upt del: upt_rec_numeral upto_rec_numeral)
  moreover have "rfold twist_at (map int ks) m = Inr (fold recur32 ks m)
      \<and> length (fold recur32 ks m) = 624" if "\<forall>k \<in> set ks. k < 623" for ks
    using that assms by (induction ks arbitrary: m) (auto simp: twist_at_recur)
  from this [of "[0..<623]"] have "rfold twist_at (map int [0..<623]) m = Inr (fold recur32 [0..<623] m)"
    "length (fold recur32 [0..<623] m) = 624"
    by auto
  ultimately show ?thesis
    unfolding split by (simp add: twist_last_recur del: upt_rec_numeral upto_rec_numeral)
qed


section \<open>Ranges of the words\<close>

lemma temper_fits: "fits 32 y \<Longrightarrow> fits 32 (temper y)"
proof -
  assume "fits 32 y"
  moreover have "fits 32 0x9d2c5680" "fits 32 0xefc60000" by (simp_all add: fits_def)
  ultimately show ?thesis unfolding temper_def Let_def by (blast intro: fits_bitwise)
qed

lemma fits_numerals32:
  "fits 32 0x9908b0df" "fits 32 0x80000000" "fits 32 0x7fffffff" "fits 32 0xffffffff"
  by (simp_all add: fits_def)

lemma recur32_fits:
  assumes "words_fit 32 m" "length m = 624" "k < 624"
  shows "words_fit 32 (recur32 k m)"
proof -
  have m: "fits 32 (m ! i)" if "i < 624" for i using assms that by (simp add: words_fit_nth)
  define y where "y = (m ! k AND 0x80000000) OR (m ! ((k + 1) mod 624) AND 0x7fffffff)"
  have "fits 32 (m ! ((k + 397) mod 624))" using m by simp
  moreover have "fits 32 (drop_bit 1 y)"
    unfolding y_def using m assms(3) fits_numerals32 by (blast intro: fits_bitwise)
  moreover have "fits 32 (mag y)" by (simp add: mag_def fits_numerals32)
  ultimately have "fits 32 (m ! ((k + 397) mod 624) XOR drop_bit 1 y XOR mag y)"
    by (blast intro: fits_bitwise)
  with assms(1) show ?thesis
    unfolding recur32_def Let_def y_def by (rule words_fit_update)
qed

lemma seed_words32_fits: "words_fit 32 m \<Longrightarrow> words_fit 32 (seed_words32 sd m)"
  unfolding seed_words32_def
  by (intro words_fit_fold_updates words_fit_update fits_mask_const fits_numerals32)

section \<open>The interpretation\<close>

definition reseed32 :: "int list \<Rightarrow> int list" where
  "reseed32 m = seed_words32 5489 m"

lemma int32_block:
  assumes "mt_wf 624 s"
  shows "int32 s =
      (let m0 = (if mti s = int 624 + 1 then reseed32 (mt s) else mt s);
           (m, k) = (if mti s \<ge> int 624 then (fold recur32 [0..<624] m0, 0) else (mt s, mti s))
       in Inr (temper (m ! nat k), \<lparr>mt = m, mti = k + 1\<rparr>))"
proof -
  have len: "length (mt s) = 624" and range: "0 \<le> mti s" "mti s \<le> 625"
    using assms by (auto simp: mt_wf_def)
  have lenf: "length (fold recur32 ks m) = length m" for ks m
    by (induction ks arbitrary: m) auto
  have block: "rbind (rfold twist_at [0..622] m) (\<lambda>m. rbind (twist_last m) f) = f (fold recur32 [0..<624] m)"
    if "length m = 624" for m and f :: "int list \<Rightarrow> mt_state result"
    using block_recur [OF that] by (metis rbind_assoc rbind_simps(2))
  note [simp del] = upt_rec_numeral upto_rec_numeral upt_conv_Cons
  show ?thesis
    using range len seed_words [OF len, of 5489]
    by (auto simp: int32_def block lenf py_get_pos reseed32_def Let_def)
qed

lemma int32b_element:
  assumes "mt_wf 624 s"
  shows "int32b s =
      (let m0 = (if mti s = int 624 + 1 then reseed32 (mt s) else mt s);
           k = (if mti s \<ge> int 624 then 0 else nat (mti s));
           m = recur32 k m0
       in Inr (temper (m ! k), \<lparr>mt = m, mti = int k + 1\<rparr>))"
proof -
  have len: "length (mt s) = 624" and range: "0 \<le> mti s" "mti s \<le> 625"
    using assms by (auto simp: mt_wf_def)
  have twist: "twist_at k m = Inr (recur32 (nat k) m)" if "length m = 624" "0 \<le> k" "k < 623" for k m
    using that twist_at_recur [of m "nat k"] by simp
  have first: "twist_at 0 m = Inr (recur32 0 m)" if "length m = 624" for m
    using twist [of m 0] that by simp
  show ?thesis
    using range len seed_words [OF len, of 5489]
    by (cases s) (auto simp: int32b_def py_get_pos reseed32_def twist first twist_last_recur Let_def)
qed

interpretation mt32: twist_generator 624 32 recur32 temper reseed32 int32 int32b
proof unfold_locales
  show "int32 s = (let m0 = (if mti s = int 624 + 1 then reseed32 (mt s) else mt s);
           (m, k) = (if mti s \<ge> int 624 then (fold recur32 [0..<624] m0, 0) else (mt s, mti s))
       in Inr (temper (m ! nat k), \<lparr>mt = m, mti = k + 1\<rparr>))" if "mt_wf 624 s" for s
    using that by (rule int32_block)
  show "int32b s = (let m0 = (if mti s = int 624 + 1 then reseed32 (mt s) else mt s);
           k = (if mti s \<ge> int 624 then 0 else nat (mti s)); m = recur32 k m0
       in Inr (temper (m ! k), \<lparr>mt = m, mti = int k + 1\<rparr>))" if "mt_wf 624 s" for s
    using that by (rule int32b_element)
  show "length m = 624 \<Longrightarrow> length (reseed32 m) = 624" for m
    using seed_words [of "\<lparr>mt = m, mti = 0\<rparr>" 5489] by (simp add: reseed32_def)
  show "words_fit 32 m \<Longrightarrow> words_fit 32 (reseed32 m)" for m
    by (simp add: reseed32_def seed_words32_fits)
  show "fits 32 y \<Longrightarrow> fits 32 (temper y)" for y by (rule temper_fits)
  show "words_fit 32 m \<Longrightarrow> length m = 624 \<Longrightarrow> k < 624 \<Longrightarrow> words_fit 32 (recur32 k m)" for m k
    by (rule recur32_fits)
qed (simp_all add: recur32_def Let_def)



section \<open>Initialisation by an array\<close>

definition key_inv :: "int list \<Rightarrow> int list \<times> int \<times> int \<Rightarrow> bool" where
  "key_inv key = (\<lambda>(m, i, j). length m = 624 \<and> words_fit 32 m \<and> 1 \<le> i \<and> i \<le> 623 \<and>
     0 \<le> j \<and> j < int (length key))"

definition mix_inv :: "int list \<times> int \<Rightarrow> bool" where
  "mix_inv = (\<lambda>(m, i). length m = 624 \<and> words_fit 32 m \<and> 1 \<le> i \<and> i \<le> 623)"

lemma key_step_total: "key_inv key st \<Longrightarrow> \<exists>st'. key_step key st = Inr st' \<and> key_inv key st'"
  by (cases st) (auto simp: key_step_def key_inv_def py_get_pos py_set_pos Let_def
      words_fit_update fits_mask_const fits_numerals32 words_fit_nth)

lemma mix_step_total: "mix_inv st \<Longrightarrow> \<exists>st'. mix_step st = Inr st' \<and> mix_inv st'"
  by (cases st) (auto simp: mix_step_def mix_inv_def py_get_pos py_set_pos Let_def
      words_fit_update fits_mask_const fits_numerals32 words_fit_nth)

lemma key_step_empty: "length m = 624 \<Longrightarrow> key_step [] (m, 1, 0) = Inl IndexError"
  by (simp add: key_step_def py_get_pos py_get_def [of "[]"] py_idx_def)

lemma init_by_array_total:
  assumes "mt_ok 32 624 s" and "key \<noteq> []"
  shows "\<exists>m. init_by_array key s = Inr \<lparr>mt = m, mti = 624\<rparr> \<and> mt_ok 32 624 \<lparr>mt = m, mti = 624\<rparr> \<and>
    m ! 0 = 0x80000000"
proof -
  have len: "length (mt s) = 624" and "words_fit 32 (mt s)"
    using assms(1) by (auto simp: mt_ok_def mt_wf_def)
  then have sw: "words_fit 32 (seed_words32 19650218 (mt s))" by (simp add: seed_words32_fits)
  have sd: "seed 19650218 s = Inr \<lparr>mt = seed_words32 19650218 (mt s), mti = 624\<rparr>"
    and sl: "length (seed_words32 19650218 (mt s)) = 624"
    using seed_words [OF len] by auto
  have "key_inv key (seed_words32 19650218 (mt s), 1, 0)"
    using sw sl assms(2) by (simp add: key_inv_def)
  then obtain m i j where loop1: "rfold (\<lambda>_. key_step key) [0..<max 624 (length key)]
      (seed_words32 19650218 (mt s), 1, 0) = Inr (m, i, j)" and inv1: "key_inv key (m, i, j)"
    using rfold_total [of "key_inv key"] key_step_total by (metis prod_cases3)
  from inv1 have "mix_inv (m, i)" by (simp add: key_inv_def mix_inv_def)
  then obtain m' i' where loop2: "rfold (\<lambda>_. mix_step) [0..<624] (m, i) = Inr (m', i')"
    and inv2: "mix_inv (m', i')"
    using rfold_total [of mix_inv] mix_step_total by (metis surj_pair)
  then have "length m' = 624" "words_fit 32 m'" by (simp_all add: mix_inv_def)
  with sd loop1 loop2 show ?thesis
    by (simp add: init_by_array_def py_set_pos mt_ok_def mt_wf_def words_fit_update fits_numerals32
        del: upt_rec_numeral)
qed

lemma init_by_array_empty:
  assumes "length (mt s) = 624"
  shows "init_by_array [] s = Inl IndexError"
proof -
  have loop: "rfold (\<lambda>_. key_step []) [0..<max 624 (length ([] :: int list))] (m, 1, 0) = Inl IndexError"
    if "length m = 624" for m
  proof -
    have "[0..<max 624 (length ([] :: int list))] = 0 # [Suc 0..<624]"
      using upt_conv_Cons [of 0 624] by (simp del: upt_rec_numeral)
    then show ?thesis using key_step_empty [OF that] by (simp only: rfold.simps rbind_simps)
  qed
  have "seed 19650218 s = Inr \<lparr>mt = seed_words32 19650218 (mt s), mti = 624\<rparr>"
    and "length (seed_words32 19650218 (mt s)) = 624"
    using seed_words [OF assms] by auto
  then show ?thesis
    unfolding init_by_array_def by (simp only: rbind_simps mt_state.simps loop)
qed


section \<open>Properties\<close>

definition mt_comb :: "int \<Rightarrow> int \<Rightarrow> int \<Rightarrow> int" where
  "mt_comb a b c =
     (let y = (a AND 0x80000000) OR (b AND 0x7fffffff) in c XOR drop_bit 1 y XOR mag y)"

interpretation mt32_rec: recurrence_generator 624 32 recur32 temper reseed32 int32 int32b 397 mt_comb
  by unfold_locales (simp_all add: recur32_def mt_comb_def)

text \<open>C31: from a freshly seeded or freshly made generator, drawing with \<open>int32\<close> (which
  regenerates the whole array every 624 draws) and drawing with \<open>int32b\<close> (which updates
  one word per draw) never raise and give the same numbers, for any number of draws.\<close>

theorem int32_int32b_same_stream:
  assumes "mt_wf 624 s" and "624 \<le> mti s"
  shows "\<exists>xs s' t'. draws int32 n s = Inr (xs, s') \<and> draws int32b n s = Inr (xs, t') \<and> length xs = n"
  using assms by (intro mt32.same_stream mt32.fresh_in_step) simp_all

theorem int32_int32b_same_stream_witness:
  "\<exists>xs s' t'. draws int32 1000 mt19937_new = Inr (xs, s') \<and> draws int32b 1000 mt19937_new = Inr (xs, t') \<and>
     length xs = 1000"
  by (rule int32_int32b_same_stream) (simp_all add: mt_wf_def mt19937_new_def)

text \<open>C30: after \<open>seed\<close> or \<open>init_by_array\<close> both methods give, tempered, the words
  624, 625, \<open>\<dots>\<close> of the published linear recurrence started from the array.\<close>

theorem int32_follows_recurrence:
  assumes "length (mt s) = 624" and "mti s = 624"
  shows "\<exists>s' t'.
    draws int32 n s = Inr (map (\<lambda>i. temper (lin_word 624 397 mt_comb (mt s) (624 + i))) [0..<n], s') \<and>
    draws int32b n s = Inr (map (\<lambda>i. temper (lin_word 624 397 mt_comb (mt s) (624 + i))) [0..<n], t')"
  using assms by (intro mt32_rec.both_streams) simp_all

theorem int32_follows_recurrence_witness:
  "\<exists>s' t'.
    draws int32 700 \<lparr>mt = replicate 624 1, mti = 624\<rparr> =
      Inr (map (\<lambda>i. temper (lin_word 624 397 mt_comb (replicate 624 1) (624 + i))) [0..<700], s') \<and>
    draws int32b 700 \<lparr>mt = replicate 624 1, mti = 624\<rparr> =
      Inr (map (\<lambda>i. temper (lin_word 624 397 mt_comb (replicate 624 1) (624 + i))) [0..<700], t')"
  using int32_follows_recurrence [of "\<lparr>mt = replicate 624 1, mti = 624\<rparr>" 700]
  by (simp only: mt_state.simps length_replicate simp_thms)

text \<open>C32: \<open>init_by_array\<close> on a generator raises \<open>IndexError\<close> exactly when the key is
  empty; otherwise the array is 624 words of 32 bits whose first word is \<open>0x80000000\<close> (so it
  is not all zero), and every later draw of either method succeeds with a 32-bit number and keeps
  the array well formed.\<close>

theorem init_by_array_correct:
  assumes "mt_ok 32 624 s"
  shows "(init_by_array key s = Inl IndexError \<longleftrightarrow> key = []) \<and>
    (key \<noteq> [] \<longrightarrow> (\<exists>s1. init_by_array key s = Inr s1 \<and> mt_ok 32 624 s1 \<and> mti s1 = 624 \<and>
        mt s1 ! 0 = 0x80000000)) \<and>
    (\<exists>y s'. int32 s = Inr (y, s') \<and> fits 32 y \<and> mt_ok 32 624 s') \<and>
    (\<exists>y s'. int32b s = Inr (y, s') \<and> fits 32 y \<and> mt_ok 32 624 s')"
proof -
  have "length (mt s) = 624" using assms by (simp add: mt_ok_def mt_wf_def)
  with init_by_array_total [OF assms] init_by_array_empty [of s]
    mt32.blk_ok [OF assms] mt32.inc_ok [OF assms] show ?thesis
    by (cases "key = []") (force, fastforce)
qed

theorem init_by_array_correct_witness:
  "mt_ok 32 624 mt19937_new \<and>
   (\<exists>s1. init_by_array [0x123, 0x234, 0x345, 0x456] mt19937_new = Inr s1 \<and> mt s1 ! 0 = 0x80000000) \<and>
   init_by_array [] mt19937_new = Inl IndexError"
proof -
  have ok: "mt_ok 32 624 mt19937_new"
    by (simp add: mt_ok_def mt_wf_def mt19937_new_def words_fit_def fits_def)
  show ?thesis
    using ok init_by_array_correct [OF ok, of "[]"] init_by_array_correct [OF ok, of "[0x123, 0x234, 0x345, 0x456]"]
    by blast
qed

end
