(* ===== verification/Mersenne64.thy ===== *)
theory Mersenne64 imports Mersenne begin

text \<open>
  The 64-bit generator of \<^verbatim>\<open>src/src/math/tb/mt19937_64.py\<close>, the second
  interpretation of \<open>twist_generator\<close>.  Its \<open>int64\<close> and \<open>int64b\<close> read
  \<open>mt[k+156-624]\<close> for the upper half of the array: 624 is the length of the 32-bit
  generator's array, so the index is negative and Python counts it from the end of the 312
  words, which is word \<open>k - 156\<close> all the same.
\<close>

section \<open>MT19937-64\<close>

definition mt19937_64_new :: mt_state where
  "mt19937_64_new = \<lparr>mt = replicate 312 0, mti = 313\<rparr>"

text \<open>One step of the loop of \<open>seed\<close>.\<close>

definition seed64_step :: "int \<Rightarrow> int list \<Rightarrow> int list result" where
  "seed64_step i m =
     rbind (py_get m (i - 1)) (\<lambda>p.
       py_set m i ((6364136223846793005 * (p XOR drop_bit 62 p) + i) AND 0xffffffffffffffff))"

definition seed64 :: "int \<Rightarrow> mt_state \<Rightarrow> mt_state result" where
  "seed64 sd s =
     rbind (py_set (mt s) 0 (sd AND 0xffffffffffffffff)) (\<lambda>m0.
     rbind (rfold seed64_step [1..311] m0) (\<lambda>m.
       Inr (s\<lparr>mt := m, mti := 312\<rparr>)))"

text \<open>The two loops of \<open>init_by_array\<close>; the loop state is the array with \<open>i\<close> and
  \<open>j\<close>.\<close>

definition key64_step :: "int list \<Rightarrow> int list \<times> int \<times> int \<Rightarrow> (int list \<times> int \<times> int) result" where
  "key64_step key = (\<lambda>(m, i, j).
     rbind (py_get m i) (\<lambda>a. rbind (py_get m (i - 1)) (\<lambda>p. rbind (py_get key j) (\<lambda>kj.
     rbind (py_set m i (((a XOR ((p XOR drop_bit 62 p) * 3935559000370003845)) + kj + j) AND 0xffffffffffffffff)) (\<lambda>m1.
     let i1 = i + 1; j1 = j + 1 in
     rbind (if i1 \<ge> 312 then rbind (py_get m1 311) (\<lambda>l. rbind (py_set m1 0 l) (\<lambda>m2. Inr (m2, 1)))
            else Inr (m1, i1)) (\<lambda>(m2, i2).
     Inr (m2, i2, if j1 \<ge> int (length key) then 0 else j1)))))))"

definition mix64_step :: "int list \<times> int \<Rightarrow> (int list \<times> int) result" where
  "mix64_step = (\<lambda>(m, i).
     rbind (py_get m i) (\<lambda>a. rbind (py_get m (i - 1)) (\<lambda>p.
     rbind (py_set m i (((a XOR ((p XOR drop_bit 62 p) * 2862933555777941757)) - i) AND 0xffffffffffffffff)) (\<lambda>m1.
     let i1 = i + 1 in
     if i1 \<ge> 312 then rbind (py_get m1 311) (\<lambda>l. rbind (py_set m1 0 l) (\<lambda>m2. Inr (m2, 1)))
     else Inr (m1, i1)))))"

definition init_by_array64 :: "int list \<Rightarrow> mt_state \<Rightarrow> mt_state result" where
  "init_by_array64 key s =
     rbind (seed64 19650218 s) (\<lambda>s0.
     rbind (rfold (\<lambda>_. key64_step key) [0..<max 312 (length key)] (mt s0, 1, 0)) (\<lambda>(m, i, j).
     rbind (rfold (\<lambda>_. mix64_step) [0..<312] (m, i)) (\<lambda>(m', i').
     rbind (py_set m' 0 (push_bit 63 1)) (\<lambda>m''. Inr (s0\<lparr>mt := m''\<rparr>)))))"

definition mag64 :: "int \<Rightarrow> int" where
  "mag64 y = (if y AND 1 \<noteq> 0 then 0xB5026F5AA96619E9 else 0)"

definition twist64_at :: "int \<Rightarrow> int list \<Rightarrow> int list result" where
  "twist64_at k m =
     rbind (py_get m k) (\<lambda>a. rbind (py_get m (k + 1)) (\<lambda>b.
     let y = (a AND 0xFFFFFFFF80000000) OR (b AND 0x7fffffff) in
     if k < 312 - 156
     then rbind (py_get m (k + 156)) (\<lambda>c. py_set m k (c XOR drop_bit 1 y XOR mag64 y))
     else rbind (py_get m (k + 156 - 624)) (\<lambda>c. py_set m k (c XOR drop_bit 1 y XOR mag64 y))))"

definition twist64_last :: "int list \<Rightarrow> int list result" where
  "twist64_last m =
     rbind (py_get m 311) (\<lambda>a. rbind (py_get m 0) (\<lambda>b.
     let y = (a AND 0xFFFFFFFF80000000) OR (b AND 0x7fffffff) in
     rbind (py_get m 155) (\<lambda>c. py_set m 311 (c XOR drop_bit 1 y XOR mag64 y))))"

definition temper64 :: "int \<Rightarrow> int" where
  "temper64 y0 =
     (let y1 = y0 XOR (drop_bit 29 y0 AND 0x5555555555555555);
          y2 = y1 XOR (push_bit 17 y1 AND 0x71D67FFFEDA60000);
          y3 = y2 XOR (push_bit 37 y2 AND 0xFFF7EEE000000000)
      in y3 XOR drop_bit 43 y3)"

definition int64 :: "mt_state \<Rightarrow> (int \<times> mt_state) result" where
  "int64 s =
     rbind (if mti s \<ge> 312
            then rbind (if mti s = 313 then seed64 5489 s else Inr s) (\<lambda>s0.
                 rbind (rfold twist64_at [0..310] (mt s0)) (\<lambda>m.
                 rbind (twist64_last m) (\<lambda>m'. Inr (s0\<lparr>mt := m', mti := 0\<rparr>))))
            else Inr s) (\<lambda>s1.
     rbind (py_get (mt s1) (mti s1)) (\<lambda>y.
     Inr (temper64 y, s1\<lparr>mti := mti s1 + 1\<rparr>)))"

definition int64b :: "mt_state \<Rightarrow> (int \<times> mt_state) result" where
  "int64b s =
     rbind (if mti s = 313 then seed64 5489 s else Inr s) (\<lambda>s0.
     let (k, s1) = (if mti s0 = 312 then (0, s0\<lparr>mti := 0\<rparr>) else (mti s0, s0)) in
     rbind (if k = 311 then twist64_last (mt s1) else twist64_at k (mt s1)) (\<lambda>m.
     rbind (py_get m (mti s1)) (\<lambda>y.
     Inr (temper64 y, s1\<lparr>mt := m, mti := mti s1 + 1\<rparr>))))"


section \<open>The recurrence\<close>

text \<open>The published recurrence on word \<open>k\<close>, indices modulo 312; the reads with a negative index reach the same words.\<close>

definition recur64 :: "nat \<Rightarrow> int list \<Rightarrow> int list" where
  "recur64 k m =
     (let y = (m ! k AND 0xFFFFFFFF80000000) OR (m ! ((k + 1) mod 312) AND 0x7fffffff)
      in m[k := m ! ((k + 156) mod 312) XOR drop_bit 1 y XOR mag64 y])"

definition seed_words64 :: "int \<Rightarrow> int list \<Rightarrow> int list" where
  "seed_words64 sd m =
     fold (\<lambda>i m. m[nat i := (6364136223846793005 * (m ! nat (i - 1) XOR drop_bit 62 (m ! nat (i - 1))) + i)
                      AND 0xffffffffffffffff])
       [1..311] (m[0 := sd AND 0xffffffffffffffff])"

lemma twist64_at_recur: "length m = 312 \<Longrightarrow> k < 311 \<Longrightarrow> twist64_at (int k) m = Inr (recur64 k m)"
proof -
  assume h: "length m = 312" "k < 311"
  then have "(k + 1) mod 312 = k + 1" by simp
  moreover have "(k + 156) mod 312 = (if k < 156 then k + 156 else k - 156)"
    using h by (auto simp: mod_if)
  moreover have "nat (int k + 156) = k + 156" "nat (int k + 1) = k + 1" by simp_all
  moreover have "py_get m (int k + 156 - 624) = Inr (m ! (k - 156))" if "\<not> k < 156"
    using that h by (simp add: py_get_def py_idx_neg nat_diff_distrib)
  ultimately show ?thesis
    using h by (auto simp: twist64_at_def recur64_def py_get_pos py_set_pos Let_def)
qed

lemma twist64_last_recur: "length m = 312 \<Longrightarrow> twist64_last m = Inr (recur64 311 m)"
  by (simp add: twist64_last_def recur64_def py_get_pos py_set_pos Let_def)

lemma length_recur64 [simp]: "length (recur64 k m) = length m"
  by (simp add: recur64_def Let_def)

lemma seed_words_64:
  assumes "length (mt s) = 312"
  shows "seed64 sd s = Inr \<lparr>mt = seed_words64 sd (mt s), mti = 312\<rparr> \<and> length (seed_words64 sd (mt s)) = 312"
proof -
  have "rfold seed64_step [1..311] m = Inr (fold (\<lambda>i m. m[nat i := (6364136223846793005 *
      (m ! nat (i - 1) XOR drop_bit 62 (m ! nat (i - 1))) + i) AND 0xffffffffffffffff]) [1..311] m) \<and>
    length (fold (\<lambda>i m. m[nat i := (6364136223846793005 *
      (m ! nat (i - 1) XOR drop_bit 62 (m ! nat (i - 1))) + i) AND 0xffffffffffffffff]) [1..311] m) = 312"
    if "length m = 312" for m
    using that by (intro rfold_pure) (auto simp: seed64_step_def py_get_pos py_set_pos)
  from this [of "(mt s)[0 := sd AND 0xffffffffffffffff]"] assms show ?thesis
    by (simp add: seed64_def seed_words64_def py_set_pos)
qed

lemma block64_recur:
  assumes "length m = 312"
  shows "rbind (rfold twist64_at [0..310] m) twist64_last = Inr (fold recur64 [0..<312] m)"
proof -
  have split: "[0..<312] = [0..<311] @ [311::nat]"
    using upt_Suc_append [of 0 "311::nat"] by simp
  have "map int [0..<311] = [0..310]"
    by (simp add: map_int_upt del: upt_rec_numeral upto_rec_numeral)
  moreover have "rfold twist64_at (map int ks) m = Inr (fold recur64 ks m)
      \<and> length (fold recur64 ks m) = 312" if "\<forall>k \<in> set ks. k < 311" for ks
    using that assms by (induction ks arbitrary: m) (auto simp: twist64_at_recur)
  from this [of "[0..<311]"] have "rfold twist64_at (map int [0..<311]) m = Inr (fold recur64 [0..<311] m)"
    "length (fold recur64 [0..<311] m) = 312"
    by auto
  ultimately show ?thesis
    unfolding split by (simp add: twist64_last_recur del: upt_rec_numeral upto_rec_numeral)
qed


section \<open>Ranges of the 64-bit words\<close>

lemma temper64_fits: "fits 64 y \<Longrightarrow> fits 64 (temper64 y)"
proof -
  assume "fits 64 y"
  moreover have "fits 64 0x71D67FFFEDA60000" "fits 64 0xFFF7EEE000000000" by (simp_all add: fits_def)
  ultimately show ?thesis unfolding temper64_def Let_def by (blast intro: fits_bitwise)
qed

lemma fits_numerals64:
  "fits 64 0xB5026F5AA96619E9" "fits 64 0xFFFFFFFF80000000" "fits 64 0x8000000000000000" "fits 64 0x7fffffff" "fits 64 0xffffffffffffffff"
  by (simp_all add: fits_def)

lemma recur64_fits:
  assumes "words_fit 64 m" "length m = 312" "k < 312"
  shows "words_fit 64 (recur64 k m)"
proof -
  have m: "fits 64 (m ! i)" if "i < 312" for i using assms that by (simp add: words_fit_nth)
  define y where "y = (m ! k AND 0xFFFFFFFF80000000) OR (m ! ((k + 1) mod 312) AND 0x7fffffff)"
  have "fits 64 (m ! ((k + 156) mod 312))" using m by simp
  moreover have "fits 64 (drop_bit 1 y)"
    unfolding y_def using m assms(3) fits_numerals64 by (blast intro: fits_bitwise)
  moreover have "fits 64 (mag64 y)" by (simp add: mag64_def fits_numerals64)
  ultimately have "fits 64 (m ! ((k + 156) mod 312) XOR drop_bit 1 y XOR mag64 y)"
    by (blast intro: fits_bitwise)
  with assms(1) show ?thesis
    unfolding recur64_def Let_def y_def by (rule words_fit_update)
qed

lemma seed_words64_fits: "words_fit 64 m \<Longrightarrow> words_fit 64 (seed_words64 sd m)"
  unfolding seed_words64_def
  by (intro words_fit_fold_updates words_fit_update fits_mask_const fits_numerals64)

section \<open>The interpretation\<close>

definition reseed64 :: "int list \<Rightarrow> int list" where
  "reseed64 m = seed_words64 5489 m"

lemma int64_block:
  assumes "mt_wf 312 s"
  shows "int64 s =
      (let m0 = (if mti s = int 312 + 1 then reseed64 (mt s) else mt s);
           (m, k) = (if mti s \<ge> int 312 then (fold recur64 [0..<312] m0, 0) else (mt s, mti s))
       in Inr (temper64 (m ! nat k), \<lparr>mt = m, mti = k + 1\<rparr>))"
proof -
  have len: "length (mt s) = 312" and range: "0 \<le> mti s" "mti s \<le> 313"
    using assms by (auto simp: mt_wf_def)
  have lenf: "length (fold recur64 ks m) = length m" for ks m
    by (induction ks arbitrary: m) auto
  have block: "rbind (rfold twist64_at [0..310] m) (\<lambda>m. rbind (twist64_last m) f) = f (fold recur64 [0..<312] m)"
    if "length m = 312" for m and f :: "int list \<Rightarrow> mt_state result"
    using block64_recur [OF that] by (metis rbind_assoc rbind_simps(2))
  note [simp del] = upt_rec_numeral upto_rec_numeral upt_conv_Cons
  show ?thesis
    using range len seed_words_64 [OF len, of 5489]
    by (auto simp: int64_def block lenf py_get_pos reseed64_def Let_def)
qed

lemma int64b_element:
  assumes "mt_wf 312 s"
  shows "int64b s =
      (let m0 = (if mti s = int 312 + 1 then reseed64 (mt s) else mt s);
           k = (if mti s \<ge> int 312 then 0 else nat (mti s));
           m = recur64 k m0
       in Inr (temper64 (m ! k), \<lparr>mt = m, mti = int k + 1\<rparr>))"
proof -
  have len: "length (mt s) = 312" and range: "0 \<le> mti s" "mti s \<le> 313"
    using assms by (auto simp: mt_wf_def)
  have twist: "twist64_at k m = Inr (recur64 (nat k) m)" if "length m = 312" "0 \<le> k" "k < 311" for k m
    using that twist64_at_recur [of m "nat k"] by simp
  have first: "twist64_at 0 m = Inr (recur64 0 m)" if "length m = 312" for m
    using twist [of m 0] that by simp
  show ?thesis
    using range len seed_words_64 [OF len, of 5489]
    by (cases s) (auto simp: int64b_def py_get_pos reseed64_def twist first twist64_last_recur Let_def)
qed

interpretation mt64: twist_generator 312 64 recur64 temper64 reseed64 int64 int64b
proof unfold_locales
  show "int64 s = (let m0 = (if mti s = int 312 + 1 then reseed64 (mt s) else mt s);
           (m, k) = (if mti s \<ge> int 312 then (fold recur64 [0..<312] m0, 0) else (mt s, mti s))
       in Inr (temper64 (m ! nat k), \<lparr>mt = m, mti = k + 1\<rparr>))" if "mt_wf 312 s" for s
    using that by (rule int64_block)
  show "int64b s = (let m0 = (if mti s = int 312 + 1 then reseed64 (mt s) else mt s);
           k = (if mti s \<ge> int 312 then 0 else nat (mti s)); m = recur64 k m0
       in Inr (temper64 (m ! k), \<lparr>mt = m, mti = int k + 1\<rparr>))" if "mt_wf 312 s" for s
    using that by (rule int64b_element)
  show "length m = 312 \<Longrightarrow> length (reseed64 m) = 312" for m
    using seed_words_64 [of "\<lparr>mt = m, mti = 0\<rparr>" 5489] by (simp add: reseed64_def)
  show "words_fit 64 m \<Longrightarrow> words_fit 64 (reseed64 m)" for m
    by (simp add: reseed64_def seed_words64_fits)
  show "fits 64 y \<Longrightarrow> fits 64 (temper64 y)" for y by (rule temper64_fits)
  show "words_fit 64 m \<Longrightarrow> length m = 312 \<Longrightarrow> k < 312 \<Longrightarrow> words_fit 64 (recur64 k m)" for m k
    by (rule recur64_fits)
qed (simp_all add: recur64_def Let_def)



section \<open>Initialisation by an array\<close>

definition key64_inv :: "int list \<Rightarrow> int list \<times> int \<times> int \<Rightarrow> bool" where
  "key64_inv key = (\<lambda>(m, i, j). length m = 312 \<and> words_fit 64 m \<and> 1 \<le> i \<and> i \<le> 311 \<and>
     0 \<le> j \<and> j < int (length key))"

definition mix64_inv :: "int list \<times> int \<Rightarrow> bool" where
  "mix64_inv = (\<lambda>(m, i). length m = 312 \<and> words_fit 64 m \<and> 1 \<le> i \<and> i \<le> 311)"

lemma key64_step_total: "key64_inv key st \<Longrightarrow> \<exists>st'. key64_step key st = Inr st' \<and> key64_inv key st'"
  by (cases st) (auto simp: key64_step_def key64_inv_def py_get_pos py_set_pos Let_def
      words_fit_update fits_mask_const fits_numerals64 words_fit_nth)

lemma mix64_step_total: "mix64_inv st \<Longrightarrow> \<exists>st'. mix64_step st = Inr st' \<and> mix64_inv st'"
  by (cases st) (auto simp: mix64_step_def mix64_inv_def py_get_pos py_set_pos Let_def
      words_fit_update fits_mask_const fits_numerals64 words_fit_nth)

lemma key64_step_empty: "length m = 312 \<Longrightarrow> key64_step [] (m, 1, 0) = Inl IndexError"
  by (simp add: key64_step_def py_get_pos py_get_def [of "[]"] py_idx_def)

lemma init_by_array64_total:
  assumes "mt_ok 64 312 s" and "key \<noteq> []"
  shows "\<exists>m. init_by_array64 key s = Inr \<lparr>mt = m, mti = 312\<rparr> \<and> mt_ok 64 312 \<lparr>mt = m, mti = 312\<rparr> \<and>
    m ! 0 = push_bit 63 1"
proof -
  have len: "length (mt s) = 312" and "words_fit 64 (mt s)"
    using assms(1) by (auto simp: mt_ok_def mt_wf_def)
  then have sw: "words_fit 64 (seed_words64 19650218 (mt s))" by (simp add: seed_words64_fits)
  have sd: "seed64 19650218 s = Inr \<lparr>mt = seed_words64 19650218 (mt s), mti = 312\<rparr>"
    and sl: "length (seed_words64 19650218 (mt s)) = 312"
    using seed_words_64 [OF len] by auto
  have "key64_inv key (seed_words64 19650218 (mt s), 1, 0)"
    using sw sl assms(2) by (simp add: key64_inv_def)
  then obtain m i j where loop1: "rfold (\<lambda>_. key64_step key) [0..<max 312 (length key)]
      (seed_words64 19650218 (mt s), 1, 0) = Inr (m, i, j)" and inv1: "key64_inv key (m, i, j)"
    using rfold_total [of "key64_inv key"] key64_step_total by (metis prod_cases3)
  from inv1 have "mix64_inv (m, i)" by (simp add: key64_inv_def mix64_inv_def)
  then obtain m' i' where loop2: "rfold (\<lambda>_. mix64_step) [0..<312] (m, i) = Inr (m', i')"
    and inv2: "mix64_inv (m', i')"
    using rfold_total [of mix64_inv] mix64_step_total by (metis surj_pair)
  then have "length m' = 312" "words_fit 64 m'" by (simp_all add: mix64_inv_def)
  with sd loop1 loop2 show ?thesis
    by (simp add: init_by_array64_def py_set_pos mt_ok_def mt_wf_def words_fit_update fits_numerals64
        del: upt_rec_numeral)
qed

lemma init_by_array64_empty:
  assumes "length (mt s) = 312"
  shows "init_by_array64 [] s = Inl IndexError"
proof -
  have loop: "rfold (\<lambda>_. key64_step []) [0..<max 312 (length ([] :: int list))] (m, 1, 0) = Inl IndexError"
    if "length m = 312" for m
  proof -
    have "[0..<max 312 (length ([] :: int list))] = 0 # [Suc 0..<312]"
      using upt_conv_Cons [of 0 312] by (simp del: upt_rec_numeral)
    then show ?thesis using key64_step_empty [OF that] by (simp only: rfold.simps rbind_simps)
  qed
  have "seed64 19650218 s = Inr \<lparr>mt = seed_words64 19650218 (mt s), mti = 312\<rparr>"
    and "length (seed_words64 19650218 (mt s)) = 312"
    using seed_words_64 [OF assms] by auto
  then show ?thesis
    unfolding init_by_array64_def by (simp only: rbind_simps mt_state.simps loop)
qed


section \<open>Properties\<close>

definition mt64_comb :: "int \<Rightarrow> int \<Rightarrow> int \<Rightarrow> int" where
  "mt64_comb a b c =
     (let y = (a AND 0xFFFFFFFF80000000) OR (b AND 0x7fffffff) in c XOR drop_bit 1 y XOR mag64 y)"

interpretation mt64_rec: recurrence_generator 312 64 recur64 temper64 reseed64 int64 int64b 156 mt64_comb
  by unfold_locales (simp_all add: recur64_def mt64_comb_def)

text \<open>C33: after \<open>seed\<close> or \<open>init_by_array\<close> of the 64-bit class, \<open>int64\<close> and
  \<open>int64b\<close> never raise and both give, tempered, the words 312, 313, \<open>\<dots>\<close> of the published
  64-bit recurrence: the reads at \<open>k+156-624\<close>, which are negative, reach the right words.\<close>

theorem int64_follows_recurrence:
  assumes "length (mt s) = 312" and "mti s = 312"
  shows "\<exists>s' t'.
    draws int64 n s = Inr (map (\<lambda>i. temper64 (lin_word 312 156 mt64_comb (mt s) (312 + i))) [0..<n], s') \<and>
    draws int64b n s = Inr (map (\<lambda>i. temper64 (lin_word 312 156 mt64_comb (mt s) (312 + i))) [0..<n], t')"
  using assms by (intro mt64_rec.both_streams) simp_all

theorem int64_follows_recurrence_witness:
  "\<exists>s' t'.
    draws int64 400 \<lparr>mt = replicate 312 1, mti = 312\<rparr> =
      Inr (map (\<lambda>i. temper64 (lin_word 312 156 mt64_comb (replicate 312 1) (312 + i))) [0..<400], s') \<and>
    draws int64b 400 \<lparr>mt = replicate 312 1, mti = 312\<rparr> =
      Inr (map (\<lambda>i. temper64 (lin_word 312 156 mt64_comb (replicate 312 1) (312 + i))) [0..<400], t')"
  using int64_follows_recurrence [of "\<lparr>mt = replicate 312 1, mti = 312\<rparr>" 400]
  by (simp only: mt_state.simps length_replicate simp_thms)

end
