(* ===== verification/Xfcp.thy ===== *)
theory Xfcp imports Prelude begin

text \<open>
  The XFCP test model, \<^verbatim>\<open>src/src/xfcp/tb/xfcp.py\<close>: the COBS byte-stuffing code
  (\<open>cobs_encode\<close>, \<open>cobs_decode\<close>) and the frame format of \<open>XfcpFrame\<close>
  (\<open>build\<close>, \<open>parse\<close> and their COBS variants).  Both are interpretations of the
  interface \<open>codec\<close>, stacked by \<open>codec_stack\<close>.
\<close>

section \<open>COBS\<close>

text \<open>The loop state is the output, the segment being collected, its code and the flag
  \<open>new_data\<close>.\<close>

definition cobs_step :: "int \<Rightarrow> bytes \<times> bytes \<times> int \<times> bool \<Rightarrow> bytes \<times> bytes \<times> int \<times> bool" where
  "cobs_step b = (\<lambda>(enc, seg, code, new_data).
     if b = 0 then (enc @ [code] @ seg, [], 1, True)
     else
       let code' = code + 1; seg' = seg @ [b] in
       if code' = 255 then (enc @ [code'] @ seg', [], 1, False)
       else (enc, seg', code', True))"

definition cobs_encode :: "bytes \<Rightarrow> bytes" where
  "cobs_encode block =
     (let (enc, seg, code, new_data) = fold cobs_step block ([], [], 1, True)
      in if new_data then enc @ [code] @ seg else enc)"

function cobs_decode_loop :: "bytes \<Rightarrow> nat \<Rightarrow> bytes \<Rightarrow> bytes option" where
  "cobs_decode_loop block i dec =
     (if i < length block then
        let code = block ! i; i1 = i + 1 in
        if int i1 + code - 1 > int (length block) then None
        else
          let dec1 = dec @ py_slice i1 (i1 + nat (code - 1)) block;
              i2 = i1 + nat (code - 1);
              dec2 = (if code < 255 \<and> i2 < length block then dec1 @ [0] else dec1)
          in cobs_decode_loop block i2 dec2
      else Some dec)"
  by pat_completeness auto
termination
  by (relation "measure (\<lambda>(block, i, dec). length block - i)") auto

declare cobs_decode_loop.simps [simp del]

definition cobs_decode :: "bytes \<Rightarrow> bytes option" where
  "cobs_decode block = (if 0 \<in> set block then None else cobs_decode_loop block 0 [])"

section \<open>Decoding as a recursion on the remaining bytes\<close>

function cobs_read :: "bytes \<Rightarrow> bytes option" where
  "cobs_read [] = Some []"
| "cobs_read (c # xs) =
     (if int (length xs) < c - 1 then None
      else map_option (\<lambda>d. take (nat (c - 1)) xs @ (if c < 255 \<and> drop (nat (c - 1)) xs \<noteq> [] then [0] else []) @ d)
             (cobs_read (drop (nat (c - 1)) xs)))"
  by pat_completeness auto
termination
  by (relation "measure length") auto

lemma cobs_decode_loop_read:
  assumes "\<forall>x \<in> set block. 1 \<le> x"
  shows "cobs_decode_loop block i dec = map_option (\<lambda>d. dec @ d) (cobs_read (drop i block))"
  using assms
proof (induction block i dec rule: cobs_decode_loop.induct)
  case (1 block i dec)
  show ?case
  proof (cases "i < length block")
    case False
    then show ?thesis by (simp add: cobs_decode_loop.simps)
  next
    case True
    define c where "c = block ! i"
    have c: "1 \<le> c" using "1.prems" True by (simp add: c_def)
    have rest: "drop i block = c # drop (i + 1) block"
      using True by (simp add: c_def Cons_nth_drop_Suc)
    show ?thesis
    proof (cases "int (i + 1) + c - 1 > int (length block)")
      case True
      then show ?thesis
        using \<open>i < length block\<close> by (simp add: cobs_decode_loop.simps [of block i] rest c_def [symmetric])
    next
      case False
      define i2 where "i2 = i + 1 + nat (c - 1)"
      define dec2 where "dec2 = (let d1 = dec @ py_slice (i + 1) i2 block
        in if c < 255 \<and> i2 < length block then d1 @ [0] else d1)"
      have unf: "cobs_decode_loop block i dec = cobs_decode_loop block i2 dec2"
        using \<open>i < length block\<close> False
        by (simp add: cobs_decode_loop.simps [of block i dec] Let_def dec2_def c_def i2_def)
      have ih: "cobs_decode_loop block i2 dec2 = map_option (\<lambda>d. dec2 @ d) (cobs_read (drop i2 block))"
        unfolding dec2_def i2_def c_def Let_def
        by (rule "1.IH" [OF \<open>i < length block\<close> refl refl _ refl refl refl])
          (use False "1.prems" in \<open>simp_all add: c_def\<close>)
      have "drop (nat (c - 1)) (drop (i + 1) block) = drop i2 block"
        by (simp add: i2_def add.commute)
      moreover have "drop i2 block \<noteq> [] \<longleftrightarrow> i2 < length block" by (simp add: not_le)
      ultimately show ?thesis
        using False \<open>i < length block\<close> c unfolding unf ih rest
        by (cases "cobs_read (drop i2 block)") (auto simp: dec2_def py_slice_def i2_def option.map_comp comp_def)
    qed
  qed
qed

section \<open>The encoder's invariant\<close>

text \<open>
  After a prefix of the block: what is in \<open>enc\<close> decodes to \<open>out\<close> in front of
  whatever follows, provided something follows or the last chunk is a full one.
\<close>

definition cobs_inv :: "bytes \<Rightarrow> bytes \<Rightarrow> bytes \<times> bytes \<times> int \<times> bool \<Rightarrow> bool" where
  "cobs_inv p out = (\<lambda>(enc, seg, code, nd).
     p = out @ seg \<and> code = int (length seg) + 1 \<and> code < 255 \<and> (\<not> nd \<longrightarrow> seg = []) \<and>
     0 \<notin> set enc \<and> 0 \<notin> set seg \<and> is_bytes enc \<and> is_bytes seg \<and>
     (\<exists>n. length enc = length out + n \<and> 254 * n \<le> length out) \<and>
     (\<forall>tail. tail \<noteq> [] \<or> \<not> nd \<longrightarrow> cobs_read (enc @ tail) = map_option (\<lambda>d. out @ d) (cobs_read tail)))"

lemma cobs_inv_start: "cobs_inv [] [] ([], [], 1, True)"
  by (simp add: cobs_inv_def option.map_ident)

lemma cobs_read_chunk:
  "int (length seg) + 1 = c \<Longrightarrow>
   cobs_read (c # seg @ tail) =
     map_option (\<lambda>d. seg @ (if c < 255 \<and> tail \<noteq> [] then [0] else []) @ d) (cobs_read tail)"
  by auto

lemma cobs_inv_step:
  assumes inv: "cobs_inv p out st" and b: "0 \<le> b" "b < 256"
  shows "\<exists>out'. cobs_inv (p @ [b]) out' (cobs_step b st)"
proof -
  obtain enc seg code nd where st: "st = (enc, seg, code, nd)" by (cases st) auto
  note i = inv [unfolded st cobs_inv_def prod.case]
  from i obtain n where n: "length enc = length out + n" "254 * n \<le> length out" by blast
  have code: "code = int (length seg) + 1" "code < 255" using i by auto
  have tail: "cobs_read (enc @ t) = map_option (\<lambda>d. out @ d) (cobs_read t)" if "t \<noteq> []" for t
    using i that by blast
  consider "b = 0" | "b \<noteq> 0" "code + 1 = 255" | "b \<noteq> 0" "code + 1 \<noteq> 255" by blast
  then show ?thesis
  proof cases
    case 1
    have "cobs_read ((enc @ [code] @ seg) @ t) = map_option (\<lambda>d. (out @ seg @ [0]) @ d) (cobs_read t)"
      if "t \<noteq> []" for t
      using that code cobs_read_chunk [of seg code t] tail [of "code # seg @ t"]
      by (simp add: option.map_comp comp_def)
    moreover have "length (enc @ [code] @ seg) = length (out @ seg @ [0]) + n"
      "254 * n \<le> length (out @ seg @ [0])" using n by auto
    ultimately show ?thesis
      using i 1 code unfolding st
      by (intro exI [of _ "out @ seg @ [0]"]) (auto simp: cobs_inv_def cobs_step_def)
  next
    case 2
    have "cobs_read ((enc @ [255] @ seg @ [b]) @ t) = map_option (\<lambda>d. (out @ seg @ [b]) @ d) (cobs_read t)" for t
      using 2 code cobs_read_chunk [of "seg @ [b]" 255 t] tail [of "255 # (seg @ [b]) @ t"]
      by (simp add: option.map_comp comp_def)
    moreover have "length (enc @ [255] @ seg @ [b]) = length (out @ seg @ [b]) + (n + 1)"
      "254 * (n + 1) \<le> length (out @ seg @ [b])" using n 2 code by auto
    ultimately show ?thesis
      using i 2 code b unfolding st
      by (intro exI [of _ "out @ seg @ [b]"]) (auto simp: cobs_inv_def cobs_step_def)
  next
    case 3
    then show ?thesis
      using i code b unfolding st
      by (intro exI [of _ out]) (auto simp: cobs_inv_def cobs_step_def)
  qed
qed

lemma cobs_inv_fold:
  assumes "is_bytes block" and "cobs_inv p out st"
  shows "\<exists>out'. cobs_inv (p @ block) out' (fold cobs_step block st)"
  using assms
proof (induction block arbitrary: p out st)
  case Nil
  then show ?case by auto
next
  case (Cons b block)
  from Cons.prems obtain out' where "cobs_inv (p @ [b]) out' (cobs_step b st)"
    using cobs_inv_step by (metis is_bytes_simps(2))
  with Cons show ?case by (metis append_Cons append_Nil append_assoc fold_simps(2) is_bytes_simps(2))
qed

lemma cobs_encode_facts:
  assumes "is_bytes block"
  shows "cobs_read (cobs_encode block) = Some block \<and> 0 \<notin> set (cobs_encode block) \<and>
    is_bytes (cobs_encode block) \<and> length (cobs_encode block) \<le> length block + length block div 254 + 1"
proof -
  obtain out where inv: "cobs_inv block out (fold cobs_step block ([], [], 1, True))"
    using cobs_inv_fold [OF assms cobs_inv_start] by auto
  obtain enc seg code nd where st: "fold cobs_step block ([], [], 1, True) = (enc, seg, code, nd)"
    by (metis prod_cases4)
  note i = inv [unfolded st cobs_inv_def prod.case]
  have enc: "cobs_encode block = (if nd then enc @ [code] @ seg else enc)"
    by (simp add: cobs_encode_def st)
  from i obtain n where n: "length enc = length out + n" "254 * n \<le> length out" by blast
  have block: "length block = length out + length seg" using i by simp
  with n(2) have "n \<le> length block div 254"
    by (simp add: less_eq_div_iff_mult_less_eq mult.commute)
  then have len: "length (cobs_encode block) \<le> length block + length block div 254 + 1"
    using n(1) block by (simp add: enc)
  have "cobs_read (cobs_encode block) = Some block"
  proof (cases nd)
    case True
    moreover have "cobs_read (enc @ code # seg) = map_option (\<lambda>d. out @ d) (cobs_read (code # seg))"
      using i by blast
    moreover have "cobs_read (code # seg) = Some seg"
      using i cobs_read_chunk [of seg code "[]"] by simp
    ultimately show ?thesis
      unfolding enc using i by simp
  next
    case False
    moreover from this have "cobs_read (enc @ []) = map_option (\<lambda>d. out @ d) (cobs_read [])"
      using i by blast
    ultimately show ?thesis unfolding enc using i by simp
  qed
  moreover have "0 \<notin> set (cobs_encode block)" "is_bytes (cobs_encode block)"
    unfolding enc using i by auto
  ultimately show ?thesis using len by simp
qed

lemma cobs_decode_encode:
  assumes "is_bytes block"
  shows "cobs_decode (cobs_encode block) = Some block"
proof -
  have "\<forall>x \<in> set (cobs_encode block). 1 \<le> x"
    using cobs_encode_facts [OF assms]
    by (auto simp: is_bytes_def) (metis linorder_not_le int_one_le_iff_zero_less order_le_less)
  then show ?thesis
    using cobs_encode_facts [OF assms]
    by (simp add: cobs_decode_def cobs_decode_loop_read option.map_ident)
qed


section \<open>Frames\<close>

record xfcp_frame =
  payload :: bytes
  path :: "int list"
  rpath :: "int list"
  ptype :: int

text \<open>\<open>build\<close>: every field goes through \<open>struct.pack('B', \<dots>)\<close>, which raises on a value that
  is not a byte; the payload is already a bytes object.\<close>

definition build :: "xfcp_frame \<Rightarrow> bytes result" where
  "build f =
     rbind (rmap pack_B (path f)) (\<lambda>p.
     rbind (if rpath f \<noteq> [] then rbind (rmap pack_B (rpath f)) (\<lambda>r. Inr (0xFE # r)) else Inr []) (\<lambda>r.
     rbind (pack_B (ptype f)) (\<lambda>t.
     Inr (p @ r @ [0xFF] @ [t] @ payload f))))"

definition build_cobs :: "xfcp_frame \<Rightarrow> bytes result" where
  "build_cobs f = rbind (build f) (\<lambda>d. Inr (cobs_encode d @ [0]))"

text \<open>The scanning loops of \<open>parse\<close>: collect bytes below \<open>0xFE\<close> from position
  \<open>i\<close> on.\<close>

function scan :: "bytes \<Rightarrow> nat \<Rightarrow> bytes \<Rightarrow> bytes \<times> nat" where
  "scan data i acc =
     (if i < length data \<and> data ! i < 0xFE then scan data (i + 1) (acc @ [data ! i])
      else (acc, i))"
  by pat_completeness auto
termination
  by (relation "measure (\<lambda>(data, i, acc). length data - i)") auto

declare scan.simps [simp del]

definition parse :: "bytes \<Rightarrow> xfcp_frame result" where
  "parse data =
     (let (p, i) = scan data 0 [] in
      rbind (py_get data (int i)) (\<lambda>b.
      let (r, i2) = (if b = 0xFE then scan data (i + 1) [] else ([], i)) in
      rbind (py_get data (int i2)) (\<lambda>b2.
      rbind (guard_err (b2 = 0xFF) AssertionError) (\<lambda>_.
      rbind (py_get data (int i2 + 1)) (\<lambda>t.
      Inr \<lparr>payload = drop (i2 + 2) data, path = p, rpath = r, ptype = t\<rparr>)))))"

text \<open>\<open>parse_cobs\<close>: \<open>cobs_decode\<close> returns \<open>None\<close> on bad input, and \<open>bytes(None)\<close>
  raises \<open>TypeError\<close>.\<close>

definition parse_cobs :: "bytes \<Rightarrow> xfcp_frame result" where
  "parse_cobs data = (case cobs_decode data of None \<Rightarrow> Inl TypeError | Some d \<Rightarrow> parse d)"

section \<open>Scanning and building, closed forms\<close>

lemma scan_takeWhile:
  "scan data i acc =
     (acc @ takeWhile (\<lambda>x. x < 0xFE) (drop i data), i + length (takeWhile (\<lambda>x. x < 0xFE) (drop i data)))"
proof (induction data i acc rule: scan.induct)
  case (1 data i acc)
  show ?case
  proof (cases "i < length data")
    case True
    then have "drop i data = data ! i # drop (i + 1) data"
      by (simp add: Cons_nth_drop_Suc)
    with 1 True show ?thesis by (simp add: scan.simps [of data i])
  next
    case False
    then show ?thesis by (simp add: scan.simps [of data i])
  qed
qed

text \<open>The frames that \<open>build\<close> can send: hops below \<open>0xFE\<close>, a byte for the type.\<close>

definition valid_frame :: "xfcp_frame \<Rightarrow> bool" where
  "valid_frame f \<longleftrightarrow>
     (\<forall>x \<in> set (path f) \<union> set (rpath f). 0 \<le> x \<and> x < 0xFE) \<and> 0 \<le> ptype f \<and> ptype f < 256 \<and>
     is_bytes (payload f)"

definition frame_bytes :: "xfcp_frame \<Rightarrow> bytes" where
  "frame_bytes f =
     path f @ (if rpath f \<noteq> [] then 0xFE # rpath f else []) @ [0xFF, ptype f] @ payload f"

lemma valid_frame_bytes: "valid_frame f \<Longrightarrow> is_bytes (path f) \<and> is_bytes (rpath f) \<and> is_bytes (frame_bytes f)"
proof -
  assume v: "valid_frame f"
  have hop: "0 \<le> x \<and> x < 256" if "x \<in> set (path f) \<union> set (rpath f)" for x
  proof -
    have "0 \<le> x \<and> x < 254" using v that unfolding valid_frame_def by blast
    then show ?thesis by linarith
  qed
  then have "is_bytes (path f)" by (simp add: is_bytes_def)
  moreover have "is_bytes (rpath f)" using hop by (simp add: is_bytes_def)
  ultimately show ?thesis using v by (simp add: valid_frame_def frame_bytes_def)
qed

lemma build_valid: "valid_frame f \<Longrightarrow> build f = Inr (frame_bytes f)"
  using valid_frame_bytes [of f] rmap_pack_B [of "path f"] rmap_pack_B [of "rpath f"]
  by (simp add: build_def frame_bytes_def valid_frame_def pack_B_def)

lemma takeWhile_hops:
  assumes "\<forall>x \<in> set p. x < (0xFE::int)" and "\<not> b < 0xFE"
  shows "takeWhile (\<lambda>x. x < 0xFE) (p @ b # t) = p"
  using assms by (simp add: takeWhile_append2 takeWhile_append)

lemma parse_build:
  assumes "valid_frame f"
  shows "parse (frame_bytes f) = Inr f"
proof -
  have p: "\<forall>x \<in> set (path f). x < 0xFE" and r: "\<forall>x \<in> set (rpath f). x < 0xFE"
    using assms by (auto simp: valid_frame_def)
  let ?t = "0xFF # ptype f # payload f"
  have get: "py_get (xs @ b # ys) (int (length xs)) = Inr b" for xs ys and b :: int
    by (simp add: py_get_def py_idx_def)
  have get2: "py_get (xs @ b # c # ys) (int (length xs) + 1) = Inr c" for xs ys and b c :: int
    using get [of "xs @ [b]" c ys] by (simp add: add.commute)
  show ?thesis
  proof (cases "rpath f = []")
    case True
    then have "frame_bytes f = path f @ ?t" by (simp add: frame_bytes_def)
    then show ?thesis
      using True takeWhile_hops [OF p, of "0xFF" "ptype f # payload f"]
      by (simp add: parse_def scan_takeWhile get get2)
  next
    case False
    then have fb: "frame_bytes f = path f @ 0xFE # rpath f @ ?t" by (simp add: frame_bytes_def)
    have "takeWhile (\<lambda>x. x < 0xFE) (frame_bytes f) = path f"
      unfolding fb by (rule takeWhile_hops [OF p]) simp
    moreover have "takeWhile (\<lambda>x. x < 0xFE) (drop (Suc (length (path f))) (frame_bytes f)) = rpath f"
      using takeWhile_hops [OF r, of "0xFF" "ptype f # payload f"] by (simp add: fb)
    moreover have "py_get (frame_bytes f) (int (length (path f))) = Inr 0xFE"
      unfolding fb by (rule get)
    moreover have "py_get (frame_bytes f) (int (length (path f @ 0xFE # rpath f))) = Inr 0xFF"
      using get [of "path f @ 0xFE # rpath f" "0xFF" "ptype f # payload f"] by (simp add: fb)
    moreover have "py_get (frame_bytes f) (int (length (path f @ 0xFE # rpath f)) + 1) = Inr (ptype f)"
      using get2 [of "path f @ 0xFE # rpath f" "0xFF" "ptype f" "payload f"] by (simp add: fb)
    moreover have "drop (2 + (length (path f) + (1 + length (rpath f)))) (frame_bytes f) = payload f"
      by (simp add: fb Suc_diff_le)
    ultimately show ?thesis
      by (simp add: parse_def scan_takeWhile)
  qed
qed

section \<open>The codecs\<close>

definition cobs_dec_result :: "bytes \<Rightarrow> bytes result" where
  "cobs_dec_result w = (case cobs_decode w of None \<Rightarrow> Inl TypeError | Some d \<Rightarrow> Inr d)"

interpretation xfcp: codec_stack frame_bytes parse valid_frame cobs_encode cobs_dec_result is_bytes
  by unfold_locales (simp_all add: parse_build cobs_dec_result_def cobs_decode_encode valid_frame_bytes)

lemma parse_cobs_stacked: "parse_cobs w = rbind (cobs_dec_result w) parse"
  by (simp add: parse_cobs_def cobs_dec_result_def split: option.splits)

section \<open>Properties\<close>

text \<open>C39: COBS framing: whatever bytes are encoded, the encoding is a sequence of bytes without a
  zero, longer than the block by at most one byte in 254 plus one, and decoding it gives the block
  back.\<close>

theorem cobs_roundtrip:
  assumes "is_bytes block"
  shows "cobs_decode (cobs_encode block) = Some block \<and> 0 \<notin> set (cobs_encode block) \<and>
    is_bytes (cobs_encode block) \<and>
    length (cobs_encode block) \<le> length block + length block div 254 + 1"
  using cobs_encode_facts [OF assms] cobs_decode_encode [OF assms] by simp

theorem cobs_roundtrip_witness:
  "cobs_decode (cobs_encode [1, 0, 0, 7]) = Some [1, 0, 0, 7] \<and> 0 \<notin> set (cobs_encode [1, 0, 0, 7])"
  using cobs_roundtrip [of "[1, 0, 0, 7]"] by (simp add: is_bytes_def)

text \<open>C40: A frame whose hops are below \<open>0xFE\<close> and whose type is a byte is built without an error,
  goes on the wire as zero-free bytes with one zero terminator, and \<open>parse_cobs\<close> of the bytes
  before the terminator returns the frame (path, return path, type and payload); with the
  terminator still attached, \<open>parse_cobs\<close> raises \<open>TypeError\<close>.\<close>

theorem build_cobs_roundtrip:
  assumes "valid_frame f"
  shows "\<exists>w. build_cobs f = Inr (w @ [0]) \<and> 0 \<notin> set w \<and> is_bytes w \<and>
    parse_cobs w = Inr f \<and> parse_cobs (w @ [0]) = Inl TypeError"
proof (intro exI conjI)
  have b: "is_bytes (frame_bytes f)" using valid_frame_bytes [OF assms] by simp
  show "build_cobs f = Inr (cobs_encode (frame_bytes f) @ [0])"
    by (simp add: build_cobs_def build_valid [OF assms])
  show "0 \<notin> set (cobs_encode (frame_bytes f))" "is_bytes (cobs_encode (frame_bytes f))"
    using cobs_encode_facts [OF b] by simp_all
  show "parse_cobs (cobs_encode (frame_bytes f)) = Inr f"
    using xfcp.stack_dec_enc [OF assms] by (simp add: parse_cobs_stacked)
  show "parse_cobs (cobs_encode (frame_bytes f) @ [0]) = Inl TypeError"
    by (simp add: parse_cobs_def cobs_decode_def)
qed

definition demo_frame :: xfcp_frame where
  "demo_frame = \<lparr>payload = [0, 9, 255], path = [3, 0], rpath = [7], ptype = 0x10\<rparr>"

theorem build_cobs_roundtrip_witness:
  "\<exists>w. build_cobs demo_frame = Inr (w @ [0]) \<and> parse_cobs w = Inr demo_frame"
proof -
  have "valid_frame demo_frame" by (simp add: valid_frame_def demo_frame_def is_bytes_def)
  from build_cobs_roundtrip [OF this] show ?thesis by blast
qed

end
