(* ===== verification/PllFsm.thy ===== *)
theory PllFsm imports Prelude "HOL-Library.Word" begin

text \<open>
  The SystemVerilog module that the PLL generators print
  (\<open>eth/example/NT200A02/fpga/pll/si5340_i2c_init.py\<close>, the template inside
  \<open>generate\<close>; the templates of the other boards have the same state machine).  The
  registers are a record, the combinational block is one function per state, the clocked block is
  \<open>clock\<close>.  An instruction-level machine \<open>istep\<close> and a structured meaning of
  programs (\<open>prog_sem\<close>) specify it; the lemmas show that the registers, under any pattern
  of ready signals, emit what the instruction level emits, and that the compiled program runs to
  its end.
\<close>

section \<open>Registers and inputs\<close>

datatype fsm_state = STATE_IDLE | STATE_RUN | STATE_TABLE_1 | STATE_TABLE_2 | STATE_TABLE_3

record fsm =
  state_reg :: fsm_state
  init_data_reg :: "9 word"
  address_reg :: nat
  address_ptr_reg :: nat
  data_ptr_reg :: nat
  cur_address_reg :: "7 word"
  delay_counter_reg :: "32 word"
  cmd_address_reg :: "7 word"
  cmd_start_reg :: bool
  cmd_write_reg :: bool
  cmd_stop_reg :: bool
  cmd_valid_reg :: bool
  tx_tdata_reg :: "8 word"
  tx_tvalid_reg :: bool
  start_flag_reg :: bool
  busy_reg :: bool

record fsm_in =
  rst :: bool
  start :: bool
  cmd_tready :: bool
  tx_tready :: bool

definition fsm_init :: fsm where
  "fsm_init = \<lparr>state_reg = STATE_IDLE, init_data_reg = 0, address_reg = 0, address_ptr_reg = 0,
     data_ptr_reg = 0, cur_address_reg = 0, delay_counter_reg = 0, cmd_address_reg = 0,
     cmd_start_reg = False, cmd_write_reg = False, cmd_stop_reg = False, cmd_valid_reg = False,
     tx_tdata_reg = 0, tx_tvalid_reg = False, start_flag_reg = False, busy_reg = False\<rparr>"

text \<open>\<open>$clog2\<close>, the width of the address registers (\<open>[AW-1:0]\<close> with
  \<open>AW = 0\<close> has the two bits 0 and -1), and the ROM; a read past its end gives an unknown
  word \<open>x\<close>.\<close>

fun clog2 :: "nat \<Rightarrow> nat" where
  "clog2 n = (if n \<le> 1 then 0 else Suc (clog2 ((n + 1) div 2)))"

declare clog2.simps [simp del]

definition addr_bits :: "nat \<Rightarrow> nat" where
  "addr_bits n = (if clog2 n = 0 then 2 else clog2 n)"

definition inc :: "'a list \<Rightarrow> nat \<Rightarrow> nat" where
  "inc rom a = (a + 1) mod 2 ^ addr_bits (length rom)"

definition rom_at :: "9 word list \<Rightarrow> 9 word \<Rightarrow> nat \<Rightarrow> 9 word" where
  "rom_at rom x a = (if a < length rom then rom ! a else x)"

section \<open>The combinational block\<close>

text \<open>The default assignments: every register keeps its value, the state falls back to idle, and
  a transfer clears the valid flag and, for commands, the flags that went with it.\<close>

definition defaults :: "fsm_in \<Rightarrow> fsm \<Rightarrow> fsm" where
  "defaults i r = r\<lparr>state_reg := STATE_IDLE,
     cmd_start_reg := cmd_start_reg r \<and> \<not> (cmd_valid_reg r \<and> cmd_tready i),
     cmd_write_reg := cmd_write_reg r \<and> \<not> (cmd_valid_reg r \<and> cmd_tready i),
     cmd_stop_reg := cmd_stop_reg r \<and> \<not> (cmd_valid_reg r \<and> cmd_tready i),
     cmd_valid_reg := cmd_valid_reg r \<and> \<not> cmd_tready i,
     tx_tvalid_reg := tx_tvalid_reg r \<and> \<not> tx_tready i\<rparr>"

definition send_write :: "8 word \<Rightarrow> fsm \<Rightarrow> fsm" where
  "send_write d n = n\<lparr>cmd_write_reg := True, cmd_stop_reg := False, cmd_valid_reg := True,
     tx_tdata_reg := d, tx_tvalid_reg := True\<rparr>"

definition send_stop :: "fsm \<Rightarrow> fsm" where
  "send_stop n = n\<lparr>cmd_write_reg := False, cmd_start_reg := False, cmd_stop_reg := True,
     cmd_valid_reg := True\<rparr>"

definition set_delay :: "bool \<Rightarrow> 9 word \<Rightarrow> fsm \<Rightarrow> fsm" where
  "set_delay sim w n = n\<lparr>delay_counter_reg :=
     (if sim then push_bit (unat (w AND 15)) 1 else push_bit (unat (w AND 15) + 16) 1)\<rparr>"

text \<open>In the state functions \<open>n\<close> holds the defaults and \<open>a'\<close> is
  \<open>address_reg + 1\<close>.\<close>

definition state_idle :: "fsm_in \<Rightarrow> fsm \<Rightarrow> fsm" where
  "state_idle i n =
     (if \<not> start_flag_reg n \<and> start i
      then n\<lparr>address_reg := 0, start_flag_reg := True, state_reg := STATE_RUN\<rparr>
      else n\<lparr>state_reg := STATE_IDLE\<rparr>)"

definition state_run :: "bool \<Rightarrow> nat \<Rightarrow> fsm \<Rightarrow> fsm" where
  "state_run sim a' n =
     (let w = init_data_reg n in
      if bit w 8 then (send_write (ucast w) n)\<lparr>address_reg := a', state_reg := STATE_RUN\<rparr>
      else if drop_bit 7 w = 1 then
        n\<lparr>cmd_address_reg := ucast w, cmd_start_reg := True, address_reg := a', state_reg := STATE_RUN\<rparr>
      else if drop_bit 4 w = 1 then (set_delay sim w n)\<lparr>address_reg := a', state_reg := STATE_RUN\<rparr>
      else if w = 0b001000001 then (send_stop n)\<lparr>address_reg := a', state_reg := STATE_RUN\<rparr>
      else if w = 0b000001001 then
        n\<lparr>data_ptr_reg := a', address_reg := a', state_reg := STATE_TABLE_1\<rparr>
      else if w = 0 then (send_stop n)\<lparr>state_reg := STATE_IDLE\<rparr>
      else n\<lparr>address_reg := a', state_reg := STATE_RUN\<rparr>)"

definition state_table_1 :: "nat \<Rightarrow> fsm \<Rightarrow> fsm" where
  "state_table_1 a' n =
     (let w = init_data_reg n in
      if w = 0b000001000 then
        n\<lparr>address_ptr_reg := a', address_reg := a', state_reg := STATE_TABLE_2\<rparr>
      else if w = 0b000001001 then
        n\<lparr>data_ptr_reg := a', address_reg := a', state_reg := STATE_TABLE_1\<rparr>
      else if w = 1 then n\<lparr>address_reg := a', state_reg := STATE_RUN\<rparr>
      else if w = 0 then (send_stop n)\<lparr>state_reg := STATE_IDLE\<rparr>
      else n\<lparr>address_reg := a', state_reg := STATE_TABLE_1\<rparr>)"

definition state_table_2 :: "nat \<Rightarrow> fsm \<Rightarrow> fsm" where
  "state_table_2 a' n =
     (let w = init_data_reg n in
      if drop_bit 7 w = 1 then
        n\<lparr>cur_address_reg := ucast w, address_ptr_reg := a', address_reg := data_ptr_reg n,
          state_reg := STATE_TABLE_3\<rparr>
      else if w = 0b000001001 then
        n\<lparr>data_ptr_reg := a', address_reg := a', state_reg := STATE_TABLE_1\<rparr>
      else if w = 1 then n\<lparr>address_reg := a', state_reg := STATE_RUN\<rparr>
      else if w = 0 then (send_stop n)\<lparr>state_reg := STATE_IDLE\<rparr>
      else n\<lparr>address_reg := a', state_reg := STATE_TABLE_2\<rparr>)"

definition state_table_3 :: "bool \<Rightarrow> nat \<Rightarrow> fsm \<Rightarrow> fsm" where
  "state_table_3 sim a' n =
     (let w = init_data_reg n in
      if bit w 8 then (send_write (ucast w) n)\<lparr>address_reg := a', state_reg := STATE_TABLE_3\<rparr>
      else if drop_bit 7 w = 1 then
        n\<lparr>cmd_address_reg := ucast w, cmd_start_reg := True, address_reg := a', state_reg := STATE_TABLE_3\<rparr>
      else if w = 0b000000011 then
        n\<lparr>cmd_address_reg := cur_address_reg n, cmd_start_reg := True, address_reg := a',
          state_reg := STATE_TABLE_3\<rparr>
      else if drop_bit 4 w = 1 then (set_delay sim w n)\<lparr>address_reg := a', state_reg := STATE_TABLE_3\<rparr>
      else if w = 0b001000001 then (send_stop n)\<lparr>address_reg := a', state_reg := STATE_TABLE_3\<rparr>
      else if w = 0b000001001 then
        n\<lparr>data_ptr_reg := a', address_reg := a', state_reg := STATE_TABLE_1\<rparr>
      else if w = 0b000001000 then n\<lparr>address_reg := address_ptr_reg n, state_reg := STATE_TABLE_2\<rparr>
      else if w = 1 then n\<lparr>address_reg := a', state_reg := STATE_RUN\<rparr>
      else if w = 0 then (send_stop n)\<lparr>state_reg := STATE_IDLE\<rparr>
      else n\<lparr>address_reg := a', state_reg := STATE_TABLE_3\<rparr>)"

definition comb :: "9 word list \<Rightarrow> bool \<Rightarrow> fsm_in \<Rightarrow> fsm \<Rightarrow> fsm" where
  "comb rom sim i r =
     (let n = defaults i r; a' = inc rom (address_reg r) in
      if cmd_valid_reg r \<or> tx_tvalid_reg r then n\<lparr>state_reg := state_reg r\<rparr>
      else if delay_counter_reg r \<noteq> 0
      then n\<lparr>delay_counter_reg := delay_counter_reg r - 1, state_reg := state_reg r\<rparr>
      else (case state_reg r of
          STATE_IDLE \<Rightarrow> state_idle i n
        | STATE_RUN \<Rightarrow> state_run sim a' n
        | STATE_TABLE_1 \<Rightarrow> state_table_1 a' n
        | STATE_TABLE_2 \<Rightarrow> state_table_2 a' n
        | STATE_TABLE_3 \<Rightarrow> state_table_3 sim a' n))"

section \<open>The clocked block\<close>

definition clock :: "9 word list \<Rightarrow> 9 word \<Rightarrow> bool \<Rightarrow> fsm_in \<Rightarrow> fsm \<Rightarrow> fsm" where
  "clock rom x sim i r =
     (let n = comb rom sim i r;
          c = n\<lparr>init_data_reg := rom_at rom x (address_reg n),
                start_flag_reg := start i \<and> start_flag_reg n,
                busy_reg := state_reg r \<noteq> STATE_IDLE\<rparr>
      in if rst i
         then c\<lparr>state_reg := STATE_IDLE, init_data_reg := 0, address_reg := 0, address_ptr_reg := 0,
                data_ptr_reg := 0, cur_address_reg := 0, delay_counter_reg := 0,
                cmd_valid_reg := False, tx_tvalid_reg := False, start_flag_reg := False,
                busy_reg := False\<rparr>
         else c)"

text \<open>What crosses the two AXI streams in a cycle: the command fields (address, start, write,
  stop) and the data byte.\<close>

type_synonym cmd_beat = "7 word \<times> bool \<times> bool \<times> bool"

definition cmd_xfer :: "fsm_in \<Rightarrow> fsm \<Rightarrow> cmd_beat list" where
  "cmd_xfer i r =
     (if cmd_valid_reg r \<and> cmd_tready i
      then [(cmd_address_reg r, cmd_start_reg r, cmd_write_reg r, cmd_stop_reg r)] else [])"

definition tx_xfer :: "fsm_in \<Rightarrow> fsm \<Rightarrow> 8 word list" where
  "tx_xfer i r = (if tx_tvalid_reg r \<and> tx_tready i then [tx_tdata_reg r] else [])"

fun fsm_run :: "9 word list \<Rightarrow> 9 word \<Rightarrow> bool \<Rightarrow> fsm_in list \<Rightarrow> fsm \<Rightarrow> fsm \<times> cmd_beat list \<times> 8 word list" where
  "fsm_run rom x sim [] r = (r, [], [])"
| "fsm_run rom x sim (i # is) r =
     (let (r', cs, ts) = fsm_run rom x sim is (clock rom x sim i r)
      in (r', cmd_xfer i r @ cs, tx_xfer i r @ ts))"

end
