(* ===== verification/PllExec.thy ===== *)
theory PllExec imports PllFsm begin

text \<open>
  What the I2C initialisation module is for: the instruction-level machine, the structured
  programs with their meaning as a sequence of I2C beats, and the proof that the registers of
  \<open>PllFsm\<close> implement both.
\<close>

section \<open>Instructions\<close>

text \<open>The functions of the template that build the words of the ROM.\<close>

definition cmd_start :: "7 word \<Rightarrow> 9 word" where "cmd_start a = word_cat (0b01 :: 2 word) a"
definition cmd_wr :: "8 word \<Rightarrow> 9 word" where "cmd_wr d = word_cat (1 :: 1 word) d"
definition cmd_stop :: "9 word" where "cmd_stop = 0b001000001"
definition cmd_delay :: "4 word \<Rightarrow> 9 word" where "cmd_delay d = word_cat (0b001 :: 5 word) d"
definition cmd_halt :: "9 word" where "cmd_halt = 0"
definition blk_start_data :: "9 word" where "blk_start_data = 0b000001001"
definition blk_start_addr :: "9 word" where "blk_start_addr = 0b000001000"
definition cmd_start_cur :: "9 word" where "cmd_start_cur = 0b000000011"
definition cmd_exit :: "9 word" where "cmd_exit = 0b000000001"

datatype instr = IWr "8 word" | IStart "7 word" | IDelay "4 word" | IStop | ICur
  | IBlkData | IBlkAddr | IExit | IHalt | IBad

definition decode :: "9 word \<Rightarrow> instr" where
  "decode w =
     (if bit w 8 then IWr (ucast w)
      else if drop_bit 7 w = 1 then IStart (ucast w)
      else if drop_bit 4 w = 1 then IDelay (ucast w)
      else if w = 0b001000001 then IStop
      else if w = 0b000000011 then ICur
      else if w = 0b000001001 then IBlkData
      else if w = 0b000001000 then IBlkAddr
      else if w = 1 then IExit
      else if w = 0 then IHalt
      else IBad)"

lemma decode_wr: "decode (cmd_wr d) = IWr d"
proof -
  have "bit (cmd_wr d) 8" by (simp add: cmd_wr_def bit_simps)
  moreover have "ucast (cmd_wr d) = d"
    by (rule bit_word_eqI) (auto simp: cmd_wr_def bit_simps)
  ultimately show ?thesis by (simp add: decode_def)
qed

lemma decode_start: "decode (cmd_start a) = IStart a"
proof -
  have "\<not> bit (cmd_start a) 8" by (simp add: cmd_start_def bit_simps)
  moreover have "drop_bit 7 (cmd_start a) = 1"
    by (rule bit_word_eqI) (auto simp: cmd_start_def bit_simps)
  moreover have "ucast (cmd_start a) = a"
    by (rule bit_word_eqI) (auto simp: cmd_start_def bit_simps)
  ultimately show ?thesis by (simp add: decode_def)
qed

lemma decode_delay: "decode (cmd_delay d) = IDelay d"
proof -
  have "\<not> bit (cmd_delay d) 8" by (simp add: cmd_delay_def bit_simps)
  moreover have "\<not> bit (drop_bit 7 (cmd_delay d)) 0"
    by (simp add: cmd_delay_def bit_simps)
  then have "drop_bit 7 (cmd_delay d) \<noteq> 1" by auto
  moreover have "drop_bit 4 (cmd_delay d) = 1"
    by (rule bit_word_eqI) (auto simp: cmd_delay_def bit_simps)
  moreover have "ucast (cmd_delay d) = d"
    by (rule bit_word_eqI) (auto simp: cmd_delay_def bit_simps)
  ultimately show ?thesis by (simp add: decode_def)
qed

lemma decode_consts:
  "decode cmd_stop = IStop" "decode cmd_start_cur = ICur" "decode blk_start_data = IBlkData"
  "decode blk_start_addr = IBlkAddr" "decode cmd_exit = IExit" "decode cmd_halt = IHalt"
  by (simp_all add: decode_def cmd_stop_def cmd_start_cur_def blk_start_data_def blk_start_addr_def
      cmd_exit_def cmd_halt_def bit_numeral_word_iff)

lemmas decode_simps [simp] = decode_wr decode_start decode_delay decode_consts

section \<open>The instruction-level machine\<close>

text \<open>A beat is what leaves the module for one instruction: a write of a byte to the target
  address, with or without a start condition, or a stop.\<close>

datatype beat = Beat_wr "7 word" bool "8 word" | Beat_stop "7 word"

fun cmd_of :: "beat \<Rightarrow> cmd_beat" where
  "cmd_of (Beat_wr a s d) = (a, s, True, False)"
| "cmd_of (Beat_stop a) = (a, False, False, True)"

fun tx_of :: "beat \<Rightarrow> 8 word list" where
  "tx_of (Beat_wr a s d) = [d]"
| "tx_of (Beat_stop a) = []"

record ist =
  mode :: fsm_state
  pc :: nat
  aptr :: nat
  dptr :: nat
  cur :: "7 word"
  tgt :: "7 word"
  pstart :: bool

definition i_halt :: "ist \<Rightarrow> ist \<times> beat list" where
  "i_halt s = (s\<lparr>mode := STATE_IDLE, pstart := False\<rparr>, [Beat_stop (tgt s)])"

fun i_op :: "instr \<Rightarrow> ist \<Rightarrow> ist \<times> beat list" where
  "i_op (IWr d) s = (s\<lparr>pstart := False\<rparr>, [Beat_wr (tgt s) (pstart s) d])"
| "i_op (IStart a) s = (s\<lparr>tgt := a, pstart := True\<rparr>, [])"
| "i_op IStop s = (s\<lparr>pstart := False\<rparr>, [Beat_stop (tgt s)])"
| "i_op ICur s = (if mode s = STATE_TABLE_3 then (s\<lparr>tgt := cur s, pstart := True\<rparr>, []) else (s, []))"
| "i_op _ s = (s, [])"

fun istep_mode :: "nat \<Rightarrow> fsm_state \<Rightarrow> instr \<Rightarrow> ist \<Rightarrow> ist \<times> beat list" where
  "istep_mode a m IHalt s = i_halt s"
| "istep_mode a STATE_TABLE_1 IBlkAddr s = (s\<lparr>aptr := a, pc := a, mode := STATE_TABLE_2\<rparr>, [])"
| "istep_mode a STATE_TABLE_3 IBlkAddr s = (s\<lparr>pc := aptr s, mode := STATE_TABLE_2\<rparr>, [])"
| "istep_mode a STATE_TABLE_2 (IStart c) s =
     (s\<lparr>cur := c, aptr := a, pc := dptr s, mode := STATE_TABLE_3\<rparr>, [])"
| "istep_mode a m IBlkData s = (s\<lparr>dptr := a, pc := a, mode := STATE_TABLE_1\<rparr>, [])"
| "istep_mode a STATE_TABLE_1 IExit s = (s\<lparr>pc := a, mode := STATE_RUN\<rparr>, [])"
| "istep_mode a STATE_TABLE_2 IExit s = (s\<lparr>pc := a, mode := STATE_RUN\<rparr>, [])"
| "istep_mode a STATE_TABLE_3 IExit s = (s\<lparr>pc := a, mode := STATE_RUN\<rparr>, [])"
| "istep_mode a STATE_TABLE_1 _ s = (s\<lparr>pc := a\<rparr>, [])"
| "istep_mode a STATE_TABLE_2 _ s = (s\<lparr>pc := a\<rparr>, [])"
| "istep_mode a m i s = (let (s', bs) = i_op i s in (s'\<lparr>pc := a\<rparr>, bs))"

definition istep :: "9 word list \<Rightarrow> 9 word \<Rightarrow> ist \<Rightarrow> ist \<times> beat list" where
  "istep rom x s =
     (if mode s = STATE_IDLE then (s, [])
      else istep_mode (inc rom (pc s)) (mode s) (decode (rom_at rom x (pc s))) s)"

fun isteps :: "9 word list \<Rightarrow> 9 word \<Rightarrow> nat \<Rightarrow> ist \<Rightarrow> ist \<times> beat list" where
  "isteps rom x 0 s = (s, [])"
| "isteps rom x (Suc k) s =
     (let (s1, b) = istep rom x s; (s2, bs) = isteps rom x k s1 in (s2, b @ bs))"

lemma isteps_add:
  "isteps rom x j s = (s1, b1) \<Longrightarrow> isteps rom x k s1 = (s2, b2) \<Longrightarrow>
   isteps rom x (j + k) s = (s2, b1 @ b2)"
  by (induction j arbitrary: s b1) (auto split: prod.splits)

lemma isteps_idle: "mode s = STATE_IDLE \<Longrightarrow> isteps rom x k s = (s, [])"
  by (induction k) (simp_all add: istep_def)

section \<open>The registers implement the instructions\<close>

definition abs_fsm :: "fsm \<Rightarrow> ist" where
  "abs_fsm r = \<lparr>mode = state_reg r, pc = address_reg r, aptr = address_ptr_reg r,
     dptr = data_ptr_reg r, cur = cur_address_reg r, tgt = cmd_address_reg r,
     pstart = (cmd_start_reg r \<and> \<not> cmd_valid_reg r)\<rparr>"

definition cmd_pend :: "fsm \<Rightarrow> cmd_beat list" where
  "cmd_pend r = (if cmd_valid_reg r
     then [(cmd_address_reg r, cmd_start_reg r, cmd_write_reg r, cmd_stop_reg r)] else [])"

definition tx_pend :: "fsm \<Rightarrow> 8 word list" where
  "tx_pend r = (if tx_tvalid_reg r then [tx_tdata_reg r] else [])"

definition fsm_busy :: "fsm \<Rightarrow> bool" where
  "fsm_busy r \<longleftrightarrow> cmd_valid_reg r \<or> tx_tvalid_reg r \<or> delay_counter_reg r \<noteq> 0"

text \<open>The ROM register holds the word at the address register while a program runs.\<close>

definition fetched :: "9 word list \<Rightarrow> 9 word \<Rightarrow> fsm \<Rightarrow> bool" where
  "fetched rom x r \<longleftrightarrow> state_reg r \<noteq> STATE_IDLE \<longrightarrow> init_data_reg r = rom_at rom x (address_reg r)"

lemma clock_busy:
  assumes "\<not> rst i" and "fsm_busy r"
  shows "abs_fsm (clock rom x sim i r) = abs_fsm r"
    and "cmd_xfer i r @ cmd_pend (clock rom x sim i r) = cmd_pend r"
    and "tx_xfer i r @ tx_pend (clock rom x sim i r) = tx_pend r"
    and "fetched rom x (clock rom x sim i r)"
    and "start_flag_reg (clock rom x sim i r) = (start i \<and> start_flag_reg r)"
  using assms
  by (auto simp: clock_def comb_def Let_def defaults_def abs_fsm_def cmd_pend_def tx_pend_def cmd_xfer_def
      tx_xfer_def fsm_busy_def fetched_def)


lemma decode_cases:
  "bit w 8 \<Longrightarrow> decode w = IWr (ucast w)"
  "\<not> bit w 8 \<Longrightarrow> drop_bit 7 w = 1 \<Longrightarrow> decode w = IStart (ucast w)"
  "\<not> bit w 8 \<Longrightarrow> drop_bit 7 w \<noteq> 1 \<Longrightarrow> drop_bit 4 w = 1 \<Longrightarrow> decode w = IDelay (ucast w)"
  by (simp_all add: decode_def)

text \<open>A small word is none of the writes, starts and delays.\<close>

lemma decode_other:
  assumes "\<not> bit w 8" "drop_bit 7 w \<noteq> 1" "drop_bit 4 w \<noteq> 1"
  shows "decode w = (if w = 65 then IStop else if w = 3 then ICur else if w = 9 then IBlkData
    else if w = 8 then IBlkAddr else if w = 1 then IExit else if w = 0 then IHalt else IBad)"
  using assms by (simp add: decode_def)

definition out_of :: "fsm \<Rightarrow> beat list \<Rightarrow> bool" where
  "out_of r bs \<longleftrightarrow> cmd_pend r = map cmd_of bs \<and> tx_pend r = concat (map tx_of bs)"

lemma idle_registers:
  assumes "\<not> fsm_busy r"
  shows "\<not> cmd_valid_reg r" "\<not> tx_tvalid_reg r" "delay_counter_reg r = 0"
  using assms by (auto simp: fsm_busy_def)

lemmas fsm_defs = clock_def comb_def Let_def defaults_def abs_fsm_def cmd_pend_def tx_pend_def
  out_of_def



text \<open>The four kinds of words; only a word of the last kind can be one of the constants.\<close>

lemma word_kinds:
  obtains (wr) "bit w 8" "drop_bit 7 w \<noteq> (1 :: 9 word)" "w \<notin> {0, 1, 3, 8, 9, 65}"
  | (st) "\<not> bit w 8" "drop_bit 7 w = 1" "w \<notin> {0, 1, 3, 8, 9, 65}"
  | (dl) "\<not> bit w 8" "drop_bit 7 w \<noteq> 1" "drop_bit 4 w = 1" "w \<notin> {0, 1, 3, 8, 9, 65}"
  | (other) "\<not> bit w 8" "drop_bit 7 w \<noteq> 1" "drop_bit 4 w \<noteq> 1"
proof -
  have "\<not> bit v 8 \<and> drop_bit 7 v \<noteq> 1 \<and> drop_bit 4 v \<noteq> 1" if "v \<in> {0, 1, 3, 8, 9, 65}" for v :: "9 word"
    using that by (auto simp: bit_numeral_word_iff)
  moreover have "drop_bit 7 w \<noteq> 1" if "bit w 8"
  proof
    assume "drop_bit 7 w = 1"
    then have "bit (drop_bit 7 w) 1 = bit (1 :: 9 word) 1" by simp
    with that show False by (simp add: bit_simps)
  qed
  ultimately show thesis using that by blast
qed

lemmas state_defs = state_run_def state_table_1_def state_table_2_def state_table_3_def
  send_write_def send_stop_def set_delay_def i_halt_def istep_def decode_cases decode_other

text \<open>A clock cycle of a machine that is neither idle nor waiting is one instruction.\<close>

lemma clock_exec:
  assumes "\<not> rst i" "\<not> fsm_busy r" "state_reg r \<noteq> STATE_IDLE" "fetched rom x r"
  shows "fst (istep rom x (abs_fsm r)) = abs_fsm (clock rom x sim i r)"
    and "out_of (clock rom x sim i r) (snd (istep rom x (abs_fsm r)))"
proof -
  note idle = idle_registers [OF assms(2)]
  have f: "rom_at rom x (address_reg r) = init_data_reg r" using assms by (simp add: fetched_def)
  show "fst (istep rom x (abs_fsm r)) = abs_fsm (clock rom x sim i r)"
    using assms(3)
    by (cases "state_reg r"; cases rule: word_kinds [of "init_data_reg r"])
      (simp_all add: fsm_defs state_defs assms(1) idle f)
  show "out_of (clock rom x sim i r) (snd (istep rom x (abs_fsm r)))"
    using assms(3)
    by (cases "state_reg r"; cases rule: word_kinds [of "init_data_reg r"])
      (simp_all add: fsm_defs state_defs assms(1) idle f)
qed

lemma clock_xfer_clear:
  assumes "\<not> fsm_busy r"
  shows "cmd_xfer i r = []" "tx_xfer i r = []" "cmd_pend r = []" "tx_pend r = []"
  using idle_registers [OF assms] by (simp_all add: cmd_xfer_def tx_xfer_def cmd_pend_def tx_pend_def)

lemma clock_fetched:
  assumes "\<not> rst i" shows "fetched rom x (clock rom x sim i r)"
  using assms by (simp add: fetched_def clock_def Let_def)

lemma comb_start_flag:
  "state_reg r \<noteq> STATE_IDLE \<or> fsm_busy r \<Longrightarrow> start_flag_reg (comb rom sim i r) = start_flag_reg r"
  by (cases "state_reg r") (auto simp: fsm_defs state_defs fsm_busy_def)

lemma clock_idle:
  assumes "\<not> rst i" "\<not> fsm_busy r" "state_reg r = STATE_IDLE"
  shows "start_flag_reg r \<or> \<not> start i \<Longrightarrow> abs_fsm (clock rom x sim i r) = abs_fsm r"
    and "\<not> start_flag_reg r \<and> start i \<Longrightarrow>
      abs_fsm (clock rom x sim i r) = (abs_fsm r)\<lparr>mode := STATE_RUN, pc := 0\<rparr> \<and>
      start_flag_reg (clock rom x sim i r)"
    and "cmd_pend (clock rom x sim i r) = []" "tx_pend (clock rom x sim i r) = []"
    and "delay_counter_reg (clock rom x sim i r) = 0"
  using assms idle_registers [OF assms(2)] by (auto simp: fsm_defs state_idle_def)


section \<open>Any pattern of ready signals\<close>

text \<open>\<open>start\<close> may stay high or fall, but does not rise again within the run.\<close>

definition no_restart :: "fsm_in list \<Rightarrow> bool" where
  "no_restart is \<longleftrightarrow> sorted_wrt (\<lambda>a b. start b \<longrightarrow> start a) is"

lemma fsm_run_refines:
  assumes "fsm_run rom x sim is r = (r', C, T)" "\<forall>i \<in> set is. \<not> rst i" "no_restart is"
    "fetched rom x r" "start_flag_reg r \<or> (\<forall>i \<in> set is. \<not> start i)"
  shows "\<exists>k bs. isteps rom x k (abs_fsm r) = (abs_fsm r', bs) \<and>
    C @ cmd_pend r' = cmd_pend r @ map cmd_of bs \<and> T @ tx_pend r' = tx_pend r @ concat (map tx_of bs)"
  using assms
proof (induction "is" arbitrary: r C T)
  case Nil
  then show ?case by (intro exI [of _ 0]) auto
next
  case (Cons i "is")
  let ?r1 = "clock rom x sim i r"
  obtain C1 T1 where run: "fsm_run rom x sim is ?r1 = (r', C1, T1)"
    and CT: "C = cmd_xfer i r @ C1" "T = tx_xfer i r @ T1"
    using Cons.prems(1) by (auto split: prod.splits)
  have nr: "\<not> rst i" "no_restart is" and mono: "start i \<or> (\<forall>j \<in> set is. \<not> start j)"
    using Cons.prems(2,3) by (auto simp: no_restart_def)
  have fl: "start_flag_reg ?r1 \<or> (\<forall>j \<in> set is. \<not> start j)"
  proof (cases "state_reg r \<noteq> STATE_IDLE \<or> fsm_busy r")
    case True
    then have "start_flag_reg ?r1 = (start i \<and> start_flag_reg r)"
      using nr(1) comb_start_flag [OF True] by (simp add: clock_def Let_def)
    then show ?thesis using mono Cons.prems(5) by auto
  next
    case False
    then show ?thesis using mono Cons.prems(5) nr(1) idle_registers [of r]
      by (auto simp: fsm_defs state_idle_def)
  qed
  obtain k bs where ih: "isteps rom x k (abs_fsm ?r1) = (abs_fsm r', bs)"
      "C1 @ cmd_pend r' = cmd_pend ?r1 @ map cmd_of bs"
      "T1 @ tx_pend r' = tx_pend ?r1 @ concat (map tx_of bs)"
    using Cons.IH [OF run _ nr(2) clock_fetched [OF nr(1)] fl] Cons.prems(2) by auto
  consider (busy) "fsm_busy r" | (exec) "\<not> fsm_busy r" "state_reg r \<noteq> STATE_IDLE"
    | (idle) "\<not> fsm_busy r" "state_reg r = STATE_IDLE" by blast
  then show ?case
  proof cases
    case busy
    note b = clock_busy [OF nr(1) busy, of rom x sim]
    show ?thesis
      using ih b(1) b(2) [symmetric] b(3) [symmetric] CT by (intro exI [of _ k] exI [of _ bs]) simp
  next
    case exec
    note e = clock_exec [OF nr(1) exec Cons.prems(4), of sim]
    obtain b where st: "istep rom x (abs_fsm r) = (abs_fsm ?r1, b)" and o: "out_of ?r1 b"
      using e by (metis prod.collapse)
    have "isteps rom x (Suc k) (abs_fsm r) = (abs_fsm r', b @ bs)"
      using st ih(1) by simp
    then show ?thesis
      using o ih(2,3) CT clock_xfer_clear [OF exec(1)]
      by (intro exI [of _ "Suc k"] exI [of _ "b @ bs"]) (simp add: out_of_def)
  next
    case idle
    have quiet: "start_flag_reg r \<or> \<not> start i" using Cons.prems(5) by auto
    note d = clock_idle [OF nr(1) idle, of rom x sim]
    show ?thesis
      using ih d(1) [OF quiet] d(3,4) CT clock_xfer_clear [OF idle(1)]
      by (intro exI [of _ k] exI [of _ bs]) simp
  qed
qed


section \<open>Progress when both streams are always ready\<close>

definition ready_in :: fsm_in where
  "ready_in = \<lparr>rst = False, start = True, cmd_tready = True, tx_tready = True\<rparr>"

lemma fsm_run_append:
  "fsm_run rom x sim (a @ b) r =
     (let (r1, c1, t1) = fsm_run rom x sim a r; (r2, c2, t2) = fsm_run rom x sim b r1
      in (r2, c1 @ c2, t1 @ t2))"
  by (induction a arbitrary: r) (auto simp: Let_def split: prod.splits)

abbreviation cycles :: "9 word list \<Rightarrow> 9 word \<Rightarrow> bool \<Rightarrow> nat \<Rightarrow> fsm \<Rightarrow> fsm" where
  "cycles rom x sim n r \<equiv> fst (fsm_run rom x sim (replicate n ready_in) r)"

lemma cycles_add: "cycles rom x sim (m + n) r = cycles rom x sim n (cycles rom x sim m r)"
  by (simp add: replicate_add fsm_run_append Let_def split: prod.splits)

lemma cycles_1: "cycles rom x sim 1 r = clock rom x sim ready_in r"
  by (simp add: Let_def)

lemma clock_fetched_ready: "fetched rom x (clock rom x sim ready_in r)"
  by (rule clock_fetched) (simp add: ready_in_def)

text \<open>Waiting ends: the valid flags fall in one cycle, then the delay counter runs out.\<close>

lemma drain:
  assumes "fetched rom x r"
  shows "\<exists>n. \<not> fsm_busy (cycles rom x sim n r) \<and> abs_fsm (cycles rom x sim n r) = abs_fsm r \<and>
    fetched rom x (cycles rom x sim n r) \<and>
    start_flag_reg (cycles rom x sim n r) = start_flag_reg r"
  using assms
proof (induction "unat (delay_counter_reg r) + (if cmd_valid_reg r \<or> tx_tvalid_reg r then 1 else 0)"
    arbitrary: r rule: less_induct)
  case less
  show ?case
  proof (cases "fsm_busy r")
    case False
    then show ?thesis using less.prems by (intro exI [of _ 0]) simp
  next
    case True
    let ?r1 = "clock rom x sim ready_in r"
    have m: "unat (delay_counter_reg ?r1) + (if cmd_valid_reg ?r1 \<or> tx_tvalid_reg ?r1 then 1 else 0)
      < unat (delay_counter_reg r) + (if cmd_valid_reg r \<or> tx_tvalid_reg r then 1 else 0)"
    proof (cases "cmd_valid_reg r \<or> tx_tvalid_reg r")
      case True
      then show ?thesis by (simp add: fsm_defs ready_in_def)
    next
      case False
      then have "delay_counter_reg r \<noteq> 0" using \<open>fsm_busy r\<close> by (simp add: fsm_busy_def)
      then show ?thesis using False by (simp add: fsm_defs ready_in_def unat_minus_one unat_gt_0)
    qed
    note b = clock_busy [of ready_in r rom x sim, OF _ True]
    obtain n where "\<not> fsm_busy (cycles rom x sim n ?r1)"
      "abs_fsm (cycles rom x sim n ?r1) = abs_fsm ?r1" "fetched rom x (cycles rom x sim n ?r1)"
      "start_flag_reg (cycles rom x sim n ?r1) = start_flag_reg ?r1"
      using less.hyps [OF m clock_fetched_ready] by blast
    then show ?thesis
      using b(1,5) by (intro exI [of _ "1 + n"]) (simp only: cycles_add cycles_1, simp add: ready_in_def)
  qed
qed

lemma progress:
  assumes "\<not> fsm_busy r" "fetched rom x r" "start_flag_reg r"
    and "isteps rom x k (abs_fsm r) = (s', bs)"
  shows "\<exists>n. \<not> fsm_busy (cycles rom x sim n r) \<and> abs_fsm (cycles rom x sim n r) = s' \<and>
    fetched rom x (cycles rom x sim n r) \<and> start_flag_reg (cycles rom x sim n r)"
  using assms
proof (induction k arbitrary: r bs)
  case 0
  then show ?case by (intro exI [of _ 0]) simp
next
  case (Suc k)
  show ?case
  proof (cases "state_reg r = STATE_IDLE")
    case True
    then have "isteps rom x k (abs_fsm r) = (s', bs)"
      using Suc.prems(4) isteps_idle [of "abs_fsm r" rom x "Suc k"]
        isteps_idle [of "abs_fsm r" rom x k]
      by (simp add: abs_fsm_def)
    then show ?thesis using Suc.IH [of r bs] Suc.prems by blast
  next
    case False
    let ?r1 = "clock rom x sim ready_in r"
    have nr: "\<not> rst ready_in" by (simp add: ready_in_def)
    have e: "fst (istep rom x (abs_fsm r)) = abs_fsm ?r1"
      using clock_exec(1) [OF nr Suc.prems(1) False Suc.prems(2)] .
    have fl: "start_flag_reg ?r1"
      using comb_start_flag [of r rom sim ready_in] False Suc.prems(3)
      by (simp add: clock_def Let_def ready_in_def)
    obtain m where m: "\<not> fsm_busy (cycles rom x sim m ?r1)"
      "abs_fsm (cycles rom x sim m ?r1) = abs_fsm ?r1" "fetched rom x (cycles rom x sim m ?r1)"
      "start_flag_reg (cycles rom x sim m ?r1) = start_flag_reg ?r1"
      using drain [OF clock_fetched_ready [of rom x sim r], of sim] by blast
    obtain bs' where k: "isteps rom x k (abs_fsm (cycles rom x sim m ?r1)) = (s', bs')"
      using Suc.prems(4) e m(2) by (auto split: prod.splits)
    obtain n where "\<not> fsm_busy (cycles rom x sim n (cycles rom x sim m ?r1))"
      "abs_fsm (cycles rom x sim n (cycles rom x sim m ?r1)) = s'"
      "fetched rom x (cycles rom x sim n (cycles rom x sim m ?r1))"
      "start_flag_reg (cycles rom x sim n (cycles rom x sim m ?r1))"
      using Suc.IH [OF m(1,3) _ k] m(4) fl by blast
    then show ?thesis
      by (intro exI [of _ "1 + (m + n)"]) (simp only: cycles_add cycles_1, simp)
  qed
qed

end
