(* ===== verification/PllProg.thy ===== *)
theory PllProg imports PllExec begin

text \<open>
  Structured programs of the I2C initialisation module: straight-line parts, and data blocks
  repeated for a list of device addresses, with their meaning as beats and their ROM image.  The
  theorem is that the module, started once, emits the meaning of the program and stops.
\<close>

section \<open>Programs\<close>

datatype op = OWr "8 word" | OStart "7 word" | ODelay "4 word" | OStop | OCur

datatype item = Straight "op list" | Multi "op list" "7 word list"

fun encode_op :: "op \<Rightarrow> 9 word" where
  "encode_op (OWr d) = cmd_wr d"
| "encode_op (OStart a) = cmd_start a"
| "encode_op (ODelay d) = cmd_delay d"
| "encode_op OStop = cmd_stop"
| "encode_op OCur = cmd_start_cur"

text \<open>The order of the second example in the template's comment: block, addresses, exit.\<close>

fun encode_item :: "item \<Rightarrow> 9 word list" where
  "encode_item (Straight ops) = map encode_op ops"
| "encode_item (Multi block addrs) =
     [blk_start_data] @ map encode_op block @ [blk_start_addr] @ map cmd_start addrs @ [cmd_exit]"

definition encode_prog :: "item list \<Rightarrow> 9 word list" where
  "encode_prog p = concat (map encode_item p) @ [cmd_halt]"

text \<open>The meaning: the target address and whether a start condition is pending are threaded
  through; \<open>cur\<close> is the address a block is run for.\<close>

type_synonym bus = "7 word \<times> bool"

fun op_sem :: "7 word option \<Rightarrow> op \<Rightarrow> bus \<Rightarrow> bus \<times> beat list" where
  "op_sem c (OWr d) (t, st) = ((t, False), [Beat_wr t st d])"
| "op_sem c (OStart a) (t, st) = ((a, True), [])"
| "op_sem c (ODelay d) (t, st) = ((t, st), [])"
| "op_sem c OStop (t, st) = ((t, False), [Beat_stop t])"
| "op_sem None OCur (t, st) = ((t, st), [])"
| "op_sem (Some a) OCur (t, st) = ((a, True), [])"

fun ops_sem :: "7 word option \<Rightarrow> op list \<Rightarrow> bus \<Rightarrow> bus \<times> beat list" where
  "ops_sem c [] b = (b, [])"
| "ops_sem c (i # is) b =
     (let (b1, o1) = op_sem c i b; (b2, o2) = ops_sem c is b1 in (b2, o1 @ o2))"

fun multi_sem :: "op list \<Rightarrow> 7 word list \<Rightarrow> bus \<Rightarrow> bus \<times> beat list" where
  "multi_sem block [] b = (b, [])"
| "multi_sem block (a # as) b =
     (let (b1, o1) = ops_sem (Some a) block b; (b2, o2) = multi_sem block as b1 in (b2, o1 @ o2))"

fun item_sem :: "item \<Rightarrow> bus \<Rightarrow> bus \<times> beat list" where
  "item_sem (Straight ops) b = ops_sem None ops b"
| "item_sem (Multi block addrs) b = multi_sem block addrs b"

fun prog_sem :: "item list \<Rightarrow> bus \<Rightarrow> beat list" where
  "prog_sem [] b = [Beat_stop (fst b)]"
| "prog_sem (p # ps) b = (let (b1, o1) = item_sem p b in o1 @ prog_sem ps b1)"

section \<open>Code in the ROM\<close>

lemma clog2_ge: "n \<le> 2 ^ clog2 n"
proof (induction n rule: clog2.induct)
  case (1 n)
  show ?case
  proof (cases "n \<le> 1")
    case False
    then have "clog2 n = Suc (clog2 ((n + 1) div 2))" by (simp add: clog2.simps [of n])
    moreover have "n \<le> 2 * ((n + 1) div 2)" by presburger
    ultimately show ?thesis using 1 False by simp
  qed (simp add: clog2.simps [of n])
qed

lemma inc_in_rom: "Suc p < length rom \<Longrightarrow> inc rom p = Suc p"
  using clog2_ge [of "length rom"] by (auto simp: inc_def addr_bits_def)

definition code_at :: "9 word list \<Rightarrow> nat \<Rightarrow> 9 word list \<Rightarrow> bool" where
  "code_at rom p ws \<longleftrightarrow> p + length ws < length rom \<and> take (length ws) (drop p rom) = ws"

lemma code_at_Nil: "code_at rom p [] \<longleftrightarrow> p < length rom"
  by (simp add: code_at_def)

lemma code_at_Cons:
  "code_at rom p (w # ws) \<longleftrightarrow> Suc p < length rom \<and> rom_at rom x p = w \<and> code_at rom (Suc p) ws"
proof (cases "p < length rom")
  case True
  then have "drop p rom = rom ! p # drop (Suc p) rom" by (simp add: Cons_nth_drop_Suc)
  then show ?thesis using True by (auto simp: code_at_def rom_at_def)
qed (simp add: code_at_def)

lemma code_at_append:
  "code_at rom p (us @ ws) \<longleftrightarrow> code_at rom p us \<and> code_at rom (p + length us) ws"
proof (induction us arbitrary: p)
  case Nil
  then show ?case by (auto simp: code_at_def)
next
  case (Cons u us)
  show ?case using Cons [of "Suc p"] code_at_Cons [of rom p u _ undefined] by simp
qed

section \<open>The instruction-level machine runs the code\<close>

definition reaches :: "9 word list \<Rightarrow> 9 word \<Rightarrow> ist \<Rightarrow> beat list \<Rightarrow> ist \<Rightarrow> bool" where
  "reaches rom x s bs s' \<longleftrightarrow> (\<exists>k. isteps rom x k s = (s', bs))"

lemma reaches_refl: "reaches rom x s [] s"
  by (auto simp: reaches_def intro: exI [of _ 0])

lemma reaches_trans:
  "reaches rom x s bs s1 \<Longrightarrow> reaches rom x s1 cs s2 \<Longrightarrow> reaches rom x s (bs @ cs) s2"
  unfolding reaches_def using isteps_add by blast

lemma reaches_step: "istep rom x s = (s1, b) \<Longrightarrow> reaches rom x s b s1"
  unfolding reaches_def by (intro exI [of _ 1]) simp

definition cur_of :: "ist \<Rightarrow> 7 word option" where
  "cur_of s = (if mode s = STATE_TABLE_3 then Some (cur s) else None)"

abbreviation running :: "ist \<Rightarrow> bool" where
  "running s \<equiv> mode s = STATE_RUN \<or> mode s = STATE_TABLE_3"

lemma op_step:
  assumes "running s" "code_at rom (pc s) [encode_op i]"
    and "op_sem (cur_of s) i (tgt s, pstart s) = ((t, st), bs)"
  shows "istep rom x s = (s\<lparr>pc := Suc (pc s), tgt := t, pstart := st\<rparr>, bs)"
  using assms inc_in_rom [of "pc s" rom]
  by (cases i) (auto simp: istep_def code_at_Cons [of _ _ _ _ x] cur_of_def)

lemma ops_run:
  assumes "running s" "code_at rom (pc s) (map encode_op is)"
    and "ops_sem (cur_of s) is (tgt s, pstart s) = ((t, st), bs)"
  shows "reaches rom x s bs (s\<lparr>pc := pc s + length is, tgt := t, pstart := st\<rparr>)"
  using assms
proof (induction "is" arbitrary: s bs)
  case Nil
  then have eq: "s\<lparr>tgt := t, pstart := st\<rparr> = s" by (cases s) simp
  have "reaches rom x s [] (s\<lparr>tgt := t, pstart := st\<rparr>)" unfolding eq by (rule reaches_refl)
  then show ?case using Nil.prems(3) by simp
next
  case (Cons i "is")
  obtain t1 st1 o1 where o1: "op_sem (cur_of s) i (tgt s, pstart s) = ((t1, st1), o1)"
    by (metis prod.collapse)
  then obtain o2 where o2: "ops_sem (cur_of s) is (t1, st1) = ((t, st), o2)" "bs = o1 @ o2"
    using Cons.prems(3) by (auto split: prod.splits)
  let ?s = "s\<lparr>pc := Suc (pc s), tgt := t1, pstart := st1\<rparr>"
  have c: "code_at rom (pc s) [encode_op i]" "code_at rom (Suc (pc s)) (map encode_op is)"
    using Cons.prems(2) code_at_append [of rom "pc s" "[encode_op i]" "map encode_op is"] by simp_all
  have "reaches rom x s o1 ?s"
    by (rule reaches_step [OF op_step [OF Cons.prems(1) c(1) o1]])
  moreover have "cur_of ?s = cur_of s" by (simp add: cur_of_def)
  then have "reaches rom x ?s o2 (s\<lparr>pc := pc s + length (i # is), tgt := t, pstart := st\<rparr>)"
    using Cons.IH [of ?s o2] Cons.prems(1) c(2) o2(1) by simp
  ultimately show ?case using o2(2) reaches_trans by blast
qed


text \<open>While looking for the address block, the module skips the data block.\<close>

lemma skip_block:
  assumes "mode s = STATE_TABLE_1" "code_at rom (pc s) (map encode_op is)"
  shows "reaches rom x s [] (s\<lparr>pc := pc s + length is\<rparr>)"
  using assms
proof (induction "is" arbitrary: s)
  case Nil
  then show ?case by (simp add: reaches_refl)
next
  case (Cons i "is")
  have "istep rom x s = (s\<lparr>pc := Suc (pc s)\<rparr>, [])"
    using Cons.prems inc_in_rom [of "pc s" rom]
    by (cases i) (auto simp: istep_def code_at_Cons [of _ _ _ _ x])
  moreover have "reaches rom x (s\<lparr>pc := Suc (pc s)\<rparr>) [] (s\<lparr>pc := pc s + length (i # is)\<rparr>)"
    using Cons.IH [of "s\<lparr>pc := Suc (pc s)\<rparr>"] Cons.prems by (auto simp: code_at_Cons [of _ _ _ _ x])
  ultimately show ?case using reaches_trans [OF reaches_step] by fastforce
qed

text \<open>One pass of the data block for the address under the program counter.\<close>

lemma block_pass:
  assumes "mode s = STATE_TABLE_2" "code_at rom (pc s) [cmd_start a]"
    "code_at rom (dptr s) (map encode_op block @ [blk_start_addr])"
    "ops_sem (Some a) block (tgt s, pstart s) = ((t, st), bs)"
  shows "\<exists>s'. reaches rom x s bs s' \<and> mode s' = STATE_TABLE_2 \<and> pc s' = Suc (pc s) \<and>
    dptr s' = dptr s \<and> tgt s' = t \<and> pstart s' = st"
proof -
  let ?s1 = "s\<lparr>cur := a, aptr := Suc (pc s), pc := dptr s, mode := STATE_TABLE_3\<rparr>"
  let ?s2 = "?s1\<lparr>pc := pc ?s1 + length block, tgt := t, pstart := st\<rparr>"
  let ?s3 = "?s2\<lparr>pc := Suc (pc s), mode := STATE_TABLE_2\<rparr>"
  have "istep rom x s = (?s1, [])"
    using assms(1,2) inc_in_rom [of "pc s" rom] by (simp add: istep_def code_at_Cons [of _ _ _ _ x])
  then have "reaches rom x s [] ?s1" by (rule reaches_step)
  moreover have "reaches rom x ?s1 bs ?s2"
    by (rule ops_run) (use assms(3,4) in \<open>simp_all add: cur_of_def code_at_append\<close>)
  moreover have "istep rom x ?s2 = (?s3, [])"
    using assms(3) by (simp add: istep_def code_at_append code_at_Cons [of _ _ _ _ x])
  then have "reaches rom x ?s2 [] ?s3" by (rule reaches_step)
  ultimately have "reaches rom x s ([] @ bs @ []) ?s3" by (blast intro: reaches_trans)
  then show ?thesis by (intro exI [of _ ?s3]) simp
qed

lemma multi_run:
  assumes "mode s = STATE_TABLE_2" "code_at rom (pc s) (map cmd_start as)"
    "code_at rom (dptr s) (map encode_op block @ [blk_start_addr])"
    "multi_sem block as (tgt s, pstart s) = ((t, st), bs)"
  shows "\<exists>s'. reaches rom x s bs s' \<and> mode s' = STATE_TABLE_2 \<and> pc s' = pc s + length as \<and>
    dptr s' = dptr s \<and> tgt s' = t \<and> pstart s' = st"
  using assms
proof (induction as arbitrary: s bs)
  case Nil
  then show ?case by (intro exI [of _ s]) (simp add: reaches_refl)
next
  case (Cons a as)
  obtain t1 st1 o1 where o1: "ops_sem (Some a) block (tgt s, pstart s) = ((t1, st1), o1)"
    by (metis prod.collapse)
  then obtain o2 where o2: "multi_sem block as (t1, st1) = ((t, st), o2)" "bs = o1 @ o2"
    using Cons.prems(4) by (auto split: prod.splits)
  have c: "code_at rom (pc s) [cmd_start a]" "code_at rom (Suc (pc s)) (map cmd_start as)"
    using Cons.prems(2) code_at_append [of rom "pc s" "[cmd_start a]" "map cmd_start as"] by simp_all
  obtain s1 where s1: "reaches rom x s o1 s1" "mode s1 = STATE_TABLE_2" "pc s1 = Suc (pc s)"
    "dptr s1 = dptr s" "tgt s1 = t1" "pstart s1 = st1"
    using block_pass [OF Cons.prems(1) c(1) Cons.prems(3) o1] by blast
  obtain s2 where "reaches rom x s1 o2 s2" "mode s2 = STATE_TABLE_2" "pc s2 = pc s1 + length as"
    "dptr s2 = dptr s1" "tgt s2 = t" "pstart s2 = st"
    using Cons.IH [of s1 o2] s1 c(2) Cons.prems(3) o2(1) by auto
  then show ?case using s1 o2(2) reaches_trans [OF s1(1)] by (intro exI [of _ s2]) auto
qed

lemma item_run:
  assumes "mode s = STATE_RUN" "code_at rom (pc s) (encode_item p)"
    "item_sem p (tgt s, pstart s) = ((t, st), bs)"
  shows "\<exists>s'. reaches rom x s bs s' \<and> mode s' = STATE_RUN \<and> pc s' = pc s + length (encode_item p) \<and>
    tgt s' = t \<and> pstart s' = st"
proof (cases p)
  case (Straight ops)
  have "reaches rom x s bs (s\<lparr>pc := pc s + length ops, tgt := t, pstart := st\<rparr>)"
    by (rule ops_run) (use assms Straight in \<open>simp_all add: cur_of_def\<close>)
  then show ?thesis using assms(1) Straight by (intro exI [of _ "s\<lparr>pc := pc s + length ops, tgt := t, pstart := st\<rparr>"]) simp
next
  case (Multi block as)
  let ?s1 = "s\<lparr>dptr := Suc (pc s), pc := Suc (pc s), mode := STATE_TABLE_1\<rparr>"
  let ?s2 = "?s1\<lparr>pc := pc ?s1 + length block\<rparr>"
  let ?s3 = "?s2\<lparr>aptr := Suc (pc ?s2), pc := Suc (pc ?s2), mode := STATE_TABLE_2\<rparr>"
  have c: "code_at rom (pc s) ([blk_start_data] @ map encode_op block @ [blk_start_addr] @ map cmd_start as @ [cmd_exit])"
    using assms(2) Multi by simp
  have "istep rom x s = (?s1, [])" "istep rom x ?s2 = (?s3, [])"
    using assms(1) c inc_in_rom [of "pc s" rom] inc_in_rom [of "Suc (pc s + length block)" rom]
    by (simp_all add: istep_def code_at_append code_at_Cons [of _ _ _ _ x])
  moreover have "reaches rom x ?s1 [] ?s2"
    by (rule skip_block) (use c in \<open>simp_all add: code_at_append code_at_Cons [of _ _ _ _ x]\<close>)
  ultimately have s3: "reaches rom x s ([] @ [] @ []) ?s3"
    by (blast intro: reaches_trans reaches_step)
  obtain s4 where s4: "reaches rom x ?s3 bs s4" "mode s4 = STATE_TABLE_2" "pc s4 = pc ?s3 + length as"
    "tgt s4 = t" "pstart s4 = st"
    using multi_run [of ?s3 rom as block t st bs x] c assms(3) Multi
    by (auto simp: code_at_append code_at_Cons [of _ _ _ _ x] code_at_Nil)
  have "code_at rom (pc s4) [cmd_exit]"
    using c s4(3) by (simp add: code_at_append code_at_Cons [of _ _ _ _ x] add.commute add.left_commute)
  then have "istep rom x s4 = (s4\<lparr>pc := Suc (pc s4), mode := STATE_RUN\<rparr>, [])"
    using s4(2) inc_in_rom [of "pc s4" rom] by (simp add: istep_def code_at_Cons [of _ _ _ _ x])
  from reaches_trans [OF s3 reaches_trans [OF s4(1) reaches_step [OF this]]]
  show ?thesis using s4 Multi by (intro exI [of _ "s4\<lparr>pc := Suc (pc s4), mode := STATE_RUN\<rparr>"]) simp
qed


lemma items_run:
  assumes "mode s = STATE_RUN" "rom = pre @ concat (map encode_item p) @ [cmd_halt]" "pc s = length pre"
  shows "\<exists>s'. reaches rom x s (prog_sem p (tgt s, pstart s)) s' \<and> mode s' = STATE_IDLE"
  using assms
proof (induction p arbitrary: s pre)
  case Nil
  then have "istep rom x s = i_halt s" by (simp add: istep_def rom_at_def)
  then have "reaches rom x s [Beat_stop (tgt s)] (s\<lparr>mode := STATE_IDLE, pstart := False\<rparr>)"
    by (intro reaches_step) (simp add: i_halt_def)
  then show ?case by (intro exI [of _ "s\<lparr>mode := STATE_IDLE, pstart := False\<rparr>"]) simp
next
  case (Cons q p)
  obtain t st o1 where o1: "item_sem q (tgt s, pstart s) = ((t, st), o1)" by (metis prod.collapse)
  have "code_at rom (pc s) (encode_item q)" using Cons.prems by (simp add: code_at_def)
  from item_run [OF Cons.prems(1) this o1, of x] obtain s1 where
    s1: "reaches rom x s o1 s1" "mode s1 = STATE_RUN" "pc s1 = pc s + length (encode_item q)"
      "tgt s1 = t" "pstart s1 = st" by blast
  obtain s2 where "reaches rom x s1 (prog_sem p (t, st)) s2" "mode s2 = STATE_IDLE"
    using Cons.IH [of s1 "pre @ encode_item q"] s1 Cons.prems by auto
  then show ?case using reaches_trans [OF s1(1)] o1 by auto
qed

section \<open>The module runs the program\<close>

definition started :: "9 word list \<Rightarrow> 9 word \<Rightarrow> bool \<Rightarrow> fsm" where
  "started rom x sim = clock rom x sim ready_in fsm_init"

lemma started_facts:
  "abs_fsm (started rom x sim) =
     \<lparr>mode = STATE_RUN, pc = 0, aptr = 0, dptr = 0, cur = 0, tgt = 0, pstart = False\<rparr>"
  "\<not> fsm_busy (started rom x sim)" "start_flag_reg (started rom x sim)"
  "fetched rom x (started rom x sim)" "cmd_pend (started rom x sim) = []"
  "tx_pend (started rom x sim) = []"
  by (simp_all add: started_def fsm_defs fsm_init_def ready_in_def state_idle_def fsm_busy_def
      fetched_def)

lemma isteps_prefix:
  assumes "isteps rom x j s = (s1, b1)" "isteps rom x k s = (s2, b2)" "mode s2 = STATE_IDLE"
  shows "\<exists>rest. b2 = b1 @ rest" "k \<le> j \<Longrightarrow> b1 = b2"
proof -
  show eq: "b1 = b2" if "k \<le> j"
    using isteps_add [OF assms(2), of "j - k" s2 "[]"] isteps_idle [OF assms(3)] assms(1) that by simp
  show "\<exists>rest. b2 = b1 @ rest"
  proof (cases "k \<le> j")
    case False
    obtain s3 b3 where "isteps rom x (k - j) s1 = (s3, b3)" by fastforce
    then show ?thesis using isteps_add [OF assms(1), of "k - j" s3 b3] assms(2) False by simp
  qed (use eq in simp)
qed

lemma prog_isteps:
  obtains k s' where "isteps (encode_prog p) x k (abs_fsm (started (encode_prog p) x sim)) =
    (s', prog_sem p (0, False))" "mode s' = STATE_IDLE"
  using items_run [of "abs_fsm (started (encode_prog p) x sim)" "encode_prog p" "[]" p x]
  by (auto simp: started_facts encode_prog_def reaches_def)

text \<open>C28: Safety of the I2C initialisation module: after the start, under every pattern of ready
  signals on the two streams (and with the start input held or released, but not raised again), the
  command beats and the data bytes that have crossed the streams are prefixes of the beats and bytes
  that the program in the ROM means, whatever an unwritten ROM word reads as.\<close>

theorem fsm_outputs_prefix:
  assumes "fsm_run (encode_prog p) x sim is (started (encode_prog p) x sim) = (r', C, T)"
    and "\<forall>i \<in> set is. \<not> rst i" and "no_restart is"
  shows "\<exists>c t. map cmd_of (prog_sem p (0, False)) = C @ c \<and>
    concat (map tx_of (prog_sem p (0, False))) = T @ t"
proof -
  let ?rom = "encode_prog p"
  obtain k s' where k: "isteps ?rom x k (abs_fsm (started ?rom x sim)) = (s', prog_sem p (0, False))"
    "mode s' = STATE_IDLE" by (rule prog_isteps)
  obtain j bs where j: "isteps ?rom x j (abs_fsm (started ?rom x sim)) = (abs_fsm r', bs)"
    "C @ cmd_pend r' = map cmd_of bs" "T @ tx_pend r' = concat (map tx_of bs)"
    using fsm_run_refines [OF assms(1,2,3)] started_facts(3,4,5,6) by fastforce
  obtain rest where "prog_sem p (0, False) = bs @ rest" using isteps_prefix(1) [OF j(1) k] by blast
  then show ?thesis using j(2) [symmetric] j(3) [symmetric] by simp
qed

theorem fsm_outputs_prefix_witness:
  "\<exists>C T c t. snd (fsm_run (encode_prog [Multi [OCur, OWr 4] [0x50, 0x51]]) 511 True
        (replicate 9 ready_in @ [ready_in\<lparr>cmd_tready := False\<rparr>, ready_in\<lparr>tx_tready := False, start := False\<rparr>])
        (started (encode_prog [Multi [OCur, OWr 4] [0x50, 0x51]]) 511 True)) = (C, T) \<and>
     map cmd_of (prog_sem [Multi [OCur, OWr 4] [0x50, 0x51]] (0, False)) = C @ c \<and>
     concat (map tx_of (prog_sem [Multi [OCur, OWr 4] [0x50, 0x51]] (0, False))) = T @ t"
proof -
  let ?is = "replicate 9 ready_in @ [ready_in\<lparr>cmd_tready := False\<rparr>, ready_in\<lparr>tx_tready := False, start := False\<rparr>]"
  have "\<forall>i \<in> set ?is. \<not> rst i" "no_restart ?is"
    by (simp_all add: ready_in_def no_restart_def numeral_eq_Suc)
  from fsm_outputs_prefix [OF _ this] show ?thesis by (metis prod.collapse)
qed

lemma fsm_final:
  "\<exists>n. \<forall>m. \<exists>r'. fsm_run (encode_prog p) x sim (replicate (n + m) ready_in) (started (encode_prog p) x sim) =
     (r', map cmd_of (prog_sem p (0, False)), concat (map tx_of (prog_sem p (0, False)))) \<and>
     state_reg r' = STATE_IDLE \<and> \<not> fsm_busy r'"
proof -
  let ?rom = "encode_prog p" and ?r = "started (encode_prog p) x sim"
  obtain k s' where k: "isteps ?rom x k (abs_fsm ?r) = (s', prog_sem p (0, False))"
    "mode s' = STATE_IDLE" by (rule prog_isteps)
  obtain n where n: "\<not> fsm_busy (cycles ?rom x sim n ?r)" "abs_fsm (cycles ?rom x sim n ?r) = s'"
    "start_flag_reg (cycles ?rom x sim n ?r)"
    using progress [OF started_facts(2,4,3) k(1)] by blast
  have stay: "\<not> fsm_busy (cycles ?rom x sim (n + m) ?r) \<and> abs_fsm (cycles ?rom x sim (n + m) ?r) = s' \<and>
      start_flag_reg (cycles ?rom x sim (n + m) ?r)" for m
  proof (induction m)
    case 0
    then show ?case using n by simp
  next
    case (Suc m)
    let ?q = "cycles ?rom x sim (n + m) ?r"
    have q: "state_reg ?q = STATE_IDLE" using Suc k(2) by (auto simp: abs_fsm_def)
    have "cycles ?rom x sim (n + Suc m) ?r = clock ?rom x sim ready_in ?q"
      using cycles_add [of ?rom x sim "n + m" 1 ?r] cycles_1 by simp
    then show ?case
      using Suc q clock_idle(1) [of ready_in ?q ?rom x sim] idle_registers [of ?q]
      by (auto simp: ready_in_def fsm_defs state_idle_def fsm_busy_def)
  qed
  show ?thesis
  proof (intro exI [of _ n] allI)
    fix m
    obtain r' C T where r: "fsm_run ?rom x sim (replicate (n + m) ready_in) ?r = (r', C, T)"
      using prod_cases3 by blast
    obtain j bs where j: "isteps ?rom x j (abs_fsm ?r) = (abs_fsm r', bs)"
      "C @ cmd_pend r' = map cmd_of bs" "T @ tx_pend r' = concat (map tx_of bs)"
      using fsm_run_refines [OF r] started_facts(3,4,5,6)
      by (fastforce simp: ready_in_def no_restart_def sorted_wrt_iff_nth_less)
    have r': "\<not> fsm_busy r'" "abs_fsm r' = s'" using stay [of m] r by simp_all
    have "bs = prog_sem p (0, False)"
      using isteps_prefix [OF j(1) k] isteps_prefix(2) [OF k(1) j(1)] r'(2) k(2)
      by (metis nat_le_linear)
    then show "\<exists>r'. fsm_run ?rom x sim (replicate (n + m) ready_in) ?r =
       (r', map cmd_of (prog_sem p (0, False)), concat (map tx_of (prog_sem p (0, False)))) \<and>
       state_reg r' = STATE_IDLE \<and> \<not> fsm_busy r'"
      using r j r' k(2) clock_xfer_clear [OF r'(1)] by (auto simp: abs_fsm_def)
  qed
qed

text \<open>C27: The I2C initialisation module is a correct interpreter of its ROM: started once with both
  streams ready, after finitely many cycles it is idle with nothing pending and the beats and bytes
  sent are exactly those the program means (blocks repeated for every address, ended by a stop); and
  it stays so, although \<open>start\<close> is held high.\<close>

theorem fsm_runs_program:
  "\<exists>n. \<forall>m. \<exists>r'. fsm_run (encode_prog p) x sim (replicate (n + m) ready_in) (started (encode_prog p) x sim) =
     (r', map cmd_of (prog_sem p (0, False)), concat (map tx_of (prog_sem p (0, False)))) \<and>
     state_reg r' = STATE_IDLE \<and> \<not> fsm_busy r'"
  by (rule fsm_final)

end
