(* ===== verification/PllGen.thy ===== *)
theory PllGen imports PllProg begin

text \<open>
  The Python side of the PLL generators: reading a register list, choosing the I2C commands for
  each chip, and writing the ROM of the module.  A command is a value of \<open>cmd\<close>; the
  constructor stands for the call of the template's function that the Python code prints, with the
  number it prints in it, and \<open>elab\<close> is the word that call has in the module.
\<close>

section \<open>Text of the register lists\<close>

definition is_space :: "char \<Rightarrow> bool" where
  "is_space c = (let n = (of_char c :: nat) in 9 \<le> n \<and> n \<le> 13 \<or> 28 \<le> n \<and> n \<le> 32 \<or> n = 133 \<or> n = 160)"

definition strip :: "string \<Rightarrow> string" where
  "strip s = rev (dropWhile is_space (rev (dropWhile is_space s)))"

definition startswith :: "string \<Rightarrow> string \<Rightarrow> bool" where
  "startswith p s \<longleftrightarrow> take (length p) s = p"

fun split_on :: "char \<Rightarrow> string \<Rightarrow> string list" where
  "split_on c [] = [[]]"
| "split_on c (x # xs) =
     (case split_on c xs of [] \<Rightarrow> [[x]] | y # ys \<Rightarrow> if x = c then [] # y # ys else (x # y) # ys)"

text \<open>\<open>int(s, 0)\<close>: an optional sign, a base prefix, digits with single underscores
  between them; a decimal number does not start with 0 unless it is zero.\<close>

definition digit_val :: "char \<Rightarrow> nat option" where
  "digit_val c = (let n = (of_char c :: nat) in
     if 48 \<le> n \<and> n \<le> 57 then Some (n - 48)
     else if 97 \<le> n \<and> n \<le> 122 then Some (n - 87)
     else if 65 \<le> n \<and> n \<le> 90 then Some (n - 55)
     else None)"

fun scan_digits :: "nat \<Rightarrow> bool \<Rightarrow> nat \<Rightarrow> string \<Rightarrow> nat option" where
  "scan_digits b after_digit acc [] = (if after_digit then Some acc else None)"
| "scan_digits b after_digit acc (c # cs) =
     (if c = CHR ''_'' then (if after_digit then scan_digits b False acc cs else None)
      else case digit_val c of
             Some d \<Rightarrow> if d < b then scan_digits b True (acc * b + d) cs else None
           | None \<Rightarrow> None)"

definition after_prefix :: "nat \<Rightarrow> string \<Rightarrow> nat option" where
  "after_prefix b s = (case s of c # cs \<Rightarrow> if c = CHR ''_'' then scan_digits b False 0 cs
                                     else scan_digits b False 0 s
                       | [] \<Rightarrow> None)"

definition magnitude :: "string \<Rightarrow> nat option" where
  "magnitude s =
     (if startswith ''0x'' s \<or> startswith ''0X'' s then after_prefix 16 (drop 2 s)
      else if startswith ''0o'' s \<or> startswith ''0O'' s then after_prefix 8 (drop 2 s)
      else if startswith ''0b'' s \<or> startswith ''0B'' s then after_prefix 2 (drop 2 s)
      else case scan_digits 10 False 0 s of
             Some n \<Rightarrow> if startswith ''0'' s \<and> n \<noteq> 0 then None else Some n
           | None \<Rightarrow> None)"

text \<open>\<open>int\<close> skips less around a number than \<open>str.strip\<close> does: not the separators 28 to 31.\<close>

definition int_space :: "char \<Rightarrow> bool" where
  "int_space c \<longleftrightarrow> is_space c \<and> \<not> (28 \<le> (of_char c :: nat) \<and> (of_char c :: nat) \<le> 31)"

definition int_strip :: "string \<Rightarrow> string" where
  "int_strip s = rev (dropWhile int_space (rev (dropWhile int_space s)))"

definition py_int0 :: "string \<Rightarrow> int result" where
  "py_int0 s =
     (let t = int_strip s;
          (neg, u) = (if startswith ''-'' t then (True, drop 1 t)
                      else if startswith ''+'' t then (False, drop 1 t) else (False, t))
      in case magnitude u of
           None \<Rightarrow> Inl ValueError
         | Some n \<Rightarrow> Inr (if neg then - int n else int n))"

section \<open>Commands\<close>

datatype cmd = Comment string | Start int | Wr int | Stop | Delay int | Halt

text \<open>What every reader does with a line: skip it, copy a comment (with a delay for
  \<open># Delay\<close>), or read data from it.\<close>

datatype reg_line = Skip | Note string bool | Data string

definition line_kind :: "string \<Rightarrow> string \<Rightarrow> reg_line" where
  "line_kind header raw =
     (let line = strip raw in
      if line = [] \<or> line = header then Skip
      else if hd line = CHR ''#'' then Note (strip (tl line)) (startswith ''# Delay'' line)
      else Data line)"

definition note_cmds :: "string \<Rightarrow> bool \<Rightarrow> cmd list" where
  "note_cmds s d = Comment s # (if d then [Delay 10] else [])"

text \<open>\<open>si5340_cmds\<close>, and \<open>si5341_cmds\<close> of the other boards, which has the same
  body: the page and the address the chip is known to be at are remembered.\<close>

type_synonym si_state = "cmd list \<times> int option \<times> int option"

definition si_write :: "int \<Rightarrow> int \<Rightarrow> int \<Rightarrow> si_state \<Rightarrow> si_state" where
  "si_write dev addr data = (\<lambda>(cmds, cur_page, cur_addr).
     let page = drop_bit 8 addr AND 0xff;
         (cmds, cur_page, cur_addr) =
           (if Some page \<noteq> cur_page
            then (cmds @ [Start dev, Wr 0x01, Wr page], Some page, None)
            else (cmds, cur_page, cur_addr));
         cmds = (if Some addr \<noteq> cur_addr then cmds @ [Start dev, Wr (addr AND 0xff)] else cmds)
     in (cmds @ [Wr data], cur_page, Some (addr + 1)))"

definition si_line :: "int \<Rightarrow> string \<Rightarrow> si_state \<Rightarrow> si_state result" where
  "si_line dev raw = (\<lambda>(cmds, cur_page, cur_addr).
     case line_kind ''Address,Data'' raw of
       Skip \<Rightarrow> Inr (cmds, cur_page, cur_addr)
     | Note s d \<Rightarrow> Inr (cmds @ note_cmds s d, cur_page, if d then None else cur_addr)
     | Data line \<Rightarrow>
         (let d = split_on (CHR '','') line in
          rbind (rbind (py_get d 0) py_int0) (\<lambda>addr.
          rbind (rbind (py_get d 1) py_int0) (\<lambda>data.
          Inr (si_write dev addr data (cmds, cur_page, cur_addr))))))"

definition si5340_cmds :: "string list \<Rightarrow> int \<Rightarrow> cmd list result" where
  "si5340_cmds regs dev = rbind (rfold (si_line dev) regs ([], None, None)) (\<lambda>(cmds, _, _). Inr cmds)"

definition si5341_cmds :: "string list \<Rightarrow> int \<Rightarrow> cmd list result" where
  "si5341_cmds = si5340_cmds"

definition mux_cmds :: "int \<Rightarrow> int \<Rightarrow> cmd list" where
  "mux_cmds val dev = [Start dev, Wr val, Stop]"

section \<open>SPI devices behind an I2C bridge\<close>

text \<open>\<open>to_bytes(4, 'big')\<close>.\<close>

definition to_bytes4 :: "int \<Rightarrow> bytes result" where
  "to_bytes4 n = (if 0 \<le> n \<and> n < 2 ^ 32
     then Inr [drop_bit 24 n AND 0xff, drop_bit 16 n AND 0xff, drop_bit 8 n AND 0xff, n AND 0xff]
     else Inl OverflowError)"

definition lmk04208_line :: "int \<Rightarrow> int \<Rightarrow> string \<Rightarrow> cmd list \<Rightarrow> cmd list result" where
  "lmk04208_line dev csmask raw cmds =
     (case line_kind ''Data'' raw of
        Skip \<Rightarrow> Inr cmds
      | Note s d \<Rightarrow> Inr (cmds @ note_cmds s d)
      | Data line \<Rightarrow>
          rbind (py_int0 line) (\<lambda>data.
          rbind (to_bytes4 data) (\<lambda>b.
          Inr (cmds @ [Start dev, Wr csmask] @ map Wr b @ [Delay 1]))))"

definition lmk04208_cmds :: "string list \<Rightarrow> int \<Rightarrow> int \<Rightarrow> cmd list result" where
  "lmk04208_cmds regs dev csmask = rfold (lmk04208_line dev csmask) regs []"

text \<open>The reader of an \<open>Address,Data\<close> list for one SPI transfer per line; the two LMX2594
  functions (ZCU111 with a small delay after each transfer, HTG-ZRF8 without) and the LMK04832
  function differ in the bytes.\<close>

definition spi_line :: "(int \<Rightarrow> int \<Rightarrow> cmd list) \<Rightarrow> string \<Rightarrow> cmd list \<Rightarrow> cmd list result" where
  "spi_line xfer raw cmds =
     (case line_kind ''Address,Data'' raw of
        Skip \<Rightarrow> Inr cmds
      | Note s d \<Rightarrow> Inr (cmds @ note_cmds s d)
      | Data line \<Rightarrow>
          (let d = split_on (CHR '','') line in
           rbind (rbind (py_get d 0) py_int0) (\<lambda>addr.
           rbind (rbind (py_get d 1) py_int0) (\<lambda>data.
           Inr (cmds @ xfer addr data)))))"

definition lmx2594_xfer :: "int \<Rightarrow> int \<Rightarrow> int \<Rightarrow> int \<Rightarrow> cmd list" where
  "lmx2594_xfer dev csmask addr data =
     [Start dev, Wr csmask, Wr addr, Wr (drop_bit 8 data AND 0xff), Wr (data AND 0xff)]"

definition lmx2594_cmds_zcu111 :: "string list \<Rightarrow> int \<Rightarrow> int \<Rightarrow> cmd list result" where
  "lmx2594_cmds_zcu111 regs dev csmask =
     rfold (spi_line (\<lambda>addr data. lmx2594_xfer dev csmask addr data @ [Delay 1])) regs []"

definition lmx2594_cmds :: "string list \<Rightarrow> int \<Rightarrow> int \<Rightarrow> cmd list result" where
  "lmx2594_cmds regs dev csmask = rfold (spi_line (lmx2594_xfer dev csmask)) regs []"

definition lmk04832_cmds :: "string list \<Rightarrow> int \<Rightarrow> int \<Rightarrow> cmd list result" where
  "lmk04832_cmds regs dev csmask =
     rfold (spi_line (\<lambda>addr data.
       [Start dev, Wr csmask, Wr (drop_bit 8 addr AND 0xff), Wr (addr AND 0xff), Wr data])) regs []"

section \<open>The boards\<close>

definition initial_delay :: "cmd list" where
  "initial_delay = [Comment ''Initial delay'', Delay 6]"

definition bridge_config :: "int \<Rightarrow> cmd list" where
  "bridge_config dev = [Start dev, Wr 0xf0, Wr 0x00, Start dev, Wr 0xf6, Wr 0x00]"

definition bridge_clear :: "int \<Rightarrow> cmd list" where
  "bridge_clear dev = [Start dev, Wr 0xf1]"

definition main_nt200 :: "string list \<Rightarrow> cmd list result" where
  "main_nt200 regs = rbind (si5340_cmds regs 0x74) (\<lambda>c. Inr (initial_delay @ c))"

text \<open>HTG-9200 prints two modules; the second one has the commands of the first at its start.\<close>

definition main_htg9200 :: "string list \<Rightarrow> string list \<Rightarrow> (cmd list \<times> cmd list) result" where
  "main_htg9200 regs1 regs2 =
     rbind (si5341_cmds regs1 0x77) (\<lambda>c1.
     let cmds1 = initial_delay @ [Comment ''Set muxes to select U48 Si5341 on HTG-9200'']
                 @ mux_cmds 0x00 0x70 @ mux_cmds 0x04 0x71 @ c1 in
     rbind (si5341_cmds regs2 0x77) (\<lambda>c2.
     Inr (cmds1, cmds1 @ [Comment ''Set muxes to select U7 Si5341 on HTG-FMC-x6-QSFP28'']
                 @ mux_cmds 0x00 0x70 @ mux_cmds 0x02 0x71 @ c2)))"

definition main_zcu111 :: "string list \<Rightarrow> string list \<Rightarrow> cmd list result" where
  "main_zcu111 lmk lmx =
     rbind (lmk04208_cmds lmk 0x2f 0x02) (\<lambda>c1.
     rbind (lmx2594_cmds_zcu111 lmx 0x2f 0x0d) (\<lambda>c2.
     Inr (initial_delay @ [Comment ''Set mux to select I2C-SPI bridge on ZCU111'']
          @ mux_cmds 0x20 0x74 @ mux_cmds 0x00 0x75
          @ [Comment ''Configure I2C-SPI bridge''] @ bridge_config 0x2f @ c1 @ c2
          @ [Comment ''Clear I2C-SPI bridge interrupt''] @ bridge_clear 0x2f)))"

definition main_zrf8_em :: "string list \<Rightarrow> string list \<Rightarrow> string list \<Rightarrow> cmd list result" where
  "main_zrf8_em si lmk lmx =
     rbind (si5341_cmds si 0x74) (\<lambda>c1.
     rbind (lmk04832_cmds lmk 0x2a 0x08) (\<lambda>c2.
     rbind (lmx2594_cmds lmx 0x2a 0x07) (\<lambda>c3.
     Inr (initial_delay @ [Comment ''Set mux to select U48 Si5341 on HTG-ZRF8-EM'']
          @ mux_cmds 0x10 0x71 @ c1
          @ [Comment ''Set mux to select I2C-SPI bridge on HTG-ZRF8-EM''] @ mux_cmds 0x0a 0x71
          @ [Comment ''Configure I2C-SPI bridge''] @ bridge_config 0x2a @ c2 @ c3
          @ [Comment ''Clear I2C-SPI bridge interrupt''] @ bridge_clear 0x2a))))"

definition main_zrf8_r2 :: "string list \<Rightarrow> string list \<Rightarrow> string list \<Rightarrow> cmd list result" where
  "main_zrf8_r2 si lmk lmx =
     rbind (si5341_cmds si 0x74) (\<lambda>c1.
     rbind (lmk04832_cmds lmk 0x2e 0x01) (\<lambda>c2.
     rbind (lmx2594_cmds lmx 0x2a 0x07) (\<lambda>c3.
     Inr (initial_delay @ [Comment ''Set mux to select U19 Si5341 on HTG-ZRF8-R2'']
          @ mux_cmds 0x10 0x71 @ c1
          @ [Comment ''Set mux to select I2C-SPI bridge on HTG-ZRF8-R2''] @ mux_cmds 0x0b 0x71
          @ [Comment ''Configure I2C-SPI bridge for LMK04832''] @ bridge_config 0x2e
          @ [Comment ''Configure I2C-SPI bridge for LMX2594''] @ bridge_config 0x2a @ c2 @ c3
          @ [Comment ''Clear I2C-SPI bridge interrupt for LMK04832''] @ bridge_clear 0x2e
          @ [Comment ''Clear I2C-SPI bridge interrupt for LMX2594''] @ bridge_clear 0x2a))))"

section \<open>Writing the ROM\<close>

text \<open>The loop of \<open>generate\<close>: the assignments \<open>init_data[n] = \<dots>\<close> with their
  index, and the count.\<close>

definition gen_step :: "cmd \<Rightarrow> (nat \<times> cmd) list \<times> nat \<Rightarrow> (nat \<times> cmd) list \<times> nat" where
  "gen_step c = (\<lambda>(out, n). case c of Comment _ \<Rightarrow> (out, n) | _ \<Rightarrow> (out @ [(n, c)], n + 1))"

definition generate :: "cmd list \<Rightarrow> (nat \<times> cmd) list \<times> nat" where
  "generate cmds = fold gen_step (cmds @ [Halt]) ([], 0)"

text \<open>The calls as the module evaluates them: the literal is cut to the width of the argument; a
  negative number is printed with a sign inside the literal, which is no literal.\<close>

definition elab :: "cmd \<Rightarrow> 9 word option" where
  "elab c = (case c of
       Comment _ \<Rightarrow> None
     | Start a \<Rightarrow> if 0 \<le> a then Some (cmd_start (word_of_int a)) else None
     | Wr d \<Rightarrow> if 0 \<le> d then Some (cmd_wr (word_of_int d)) else None
     | Stop \<Rightarrow> Some cmd_stop
     | Delay d \<Rightarrow> if 0 \<le> d then Some (cmd_delay (word_of_int d)) else None
     | Halt \<Rightarrow> Some cmd_halt)"

text \<open>The initial block of the module: \<open>INIT_DATA_LEN\<close> words, unknown until assigned.\<close>

definition rom_image :: "9 word \<Rightarrow> (nat \<times> cmd) list \<times> nat \<Rightarrow> 9 word list option" where
  "rom_image x = (\<lambda>(out, n).
     fold (\<lambda>(k, c) m. case (m, elab c) of (Some ws, Some w) \<Rightarrow> Some (ws[k := w]) | _ \<Rightarrow> None)
       out (Some (replicate n x)))"


section \<open>The ROM is the program\<close>

fun is_note :: "cmd \<Rightarrow> bool" where
  "is_note (Comment s) = True"
| "is_note c = False"

fun cmd_ok :: "cmd \<Rightarrow> bool" where
  "cmd_ok (Start a) = (0 \<le> a)"
| "cmd_ok (Wr d) = (0 \<le> d)"
| "cmd_ok (Delay d) = (0 \<le> d)"
| "cmd_ok Halt = False"
| "cmd_ok _ = True"

fun op_of :: "cmd \<Rightarrow> op list" where
  "op_of (Comment s) = []"
| "op_of (Start a) = [OStart (word_of_int a)]"
| "op_of (Wr d) = [OWr (word_of_int d)]"
| "op_of Stop = [OStop]"
| "op_of (Delay d) = [ODelay (word_of_int d)]"
| "op_of Halt = []"

definition ops_of :: "cmd list \<Rightarrow> op list" where "ops_of cs = concat (map op_of cs)"

lemma ops_of_simps [simp]:
  "ops_of [] = []" "ops_of (c # cs) = op_of c @ ops_of cs" "ops_of (cs @ ds) = ops_of cs @ ops_of ds"
  by (simp_all add: ops_of_def)

fun number_from :: "nat \<Rightarrow> cmd list \<Rightarrow> (nat \<times> cmd) list" where
  "number_from n [] = []"
| "number_from n (c # cs) = (n, c) # number_from (Suc n) cs"

definition code_cmds :: "cmd list \<Rightarrow> cmd list" where
  "code_cmds cs = filter (\<lambda>c. \<not> is_note c) cs"

lemma code_cmds_simps [simp]:
  "code_cmds [] = []" "code_cmds (c # cs) = (if is_note c then code_cmds cs else c # code_cmds cs)"
  "code_cmds (cs @ ds) = code_cmds cs @ code_cmds ds"
  by (simp_all add: code_cmds_def)

lemma gen_fold:
  "fold gen_step cs (out, n) = (out @ number_from n (code_cmds cs), n + length (code_cmds cs))"
proof (induction cs arbitrary: out n)
  case (Cons c cs)
  have "gen_step c (out, n) = (if is_note c then (out, n) else (out @ [(n, c)], Suc n))"
    by (cases c) (simp_all add: gen_step_def)
  then show ?case using Cons by simp
qed simp

lemma assign_fold:
  assumes "\<forall>c \<in> set cs. elab c \<noteq> None"
  shows "n + length cs \<le> length ws \<Longrightarrow>
    fold (\<lambda>(k, c) m. case (m, elab c) of (Some ws, Some w) \<Rightarrow> Some (ws[k := w]) | _ \<Rightarrow> None)
       (number_from n cs) (Some ws) =
     Some (take n ws @ map (the \<circ> elab) cs @ drop (n + length cs) ws)"
  using assms
proof (induction cs arbitrary: n ws)
  case (Cons c cs)
  obtain w where w: "elab c = Some w" using Cons.prems(2) by auto
  have "take (Suc n) (ws[n := w]) = take n ws @ [w]"
    using Cons.prems(1) by (simp add: take_Suc_conv_app_nth)
  then show ?case using Cons.IH [of "Suc n" "ws[n := w]"] Cons.prems w by simp
qed simp

lemma elab_ok: "cmd_ok c \<Longrightarrow> \<not> is_note c \<Longrightarrow> elab c \<noteq> None"
  by (cases c) (simp_all add: elab_def)

lemma elab_ops:
  "\<forall>c \<in> set cs. cmd_ok c \<Longrightarrow> map (the \<circ> elab) (code_cmds cs) = map encode_op (ops_of cs)"
proof (induction cs)
  case (Cons c cs)
  then show ?case by (cases c) (simp_all add: elab_def)
qed simp

lemma rom_image_prog:
  assumes "\<forall>c \<in> set cs. cmd_ok c"
  shows "rom_image x (generate cs) = Some (encode_prog [Straight (ops_of cs)])"
proof -
  let ?f = "code_cmds (cs @ [Halt])"
  have g: "generate cs = (number_from 0 ?f, length ?f)"
    unfolding generate_def gen_fold by simp
  have "\<forall>c \<in> set ?f. elab c \<noteq> None"
    using assms elab_ok by (auto simp: code_cmds_def elab_def)
  then have "rom_image x (generate cs) = Some (map (the \<circ> elab) ?f)"
    using assign_fold [of ?f 0 "replicate (length ?f) x"] g by (simp add: rom_image_def)
  then show ?thesis
    using elab_ops [OF assms] by (simp add: encode_prog_def elab_def)
qed

lemma ops_sem_append:
  "ops_sem c (a @ b) t = (let (t1, o1) = ops_sem c a t; (t2, o2) = ops_sem c b t1 in (t2, o1 @ o2))"
  by (induction a arbitrary: t) (auto simp: Let_def split: prod.splits)

section \<open>What the bus carries\<close>

text \<open>The beats read back from the two streams.\<close>

fun join :: "cmd_beat list \<Rightarrow> 8 word list \<Rightarrow> beat list" where
  "join ((a, s, True, p) # cs) (d # ds) = Beat_wr a s d # join cs ds"
| "join ((a, s, False, p) # cs) ds = Beat_stop a # join cs ds"
| "join _ _ = []"

lemma join_beats: "join (map cmd_of bs) (concat (map tx_of bs)) = bs"
proof (induction bs)
  case (Cons b bs)
  then show ?case by (cases b) simp_all
qed simp

text \<open>A chip of the Si534x family at address \<open>dev\<close>, as the generator uses it: the byte
  after a start is a register address; later bytes are written to consecutive registers; register
  1 of every page selects the page.  The state is the page, the register address and the registers
  written, with their page.\<close>

type_synonym chip = "8 word \<times> 8 word \<times> (8 word \<times> 8 word \<times> 8 word) list"

fun si_beat :: "7 word \<Rightarrow> beat \<Rightarrow> chip \<Rightarrow> chip" where
  "si_beat dev (Beat_wr t st d) (page, reg, ws) =
     (if t \<noteq> dev then (page, reg, ws)
      else if st then (page, d, ws)
      else if reg = 1 then (d, reg + 1, ws)
      else (page, reg + 1, ws @ [(page, reg, d)]))"
| "si_beat dev (Beat_stop t) c = c"

text \<open>The registers of a file, in order.\<close>

definition line_regs :: "string \<Rightarrow> (int \<times> int) list result" where
  "line_regs raw =
     (case line_kind ''Address,Data'' raw of
        Data line \<Rightarrow>
          (let d = split_on (CHR '','') line in
           rbind (rbind (py_get d 0) py_int0) (\<lambda>addr.
           rbind (rbind (py_get d 1) py_int0) (\<lambda>data. Inr [(addr, data)])))
      | _ \<Rightarrow> Inr [])"

definition file_regs :: "string list \<Rightarrow> (int \<times> int) list result" where
  "file_regs lines = rbind (rmap line_regs lines) (\<lambda>rs. Inr (concat rs))"

definition reg_ok :: "int \<times> int \<Rightarrow> bool" where
  "reg_ok = (\<lambda>(a, d). 0 \<le> a \<and> a < 0x10000 \<and> a mod 256 \<noteq> 1 \<and> 0 \<le> d \<and> d < 256)"

definition reg_write :: "int \<times> int \<Rightarrow> 8 word \<times> 8 word \<times> 8 word" where
  "reg_write = (\<lambda>(a, d). (word_of_int (a div 256), word_of_int a, word_of_int d))"


text \<open>What is known of the chip after some commands: the bus addresses it when a register address
  is remembered, the remembered page and address are the chip's, and the registers written are
  those of the lines read.\<close>

abbreviation beats_of :: "cmd list \<Rightarrow> bus \<times> beat list" where
  "beats_of cs \<equiv> ops_sem None (ops_of cs) (0, False)"

definition chip_after :: "7 word \<Rightarrow> cmd list \<Rightarrow> chip \<Rightarrow> chip" where
  "chip_after dev cs c = fold (si_beat dev) (snd (beats_of cs)) c"

fun si_inv :: "7 word \<Rightarrow> chip \<Rightarrow> (int \<times> int) list \<Rightarrow> si_state \<Rightarrow> bool" where
  "si_inv dev c0 regs (cmds, cp, ca) =
     (\<exists>t page reg. fst (beats_of cmds) = (t, False) \<and>
        chip_after dev cmds c0 = (page, reg, snd (snd c0) @ map reg_write regs) \<and>
        (\<forall>p. cp = Some p \<longrightarrow> page = word_of_int p) \<and>
        (\<forall>a. ca = Some a \<longrightarrow> cp \<noteq> None \<and> t = dev \<and> reg = word_of_int a))"

lemma word8_mod: "(word_of_int (a mod 256) :: 8 word) = word_of_int a"
  by (simp add: word_of_int_eq_iff take_bit_eq_mod)

lemma and_255: "(a :: int) AND 255 = a mod 256"
  using take_bit_eq_mask [of 8 a] by (simp add: mask_eq_exp_minus_1 take_bit_eq_mod)

lemma reg_not_page:
  assumes "a mod 256 \<noteq> 1" shows "(word_of_int a :: 8 word) \<noteq> 1"
proof
  assume "(word_of_int a :: 8 word) = 1"
  then have "(word_of_int a :: 8 word) = word_of_int 1" by simp
  then have "a mod 256 = 1" unfolding word_of_int_eq_iff by (simp add: take_bit_eq_mod)
  with assms show False by simp
qed

lemma chip_after_append:
  "beats_of cs = ((t, st), bs) \<Longrightarrow>
   chip_after dev (cs @ ds) c =
     fold (si_beat dev) (snd (ops_sem None (ops_of ds) (t, st))) (chip_after dev cs c)"
  by (simp add: chip_after_def ops_sem_append split: prod.splits)

lemma bus_append:
  "beats_of cs = ((t, st), bs) \<Longrightarrow> fst (beats_of (cs @ ds)) = fst (ops_sem None (ops_of ds) (t, st))"
  by (simp add: ops_sem_append split: prod.splits)

lemma si_inv_note:
  assumes "si_inv dev c0 regs (cmds, cp, ca)"
  shows "si_inv dev c0 regs (cmds @ note_cmds s d, cp, if d then None else ca)"
proof -
  obtain t bs where b: "beats_of cmds = ((t, False), bs)" using assms by (metis si_inv.simps prod.collapse)
  show ?thesis
    using assms chip_after_append [OF b, of dev "note_cmds s d" c0] bus_append [OF b, of "note_cmds s d"] b
    by (auto simp: note_cmds_def)
qed

lemma si_inv_write:
  assumes "si_inv (word_of_int dev) c0 regs (cmds, cp, ca)" "reg_ok (a, d)"
  shows "si_inv (word_of_int dev) c0 (regs @ [(a, d)]) (si_write dev a d (cmds, cp, ca))"
proof -
  obtain t bs where b: "beats_of cmds = ((t, False), bs)" using assms by (metis si_inv.simps prod.collapse)
  have pg: "drop_bit 8 a AND 255 = a div 256"
  proof -
    have "0 \<le> a div 256" "a div 256 < 256" using assms(2) by (auto simp: reg_ok_def)
    then show ?thesis by (simp add: and_255 drop_bit_eq_div)
  qed
  have lo: "(word_of_int (a AND 255) :: 8 word) = word_of_int a" by (simp add: and_255 word8_mod)
  have ne: "(word_of_int a :: 8 word) \<noteq> 1" using assms(2) reg_not_page by (simp add: reg_ok_def)
  note ap = chip_after_append [OF b] bus_append [OF b]
  show ?thesis
    using assms(1) b pg lo ne
    by (auto simp: si_write_def Let_def ap reg_write_def simp del: ops_of_simps(3))
qed


lemma si_write_ok:
  assumes "0 \<le> dev" "reg_ok (a, d)" "\<forall>c \<in> set cmds. cmd_ok c"
  shows "\<forall>c \<in> set (fst (si_write dev a d (cmds, cp, ca))). cmd_ok c"
  using assms by (auto simp: si_write_def Let_def reg_ok_def)

lemma si_loop:
  assumes "file_regs lines = Inr rs" "\<forall>r \<in> set rs. reg_ok r" "0 \<le> dev"
    "si_inv (word_of_int dev) c0 regs st" "\<forall>c \<in> set (fst st). cmd_ok c"
  shows "\<exists>st'. rfold (si_line dev) lines st = Inr st' \<and> si_inv (word_of_int dev) c0 (regs @ rs) st' \<and>
    (\<forall>c \<in> set (fst st'). cmd_ok c)"
  using assms
proof (induction lines arbitrary: rs regs st)
  case Nil
  then show ?case by (simp add: file_regs_def)
next
  case (Cons raw lines)
  obtain cmds cp ca where st: "st = (cmds, cp, ca)" by (cases st)
  obtain r1 r2 where r: "line_regs raw = Inr r1" "file_regs lines = Inr r2" "rs = r1 @ r2"
    using Cons.prems(1) by (auto simp: file_regs_def rbind_Inr_iff)
  have "\<exists>st1. si_line dev raw st = Inr st1 \<and> si_inv (word_of_int dev) c0 (regs @ r1) st1 \<and>
    (\<forall>c \<in> set (fst st1). cmd_ok c)"
  proof (cases "line_kind ''Address,Data'' raw")
    case Skip
    then show ?thesis using r(1) Cons.prems(4,5) st by (simp add: si_line_def line_regs_def)
  next
    case (Note s d)
    then show ?thesis
      using r(1) si_inv_note [of _ _ _ cmds cp ca s d] Cons.prems(4,5) st
      by (auto simp: si_line_def line_regs_def note_cmds_def)
  next
    case (Data line)
    obtain a d where ad: "rbind (py_get (split_on (CHR '','') line) 0) py_int0 = Inr a"
      "rbind (py_get (split_on (CHR '','') line) 1) py_int0 = Inr d" "r1 = [(a, d)]"
      using r(1) Data by (auto simp: line_regs_def Let_def rbind_Inr_iff)
    then have "reg_ok (a, d)" using Cons.prems(2) r(3) by simp
    then show ?thesis
      using Data ad si_inv_write si_write_ok Cons.prems(3,4,5) st
      by (auto simp: si_line_def Let_def)
  qed
  then obtain st1 where st1: "si_line dev raw st = Inr st1" "si_inv (word_of_int dev) c0 (regs @ r1) st1"
    "\<forall>c \<in> set (fst st1). cmd_ok c" by blast
  show ?case using Cons.IH [OF r(2) _ Cons.prems(3) st1(2,3)] Cons.prems(2) r(3) st1(1) by simp
qed

lemma si5340_registers:
  assumes "file_regs lines = Inr regs" "\<forall>r \<in> set regs. reg_ok r" "0 \<le> dev"
  shows "\<exists>cmds. si5340_cmds lines dev = Inr cmds \<and> (\<forall>c \<in> set cmds. cmd_ok c) \<and>
    snd (snd (chip_after (word_of_int dev) (initial_delay @ cmds) c0)) = snd (snd c0) @ map reg_write regs"
proof -
  have "si_inv (word_of_int dev) c0 [] ([], None, None)" by (cases c0) (simp add: chip_after_def)
  from si_loop [OF assms this] obtain cmds cp ca where c:
    "rfold (si_line dev) lines ([], None, None) = Inr (cmds, cp, ca)"
    "si_inv (word_of_int dev) c0 regs (cmds, cp, ca)" "\<forall>c \<in> set cmds. cmd_ok c"
    by (metis append_Nil empty_iff empty_set fst_conv prod_cases3)
  have "chip_after (word_of_int dev) (initial_delay @ cmds) c0 = chip_after (word_of_int dev) cmds c0"
    by (simp add: chip_after_def initial_delay_def Let_def split: prod.splits)
  then show ?thesis using c by (auto simp: si5340_cmds_def)
qed


lemma si_loop_error: "file_regs lines = Inl e \<Longrightarrow> rfold (si_line dev) lines st = Inl e"
proof (induction lines arbitrary: st)
  case (Cons raw lines)
  obtain cmds cp ca where st: "st = (cmds, cp, ca)" by (cases st)
  show ?case
  proof (cases "line_regs raw")
    case (Inl e')
    then have "si_line dev raw st = Inl e'"
      by (cases "line_kind ''Address,Data'' raw")
        (auto simp: line_regs_def si_line_def st Let_def rbind_def split: sum.splits)
    then show ?thesis using Cons.prems Inl by (simp add: file_regs_def)
  next
    case (Inr rs)
    then have "\<exists>st1. si_line dev raw st = Inr st1"
      by (cases "line_kind ''Address,Data'' raw")
        (auto simp: line_regs_def si_line_def st Let_def rbind_def split: sum.splits
          intro: prod_cases3)
    moreover have "file_regs lines = Inl e"
      using Cons.prems Inr by (auto simp: file_regs_def rbind_def split: sum.splits)
    ultimately show ?thesis using Cons.IH by auto
  qed
qed (simp add: file_regs_def)

text \<open>C26: From the register list to the chip: for a list whose lines parse, with 16-bit addresses
  that are not a page register and byte values, the NT200A02 generator writes a ROM with which the
  module, whatever its unwritten words, stops after finitely many cycles having written to the chip
  at \<open>0x74\<close> exactly the registers of the list, in the order of the list and on their
  pages, whatever page the chip was on; if a line does not parse, the generator raises the error of
  the first bad line.\<close>

theorem nt200_programs_chip:
  assumes "\<forall>r \<in> set (case file_regs lines of Inr rs \<Rightarrow> rs | Inl _ \<Rightarrow> []). reg_ok r"
  shows "case file_regs lines of
      Inl e \<Rightarrow> main_nt200 lines = Inl e
    | Inr regs \<Rightarrow> \<exists>cmds rom n. main_nt200 lines = Inr cmds \<and> rom_image x (generate cmds) = Some rom \<and>
        (\<forall>m. \<exists>r' C T. fsm_run rom x sim (replicate (n + m) ready_in) (started rom x sim) = (r', C, T) \<and>
           state_reg r' = STATE_IDLE \<and>
           snd (snd (fold (si_beat 0x74) (join C T) (page0, reg0, []))) = map reg_write regs)"
proof (cases "file_regs lines")
  case (Inl e)
  then show ?thesis using si_loop_error [OF Inl] by (simp add: main_nt200_def si5340_cmds_def)
next
  case (Inr regs)
  then obtain cmds where c: "si5340_cmds lines 0x74 = Inr cmds" "\<forall>c \<in> set cmds. cmd_ok c"
    "snd (snd (chip_after 0x74 (initial_delay @ cmds) (page0, reg0, []))) = map reg_write regs"
    using si5340_registers [OF Inr, of "0x74" "(page0, reg0, [])"] assms by auto
  let ?p = "[Straight (ops_of (initial_delay @ cmds))]"
  have rom: "rom_image x (generate (initial_delay @ cmds)) = Some (encode_prog ?p)"
    using c(2) by (intro rom_image_prog) (auto simp: initial_delay_def)
  obtain n where n: "\<And>m. \<exists>r'. fsm_run (encode_prog ?p) x sim (replicate (n + m) ready_in)
      (started (encode_prog ?p) x sim) =
     (r', map cmd_of (prog_sem ?p (0, False)), concat (map tx_of (prog_sem ?p (0, False)))) \<and>
     state_reg r' = STATE_IDLE \<and> \<not> fsm_busy r'"
    using fsm_final by blast
  have "snd (snd (fold (si_beat 0x74) (prog_sem ?p (0, False)) (page0, reg0, []))) = map reg_write regs"
    using c(3) unfolding chip_after_def
    by (cases "beats_of (initial_delay @ cmds)") (auto simp: Let_def)
  then show ?thesis
    using Inr c(1) rom n
    by (auto simp: main_nt200_def simp del: prog_sem.simps
        intro!: exI [of _ "initial_delay @ cmds"] exI [of _ "encode_prog ?p"] exI [of _ n])
      (metis join_beats)
qed


theorem nt200_programs_chip_witness:
  "\<exists>cmds rom n. main_nt200 [''Address,Data'', ''# Delay 300 msec'', ''0x0B24,0xC0'', ''0x0B25,0x00 '', ''0x0006,7''] = Inr cmds \<and>
     rom_image 511 (generate cmds) = Some rom \<and>
     (\<forall>m. \<exists>r' C T. fsm_run rom 511 True (replicate (n + m) ready_in) (started rom 511 True) = (r', C, T) \<and>
        state_reg r' = STATE_IDLE \<and>
        snd (snd (fold (si_beat 0x74) (join C T) (9, 9, []))) = [(0x0B, 0x24, 0xC0), (0x0B, 0x25, 0), (0, 6, 7)])"
proof -
  have f: "file_regs [''Address,Data'', ''# Delay 300 msec'', ''0x0B24,0xC0'', ''0x0B25,0x00 '', ''0x0006,7''] =
    Inr [(0x0B24, 0xC0), (0x0B25, 0), (6, 7)]"
    by code_simp
  have w: "(2852 :: 8 word) = 36" "(2853 :: 8 word) = 37" by simp_all
  show ?thesis
    using nt200_programs_chip [of "[''Address,Data'', ''# Delay 300 msec'', ''0x0B24,0xC0'', ''0x0B25,0x00 '', ''0x0006,7'']"
        511 True 9 9] unfolding f
    by (simp add: reg_ok_def reg_write_def w)
qed

section \<open>Transfers through the I2C to SPI bridge\<close>

text \<open>The I2C transactions on the bus: a write with a start begins one, writes without extend
  it.\<close>

fun txn_step :: "beat \<Rightarrow> (7 word \<times> 8 word list) list \<Rightarrow> (7 word \<times> 8 word list) list" where
  "txn_step (Beat_stop t) ts = ts"
| "txn_step (Beat_wr t st d) ts =
     (if st \<or> ts = [] then ts @ [(t, [d])]
      else butlast ts @ [(fst (last ts), snd (last ts) @ [d])])"

definition txns :: "cmd list \<Rightarrow> (7 word \<times> 8 word list) list" where
  "txns cs = fold txn_step (snd (beats_of cs)) []"

lemma txn_writes:
  "ops_sem None (ops_of (map Wr bs)) (t, False) =
     ((t, False), map (\<lambda>b. Beat_wr t False (word_of_int b)) bs)"
  by (induction bs) auto

lemma txn_extend:
  "fold txn_step (map (\<lambda>b. Beat_wr t False (word_of_int b)) bs) (ts @ [(a, ds)]) =
     ts @ [(a, ds @ map word_of_int bs)]"
  by (induction bs arbitrary: ds) simp_all

text \<open>One transfer: start, at least one byte, and possibly delays.\<close>

definition xfer_cmds :: "cmd list \<Rightarrow> int \<Rightarrow> int list \<Rightarrow> bool" where
  "xfer_cmds cs dev bs \<longleftrightarrow> bs \<noteq> [] \<and> (\<exists>ds. cs = Start dev # map Wr bs @ map Delay ds)"

lemma delays_quiet: "ops_sem None (ops_of (map Delay ds)) b = (b, [])"
  by (induction ds) (auto split: prod.splits intro: prod.exhaust [of b])

lemma txns_xfer:
  assumes "xfer_cmds cs (dev) bs" "fst (beats_of c0) = (t, False)"
  shows "txns (c0 @ cs) = txns c0 @ [(word_of_int dev, map word_of_int bs)]"
    "fst (beats_of (c0 @ cs)) = (word_of_int dev, False)"
proof -
  obtain b bs' ds where b: "bs = b # bs'" and cs: "cs = Start dev # Wr b # map Wr bs' @ map Delay ds"
    using assms(1) by (auto simp: xfer_cmds_def neq_Nil_conv)
  obtain o0 where o0: "beats_of c0 = ((t, False), o0)" using assms(2) by (metis prod.collapse)
  have "ops_sem None (ops_of cs) (t, False) =
    ((word_of_int dev, False), Beat_wr (word_of_int dev) True (word_of_int b) #
       map (\<lambda>b. Beat_wr (word_of_int dev) False (word_of_int b)) bs')"
    using txn_writes [of bs' "word_of_int dev"] delays_quiet [of ds]
    by (simp add: cs ops_sem_append)
  then have all: "beats_of (c0 @ cs) = ((word_of_int dev, False),
      o0 @ Beat_wr (word_of_int dev) True (word_of_int b) #
       map (\<lambda>b. Beat_wr (word_of_int dev) False (word_of_int b)) bs')"
    using o0 by (simp add: ops_sem_append)
  then show "fst (beats_of (c0 @ cs)) = (word_of_int dev, False)" by simp
  show "txns (c0 @ cs) = txns c0 @ [(word_of_int dev, map word_of_int bs)]"
    using txn_extend [of "word_of_int dev" bs' "txns c0" "word_of_int dev" "[word_of_int b]"]
    unfolding txns_def all o0 b by simp
qed

lemma txns_note:
  assumes "fst (beats_of c0) = (t, False)"
  shows "txns (c0 @ note_cmds s d) = txns c0" "fst (beats_of (c0 @ note_cmds s d)) = (t, False)"
  using assms by (auto simp: txns_def note_cmds_def ops_sem_append split: prod.splits)

text \<open>The loop over an \<open>Address,Data\<close> list, for any transfer per line.\<close>

lemma spi_loop:
  assumes "file_regs lines = Inr rs" "\<And>a d. xfer_cmds (xfer a d) dev (bs a d)"
    "fst (beats_of c0) = (t, False)"
  shows "\<exists>cs. rfold (spi_line xfer) lines c0 = Inr cs \<and>
    txns cs = txns c0 @ map (\<lambda>(a, d). (word_of_int dev, map word_of_int (bs a d))) rs"
  using assms(1,3)
proof (induction lines arbitrary: rs c0 t)
  case (Cons raw lines)
  obtain r1 r2 where r: "line_regs raw = Inr r1" "file_regs lines = Inr r2" "rs = r1 @ r2"
    using Cons.prems(1) by (auto simp: file_regs_def rbind_Inr_iff)
  have "\<exists>c1 t'. spi_line xfer raw c0 = Inr c1 \<and> fst (beats_of c1) = (t', False) \<and>
    txns c1 = txns c0 @ map (\<lambda>(a, d). (word_of_int dev, map word_of_int (bs a d))) r1"
  proof (cases "line_kind ''Address,Data'' raw")
    case (Note s d)
    then show ?thesis
      using r(1) txns_note [OF Cons.prems(2), of s d] by (simp add: spi_line_def line_regs_def)
  next
    case (Data line)
    then show ?thesis
      using r(1) txns_xfer [OF assms(2) Cons.prems(2)]
      by (auto simp: spi_line_def line_regs_def Let_def rbind_Inr_iff)
  qed (use r(1) Cons.prems(2) in \<open>auto simp: spi_line_def line_regs_def\<close>)
  then obtain c1 t' where c1: "spi_line xfer raw c0 = Inr c1" "fst (beats_of c1) = (t', False)"
    "txns c1 = txns c0 @ map (\<lambda>(a, d). (word_of_int dev, map word_of_int (bs a d))) r1" by blast
  show ?case using Cons.IH [OF r(2) c1(2)] c1(1,3) r(3) by simp
qed (simp add: file_regs_def)

text \<open>C29: Each line of a list for an SPI chip becomes one I2C transaction with the bridge, in the
  order of the list: for the LMX2594 the chip-select mask, the address and the two bytes of the data,
  high byte first (ZCU111 and HTG-ZRF8 alike, although only ZCU111 delays after each); for the
  LMK04832 the mask, the two bytes of the address and the data.\<close>

theorem spi_lists_on_the_bus:
  assumes "file_regs lines = Inr regs"
  shows "\<exists>c1 c2 c3. lmx2594_cmds_zcu111 lines dev m = Inr c1 \<and> lmx2594_cmds lines dev m = Inr c2 \<and>
    lmk04832_cmds lines dev m = Inr c3 \<and>
    txns c1 = map (\<lambda>(a, d). (word_of_int dev,
      [word_of_int m, word_of_int a, word_of_int (d div 256), word_of_int d])) regs \<and>
    txns c2 = txns c1 \<and>
    txns c3 = map (\<lambda>(a, d). (word_of_int dev,
      [word_of_int m, word_of_int (a div 256), word_of_int a, word_of_int d])) regs"
proof -
  have s: "fst (beats_of []) = (0, False)" by simp
  have e: "txns [] = []" by (simp add: txns_def)
  have x1: "xfer_cmds (lmx2594_xfer dev m a d @ [Delay 1]) dev [m, a, drop_bit 8 d AND 255, d AND 255]"
    and x2: "xfer_cmds (lmx2594_xfer dev m a d) dev [m, a, drop_bit 8 d AND 255, d AND 255]"
    and x3: "xfer_cmds [Start dev, Wr m, Wr (drop_bit 8 a AND 255), Wr (a AND 255), Wr d] dev
      [m, drop_bit 8 a AND 255, a AND 255, d]" for a d
    by (auto simp: xfer_cmds_def lmx2594_xfer_def intro: exI [of _ "[1]"] exI [of _ "[]"])
  have lo: "(word_of_int (a AND 255) :: 8 word) = word_of_int a"
    and hi: "(word_of_int (drop_bit 8 a) :: 8 word) = word_of_int (a div 256)" for a
    by (simp_all add: and_255 word8_mod drop_bit_eq_div)
  have "\<exists>cs. lmx2594_cmds_zcu111 lines dev m = Inr cs \<and> txns cs = txns [] @
    map (\<lambda>(a, d). (word_of_int dev, map word_of_int [m, a, drop_bit 8 d AND 255, d AND 255])) regs"
    unfolding lmx2594_cmds_zcu111_def by (rule spi_loop [OF assms _ s]) (rule x1)
  moreover have "\<exists>cs. lmx2594_cmds lines dev m = Inr cs \<and> txns cs = txns [] @
    map (\<lambda>(a, d). (word_of_int dev, map word_of_int [m, a, drop_bit 8 d AND 255, d AND 255])) regs"
    unfolding lmx2594_cmds_def by (rule spi_loop [OF assms _ s]) (rule x2)
  moreover have "\<exists>cs. lmk04832_cmds lines dev m = Inr cs \<and> txns cs = txns [] @
    map (\<lambda>(a, d). (word_of_int dev, map word_of_int [m, drop_bit 8 a AND 255, a AND 255, d])) regs"
    unfolding lmk04832_cmds_def by (rule spi_loop [OF assms _ s]) (rule x3)
  ultimately show ?thesis by (simp only: e list.map lo hi append_Nil) (elim exE conjE, intro exI conjI, assumption+, simp_all)
qed

theorem spi_lists_on_the_bus_witness:
  "\<exists>c2. lmx2594_cmds [''Address,Data'', ''0x6A,0x0107'', ''# note'', ''0x00,0x251C''] 0x2a 7 = Inr c2 \<and>
     txns c2 = [(0x2a, [7, 0x6a, 1, 7]), (0x2a, [7, 0, 0x25, 0x1c])]"
proof -
  have f: "file_regs [''Address,Data'', ''0x6A,0x0107'', ''# note'', ''0x00,0x251C''] =
    Inr [(0x6a, 0x107), (0, 0x251c)]"
    by code_simp
  show ?thesis using spi_lists_on_the_bus [OF f, of "0x2a" 7] by auto
qed

end
