(* ===== verification/PtpTd.thy ===== *)
theory PtpTd imports Prelude begin

text \<open>
  PTP time distribution (\<open>src/ptp/tb/ptp_td.py\<close>): a source that keeps a PTP clock and
  sends its state over one wire, 14 words of 16 bits per message and three kinds of messages in
  turn, and a sink that rebuilds the clock from the wire.  One step of a model function is one
  clock cycle of the \<open>_run\<close> coroutine; the local variables of the coroutine are fields of
  the state.  The methods that go through \<open>Decimal\<close> are not modelled.
\<close>

section \<open>The clock that both classes keep\<close>

record ptp_clk =
  period_ns :: int
  period_fns :: int
  drift_num :: int
  drift_denom :: int
  drift_cnt :: int
  ts_fns :: int
  ts_rel_ns :: int
  ts_tod_s :: int
  ts_tod_ns :: int
  ts_tod_offset_ns :: int
  ts_tod_alt_s :: int
  ts_tod_alt_offset_ns :: int
  pps :: bool

text \<open>The statements of \<open>_run\<close> that advance the clock by one cycle; they are the same in
  both classes.\<close>

definition drift_step :: "'a ptp_clk_scheme \<Rightarrow> int \<times> int" where
  "drift_step s =
     (let fns = ts_fns s + (push_bit 32 (period_ns s) + period_fns s) in
      if drift_denom s \<noteq> 0
      then if drift_cnt s > 0 then (drift_cnt s - 1, fns)
           else (drift_denom s - 1, fns + drift_num s)
      else (drift_cnt s, fns))"

definition advance :: "'a ptp_clk_scheme \<Rightarrow> 'a ptp_clk_scheme" where
  "advance s =
     (let (cnt, fns) = drift_step s;
          ns_inc = drop_bit 32 fns;
          tod_ns = ts_tod_ns s + ns_inc;
          s1 = s\<lparr>drift_cnt := cnt, ts_fns := fns AND 0xffffffff,
                 ts_rel_ns := (ts_rel_ns s + ns_inc) AND 0xffffffffffff, ts_tod_ns := tod_ns\<rparr>
      in if tod_ns \<ge> 1000000000
         then s1\<lparr>ts_tod_s := ts_tod_s s + 1, ts_tod_ns := tod_ns - 1000000000, pps := True\<rparr>
         else s1)"

definition sink_advance :: "'a ptp_clk_scheme \<Rightarrow> 'a ptp_clk_scheme" where
  "sink_advance s = advance s"

definition offsets :: "'a ptp_clk_scheme \<Rightarrow> 'a ptp_clk_scheme" where
  "offsets s =
     (let off = (ts_tod_ns s - ts_rel_ns s) AND 0xffffffff in
      if drop_bit 27 (ts_tod_ns s) = 7
      then s\<lparr>ts_tod_offset_ns := off, ts_tod_alt_s := ts_tod_s s + 1,
             ts_tod_alt_offset_ns := (off - 1000000000) AND 0xffffffff\<rparr>
      else s\<lparr>ts_tod_offset_ns := off, ts_tod_alt_s := ts_tod_s s - 1,
             ts_tod_alt_offset_ns := (off + 1000000000) AND 0xffffffff\<rparr>)"

section \<open>The source\<close>

record ptp_src = ptp_clk +
  ts_rel_updated :: bool
  ts_tod_updated :: bool
  td_delay :: nat
  timestamp_delay :: "(int \<times> int \<times> int \<times> int) list"
  data :: bool
  running :: bool
  msg_index :: int
  msg :: "int list"
  msg_delay :: int
  cur_word :: "int option"
  bit_index :: nat

text \<open>The constructor, with the period and drift that \<open>set_period_ns\<close> computes as
  arguments; \<open>msg\<close> is \<open>[]\<close> where the code has \<open>None\<close> (both are tested by
  their truth value only).\<close>

definition src_init :: "int \<Rightarrow> int \<Rightarrow> int \<Rightarrow> int \<Rightarrow> nat \<Rightarrow> ptp_src" where
  "src_init pns pfns num denom td = \<lparr>period_ns = pns, period_fns = pfns, drift_num = num,
     drift_denom = denom, drift_cnt = 0, ts_fns = 0, ts_rel_ns = 0, ts_tod_s = 0, ts_tod_ns = 0,
     ts_tod_offset_ns = 0, ts_tod_alt_s = 0, ts_tod_alt_offset_ns = 0, pps = False,
     ts_rel_updated = False, ts_tod_updated = False, td_delay = td,
     timestamp_delay = [(0, 0, 0, 0)], data = True, running = False, msg_index = 0, msg = [],
     msg_delay = 0, cur_word = None, bit_index = 0\<rparr>"

definition set_period :: "int \<Rightarrow> int \<Rightarrow> ptp_src \<Rightarrow> ptp_src" where
  "set_period ns fns s = s\<lparr>period_ns := ns, period_fns := fns AND 0xffffffff\<rparr>"

definition set_drift :: "int \<Rightarrow> int \<Rightarrow> ptp_src \<Rightarrow> ptp_src" where
  "set_drift num denom s = s\<lparr>drift_num := num, drift_denom := denom\<rparr>"

definition get_delay_cycles :: "ptp_src \<Rightarrow> int" where
  "get_delay_cycles s = 14 * 17 + int (td_delay s) - 1"

definition set_ts_tod :: "int \<Rightarrow> int \<Rightarrow> int \<Rightarrow> ptp_src \<Rightarrow> ptp_src" where
  "set_ts_tod sec ns fns s = s\<lparr>ts_tod_s := sec, ts_tod_ns := ns, ts_fns := fns, ts_tod_updated := True\<rparr>"

definition set_ts_tod_96 :: "int \<Rightarrow> ptp_src \<Rightarrow> ptp_src" where
  "set_ts_tod_96 ts = set_ts_tod (drop_bit 48 ts) (drop_bit 32 ts AND 0x3fffffff) (push_bit 16 (ts AND 0xffff))"

definition set_ts_rel :: "int \<Rightarrow> int \<Rightarrow> ptp_src \<Rightarrow> ptp_src" where
  "set_ts_rel ns fns s = s\<lparr>ts_rel_ns := ns, ts_fns := fns, ts_rel_updated := True\<rparr>"

definition set_ts_rel_64 :: "int \<Rightarrow> ptp_src \<Rightarrow> ptp_src" where
  "set_ts_rel_64 ts = set_ts_rel (drop_bit 16 ts) (push_bit 16 (ts AND 0xffff))"

text \<open>The readings are those of the oldest entry of the delay line, which is never empty.\<close>

definition src_get_ts_tod :: "ptp_src \<Rightarrow> (int \<times> int \<times> int) result" where
  "src_get_ts_tod s = rbind (py_get (timestamp_delay s) 0) (\<lambda>(sec, ns, rel, fns). Inr (sec, ns, fns))"

definition src_get_ts_tod_96 :: "ptp_src \<Rightarrow> int result" where
  "src_get_ts_tod_96 s = rbind (src_get_ts_tod s) (\<lambda>(sec, ns, fns).
     Inr (push_bit 48 sec OR push_bit 16 ns OR drop_bit 16 fns))"

definition src_get_ts_rel :: "ptp_src \<Rightarrow> (int \<times> int) result" where
  "src_get_ts_rel s = rbind (py_get (timestamp_delay s) 0) (\<lambda>(sec, ns, rel, fns). Inr (rel, fns))"

definition src_get_ts_rel_64 :: "ptp_src \<Rightarrow> int result" where
  "src_get_ts_rel_64 s = rbind (src_get_ts_rel s) (\<lambda>(rel, fns). Inr (push_bit 16 rel OR drop_bit 16 fns))"

text \<open>Reset kills the coroutine, so its local variables start afresh when it is started.\<close>

definition src_handle_reset :: "bool \<Rightarrow> ptp_src \<Rightarrow> ptp_src" where
  "src_handle_reset state s =
     (if state
      then s\<lparr>running := False, ts_tod_s := 0, ts_tod_ns := 0, ts_rel_ns := 0, ts_fns := 0,
             drift_cnt := 0, data := True\<rparr>
      else if running s then s
      else s\<lparr>running := True, msg_index := 0, msg := [], msg_delay := 0, cur_word := None,
             bit_index := 0\<rparr>)"

definition delay_timestamp :: "ptp_src \<Rightarrow> ptp_src" where
  "delay_timestamp s =
     (let l = timestamp_delay s @ [(ts_tod_s s, ts_tod_ns s, ts_rel_ns s, ts_fns s)]
      in s\<lparr>timestamp_delay := drop (length l - (14 * 17 + td_delay s)) l\<rparr>)"

text \<open>The words of a message: control, five words that depend on the kind, and the tail.\<close>

definition msg_ctrl :: "ptp_src \<Rightarrow> int" where
  "msg_ctrl s = (msg_index s AND 0xf) OR push_bit 8 (of_bool (ts_rel_updated s))
     OR push_bit 9 (of_bool (ts_tod_s s AND 1 \<noteq> 0))"

definition msg_body :: "ptp_src \<Rightarrow> int list" where
  "msg_body s =
     (if msg_index s = 0 then
        [ts_tod_ns s AND 0xffff,
         (drop_bit 16 (ts_tod_ns s) AND 0x3fff) OR (if ts_tod_updated s then 0x8000 else 0),
         ts_tod_s s AND 0xffff, drop_bit 16 (ts_tod_s s) AND 0xffff, drop_bit 32 (ts_tod_s s) AND 0xffff]
      else if msg_index s = 1 then
        [ts_tod_offset_ns s AND 0xffff, drop_bit 16 (ts_tod_offset_ns s) AND 0xffff,
         drift_num s, drift_denom s, drift_cnt s]
      else if msg_index s = 2 then
        [ts_tod_alt_offset_ns s AND 0xffff, drop_bit 16 (ts_tod_alt_offset_ns s) AND 0xffff,
         ts_tod_alt_s s AND 0xffff, drop_bit 16 (ts_tod_alt_s s) AND 0xffff,
         drop_bit 32 (ts_tod_alt_s s) AND 0xffff]
      else [])"

definition msg_tail :: "ptp_src \<Rightarrow> int list" where
  "msg_tail s =
     [ts_fns s AND 0xffff, drop_bit 16 (ts_fns s) AND 0xffff,
      ts_rel_ns s AND 0xffff, drop_bit 16 (ts_rel_ns s) AND 0xffff, drop_bit 32 (ts_rel_ns s) AND 0xffff,
      period_fns s AND 0xffff, drop_bit 16 (period_fns s) AND 0xffff, period_ns s AND 0xff]"

definition build_message :: "ptp_src \<Rightarrow> ptp_src" where
  "build_message s =
     (if msg_delay s \<le> 0
      then s\<lparr>msg := msg_ctrl s # msg_body s @ msg_tail s, ts_rel_updated := False,
             ts_tod_updated := (if msg_index s = 0 then False else ts_tod_updated s),
             msg_index := (if msg_index s = 0 then 1 else if msg_index s = 1 then 2
                           else if msg_index s = 2 then 0 else msg_index s),
             msg_delay := 255\<rparr>
      else s\<lparr>msg_delay := msg_delay s - 1\<rparr>)"

definition serialize :: "ptp_src \<Rightarrow> ptp_src" where
  "serialize s =
     (case cur_word s of
        None \<Rightarrow> (case msg s of
            w # ws \<Rightarrow> s\<lparr>cur_word := Some w, msg := ws, bit_index := 0, data := False\<rparr>
          | [] \<Rightarrow> s\<lparr>data := True\<rparr>)
      | Some w \<Rightarrow>
          s\<lparr>data := bit w (bit_index s), bit_index := bit_index s + 1,
            cur_word := (if bit_index s + 1 = 16 then None else Some w)\<rparr>)"

definition src_step :: "ptp_src \<Rightarrow> ptp_src" where
  "src_step s = serialize (build_message (offsets (advance (delay_timestamp s))))"

section \<open>The sink\<close>

record ptp_sink = ptp_clk +
  k_td_delay :: nat
  k_running :: bool
  k_msg :: "int list option"
  k_msg_delay :: nat
  k_cur_msg :: "int list"
  k_word :: "int option"
  k_bit_index :: nat

definition sink_init :: "nat \<Rightarrow> ptp_sink" where
  "sink_init td = \<lparr>period_ns = 0, period_fns = 0, drift_num = 0,
     drift_denom = 0, drift_cnt = 0, ts_fns = 0, ts_rel_ns = 0, ts_tod_s = 0, ts_tod_ns = 0,
     ts_tod_offset_ns = 0, ts_tod_alt_s = 0, ts_tod_alt_offset_ns = 0, pps = False,
     k_td_delay = td, k_running = False, k_msg = None, k_msg_delay = 0, k_cur_msg = [],
     k_word = None, k_bit_index = 0\<rparr>"

definition sink_get_ts_tod :: "ptp_sink \<Rightarrow> int \<times> int \<times> int" where
  "sink_get_ts_tod s = (ts_tod_s s, ts_tod_ns s, ts_fns s)"

definition sink_get_ts_tod_96 :: "ptp_sink \<Rightarrow> int" where
  "sink_get_ts_tod_96 s = (case sink_get_ts_tod s of (sec, ns, fns) \<Rightarrow>
     push_bit 48 sec OR push_bit 16 ns OR drop_bit 16 fns)"

definition sink_get_ts_rel :: "ptp_sink \<Rightarrow> int \<times> int" where
  "sink_get_ts_rel s = (ts_rel_ns s, ts_fns s)"

definition sink_get_ts_rel_64 :: "ptp_sink \<Rightarrow> int" where
  "sink_get_ts_rel_64 s = (case sink_get_ts_rel s of (rel, fns) \<Rightarrow> push_bit 16 rel OR drop_bit 16 fns)"

definition sink_handle_reset :: "bool \<Rightarrow> ptp_sink \<Rightarrow> ptp_sink" where
  "sink_handle_reset state s =
     (if state
      then s\<lparr>k_running := False, ts_tod_s := 0, ts_tod_ns := 0, ts_rel_ns := 0, ts_fns := 0,
             drift_cnt := 0\<rparr>
      else if k_running s then s
      else s\<lparr>k_running := True, k_msg := None, k_msg_delay := 0, k_cur_msg := [], k_word := None,
             k_bit_index := 0\<rparr>)"

text \<open>Processing a message: a short message makes an index out of range.\<close>

definition word2 :: "int list \<Rightarrow> nat \<Rightarrow> int" where
  "word2 m k = push_bit 16 (m ! (k + 1)) OR m ! k"

definition word3 :: "int list \<Rightarrow> nat \<Rightarrow> int" where
  "word3 m k = push_bit 32 (m ! (k + 2)) OR push_bit 16 (m ! (k + 1)) OR m ! k"

definition process_kind :: "int list \<Rightarrow> 'a ptp_clk_scheme \<Rightarrow> 'a ptp_clk_scheme" where
  "process_kind m s =
     (let idx = m ! 0 AND 0xf in
      if idx = 0 then
        s\<lparr>ts_tod_ns := push_bit 16 (m ! 2 AND 0x3fff) OR m ! 1, ts_tod_s := word3 m 3\<rparr>
      else if idx = 1 then
        s\<lparr>ts_tod_offset_ns := word2 m 1, drift_num := m ! 3, drift_denom := m ! 4, drift_cnt := m ! 5\<rparr>
      else if idx = 2 then
        s\<lparr>ts_tod_alt_offset_ns := word2 m 1, ts_tod_alt_s := word3 m 3\<rparr>
      else s)"

definition process_tail :: "int list \<Rightarrow> 'a ptp_clk_scheme \<Rightarrow> 'a ptp_clk_scheme" where
  "process_tail m s =
     s\<lparr>ts_fns := word2 m 6, ts_rel_ns := word3 m 8, period_fns := word2 m 11,
       period_ns := m ! 13 AND 0xff\<rparr>"

definition process_messages :: "ptp_sink \<Rightarrow> ptp_sink result" where
  "process_messages s =
     (let d = k_msg_delay s - 1; s1 = s\<lparr>k_msg_delay := d\<rparr> in
      case k_msg s of
        Some m \<Rightarrow>
          if d = 0 \<and> m \<noteq> [] then
            if length m < 14 then Inl IndexError
            else Inr ((process_tail m (process_kind m s1))\<lparr>k_msg := None\<rparr>)
          else Inr s1
      | None \<Rightarrow> Inr s1)"

definition deserialize :: "bool \<Rightarrow> ptp_sink \<Rightarrow> ptp_sink" where
  "deserialize sdi s =
     (case k_word s of
        Some w \<Rightarrow>
          let w1 = w OR push_bit (k_bit_index s) (of_bool sdi) in
          if k_bit_index s + 1 = 16
          then s\<lparr>k_cur_msg := k_cur_msg s @ [w1], k_word := None, k_bit_index := 16\<rparr>
          else s\<lparr>k_word := Some w1, k_bit_index := k_bit_index s + 1\<rparr>
      | None \<Rightarrow>
          if \<not> sdi then s\<lparr>k_word := Some 0, k_bit_index := 0\<rparr>
          else if k_cur_msg s \<noteq> []
          then s\<lparr>k_msg := Some (k_cur_msg s), k_msg_delay := k_td_delay s, k_cur_msg := []\<rparr>
          else s)"

definition sink_step :: "bool \<Rightarrow> ptp_sink \<Rightarrow> ptp_sink result" where
  "sink_step sdi s = rbind (process_messages (sink_advance s)) (\<lambda>s1. Inr (deserialize sdi s1))"


section \<open>Keeping time\<close>

text \<open>The time of day and the relative time in units of a nanosecond over \<open>2 ^ 32\<close>, and
  what a cycle adds.\<close>

definition tod_time :: "'a ptp_clk_scheme \<Rightarrow> int" where
  "tod_time s = (ts_tod_s s * 1000000000 + ts_tod_ns s) * 2 ^ 32 + ts_fns s"

definition rel_time :: "'a ptp_clk_scheme \<Rightarrow> int" where
  "rel_time s = ts_rel_ns s * 2 ^ 32 + ts_fns s"

definition period :: "'a ptp_clk_scheme \<Rightarrow> int" where
  "period s = period_ns s * 2 ^ 32 + period_fns s"

definition cycle_inc :: "'a ptp_clk_scheme \<Rightarrow> int" where
  "cycle_inc s = period s + (if drift_denom s \<noteq> 0 \<and> drift_cnt s \<le> 0 then drift_num s else 0)"

definition next_cnt :: "'a ptp_clk_scheme \<Rightarrow> int" where
  "next_cnt s = (if drift_denom s = 0 then drift_cnt s
     else if drift_cnt s > 0 then drift_cnt s - 1 else drift_denom s - 1)"

definition clk_ok :: "'a ptp_clk_scheme \<Rightarrow> bool" where
  "clk_ok s \<longleftrightarrow> fits 32 (ts_fns s) \<and> fits 48 (ts_rel_ns s) \<and> 0 \<le> ts_tod_ns s \<and> ts_tod_ns s < 1000000000 \<and>
     0 \<le> period_ns s \<and> period_ns s < 256 \<and> fits 32 (period_fns s) \<and> fits 16 (drift_num s) \<and>
     fits 16 (drift_denom s) \<and> fits 16 (drift_cnt s)"

lemma and_low:
  "(x :: int) AND 0xffffffff = x mod 2 ^ 32" "x AND 0xffffffffffff = x mod 2 ^ 48"
  "x AND 0xffff = x mod 2 ^ 16" "x AND 0x3fff = x mod 2 ^ 14" "x AND 0xff = x mod 2 ^ 8"
  "x AND 0xf = x mod 2 ^ 4"
  using take_bit_eq_mask [of 32 x] take_bit_eq_mask [of 48 x] take_bit_eq_mask [of 16 x]
    take_bit_eq_mask [of 14 x] take_bit_eq_mask [of 8 x] take_bit_eq_mask [of 4 x]
  by (simp_all add: mask_eq_exp_minus_1 take_bit_eq_mod)

lemma drift_step_eq: "drift_step s = (next_cnt s, ts_fns s + cycle_inc s)"
  by (simp add: drift_step_def next_cnt_def cycle_inc_def period_def push_bit_eq_mult Let_def)

lemma advance_fields:
  "drift_cnt (advance s) = next_cnt s"
  "ts_fns (advance s) = (ts_fns s + cycle_inc s) mod 2 ^ 32"
  "ts_rel_ns (advance s) = (ts_rel_ns s + (ts_fns s + cycle_inc s) div 2 ^ 32) mod 2 ^ 48"
  "period_ns (advance s) = period_ns s" "period_fns (advance s) = period_fns s"
  "drift_num (advance s) = drift_num s" "drift_denom (advance s) = drift_denom s"
  by (simp_all add: advance_def drift_step_eq Let_def and_low drop_bit_eq_div)

lemma advance_tod:
  "(ts_tod_s (advance s), ts_tod_ns (advance s)) =
     (let t = ts_tod_ns s + (ts_fns s + cycle_inc s) div 2 ^ 32
      in if t \<ge> 1000000000 then (ts_tod_s s + 1, t - 1000000000) else (ts_tod_s s, t))"
  by (simp add: advance_def drift_step_eq Let_def drop_bit_eq_div)

lemma split_mod:
  obtains q r :: int where "x div 2 ^ n = q" "x mod 2 ^ n = r" "x = q * 2 ^ n + r"
  using div_mult_mod_eq [of x "2 ^ n"] by metis

lemma advance_tod_time: "tod_time (advance s) = tod_time s + cycle_inc s"
proof -
  obtain q r where q: "(ts_fns s + cycle_inc s) div 2 ^ 32 = q" "(ts_fns s + cycle_inc s) mod 2 ^ 32 = r"
    "ts_fns s + cycle_inc s = q * 2 ^ 32 + r" by (rule split_mod)
  have "ts_tod_s (advance s) * 1000000000 + ts_tod_ns (advance s) = ts_tod_s s * 1000000000 + ts_tod_ns s + q"
    using advance_tod [of s] unfolding q(1) Let_def by (auto split: if_splits)
  moreover have "tod_time (advance s) =
    (ts_tod_s (advance s) * 1000000000 + ts_tod_ns (advance s)) * 2 ^ 32 + r"
    by (simp only: tod_time_def advance_fields q(2))
  ultimately show ?thesis using q(3) by (simp add: tod_time_def algebra_simps)
qed

lemma advance_rel_time: "rel_time (advance s) mod 2 ^ 80 = (rel_time s + cycle_inc s) mod 2 ^ 80"
proof -
  obtain q r where q: "(ts_fns s + cycle_inc s) div 2 ^ 32 = q" "(ts_fns s + cycle_inc s) mod 2 ^ 32 = r"
    "ts_fns s + cycle_inc s = q * 2 ^ 32 + r" by (rule split_mod)
  obtain u v where u: "(ts_rel_ns s + q) div 2 ^ 48 = u" "(ts_rel_ns s + q) mod 2 ^ 48 = v"
    "ts_rel_ns s + q = u * 2 ^ 48 + v" by (rule split_mod)
  have "rel_time s + cycle_inc s = v * 2 ^ 32 + r + u * 2 ^ 80"
    using q(3) u(3) by (simp add: rel_time_def algebra_simps)
  moreover have "rel_time (advance s) = v * 2 ^ 32 + r"
    by (simp only: rel_time_def advance_fields q(1,2) u(2))
  ultimately show ?thesis by simp
qed

lemma clk_ok_inc: "clk_ok s \<Longrightarrow> 0 \<le> cycle_inc s \<and> cycle_inc s < 257 * 2 ^ 32"
  by (auto simp: clk_ok_def cycle_inc_def period_def fits_def)

lemma advance_clk_ok:
  assumes "clk_ok s" shows "clk_ok (advance s)"
proof -
  have "0 \<le> ts_fns s + cycle_inc s" "ts_fns s + cycle_inc s < 258 * 2 ^ 32"
    using clk_ok_inc [OF assms] assms by (auto simp: clk_ok_def fits_def)
  then have "0 \<le> (ts_fns s + cycle_inc s) div 2 ^ 32" "(ts_fns s + cycle_inc s) div 2 ^ 32 < 258"
    by (auto simp: div_less_iff_less_mult)
  then show ?thesis
    using assms advance_tod [of s]
    by (auto simp: clk_ok_def advance_fields fits_def next_cnt_def Let_def split: if_splits)
qed

text \<open>C23: One cycle of either clock keeps the state in range (nanoseconds of the day below
  \<open>10 ^ 9\<close>, 48 bits of relative nanoseconds, 32 bits of fraction) and moves the time of day
  by exactly the period plus the drift of this cycle, with the carry into the seconds, and the
  relative time by the same amount modulo \<open>2 ^ 48\<close> nanoseconds.\<close>

theorem advance_keeps_time:
  assumes "clk_ok s"
  shows "clk_ok (advance s) \<and> tod_time (advance s) = tod_time s + cycle_inc s \<and>
    rel_time (advance s) = (rel_time s + cycle_inc s) mod 2 ^ 80"
proof -
  have "0 \<le> rel_time (advance s)" "rel_time (advance s) < 2 ^ 80"
    using advance_clk_ok [OF assms] by (auto simp: clk_ok_def rel_time_def fits_def)
  then show ?thesis
    using advance_clk_ok [OF assms] advance_tod_time [of s] advance_rel_time [of s]
    by (simp add: mod_pos_pos_trivial)
qed

text \<open>The drift: the count falls to 0, then the numerator is added once.\<close>

lemma advance_countdown:
  assumes "0 < drift_denom s" "int k \<le> drift_cnt s"
  shows "drift_cnt ((advance ^^ k) s) = drift_cnt s - int k \<and>
    tod_time ((advance ^^ k) s) = tod_time s + int k * period s \<and>
    period ((advance ^^ k) s) = period s \<and> drift_denom ((advance ^^ k) s) = drift_denom s \<and>
    drift_num ((advance ^^ k) s) = drift_num s"
  using assms(2)
proof (induction k)
  case (Suc k)
  let ?t = "(advance ^^ k) s"
  have "drift_cnt ?t = drift_cnt s - int k" "drift_denom ?t = drift_denom s" using Suc by simp_all
  then have "next_cnt ?t = drift_cnt s - int (Suc k)" "cycle_inc ?t = period ?t"
    using Suc.prems assms(1) by (simp_all add: next_cnt_def cycle_inc_def)
  moreover have "(advance ^^ Suc k) s = advance ?t" by simp
  ultimately show ?case
    using Suc by (simp only: advance_fields advance_tod_time period_def) (simp add: algebra_simps)
qed simp

text \<open>C24: The fractional drift is exact: over any \<open>drift_denom\<close> consecutive cycles,
  wherever the count stands, the time of day moves by \<open>drift_denom\<close> periods plus
  \<open>drift_num\<close>, and the count is back where it was.\<close>

theorem drift_exact:
  assumes "0 \<le> drift_cnt s" and "drift_cnt s < drift_denom s"
  shows "tod_time ((advance ^^ nat (drift_denom s)) s) =
      tod_time s + drift_denom s * period s + drift_num s \<and>
    drift_cnt ((advance ^^ nat (drift_denom s)) s) = drift_cnt s"
proof -
  let ?k = "nat (drift_cnt s)" and ?j = "nat (drift_denom s - 1 - drift_cnt s)"
  let ?a = "(advance ^^ ?k) s"
  let ?b = "advance ?a"
  have a: "drift_cnt ?a = 0" "tod_time ?a = tod_time s + drift_cnt s * period s" "period ?a = period s"
    "drift_denom ?a = drift_denom s" "drift_num ?a = drift_num s"
    using advance_countdown [of s ?k] assms by simp_all
  have b: "drift_cnt ?b = drift_denom s - 1" "tod_time ?b = tod_time ?a + period s + drift_num s"
    "period ?b = period s" "drift_denom ?b = drift_denom s"
    using a assms by (simp_all add: advance_fields advance_tod_time next_cnt_def cycle_inc_def period_def)
  have c: "drift_cnt ((advance ^^ ?j) ?b) = drift_cnt s"
    "tod_time ((advance ^^ ?j) ?b) = tod_time ?b + (drift_denom s - 1 - drift_cnt s) * period s"
    using advance_countdown [of ?b ?j] assms b by simp_all
  have "nat (drift_denom s) = ?j + Suc ?k" using assms by linarith
  then have "(advance ^^ nat (drift_denom s)) s = (advance ^^ ?j) ?b"
    by (simp only: funpow_add comp_def funpow.simps)
  then show ?thesis using a b c by (simp add: algebra_simps)
qed


theorem advance_keeps_time_witness:
  "let s = (src_init 6 0x66666666 2 5 32)\<lparr>ts_tod_ns := 999999994, ts_fns := 0xa0000000\<rparr> in
     clk_ok (advance s) \<and> tod_time (advance s) = tod_time s + cycle_inc s \<and> ts_tod_s (advance s) = 1"
proof -
  let ?s = "(src_init 6 0x66666666 2 5 32)\<lparr>ts_tod_ns := 999999994, ts_fns := 0xa0000000\<rparr>"
  have "clk_ok ?s" by (simp add: clk_ok_def fits_def src_init_def)
  moreover have "ts_tod_s (advance ?s) = 1"
    by (simp add: advance_def drift_step_def src_init_def Let_def and_low drop_bit_eq_div push_bit_eq_mult)
  ultimately show ?thesis using advance_keeps_time [of ?s] by (simp add: Let_def)
qed

theorem drift_exact_witness:
  "tod_time ((advance ^^ 5) (src_init 6 0x66666666 2 5 32)) =
     tod_time (src_init 6 0x66666666 2 5 32) + 5 * (6 * 2 ^ 32 + 0x66666666) + 2"
  using drift_exact [of "src_init 6 0x66666666 2 5 32"]
  by (simp add: src_init_def period_def)

end
