(* ===== verification/PtpSync.thy ===== *)
theory PtpSync imports PtpTd begin

text \<open>
  The source and the sink of \<open>PtpTd\<close> connected by the wire: framing of the words, the
  timing of messages, and the theorem that the sink's clock is the source's clock delayed by a
  fixed number of cycles.
\<close>

section \<open>The wire\<close>

text \<open>The serialiser and the deserialiser on their own state.\<close>

type_synonym ser_state = "int option \<times> int list \<times> nat"

fun ser :: "ser_state \<Rightarrow> ser_state \<times> bool" where
  "ser (None, w # ws, b) = ((Some w, ws, 0), False)"
| "ser (None, [], b) = ((None, [], b), True)"
| "ser (Some w, ws, b) = ((if b + 1 = 16 then None else Some w, ws, b + 1), bit w b)"

definition ser_state :: "ptp_src \<Rightarrow> ser_state" where
  "ser_state s = (cur_word s, msg s, bit_index s)"

lemma serialize_ser: "(ser_state (serialize s), data (serialize s)) = ser (ser_state s)"
  by (auto simp: ser_state_def serialize_def split: option.splits list.splits)

fun ser_run :: "nat \<Rightarrow> ser_state \<Rightarrow> ser_state \<times> bool list" where
  "ser_run 0 st = (st, [])"
| "ser_run (Suc n) st = (let (st1, d) = ser st; (st2, ds) = ser_run n st1 in (st2, d # ds))"

lemma ser_run_add:
  "ser_run (m + n) st =
     (let (st1, ds1) = ser_run m st; (st2, ds2) = ser_run n st1 in (st2, ds1 @ ds2))"
  by (induction m arbitrary: st) (auto simp: Let_def split: prod.splits)

lemma ser_run_last:
  "ser_run (Suc n) st =
     (fst (ser (fst (ser_run n st))), snd (ser_run n st) @ [snd (ser (fst (ser_run n st)))])"
proof -
  have "ser_run (n + 1) st = (fst (ser (fst (ser_run n st))), snd (ser_run n st) @ [snd (ser (fst (ser_run n st)))])"
    unfolding ser_run_add by (auto simp: Let_def split: prod.splits)
  then show ?thesis by simp
qed

definition word_frame :: "int \<Rightarrow> bool list" where
  "word_frame w = False # map (bit w) [0..<16]"

definition msg_frame :: "int list \<Rightarrow> bool list" where
  "msg_frame ws = concat (map word_frame ws)"

lemma word_frame_length: "length (word_frame w) = 17" by (simp add: word_frame_def)

lemma msg_frame_length: "length (msg_frame ws) = 17 * length ws"
  by (induction ws) (simp_all add: msg_frame_def word_frame_length)

lemma ser_word: "ser_run 17 (None, w # ws, b) = ((None, ws, 16), word_frame w)"
  by (simp add: word_frame_def upt_rec numeral_eq_Suc)

lemma ser_idle: "ser_run n (None, [], b) = ((None, [], b), replicate n True)"
  by (induction n) simp_all

lemma ser_frame: "\<exists>b'. ser_run (17 * length ws) (None, ws, b) = ((None, [], b'), msg_frame ws)"
proof (induction ws arbitrary: b)
  case (Cons w ws)
  then obtain b' where "ser_run (17 * length ws) (None, ws, 16) = ((None, [], b'), msg_frame ws)" by blast
  then have "ser_run (17 + 17 * length ws) (None, w # ws, b) = ((None, [], b'), msg_frame (w # ws))"
    by (simp only: ser_run_add ser_word) (simp add: msg_frame_def)
  then show ?case by (intro exI [of _ b']) simp
qed (simp add: msg_frame_def)

type_synonym des_state = "int list \<times> int option \<times> nat"

fun des :: "bool \<Rightarrow> des_state \<Rightarrow> des_state \<times> int list option" where
  "des d (c, Some w, b) =
     (let w1 = w OR push_bit b (of_bool d) in
      if b + 1 = 16 then ((c @ [w1], None, 16), None) else ((c, Some w1, b + 1), None))"
| "des d (c, None, b) =
     (if \<not> d then ((c, Some 0, 0), None)
      else if c \<noteq> [] then (([], None, b), Some c) else ((c, None, b), None))"

definition des_state :: "ptp_sink \<Rightarrow> des_state" where
  "des_state k = (k_cur_msg k, k_word k, k_bit_index k)"

lemma deserialize_des:
  "des_state (deserialize d k) = fst (des d (des_state k))"
  "k_msg (deserialize d k) = (case snd (des d (des_state k)) of Some m \<Rightarrow> Some m | None \<Rightarrow> k_msg k)"
  "k_msg_delay (deserialize d k) =
     (case snd (des d (des_state k)) of Some m \<Rightarrow> k_td_delay k | None \<Rightarrow> k_msg_delay k)"
  "k_td_delay (deserialize d k) = k_td_delay k"
  by (auto simp: des_state_def deserialize_def Let_def split: option.splits)

fun des_run :: "bool list \<Rightarrow> des_state \<Rightarrow> des_state \<times> int list option list" where
  "des_run [] st = (st, [])"
| "des_run (d # ds) st = (let (st1, e) = des d st; (st2, es) = des_run ds st1 in (st2, e # es))"

lemma des_run_append:
  "des_run (a @ b) st =
     (let (st1, e1) = des_run a st; (st2, e2) = des_run b st1 in (st2, e1 @ e2))"
  by (induction a arbitrary: st) (auto simp: Let_def split: prod.splits)

lemma take_bit_next: "take_bit n w OR push_bit n (of_bool (bit w n)) = take_bit (Suc n) (w :: int)"
  by (rule bit_eqI) (auto simp: bit_simps less_Suc_eq)

lemma des_bits:
  "n \<le> 15 \<Longrightarrow> des_run (map (bit w) [0..<n]) (c, Some 0, 0) =
     ((c, Some (take_bit n w), n), replicate n None)"
proof (induction n)
  case (Suc n)
  then show ?case by (simp add: des_run_append replicate_append_same take_bit_next)
qed simp

lemma des_word:
  "des_run (word_frame w) (c, None, b) = ((c @ [take_bit 16 w], None, 16), replicate 17 None)"
proof -
  have u: "[0..<16] = [0..<15] @ [15::nat]" by (simp add: upt_rec)
  have "take_bit 15 w OR push_bit 15 (of_bool (bit w 15)) = take_bit 16 w"
    using take_bit_next [of 15 w] by simp
  then have "des_run (map (bit w) [0..<16]) (c, Some 0, 0) =
    ((c @ [take_bit 16 w], None, 16), replicate 16 None)"
    using des_bits [of 15 w c] unfolding u map_append des_run_append
    by (simp add: replicate_append_same) (simp add: numeral_eq_Suc)
  then show ?thesis by (simp add: word_frame_def) (simp add: numeral_eq_Suc)
qed

lemma des_frame:
  "\<exists>b'. des_run (msg_frame ws) (c, None, b) =
     ((c @ map (take_bit 16) ws, None, b'), replicate (17 * length ws) None)"
proof (induction ws arbitrary: c b)
  case (Cons w ws)
  obtain b' where "des_run (msg_frame ws) (c @ [take_bit 16 w], None, 16) =
     (((c @ [take_bit 16 w]) @ map (take_bit 16) ws, None, b'), replicate (17 * length ws) None)"
    using Cons by blast
  then show ?case
    by (intro exI [of _ b'])
      (simp add: msg_frame_def des_run_append des_word replicate_add [symmetric] add.commute)
qed (simp add: msg_frame_def)

lemma des_idle: "des_run (replicate n True) ([], None, b) = (([], None, b), replicate n None)"
  by (induction n) simp_all

text \<open>A block of 256 cycles: a message of 14 words, then 18 idle cycles; the message comes out
  with the first of them.\<close>

definition block :: "int list \<Rightarrow> bool list" where
  "block ws = msg_frame ws @ replicate 18 True"

definition received :: "int list \<Rightarrow> int list" where
  "received ws = map (take_bit 16) ws"

lemma block_length: "length ws = 14 \<Longrightarrow> length (block ws) = 256"
  by (simp add: block_def msg_frame_length)

lemma des_block:
  assumes "length ws = 14"
  shows "\<exists>b'. des_run (block ws) ([], None, b) =
    (([], None, b'), replicate 238 None @ [Some (received ws)] @ replicate 17 None)"
proof -
  obtain b' where f: "des_run (msg_frame ws) ([], None, b) =
     ((received ws, None, b'), replicate 238 None)"
    using des_frame [of ws "[]" b] assms by (auto simp: received_def)
  have "received ws \<noteq> []" using assms by (auto simp: received_def)
  moreover have "replicate 18 True = True # replicate 17 True" by (simp add: numeral_eq_Suc)
  ultimately show ?thesis
    by (intro exI [of _ b']) (simp add: block_def des_run_append f des_idle)
qed

lemma ser_block:
  assumes "length ws = 14"
  shows "\<exists>b'. ser_run 256 (None, ws, b) = ((None, [], b'), block ws)"
proof -
  obtain b' where "ser_run 238 (None, ws, b) = ((None, [], b'), msg_frame ws)"
    using ser_frame [of ws b] assms by auto
  then have "ser_run (238 + 18) (None, ws, b) = ((None, [], b'), block ws)"
    by (simp only: ser_run_add) (simp add: ser_idle block_def)
  then show ?thesis by (intro exI [of _ b']) simp
qed


section \<open>The source over time\<close>

type_synonym core = "int \<times> int \<times> int \<times> int \<times> int \<times> int \<times> int \<times> int \<times> int"

definition core :: "'a ptp_clk_scheme \<Rightarrow> core" where
  "core s = (period_ns s, period_fns s, drift_num s, drift_denom s, drift_cnt s, ts_fns s, ts_rel_ns s,
     ts_tod_s s, ts_tod_ns s)"

abbreviation src_at :: "ptp_src \<Rightarrow> nat \<Rightarrow> ptp_src" where
  "src_at s n \<equiv> (src_step ^^ n) s"

definition timed :: "ptp_src \<Rightarrow> ptp_src" where
  "timed s = offsets (advance (delay_timestamp s))"

definition words_of :: "ptp_src \<Rightarrow> int list" where
  "words_of s = msg_ctrl (timed s) # msg_body (timed s) @ msg_tail (timed s)"

lemma src_step_timed: "src_step s = serialize (build_message (timed s))"
  by (simp add: src_step_def timed_def)

lemma advance_keep:
  "msg_delay (timed s) = msg_delay s" "ser_state (timed s) = ser_state s" "msg_index (timed s) = msg_index s"
  "td_delay (timed s) = td_delay s"
  by (simp_all add: timed_def offsets_def advance_def delay_timestamp_def ser_state_def Let_def
      split: prod.splits)

lemma serialize_keep:
  "core (serialize s) = core s" "msg_delay (serialize s) = msg_delay s"
  "msg_index (serialize s) = msg_index s" "timestamp_delay (serialize s) = timestamp_delay s"
  "td_delay (serialize s) = td_delay s"
  by (simp_all add: serialize_def core_def split: option.splits list.splits)

lemma core_keep:
  "core (build_message s) = core s" "core (offsets s) = core s" "core (delay_timestamp s) = core s"
  by (simp_all add: build_message_def offsets_def delay_timestamp_def core_def Let_def)

lemma core_advance: "core s = core t \<Longrightarrow> core (advance s) = core (advance t)"
proof -
  assume "core s = core t"
  then have e: "period_ns s = period_ns t" "period_fns s = period_fns t" "drift_num s = drift_num t"
    "drift_denom s = drift_denom t" "drift_cnt s = drift_cnt t" "ts_fns s = ts_fns t"
    "ts_rel_ns s = ts_rel_ns t" "ts_tod_s s = ts_tod_s t" "ts_tod_ns s = ts_tod_ns t"
    by (simp_all add: core_def)
  then have i: "cycle_inc s = cycle_inc t" "next_cnt s = next_cnt t"
    by (simp_all add: cycle_inc_def next_cnt_def period_def)
  have "(ts_tod_s (advance s), ts_tod_ns (advance s)) = (ts_tod_s (advance t), ts_tod_ns (advance t))"
    unfolding advance_tod e i ..
  then show ?thesis by (simp add: core_def advance_fields e i)
qed

lemma core_src_step: "core (src_step s) = core (advance s)"
proof -
  have "core (timed s) = core (advance (delay_timestamp s))" by (simp add: timed_def core_keep)
  also have "\<dots> = core (advance s)" by (rule core_advance) (simp add: core_keep)
  finally show ?thesis by (simp add: src_step_timed serialize_keep core_keep)
qed

lemma core_src_at: "core (src_at s n) = core ((advance ^^ n) s)"
proof (induction n)
  case (Suc n)
  then show ?case using core_advance [OF Suc] by (simp add: core_src_step)
qed simp

text \<open>Between messages: nothing to send and the delay over.\<close>

definition quiet :: "ptp_src \<Rightarrow> bool" where
  "quiet s \<longleftrightarrow> msg_delay s \<le> 0 \<and> cur_word s = None \<and> msg s = [] \<and> msg_index s \<in> {0, 1, 2}"

definition next_index :: "int \<Rightarrow> int" where
  "next_index i = (if i = 0 then 1 else if i = 1 then 2 else 0)"

lemma build_first:
  assumes "quiet s"
  shows "ser_state (build_message (timed s)) = (None, words_of s, bit_index s)"
    "msg_delay (build_message (timed s)) = 255"
    "msg_index (build_message (timed s)) = next_index (msg_index s)"
  using assms advance_keep [of s]
  by (auto simp: quiet_def build_message_def words_of_def ser_state_def next_index_def)

lemma build_later:
  assumes "0 < msg_delay s"
  shows "ser_state (build_message (timed s)) = ser_state s"
    "msg_delay (build_message (timed s)) = msg_delay s - 1"
    "msg_index (build_message (timed s)) = msg_index s"
  using assms advance_keep [of s] by (simp_all add: build_message_def ser_state_def)

lemma src_block_steps:
  assumes "quiet s" "n < 256"
  shows "msg_delay (src_at s (Suc n)) = 255 - int n \<and>
    msg_index (src_at s (Suc n)) = next_index (msg_index s) \<and>
    (ser_state (src_at s (Suc n)), map (\<lambda>i. data (src_at s (Suc i))) [0..<Suc n]) =
      ser_run (Suc n) (None, words_of s, bit_index s)"
  using assms(2)
proof (induction n)
  case 0
  show ?case
    using build_first [OF assms(1)] serialize_ser [of "build_message (timed s)"]
    by (cases "ser (None, words_of s, bit_index s)") (simp add: src_step_timed serialize_keep)
next
  case (Suc n)
  let ?t = "src_at s (Suc n)"
  have t: "src_at s (Suc (Suc n)) = serialize (build_message (timed ?t))" by (simp add: src_step_timed)
  have pos: "0 < msg_delay ?t" using Suc by simp
  have "(ser_state (src_at s (Suc (Suc n))), data (src_at s (Suc (Suc n)))) = ser (ser_state ?t)"
    unfolding t using serialize_ser build_later(1) [OF pos] by metis
  then have e: "ser_state (src_at s (Suc (Suc n))) = fst (ser (ser_state ?t))"
    "data (src_at s (Suc (Suc n))) = snd (ser (ser_state ?t))" by (metis fst_conv, metis snd_conv)
  have ih: "ser_state ?t = fst (ser_run (Suc n) (None, words_of s, bit_index s))"
    "map (\<lambda>i. data (src_at s (Suc i))) [0..<Suc n] = snd (ser_run (Suc n) (None, words_of s, bit_index s))"
    using Suc by (metis Suc_lessD fst_conv, metis Suc_lessD snd_conv)
  have "ser_run (Suc (Suc n)) (None, words_of s, bit_index s) =
    (ser_state (src_at s (Suc (Suc n))), map (\<lambda>i. data (src_at s (Suc i))) [0..<Suc n] @ [data (src_at s (Suc (Suc n)))])"
    unfolding ser_run_last [of "Suc n"] e ih [symmetric] by simp
  moreover have "msg_delay (src_at s (Suc (Suc n))) = 255 - int (Suc n)"
    "msg_index (src_at s (Suc (Suc n))) = next_index (msg_index s)"
    using Suc build_later [OF pos] unfolding t by (simp_all add: serialize_keep)
  ultimately show ?case by simp
qed



text \<open>The source repeats blocks of 256 cycles.\<close>

lemma quiet_words: "quiet s \<Longrightarrow> length (words_of s) = 14"
  using advance_keep(3) [of s] by (auto simp: quiet_def words_of_def msg_body_def msg_tail_def)

lemma src_block:
  assumes "quiet s"
  shows "quiet (src_at s 256)" "msg_index (src_at s 256) = next_index (msg_index s)"
    "\<And>i. i < 256 \<Longrightarrow> data (src_at s (Suc i)) = block (words_of s) ! i"
proof -
  obtain b' where r: "ser_run 256 (None, words_of s, bit_index s) = ((None, [], b'), block (words_of s))"
    using ser_block [OF quiet_words [OF assms]] by blast
  have k: "msg_delay (src_at s 256) = 0" "msg_index (src_at s 256) = next_index (msg_index s)"
    "(ser_state (src_at s 256), map (\<lambda>i. data (src_at s (Suc i))) [0..<256]) = ((None, [], b'), block (words_of s))"
    using src_block_steps [OF assms, of 255] r by simp_all
  show "msg_index (src_at s 256) = next_index (msg_index s)" by (rule k(2))
  show "quiet (src_at s 256)"
    using k by (auto simp: quiet_def ser_state_def next_index_def)
  show "data (src_at s (Suc i)) = block (words_of s) ! i" if "i < 256" for i
  proof -
    have "map (\<lambda>i. data (src_at s (Suc i))) [0..<256] ! i = block (words_of s) ! i" using k(3) by simp
    then show ?thesis using that by simp
  qed
qed

lemma src_at_add: "src_at s (m + n) = src_at (src_at s m) n"
  by (simp add: funpow_add add.commute [of m])

lemma src_blocks:
  assumes "quiet s" "msg_index s = 0"
  shows "quiet (src_at s (256 * j)) \<and> msg_index (src_at s (256 * j)) = int (j mod 3)"
proof (induction j)
  case (Suc j)
  let ?t = "src_at s (256 * j)"
  have "src_at s (256 * Suc j) = src_at ?t 256" by (simp only: mult_Suc_right add.commute [of 256] src_at_add)
  moreover have "next_index (int (j mod 3)) = int (Suc j mod 3)"
    using mod_Suc [of j 3] by (auto simp: next_index_def)
  ultimately show ?case using src_block [of ?t] Suc by simp
qed (simp add: assms)

definition words_at :: "ptp_src \<Rightarrow> nat \<Rightarrow> int list" where
  "words_at s j = words_of (src_at s (256 * j))"

lemma line_at:
  assumes "quiet s" "msg_index s = 0" "i < 256"
  shows "data (src_at s (Suc (256 * j + i))) = block (words_at s j) ! i"
  using src_block(3) [OF conjunct1 [OF src_blocks [OF assms(1,2), of j]] assms(3)]
  by (simp only: words_at_def add_Suc_right [symmetric] src_at_add)

text \<open>What the deserialiser of a fresh sink has consumed after \<open>n\<close> cycles: the idle line,
  then the blocks.\<close>

lemma line_blocks:
  assumes "quiet s" "msg_index s = 0" "data s"
  shows "map (\<lambda>n. data (src_at s n)) [0..<256 * j + 1] = True # concat (map (\<lambda>j. block (words_at s j)) [0..<j])"
proof (induction j)
  case (Suc j)
  have len: "length (block (words_at s j)) = 256"
    using block_length quiet_words src_blocks [OF assms(1,2)] unfolding words_at_def by blast
  have "[0..<256 * Suc j + 1] = [0..<256 * j + 1] @ map (\<lambda>i. Suc (256 * j + i)) [0..<256]"
    using upt_add_eq_append [of 0 "256 * j + 1" 256] map_add_upt [of "256 * j + 1" 256]
    by (simp add: add.commute add.left_commute)
  moreover have "map (\<lambda>n. data (src_at s n)) (map (\<lambda>i. Suc (256 * j + i)) [0..<256]) = block (words_at s j)"
    by (rule nth_equalityI) (simp_all add: len line_at [OF assms(1,2)] del: funpow.simps)
  moreover have "[0..<Suc j] = [0..<j] @ [j]" by simp
  ultimately show ?case using Suc by (simp del: upt_Suc)
qed (simp add: assms(3))

definition msg_events :: "int list \<Rightarrow> int list option list" where
  "msg_events ws = replicate 238 None @ [Some (received ws)] @ replicate 17 None"

lemma des_blocks:
  assumes "\<And>i. i < j \<Longrightarrow> length (f i) = 14"
  shows "\<exists>b'. des_run (concat (map (\<lambda>i. block (f i)) [0..<j])) ([], None, b) =
    (([], None, b'), concat (map (\<lambda>i. msg_events (f i)) [0..<j]))"
  using assms
proof (induction j)
  case (Suc j)
  obtain b1 where "des_run (concat (map (\<lambda>i. block (f i)) [0..<j])) ([], None, b) =
    (([], None, b1), concat (map (\<lambda>i. msg_events (f i)) [0..<j]))" using Suc by auto
  moreover obtain b2 where "des_run (block (f j)) ([], None, b1) = (([], None, b2), msg_events (f j))"
    using des_block [of "f j" b1] Suc.prems by (auto simp: msg_events_def)
  ultimately show ?case by (intro exI [of _ b2]) (simp add: des_run_append)
qed simp

lemma nth_concat_uniform:
  assumes "\<And>i. i < j \<Longrightarrow> length (f i) = 256" "q < j" "r < 256"
  shows "concat (map f [0..<j]) ! (256 * q + r) = f q ! r"
  using assms(1,2)
proof (induction j)
  case (Suc j)
  have l: "length (concat (map f [0..<j])) = 256 * j" using Suc.prems(1)
    by (induction j) auto
  show ?case
  proof (cases "q < j")
    case True
    then have "256 * q + r < 256 * j" using assms(3) by linarith
    then show ?thesis using Suc True l by (simp add: nth_append)
  next
    case False
    then have "q = j" using Suc.prems by simp
    then show ?thesis using l by (simp add: nth_append)
  qed
qed simp


section \<open>What a message carries\<close>

lemma join16: "push_bit 16 (take_bit 16 (drop_bit 16 x)) OR take_bit 16 x = take_bit 32 (x :: int)"
  by (rule bit_eqI) (auto simp: bit_simps)

lemma join48: "push_bit 32 (take_bit 16 (drop_bit 32 x)) OR take_bit 32 x = take_bit 48 (x :: int)"
  by (rule bit_eqI) (auto simp: bit_simps)

lemma join30: "push_bit 16 (take_bit 14 (drop_bit 16 x)) OR take_bit 16 x = take_bit 30 (x :: int)"
  by (rule bit_eqI) (auto simp: bit_simps)

lemma flag_above: "take_bit 14 (if b then 0x8000 else 0 :: int) = 0"
  by simp

lemma and_take:
  "(x :: int) AND 0xffff = take_bit 16 x" "x AND 0x3fff = take_bit 14 x" "x AND 0xff = take_bit 8 x"
  "x AND 0xf = take_bit 4 x"
  by (simp_all add: and_low take_bit_eq_mod)

lemma take_fits: "fits n x \<Longrightarrow> take_bit n x = x"
  by (simp add: fits_def take_bit_int_eq_self)

lemma ctrl_index:
  assumes "i \<in> {0, 1, 2}"
  shows "take_bit 4 (take_bit 4 i OR push_bit 8 (of_bool a) OR push_bit 9 (of_bool b)) = (i :: int)"
proof -
  have "take_bit 4 (take_bit 4 i OR push_bit 8 (of_bool a) OR push_bit 9 (of_bool b)) = take_bit 4 i"
    by (rule bit_eqI) (auto simp: bit_simps)
  then show ?thesis using assms by auto
qed

lemma message_tail:
  assumes "quiet s" "clk_ok (timed s)"
  shows "core (process_tail (received (words_of s)) k) =
    (period_ns (timed s), period_fns (timed s), drift_num k, drift_denom k, drift_cnt k,
     ts_fns (timed s), ts_rel_ns (timed s), ts_tod_s k, ts_tod_ns k)"
proof -
  have "length (msg_body (timed s)) = 5"
    using assms(1) advance_keep(3) [of s] by (auto simp: quiet_def msg_body_def)
  then obtain a b c d e where m: "msg_body (timed s) = [a, b, c, d, e]"
    by (auto simp: numeral_eq_Suc length_Suc_conv)
  have f: "fits 32 (ts_fns (timed s))" "fits 48 (ts_rel_ns (timed s))" "fits 32 (period_fns (timed s))"
    "fits 8 (period_ns (timed s))"
    using assms(2) by (auto simp: clk_ok_def fits_def)
  show ?thesis
    using f [THEN take_fits]
    by (simp add: core_def process_tail_def received_def words_of_def m msg_tail_def word2_def word3_def
        and_take join16 join48)
qed

lemma message_kind:
  assumes "quiet s" "clk_ok (timed s)" "fits 48 (ts_tod_s (timed s))"
  shows "core (process_kind (received (words_of s)) k) =
    (period_ns k, period_fns k,
     (if msg_index s = 1 then drift_num (timed s) else drift_num k),
     (if msg_index s = 1 then drift_denom (timed s) else drift_denom k),
     (if msg_index s = 1 then drift_cnt (timed s) else drift_cnt k), ts_fns k, ts_rel_ns k,
     (if msg_index s = 0 then ts_tod_s (timed s) else ts_tod_s k),
     (if msg_index s = 0 then ts_tod_ns (timed s) else ts_tod_ns k))"
proof -
  have i: "msg_index (timed s) = msg_index s" by (rule advance_keep)
  have idx: "take_bit 4 (msg_ctrl (timed s)) = msg_index s"
    using assms(1) ctrl_index [of "msg_index s"] by (simp add: msg_ctrl_def i and_take quiet_def)
  have f: "fits 16 (drift_num (timed s))" "fits 16 (drift_denom (timed s))" "fits 16 (drift_cnt (timed s))"
    using assms(2) by (auto simp: clk_ok_def)
  have n: "take_bit 30 (ts_tod_ns (timed s)) = ts_tod_ns (timed s)"
    using assms(2) by (simp add: clk_ok_def take_bit_int_eq_self)
  consider "msg_index s = 0" | "msg_index s = 1" | "msg_index s = 2"
    using assms(1) by (auto simp: quiet_def)
  then show ?thesis
    using f [THEN take_fits] assms(3) [THEN take_fits] n idx
    by cases (simp_all add: process_kind_def Let_def core_def received_def words_of_def msg_body_def i
        word3_def and_take join16 join48 join30 flag_above)
qed



section \<open>Source and sink on one wire\<close>

text \<open>In one clock cycle the sink samples the value the source drove in the cycle before.\<close>

definition link_step :: "ptp_src \<times> ptp_sink \<Rightarrow> (ptp_src \<times> ptp_sink) result" where
  "link_step = (\<lambda>(s, k). rbind (sink_step (data s) k) (\<lambda>k'. Inr (src_step s, k')))"

fun link :: "nat \<Rightarrow> ptp_src \<times> ptp_sink \<Rightarrow> (ptp_src \<times> ptp_sink) result" where
  "link 0 x = Inr x"
| "link (Suc n) x = rbind (link n x) link_step"

abbreviation line :: "ptp_src \<Rightarrow> nat \<Rightarrow> bool list" where
  "line s n \<equiv> map (\<lambda>i. data (src_at s i)) [0..<n]"

definition event_at :: "ptp_src \<Rightarrow> nat \<Rightarrow> nat \<Rightarrow> int list option" where
  "event_at s b n = snd (des (data (src_at s n)) (fst (des_run (line s n) ([], None, b))))"

lemma des_run_Cons:
  "fst (des_run (d # ds) st) = fst (des_run ds (fst (des d st)))"
  "snd (des_run (d # ds) st) = snd (des d st) # snd (des_run ds (fst (des d st)))"
  by (auto split: prod.splits)

lemma des_run_event:
  "n < length ds \<Longrightarrow> snd (des_run ds st) ! n = snd (des (ds ! n) (fst (des_run (take n ds) st)))"
proof (induction ds arbitrary: n st)
  case (Cons d ds)
  then show ?case by (cases n) (simp_all add: des_run_Cons del: des_run.simps(2))
qed simp

lemma event_at_value:
  assumes "quiet s" "msg_index s = 0" "data s"
  shows "event_at s b n =
    (if n mod 256 = 239 then Some (received (words_at s (n div 256))) else None)"
proof (cases n)
  case 0
  then show ?thesis by (simp add: event_at_def assms(3))
next
  case (Suc m)
  define q r where "q = m div 256" and "r = m mod 256"
  have m: "m = 256 * q + r" "r < 256" by (simp_all add: q_def r_def)
  let ?l = "line s (256 * Suc q + 1)"
  have len: "length (words_at s i) = 14" for i
    using quiet_words src_blocks [OF assms(1,2)] unfolding words_at_def by blast
  obtain b' where "des_run (concat (map (\<lambda>i. block (words_at s i)) [0..<Suc q])) ([], None, b) =
    (([], None, b'), concat (map (\<lambda>i. msg_events (words_at s i)) [0..<Suc q]))"
    using des_blocks [of "Suc q" "words_at s" b] len by blast
  then have ev: "snd (des_run ?l ([], None, b)) = None # concat (map (\<lambda>i. msg_events (words_at s i)) [0..<Suc q])"
    unfolding line_blocks [OF assms] by (simp del: upt_Suc)
  have n: "n < length ?l" "n = Suc m" using m Suc by simp_all
  have lt: "take n ?l = line s n" using n(1) by (simp add: take_map take_upt del: upt_Suc)
  have ln: "?l ! n = data (src_at s n)" using n(1) by (simp del: upt_Suc)
  have "event_at s b n = snd (des_run ?l ([], None, b)) ! n"
    unfolding event_at_def des_run_event [OF n(1)] lt ln ..
  also have "\<dots> = msg_events (words_at s q) ! r"
    unfolding ev n(2) nth_Cons_Suc m(1)
    by (rule nth_concat_uniform) (simp_all add: msg_events_def m(2))
  also have "\<dots> = (if r = 238 then Some (received (words_at s q)) else None)"
    using m(2) by (auto simp: msg_events_def nth_append nth_Cons')
  finally have e: "event_at s b n = (if r = 238 then Some (received (words_at s q)) else None)" .
  have n': "n = 256 * q + (r + 1)" using m(1) n(2) by simp
  have "n mod 256 = 239 \<longleftrightarrow> r = 238"
    unfolding n' mod_mult_self3 using m(2) by (cases "r = 255") auto
  moreover have "n div 256 = q" if "r = 238" unfolding n' using that by simp
  ultimately show ?thesis using e by auto
qed

text \<open>The message waiting in the sink after \<open>n\<close> cycles and the rest of its delay.\<close>

definition pending :: "ptp_src \<Rightarrow> nat \<Rightarrow> nat \<Rightarrow> int list option \<times> nat" where
  "pending s td n =
     (if 240 \<le> n \<and> (n - 240) mod 256 < td
      then (Some (received (words_at s ((n - 240) div 256))), td - (n - 240) mod 256) else (None, 0))"

text \<open>One cycle of the waiting message: a message that arrives replaces it, one whose delay ends is
  processed.\<close>

definition due :: "nat \<Rightarrow> nat \<Rightarrow> nat \<Rightarrow> bool" where
  "due td n q \<longleftrightarrow> n + 1 = 240 + 256 * q + td"

lemma pending_step:
  assumes "1 \<le> td" "td \<le> 256" "quiet s" "msg_index s = 0" "data s"
  shows "pending s td (Suc n) =
    (case event_at s b n of Some m \<Rightarrow> (Some m, td)
     | None \<Rightarrow> if \<exists>q. due td n q then (None, 0) else (fst (pending s td n), snd (pending s td n) - 1))"
    and "due td n q \<Longrightarrow> pending s td n = (Some (received (words_at s q)), 1)"
    and "\<not> (\<exists>q. due td n q) \<Longrightarrow> fst (pending s td n) = None \<or> snd (pending s td n) \<noteq> 1"
proof -
  show d: "pending s td n = (Some (received (words_at s q)), 1)" if "due td n q" for q
  proof -
    obtain t where t: "td = Suc t" "t < 256" using assms(1,2) by (cases td) auto
    then have "n - 240 = 256 * q + t" "240 \<le> n" using that by (auto simp: due_def)
    then have "(n - 240) mod 256 = t" "(n - 240) div 256 = q" using t(2) by simp_all
    then show ?thesis using \<open>240 \<le> n\<close> t(1) by (simp add: pending_def)
  qed
  show nd: "fst (pending s td n) = None \<or> snd (pending s td n) \<noteq> 1" if "\<not> (\<exists>q. due td n q)"
  proof (rule ccontr)
    assume "\<not> ?thesis"
    then have i: "240 \<le> n" "(n - 240) mod 256 + 1 = td" by (auto simp: pending_def split: if_splits)
    then have "due td n ((n - 240) div 256)"
      unfolding due_def using div_mult_mod_eq [of "n - 240" 256] by linarith
    with that show False by blast
  qed
  have ev: "event_at s b n = (if n mod 256 = 239 then Some (received (words_at s (n div 256))) else None)"
    by (rule event_at_value [OF assms(3-5)])
  show "pending s td (Suc n) =
    (case event_at s b n of Some m \<Rightarrow> (Some m, td)
     | None \<Rightarrow> if \<exists>q. due td n q then (None, 0) else (fst (pending s td n), snd (pending s td n) - 1))"
  proof (cases "n mod 256 = 239")
    case True
    define q where "q = n div 256"
    then have "n = 239 + 256 * q" using True div_mult_mod_eq [of n 256] by linarith
    then have "Suc n - 240 = 256 * q" "240 \<le> Suc n" by simp_all
    then have "(Suc n - 240) mod 256 = 0" "(Suc n - 240) div 256 = n div 256" "240 \<le> Suc n"
      by (simp_all add: q_def)
    then show ?thesis using True ev assms(1) by (simp add: pending_def)
  next
    case False
    show ?thesis
    proof (cases "240 \<le> n")
      case True
      define a c where "a = (n - 240) div 256" and "c = (n - 240) mod 256"
      then have ac: "n = 240 + 256 * a + c" "c < 256" using True by simp_all
      have "c \<noteq> 255"
      proof
        assume "c = 255"
        then have "n = 256 * Suc a + 239" using ac by simp
        then have "n mod 256 = 239" by (simp only: mod_mult_self3) simp
        with False show False by simp
      qed
      then have "Suc n - 240 = 256 * a + (c + 1)" "c + 1 < 256" using ac by simp_all
      then have "(Suc n - 240) mod 256 = c + 1" "(Suc n - 240) div 256 = a" by simp_all
      then have step: "(Suc n - 240) mod 256 = (n - 240) mod 256 + 1" "(Suc n - 240) div 256 = (n - 240) div 256"
        by (simp_all add: a_def c_def)
      show ?thesis
      proof (cases "\<exists>q. due td n q")
        case True
        then obtain q where "due td n q" by blast
        then have "(n - 240) mod 256 + 1 = td" using d [OF \<open>due td n q\<close>] \<open>240 \<le> n\<close>
          by (auto simp: pending_def split: if_splits)
        then show ?thesis using True False ev step \<open>240 \<le> n\<close> by (simp add: pending_def)
      next
        case nodue: False
        then have "(n - 240) mod 256 + 1 \<noteq> td"
          using nd \<open>240 \<le> n\<close> by (auto simp: pending_def split: if_splits)
        then show ?thesis using nodue False ev step \<open>240 \<le> n\<close> by (auto simp: pending_def)
      qed
    next
      case small: False
      then have "Suc n < 240" using False by (cases "n = 239") auto
      moreover have "\<not> (\<exists>q. due td n q)" using small assms(1) by (auto simp: due_def)
      ultimately show ?thesis using False ev by (simp add: pending_def)
    qed
  qed
qed


section \<open>The sink follows the source\<close>

text \<open>The assumptions on a run: a source between messages about to send message 0, with its clock
  in range and seconds that stay below 48 bits; a sink that has received nothing, with any clock.\<close>

definition link_ok :: "ptp_src \<Rightarrow> ptp_sink \<Rightarrow> nat \<Rightarrow> nat \<Rightarrow> bool" where
  "link_ok s k td N \<longleftrightarrow>
     quiet s \<and> msg_index s = 0 \<and> data s \<and> clk_ok s \<and> 0 \<le> ts_tod_s s \<and> ts_tod_s s + int N < 2 ^ 48 \<and>
     1 \<le> td \<and> td \<le> 256 \<and> td_delay s = td \<and> k_td_delay k = td \<and>
     k_msg k = None \<and> k_msg_delay k = 0 \<and> k_cur_msg k = [] \<and> k_word k = None"

abbreviation clk :: "ptp_src \<Rightarrow> nat \<Rightarrow> ptp_src" where "clk s m \<equiv> (advance ^^ m) s"

lemma clk_facts:
  assumes "clk_ok s" "0 \<le> ts_tod_s s"
  shows "clk_ok (clk s m) \<and> 0 \<le> ts_tod_s (clk s m) \<and> ts_tod_s (clk s m) \<le> ts_tod_s s + int m"
proof (induction m)
  case (Suc m)
  then show ?case
    using advance_clk_ok [of "clk s m"] advance_tod [of "clk s m"] by (auto simp: Let_def split: if_splits)
qed (simp add: assms)

lemma timed_core: "core (timed (src_at s (256 * q))) = core (clk s (256 * q + 1))"
proof -
  have "core (timed (src_at s (256 * q))) = core (src_step (src_at s (256 * q)))"
    by (simp add: src_step_timed serialize_keep core_keep)
  then show ?thesis using core_src_at [of "256 * q + 1" s] by simp
qed

lemma message_at:
  assumes "link_ok s k td N" "256 * q + 1 \<le> N"
  shows "core (process_tail (received (words_at s q)) (process_kind (received (words_at s q)) u)) =
    (let v = clk s (256 * q + 1) in
      (period_ns v, period_fns v, (if q mod 3 = 1 then drift_num v else drift_num u),
       (if q mod 3 = 1 then drift_denom v else drift_denom u),
       (if q mod 3 = 1 then drift_cnt v else drift_cnt u), ts_fns v, ts_rel_ns v,
       (if q mod 3 = 0 then ts_tod_s v else ts_tod_s u),
       (if q mod 3 = 0 then ts_tod_ns v else ts_tod_ns u)))"
proof -
  let ?t = "src_at s (256 * q)"
  note l = assms(1) [unfolded link_ok_def]
  have q: "quiet ?t" "msg_index ?t = int (q mod 3)" using src_blocks [of s q] l by simp_all
  have e: "period_ns (timed ?t) = period_ns (clk s (256 * q + 1))" "period_fns (timed ?t) = period_fns (clk s (256 * q + 1))"
    "drift_num (timed ?t) = drift_num (clk s (256 * q + 1))" "drift_denom (timed ?t) = drift_denom (clk s (256 * q + 1))"
    "drift_cnt (timed ?t) = drift_cnt (clk s (256 * q + 1))" "ts_fns (timed ?t) = ts_fns (clk s (256 * q + 1))"
    "ts_rel_ns (timed ?t) = ts_rel_ns (clk s (256 * q + 1))" "ts_tod_s (timed ?t) = ts_tod_s (clk s (256 * q + 1))"
    "ts_tod_ns (timed ?t) = ts_tod_ns (clk s (256 * q + 1))"
    using timed_core [of q] unfolding core_def by simp_all
  have ok: "clk_ok (timed ?t)" "fits 48 (ts_tod_s (timed ?t))"
    using clk_facts [of s "256 * q + 1"] assms(2) l unfolding clk_ok_def fits_def e by auto
  have one: "int (q mod 3) = 1 \<longleftrightarrow> q mod 3 = 1" by linarith
  show ?thesis
    using message_kind [OF q(1) ok, of u] message_tail [OF q(1) ok(1), of "process_kind (received (words_of ?t)) u"]
    unfolding words_at_def e q(2) one of_nat_eq_0_iff
    by (simp add: core_def Let_def)
qed


text \<open>The fields that do not depend on the seconds of the day.\<close>

definition part1 :: "'a ptp_clk_scheme \<Rightarrow> int \<times> int \<times> int \<times> int \<times> int \<times> int \<times> int" where
  "part1 u = (period_ns u, period_fns u, drift_num u, drift_denom u, drift_cnt u, ts_fns u, ts_rel_ns u)"

lemma core_part: "core u = core v \<longleftrightarrow> part1 u = part1 v \<and> ts_tod_s u = ts_tod_s v \<and> ts_tod_ns u = ts_tod_ns v"
  by (auto simp: core_def part1_def)

lemma part1_advance: "part1 u = part1 v \<Longrightarrow> part1 (advance u) = part1 (advance v)"
  by (simp add: part1_def advance_fields cycle_inc_def next_cnt_def period_def)

definition sync_inv :: "ptp_src \<Rightarrow> ptp_sink \<Rightarrow> nat \<Rightarrow> nat \<Rightarrow> ptp_sink \<Rightarrow> bool" where
  "sync_inv s k0 td n k \<longleftrightarrow>
     des_state k = fst (des_run (line s n) ([], None, k_bit_index k0)) \<and>
     (k_msg k, k_msg_delay k) = pending s td n \<and> k_td_delay k = td \<and>
     (496 + td \<le> n \<longrightarrow> part1 k = part1 (clk s (n - (239 + td)))) \<and>
     (1008 + td \<le> n \<longrightarrow> core k = core (clk s (n - (239 + td))))"

lemma advance_sink:
  "k_msg (advance k) = k_msg k" "k_msg_delay (advance k) = k_msg_delay k"
  "k_td_delay (advance k) = k_td_delay k" "des_state (advance k) = des_state k"
  by (simp_all add: advance_def des_state_def Let_def split: prod.splits)

lemma process_keep:
  "k_td_delay (process_tail m (process_kind m k)) = k_td_delay (k :: ptp_sink)"
  "des_state (process_tail m (process_kind m k)) = des_state k"
  "k_msg_delay (process_tail m (process_kind m k)) = k_msg_delay k"
  by (simp_all add: process_tail_def process_kind_def des_state_def Let_def)

lemma update_keep:
  "core (k\<lparr>k_msg := x\<rparr>) = core k" "core (k\<lparr>k_msg_delay := d\<rparr>) = core k"
  "des_state (k\<lparr>k_msg := x\<rparr>) = des_state k" "des_state (k\<lparr>k_msg_delay := d\<rparr>) = des_state k"
  "core (deserialize b k) = core k"
  by (simp_all add: core_def des_state_def deserialize_def Let_def split: option.splits)

text \<open>The clock of the sink after processing, whether or not a message was due.\<close>

lemma process_due:
  assumes "k_msg k = Some m" "k_msg_delay k = 1" "length m = 14"
  shows "\<exists>k2. process_messages (advance k) = Inr k2 \<and>
    core k2 = core (process_tail m (process_kind m (advance k))) \<and>
    k_msg k2 = None \<and> k_msg_delay k2 = 0 \<and> k_td_delay k2 = k_td_delay k \<and> des_state k2 = des_state k"
proof -
  have "m \<noteq> []" using assms(3) by auto
  moreover have "core (process_tail m (process_kind m ((advance k)\<lparr>k_msg_delay := 0\<rparr>))) =
    core (process_tail m (process_kind m (advance k)))"
    by (simp add: core_def process_tail_def process_kind_def Let_def)
  ultimately show ?thesis
    using assms by (simp add: process_messages_def advance_sink process_keep update_keep Let_def)
qed

lemma process_wait:
  assumes "k_msg k = None \<or> k_msg_delay k \<noteq> 1" "k_msg k = None \<or> 0 < k_msg_delay k"
  shows "\<exists>k2. process_messages (advance k) = Inr k2 \<and> core k2 = core (advance k) \<and>
    k_msg k2 = k_msg k \<and> k_msg_delay k2 = k_msg_delay k - 1 \<and> k_td_delay k2 = k_td_delay k \<and>
    des_state k2 = des_state k"
  using assms
  by (auto simp: process_messages_def advance_sink update_keep Let_def split: option.splits)

lemma line_Suc: "line s (Suc n) = line s n @ [data (src_at s n)]"
  by simp

lemma sync_step:
  assumes l: "link_ok s k0 td N" and n: "n \<le> N" and inv: "sync_inv s k0 td n k"
  shows "\<exists>k'. sink_step (data (src_at s n)) k = Inr k' \<and> sync_inv s k0 td (Suc n) k'"
proof -
  note lo = l [unfolded link_ok_def]
  have td: "1 \<le> td" "td \<le> 256" and src: "quiet s" "msg_index s = 0" "data s" using lo by simp_all
  note i = inv [unfolded sync_inv_def]
  let ?b = "k_bit_index k0" and ?D = "239 + td"
  let ?ev = "event_at s ?b n"
  note ps = pending_step [OF td src]
  have len: "length (received (words_at s q)) = 14" for q
    using quiet_words src_blocks [OF src(1,2)] unfolding words_at_def received_def by simp
  have km: "k_msg k = fst (pending s td n)" "k_msg_delay k = snd (pending s td n)" using i by (metis fst_conv, metis snd_conv)
  have pos: "k_msg k = None \<or> 0 < k_msg_delay k" unfolding km pending_def by auto
  have adv1: "part1 (advance k) = part1 (clk s (Suc n - ?D))" if "496 + td \<le> n"
  proof -
    have "Suc n - ?D = Suc (n - ?D)" using that by simp
    then show ?thesis using part1_advance [of k "clk s (n - ?D)"] i that by simp
  qed
  have adv: "core (advance k) = core (clk s (Suc n - ?D))" if "1008 + td \<le> n"
  proof -
    have "Suc n - ?D = Suc (n - ?D)" using that by simp
    then show ?thesis using core_advance [of k "clk s (n - ?D)"] i that by simp
  qed
  have "\<exists>k2. process_messages (advance k) = Inr k2 \<and> des_state k2 = des_state k \<and> k_td_delay k2 = td \<and>
    k_msg k2 = (if \<exists>q. due td n q then None else k_msg k) \<and>
    k_msg_delay k2 = (if \<exists>q. due td n q then 0 else k_msg_delay k - 1) \<and>
    (496 + td \<le> Suc n \<longrightarrow> part1 k2 = part1 (clk s (Suc n - ?D))) \<and>
    (1008 + td \<le> Suc n \<longrightarrow> core k2 = core (clk s (Suc n - ?D)))"
  proof (cases "\<exists>q. due td n q")
    case True
    then obtain q where q: "due td n q" by blast
    let ?v = "clk s (256 * q + 1)"
    have qn: "Suc n - ?D = 256 * q + 1" "256 * q + 1 \<le> N" using q n by (auto simp: due_def)
    obtain k2 where k2: "process_messages (advance k) = Inr k2"
      "core k2 = core (process_tail (received (words_at s q)) (process_kind (received (words_at s q)) (advance k)))"
      "k_msg k2 = None" "k_msg_delay k2 = 0" "k_td_delay k2 = td" "des_state k2 = des_state k"
      using process_due [of k "received (words_at s q)"] ps(2) [OF q] km len i by auto
    note c = k2(2) [unfolded message_at [OF l qn(2)] Let_def]
    have tod: "ts_tod_s k2 = (if q mod 3 = 0 then ts_tod_s ?v else ts_tod_s (advance k))"
      "ts_tod_ns k2 = (if q mod 3 = 0 then ts_tod_ns ?v else ts_tod_ns (advance k))"
      using c unfolding core_def prod.inject by blast+
    have early: "496 + td \<le> n \<or> q \<le> 1" "1008 + td \<le> n \<or> q \<le> 3" "496 + td \<le> Suc n \<Longrightarrow> 1 \<le> q"
      "1008 + td \<le> Suc n \<Longrightarrow> 3 \<le> q"
      using q unfolding due_def by linarith+
    have 1: "part1 k2 = part1 ?v" if "496 + td \<le> Suc n"
    proof (cases "q mod 3 = 1")
      case False
      then have "q \<noteq> 1" by auto
      then have "496 + td \<le> n" using early that by auto
      then show ?thesis using adv1 c qn(1) unfolding core_def part1_def by auto
    qed (use c in \<open>auto simp: core_def part1_def\<close>)
    have 2: "core k2 = core ?v" if "1008 + td \<le> Suc n"
    proof (cases "q mod 3 = 0")
      case True
      then show ?thesis using 1 that tod unfolding core_part by simp
    next
      case False
      then have "q \<noteq> 3" by auto
      then have "1008 + td \<le> n" using early that by auto
      then show ?thesis using 1 that adv tod qn(1) False unfolding core_part by simp
    qed
    show ?thesis using True k2 1 2 qn(1) by auto
  next
    case False
    obtain k2 where k2: "process_messages (advance k) = Inr k2" "core k2 = core (advance k)"
      "k_msg k2 = k_msg k" "k_msg_delay k2 = k_msg_delay k - 1" "k_td_delay k2 = td" "des_state k2 = des_state k"
      using process_wait [OF _ pos] ps(3) [OF False] km i by auto
    have "Suc n \<noteq> 496 + td" "Suc n \<noteq> 1008 + td"
      using False unfolding due_def by (auto dest: spec [of _ 1] spec [of _ 3])
    then show ?thesis using False k2 adv1 adv by (auto simp: core_part)
  qed
  then obtain k2 where k2: "process_messages (advance k) = Inr k2" "des_state k2 = des_state k" "k_td_delay k2 = td"
    "k_msg k2 = (if \<exists>q. due td n q then None else k_msg k)"
    "k_msg_delay k2 = (if \<exists>q. due td n q then 0 else k_msg_delay k - 1)"
    "496 + td \<le> Suc n \<Longrightarrow> part1 k2 = part1 (clk s (Suc n - ?D))"
    "1008 + td \<le> Suc n \<Longrightarrow> core k2 = core (clk s (Suc n - ?D))" by blast
  let ?k' = "deserialize (data (src_at s n)) k2"
  have ev: "snd (des (data (src_at s n)) (des_state k2)) = ?ev"
    using k2(2) i by (simp add: event_at_def)
  have ds: "des_state ?k' = fst (des_run (line s (Suc n)) ([], None, ?b))"
    unfolding line_Suc des_run_append deserialize_des(1)
    using k2(2) i by (simp add: Let_def split: prod.splits)
  have pd: "(k_msg ?k', k_msg_delay ?k') = pending s td (Suc n)"
    unfolding ps(1) [of n ?b] deserialize_des ev using k2(3-5) km by (auto split: option.splits)
  have "part1 ?k' = part1 k2" using update_keep(5) [of "data (src_at s n)" k2] by (simp add: core_part)
  then have "sync_inv s k0 td (Suc n) ?k'"
    unfolding sync_inv_def using ds pd k2(3,6,7) by (simp add: deserialize_des update_keep)
  then show ?thesis using k2(1) by (simp add: sink_step_def sink_advance_def)
qed


lemma link_runs:
  assumes "link_ok s k td N" "n \<le> N"
  shows "\<exists>k'. link n (s, k) = Inr (src_at s n, k') \<and> sync_inv s k td n k'"
  using assms(2)
proof (induction n)
  case 0
  have "td \<le> 256" "k_td_delay k = td" "des_state k = ([], None, k_bit_index k)" "k_msg k = None" "k_msg_delay k = 0"
    using assms(1) by (auto simp: link_ok_def des_state_def)
  then show ?case by (simp add: sync_inv_def pending_def)
next
  case (Suc n)
  then obtain k1 where "link n (s, k) = Inr (src_at s n, k1)" "sync_inv s k td n k1" by auto
  then show ?case using sync_step [OF assms(1) _, of n k1] Suc.prems by (auto simp: link_step_def)
qed

text \<open>The delay line of the source holds the readings of the last cycles.\<close>

definition snap :: "ptp_src \<Rightarrow> int \<times> int \<times> int \<times> int" where
  "snap s = (ts_tod_s s, ts_tod_ns s, ts_rel_ns s, ts_fns s)"

lemma snap_core: "core u = core v \<Longrightarrow> snap u = snap v"
  by (simp add: core_def snap_def)

lemma src_step_delay:
  "timestamp_delay (src_step s) =
     drop (length (timestamp_delay s) + 1 - (238 + td_delay s)) (timestamp_delay s @ [snap s])"
  "td_delay (src_step s) = td_delay s"
  by (simp_all add: src_step_timed serialize_keep build_message_def timed_def offsets_def advance_def
      delay_timestamp_def snap_def Let_def split: prod.splits)

lemma drop_last_n:
  "drop (length (drop (length xs - n) xs) + 1 - n) (drop (length xs - n) xs @ [y]) =
     drop (length (xs @ [y]) - n) (xs @ [y])"
proof (cases "length xs \<le> n")
  case False
  then have "length (drop (length xs - n) xs) + 1 - n = 1" by simp
  then show ?thesis using False by (simp add: drop_drop Suc_diff_le) 
qed simp

lemma delay_line:
  assumes "length (timestamp_delay s) \<le> 238 + td_delay s"
  shows "td_delay (src_at s n) = td_delay s \<and> timestamp_delay (src_at s n) =
    drop (length (timestamp_delay s) + n - (238 + td_delay s)) (timestamp_delay s @ map (\<lambda>i. snap (clk s i)) [0..<n])"
proof (induction n)
  case 0
  then show ?case using assms by simp
next
  case (Suc n)
  let ?xs = "timestamp_delay s @ map (\<lambda>i. snap (clk s i)) [0..<n]"
  have "snap (src_at s n) = snap (clk s n)" by (rule snap_core) (rule core_src_at)
  then show ?case
    using Suc src_step_delay [of "src_at s n"] drop_last_n [of ?xs "238 + td_delay s" "snap (clk s n)"] by simp
qed

lemma delayed_reading:
  assumes "length (timestamp_delay s) \<le> 238 + td_delay s" "238 + td_delay s \<le> n"
  shows "py_get (timestamp_delay (src_at s n)) 0 = Inr (snap (clk s (n - (238 + td_delay s))))"
proof -
  let ?N = "238 + td_delay s" and ?l = "length (timestamp_delay s)"
  have "?l + n - ?N = ?l + (n - ?N)" using assms(2) by simp
  then have "timestamp_delay (src_at s n) = map (\<lambda>i. snap (clk s i)) [n - ?N..<n]"
    using delay_line [OF assms(1), of n] by (simp add: drop_map drop_upt)
  then show ?thesis using assms(2) by (simp add: py_get_def py_idx_def)
qed

text \<open>C20: A sink that listens to a source locks to it within 1008 cycles and its message delay
  (1 to 256 cycles): whatever its clock was, from then on the time of day and the relative time read
  from the source, which it delays on purpose, are exactly those the sink reads one clock edge later.
  No message is lost or garbled, and neither side raises.\<close>

theorem sink_follows_source:
  assumes "link_ok s k td N" and "length (timestamp_delay s) \<le> 238 + td"
    and "1007 + td \<le> n" and "n < N"
  shows "\<exists>s1 k1 k2. link n (s, k) = Inr (s1, k1) \<and> link (Suc n) (s, k) = Inr (src_step s1, k2) \<and>
    src_get_ts_tod s1 = Inr (sink_get_ts_tod k2) \<and> src_get_ts_rel s1 = Inr (sink_get_ts_rel k2)"
proof -
  have td: "td_delay s = td" using assms(1) by (simp add: link_ok_def)
  obtain k1 where k1: "link n (s, k) = Inr (src_at s n, k1)"
    using link_runs [OF assms(1), of n] assms(4) by auto
  obtain k2 where k2: "link (Suc n) (s, k) = Inr (src_at s (Suc n), k2)" "sync_inv s k td (Suc n) k2"
    using link_runs [OF assms(1), of "Suc n"] assms(4) by auto
  have "core k2 = core (clk s (n - (238 + td)))"
    using k2(2) assms(3) by (simp add: sync_inv_def)
  moreover have "py_get (timestamp_delay (src_at s n)) 0 = Inr (snap (clk s (n - (238 + td))))"
    using delayed_reading [of s n] assms(2,3) td by simp
  ultimately show ?thesis
    using k1 k2(1)
    by (intro exI [of _ "src_at s n"] exI [of _ k1] exI [of _ k2])
      (simp add: src_get_ts_tod_def src_get_ts_rel_def sink_get_ts_tod_def sink_get_ts_rel_def snap_def core_def)
qed

theorem sink_follows_source_witness:
  "\<exists>s1 k1 k2. link 2000 (src_handle_reset False (src_init 6 0x66666666 2 5 32), sink_handle_reset False (sink_init 32)) = Inr (s1, k1) \<and>
    link 2001 (src_handle_reset False (src_init 6 0x66666666 2 5 32), sink_handle_reset False (sink_init 32)) = Inr (src_step s1, k2) \<and>
    src_get_ts_tod s1 = Inr (sink_get_ts_tod k2) \<and> src_get_ts_rel s1 = Inr (sink_get_ts_rel k2)"
proof -
  have l: "link_ok (src_handle_reset False (src_init 6 0x66666666 2 5 32)) (sink_handle_reset False (sink_init 32)) 32 3000"
    by (simp add: link_ok_def quiet_def clk_ok_def fits_def src_handle_reset_def src_init_def
        sink_handle_reset_def sink_init_def)
  have d: "length (timestamp_delay (src_handle_reset False (src_init 6 0x66666666 2 5 32))) \<le> 238 + 32"
    by (simp add: src_handle_reset_def src_init_def)
  show ?thesis using sink_follows_source [OF l d, of 2000] by simp
qed


section \<open>Packed time stamps\<close>

lemma low_bits: "fits 16 b \<Longrightarrow> (push_bit 16 a OR b) AND 0xffff = b" "fits 16 b \<Longrightarrow> drop_bit 16 (push_bit 16 a OR b) = (a :: int)"
proof -
  assume b: "fits 16 b"
  have "take_bit 16 (push_bit 16 a OR b) = take_bit 16 b" by (rule bit_eqI) (auto simp: bit_simps)
  then show "(push_bit 16 a OR b) AND 0xffff = b" using take_fits [OF b] by (simp add: and_take)
  have "drop_bit 16 (push_bit 16 a OR b) = a OR drop_bit 16 b" by (rule bit_eqI) (auto simp: bit_simps)
  moreover have "drop_bit 16 b = 0" using b by (simp add: fits_def drop_bit_eq_div div_pos_pos_trivial)
  ultimately show "drop_bit 16 (push_bit 16 a OR b) = a" by simp
qed

text \<open>C25: The packed 64-bit relative time survives a read on the sink's side and a write on the
  source's side (but for the 16 bits of fraction that it does not carry); the packed 96-bit time of
  day does not: the seconds and the fraction arrive, but the setter takes the nanoseconds from bit 32
  on, where the getter put them at bit 16, so it sets a mixture of the upper nanosecond bits and the
  low seconds bits.\<close>

theorem packed_time_stamps:
  assumes "clk_ok k" and "fits 48 (ts_tod_s k)"
  shows "ts_rel_ns (set_ts_rel_64 (sink_get_ts_rel_64 k) s) = ts_rel_ns k \<and>
    ts_fns (set_ts_rel_64 (sink_get_ts_rel_64 k) s) = push_bit 16 (drop_bit 16 (ts_fns k)) \<and>
    ts_tod_s (set_ts_tod_96 (sink_get_ts_tod_96 k) s) = ts_tod_s k \<and>
    ts_fns (set_ts_tod_96 (sink_get_ts_tod_96 k) s) = push_bit 16 (drop_bit 16 (ts_fns k)) \<and>
    ts_tod_ns (set_ts_tod_96 (sink_get_ts_tod_96 k) s) =
      (push_bit 16 (ts_tod_s k) OR drop_bit 16 (ts_tod_ns k)) AND 0x3fffffff"
proof -
  have f: "fits 16 (drop_bit 16 (ts_fns k))"
    using assms(1) by (auto simp: clk_ok_def fits_def drop_bit_eq_div div_less_iff_less_mult)
  have n: "fits 32 (ts_tod_ns k)" using assms(1) by (simp add: clk_ok_def fits_def)
  let ?t = "push_bit 48 (ts_tod_s k) OR push_bit 16 (ts_tod_ns k) OR drop_bit 16 (ts_fns k)"
  have t: "?t = push_bit 16 (push_bit 32 (ts_tod_s k) OR ts_tod_ns k) OR drop_bit 16 (ts_fns k)"
    by (simp add: or.assoc)
  have s: "drop_bit 32 (push_bit 32 (ts_tod_s k) OR ts_tod_ns k) = ts_tod_s k"
  proof -
    have "drop_bit 32 (push_bit 32 (ts_tod_s k) OR ts_tod_ns k) = ts_tod_s k OR drop_bit 32 (ts_tod_ns k)"
      by (rule bit_eqI) (auto simp: bit_simps)
    moreover have "drop_bit 32 (ts_tod_ns k) = 0"
      using n by (simp add: fits_def drop_bit_eq_div div_pos_pos_trivial)
    ultimately show ?thesis by simp
  qed
  have m: "drop_bit 16 (push_bit 32 (ts_tod_s k) OR ts_tod_ns k) =
    push_bit 16 (ts_tod_s k) OR drop_bit 16 (ts_tod_ns k)"
    by (rule bit_eqI) (auto simp: bit_simps)
  have l: "drop_bit 16 ?t = push_bit 32 (ts_tod_s k) OR ts_tod_ns k"
    unfolding t by (rule low_bits(2) [OF f])
  have "drop_bit 48 ?t = drop_bit 32 (drop_bit 16 ?t)" "drop_bit 32 ?t = drop_bit 16 (drop_bit 16 ?t)"
    unfolding drop_bit_drop_bit by (simp_all only: numeral_plus_numeral semiring_norm)
  then have d: "drop_bit 48 ?t = ts_tod_s k"
    "drop_bit 32 ?t = push_bit 16 (ts_tod_s k) OR drop_bit 16 (ts_tod_ns k)"
    unfolding l s m by blast+
  have low: "?t AND 0xffff = drop_bit 16 (ts_fns k)" unfolding t by (rule low_bits(1) [OF f])
  show ?thesis
    unfolding set_ts_tod_96_def set_ts_rel_64_def sink_get_ts_rel_64_def sink_get_ts_rel_def
      sink_get_ts_tod_96_def sink_get_ts_tod_def prod.case d low low_bits [OF f]
    by (simp add: set_ts_rel_def set_ts_tod_def)
qed

theorem packed_time_stamps_witness:
  "ts_tod_ns (set_ts_tod_96 (sink_get_ts_tod_96 ((sink_init 32)\<lparr>ts_tod_s := 1, ts_tod_ns := 0\<rparr>)) (src_init 6 0 0 0 32)) = 65536"
proof -
  have k: "clk_ok ((sink_init 32)\<lparr>ts_tod_s := 1, ts_tod_ns := 0\<rparr>)"
    "fits 48 (ts_tod_s ((sink_init 32)\<lparr>ts_tod_s := 1, ts_tod_ns := 0\<rparr>))"
    by (simp_all add: clk_ok_def fits_def sink_init_def)
  show ?thesis using packed_time_stamps [OF k, of "src_init 6 0 0 0 32"] by simp
qed

end
