(* ===== verification/ByteRuns.thy ===== *)
theory ByteRuns imports Prelude begin

text \<open>
  What the bus models share: bit fields of the signals that several segments have in common, byte
  enables turned into runs of consecutive bytes, and the byte store that takes the runs
  (locale \<open>byte_store\<close>).  The segmented RAM and the PCIe test device both write this way.
\<close>

section \<open>Bit fields\<close>

abbreviation ones :: "nat \<Rightarrow> int" where "ones n \<equiv> 2 ^ n - 1"

text \<open>\<open>x &= ~(mask << w*seg); x |= (v & mask) << w*seg\<close>.\<close>

definition set_field :: "nat \<Rightarrow> nat \<Rightarrow> int \<Rightarrow> int \<Rightarrow> int" where
  "set_field w seg v x =
     (x AND NOT (push_bit (w * seg) (ones w))) OR push_bit (w * seg) (v AND ones w)"

definition get_field :: "nat \<Rightarrow> nat \<Rightarrow> int \<Rightarrow> int" where
  "get_field w seg x = drop_bit (w * seg) x AND ones w"

definition seg_bit :: "int \<Rightarrow> nat \<Rightarrow> bool" where
  "seg_bit x seg \<longleftrightarrow> x AND push_bit seg 1 \<noteq> 0"

definition set_seg :: "nat \<Rightarrow> int \<Rightarrow> int" where "set_seg seg x = x OR push_bit seg 1"
definition clear_seg :: "nat \<Rightarrow> int \<Rightarrow> int" where "clear_seg seg x = x AND NOT (push_bit seg 1)"

lemma bit_ones: "bit (ones n) k \<longleftrightarrow> k < n"
  using bit_mask_iff [of n k, where ?'a = int] by (simp add: mask_eq_exp_minus_1)

lemma bit_set_field:
  "bit (set_field w seg v x) n \<longleftrightarrow>
     (if w * seg \<le> n \<and> n < w * seg + w then bit v (n - w * seg) else bit x n)"
  by (auto simp: set_field_def bit_simps bit_ones)

lemma bit_get_field: "bit (get_field w seg x) n \<longleftrightarrow> n < w \<and> bit x (w * seg + n)"
  by (auto simp: get_field_def bit_simps bit_ones)

lemma get_set_field: "get_field w seg (set_field w seg v x) = v AND ones w"
  by (rule bit_eqI) (auto simp: bit_get_field bit_set_field bit_simps bit_ones)

lemma field_disjoint:
  fixes w s t n :: nat
  assumes "s \<noteq> t" "n < w"
  shows "\<not> (w * s \<le> w * t + n \<and> w * t + n < w * s + w)"
proof
  assume a: "w * s \<le> w * t + n \<and> w * t + n < w * s + w"
  consider "s < t" | "t < s" using assms(1) by linarith
  then show False
  proof cases
    case 1
    then have "w * (s + 1) \<le> w * t" by (simp only: mult_le_mono2)
    then show False using a by simp
  next
    case 2
    then have "w * (t + 1) \<le> w * s" by (simp only: mult_le_mono2)
    then show False using a assms(2) by simp
  qed
qed

lemma get_set_field_other: "s \<noteq> seg \<Longrightarrow> get_field w s (set_field w seg v x) = get_field w s x"
  by (rule bit_eqI) (use field_disjoint [of seg s _ w] in \<open>auto simp: bit_get_field bit_set_field\<close>)

lemma seg_bit_iff: "seg_bit x seg \<longleftrightarrow> bit x seg"
proof -
  have "x AND push_bit seg 1 = push_bit seg (of_bool (bit x seg))"
    by (rule bit_eqI) (auto simp: bit_simps)
  then show ?thesis by (simp add: seg_bit_def)
qed

lemma bit_set_seg: "bit (set_seg seg x) n \<longleftrightarrow> n = seg \<or> bit x n"
  by (auto simp: set_seg_def bit_simps)

lemma bit_clear_seg: "bit (clear_seg seg x) n \<longleftrightarrow> n \<noteq> seg \<and> bit x n"
  by (auto simp: clear_seg_def bit_simps)

lemmas field_simps = get_set_field get_set_field_other seg_bit_iff bit_set_seg bit_clear_seg

section \<open>Byte enables as runs\<close>

text \<open>The loop that turns byte enables into runs; the state is the run's start and the list.\<close>

definition be_step :: "int \<Rightarrow> bytes \<Rightarrow> int \<Rightarrow> nat \<Rightarrow> nat option \<times> (int \<times> bytes) list \<Rightarrow> nat option \<times> (int \<times> bytes) list" where
  "be_step addr data be i = (\<lambda>(start, ops).
     if seg_bit be i then (case start of None \<Rightarrow> (Some i, ops) | Some s \<Rightarrow> (Some s, ops))
     else (case start of
         Some s \<Rightarrow> if i \<noteq> s then (None, ops @ [(addr + int s, py_slice s i data)]) else (None, ops)
       | None \<Rightarrow> (None, ops)))"

definition write_ops :: "nat \<Rightarrow> int \<Rightarrow> bytes \<Rightarrow> int \<Rightarrow> (int \<times> bytes) list" where
  "write_ops lanes addr data be =
     (let (start, ops) = fold (be_step addr data be) [0..<lanes] (None, []) in
      case start of
        Some s \<Rightarrow> if lanes \<noteq> s then ops @ [(addr + int s, py_slice s lanes data)] else ops
      | None \<Rightarrow> ops)"

section \<open>The byte store\<close>

text \<open>What the RAM relies on of its store: a write inside the size changes the bytes it names and
  nothing else, a read returns the bytes.\<close>

definition put_bytes :: "int \<Rightarrow> bytes \<Rightarrow> (int \<Rightarrow> int) \<Rightarrow> int \<Rightarrow> int" where
  "put_bytes a d f x = (if a \<le> x \<and> x < a + int (length d) then d ! nat (x - a) else f x)"

locale byte_store =
  fixes wr :: "int \<Rightarrow> bytes \<Rightarrow> 'm \<Rightarrow> 'm result"
    and rd :: "int \<Rightarrow> int \<Rightarrow> 'm \<Rightarrow> bytes result"
    and byt :: "'m \<Rightarrow> int \<Rightarrow> int"
    and size :: int
  assumes wr_ok: "0 \<le> a \<Longrightarrow> a + int (length d) \<le> size \<Longrightarrow> \<exists>m'. wr a d m = Inr m' \<and> byt m' = put_bytes a d (byt m)"
    and rd_ok: "0 \<le> a \<Longrightarrow> 0 \<le> n \<Longrightarrow> a + n \<le> size \<Longrightarrow>
      rd a n m = Inr (map (\<lambda>i. byt m (a + int i)) [0..<nat n])"
begin

lemma wr_all:
  assumes "\<And>a d. (a, d) \<in> set ops \<Longrightarrow> 0 \<le> a \<and> a + int (length d) \<le> size"
  shows "\<exists>m'. rfold (\<lambda>(a, d). wr a d) ops m = Inr m' \<and> byt m' = fold (\<lambda>(a, d). put_bytes a d) ops (byt m)"
  using assms
proof (induction ops arbitrary: m)
  case (Cons x ops)
  obtain a d where x: "x = (a, d)" by (cases x)
  obtain m1 where "wr a d m = Inr m1" "byt m1 = put_bytes a d (byt m)"
    using wr_ok Cons.prems x by (metis list.set_intros(1))
  then show ?case using Cons.IH [of m1] Cons.prems x by auto
qed simp

end

text \<open>The runs of enabled lanes write exactly the enabled bytes.\<close>

definition run_end :: "nat \<Rightarrow> nat option \<Rightarrow> nat" where
  "run_end n start = (case start of None \<Rightarrow> n | Some s \<Rightarrow> s)"

lemma py_slice_put:
  assumes "s \<le> e" "e \<le> length data"
  shows "put_bytes (addr + int s) (py_slice s e data) f x =
    (if addr + int s \<le> x \<and> x < addr + int e then data ! nat (x - addr) else f x)"
proof (cases "addr + int s \<le> x \<and> x < addr + int e")
  case True
  then have "nat (x - (addr + int s)) < e - s" "s + nat (x - (addr + int s)) = nat (x - addr)" by linarith+
  then show ?thesis using True assms by (simp add: put_bytes_def py_slice_def nth_append)
qed (use assms in \<open>auto simp: put_bytes_def py_slice_def\<close>)

definition enabled_bytes :: "int \<Rightarrow> bytes \<Rightarrow> int \<Rightarrow> nat \<Rightarrow> (int \<Rightarrow> int) \<Rightarrow> int \<Rightarrow> int" where
  "enabled_bytes addr data be n f x =
     (if addr \<le> x \<and> x < addr + int n \<and> bit be (nat (x - addr)) then data ! nat (x - addr) else f x)"

definition run_inv :: "int \<Rightarrow> bytes \<Rightarrow> int \<Rightarrow> nat \<Rightarrow> nat option \<times> (int \<times> bytes) list \<Rightarrow> bool" where
  "run_inv addr data be n = (\<lambda>(start, ops).
     (\<forall>s. start = Some s \<longrightarrow> s < n \<and> (\<forall>i. s \<le> i \<and> i < n \<longrightarrow> bit be i)) \<and>
     (\<forall>f. fold (\<lambda>(a, d). put_bytes a d) ops f = enabled_bytes addr data be (run_end n start) f) \<and>
     (\<forall>(a, d) \<in> set ops. addr \<le> a \<and> a + int (length d) \<le> addr + int (length data)))"

lemma close_run:
  assumes "\<And>i. bit be i \<Longrightarrow> i < length data" and "s < n" "\<forall>i. s \<le> i \<and> i < n \<longrightarrow> bit be i"
    and "\<And>f. fold (\<lambda>(a, d). put_bytes a d) ops f = enabled_bytes addr data be s f"
  shows "fold (\<lambda>(a, d). put_bytes a d) (ops @ [(addr + int s, py_slice s n data)]) f = enabled_bytes addr data be n f"
    and "n \<le> length data" "length (py_slice s n data) = n - s"
proof -
  have "bit be (n - 1)" using assms(2,3) by simp
  then show n: "n \<le> length data" using assms(1) [of "n - 1"] by simp
  then show "length (py_slice s n data) = n - s" using assms(2) by (simp add: py_slice_def)
  show "fold (\<lambda>(a, d). put_bytes a d) (ops @ [(addr + int s, py_slice s n data)]) f = enabled_bytes addr data be n f"
  proof
    fix x
    show "fold (\<lambda>(a, d). put_bytes a d) (ops @ [(addr + int s, py_slice s n data)]) f x = enabled_bytes addr data be n f x"
    proof (cases "addr + int s \<le> x \<and> x < addr + int n")
      case True
      then have "s \<le> nat (x - addr)" "nat (x - addr) < n" by linarith+
      then have "bit be (nat (x - addr))" using assms(3) by blast
      then show ?thesis using True assms(2,4) n by (simp add: py_slice_put enabled_bytes_def)
    next
      case False
      then have "put_bytes (addr + int s) (py_slice s n data) (enabled_bytes addr data be s f) x =
        enabled_bytes addr data be s f x"
        using assms(2) n by (simp only: py_slice_put if_False less_imp_le)
      moreover have "enabled_bytes addr data be s f x = enabled_bytes addr data be n f x"
        using False assms(2) by (auto simp: enabled_bytes_def)
      ultimately show ?thesis using assms(4) by simp
    qed
  qed
qed

lemma run_step:
  assumes "\<And>i. bit be i \<Longrightarrow> i < length data" "run_inv addr data be n st"
  shows "run_inv addr data be (Suc n) (be_step addr data be n st)"
proof -
  obtain start ops where st: "st = (start, ops)" by (cases st)
  note inv = assms(2) [unfolded run_inv_def st prod.case]
  have grow: "enabled_bytes addr data be (Suc n) f = enabled_bytes addr data be n f" if "\<not> bit be n" for f
  proof
    fix x
    show "enabled_bytes addr data be (Suc n) f x = enabled_bytes addr data be n f x"
    proof (cases "nat (x - addr) = n \<and> addr \<le> x")
      case False
      then show ?thesis by (auto simp: enabled_bytes_def)
    qed (use that in \<open>auto simp: enabled_bytes_def\<close>)
  qed
  show ?thesis
  proof (cases "bit be n")
    case True
    then show ?thesis
      using inv st by (cases start) (auto simp: run_inv_def be_step_def seg_bit_iff run_end_def less_Suc_eq)
  next
    case False
    show ?thesis
    proof (cases start)
      case None
      then show ?thesis using inv st False grow by (auto simp: run_inv_def be_step_def seg_bit_iff run_end_def)
    next
      case (Some s)
      have o: "\<And>f. fold (\<lambda>(a, d). put_bytes a d) ops f = enabled_bytes addr data be s f"
        using inv Some by (simp add: run_end_def)
      have sn: "s < n" "\<forall>i. s \<le> i \<and> i < n \<longrightarrow> bit be i" using inv Some by auto
      note cl = close_run [OF assms(1) sn o]
      have "be_step addr data be n st = (None, ops @ [(addr + int s, py_slice s n data)])"
        using Some st False sn by (simp add: be_step_def seg_bit_iff)
      then show ?thesis using inv cl grow [OF False] sn by (auto simp: run_inv_def run_end_def)
    qed
  qed
qed

lemma write_ops_effect:
  assumes "\<And>i. bit be i \<Longrightarrow> i < length data" "length data \<le> lanes"
  shows "fold (\<lambda>(a, d). put_bytes a d) (write_ops lanes addr data be) f = enabled_bytes addr data be (length data) f"
    and "\<And>a d. (a, d) \<in> set (write_ops lanes addr data be) \<Longrightarrow> addr \<le> a \<and> a + int (length d) \<le> addr + int (length data)"
proof -
  have "run_inv addr data be n (fold (be_step addr data be) [0..<n] (None, []))" for n
  proof (induction n)
    case 0
    then show ?case by (auto simp: run_inv_def run_end_def enabled_bytes_def)
  qed (use run_step [OF assms(1)] in simp)
  then obtain start ops where r: "fold (be_step addr data be) [0..<lanes] (None, []) = (start, ops)"
    and inv: "run_inv addr data be lanes (start, ops)" by (metis surj_pair)
  note i = inv [unfolded run_inv_def prod.case]
  have all: "enabled_bytes addr data be lanes f = enabled_bytes addr data be (length data) f" for f
  proof
    fix x
    show "enabled_bytes addr data be lanes f x = enabled_bytes addr data be (length data) f x"
      using assms(1) [of "nat (x - addr)"] assms(2) by (auto simp: enabled_bytes_def)
  qed
  have "fold (\<lambda>(a, d). put_bytes a d) (write_ops lanes addr data be) f = enabled_bytes addr data be lanes f \<and>
    (\<forall>(a, d) \<in> set (write_ops lanes addr data be). addr \<le> a \<and> a + int (length d) \<le> addr + int (length data))" for f
  proof (cases start)
    case None
    then show ?thesis using i r by (auto simp: write_ops_def run_end_def)
  next
    case (Some s)
    have o: "\<And>f. fold (\<lambda>(a, d). put_bytes a d) ops f = enabled_bytes addr data be s f"
      using i Some by (simp add: run_end_def)
    have sn: "s < lanes" "\<forall>i. s \<le> i \<and> i < lanes \<longrightarrow> bit be i" using i Some by auto
    note cl = close_run [OF assms(1) sn o]
    have "write_ops lanes addr data be = ops @ [(addr + int s, py_slice s lanes data)]"
      using r Some sn by (simp add: write_ops_def)
    then show ?thesis using i cl sn by auto
  qed
  then show "fold (\<lambda>(a, d). put_bytes a d) (write_ops lanes addr data be) f = enabled_bytes addr data be (length data) f"
    and "\<And>a d. (a, d) \<in> set (write_ops lanes addr data be) \<Longrightarrow> addr \<le> a \<and> a + int (length d) \<le> addr + int (length data)"
    using all by auto
qed

end
