(* ===== verification/PsdpRam.thy ===== *)
theory PsdpRam imports ByteRuns begin

text \<open>
  The parallel simple dual-port RAM model of the DMA tests (\<open>src/dma/tb/dma_psdp_ram.py\<close>):
  masters that cut transfers into segment operations, the segment bus with a valid and a ready bit
  per segment, and the RAM that carries the operations out.  Coroutines are step functions; a
  \<open>Queue\<close> without a bound is a list.  The byte store under the RAM
  (\<open>cocotbext.axi.memory.Memory\<close>) is a parameter.
\<close>

section \<open>Configuration\<close>

record psdp_cfg =
  byte_lanes :: nat
  seg_count :: nat
  seg_data_width :: nat
  seg_byte_lanes :: nat
  seg_addr_width :: nat
  seg_be_width :: nat

text \<open>The constructors derive it from the widths of the bus signals; the read side takes the byte
  lanes from the data width.\<close>

definition write_cfg :: "nat \<Rightarrow> nat \<Rightarrow> nat \<Rightarrow> nat \<Rightarrow> psdp_cfg result" where
  "write_cfg data_len be_len valid_len addr_len =
     (if valid_len = 0 then Inl (Raised ''ZeroDivisionError'')
      else let dw = data_len div valid_len; be = dw div 8 in
        if be * valid_len = be_len
        then Inr \<lparr>byte_lanes = be_len, seg_count = valid_len, seg_data_width = dw, seg_byte_lanes = be,
                  seg_addr_width = addr_len div valid_len, seg_be_width = be\<rparr>
        else Inl AssertionError)"

definition read_cfg :: "nat \<Rightarrow> nat \<Rightarrow> nat \<Rightarrow> psdp_cfg result" where
  "read_cfg data_len valid_len addr_len =
     (if valid_len = 0 then Inl (Raised ''ZeroDivisionError'')
      else let dw = data_len div valid_len in
        Inr \<lparr>byte_lanes = data_len div 8, seg_count = valid_len, seg_data_width = dw,
             seg_byte_lanes = dw div 8, seg_addr_width = addr_len div valid_len, seg_be_width = dw div 8\<rparr>)"

definition address_width :: "psdp_cfg \<Rightarrow> nat" where
  "address_width c = seg_addr_width c + bit_length (seg_byte_lanes c * seg_count c - 1)"

section \<open>Write master\<close>

record seg_write =
  w_addr :: int
  w_data :: int
  w_be :: int

text \<open>A command with the number of its event; a response command adds the segments.\<close>

record write_cmd =
  wc_address :: nat
  wc_data :: bytes
  wc_event :: nat

record resp_cmd =
  rc_address :: nat
  rc_length :: nat
  rc_segments :: nat
  rc_first_seg :: nat
  rc_event :: nat

record write_master =
  in_flight :: nat
  idle_event :: bool
  write_command_queue :: "write_cmd list"
  seg_write_queue :: "seg_write list list"
  seg_write_resp_queue :: "nat list"
  write_resp_command_queue :: "resp_cmd list"
  current_write_resp :: "(resp_cmd \<times> nat \<times> nat) option"
  write_events :: "(nat \<times> nat \<times> nat) list"
  wm_pause :: bool

definition write_request :: "psdp_cfg \<Rightarrow> int \<Rightarrow> bytes \<Rightarrow> nat \<Rightarrow> write_master \<Rightarrow> write_master result" where
  "write_request c address data ev m =
     (if address < 0 \<or> address \<ge> 2 ^ address_width c then Inl ValueError
      else if address + int (length data) > 2 ^ address_width c then Inl ValueError
      else Inr (m\<lparr>in_flight := in_flight m + 1, idle_event := False,
                  write_command_queue := write_command_queue m @
                    [\<lparr>wc_address = nat address, wc_data = data, wc_event = ev\<rparr>]\<rparr>))"

definition start_offset :: "psdp_cfg \<Rightarrow> nat \<Rightarrow> nat" where
  "start_offset c address = address mod seg_byte_lanes c"

definition end_offset :: "psdp_cfg \<Rightarrow> nat \<Rightarrow> nat \<Rightarrow> nat" where
  "end_offset c address len = nat ((int address + int len - 1) mod int (seg_byte_lanes c)) + 1"

definition first_seg :: "psdp_cfg \<Rightarrow> nat \<Rightarrow> nat" where
  "first_seg c address = address div seg_byte_lanes c mod seg_count c"

definition segments :: "psdp_cfg \<Rightarrow> nat \<Rightarrow> nat \<Rightarrow> nat" where
  "segments c address len =
     (len + address mod seg_byte_lanes c + seg_byte_lanes c - 1) div seg_byte_lanes c"

text \<open>The bytes of one segment operation and the offset reached in the data.\<close>

definition seg_value :: "bytes \<Rightarrow> nat \<Rightarrow> nat \<Rightarrow> nat \<Rightarrow> (int \<times> nat) result" where
  "seg_value data start stop offset =
     rfold (\<lambda>j (v, off). rbind (py_get data (int off)) (\<lambda>b. Inr (v OR push_bit (j * 8) b, off + 1)))
       [start..<stop] (0, offset)"

definition write_segment :: "psdp_cfg \<Rightarrow> nat \<Rightarrow> bytes \<Rightarrow> nat \<Rightarrow> nat \<Rightarrow> (seg_write \<times> nat) result" where
  "write_segment c address data k offset =
     (let n = segments c address (length data);
          so = start_offset c address; eo = end_offset c address (length data);
          be_start = push_bit so (ones (seg_be_width c)) AND ones (seg_be_width c);
          be_end = drop_bit (seg_byte_lanes c - eo) (ones (seg_be_width c));
          start = (if k = 0 then so else 0);
          stop = (if k = n - 1 then eo else seg_byte_lanes c);
          be0 = ones (seg_be_width c);
          be1 = (if k = 0 then be0 AND be_start else be0);
          be2 = (if k = n - 1 then be1 AND be_end else be1)
      in rbind (seg_value data start stop offset) (\<lambda>(v, off).
         Inr (\<lparr>w_addr = int ((address + k * seg_byte_lanes c) div byte_lanes c), w_data = v, w_be = be2\<rparr>, off)))"

definition write_segments :: "psdp_cfg \<Rightarrow> nat \<Rightarrow> bytes \<Rightarrow> (nat \<times> seg_write) list result" where
  "write_segments c address data =
     rbind (rfold (\<lambda>k (ops, offset, seg).
         rbind (write_segment c address data k offset) (\<lambda>(op, off).
         Inr (ops @ [(seg, op)], off, (seg + 1) mod seg_count c)))
       [0..<segments c address (length data)] ([], 0, first_seg c address))
     (\<lambda>(ops, _, _). Inr ops)"

definition put_seg :: "nat \<times> 'a \<Rightarrow> 'a list list \<Rightarrow> 'a list list" where
  "put_seg = (\<lambda>(seg, op) qs. qs[seg := qs ! seg @ [op]])"

text \<open>One turn of \<open>_process_write\<close>; with an empty queue it waits.\<close>

definition process_write :: "psdp_cfg \<Rightarrow> write_master \<Rightarrow> write_master result" where
  "process_write c m =
     (case write_command_queue m of
        [] \<Rightarrow> Inr m
      | cmd # rest \<Rightarrow>
          let len = length (wc_data cmd);
              rc = \<lparr>rc_address = wc_address cmd, rc_length = len,
                    rc_segments = segments c (wc_address cmd) len,
                    rc_first_seg = first_seg c (wc_address cmd), rc_event = wc_event cmd\<rparr>
          in rbind (write_segments c (wc_address cmd) (wc_data cmd)) (\<lambda>ops.
             Inr (m\<lparr>write_command_queue := rest,
                    write_resp_command_queue := write_resp_command_queue m @ [rc],
                    seg_write_queue := fold put_seg ops (seg_write_queue m)\<rparr>)))"

text \<open>\<open>_process_write_resp\<close>, one step at a time: take a command, take one response from
  the segment it is at, or complete it.\<close>

definition process_write_resp :: "psdp_cfg \<Rightarrow> write_master \<Rightarrow> write_master" where
  "process_write_resp c m =
     (case current_write_resp m of
        None \<Rightarrow> (case write_resp_command_queue m of
            [] \<Rightarrow> m
          | rc # rest \<Rightarrow> m\<lparr>write_resp_command_queue := rest,
                            current_write_resp := Some (rc, 0, rc_first_seg rc)\<rparr>)
      | Some (rc, k, seg) \<Rightarrow>
          if k < rc_segments rc then
            if 0 < seg_write_resp_queue m ! seg
            then m\<lparr>seg_write_resp_queue := (seg_write_resp_queue m)[seg := seg_write_resp_queue m ! seg - 1],
                    current_write_resp := Some (rc, k + 1, (seg + 1) mod seg_count c)\<rparr>
            else m
          else m\<lparr>current_write_resp := None,
                 write_events := write_events m @ [(rc_event rc, rc_address rc, rc_length rc)],
                 in_flight := in_flight m - 1,
                 idle_event := (if in_flight m - 1 = 0 then True else idle_event m)\<rparr>)"

section \<open>The write side of the bus\<close>

record write_bus =
  cmd_valid :: int
  cmd_addr :: int
  cmd_data :: int
  cmd_be :: int

definition master_write_seg ::
  "psdp_cfg \<Rightarrow> int \<Rightarrow> int \<Rightarrow> nat \<Rightarrow> write_master \<times> write_bus \<Rightarrow> write_master \<times> write_bus" where
  "master_write_seg c ready done seg = (\<lambda>(m, b).
     let (m1, b1) =
       (if seg_bit ready seg \<or> \<not> seg_bit (cmd_valid b) seg
        then (case seg_write_queue m ! seg of
            op # rest \<Rightarrow>
              if \<not> wm_pause m
              then (m\<lparr>seg_write_queue := (seg_write_queue m)[seg := rest]\<rparr>,
                    \<lparr>cmd_valid = set_seg seg (cmd_valid b),
                     cmd_addr = set_field (seg_addr_width c) seg (w_addr op) (cmd_addr b),
                     cmd_data = set_field (seg_data_width c) seg (w_data op) (cmd_data b),
                     cmd_be = set_field (seg_be_width c) seg (w_be op) (cmd_be b)\<rparr>)
              else (m, b\<lparr>cmd_valid := clear_seg seg (cmd_valid b)\<rparr>)
          | [] \<Rightarrow> (m, b\<lparr>cmd_valid := clear_seg seg (cmd_valid b)\<rparr>))
        else (m, b))
     in (if seg_bit done seg
         then m1\<lparr>seg_write_resp_queue := (seg_write_resp_queue m1)[seg := seg_write_resp_queue m1 ! seg + 1]\<rparr>
         else m1, b1))"

text \<open>One clock cycle; in reset only the valid signal is driven low (the local variable keeps its
  value, see \<open>write_bus\<close> against the driven value in the second component).\<close>

definition master_write_cycle ::
  "psdp_cfg \<Rightarrow> bool \<Rightarrow> int \<Rightarrow> int \<Rightarrow> write_master \<times> write_bus \<times> write_bus \<Rightarrow> write_master \<times> write_bus \<times> write_bus" where
  "master_write_cycle c reset ready done = (\<lambda>(m, loc, bus).
     if reset then (m, loc, bus\<lparr>cmd_valid := 0\<rparr>)
     else let (m1, loc1) = fold (master_write_seg c ready done) [0..<seg_count c] (m, loc)
          in (m1, loc1, loc1))"

section \<open>The RAM, write side\<close>

definition ram_write_seg ::
  "psdp_cfg \<Rightarrow> (int \<Rightarrow> bytes \<Rightarrow> 'm \<Rightarrow> 'm result) \<Rightarrow> int \<Rightarrow> write_bus \<Rightarrow> nat \<Rightarrow> int \<times> 'm \<Rightarrow> (int \<times> 'm) result" where
  "ram_write_seg c wr ready bus seg = (\<lambda>(done, mem).
     if ready AND cmd_valid bus AND push_bit seg 1 \<noteq> 0
     then
       let seg_addr = get_field (seg_addr_width c) seg (cmd_addr bus);
           seg_data = get_field (seg_data_width c) seg (cmd_data bus);
           seg_be = get_field (seg_be_width c) seg (cmd_be bus);
           addr = (seg_addr * int (seg_count c) + int seg) * int (seg_byte_lanes c);
           data = le_bytes (seg_byte_lanes c) seg_data
       in rbind (rfold (\<lambda>(a, d). wr a d) (write_ops (byte_lanes c) addr data seg_be) mem) (\<lambda>mem1.
          Inr (set_seg seg done, mem1))
     else Inr (done, mem))"

text \<open>One cycle of the RAM: its local ready mask, the driven ready and done, and the store; in
  reset the local mask is kept.\<close>

record ram_write =
  rw_ready :: int
  rw_ready_bus :: int
  rw_done_bus :: int
  rw_pause :: bool

definition ram_write_cycle ::
  "psdp_cfg \<Rightarrow> (int \<Rightarrow> bytes \<Rightarrow> 'm \<Rightarrow> 'm result) \<Rightarrow> bool \<Rightarrow> write_bus \<Rightarrow> ram_write \<times> 'm \<Rightarrow> (ram_write \<times> 'm) result" where
  "ram_write_cycle c wr reset bus = (\<lambda>(r, mem).
     if reset then Inr (r\<lparr>rw_ready_bus := 0, rw_done_bus := 0\<rparr>, mem)
     else rbind (rfold (ram_write_seg c wr (rw_ready r) bus) [0..<seg_count c] (0, mem)) (\<lambda>(done, mem1).
          let ready = (if rw_pause r then 0 else 2 ^ seg_count c - 1)
          in Inr (r\<lparr>rw_ready := ready, rw_ready_bus := ready, rw_done_bus := done\<rparr>, mem1)))"


section \<open>Cutting a transfer\<close>

definition cfg_ok :: "psdp_cfg \<Rightarrow> bool" where
  "cfg_ok c \<longleftrightarrow> 0 < seg_byte_lanes c \<and> 0 < seg_count c \<and> byte_lanes c = seg_byte_lanes c * seg_count c \<and>
     seg_data_width c = 8 * seg_byte_lanes c \<and> seg_be_width c = seg_byte_lanes c \<and>
     (\<exists>e. byte_lanes c = 2 ^ e)"

text \<open>The bytes that an operation value carries.\<close>

lemma seg_value_bits:
  assumes "is_bytes data" "offset + (stop - start) \<le> length data" "start \<le> stop"
  shows "\<exists>v. seg_value data start stop offset = Inr (v, offset + (stop - start)) \<and>
    (\<forall>n. bit v n \<longleftrightarrow> start \<le> n div 8 \<and> n div 8 < stop \<and> bit (data ! (offset + (n div 8 - start))) (n mod 8))"
  using assms(2,3)
proof (induction "stop - start" arbitrary: stop)
  case 0
  then show ?case by (auto simp: seg_value_def)
next
  case (Suc d)
  then obtain j where j: "stop = Suc j" "start \<le> j" "d = j - start" by (cases stop) auto
  have "offset + (j - start) \<le> length data" using Suc.prems j by linarith
  then obtain v where v: "seg_value data start j offset = Inr (v, offset + (j - start))"
    "\<forall>n. bit v n \<longleftrightarrow> start \<le> n div 8 \<and> n div 8 < j \<and> bit (data ! (offset + (n div 8 - start))) (n mod 8)"
    using Suc.hyps(1) [of j] j by auto
  let ?b = "data ! (offset + (j - start))"
  have lt: "offset + (j - start) < length data" using Suc.prems j by simp
  then have b: "py_get data (int (offset + (j - start))) = Inr ?b" by (rule py_get_nat)
  have small: "bit ?b n \<Longrightarrow> n < 8" for n
  proof -
    have "take_bit 8 ?b = ?b" using is_bytes_nth [OF assms(1) lt] by (simp add: take_bit_int_eq_self)
    then show "bit ?b n \<Longrightarrow> n < 8" by (metis bit_take_bit_iff)
  qed
  have "seg_value data start stop offset = Inr (v OR push_bit (j * 8) ?b, offset + (stop - start))"
    using v(1) b j by (simp add: seg_value_def rfold_append Suc_diff_le)
  moreover have "bit (v OR push_bit (j * 8) ?b) n \<longleftrightarrow>
      start \<le> n div 8 \<and> n div 8 < stop \<and> bit (data ! (offset + (n div 8 - start))) (n mod 8)" for n
  proof (cases "n div 8 = j")
    case True
    then have "n = j * 8 + n mod 8" by (metis div_mult_mod_eq)
    then have "j * 8 \<le> n" "n - j * 8 = n mod 8" by linarith+
    then show ?thesis using True v(2) j by (auto simp: bit_simps)
  next
    case False
    have "\<not> (j * 8 \<le> n \<and> bit ?b (n - j * 8))"
    proof
      assume a: "j * 8 \<le> n \<and> bit ?b (n - j * 8)"
      then have "n - j * 8 < 8" using small by blast
      then have "n < j * 8 + 8" using a by linarith
      then have "n div 8 = j" using a by (simp add: div_nat_eqI mult.commute)
      with False show False by simp
    qed
    then show ?thesis using False v(2) j by (auto simp: bit_simps less_Suc_eq)
  qed
  ultimately show ?case by blast
qed

text \<open>Segment \<open>k\<close> of a transfer starts at this byte of the address space.\<close>

definition seg_start :: "psdp_cfg \<Rightarrow> nat \<Rightarrow> nat \<Rightarrow> nat" where
  "seg_start c address k = (address div seg_byte_lanes c + k) * seg_byte_lanes c"

lemma transfer_layout:
  assumes "0 < seg_byte_lanes c" "k < segments c address len"
  shows "start_offset c address < seg_byte_lanes c"
    and "address = seg_start c address 0 + start_offset c address"
    and "seg_start c address k = seg_start c address 0 + k * seg_byte_lanes c"
    and "k \<noteq> segments c address len - 1 \<Longrightarrow> seg_start c address k + seg_byte_lanes c < address + len + 1"
    and "k = segments c address len - 1 \<Longrightarrow> address + len = seg_start c address k + end_offset c address len"
    and "end_offset c address len \<le> seg_byte_lanes c"
    and "k = 0 \<or> seg_start c address k < address + len"
proof -
  let ?L = "seg_byte_lanes c" and ?n = "segments c address len"
  define q r where "q = address div ?L" and "r = address mod ?L"
  have a: "address = q * ?L + r" "r < ?L" using assms(1) by (simp_all add: q_def r_def)
  show "start_offset c address < ?L" using assms(1) by (simp add: start_offset_def)
  show "address = seg_start c address 0 + start_offset c address"
    by (simp add: seg_start_def start_offset_def)
  show s: "seg_start c address k = seg_start c address 0 + k * ?L"
    by (simp add: seg_start_def algebra_simps)
  have n: "?n = (len + r + ?L - 1) div ?L" by (simp add: segments_def r_def)
  have s0: "seg_start c address 0 = q * ?L" by (simp add: seg_start_def q_def)
  define u where "u = len + r"
  have un: "?n * ?L \<le> u + ?L - 1" "u + ?L - 1 < ?n * ?L + ?L"
    unfolding n u_def using assms(1) div_mult_mod_eq [of "len + r + ?L - 1" ?L] mod_less_divisor [OF assms(1), of "len + r + ?L - 1"]
    by linarith+
  have pos: "1 \<le> u"
  proof (rule ccontr)
    assume "\<not> 1 \<le> u"
    then have "len + r = 0" by (simp add: u_def)
    then have "?n = (?L - 1) div ?L" unfolding n by simp
    then show False using assms by simp
  qed
  have kL: "(k + 1) * ?L \<le> ?n * ?L" using assms(2) by (intro mult_le_mono1) simp
  then have "k * ?L + ?L \<le> ?n * ?L" by (simp add: add_mult_distrib)
  then have kl: "k * ?L < u" using un(1) assms(1) pos by linarith
  show "seg_start c address k + ?L < address + len + 1" if "k \<noteq> ?n - 1"
  proof -
    have "(k + 2) * ?L \<le> ?n * ?L" using assms(2) that by (intro mult_le_mono1) linarith
    then have "k * ?L + 2 * ?L \<le> ?n * ?L" by (simp only: add_mult_distrib)
    then show ?thesis using un(1) a(1) s0 assms(1) unfolding s u_def by linarith
  qed
  have e: "int address + int len - 1 = int q * int ?L + int (u - 1)"
    using a pos by (simp add: u_def of_nat_diff)
  have eo: "end_offset c address len = (u - 1) mod ?L + 1"
    unfolding end_offset_def e using assms(1) by (simp add: nat_mod_distrib zmod_int [symmetric])
  then show "end_offset c address len \<le> ?L" using assms(1) mod_less_divisor [OF assms(1), of "u - 1"] by simp
  show "address + len = seg_start c address k + end_offset c address len" if "k = ?n - 1"
  proof -
    have "?n = Suc k" using that assms(2) by simp
    then have "(u - 1) div ?L = k"
      using un pos kl by (intro div_nat_eqI) (simp_all add: algebra_simps)
    then have "u - 1 = k * ?L + (u - 1) mod ?L" by (metis div_mult_mod_eq)
    then show ?thesis using eo pos a(1) s0 unfolding s u_def by linarith
  qed
  show "k = 0 \<or> seg_start c address k < address + len"
    using kl a(1) s0 unfolding s u_def by linarith
qed


text \<open>The offset in the data, the first and the last lane of segment \<open>k\<close>.\<close>

definition lane_start :: "psdp_cfg \<Rightarrow> nat \<Rightarrow> nat \<Rightarrow> nat" where
  "lane_start c address k = (if k = 0 then start_offset c address else 0)"

definition lane_stop :: "psdp_cfg \<Rightarrow> nat \<Rightarrow> nat \<Rightarrow> nat \<Rightarrow> nat" where
  "lane_stop c address len k =
     (if k = segments c address len - 1 then end_offset c address len else seg_byte_lanes c)"

definition data_offset :: "psdp_cfg \<Rightarrow> nat \<Rightarrow> nat \<Rightarrow> nat" where
  "data_offset c address k = seg_start c address k + lane_start c address k - address"

lemma lanes:
  assumes "0 < seg_byte_lanes c" "k < segments c address len"
  shows "lane_start c address k \<le> lane_stop c address len k" "lane_stop c address len k \<le> seg_byte_lanes c"
    "address + data_offset c address k = seg_start c address k + lane_start c address k"
    "data_offset c address k + (lane_stop c address len k - lane_start c address k) \<le> len"
    "k = segments c address len - 1 \<Longrightarrow>
      data_offset c address k + (lane_stop c address len k - lane_start c address k) = len"
    "k \<noteq> segments c address len - 1 \<Longrightarrow>
      data_offset c address k + (lane_stop c address len k - lane_start c address k) = data_offset c address (Suc k)"
proof -
  note t = transfer_layout [OF assms]
  have k1: "k = 0 \<or> address \<le> seg_start c address k"
    using t(1-3) assms(1) by (cases k) (simp_all add: algebra_simps)
  show o: "address + data_offset c address k = seg_start c address k + lane_start c address k"
    using k1 t(2) by (auto simp: data_offset_def lane_start_def)
  show se: "lane_start c address k \<le> lane_stop c address len k"
    using t by (auto simp: lane_start_def lane_stop_def)
  show "lane_stop c address len k \<le> seg_byte_lanes c" using t(6) by (simp add: lane_stop_def)
  show "data_offset c address k + (lane_stop c address len k - lane_start c address k) \<le> len"
    using o se t(4,5) by (auto simp: lane_stop_def split: if_splits)
  show "k = segments c address len - 1 \<Longrightarrow>
      data_offset c address k + (lane_stop c address len k - lane_start c address k) = len"
    using o se t(5) by (auto simp: lane_stop_def)
  show "k \<noteq> segments c address len - 1 \<Longrightarrow>
      data_offset c address k + (lane_stop c address len k - lane_start c address k) = data_offset c address (Suc k)"
  proof -
    assume "k \<noteq> segments c address len - 1"
    moreover have "seg_start c address (Suc k) = seg_start c address k + seg_byte_lanes c"
      by (simp add: seg_start_def algebra_simps)
    ultimately show ?thesis
      using o se by (auto simp: lane_stop_def data_offset_def lane_start_def)
  qed
qed

text \<open>What an operation carries: the lanes it enables and their bytes.\<close>

definition op_of_segment :: "psdp_cfg \<Rightarrow> nat \<Rightarrow> bytes \<Rightarrow> nat \<Rightarrow> seg_write \<Rightarrow> bool" where
  "op_of_segment c address data k op \<longleftrightarrow>
     w_addr op = int ((address div seg_byte_lanes c + k) div seg_count c) \<and>
     (\<forall>i. bit (w_be op) i \<longleftrightarrow> lane_start c address k \<le> i \<and> i < lane_stop c address (length data) k) \<and>
     (\<forall>n. bit (w_data op) n \<longleftrightarrow> lane_start c address k \<le> n div 8 \<and>
        n div 8 < lane_stop c address (length data) k \<and>
        bit (data ! (data_offset c address k + (n div 8 - lane_start c address k))) (n mod 8))"

lemma write_segment_ok:
  assumes "cfg_ok c" "is_bytes data" "k < segments c address (length data)"
  shows "\<exists>op. write_segment c address data k (data_offset c address k) =
      Inr (op, data_offset c address k + (lane_stop c address (length data) k - lane_start c address k)) \<and>
    op_of_segment c address data k op"
proof -
  let ?L = "seg_byte_lanes c" and ?n = "segments c address (length data)"
  let ?so = "start_offset c address" and ?eo = "end_offset c address (length data)"
  have L: "0 < ?L" "seg_be_width c = ?L" "byte_lanes c = ?L * seg_count c" using assms(1) by (simp_all add: cfg_ok_def)
  note l = lanes [OF L(1) assms(3)] and t = transfer_layout [OF L(1) assms(3)]
  obtain v where v: "seg_value data (lane_start c address k) (lane_stop c address (length data) k)
      (data_offset c address k) = Inr (v, data_offset c address k + (lane_stop c address (length data) k - lane_start c address k))"
    "\<forall>n. bit v n \<longleftrightarrow> lane_start c address k \<le> n div 8 \<and> n div 8 < lane_stop c address (length data) k \<and>
        bit (data ! (data_offset c address k + (n div 8 - lane_start c address k))) (n mod 8)"
    using seg_value_bits [OF assms(2) l(4,1)] by blast
  let ?be1 = "if k = 0 then ones ?L AND (push_bit ?so (ones ?L) AND ones ?L) else ones ?L"
  let ?be2 = "if k = ?n - 1 then ?be1 AND drop_bit (?L - ?eo) (ones ?L) else ?be1"
  have be: "bit ?be2 i \<longleftrightarrow> lane_start c address k \<le> i \<and> i < lane_stop c address (length data) k" for i
    using t(6) by (auto simp: bit_simps bit_ones lane_start_def lane_stop_def)
  have addr: "(address + k * ?L) div byte_lanes c = (address div ?L + k) div seg_count c"
    using L by (simp add: div_mult2_eq add.commute)
  have "write_segment c address data k (data_offset c address k) =
    Inr (\<lparr>w_addr = int ((address div ?L + k) div seg_count c), w_data = v, w_be = ?be2\<rparr>,
      data_offset c address k + (lane_stop c address (length data) k - lane_start c address k))"
    using v(1) unfolding write_segment_def Let_def L(2) addr lane_start_def lane_stop_def by simp
  then show ?thesis using v(2) be by (simp add: op_of_segment_def)
qed

text \<open>All the operations of a transfer, with their segments in rotation.\<close>

lemma write_segments_ok:
  assumes "cfg_ok c" "is_bytes data"
  shows "\<exists>ops. write_segments c address data = Inr ops \<and> length ops = segments c address (length data) \<and>
    (\<forall>k < length ops. fst (ops ! k) = (address div seg_byte_lanes c + k) mod seg_count c \<and>
       op_of_segment c address data k (snd (ops ! k)))"
proof -
  let ?n = "segments c address (length data)" and ?S = "seg_count c"
  let ?f = "\<lambda>k (ops, offset, seg). rbind (write_segment c address data k offset) (\<lambda>(op, off).
         Inr (ops @ [(seg, op)], off, (seg + 1) mod ?S))"
  have "\<exists>ops off. rfold ?f [0..<m] ([], 0, first_seg c address) =
      Inr (ops, off, (address div seg_byte_lanes c + m) mod ?S) \<and> length ops = m \<and>
      (m < ?n \<longrightarrow> off = data_offset c address m) \<and>
      (\<forall>k < m. fst (ops ! k) = (address div seg_byte_lanes c + k) mod ?S \<and>
         op_of_segment c address data k (snd (ops ! k)))" if "m \<le> ?n" for m
    using that
  proof (induction m)
    case 0
    have "data_offset c address 0 = 0"
      by (simp add: data_offset_def lane_start_def seg_start_def start_offset_def)
    then show ?case by (simp add: first_seg_def)
  next
    case (Suc m)
    then obtain ops where ih: "rfold ?f [0..<m] ([], 0, first_seg c address) =
      Inr (ops, data_offset c address m, (address div seg_byte_lanes c + m) mod ?S)" "length ops = m"
      "\<forall>k < m. fst (ops ! k) = (address div seg_byte_lanes c + k) mod ?S \<and>
         op_of_segment c address data k (snd (ops ! k))" by auto
    have L: "0 < seg_byte_lanes c" using assms(1) by (simp add: cfg_ok_def)
    have m: "m < ?n" using Suc.prems by simp
    obtain op where op: "write_segment c address data m (data_offset c address m) =
      Inr (op, data_offset c address m + (lane_stop c address (length data) m - lane_start c address m))"
      "op_of_segment c address data m op" using write_segment_ok [OF assms m] by blast
    have "Suc m < ?n \<Longrightarrow> data_offset c address m + (lane_stop c address (length data) m - lane_start c address m) =
      data_offset c address (Suc m)" using lanes(6) [OF L m] by simp
    then show ?case
      using ih op by (auto simp: rfold_append nth_append less_Suc_eq mod_Suc_eq)
  qed
  from this [of ?n] show ?thesis by (auto simp: write_segments_def)
qed


section \<open>What operations do to a byte store\<close>

definition op_base :: "psdp_cfg \<Rightarrow> nat \<Rightarrow> seg_write \<Rightarrow> int" where
  "op_base c seg op = (w_addr op * int (seg_count c) + int seg) * int (seg_byte_lanes c)"

definition apply_op :: "psdp_cfg \<Rightarrow> nat \<times> seg_write \<Rightarrow> (int \<Rightarrow> int) \<Rightarrow> int \<Rightarrow> int" where
  "apply_op c = (\<lambda>(seg, op) f x.
     let i = x - op_base c seg op in
     if 0 \<le> i \<and> i < int (seg_byte_lanes c) \<and> bit (w_be op) (nat i)
     then take_bit 8 (drop_bit (8 * nat i) (w_data op)) else f x)"

definition apply_write :: "nat \<Rightarrow> bytes \<Rightarrow> (int \<Rightarrow> int) \<Rightarrow> int \<Rightarrow> int" where
  "apply_write address data f x =
     (if int address \<le> x \<and> x < int address + int (length data) then data ! nat (x - int address) else f x)"

lemma lane_byte:
  assumes "\<forall>n. bit v n \<longleftrightarrow> a \<le> n div 8 \<and> n div 8 < b \<and> bit (data ! (off + (n div 8 - a))) (n mod 8)"
    and "a \<le> i" "i < b" "is_bytes data" "off + (i - a) < length data"
  shows "take_bit 8 (drop_bit (8 * i) v) = data ! (off + (i - a))"
proof -
  have "take_bit 8 (drop_bit (8 * i) v) = take_bit 8 (data ! (off + (i - a)))"
    by (rule bit_eqI) (use assms in \<open>auto simp: bit_simps\<close>)
  then show ?thesis using is_bytes_nth [OF assms(4,5)] by (simp add: take_bit_int_eq_self)
qed

lemma apply_segment:
  assumes c: "cfg_ok c" and d: "is_bytes data" and k: "k < segments c address (length data)"
    and seg: "seg = (address div seg_byte_lanes c + k) mod seg_count c" and op: "op_of_segment c address data k op"
  shows "apply_op c (seg, op) f x =
    (if int (seg_start c address k + lane_start c address k) \<le> x \<and>
        x < int (seg_start c address k + lane_stop c address (length data) k)
     then data ! nat (x - int address) else f x)"
proof -
  let ?L = "seg_byte_lanes c" and ?a = "lane_start c address k" and ?b = "lane_stop c address (length data) k"
  have L: "0 < ?L" using c by (simp add: cfg_ok_def)
  note l = lanes [OF L k]
  have "int ((address div ?L + k) div seg_count c) * int (seg_count c) + int seg = int (address div ?L + k)"
    unfolding seg by (metis div_mult_mod_eq of_nat_add of_nat_mult)
  then have base: "op_base c seg op = int (seg_start c address k)"
    using op by (simp add: op_base_def op_of_segment_def seg_start_def)
  show ?thesis
  proof (cases "int (seg_start c address k + ?a) \<le> x \<and> x < int (seg_start c address k + ?b)")
    case True
    define i where "i = nat (x - int (seg_start c address k))"
    have i: "x = int (seg_start c address k) + int i" "?a \<le> i" "i < ?b" using True by (auto simp: i_def)
    have "data_offset c address k + (i - ?a) < length data" using l(4) i by linarith
    then have "take_bit 8 (drop_bit (8 * i) (w_data op)) = data ! (data_offset c address k + (i - ?a))"
      using lane_byte [OF _ i(2,3) d] op by (simp add: op_of_segment_def)
    moreover have "nat (x - int address) = data_offset c address k + (i - ?a)"
      using i l(3) by linarith
    moreover have "bit (w_be op) i" using op i by (simp add: op_of_segment_def)
    ultimately show ?thesis using True i l(2) by (simp add: apply_op_def base Let_def)
  next
    case False
    have nc: "\<not> (0 \<le> x - int (seg_start c address k) \<and> x - int (seg_start c address k) < int ?L \<and>
      bit (w_be op) (nat (x - int (seg_start c address k))))"
      using False op by (auto simp: op_of_segment_def)
    show ?thesis
      unfolding apply_op_def prod.case base Let_def if_not_P [OF nc] if_not_P [OF False] ..
  qed
qed

lemma apply_transfer:
  assumes c: "cfg_ok c" and d: "is_bytes data" and ops: "write_segments c address data = Inr ops"
  shows "fold (apply_op c) ops f = apply_write address data f"
proof -
  let ?n = "segments c address (length data)" and ?L = "seg_byte_lanes c"
  have L: "0 < ?L" using c by (simp add: cfg_ok_def)
  have len: "length ops = ?n" and o: "\<And>k. k < ?n \<Longrightarrow>
      fst (ops ! k) = (address div ?L + k) mod seg_count c \<and> op_of_segment c address data k (snd (ops ! k))"
    using write_segments_ok [OF c d, of address] ops by auto
  define upto where "upto m = (if m = 0 then address else
    seg_start c address (m - 1) + lane_stop c address (length data) (m - 1))" for m
  have "fold (apply_op c) (take m ops) f x =
      (if int address \<le> x \<and> x < int (upto m) then data ! nat (x - int address) else f x)" if "m \<le> ?n" for m x
    using that
  proof (induction m arbitrary: x)
    case 0
    then show ?case by (simp add: upto_def)
  next
    case (Suc m)
    then have m: "m < ?n" by simp
    have "upto m = seg_start c address m + lane_start c address m"
    proof (cases m)
      case 0
      then show ?thesis using transfer_layout(2) [OF L m] by (simp add: upto_def lane_start_def)
    next
      case (Suc j)
      have "j \<noteq> ?n - 1" using m Suc by simp
      then show ?thesis using Suc by (simp add: upto_def lane_start_def lane_stop_def seg_start_def algebra_simps)
    qed
    moreover have "upto (Suc m) = seg_start c address m + lane_stop c address (length data) m"
      by (simp add: upto_def)
    moreover have "address \<le> upto m" "upto m \<le> upto (Suc m)"
      using lanes(1,3) [OF L m] calculation by linarith+
    moreover have "take (Suc m) ops = take m ops @ [(fst (ops ! m), snd (ops ! m))]"
      using m len by (simp add: take_Suc_conv_app_nth)
    ultimately show ?case
      using Suc apply_segment [OF c d m _ conjunct2 [OF o [OF m]], of "fst (ops ! m)"] o [OF m]
      by auto
  qed
  from this [of ?n] have r: "fold (apply_op c) ops f x =
      (if int address \<le> x \<and> x < int (upto ?n) then data ! nat (x - int address) else f x)" for x
    using len by simp
  have "upto ?n = address + length data" if "0 < ?n"
    using transfer_layout(5) [OF L, of "?n - 1"] that by (simp add: upto_def lane_stop_def)
  moreover have "length data = 0" if "?n = 0"
  proof -
    have "length data + address mod ?L + ?L - 1 < ?L"
      using that L unfolding segments_def by (simp add: div_eq_0_iff)
    then show ?thesis using L by linarith
  qed
  ultimately show ?thesis
    using r by (cases "?n = 0") (auto simp: apply_write_def fun_eq_iff upto_def)
qed

end
