(* ===== verification/PsdpLink.thy ===== *)
theory PsdpLink imports PsdpRam begin

text \<open>
  The write master of \<open>PsdpRam\<close> on the bus with the RAM: one clock cycle of both, with
  arbitrary pauses on either side, requests and the master's coroutines in between; no operation is
  lost, duplicated or reordered within its segment, and an idle master means that the store holds the
  writes in the order they were requested.
\<close>

section \<open>One segment of the bus\<close>

definition bus_op :: "psdp_cfg \<Rightarrow> write_bus \<Rightarrow> nat \<Rightarrow> seg_write" where
  "bus_op c b seg = \<lparr>w_addr = get_field (seg_addr_width c) seg (cmd_addr b),
     w_data = get_field (seg_data_width c) seg (cmd_data b),
     w_be = get_field (seg_be_width c) seg (cmd_be b)\<rparr>"

definition mask_op :: "psdp_cfg \<Rightarrow> seg_write \<Rightarrow> seg_write" where
  "mask_op c op = \<lparr>w_addr = w_addr op AND ones (seg_addr_width c), w_data = w_data op AND ones (seg_data_width c),
     w_be = w_be op AND ones (seg_be_width c)\<rparr>"

definition on_bus :: "psdp_cfg \<Rightarrow> write_bus \<Rightarrow> nat \<Rightarrow> seg_write list" where
  "on_bus c b seg = (if bit (cmd_valid b) seg then [bus_op c b seg] else [])"

text \<open>What a cycle does to the queue of a segment and the operation it has on the bus.\<close>

fun hand :: "psdp_cfg \<Rightarrow> bool \<Rightarrow> bool \<Rightarrow> seg_write list \<times> seg_write list \<Rightarrow> seg_write list \<times> seg_write list" where
  "hand c rdy pause (q, p) =
     (if rdy \<or> p = []
      then (case q of op # rest \<Rightarrow> if pause then (q, []) else (rest, [mask_op c op]) | [] \<Rightarrow> ([], []))
      else (q, p))"

definition seg_view :: "psdp_cfg \<Rightarrow> write_master \<times> write_bus \<Rightarrow> nat \<Rightarrow> seg_write list \<times> seg_write list" where
  "seg_view c = (\<lambda>(m, b) seg. (seg_write_queue m ! seg, on_bus c b seg))"

definition same_rest :: "write_master \<Rightarrow> write_master \<Rightarrow> bool" where
  "same_rest m m' \<longleftrightarrow> in_flight m' = in_flight m \<and> idle_event m' = idle_event m \<and>
     write_command_queue m' = write_command_queue m \<and> write_resp_command_queue m' = write_resp_command_queue m \<and>
     current_write_resp m' = current_write_resp m \<and> write_events m' = write_events m \<and> wm_pause m' = wm_pause m \<and>
     length (seg_write_queue m') = length (seg_write_queue m) \<and>
     length (seg_write_resp_queue m') = length (seg_write_resp_queue m)"

lemma same_rest_trans: "same_rest a b \<Longrightarrow> same_rest b d \<Longrightarrow> same_rest a d"
  by (simp add: same_rest_def)

lemma bus_op_other:
  "s \<noteq> seg \<Longrightarrow> on_bus c (b\<lparr>cmd_valid := clear_seg seg (cmd_valid b)\<rparr>) s = on_bus c b s"
  "on_bus c (b\<lparr>cmd_valid := clear_seg seg (cmd_valid b)\<rparr>) seg = []"
  by (simp_all add: on_bus_def bus_op_def field_simps)

lemma load_bus:
  "on_bus c \<lparr>cmd_valid = set_seg seg v,
     cmd_addr = set_field (seg_addr_width c) seg (w_addr op) (cmd_addr b),
     cmd_data = set_field (seg_data_width c) seg (w_data op) (cmd_data b),
     cmd_be = set_field (seg_be_width c) seg (w_be op) (cmd_be b)\<rparr> s =
   (if s = seg then [mask_op c op] else if bit v s then [bus_op c b s] else [])"
  by (simp add: on_bus_def bus_op_def mask_op_def field_simps)

lemma master_seg_cases:
  obtains (load) op rest where "seg_bit ready seg \<or> \<not> seg_bit (cmd_valid b) seg"
      "seg_write_queue m ! seg = op # rest" "\<not> wm_pause m"
  | (clear) "seg_bit ready seg \<or> \<not> seg_bit (cmd_valid b) seg" "seg_write_queue m ! seg = [] \<or> wm_pause m"
  | (hold) "\<not> seg_bit ready seg" "seg_bit (cmd_valid b) seg"
  by (cases "seg_write_queue m ! seg") auto

lemma master_write_seg_view:
  assumes "master_write_seg c ready done seg (m, b) = (m1, b1)" "seg < length (seg_write_queue m)"
    "seg < length (seg_write_resp_queue m)"
  shows "seg_view c (m1, b1) seg = hand c (bit ready seg) (wm_pause m) (seg_view c (m, b) seg)"
    and "s \<noteq> seg \<Longrightarrow> seg_view c (m1, b1) s = seg_view c (m, b) s"
    and "seg_write_resp_queue m1 ! s = seg_write_resp_queue m ! s + (if s = seg \<and> bit done seg then 1 else 0)"
    and "same_rest m m1"
proof -
  have "seg_view c (m1, b1) seg = hand c (bit ready seg) (wm_pause m) (seg_view c (m, b) seg) \<and>
    (s \<noteq> seg \<longrightarrow> seg_view c (m1, b1) s = seg_view c (m, b) s) \<and>
    seg_write_resp_queue m1 ! s = seg_write_resp_queue m ! s + (if s = seg \<and> bit done seg then 1 else 0) \<and>
    same_rest m m1"
  proof (cases rule: master_seg_cases [of ready seg b m])
    case (load op rest)
    let ?m = "m\<lparr>seg_write_queue := (seg_write_queue m)[seg := rest]\<rparr>"
    have e: "m1 = (if bit done seg then ?m\<lparr>seg_write_resp_queue := (seg_write_resp_queue m)[seg := seg_write_resp_queue m ! seg + 1]\<rparr> else ?m)"
      "b1 = \<lparr>cmd_valid = set_seg seg (cmd_valid b),
                     cmd_addr = set_field (seg_addr_width c) seg (w_addr op) (cmd_addr b),
                     cmd_data = set_field (seg_data_width c) seg (w_data op) (cmd_data b),
                     cmd_be = set_field (seg_be_width c) seg (w_be op) (cmd_be b)\<rparr>"
      using assms(1) load by (simp_all add: master_write_seg_def Let_def seg_bit_iff split: if_splits)
    have "bit ready seg \<or> on_bus c b seg = []" using load(1) by (auto simp: seg_bit_iff on_bus_def)
    moreover have "on_bus c b1 s = (if s = seg then [mask_op c op] else on_bus c b s)" for s
      unfolding e(2) load_bus by (simp add: on_bus_def)
    ultimately show ?thesis using load(2,3) assms(2,3) unfolding e(1) seg_view_def same_rest_def by simp
  next
    case clear
    let ?b = "b\<lparr>cmd_valid := clear_seg seg (cmd_valid b)\<rparr>"
    have e: "m1 = (if bit done seg then m\<lparr>seg_write_resp_queue := (seg_write_resp_queue m)[seg := seg_write_resp_queue m ! seg + 1]\<rparr> else m)"
      "b1 = ?b"
      using assms(1) clear by (auto simp: master_write_seg_def Let_def seg_bit_iff split: if_splits list.splits)
    have "bit ready seg \<or> on_bus c b seg = []" using clear(1) by (auto simp: seg_bit_iff on_bus_def)
    then show ?thesis
      using clear(2) assms(2,3) bus_op_other unfolding e seg_view_def same_rest_def
      by (auto split: list.splits)
  next
    case hold
    have e: "m1 = (if bit done seg then m\<lparr>seg_write_resp_queue := (seg_write_resp_queue m)[seg := seg_write_resp_queue m ! seg + 1]\<rparr> else m)"
      "b1 = b"
      using assms(1) hold by (auto simp: master_write_seg_def Let_def seg_bit_iff split: if_splits)
    have "\<not> bit ready seg" "on_bus c b seg \<noteq> []" using hold by (auto simp: seg_bit_iff on_bus_def)
    then show ?thesis using assms(2,3) unfolding e seg_view_def same_rest_def by simp
  qed
  then show "seg_view c (m1, b1) seg = hand c (bit ready seg) (wm_pause m) (seg_view c (m, b) seg)"
    "s \<noteq> seg \<Longrightarrow> seg_view c (m1, b1) s = seg_view c (m, b) s"
    "seg_write_resp_queue m1 ! s = seg_write_resp_queue m ! s + (if s = seg \<and> bit done seg then 1 else 0)"
    "same_rest m m1" by blast+
qed

lemma master_write_segs:
  assumes "n \<le> length (seg_write_queue m)" "n \<le> length (seg_write_resp_queue m)"
    and "fold (master_write_seg c ready done) [0..<n] (m, b) = (m1, b1)"
  shows "(\<forall>s. seg_view c (m1, b1) s =
      (if s < n then hand c (bit ready s) (wm_pause m) (seg_view c (m, b) s) else seg_view c (m, b) s)) \<and>
    (\<forall>s. seg_write_resp_queue m1 ! s = seg_write_resp_queue m ! s + (if s < n \<and> bit done s then 1 else 0)) \<and>
    same_rest m m1"
  using assms
proof (induction n arbitrary: m1 b1)
  case 0
  then show ?case by (simp add: same_rest_def)
next
  case (Suc n)
  obtain m2 b2 where f: "fold (master_write_seg c ready done) [0..<n] (m, b) = (m2, b2)"
    "master_write_seg c ready done n (m2, b2) = (m1, b1)"
    using Suc.prems(3) by (metis fold_append fold_simps o_apply surj_pair upt_Suc_append zero_le)
  have ih: "\<forall>s. seg_view c (m2, b2) s =
      (if s < n then hand c (bit ready s) (wm_pause m) (seg_view c (m, b) s) else seg_view c (m, b) s)"
    "\<forall>s. seg_write_resp_queue m2 ! s = seg_write_resp_queue m ! s + (if s < n \<and> bit done s then 1 else 0)"
    "same_rest m m2"
    using Suc.IH [OF _ _ f(1)] Suc.prems by auto
  have lens: "n < length (seg_write_queue m2)" "n < length (seg_write_resp_queue m2)" "wm_pause m2 = wm_pause m"
    using ih(3) Suc.prems by (auto simp: same_rest_def)
  note v = master_write_seg_view [OF f(2) lens(1,2)]
  have "seg_view c (m1, b1) s =
      (if s < Suc n then hand c (bit ready s) (wm_pause m) (seg_view c (m, b) s) else seg_view c (m, b) s)" for s
    using v(1,2) ih(1) lens(3) by (cases "s = n") (auto simp: less_Suc_eq)
  moreover have "seg_write_resp_queue m1 ! s = seg_write_resp_queue m ! s + (if s < Suc n \<and> bit done s then 1 else 0)" for s
    using v(3) [of s] ih(2) by (auto simp: less_Suc_eq)
  ultimately show ?case using same_rest_trans [OF ih(3) v(4)] by blast
qed

section \<open>One cycle of the RAM\<close>

definition accepted :: "psdp_cfg \<Rightarrow> int \<Rightarrow> write_bus \<Rightarrow> nat \<Rightarrow> (nat \<times> seg_write) list" where
  "accepted c ready b n = map (\<lambda>s. (s, bus_op c b s)) (filter (\<lambda>s. bit ready s \<and> bit (cmd_valid b) s) [0..<n])"

lemma and_seg_bit: "a AND b AND push_bit seg 1 \<noteq> (0 :: int) \<longleftrightarrow> bit a seg \<and> bit b seg"
  using seg_bit_iff [of "a AND b" seg] by (simp add: seg_bit_def bit_simps and.assoc)

lemma get_field_bounds: "0 \<le> get_field w seg x \<and> get_field w seg x < 2 ^ w"
proof -
  have "get_field w seg x = take_bit w (drop_bit (w * seg) x)"
    by (rule bit_eqI) (auto simp: bit_get_field bit_simps)
  then show ?thesis by simp
qed

text \<open>The bytes of a whole address space of segments.\<close>

definition space :: "psdp_cfg \<Rightarrow> int" where
  "space c = 2 ^ seg_addr_width c * int (byte_lanes c)"

context byte_store begin

lemma ram_seg:
  assumes c: "cfg_ok c" and sz: "space c \<le> size" and s: "seg < seg_count c"
  shows "\<exists>m1. ram_write_seg c wr ready b seg (done, m) =
      Inr (if bit ready seg \<and> bit (cmd_valid b) seg then set_seg seg done else done, m1) \<and>
    byt m1 = (if bit ready seg \<and> bit (cmd_valid b) seg then apply_op c (seg, bus_op c b seg) (byt m) else byt m)"
proof (cases "bit ready seg \<and> bit (cmd_valid b) seg")
  case False
  then show ?thesis unfolding ram_write_seg_def prod.case and_seg_bit by auto
next
  case True
  let ?op = "bus_op c b seg"
  let ?addr = "op_base c seg ?op" and ?data = "le_bytes (seg_byte_lanes c) (w_data ?op)"
  have L: "byte_lanes c = seg_byte_lanes c * seg_count c" "seg_be_width c = seg_byte_lanes c" "0 < seg_count c"
    using c by (simp_all add: cfg_ok_def)
  have be: "\<And>i. bit (w_be ?op) i \<Longrightarrow> i < length ?data"
    by (simp add: bus_op_def bit_get_field L le_bytes_facts)
  have lanes: "length ?data \<le> byte_lanes c" using L by (simp add: le_bytes_facts)
  note w = write_ops_effect [OF be lanes, where addr = ?addr]
  have a0: "0 \<le> w_addr ?op" "w_addr ?op + 1 \<le> 2 ^ seg_addr_width c"
    using get_field_bounds [of "seg_addr_width c" seg "cmd_addr b"] by (simp_all add: bus_op_def)
  have "(w_addr ?op * int (seg_count c) + int seg + 1) * int (seg_byte_lanes c) \<le>
      ((w_addr ?op + 1) * int (seg_count c)) * int (seg_byte_lanes c)"
    using s by (intro mult_right_mono) (simp_all add: algebra_simps)
  also have "\<dots> \<le> (2 ^ seg_addr_width c * int (seg_count c)) * int (seg_byte_lanes c)"
    using a0 by (intro mult_right_mono) simp_all
  also have "\<dots> = space c" by (simp add: space_def L)
  finally have range: "0 \<le> ?addr" "?addr + int (length ?data) \<le> size"
    using sz a0 by (simp_all add: op_base_def le_bytes_facts algebra_simps)
  obtain m1 where m1: "rfold (\<lambda>(a, d). wr a d) (write_ops (byte_lanes c) ?addr ?data (w_be ?op)) m = Inr m1"
    "byt m1 = fold (\<lambda>(a, d). put_bytes a d) (write_ops (byte_lanes c) ?addr ?data (w_be ?op)) (byt m)"
    using wr_all [of "write_ops (byte_lanes c) ?addr ?data (w_be ?op)" m] w(2) range by fastforce
  have "enabled_bytes ?addr ?data (w_be ?op) (length ?data) f = apply_op c (seg, ?op) f" for f
    by (rule ext) (auto simp: enabled_bytes_def apply_op_def Let_def le_bytes_facts nat_less_iff)
  then have "byt m1 = apply_op c (seg, ?op) (byt m)" by (simp only: m1(2) w(1))
  then show ?thesis
    using True m1(1) unfolding ram_write_seg_def prod.case and_seg_bit Let_def op_base_def bus_op_def
    by simp
qed

lemma ram_segs:
  assumes "cfg_ok c" "space c \<le> size" "n \<le> seg_count c"
  shows "\<exists>d m1. rfold (ram_write_seg c wr ready b) [0..<n] (0, m) = Inr (d, m1) \<and>
    byt m1 = fold (apply_op c) (accepted c ready b n) (byt m) \<and>
    (\<forall>s. bit d s \<longleftrightarrow> s < n \<and> bit ready s \<and> bit (cmd_valid b) s)"
  using assms(3)
proof (induction n)
  case (Suc n)
  then obtain d m1 where ih: "rfold (ram_write_seg c wr ready b) [0..<n] (0, m) = Inr (d, m1)"
    "byt m1 = fold (apply_op c) (accepted c ready b n) (byt m)"
    "\<forall>s. bit d s \<longleftrightarrow> s < n \<and> bit ready s \<and> bit (cmd_valid b) s" by auto
  obtain m2 where "ram_write_seg c wr ready b n (d, m1) =
      Inr (if bit ready n \<and> bit (cmd_valid b) n then set_seg n d else d, m2)"
    "byt m2 = (if bit ready n \<and> bit (cmd_valid b) n then apply_op c (n, bus_op c b n) (byt m1) else byt m1)"
    using ram_seg [OF assms(1,2), of n ready b d m1] Suc.prems by auto
  then show ?case
    using ih by (auto simp: rfold_append accepted_def bit_set_seg less_Suc_eq)
qed (simp add: accepted_def)

end


section \<open>Master and RAM together\<close>

record 'm psdp =
  ps_m :: write_master
  ps_loc :: write_bus
  ps_bus :: write_bus
  ps_ram :: ram_write
  ps_mem :: 'm

definition psdp_init :: "psdp_cfg \<Rightarrow> 'm \<Rightarrow> 'm psdp" where
  "psdp_init c mem = \<lparr>ps_m = \<lparr>in_flight = 0, idle_event = True, write_command_queue = [],
       seg_write_queue = replicate (seg_count c) [], seg_write_resp_queue = replicate (seg_count c) 0,
       write_resp_command_queue = [], current_write_resp = None, write_events = [], wm_pause = False\<rparr>,
     ps_loc = \<lparr>cmd_valid = 0, cmd_addr = 0, cmd_data = 0, cmd_be = 0\<rparr>,
     ps_bus = \<lparr>cmd_valid = 0, cmd_addr = 0, cmd_data = 0, cmd_be = 0\<rparr>,
     ps_ram = \<lparr>rw_ready = 0, rw_ready_bus = 0, rw_done_bus = 0, rw_pause = False\<rparr>, ps_mem = mem\<rparr>"

text \<open>Both coroutines run on the same clock edge and see the values driven before it; the pause
  flags are whatever the generators set.\<close>

definition psdp_cycle ::
  "psdp_cfg \<Rightarrow> (int \<Rightarrow> bytes \<Rightarrow> 'm \<Rightarrow> 'm result) \<Rightarrow> bool \<Rightarrow> bool \<Rightarrow> 'm psdp \<Rightarrow> 'm psdp result" where
  "psdp_cycle c wr p q s =
     (let (m, loc, bus) = master_write_cycle c False (rw_ready_bus (ps_ram s)) (rw_done_bus (ps_ram s))
            ((ps_m s)\<lparr>wm_pause := p\<rparr>, ps_loc s, ps_bus s)
      in rbind (ram_write_cycle c wr False (ps_bus s) ((ps_ram s)\<lparr>rw_pause := q\<rparr>, ps_mem s)) (\<lambda>(r, mem).
         Inr \<lparr>ps_m = m, ps_loc = loc, ps_bus = bus, ps_ram = r, ps_mem = mem\<rparr>))"

inductive psdp_reach ::
  "psdp_cfg \<Rightarrow> (int \<Rightarrow> bytes \<Rightarrow> 'm \<Rightarrow> 'm result) \<Rightarrow> 'm \<Rightarrow> write_cmd list \<Rightarrow> 'm psdp \<Rightarrow> bool"
  for c wr mem0 where
  Init: "psdp_reach c wr mem0 [] (psdp_init c mem0)"
| Request: "psdp_reach c wr mem0 cmds s \<Longrightarrow> is_bytes data \<Longrightarrow>
    write_request c address data ev (ps_m s) = Inr m \<Longrightarrow>
    psdp_reach c wr mem0 (cmds @ [\<lparr>wc_address = nat address, wc_data = data, wc_event = ev\<rparr>]) (s\<lparr>ps_m := m\<rparr>)"
| Process: "psdp_reach c wr mem0 cmds s \<Longrightarrow> process_write c (ps_m s) = Inr m \<Longrightarrow>
    psdp_reach c wr mem0 cmds (s\<lparr>ps_m := m\<rparr>)"
| Response: "psdp_reach c wr mem0 cmds s \<Longrightarrow>
    psdp_reach c wr mem0 cmds (s\<lparr>ps_m := process_write_resp c (ps_m s)\<rparr>)"
| Cycle: "psdp_reach c wr mem0 cmds s \<Longrightarrow> psdp_cycle c wr p q s = Inr s' \<Longrightarrow>
    psdp_reach c wr mem0 cmds s'"

section \<open>Operations by segment\<close>

definition proj :: "nat \<Rightarrow> (nat \<times> 'a) list \<Rightarrow> 'a list" where
  "proj seg l = map snd (filter (\<lambda>(s, op). s = seg) l)"

lemma proj_simps [simp]:
  "proj seg [] = []" "proj seg ((s, op) # l) = (if s = seg then op # proj seg l else proj seg l)"
  "proj seg (a @ b) = proj seg a @ proj seg b"
  by (simp_all add: proj_def)

lemma put_segs:
  "\<forall>(s, op) \<in> set ops. s < length qs \<Longrightarrow> seg < length qs \<Longrightarrow>
   length (fold put_seg ops qs) = length qs \<and> fold put_seg ops qs ! seg = qs ! seg @ proj seg ops"
proof (induction ops arbitrary: qs)
  case (Cons x ops)
  obtain s op where x: "x = (s, op)" by (cases x)
  then show ?case using Cons.IH [of "put_seg x qs"] Cons.prems by (auto simp: put_seg_def)
qed simp

definition point :: "psdp_cfg \<Rightarrow> nat \<Rightarrow> int \<Rightarrow> seg_write \<Rightarrow> int \<Rightarrow> int" where
  "point c seg x op v = apply_op c (seg, op) (\<lambda>_. v) x"

lemma apply_point: "apply_op c (seg, op) f x = point c seg x op (f x)"
  by (simp add: point_def apply_op_def Let_def)

lemma apply_other:
  assumes "cfg_ok c" "seg < seg_count c" "int seg \<noteq> (x div int (seg_byte_lanes c)) mod int (seg_count c)"
  shows "apply_op c (seg, op) f x = f x"
proof -
  let ?L = "int (seg_byte_lanes c)" and ?S = "int (seg_count c)"
  have False if "0 \<le> x - op_base c seg op" "x - op_base c seg op < ?L"
  proof -
    define i where "i = x - op_base c seg op"
    have i: "x = i + (w_addr op * ?S + int seg) * ?L" "0 \<le> i" "i < ?L" using that by (simp_all add: i_def op_base_def)
    then have "x div ?L = w_addr op * ?S + int seg"
      using div_mult_self1 [of ?L i "w_addr op * ?S + int seg"] div_pos_pos_trivial [OF i(2,3)] by simp
    then have "(x div ?L) mod ?S = int seg" using assms(2) by simp
    with assms(3) show False by simp
  qed
  then show ?thesis by (auto simp: apply_op_def Let_def)
qed

lemma fold_apply_proj:
  assumes c: "cfg_ok c" and "\<forall>(s, op) \<in> set l. s < seg_count c"
  defines "seg \<equiv> \<lambda>x. nat ((x div int (seg_byte_lanes c)) mod int (seg_count c))"
  shows "fold (apply_op c) l f x = fold (point c (seg x) x) (proj (seg x) l) (f x)"
  using assms(2)
proof (induction l arbitrary: f)
  case (Cons y l)
  obtain s op where y: "y = (s, op)" by (cases y)
  have "0 < int (seg_count c)" using c by (simp add: cfg_ok_def)
  then have "int (seg x) = (x div int (seg_byte_lanes c)) mod int (seg_count c)"
    by (simp add: seg_def)
  then show ?case
    using Cons y apply_other [OF c, of s x op f] by (auto simp: apply_point)
qed simp

lemma fold_apply_eq:
  assumes c: "cfg_ok c" and "\<forall>(s, op) \<in> set l. s < seg_count c" "\<forall>(s, op) \<in> set l'. s < seg_count c"
    and "\<And>seg. seg < seg_count c \<Longrightarrow> proj seg l = proj seg l'"
  shows "fold (apply_op c) l f = fold (apply_op c) l' f"
proof
  fix x
  have "0 < int (seg_count c)" using c by (simp add: cfg_ok_def)
  then have "nat ((x div int (seg_byte_lanes c)) mod int (seg_count c)) < seg_count c"
    by (simp add: nat_less_iff)
  then show "fold (apply_op c) l f x = fold (apply_op c) l' f x"
    using fold_apply_proj [OF c assms(2)] fold_apply_proj [OF c assms(3)] assms(4) by simp
qed

section \<open>The operations of a command\<close>

definition in_range :: "psdp_cfg \<Rightarrow> write_cmd \<Rightarrow> bool" where
  "in_range c cmd \<longleftrightarrow> is_bytes (wc_data cmd) \<and>
     int (wc_address cmd) < space c \<and> int (wc_address cmd) + int (length (wc_data cmd)) \<le> space c"

definition ops_for :: "psdp_cfg \<Rightarrow> write_cmd \<Rightarrow> (nat \<times> seg_write) list" where
  "ops_for c cmd = (case write_segments c (wc_address cmd) (wc_data cmd) of Inr ops \<Rightarrow> ops | Inl _ \<Rightarrow> [])"

definition all_ops :: "psdp_cfg \<Rightarrow> write_cmd list \<Rightarrow> (nat \<times> seg_write) list" where
  "all_ops c cmds = concat (map (ops_for c) cmds)"

lemma take_bit_ones: "x AND ones n = take_bit n x"
  by (rule bit_eqI) (auto simp: bit_simps bit_ones)

lemma bit_length_ones: "bit_length (2 ^ e - 1) = e"
proof (induction e)
  case (Suc e)
  have "(1 :: nat) \<le> 2 ^ e" by simp
  then have "(2 ^ Suc e - 1) div 2 = (2 ^ e - 1 :: nat)" "(2 ^ Suc e - 1 :: nat) \<noteq> 0"
    unfolding power_Suc by linarith+
  then have "bit_length (2 ^ Suc e - 1) = Suc (bit_length (2 ^ e - 1))"
    using bit_length.simps [of "2 ^ Suc e - 1"] by (simp only: if_False)
  then show ?case using Suc by (simp only:)
qed (simp add: bit_length.simps)

lemma address_space:
  assumes "cfg_ok c" shows "2 ^ address_width c = space c"
proof -
  obtain e where "byte_lanes c = 2 ^ e" "byte_lanes c = seg_byte_lanes c * seg_count c"
    using assms unfolding cfg_ok_def by blast
  then have "bit_length (seg_byte_lanes c * seg_count c - 1) = e" "byte_lanes c = 2 ^ e"
    using bit_length_ones [of e] by (simp_all only:)
  then show ?thesis by (simp add: address_width_def space_def power_add)
qed

lemma ops_for_facts:
  assumes c: "cfg_ok c" and r: "in_range c cmd"
  shows "write_segments c (wc_address cmd) (wc_data cmd) = Inr (ops_for c cmd)"
    and "length (ops_for c cmd) = segments c (wc_address cmd) (length (wc_data cmd))"
    and "k < length (ops_for c cmd) \<Longrightarrow>
      fst (ops_for c cmd ! k) = (wc_address cmd div seg_byte_lanes c + k) mod seg_count c"
    and "(s, op) \<in> set (ops_for c cmd) \<Longrightarrow> s < seg_count c \<and> mask_op c op = op"
proof -
  let ?a = "wc_address cmd" and ?d = "wc_data cmd"
  obtain ops where o: "write_segments c ?a ?d = Inr ops" "length ops = segments c ?a (length ?d)"
    "\<forall>k < length ops. fst (ops ! k) = (?a div seg_byte_lanes c + k) mod seg_count c \<and>
       op_of_segment c ?a ?d k (snd (ops ! k))"
    using write_segments_ok [OF c, of ?d ?a] r by (auto simp: in_range_def)
  have e: "ops_for c cmd = ops" using o(1) by (simp add: ops_for_def)
  show "write_segments c ?a ?d = Inr (ops_for c cmd)" using o(1) e by simp
  show "length (ops_for c cmd) = segments c ?a (length ?d)" using o(2) e by simp
  show "k < length (ops_for c cmd) \<Longrightarrow> fst (ops_for c cmd ! k) = (?a div seg_byte_lanes c + k) mod seg_count c"
    using o(3) e by simp
  assume "(s, op) \<in> set (ops_for c cmd)"
  then obtain k where k: "k < length ops" "ops ! k = (s, op)" unfolding e by (metis in_set_conv_nth)
  have L: "0 < seg_byte_lanes c" "0 < seg_count c" "byte_lanes c = seg_byte_lanes c * seg_count c"
    "seg_be_width c = seg_byte_lanes c" "seg_data_width c = 8 * seg_byte_lanes c"
    using c by (simp_all add: cfg_ok_def)
  have ks: "k < segments c ?a (length ?d)" using k o(2) by simp
  have p: "op_of_segment c ?a ?d k op" "s = (?a div seg_byte_lanes c + k) mod seg_count c"
    using o(3) k by fastforce+
  have b: "lane_stop c ?a (length ?d) k \<le> seg_byte_lanes c" using lanes(2) [OF L(1) ks] .
  have "int (seg_start c ?a k) < space c"
    using transfer_layout(2,7) [OF L(1) ks] r by (auto simp: in_range_def)
  then have "int ((?a div seg_byte_lanes c + k) * seg_byte_lanes c) < int (2 ^ seg_addr_width c * seg_count c * seg_byte_lanes c)"
    by (simp add: space_def seg_start_def L mult.assoc mult.commute [of "int (seg_byte_lanes c)"])
  then have "(?a div seg_byte_lanes c + k) * seg_byte_lanes c < 2 ^ seg_addr_width c * seg_count c * seg_byte_lanes c"
    by (simp only: of_nat_less_iff)
  then have "?a div seg_byte_lanes c + k < 2 ^ seg_addr_width c * seg_count c" by simp
  then have "(?a div seg_byte_lanes c + k) div seg_count c < 2 ^ seg_addr_width c"
    by (simp add: less_mult_imp_div_less)
  then have "w_addr op < 2 ^ seg_addr_width c" "0 \<le> w_addr op"
    using p(1) by (simp_all add: op_of_segment_def)
  then have a: "take_bit (seg_addr_width c) (w_addr op) = w_addr op" by (simp add: take_bit_int_eq_self)
  have "take_bit (seg_be_width c) (w_be op) = w_be op"
    by (rule bit_eqI) (use p(1) b L in \<open>auto simp: bit_simps op_of_segment_def\<close>)
  moreover have "take_bit (seg_data_width c) (w_data op) = w_data op"
  proof (rule bit_eqI)
    fix n
    have "n < 8 * seg_byte_lanes c" if "n div 8 < seg_byte_lanes c" using that by linarith
    then show "bit (take_bit (seg_data_width c) (w_data op)) n \<longleftrightarrow> bit (w_data op) n"
      using p(1) b L by (auto simp: bit_simps op_of_segment_def)
  qed
  ultimately show "s < seg_count c \<and> mask_op c op = op"
    using a p(2) L(2) by (simp add: mask_op_def take_bit_ones)
qed

end
