(* ===== verification/PsdpWrite.thy ===== *)
theory PsdpWrite imports PsdpLink begin

text \<open>
  The joint invariant of the write master and the RAM, and what follows from it: no step raises,
  responses come in the order of the requests, and the store holds every completed write.
\<close>

section \<open>The joint invariant\<close>

definition rc_of :: "psdp_cfg \<Rightarrow> write_cmd \<Rightarrow> resp_cmd" where
  "rc_of c cmd = \<lparr>rc_address = wc_address cmd, rc_length = length (wc_data cmd),
     rc_segments = segments c (wc_address cmd) (length (wc_data cmd)),
     rc_first_seg = first_seg c (wc_address cmd), rc_event = wc_event cmd\<rparr>"

definition event_of :: "write_cmd \<Rightarrow> nat \<times> nat \<times> nat" where
  "event_of cmd = (wc_event cmd, wc_address cmd, length (wc_data cmd))"

text \<open>Completed, current and answered-for commands, and how far the current one is.\<close>

definition commands_inv :: "psdp_cfg \<Rightarrow> write_cmd list \<Rightarrow> write_master \<Rightarrow>
    write_cmd list \<Rightarrow> write_cmd list \<Rightarrow> write_cmd list \<Rightarrow> nat \<Rightarrow> bool" where
  "commands_inv c cmds m Q C R k \<longleftrightarrow>
     cmds = Q @ C @ R @ write_command_queue m \<and> (\<forall>cmd \<in> set cmds. in_range c cmd) \<and>
     write_resp_command_queue m = map (rc_of c) R \<and> length C \<le> 1 \<and> k \<le> length (all_ops c C) \<and>
     current_write_resp m = (if C = [] then None
       else Some (rc_of c (hd C), k, (wc_address (hd C) div seg_byte_lanes c + k) mod seg_count c)) \<and>
     write_events m = map event_of Q \<and> in_flight m + length Q = length cmds \<and>
     idle_event m = (in_flight m = 0) \<and>
     length (seg_write_queue m) = seg_count c \<and> length (seg_write_resp_queue m) = seg_count c"

text \<open>Every operation of a processed command is carried out, on the bus or queued, in order;
  every operation carried out is answered, and every answer is pending or consumed.\<close>

definition flow_inv :: "psdp_cfg \<Rightarrow> write_master \<Rightarrow> write_bus \<Rightarrow> int \<Rightarrow>
    write_cmd list \<Rightarrow> write_cmd list \<Rightarrow> write_cmd list \<Rightarrow> nat \<Rightarrow> (nat \<times> seg_write) list \<Rightarrow> bool" where
  "flow_inv c m b done Q C R k log \<longleftrightarrow> (\<forall>(s, op) \<in> set log. s < seg_count c) \<and>
     (\<forall>seg < seg_count c.
        proj seg log @ on_bus c b seg @ seg_write_queue m ! seg = proj seg (all_ops c (Q @ C @ R)) \<and>
        length (proj seg log) = of_bool (bit done seg) + seg_write_resp_queue m ! seg +
          length (proj seg (all_ops c Q @ take k (all_ops c C))))"

definition joint_inv :: "psdp_cfg \<Rightarrow> ('m \<Rightarrow> int \<Rightarrow> int) \<Rightarrow> 'm \<Rightarrow> write_cmd list \<Rightarrow> 'm psdp \<Rightarrow>
    write_cmd list \<Rightarrow> write_cmd list \<Rightarrow> write_cmd list \<Rightarrow> nat \<Rightarrow> (nat \<times> seg_write) list \<Rightarrow> bool" where
  "joint_inv c byt mem0 cmds s Q C R k log \<longleftrightarrow>
     commands_inv c cmds (ps_m s) Q C R k \<and> flow_inv c (ps_m s) (ps_bus s) (rw_done_bus (ps_ram s)) Q C R k log \<and>
     ps_loc s = ps_bus s \<and> rw_ready (ps_ram s) = rw_ready_bus (ps_ram s) \<and>
     byt (ps_mem s) = fold (apply_op c) log (byt mem0)"

lemma all_ops_simps [simp]:
  "all_ops c [] = []" "all_ops c (x # l) = ops_for c x @ all_ops c l" "all_ops c (l @ l') = all_ops c l @ all_ops c l'"
  by (simp_all add: all_ops_def)

lemma proj_seg_in: "op \<in> set (proj seg l) \<Longrightarrow> (seg, op) \<in> set l"
  by (auto simp: proj_def)

lemma all_ops_facts:
  assumes "cfg_ok c" "\<forall>cmd \<in> set cmds. in_range c cmd" "(s, op) \<in> set (all_ops c cmds)"
  shows "s < seg_count c" "mask_op c op = op"
  using assms ops_for_facts(4) [OF assms(1)] by (auto simp: all_ops_def)

section \<open>Steps\<close>

lemma joint_init: "cfg_ok c \<Longrightarrow> joint_inv c byt mem0 [] (psdp_init c mem0) [] [] [] 0 []"
  by (auto simp: joint_inv_def commands_inv_def flow_inv_def psdp_init_def on_bus_def)

lemma request_ok:
  assumes "cfg_ok c" "is_bytes data" "write_request c address data ev m = Inr m'"
  shows "0 \<le> address" "address + int (length data) \<le> space c" "address < space c"
    "m' = m\<lparr>in_flight := in_flight m + 1, idle_event := False,
       write_command_queue := write_command_queue m @ [\<lparr>wc_address = nat address, wc_data = data, wc_event = ev\<rparr>]\<rparr>"
  using assms by (auto simp: write_request_def address_space split: if_splits)

lemma joint_request:
  assumes "cfg_ok c" "is_bytes data" "write_request c address data ev (ps_m s) = Inr m"
    and "joint_inv c byt mem0 cmds s Q C R k log"
  shows "joint_inv c byt mem0 (cmds @ [\<lparr>wc_address = nat address, wc_data = data, wc_event = ev\<rparr>]) (s\<lparr>ps_m := m\<rparr>) Q C R k log"
  using assms(4) request_ok [OF assms(1-3)] assms(2)
  by (simp add: joint_inv_def commands_inv_def flow_inv_def in_range_def)

lemma process_ok:
  assumes c: "cfg_ok c" and j: "commands_inv c cmds m Q C R k" and w: "write_command_queue m = cmd # rest"
  shows "process_write c m = Inr (m\<lparr>write_command_queue := rest,
      write_resp_command_queue := write_resp_command_queue m @ [rc_of c cmd],
      seg_write_queue := fold put_seg (ops_for c cmd) (seg_write_queue m)\<rparr>)"
proof -
  have "in_range c cmd" using j w by (auto simp: commands_inv_def)
  from ops_for_facts(1) [OF c this] show ?thesis by (simp add: process_write_def w rc_of_def Let_def)
qed

lemma joint_process:
  assumes c: "cfg_ok c" and j: "joint_inv c byt mem0 cmds s Q C R k log" and p: "process_write c (ps_m s) = Inr m"
  shows "\<exists>R'. joint_inv c byt mem0 cmds (s\<lparr>ps_m := m\<rparr>) Q C R' k log"
proof (cases "write_command_queue (ps_m s)")
  case Nil
  then show ?thesis using j p by (auto simp: process_write_def)
next
  case (Cons cmd rest)
  have ci: "commands_inv c cmds (ps_m s) Q C R k" using j by (simp add: joint_inv_def)
  have m: "m = (ps_m s)\<lparr>write_command_queue := rest,
      write_resp_command_queue := write_resp_command_queue (ps_m s) @ [rc_of c cmd],
      seg_write_queue := fold put_seg (ops_for c cmd) (seg_write_queue (ps_m s))\<rparr>"
    using process_ok [OF c ci Cons] p by simp
  have "in_range c cmd" using ci Cons by (auto simp: commands_inv_def)
  then have ops: "\<forall>(s', op) \<in> set (ops_for c cmd). s' < length (seg_write_queue (ps_m s))"
    using ops_for_facts(4) [OF c] ci by (auto simp: commands_inv_def)
  have q: "length (seg_write_queue m) = seg_count c"
    "seg < seg_count c \<Longrightarrow> seg_write_queue m ! seg = seg_write_queue (ps_m s) ! seg @ proj seg (ops_for c cmd)" for seg
    using put_segs [OF ops] ci c by (auto simp: m commands_inv_def cfg_ok_def)
  have "commands_inv c cmds m Q C (R @ [cmd]) k"
    using ci Cons q(1) by (simp add: commands_inv_def m)
  moreover have "flow_inv c m (ps_bus s) (rw_done_bus (ps_ram s)) Q C (R @ [cmd]) k log"
    using j q(2) by (simp add: joint_inv_def flow_inv_def m)
  ultimately show ?thesis using j by (auto simp: joint_inv_def)
qed

lemma nth_split: "i < length xs \<Longrightarrow> take (Suc i) xs = take i xs @ [xs ! i]"
  by (simp add: take_Suc_conv_app_nth)

lemma joint_response:
  assumes c: "cfg_ok c" and j: "joint_inv c byt mem0 cmds s Q C R k log"
  shows "\<exists>Q' C' R' k'. joint_inv c byt mem0 cmds (s\<lparr>ps_m := process_write_resp c (ps_m s)\<rparr>) Q' C' R' k' log"
proof -
  let ?m = "ps_m s"
  have ci: "commands_inv c cmds ?m Q C R k" and fi: "flow_inv c ?m (ps_bus s) (rw_done_bus (ps_ram s)) Q C R k log"
    using j by (simp_all add: joint_inv_def)
  consider (none) "C = []" "R = []" | (take) cmd R1 where "C = []" "R = cmd # R1" | (cur) cmd where "C = [cmd]"
    using ci by (cases C; cases R) (auto simp: commands_inv_def)
  then have "\<exists>Q' C' R' k'. commands_inv c cmds (process_write_resp c ?m) Q' C' R' k' \<and>
      flow_inv c (process_write_resp c ?m) (ps_bus s) (rw_done_bus (ps_ram s)) Q' C' R' k' log"
  proof cases
    case none
    then have "process_write_resp c ?m = ?m" using ci by (simp add: commands_inv_def process_write_resp_def)
    then show ?thesis using ci fi by auto
  next
    case take
    have e: "process_write_resp c ?m = ?m\<lparr>write_resp_command_queue := map (rc_of c) R1,
        current_write_resp := Some (rc_of c cmd, 0, first_seg c (wc_address cmd))\<rparr>"
      using ci take by (simp add: commands_inv_def process_write_resp_def rc_of_def)
    have "commands_inv c cmds (process_write_resp c ?m) Q [cmd] R1 0"
      using ci take by (simp add: e commands_inv_def first_seg_def)
    moreover have "flow_inv c (process_write_resp c ?m) (ps_bus s) (rw_done_bus (ps_ram s)) Q [cmd] R1 0 log"
      using fi take ci by (simp add: e flow_inv_def commands_inv_def)
    ultimately show ?thesis by blast
  next
    case cur
    have r: "in_range c cmd" using ci cur by (simp add: commands_inv_def)
    note o = ops_for_facts [OF c r]
    define seg where "seg = (wc_address cmd div seg_byte_lanes c + k) mod seg_count c"
    have seg: "seg < seg_count c" using c by (simp add: seg_def cfg_ok_def)
    have cw: "current_write_resp ?m = Some (rc_of c cmd, k, seg)" "k \<le> length (ops_for c cmd)"
      using ci cur by (simp_all add: commands_inv_def seg_def)
    consider (wait) "k < length (ops_for c cmd)" "seg_write_resp_queue ?m ! seg = 0"
      | (answer) "k < length (ops_for c cmd)" "0 < seg_write_resp_queue ?m ! seg"
      | (complete) "k = length (ops_for c cmd)" using cw(2) by linarith
    then show ?thesis
    proof cases
      case wait
      then have "process_write_resp c ?m = ?m" using cw o(2) by (simp add: process_write_resp_def rc_of_def)
      then show ?thesis using ci fi by auto
    next
      case answer
      have e: "process_write_resp c ?m = ?m\<lparr>
          seg_write_resp_queue := (seg_write_resp_queue ?m)[seg := seg_write_resp_queue ?m ! seg - 1],
          current_write_resp := Some (rc_of c cmd, k + 1, (seg + 1) mod seg_count c)\<rparr>"
        using answer cw o(2) by (simp add: process_write_resp_def rc_of_def)
      have "(seg + 1) mod seg_count c = (wc_address cmd div seg_byte_lanes c + Suc k) mod seg_count c"
        by (simp add: seg_def mod_Suc_eq)
      then have "commands_inv c cmds (process_write_resp c ?m) Q [cmd] R (Suc k)"
        using ci cur answer(1) by (simp add: e commands_inv_def)
      moreover have pk: "proj s' (take (Suc k) (ops_for c cmd)) =
          proj s' (take k (ops_for c cmd)) @ (if s' = seg then [snd (ops_for c cmd ! k)] else [])" for s'
        using nth_split [OF answer(1)] o(3) [OF answer(1)] by (cases "ops_for c cmd ! k") (auto simp: seg_def)
      have "flow_inv c (process_write_resp c ?m) (ps_bus s) (rw_done_bus (ps_ram s)) Q [cmd] R (Suc k) log"
        unfolding flow_inv_def
      proof (intro conjI allI impI)
        show "\<forall>(s, op) \<in> set log. s < seg_count c" using fi by (simp add: flow_inv_def)
        fix s' assume s': "s' < seg_count c"
        show "proj s' log @ on_bus c (ps_bus s) s' @ seg_write_queue (process_write_resp c ?m) ! s' =
            proj s' (all_ops c (Q @ [cmd] @ R))"
          using fi cur s' by (simp add: flow_inv_def e)
        have "length (proj s' log) = of_bool (bit (rw_done_bus (ps_ram s)) s') + seg_write_resp_queue ?m ! s' +
            length (proj s' (all_ops c Q @ take k (ops_for c cmd)))"
          using fi cur s' by (simp add: flow_inv_def)
        then show "length (proj s' log) = of_bool (bit (rw_done_bus (ps_ram s)) s') +
            seg_write_resp_queue (process_write_resp c ?m) ! s' +
            length (proj s' (all_ops c Q @ take (Suc k) (all_ops c [cmd])))"
          using answer(2) pk [of s'] ci seg by (cases "s' = seg") (simp_all add: e commands_inv_def)
      qed
      ultimately show ?thesis by blast
    next
      case complete
      have e: "process_write_resp c ?m = ?m\<lparr>current_write_resp := None,
          write_events := write_events ?m @ [event_of cmd], in_flight := in_flight ?m - 1,
          idle_event := (if in_flight ?m - 1 = 0 then True else idle_event ?m)\<rparr>"
        using complete cw o(2) by (simp add: process_write_resp_def rc_of_def event_of_def)
      have "commands_inv c cmds (process_write_resp c ?m) (Q @ [cmd]) [] R 0"
        using ci cur by (auto simp: e commands_inv_def)
      moreover have "flow_inv c (process_write_resp c ?m) (ps_bus s) (rw_done_bus (ps_ram s)) (Q @ [cmd]) [] R 0 log"
        using fi cur complete by (simp add: e flow_inv_def)
      ultimately show ?thesis by blast
    qed
  qed
  then show ?thesis using j by (auto simp: joint_inv_def)
qed

text \<open>The hand-over of a segment loses nothing: what was taken, what is on the bus and what is
  queued are the same list before and after.\<close>

lemma hand_flow:
  assumes "\<forall>op \<in> set q. mask_op c op = op" "hand c rdy pause (q, p) = (q', p')"
  shows "(if rdy then p else []) @ p' @ q' = p @ q"
  using assms by (auto split: if_splits list.splits)

lemma proj_accepted:
  "seg < n \<Longrightarrow> proj seg (accepted c ready b n) = (if bit ready seg then on_bus c b seg else [])"
proof (induction n)
  case (Suc n)
  have "proj seg (accepted c ready b n) = []" if "seg = n"
    using that by (auto simp: proj_def accepted_def filter_empty_conv)
  then show ?case using Suc by (cases "seg = n") (auto simp: accepted_def on_bus_def less_Suc_eq)
qed simp

context byte_store begin

lemma joint_cycle:
  assumes c: "cfg_ok c" and sz: "space c \<le> size" and j: "joint_inv c byt mem0 cmds s Q C R k log"
  shows "\<exists>s' log'. psdp_cycle c wr p q s = Inr s' \<and> joint_inv c byt mem0 cmds s' Q C R k log'"
proof -
  let ?m = "(ps_m s)\<lparr>wm_pause := p\<rparr>" and ?b = "ps_bus s" and ?S = "seg_count c"
  let ?ready = "rw_ready_bus (ps_ram s)" and ?done = "rw_done_bus (ps_ram s)"
  let ?acc = "accepted c ?ready ?b ?S"
  have ci: "commands_inv c cmds (ps_m s) Q C R k" and fi: "flow_inv c (ps_m s) ?b ?done Q C R k log"
    and eq: "ps_loc s = ?b" "rw_ready (ps_ram s) = ?ready" "byt (ps_mem s) = fold (apply_op c) log (byt mem0)"
    using j by (simp_all add: joint_inv_def)
  obtain m1 b1 where f: "fold (master_write_seg c ?ready ?done) [0..<?S] (?m, ?b) = (m1, b1)" by fastforce
  have lens: "?S \<le> length (seg_write_queue ?m)" "?S \<le> length (seg_write_resp_queue ?m)"
    using ci by (simp_all add: commands_inv_def)
  have v: "\<And>seg. seg < ?S \<Longrightarrow> seg_view c (m1, b1) seg = hand c (bit ?ready seg) p (seg_write_queue (ps_m s) ! seg, on_bus c ?b seg)"
    "\<And>seg. seg < ?S \<Longrightarrow> seg_write_resp_queue m1 ! seg = seg_write_resp_queue (ps_m s) ! seg + of_bool (bit ?done seg)"
    "same_rest ?m m1"
    using master_write_segs [OF lens f] by (auto simp: seg_view_def)
  obtain d mem1 where r: "rfold (ram_write_seg c wr ?ready ?b) [0..<?S] (0, ps_mem s) = Inr (d, mem1)"
    "byt mem1 = fold (apply_op c) ?acc (byt (ps_mem s))"
    "\<And>seg. bit d seg \<longleftrightarrow> seg < ?S \<and> bit ?ready seg \<and> bit (cmd_valid ?b) seg"
    using ram_segs [OF c sz, of ?S ?ready ?b "ps_mem s"] by auto
  define ready' :: int where "ready' = (if q then 0 else 2 ^ ?S - 1)"
  define s' where "s' = \<lparr>ps_m = m1, ps_loc = b1, ps_bus = b1,
    ps_ram = (ps_ram s)\<lparr>rw_pause := q, rw_ready := ready', rw_ready_bus := ready', rw_done_bus := d\<rparr>, ps_mem = mem1\<rparr>"
  have step: "psdp_cycle c wr p q s = Inr s'"
    using f r(1) eq by (simp add: psdp_cycle_def master_write_cycle_def ram_write_cycle_def s'_def ready'_def Let_def)
  have "commands_inv c cmds m1 Q C R k"
    using ci v(3) by (simp add: commands_inv_def same_rest_def)
  moreover have "flow_inv c m1 b1 d Q C R k (log @ ?acc)"
    unfolding flow_inv_def
  proof (intro conjI allI impI)
    show "\<forall>(s, op) \<in> set (log @ ?acc). s < ?S" using fi by (auto simp: flow_inv_def accepted_def)
    fix seg assume seg: "seg < ?S"
    have old: "proj seg log @ on_bus c ?b seg @ seg_write_queue (ps_m s) ! seg = proj seg (all_ops c (Q @ C @ R))"
      "length (proj seg log) = of_bool (bit ?done seg) + seg_write_resp_queue (ps_m s) ! seg +
          length (proj seg (all_ops c Q @ take k (all_ops c C)))"
      using fi seg by (simp_all add: flow_inv_def)
    have "mask_op c op = op" if "op \<in> set (seg_write_queue (ps_m s) ! seg)" for op
    proof -
      have "op \<in> set (proj seg (all_ops c (Q @ C @ R)))" unfolding old(1) [symmetric] using that by simp
      moreover have "\<forall>cmd \<in> set (Q @ C @ R). in_range c cmd" using ci by (auto simp: commands_inv_def)
      ultimately show ?thesis using all_ops_facts(2) [OF c] proj_seg_in by metis
    qed
    moreover have "hand c (bit ?ready seg) p (seg_write_queue (ps_m s) ! seg, on_bus c ?b seg) =
        (seg_write_queue m1 ! seg, on_bus c b1 seg)"
      using v(1) [OF seg] by (simp add: seg_view_def)
    ultimately have "(if bit ?ready seg then on_bus c ?b seg else []) @ on_bus c b1 seg @ seg_write_queue m1 ! seg =
        on_bus c ?b seg @ seg_write_queue (ps_m s) ! seg"
      by (intro hand_flow [where pause = p]) auto
    then show "proj seg (log @ ?acc) @ on_bus c b1 seg @ seg_write_queue m1 ! seg = proj seg (all_ops c (Q @ C @ R))"
      using old(1) proj_accepted [OF seg] by simp
    have "length (proj seg ?acc) = of_bool (bit d seg)"
      using seg r(3) proj_accepted [OF seg] by (simp add: on_bus_def)
    then show "length (proj seg (log @ ?acc)) = of_bool (bit d seg) + seg_write_resp_queue m1 ! seg +
        length (proj seg (all_ops c Q @ take k (all_ops c C)))"
      using old(2) v(2) [OF seg] by simp
  qed
  ultimately have "joint_inv c byt mem0 cmds s' Q C R k (log @ ?acc)"
    using r(2) eq by (simp add: joint_inv_def s'_def)
  with step show ?thesis by blast
qed

theorem reach_inv:
  assumes c: "cfg_ok c" and sz: "space c \<le> size"
  shows "psdp_reach c wr mem0 cmds s \<Longrightarrow> \<exists>Q C R k log. joint_inv c byt mem0 cmds s Q C R k log"
proof (induction rule: psdp_reach.induct)
  case Init
  show ?case using joint_init [OF c, of byt mem0] by blast
next
  case (Request cmds s data address ev m)
  then show ?case using joint_request [OF c Request.hyps(2,3)] by blast
next
  case (Process cmds s m)
  then show ?case using joint_process [OF c _ Process.hyps(2)] by blast
next
  case (Response cmds s)
  then show ?case using joint_response [OF c, of byt mem0 cmds s] by metis
next
  case (Cycle cmds s p q s')
  then obtain Q C R k log where "joint_inv c byt mem0 cmds s Q C R k log" by blast
  from joint_cycle [OF c sz this, of p q] Cycle.hyps(2) show ?case by (metis sum.inject(2))
qed

end

section \<open>What the store holds\<close>

definition covers :: "write_cmd \<Rightarrow> int \<Rightarrow> bool" where
  "covers cmd x \<longleftrightarrow> int (wc_address cmd) \<le> x \<and> x < int (wc_address cmd) + int (length (wc_data cmd))"

abbreviation do_write :: "write_cmd \<Rightarrow> (int \<Rightarrow> int) \<Rightarrow> int \<Rightarrow> int" where
  "do_write cmd \<equiv> apply_write (wc_address cmd) (wc_data cmd)"

lemma apply_outside:
  assumes c: "cfg_ok c" and r: "in_range c cmd" and "(seg, op) \<in> set (ops_for c cmd)" "\<not> covers cmd x"
  shows "point c seg x op v = v"
proof -
  let ?a = "wc_address cmd" and ?d = "wc_data cmd"
  have d: "is_bytes ?d" using r by (simp add: in_range_def)
  obtain ops where o: "write_segments c ?a ?d = Inr ops" "length ops = segments c ?a (length ?d)"
    "\<forall>k < length ops. fst (ops ! k) = (?a div seg_byte_lanes c + k) mod seg_count c \<and>
       op_of_segment c ?a ?d k (snd (ops ! k))"
    using write_segments_ok [OF c d] by blast
  then obtain k where k: "k < length ops" "ops ! k = (seg, op)"
    using assms(3) by (auto simp: ops_for_def in_set_conv_nth)
  then have ks: "k < segments c ?a (length ?d)" "seg = (?a div seg_byte_lanes c + k) mod seg_count c"
    "op_of_segment c ?a ?d k op" using o by fastforce+
  have L: "0 < seg_byte_lanes c" using c by (simp add: cfg_ok_def)
  have "int (seg_start c ?a k + lane_stop c ?a (length ?d) k) \<le> int ?a + int (length ?d)"
    "int ?a \<le> int (seg_start c ?a k + lane_start c ?a k)"
    using lanes(1,3,4) [OF L ks(1)] by linarith+
  then show ?thesis
    using apply_segment [OF c d ks, of "\<lambda>_. v" x] assms(4) unfolding point_def covers_def by auto
qed

lemma fold_untouched: "(\<And>op. op \<in> set ops \<Longrightarrow> f op v = v) \<Longrightarrow> fold f ops v = v"
  by (induction ops) auto

lemma fold_all_ops:
  assumes c: "cfg_ok c" and "\<forall>cmd \<in> set cmds. in_range c cmd"
  shows "fold (apply_op c) (all_ops c cmds) f = fold do_write cmds f"
  using assms(2)
proof (induction cmds arbitrary: f)
  case (Cons cmd cmds)
  then have r: "in_range c cmd" by simp
  then have "fold (apply_op c) (ops_for c cmd) f = do_write cmd f"
    using apply_transfer [OF c _ ops_for_facts(1) [OF c r]] by (simp add: in_range_def)
  then show ?case using Cons by simp
qed simp

lemma prefix_split:
  assumes "a @ b = c @ d" "length c \<le> length a" obtains m where "a = c @ m" "m @ b = d"
  using assms by (auto simp: append_eq_append_conv2)

lemma store_of_completed:
  assumes c: "cfg_ok c" and j: "joint_inv c byt mem0 cmds s Q C R k log"
    and x: "\<forall>cmd \<in> set (C @ R). \<not> covers cmd x"
  shows "byt (ps_mem s) x = fold do_write Q (byt mem0) x"
proof -
  let ?seg = "nat ((x div int (seg_byte_lanes c)) mod int (seg_count c))"
  have ci: "commands_inv c cmds (ps_m s) Q C R k"
    and fi: "flow_inv c (ps_m s) (ps_bus s) (rw_done_bus (ps_ram s)) Q C R k log"
    and eq: "byt (ps_mem s) = fold (apply_op c) log (byt mem0)"
    using j by (simp_all add: joint_inv_def)
  have r: "\<forall>cmd \<in> set Q. in_range c cmd" "\<forall>cmd \<in> set (C @ R). in_range c cmd"
    using ci by (auto simp: commands_inv_def)
  have "0 < int (seg_count c)" using c by (simp add: cfg_ok_def)
  then have seg: "?seg < seg_count c" by (simp add: nat_less_iff)
  have "proj ?seg log @ (on_bus c (ps_bus s) ?seg @ seg_write_queue (ps_m s) ! ?seg) =
      proj ?seg (all_ops c Q) @ proj ?seg (all_ops c (C @ R))"
    "length (proj ?seg (all_ops c Q)) \<le> length (proj ?seg log)"
    using fi seg by (simp_all add: flow_inv_def)
  then obtain m where m: "proj ?seg log = proj ?seg (all_ops c Q) @ m"
    "m @ (on_bus c (ps_bus s) ?seg @ seg_write_queue (ps_m s) ! ?seg) = proj ?seg (all_ops c (C @ R))"
    by (rule prefix_split)
  have "point c ?seg x op v = v" if op: "op \<in> set m" for op v
  proof -
    have "op \<in> set (proj ?seg (all_ops c (C @ R)))" unfolding m(2) [symmetric] using op by simp
    then obtain cmd where "cmd \<in> set (C @ R)" "(?seg, op) \<in> set (ops_for c cmd)"
      using proj_seg_in by (fastforce simp: all_ops_def)
    then show ?thesis using apply_outside [OF c] r(2) x by blast
  qed
  then have "fold (point c ?seg x) m v = v" for v by (intro fold_untouched) blast
  moreover have "\<forall>(s, op) \<in> set log. s < seg_count c" using fi by (simp add: flow_inv_def)
  moreover have "\<forall>(s, op) \<in> set (all_ops c Q). s < seg_count c" using all_ops_facts(1) [OF c r(1)] by auto
  ultimately show ?thesis
    using fold_apply_proj [OF c, of log] fold_apply_proj [OF c, of "all_ops c Q"] m(1) eq
      fold_all_ops [OF c r(1)] by simp
qed

section \<open>A store to run on\<close>

text \<open>A sparse memory of \<open>n\<close> bytes, as \<open>Memory\<close> behaves inside its size.\<close>

definition fun_write :: "int \<Rightarrow> int \<Rightarrow> bytes \<Rightarrow> (int \<Rightarrow> int) \<Rightarrow> (int \<Rightarrow> int) result" where
  "fun_write n a d m = (if 0 \<le> a \<and> a + int (length d) \<le> n then Inr (put_bytes a d m) else Inl IndexError)"

definition fun_read :: "int \<Rightarrow> int \<Rightarrow> int \<Rightarrow> (int \<Rightarrow> int) \<Rightarrow> bytes result" where
  "fun_read n a k m = (if 0 \<le> a \<and> 0 \<le> k \<and> a + k \<le> n then Inr (map (\<lambda>i. m (a + int i)) [0..<nat k]) else Inl IndexError)"

interpretation sparse: byte_store "fun_write n" "fun_read n" "\<lambda>m. m" n
  by unfold_locales (simp_all add: fun_write_def fun_read_def)

text \<open>Runs from the initial state, for concrete inputs.\<close>

datatype psdp_move = Req int bytes nat | Proc | Resp | Clk bool bool

fun psdp_act :: "psdp_cfg \<Rightarrow> (int \<Rightarrow> bytes \<Rightarrow> 'm \<Rightarrow> 'm result) \<Rightarrow> psdp_move \<Rightarrow> write_cmd list \<times> 'm psdp \<Rightarrow> (write_cmd list \<times> 'm psdp) result" where
  "psdp_act c wr (Req address data ev) (cmds, s) =
     (if is_bytes data then rbind (write_request c address data ev (ps_m s)) (\<lambda>m.
        Inr (cmds @ [\<lparr>wc_address = nat address, wc_data = data, wc_event = ev\<rparr>], s\<lparr>ps_m := m\<rparr>)) else Inl ValueError)"
| "psdp_act c wr Proc (cmds, s) = rbind (process_write c (ps_m s)) (\<lambda>m. Inr (cmds, s\<lparr>ps_m := m\<rparr>))"
| "psdp_act c wr Resp (cmds, s) = Inr (cmds, s\<lparr>ps_m := process_write_resp c (ps_m s)\<rparr>)"
| "psdp_act c wr (Clk p q) (cmds, s) = rbind (psdp_cycle c wr p q s) (\<lambda>s'. Inr (cmds, s'))"

lemma acts_reach:
  assumes "rfold (psdp_act c wr) acts ([], psdp_init c mem0) = Inr (cmds, s)"
  shows "psdp_reach c wr mem0 cmds s"
proof -
  have "(\<lambda>(cmds, s). psdp_reach c wr mem0 cmds s) (cmds, s)"
  proof (rule rfold_invariant [OF assms])
    show "(\<lambda>(cmds, s). psdp_reach c wr mem0 cmds s) ([], psdp_init c mem0)" by (simp add: psdp_reach.Init)
    fix a x y
    assume "(\<lambda>(cmds, s). psdp_reach c wr mem0 cmds s) x" "psdp_act c wr a x = Inr y"
    then show "(\<lambda>(cmds, s). psdp_reach c wr mem0 cmds s) y"
      by (cases a; cases x) (auto simp: rbind_Inr_iff intro: psdp_reach.intros split: if_splits)
  qed
  then show ?thesis by simp
qed

section \<open>Properties\<close>

text \<open>C18: The write side of the parallel simple dual-port RAM model.  Whatever the pauses, the
  number of segments and the interleaving of requests, coroutines and clock cycles, the writes
  complete in the order they were requested; \<open>in_flight\<close> counts the others and the idle
  event is set exactly when there are none; and the store is the original one with the completed
  writes applied in that order, at every byte that no pending write covers.  The store is assumed to
  keep the bytes written inside its size.\<close>

theorem psdp_writes_in_order:
  assumes "byte_store wr rd byt n" "cfg_ok c" "space c \<le> n" "psdp_reach c wr mem0 cmds s"
  shows "length (write_events (ps_m s)) + in_flight (ps_m s) = length cmds \<and>
    write_events (ps_m s) = map (\<lambda>cmd. (wc_event cmd, wc_address cmd, length (wc_data cmd)))
      (take (length (write_events (ps_m s))) cmds) \<and>
    (idle_event (ps_m s) \<longleftrightarrow> in_flight (ps_m s) = 0) \<and>
    (\<forall>x. (\<forall>cmd \<in> set (drop (length (write_events (ps_m s))) cmds). \<not> covers cmd x) \<longrightarrow>
       byt (ps_mem s) x =
       fold (\<lambda>cmd. apply_write (wc_address cmd) (wc_data cmd)) (take (length (write_events (ps_m s))) cmds) (byt mem0) x)"
proof -
  obtain Q C R k log where j: "joint_inv c byt mem0 cmds s Q C R k log"
    using byte_store.reach_inv [OF assms(1,2,3,4)] by blast
  then have e: "write_events (ps_m s) = map event_of Q" "cmds = Q @ C @ R @ write_command_queue (ps_m s)"
    "in_flight (ps_m s) + length Q = length cmds" "idle_event (ps_m s) \<longleftrightarrow> in_flight (ps_m s) = 0"
    by (simp_all add: joint_inv_def commands_inv_def)
  have q: "take (length (write_events (ps_m s))) cmds = Q"
    "drop (length (write_events (ps_m s))) cmds = C @ R @ write_command_queue (ps_m s)"
    unfolding e(1) by (simp_all add: e(2))
  have "byt (ps_mem s) x = fold do_write Q (byt mem0) x"
    if "\<forall>cmd \<in> set (C @ R @ write_command_queue (ps_m s)). \<not> covers cmd x" for x
    by (rule store_of_completed [OF assms(2) j]) (use that in auto)
  then show ?thesis unfolding q using e by (simp add: event_of_def add.commute)
qed

definition demo_cfg :: psdp_cfg where
  "demo_cfg = \<lparr>byte_lanes = 2, seg_count = 2, seg_data_width = 8, seg_byte_lanes = 1, seg_addr_width = 2, seg_be_width = 1\<rparr>"

lemma demo_cfg_ok: "cfg_ok demo_cfg" "space demo_cfg = 8"
  by (auto simp: cfg_ok_def demo_cfg_def space_def intro: exI [of _ 1])

definition demo_moves :: "psdp_move list" where
  "demo_moves = [Req 1 [7, 8, 9] 0, Proc, Clk False False, Req 2 [5] 1, Clk False False, Proc, Clk False False,
     Clk True False, Clk False False, Clk False False, Clk False False, Resp, Resp, Resp, Resp, Resp, Resp, Resp, Resp]"

lemma demo_run:
  "(case rfold (psdp_act demo_cfg (fun_write 8)) demo_moves ([], psdp_init demo_cfg (\<lambda>_. 0)) of
      Inr (cmds, s) \<Rightarrow> length cmds = 2 \<and> map wc_data cmds = [[7, 8, 9], [5]] \<and> length (write_events (ps_m s)) = 2 \<and>
        map (ps_mem s) [0..7] = [0, 7, 5, 9, 0, 0, 0, 0]
    | Inl _ \<Rightarrow> False)"
  by code_simp

lemma demo_reach:
  obtains cmds s where "psdp_reach demo_cfg (fun_write 8) (\<lambda>_. 0) cmds s" "length cmds = 2"
    "map wc_data cmds = [[7, 8, 9], [5]]" "length (write_events (ps_m s)) = 2"
proof -
  obtain cmds s where "rfold (psdp_act demo_cfg (fun_write 8)) demo_moves ([], psdp_init demo_cfg (\<lambda>_. 0)) = Inr (cmds, s)"
    "length cmds = 2" "map wc_data cmds = [[7, 8, 9], [5]]" "length (write_events (ps_m s)) = 2"
    using demo_run by (auto split: sum.splits prod.splits)
  then show thesis using that [of cmds s] acts_reach [of demo_cfg "fun_write 8" demo_moves] by simp
qed

lemma psdp_writes_in_order_witness:
  "\<exists>cmds s. psdp_reach demo_cfg (fun_write 8) (\<lambda>_. 0) cmds s \<and> map wc_data cmds = [[7, 8, 9], [5]] \<and>
     idle_event (ps_m s) \<and>
     ps_mem s = fold (\<lambda>cmd. apply_write (wc_address cmd) (wc_data cmd)) cmds (\<lambda>_. 0)"
proof -
  obtain cmds s where d: "psdp_reach demo_cfg (fun_write 8) (\<lambda>_. 0) cmds s" "length cmds = 2"
    "map wc_data cmds = [[7, 8, 9], [5]]" "length (write_events (ps_m s)) = 2" by (rule demo_reach)
  have "space demo_cfg \<le> 8" by (simp add: demo_cfg_ok)
  from psdp_writes_in_order [OF sparse.byte_store_axioms demo_cfg_ok(1) this d(1)]
  show ?thesis using d by (intro exI [of _ cmds] exI [of _ s]) (auto simp: fun_eq_iff)
qed

text \<open>C38: No step of the write side raises from a reachable state: a turn of the command
  coroutine and every clock cycle succeed, and a request is refused with \<open>ValueError\<close> exactly
  when it does not fit in the address space, else queued with the idle event cleared.\<close>

theorem psdp_write_errors:
  assumes "byte_store wr rd byt n" "cfg_ok c" "space c \<le> n" "psdp_reach c wr mem0 cmds s"
  shows "(\<exists>m. process_write c (ps_m s) = Inr m) \<and> (\<exists>s'. psdp_cycle c wr p q s = Inr s') \<and>
    write_request c address data ev (ps_m s) =
      (if 0 \<le> address \<and> address < space c \<and> address + int (length data) \<le> space c
       then Inr ((ps_m s)\<lparr>in_flight := in_flight (ps_m s) + 1, idle_event := False,
         write_command_queue := write_command_queue (ps_m s) @ [\<lparr>wc_address = nat address, wc_data = data, wc_event = ev\<rparr>]\<rparr>)
       else Inl ValueError)"
proof -
  obtain Q C R k log where j: "joint_inv c byt mem0 cmds s Q C R k log"
    using byte_store.reach_inv [OF assms(1,2,3,4)] by blast
  have "\<exists>m. process_write c (ps_m s) = Inr m"
  proof (cases "write_command_queue (ps_m s)")
    case (Cons cmd rest)
    then show ?thesis using process_ok [OF assms(2) _ Cons] j by (auto simp: joint_inv_def)
  qed (simp add: process_write_def)
  moreover have "\<exists>s'. psdp_cycle c wr p q s = Inr s'"
    using byte_store.joint_cycle [OF assms(1,2,3) j] by blast
  ultimately show ?thesis by (simp add: write_request_def address_space [OF assms(2)])
qed

lemma psdp_write_errors_witness:
  "\<exists>cmds s m. psdp_reach demo_cfg (fun_write 8) (\<lambda>_. 0) cmds s \<and>
     write_request demo_cfg 6 [1, 2, 3] 2 (ps_m s) = Inl ValueError \<and>
     write_request demo_cfg 6 [1, 2] 2 (ps_m s) = Inr m \<and> in_flight m = in_flight (ps_m s) + 1"
proof -
  obtain cmds s where d: "psdp_reach demo_cfg (fun_write 8) (\<lambda>_. 0) cmds s" "length cmds = 2"
    "map wc_data cmds = [[7, 8, 9], [5]]" "length (write_events (ps_m s)) = 2" by (rule demo_reach)
  have "space demo_cfg \<le> 8" by (simp add: demo_cfg_ok)
  note w = psdp_write_errors [OF sparse.byte_store_axioms demo_cfg_ok(1) this d(1)]
  show ?thesis using d(1) w [of False False 6 "[1, 2, 3]" 2] w [of False False 6 "[1, 2]" 2]
    by (intro exI [of _ cmds] exI [of _ s]) (auto simp: demo_cfg_ok)
qed

end
