(* ===== verification/PsdpRead.thy ===== *)
theory PsdpRead imports PsdpWrite begin

text \<open>
  The read side of \<open>dma_psdp_ram.py\<close>: the read master that cuts a request into one word
  per segment and reassembles the bytes, and the RAM with one pipeline stage per segment.  Without a
  reset, whatever the pauses, the responses come in the order of the requests and carry the bytes of
  the store.
\<close>

section \<open>Read master\<close>

record read_cmd =
  rd_address :: nat
  rd_length :: nat
  rd_event :: nat

text \<open>A segment read operation is its address; the current response has the position in the
  command, the segment and the data so far.\<close>

record read_master =
  r_in_flight :: nat
  r_idle_event :: bool
  read_command_queue :: "read_cmd list"
  seg_read_queue :: "int list list"
  seg_read_resp_queue :: "int list list"
  read_resp_command_queue :: "resp_cmd list"
  current_read_resp :: "(resp_cmd \<times> nat \<times> nat \<times> bytes) option"
  read_events :: "(nat \<times> nat \<times> bytes) list"
  rm_pause :: bool

definition read_request :: "psdp_cfg \<Rightarrow> int \<Rightarrow> int \<Rightarrow> nat \<Rightarrow> read_master \<Rightarrow> read_master result" where
  "read_request c address len ev m =
     (if address < 0 \<or> address \<ge> 2 ^ address_width c then Inl ValueError
      else if len < 0 then Inl ValueError
      else if address + len > 2 ^ address_width c then Inl ValueError
      else Inr (m\<lparr>r_in_flight := r_in_flight m + 1, r_idle_event := False,
                  read_command_queue := read_command_queue m @
                    [\<lparr>rd_address = nat address, rd_length = nat len, rd_event = ev\<rparr>]\<rparr>))"

definition read_segments :: "psdp_cfg \<Rightarrow> nat \<Rightarrow> nat \<Rightarrow> (nat \<times> int) list" where
  "read_segments c address len =
     fst (fold (\<lambda>k (ops, seg). (ops @ [(seg, int ((address + k * seg_byte_lanes c) div byte_lanes c))], (seg + 1) mod seg_count c))
       [0..<segments c address len] ([], first_seg c address))"

definition process_read :: "psdp_cfg \<Rightarrow> read_master \<Rightarrow> read_master" where
  "process_read c m =
     (case read_command_queue m of
        [] \<Rightarrow> m
      | cmd # rest \<Rightarrow>
          m\<lparr>read_command_queue := rest,
            read_resp_command_queue := read_resp_command_queue m @
              [\<lparr>rc_address = rd_address cmd, rc_length = rd_length cmd,
                rc_segments = segments c (rd_address cmd) (rd_length cmd),
                rc_first_seg = first_seg c (rd_address cmd), rc_event = rd_event cmd\<rparr>],
            seg_read_queue := fold put_seg (read_segments c (rd_address cmd) (rd_length cmd)) (seg_read_queue m)\<rparr>)"

text \<open>The bytes a command takes of the word of its segment \<open>k\<close>.\<close>

definition word_bytes :: "psdp_cfg \<Rightarrow> resp_cmd \<Rightarrow> nat \<Rightarrow> int \<Rightarrow> bytes" where
  "word_bytes c rc k seg_data =
     (let start = (if k = 0 then start_offset c (rc_address rc) else 0);
          stop = (if k = rc_segments rc - 1 then end_offset c (rc_address rc) (rc_length rc) else seg_byte_lanes c)
      in map (\<lambda>j. drop_bit (j * 8) seg_data AND 255) [start..<stop])"

definition process_read_resp :: "psdp_cfg \<Rightarrow> read_master \<Rightarrow> read_master" where
  "process_read_resp c m =
     (case current_read_resp m of
        None \<Rightarrow> (case read_resp_command_queue m of
            [] \<Rightarrow> m
          | rc # rest \<Rightarrow> m\<lparr>read_resp_command_queue := rest,
                            current_read_resp := Some (rc, 0, rc_first_seg rc, [])\<rparr>)
      | Some (rc, k, seg, data) \<Rightarrow>
          if k < rc_segments rc then
            (case seg_read_resp_queue m ! seg of
               seg_data # rest \<Rightarrow>
                 m\<lparr>seg_read_resp_queue := (seg_read_resp_queue m)[seg := rest],
                   current_read_resp := Some (rc, k + 1, (seg + 1) mod seg_count c, data @ word_bytes c rc k seg_data)\<rparr>
             | [] \<Rightarrow> m)
          else m\<lparr>current_read_resp := None,
                 read_events := read_events m @ [(rc_event rc, rc_address rc, data)],
                 r_in_flight := r_in_flight m - 1,
                 r_idle_event := (if r_in_flight m - 1 = 0 then True else r_idle_event m)\<rparr>)"

text \<open>What the master drives; its local variables have the same three values.\<close>

record read_drive =
  rd_valid :: int
  rd_addr :: int
  rd_resp_ready :: int

definition master_read_seg ::
  "psdp_cfg \<Rightarrow> int \<Rightarrow> int \<Rightarrow> int \<Rightarrow> nat \<Rightarrow> read_master \<times> read_drive \<Rightarrow> read_master \<times> read_drive" where
  "master_read_seg c cmd_ready resp_valid resp_data seg = (\<lambda>(m, b).
     let (m1, b1) =
       (if seg_bit cmd_ready seg \<or> \<not> seg_bit (rd_valid b) seg
        then (case seg_read_queue m ! seg of
            addr # rest \<Rightarrow>
              if \<not> rm_pause m
              then (m\<lparr>seg_read_queue := (seg_read_queue m)[seg := rest]\<rparr>,
                    b\<lparr>rd_addr := set_field (seg_addr_width c) seg addr (rd_addr b),
                      rd_valid := set_seg seg (rd_valid b)\<rparr>)
              else (m, b\<lparr>rd_valid := clear_seg seg (rd_valid b)\<rparr>)
          | [] \<Rightarrow> (m, b\<lparr>rd_valid := clear_seg seg (rd_valid b)\<rparr>))
        else (m, b))
     in (if rd_resp_ready b AND resp_valid AND push_bit seg 1 \<noteq> 0
         then m1\<lparr>seg_read_resp_queue := (seg_read_resp_queue m1)[seg := seg_read_resp_queue m1 ! seg @
                 [get_field (seg_data_width c) seg resp_data]]\<rparr>
         else m1, b1))"

definition master_read_cycle ::
  "psdp_cfg \<Rightarrow> bool \<Rightarrow> int \<Rightarrow> int \<Rightarrow> int \<Rightarrow> read_master \<times> read_drive \<times> read_drive \<Rightarrow> read_master \<times> read_drive \<times> read_drive" where
  "master_read_cycle c reset cmd_ready resp_valid resp_data = (\<lambda>(m, loc, bus).
     if reset then (m, loc\<lparr>rd_valid := 0, rd_resp_ready := 0\<rparr>, bus\<lparr>rd_valid := 0, rd_resp_ready := 0\<rparr>)
     else let (m1, loc1) = fold (master_read_seg c cmd_ready resp_valid resp_data) [0..<seg_count c] (m, loc);
              loc2 = loc1\<lparr>rd_resp_ready := (if rm_pause m1 then 0 else 2 ^ seg_count c - 1)\<rparr>
          in (m1, loc2, loc2))"

section \<open>The RAM, read side\<close>

text \<open>One pipeline stage per segment (the shift loop between stages has nothing to do for a depth
  of one), the local values and the driven ones.\<close>

record ram_drive =
  q_cmd_ready :: int
  q_resp_valid :: int
  q_resp_data :: int

record ram_read =
  q_pipeline :: "int option list"
  q_loc :: ram_drive
  q_bus :: ram_drive
  q_pause :: bool

definition ram_read_seg ::
  "psdp_cfg \<Rightarrow> (int \<Rightarrow> int \<Rightarrow> bytes result) \<Rightarrow> int \<Rightarrow> read_drive \<Rightarrow> nat \<Rightarrow>
   int option list \<times> ram_drive \<Rightarrow> (int option list \<times> ram_drive) result" where
  "ram_read_seg c rd sz bus seg = (\<lambda>(pl, d).
     let (pl1, d1) =
       (if seg_bit (rd_resp_ready bus) seg \<or> \<not> seg_bit (q_resp_valid d) seg
        then (case pl ! seg of
            Some v \<Rightarrow> (pl[seg := None],
              d\<lparr>q_resp_data := set_field (seg_data_width c) seg v (q_resp_data d), q_resp_valid := set_seg seg (q_resp_valid d)\<rparr>)
          | None \<Rightarrow> (pl, d\<lparr>q_resp_valid := clear_seg seg (q_resp_valid d)\<rparr>))
        else (pl, d))
     in rbind (if q_cmd_ready d AND rd_valid bus AND push_bit seg 1 \<noteq> 0
               then let addr = (get_field (seg_addr_width c) seg (rd_addr bus) * int (seg_count c) + int seg) * int (seg_byte_lanes c)
                    in rbind (rd (addr mod sz) (int (seg_byte_lanes c))) (\<lambda>data. Inr (pl1[seg := Some (le_int data)]))
               else Inr pl1) (\<lambda>pl2.
        Inr (pl2, d1\<lparr>q_cmd_ready := (if \<not> seg_bit (q_resp_valid d1) seg \<or> pl2 ! seg = None
                                     then set_seg seg (q_cmd_ready d1) else clear_seg seg (q_cmd_ready d1))\<rparr>)))"

definition ram_read_cycle ::
  "psdp_cfg \<Rightarrow> (int \<Rightarrow> int \<Rightarrow> bytes result) \<Rightarrow> int \<Rightarrow> bool \<Rightarrow> read_drive \<Rightarrow> ram_read \<Rightarrow> ram_read result" where
  "ram_read_cycle c rd sz reset bus r =
     (if reset
      then Inr (r\<lparr>q_loc := (q_loc r)\<lparr>q_cmd_ready := 0, q_resp_valid := 0\<rparr>,
                  q_bus := (q_bus r)\<lparr>q_cmd_ready := 0, q_resp_valid := 0\<rparr>\<rparr>)
      else rbind (rfold (ram_read_seg c rd sz bus) [0..<seg_count c] (q_pipeline r, q_loc r)) (\<lambda>(pl, d).
        let d1 = (if q_pause r then d\<lparr>q_cmd_ready := 0\<rparr> else d)
        in Inr (r\<lparr>q_pipeline := pl, q_loc := d1, q_bus := d1\<rparr>)))"

section \<open>Master and RAM together\<close>

record psdp_rd =
  pr_m :: read_master
  pr_loc :: read_drive
  pr_bus :: read_drive
  pr_ram :: ram_read

definition psdp_rd_init :: "psdp_cfg \<Rightarrow> psdp_rd" where
  "psdp_rd_init c = \<lparr>pr_m = \<lparr>r_in_flight = 0, r_idle_event = True, read_command_queue = [],
       seg_read_queue = replicate (seg_count c) [], seg_read_resp_queue = replicate (seg_count c) [],
       read_resp_command_queue = [], current_read_resp = None, read_events = [], rm_pause = False\<rparr>,
     pr_loc = \<lparr>rd_valid = 0, rd_addr = 0, rd_resp_ready = 0\<rparr>, pr_bus = \<lparr>rd_valid = 0, rd_addr = 0, rd_resp_ready = 0\<rparr>,
     pr_ram = \<lparr>q_pipeline = replicate (seg_count c) None,
       q_loc = \<lparr>q_cmd_ready = 0, q_resp_valid = 0, q_resp_data = 0\<rparr>,
       q_bus = \<lparr>q_cmd_ready = 0, q_resp_valid = 0, q_resp_data = 0\<rparr>, q_pause = False\<rparr>\<rparr>"

definition psdp_rd_cycle ::
  "psdp_cfg \<Rightarrow> (int \<Rightarrow> int \<Rightarrow> bytes result) \<Rightarrow> int \<Rightarrow> bool \<Rightarrow> bool \<Rightarrow> psdp_rd \<Rightarrow> psdp_rd result" where
  "psdp_rd_cycle c rd sz p q s =
     (let b = q_bus (pr_ram s);
          (m, loc, bus) = master_read_cycle c False (q_cmd_ready b) (q_resp_valid b) (q_resp_data b)
            ((pr_m s)\<lparr>rm_pause := p\<rparr>, pr_loc s, pr_bus s)
      in rbind (ram_read_cycle c rd sz False (pr_bus s) ((pr_ram s)\<lparr>q_pause := q\<rparr>)) (\<lambda>r.
         Inr \<lparr>pr_m = m, pr_loc = loc, pr_bus = bus, pr_ram = r\<rparr>))"

inductive psdp_rd_reach ::
  "psdp_cfg \<Rightarrow> (int \<Rightarrow> int \<Rightarrow> bytes result) \<Rightarrow> int \<Rightarrow> read_cmd list \<Rightarrow> psdp_rd \<Rightarrow> bool"
  for c rd sz where
  Init: "psdp_rd_reach c rd sz [] (psdp_rd_init c)"
| Request: "psdp_rd_reach c rd sz cmds s \<Longrightarrow> read_request c address len ev (pr_m s) = Inr m \<Longrightarrow>
    psdp_rd_reach c rd sz (cmds @ [\<lparr>rd_address = nat address, rd_length = nat len, rd_event = ev\<rparr>]) (s\<lparr>pr_m := m\<rparr>)"
| Process: "psdp_rd_reach c rd sz cmds s \<Longrightarrow> psdp_rd_reach c rd sz cmds (s\<lparr>pr_m := process_read c (pr_m s)\<rparr>)"
| Response: "psdp_rd_reach c rd sz cmds s \<Longrightarrow>
    psdp_rd_reach c rd sz cmds (s\<lparr>pr_m := process_read_resp c (pr_m s)\<rparr>)"
| Cycle: "psdp_rd_reach c rd sz cmds s \<Longrightarrow> psdp_rd_cycle c rd sz p q s = Inr s' \<Longrightarrow>
    psdp_rd_reach c rd sz cmds s'"

section \<open>Segment loops\<close>

text \<open>A loop over the segments whose turn for a segment changes the view of that segment only.\<close>

lemma rfold_segments:
  assumes "\<And>seg x. seg < n \<Longrightarrow> P x \<Longrightarrow> \<exists>y. f seg x = Inr y \<and> P y \<and>
      (\<forall>s < n. view y s = (if s = seg then g s (view x s) else view x s))"
    and "P x" "k \<le> n"
  shows "\<exists>y. rfold f [0..<k] x = Inr y \<and> P y \<and> (\<forall>s < n. view y s = (if s < k then g s (view x s) else view x s))"
  using assms(3)
proof (induction k)
  case (Suc k)
  then obtain y where y: "rfold f [0..<k] x = Inr y" "P y" "\<forall>s < n. view y s = (if s < k then g s (view x s) else view x s)"
    by auto
  have kn: "k < n" using Suc.prems by simp
  obtain z where "f k y = Inr z" "P z" "\<forall>s < n. view z s = (if s = k then g s (view y s) else view y s)"
    using assms(1) [OF kn y(2)] by blast
  then show ?case using y by (auto simp: rfold_append less_Suc_eq)
qed (use assms(2) in simp)

lemma rfold_Inr: "rfold (\<lambda>x s. Inr (f x s)) xs s = Inr (fold f xs s)"
  by (induction xs arbitrary: s) auto

lemma fold_segments:
  assumes "\<And>seg x. seg < n \<Longrightarrow> P x \<Longrightarrow> P (f seg x) \<and>
      (\<forall>s < n. view (f seg x) s = (if s = seg then g s (view x s) else view x s))"
    and "P x"
  shows "P (fold f [0..<n] x) \<and> (\<forall>s < n. view (fold f [0..<n] x) s = g s (view x s))"
  using rfold_segments [where f = "\<lambda>seg x. Inr (f seg x)" and n = n and P = P and view = view and g = g and k = n] assms
  by (auto simp: rfold_Inr)

section \<open>One segment of the master\<close>

fun rhand :: "bool \<Rightarrow> bool \<Rightarrow> (int \<Rightarrow> int) \<Rightarrow> int list \<times> int list \<Rightarrow> int list \<times> int list" where
  "rhand rdy pause f (q, p) =
     (if rdy \<or> p = []
      then (case q of op # rest \<Rightarrow> if pause then (q, []) else (rest, [f op]) | [] \<Rightarrow> ([], []))
      else (q, p))"

definition on_field :: "nat \<Rightarrow> int \<Rightarrow> int \<Rightarrow> nat \<Rightarrow> int list" where
  "on_field w valid data seg = (if bit valid seg then [get_field w seg data] else [])"

definition mr_view :: "psdp_cfg \<Rightarrow> read_master \<times> read_drive \<Rightarrow> nat \<Rightarrow> (int list \<times> int list) \<times> int list" where
  "mr_view c = (\<lambda>(m, b) seg. ((seg_read_queue m ! seg, on_field (seg_addr_width c) (rd_valid b) (rd_addr b) seg),
     seg_read_resp_queue m ! seg))"

definition mr_step :: "psdp_cfg \<Rightarrow> int \<Rightarrow> int \<Rightarrow> int \<Rightarrow> int \<Rightarrow> bool \<Rightarrow> nat \<Rightarrow>
    (int list \<times> int list) \<times> int list \<Rightarrow> (int list \<times> int list) \<times> int list" where
  "mr_step c cmd_ready resp_valid resp_data rr pause seg = (\<lambda>(qp, r).
     (rhand (bit cmd_ready seg) pause (\<lambda>a. a AND ones (seg_addr_width c)) qp,
      r @ (if bit rr seg then on_field (seg_data_width c) resp_valid resp_data seg else [])))"

definition mr_rest :: "nat \<Rightarrow> read_master \<Rightarrow> int \<Rightarrow> read_master \<times> read_drive \<Rightarrow> bool" where
  "mr_rest n m0 rr = (\<lambda>(m, b). r_in_flight m = r_in_flight m0 \<and> r_idle_event m = r_idle_event m0 \<and>
     read_command_queue m = read_command_queue m0 \<and> read_resp_command_queue m = read_resp_command_queue m0 \<and>
     current_read_resp m = current_read_resp m0 \<and> read_events m = read_events m0 \<and> rm_pause m = rm_pause m0 \<and>
     length (seg_read_queue m) = n \<and> length (seg_read_resp_queue m) = n \<and> rd_resp_ready b = rr)"

lemma on_field_simps [simp]:
  "on_field w (set_seg seg v) (set_field w seg x d) s = (if s = seg then [x AND ones w] else on_field w v d s)"
  "on_field w (clear_seg seg v) d s = (if s = seg then [] else on_field w v d s)"
  "on_field w v d s = [] \<longleftrightarrow> \<not> bit v s"
  by (simp_all add: on_field_def field_simps)

lemma seg_bit_and: "seg_bit (a AND b) seg \<longleftrightarrow> bit a seg \<and> bit b seg"
  by (simp add: seg_bit_iff bit_simps)

lemma and_bit_iff: "a AND b AND push_bit seg 1 \<noteq> (0 :: int) \<longleftrightarrow> bit a seg \<and> bit b seg"
  using and_seg_bit .

lemma mr_cases:
  obtains (load) op rest where "bit ready seg \<or> \<not> bit (rd_valid b) seg"
      "seg_read_queue m ! seg = op # rest" "\<not> rm_pause m"
  | (clear) "bit ready seg \<or> \<not> bit (rd_valid b) seg" "seg_read_queue m ! seg = [] \<or> rm_pause m"
  | (hold) "\<not> bit ready seg" "bit (rd_valid b) seg"
  by (cases "seg_read_queue m ! seg") auto

lemma master_read_seg_view:
  assumes r: "mr_rest n m0 rr x" and n: "seg < n"
  shows "mr_rest n m0 rr (master_read_seg c cr rv rdat seg x) \<and>
    (\<forall>s < n. mr_view c (master_read_seg c cr rv rdat seg x) s =
      (if s = seg then mr_step c cr rv rdat rr (rm_pause m0) s (mr_view c x s) else mr_view c x s))"
proof -
  obtain m b where x: "x = (m, b)" by (cases x)
  have l: "seg < length (seg_read_queue m)" "seg < length (seg_read_resp_queue m)" "rd_resp_ready b = rr" "rm_pause m = rm_pause m0"
    using r n by (simp_all add: x mr_rest_def)
  show ?thesis
  proof (cases rule: mr_cases [of cr seg b m])
    case load
    then have "bit cr seg \<or> on_field (seg_addr_width c) (rd_valid b) (rd_addr b) seg = []" by simp
    with load show ?thesis using r l unfolding x master_read_seg_def and_bit_iff seg_bit_iff
      by (auto simp: mr_rest_def mr_view_def mr_step_def on_field_def field_simps)
  next
    case clear
    then have "bit cr seg \<or> on_field (seg_addr_width c) (rd_valid b) (rd_addr b) seg = []" by simp
    with clear show ?thesis using r l unfolding x master_read_seg_def and_bit_iff seg_bit_iff
      by (auto simp: mr_rest_def mr_view_def mr_step_def on_field_def field_simps split: list.splits)
  next
    case hold
    then show ?thesis using r l unfolding x master_read_seg_def and_bit_iff seg_bit_iff
      by (auto simp: mr_rest_def mr_view_def mr_step_def on_field_def)
  qed
qed

section \<open>One segment of the RAM\<close>

definition rr_view :: "psdp_cfg \<Rightarrow> int option list \<times> ram_drive \<Rightarrow> nat \<Rightarrow> bool \<times> int option \<times> int list" where
  "rr_view c = (\<lambda>(pl, d) seg. (bit (q_cmd_ready d) seg, pl ! seg,
     on_field (seg_data_width c) (q_resp_valid d) (q_resp_data d) seg))"

fun rr_step :: "nat \<Rightarrow> (int \<Rightarrow> int) \<Rightarrow> bool \<Rightarrow> int list \<Rightarrow> bool \<times> int option \<times> int list \<Rightarrow> bool \<times> int option \<times> int list" where
  "rr_step w val rsp cmd (rdy, pipe, out) =
     (let out1 = (if rsp \<or> out = [] then (case pipe of Some v \<Rightarrow> [v AND ones w] | None \<Rightarrow> []) else out);
          pipe1 = (if rsp \<or> out = [] then None else pipe);
          pipe2 = (if rdy then (case cmd of a # _ \<Rightarrow> Some (val a) | [] \<Rightarrow> pipe1) else pipe1)
      in (out1 = [] \<or> pipe2 = None, pipe2, out1))"

definition word_addr :: "psdp_cfg \<Rightarrow> nat \<Rightarrow> int \<Rightarrow> int" where
  "word_addr c seg a = (a * int (seg_count c) + int seg) * int (seg_byte_lanes c)"

definition word_at :: "psdp_cfg \<Rightarrow> (int \<Rightarrow> int) \<Rightarrow> nat \<Rightarrow> int \<Rightarrow> int" where
  "word_at c f seg a = le_int (map (\<lambda>i. f (word_addr c seg a + int i)) [0..<seg_byte_lanes c])"

lemma word_addr_range:
  assumes "cfg_ok c" "seg < seg_count c" "0 \<le> a" "a < 2 ^ seg_addr_width c"
  shows "0 \<le> word_addr c seg a" "word_addr c seg a + int (seg_byte_lanes c) \<le> space c"
proof -
  have L: "byte_lanes c = seg_byte_lanes c * seg_count c" using assms(1) by (simp add: cfg_ok_def)
  show "0 \<le> word_addr c seg a" using assms(3) by (simp add: word_addr_def)
  have "(a * int (seg_count c) + int seg + 1) * int (seg_byte_lanes c) \<le>
      ((a + 1) * int (seg_count c)) * int (seg_byte_lanes c)"
    using assms(2) by (intro mult_right_mono) (simp_all add: algebra_simps)
  also have "\<dots> \<le> (2 ^ seg_addr_width c * int (seg_count c)) * int (seg_byte_lanes c)"
    using assms(4) by (intro mult_right_mono) simp_all
  also have "\<dots> = space c" by (simp add: space_def L)
  finally show "word_addr c seg a + int (seg_byte_lanes c) \<le> space c"
    by (simp add: word_addr_def algebra_simps)
qed

lemma get_field_range: "0 \<le> get_field w seg x" "get_field w seg x < 2 ^ w"
  using get_field_bounds [of w seg x] by auto

context byte_store begin

lemma ram_read_seg_view:
  assumes c: "cfg_ok c" and sz: "space c \<le> size" and n: "seg < seg_count c" and l: "length (fst x) = seg_count c"
  shows "\<exists>y. ram_read_seg c (\<lambda>a k. rd a k m) size b seg x = Inr y \<and> length (fst y) = seg_count c \<and>
    (\<forall>s < seg_count c. rr_view c y s =
      (if s = seg then rr_step (seg_data_width c) (word_at c (byt m) s) (bit (rd_resp_ready b) s)
          (on_field (seg_addr_width c) (rd_valid b) (rd_addr b) s) (rr_view c x s)
       else rr_view c x s))"
proof -
  obtain pl d where x: "x = (pl, d)" by (cases x)
  have l: "seg < length pl" "length pl = seg_count c" using l n by (simp_all add: x)
  let ?a = "get_field (seg_addr_width c) seg (rd_addr b)"
  have wr: "0 \<le> word_addr c seg ?a" "word_addr c seg ?a + int (seg_byte_lanes c) \<le> size"
    using word_addr_range [OF c n get_field_range [of "seg_addr_width c" seg "rd_addr b"]] sz by linarith+
  have L: "0 < seg_byte_lanes c" using c by (simp add: cfg_ok_def)
  then have "word_addr c seg ?a mod size = word_addr c seg ?a" using wr by (simp add: mod_pos_pos_trivial)
  then have rd: "rd (word_addr c seg ?a mod size) (int (seg_byte_lanes c)) m =
      Inr (map (\<lambda>i. byt m (word_addr c seg ?a + int i)) [0..<seg_byte_lanes c])"
    using rd_ok [OF wr(1) _ wr(2)] by simp
  define s1 where "s1 = (if bit (rd_resp_ready b) seg \<or> \<not> bit (q_resp_valid d) seg
        then (case pl ! seg of
            Some v \<Rightarrow> (pl[seg := None],
              d\<lparr>q_resp_data := set_field (seg_data_width c) seg v (q_resp_data d), q_resp_valid := set_seg seg (q_resp_valid d)\<rparr>)
          | None \<Rightarrow> (pl, d\<lparr>q_resp_valid := clear_seg seg (q_resp_valid d)\<rparr>))
        else (pl, d))"
  obtain pl1 d1 where e1: "s1 = (pl1, d1)" by (cases s1)
  have s1v: "length pl1 = length pl" "q_cmd_ready d1 = q_cmd_ready d"
    "\<forall>s. s \<noteq> seg \<longrightarrow> rr_view c (pl1, d1) s = rr_view c x s"
    "pl1 ! seg = (if bit (rd_resp_ready b) seg \<or> \<not> bit (q_resp_valid d) seg then None else pl ! seg)"
    "on_field (seg_data_width c) (q_resp_valid d1) (q_resp_data d1) seg =
      (if bit (rd_resp_ready b) seg \<or> \<not> bit (q_resp_valid d) seg
       then (case pl ! seg of Some v \<Rightarrow> [v AND ones (seg_data_width c)] | None \<Rightarrow> [])
       else on_field (seg_data_width c) (q_resp_valid d) (q_resp_data d) seg)"
    "bit (q_resp_valid d1) seg \<longleftrightarrow> (if bit (rd_resp_ready b) seg \<or> \<not> bit (q_resp_valid d) seg
       then pl ! seg \<noteq> None else bit (q_resp_valid d) seg)"
    using e1 l unfolding s1_def x by (auto simp: rr_view_def bit_clear_seg bit_set_seg split: if_splits option.splits)
  let ?go = "bit (q_cmd_ready d) seg \<and> bit (rd_valid b) seg"
  define pl2 where "pl2 = (if ?go then pl1[seg := Some (word_at c (byt m) seg ?a)] else pl1)"
  define d2 where "d2 = d1\<lparr>q_cmd_ready := (if \<not> bit (q_resp_valid d1) seg \<or> pl2 ! seg = None
      then set_seg seg (q_cmd_ready d1) else clear_seg seg (q_cmd_ready d1))\<rparr>"
  have step: "ram_read_seg c (\<lambda>a k. rd a k m) size b seg x = Inr (pl2, d2)"
    unfolding x ram_read_seg_def prod.case and_bit_iff seg_bit_iff s1_def [symmetric] e1 Let_def
    using rd by (auto simp: pl2_def d2_def word_at_def word_addr_def)
  have "rr_view c (pl2, d2) seg = rr_step (seg_data_width c) (word_at c (byt m) seg) (bit (rd_resp_ready b) seg)
          (on_field (seg_addr_width c) (rd_valid b) (rd_addr b) seg) (rr_view c x seg)"
    using s1v l unfolding x rr_view_def d2_def pl2_def
    by (auto simp: field_simps on_field_def [of "seg_addr_width c"] Let_def split: if_splits)
  moreover have "rr_view c (pl2, d2) s = rr_view c x s" if "s \<noteq> seg" for s
  proof -
    have "rr_view c (pl2, d2) s = rr_view c (pl1, d1) s"
      using that by (simp add: rr_view_def d2_def pl2_def field_simps)
    then show ?thesis using s1v(3) that by simp
  qed
  ultimately show ?thesis using step s1v(1) l by (auto simp: pl2_def)
qed

lemma ram_read_segs:
  assumes c: "cfg_ok c" and sz: "space c \<le> size" and l: "length pl = seg_count c"
  shows "\<exists>pl' d'. rfold (ram_read_seg c (\<lambda>a k. rd a k m) size b) [0..<seg_count c] (pl, d) = Inr (pl', d') \<and>
    length pl' = seg_count c \<and>
    (\<forall>s < seg_count c. rr_view c (pl', d') s = rr_step (seg_data_width c) (word_at c (byt m) s) (bit (rd_resp_ready b) s)
          (on_field (seg_addr_width c) (rd_valid b) (rd_addr b) s) (rr_view c (pl, d) s))"
  using rfold_segments [where P = "\<lambda>x. length (fst x) = seg_count c" and n = "seg_count c" and k = "seg_count c"
      and view = "rr_view c" and x = "(pl, d)" and f = "ram_read_seg c (\<lambda>a k. rd a k m) size b",
      OF ram_read_seg_view [OF c sz]] l by fastforce

end

section \<open>A segment end to end\<close>

definition pipe_list :: "'a option \<Rightarrow> 'a list" where
  "pipe_list p = (case p of Some v \<Rightarrow> [v] | None \<Rightarrow> [])"

lemma pipe_list_simps [simp]: "pipe_list None = []" "pipe_list (Some v) = [v]"
  by (simp_all add: pipe_list_def)

lemma segment_flow:
  assumes "rhand rdy pause f (q, p) = (q', p')" "rr_step w val rsp p (rdy, pipe, out) = (rdy', pipe', out')"
    and "\<forall>a \<in> set q. f a = a" "\<forall>v. pipe = Some v \<longrightarrow> v AND ones w = v" "rdy \<longrightarrow> out = [] \<or> pipe = None" "length p \<le> 1"
  shows "(if rsp then out else []) @ out' @ pipe_list pipe' @ map val (p' @ q') = out @ pipe_list pipe @ map val (p @ q)"
    and "rdy' \<longrightarrow> out' = [] \<or> pipe' = None"
    and "set p' \<union> set q' \<subseteq> set p \<union> set q" "length p' \<le> 1"
    and "\<forall>v. pipe' = Some v \<longrightarrow> pipe = Some v \<or> v \<in> val ` set p"
  using assms by (cases p; cases pipe; auto simp: Let_def split: if_splits list.splits)+

section \<open>The bytes of a word\<close>

definition store_bytes :: "(int \<Rightarrow> int) \<Rightarrow> bool" where
  "store_bytes f \<longleftrightarrow> (\<forall>x. 0 \<le> f x \<and> f x < 256)"

lemma is_bytes_map: "store_bytes f \<Longrightarrow> is_bytes (map (\<lambda>i. f (g i)) xs)"
  by (auto simp: store_bytes_def is_bytes_def)

lemma word_at_bounds:
  assumes "store_bytes f" shows "word_at c f seg a AND ones (8 * seg_byte_lanes c) = word_at c f seg a"
proof -
  have "word_at c f seg a < 256 ^ seg_byte_lanes c" "0 \<le> word_at c f seg a"
    unfolding word_at_def
    using le_int_bounds [OF is_bytes_map [OF assms, of "\<lambda>i. word_addr c seg a + int i" "[0..<seg_byte_lanes c]"]] by simp_all
  then show ?thesis unfolding take_bit_ones
    by (intro take_bit_int_eq_self) (simp_all add: power_mult)
qed

lemma word_bytes_range:
  assumes "cfg_ok c" "store_bytes f" "k < segments c address len" "rc_address rc = address" "rc_length rc = len"
    "rc_segments rc = segments c address len"
  defines "seg \<equiv> (address div seg_byte_lanes c + k) mod seg_count c"
  shows "word_bytes c rc k (word_at c f seg (int ((address + k * seg_byte_lanes c) div byte_lanes c))) =
    map (\<lambda>i. f (int address + int i))
      [data_offset c address k..<data_offset c address k + (lane_stop c address len k - lane_start c address k)]"
proof -
  let ?L = "seg_byte_lanes c" and ?a = "int ((address + k * seg_byte_lanes c) div byte_lanes c)"
  have L: "0 < ?L" "byte_lanes c = ?L * seg_count c" using assms(1) by (simp_all add: cfg_ok_def)
  note l = lanes [OF L(1) assms(3)]
  have "(address + k * ?L) div byte_lanes c = (address div ?L + k) div seg_count c"
    using L by (simp add: div_mult2_eq add.commute)
  moreover have "int ((address div ?L + k) div seg_count c) * int (seg_count c) + int seg = int (address div ?L + k)"
    unfolding seg_def by (metis div_mult_mod_eq of_nat_add of_nat_mult)
  ultimately have base: "word_addr c seg ?a = int (seg_start c address k)"
    by (simp add: word_addr_def seg_start_def)
  let ?a' = "lane_start c address k" and ?b = "lane_stop c address len k"
  have "word_bytes c rc k (word_at c f seg ?a) = map (\<lambda>j. drop_bit (j * 8) (word_at c f seg ?a) AND 255) [?a'..<?b]"
    unfolding word_bytes_def Let_def assms(4-6) lane_start_def lane_stop_def ..
  also have "\<dots> = map (\<lambda>j. f (int (seg_start c address k) + int j)) [?a'..<?b]"
  proof (rule map_cong [OF refl])
    fix j assume "j \<in> set [?a'..<?b]"
    then have j: "j < ?L" using l(2) by simp
    have "drop_bit (j * 8) (word_at c f seg ?a) AND 255 = take_bit 8 (drop_bit (8 * j) (word_at c f seg ?a))"
      using take_bit_ones [of _ 8] by (simp add: mult.commute)
    also have "\<dots> = f (int (seg_start c address k) + int j)"
      unfolding word_at_def base using le_int_byte [OF is_bytes_map [OF assms(2),
        of "\<lambda>i. int (seg_start c address k) + int i" "[0..<?L]"], of j] j by simp
    finally show "drop_bit (j * 8) (word_at c f seg ?a) AND 255 = f (int (seg_start c address k) + int j)" .
  qed
  also have "\<dots> = map (\<lambda>i. f (int address + int i)) [data_offset c address k..<data_offset c address k + (?b - ?a')]"
  proof (rule nth_equalityI)
    fix i assume i: "i < length (map (\<lambda>j. f (int (seg_start c address k) + int j)) [?a'..<?b])"
    have "int (seg_start c address k) + int (?a' + i) = int address + int (data_offset c address k + i)"
      using l(3) by linarith
    then show "map (\<lambda>j. f (int (seg_start c address k) + int j)) [?a'..<?b] ! i =
      map (\<lambda>i. f (int address + int i)) [data_offset c address k..<data_offset c address k + (?b - ?a')] ! i"
      using i by (simp only: length_map length_upt nth_map nth_upt less_diff_conv) (simp add: add.commute add.left_commute)
  qed simp
  finally show ?thesis .
qed

section \<open>The operations of a read command\<close>

definition rops_for :: "psdp_cfg \<Rightarrow> read_cmd \<Rightarrow> (nat \<times> int) list" where
  "rops_for c cmd = read_segments c (rd_address cmd) (rd_length cmd)"

definition all_rops :: "psdp_cfg \<Rightarrow> read_cmd list \<Rightarrow> (nat \<times> int) list" where
  "all_rops c cmds = concat (map (rops_for c) cmds)"

lemma all_rops_simps [simp]:
  "all_rops c [] = []" "all_rops c (x # l) = rops_for c x @ all_rops c l" "all_rops c (l @ l') = all_rops c l @ all_rops c l'"
  by (simp_all add: all_rops_def)

definition r_in_range :: "psdp_cfg \<Rightarrow> read_cmd \<Rightarrow> bool" where
  "r_in_range c cmd \<longleftrightarrow> int (rd_address cmd) < space c \<and> int (rd_address cmd) + int (rd_length cmd) \<le> space c"

lemma read_segments_eq:
  "read_segments c address len = map (\<lambda>k. ((address div seg_byte_lanes c + k) mod seg_count c,
     int ((address + k * seg_byte_lanes c) div byte_lanes c))) [0..<segments c address len]"
proof -
  have "fold (\<lambda>k (ops, seg). (ops @ [(seg, int ((address + k * seg_byte_lanes c) div byte_lanes c))], (seg + 1) mod seg_count c))
      [0..<n] ([], first_seg c address) =
    (map (\<lambda>k. ((address div seg_byte_lanes c + k) mod seg_count c, int ((address + k * seg_byte_lanes c) div byte_lanes c))) [0..<n],
     (address div seg_byte_lanes c + n) mod seg_count c)" for n
    by (induction n) (simp_all add: first_seg_def mod_Suc_eq)
  then show ?thesis by (simp add: read_segments_def)
qed

lemma rops_for_facts:
  assumes c: "cfg_ok c" and r: "r_in_range c cmd"
  shows "length (rops_for c cmd) = segments c (rd_address cmd) (rd_length cmd)"
    and "(s, a) \<in> set (rops_for c cmd) \<Longrightarrow> s < seg_count c \<and> a AND ones (seg_addr_width c) = a"
proof -
  let ?a = "rd_address cmd"
  show "length (rops_for c cmd) = segments c (rd_address cmd) (rd_length cmd)"
    by (simp add: rops_for_def read_segments_eq)
  have L: "0 < seg_byte_lanes c" "0 < seg_count c" "byte_lanes c = seg_byte_lanes c * seg_count c"
    using c by (simp_all add: cfg_ok_def)
  assume "(s, a) \<in> set (rops_for c cmd)"
  then obtain k where k: "k < segments c ?a (rd_length cmd)" "s = (?a div seg_byte_lanes c + k) mod seg_count c"
    "a = int ((?a + k * seg_byte_lanes c) div byte_lanes c)" by (auto simp: rops_for_def read_segments_eq)
  have "int (seg_start c ?a k) < space c"
    using transfer_layout(2,7) [OF L(1) k(1)] r by (auto simp: r_in_range_def)
  then have "int ((?a div seg_byte_lanes c + k) * seg_byte_lanes c) < int (2 ^ seg_addr_width c * seg_count c * seg_byte_lanes c)"
    by (simp add: space_def seg_start_def L mult.assoc mult.commute [of "int (seg_byte_lanes c)"])
  then have "(?a div seg_byte_lanes c + k) * seg_byte_lanes c < 2 ^ seg_addr_width c * seg_count c * seg_byte_lanes c"
    by (simp only: of_nat_less_iff)
  then have "?a div seg_byte_lanes c + k < 2 ^ seg_addr_width c * seg_count c" by simp
  then have "(?a div seg_byte_lanes c + k) div seg_count c < 2 ^ seg_addr_width c"
    by (simp add: less_mult_imp_div_less)
  moreover have "(?a + k * seg_byte_lanes c) div byte_lanes c = (?a div seg_byte_lanes c + k) div seg_count c"
    using L by (simp add: div_mult2_eq add.commute)
  ultimately have "a < 2 ^ seg_addr_width c" "0 \<le> a" unfolding k(3) by simp_all
  then show "s < seg_count c \<and> a AND ones (seg_addr_width c) = a"
    using k(2) L(2) by (simp add: take_bit_ones take_bit_int_eq_self)
qed

section \<open>The joint invariant\<close>

definition rrc_of :: "psdp_cfg \<Rightarrow> read_cmd \<Rightarrow> resp_cmd" where
  "rrc_of c cmd = \<lparr>rc_address = rd_address cmd, rc_length = rd_length cmd,
     rc_segments = segments c (rd_address cmd) (rd_length cmd),
     rc_first_seg = first_seg c (rd_address cmd), rc_event = rd_event cmd\<rparr>"

definition bytes_at :: "(int \<Rightarrow> int) \<Rightarrow> nat \<Rightarrow> nat \<Rightarrow> bytes" where
  "bytes_at f address len = map (\<lambda>i. f (int address + int i)) [0..<len]"

text \<open>How many bytes of a command the first \<open>k\<close> segments give.\<close>

definition read_upto :: "psdp_cfg \<Rightarrow> read_cmd \<Rightarrow> nat \<Rightarrow> nat" where
  "read_upto c cmd k = (if k < segments c (rd_address cmd) (rd_length cmd) then data_offset c (rd_address cmd) k else rd_length cmd)"

definition rcommands_inv :: "psdp_cfg \<Rightarrow> (int \<Rightarrow> int) \<Rightarrow> read_cmd list \<Rightarrow> read_master \<Rightarrow>
    read_cmd list \<Rightarrow> read_cmd list \<Rightarrow> read_cmd list \<Rightarrow> nat \<Rightarrow> bool" where
  "rcommands_inv c f cmds m Q C R k \<longleftrightarrow>
     cmds = Q @ C @ R @ read_command_queue m \<and> (\<forall>cmd \<in> set cmds. r_in_range c cmd) \<and>
     read_resp_command_queue m = map (rrc_of c) R \<and> length C \<le> 1 \<and> k \<le> length (all_rops c C) \<and>
     current_read_resp m = (if C = [] then None
       else Some (rrc_of c (hd C), k, (rd_address (hd C) div seg_byte_lanes c + k) mod seg_count c,
         bytes_at f (rd_address (hd C)) (read_upto c (hd C) k))) \<and>
     read_events m = map (\<lambda>cmd. (rd_event cmd, rd_address cmd, bytes_at f (rd_address cmd) (rd_length cmd))) Q \<and>
     r_in_flight m + length Q = length cmds \<and>
     r_idle_event m = (r_in_flight m = 0) \<and>
     length (seg_read_queue m) = seg_count c \<and> length (seg_read_resp_queue m) = seg_count c"

definition words :: "psdp_cfg \<Rightarrow> (int \<Rightarrow> int) \<Rightarrow> nat \<Rightarrow> (nat \<times> int) list \<Rightarrow> int list" where
  "words c f seg ops = map (word_at c f seg) (proj seg ops)"

lemma words_simps [simp]:
  "words c f seg [] = []" "words c f seg (a @ b) = words c f seg a @ words c f seg b"
  by (simp_all add: words_def)

text \<open>Per segment: words consumed, waiting in the response queue, on the response bus, in the
  pipeline, and addresses on the command bus and queued.\<close>

fun rseg_inv :: "psdp_cfg \<Rightarrow> (int \<Rightarrow> int) \<Rightarrow> nat \<Rightarrow> int list \<Rightarrow> int list \<Rightarrow>
    (int list \<times> int list) \<times> int list \<Rightarrow> bool \<times> int option \<times> int list \<Rightarrow> bool" where
  "rseg_inv c f seg used all ((q, p), r) (rdy, pipe, out) \<longleftrightarrow>
     used @ r @ out @ pipe_list pipe @ map (word_at c f seg) (p @ q) = all \<and>
     length p \<le> 1 \<and> (\<forall>a \<in> set p \<union> set q. a AND ones (seg_addr_width c) = a) \<and>
     (rdy \<longrightarrow> out = [] \<or> pipe = None) \<and> (\<forall>v. pipe = Some v \<longrightarrow> v AND ones (seg_data_width c) = v)"

definition rflow_inv :: "psdp_cfg \<Rightarrow> (int \<Rightarrow> int) \<Rightarrow> read_master \<Rightarrow> read_drive \<Rightarrow> int option list \<Rightarrow> ram_drive \<Rightarrow>
    read_cmd list \<Rightarrow> read_cmd list \<Rightarrow> read_cmd list \<Rightarrow> nat \<Rightarrow> bool" where
  "rflow_inv c f m b pl d Q C R k \<longleftrightarrow> length pl = seg_count c \<and>
     (\<forall>seg < seg_count c. rseg_inv c f seg (words c f seg (all_rops c Q @ take k (all_rops c C)))
        (words c f seg (all_rops c (Q @ C @ R))) (mr_view c (m, b) seg) (rr_view c (pl, d) seg))"

definition rjoint_inv :: "psdp_cfg \<Rightarrow> (int \<Rightarrow> int) \<Rightarrow> read_cmd list \<Rightarrow> psdp_rd \<Rightarrow>
    read_cmd list \<Rightarrow> read_cmd list \<Rightarrow> read_cmd list \<Rightarrow> nat \<Rightarrow> bool" where
  "rjoint_inv c f cmds s Q C R k \<longleftrightarrow>
     rcommands_inv c f cmds (pr_m s) Q C R k \<and>
     rflow_inv c f (pr_m s) (pr_bus s) (q_pipeline (pr_ram s)) (q_loc (pr_ram s)) Q C R k \<and>
     pr_loc s = pr_bus s \<and> q_bus (pr_ram s) = q_loc (pr_ram s)"

lemma rjoint_init: "rjoint_inv c f [] (psdp_rd_init c) [] [] [] 0"
  by (simp add: rjoint_inv_def rcommands_inv_def rflow_inv_def psdp_rd_init_def mr_view_def rr_view_def on_field_def)

lemma rflow_queue:
  "seg_read_queue m' = seg_read_queue m \<Longrightarrow> seg_read_resp_queue m' = seg_read_resp_queue m \<Longrightarrow>
   rflow_inv c f m' b pl d Q C R k = rflow_inv c f m b pl d Q C R k"
  by (simp add: rflow_inv_def mr_view_def)

lemma read_request_ok:
  assumes "cfg_ok c" "read_request c address len ev m = Inr m'"
  shows "r_in_range c \<lparr>rd_address = nat address, rd_length = nat len, rd_event = ev\<rparr>"
    "m' = m\<lparr>r_in_flight := r_in_flight m + 1, r_idle_event := False,
       read_command_queue := read_command_queue m @ [\<lparr>rd_address = nat address, rd_length = nat len, rd_event = ev\<rparr>]\<rparr>"
  using assms by (auto simp: read_request_def address_space r_in_range_def split: if_splits)

lemma rjoint_request:
  assumes "cfg_ok c" "read_request c address len ev (pr_m s) = Inr m" "rjoint_inv c f cmds s Q C R k"
  shows "rjoint_inv c f (cmds @ [\<lparr>rd_address = nat address, rd_length = nat len, rd_event = ev\<rparr>]) (s\<lparr>pr_m := m\<rparr>) Q C R k"
  using assms(3) read_request_ok [OF assms(1,2)] rflow_queue [of m "pr_m s"]
  by (simp add: rjoint_inv_def rcommands_inv_def)

lemma rjoint_process:
  assumes c: "cfg_ok c" and j: "rjoint_inv c f cmds s Q C R k"
  shows "\<exists>R'. rjoint_inv c f cmds (s\<lparr>pr_m := process_read c (pr_m s)\<rparr>) Q C R' k"
proof (cases "read_command_queue (pr_m s)")
  case Nil
  then show ?thesis using j by (auto simp: process_read_def)
next
  case (Cons cmd rest)
  let ?m = "process_read c (pr_m s)"
  have ci: "rcommands_inv c f cmds (pr_m s) Q C R k" using j by (simp add: rjoint_inv_def)
  have m: "?m = (pr_m s)\<lparr>read_command_queue := rest,
      read_resp_command_queue := read_resp_command_queue (pr_m s) @ [rrc_of c cmd],
      seg_read_queue := fold put_seg (rops_for c cmd) (seg_read_queue (pr_m s))\<rparr>"
    by (simp add: process_read_def Cons rrc_of_def rops_for_def)
  have "r_in_range c cmd" using ci Cons by (auto simp: rcommands_inv_def)
  then have o: "\<And>s' a. (s', a) \<in> set (rops_for c cmd) \<Longrightarrow> s' < seg_count c \<and> a AND ones (seg_addr_width c) = a"
    using rops_for_facts(2) [OF c] by blast
  then have ops: "\<forall>(s', op) \<in> set (rops_for c cmd). s' < length (seg_read_queue (pr_m s))"
    using ci by (auto simp: rcommands_inv_def)
  have q: "length (seg_read_queue ?m) = seg_count c"
    "seg < seg_count c \<Longrightarrow> seg_read_queue ?m ! seg = seg_read_queue (pr_m s) ! seg @ proj seg (rops_for c cmd)" for seg
    using put_segs [OF ops] ci c by (auto simp: m rcommands_inv_def cfg_ok_def)
  have "rcommands_inv c f cmds ?m Q C (R @ [cmd]) k"
    using ci Cons q(1) by (simp add: rcommands_inv_def m)
  moreover have "rflow_inv c f ?m (pr_bus s) (q_pipeline (pr_ram s)) (q_loc (pr_ram s)) Q C (R @ [cmd]) k"
    unfolding rflow_inv_def
  proof (intro conjI allI impI)
    have fi: "rflow_inv c f (pr_m s) (pr_bus s) (q_pipeline (pr_ram s)) (q_loc (pr_ram s)) Q C R k"
      using j by (simp add: rjoint_inv_def)
    then show "length (q_pipeline (pr_ram s)) = seg_count c" by (simp add: rflow_inv_def)
    fix seg assume seg: "seg < seg_count c"
    obtain qq p r rdy pipe out where v: "mr_view c (pr_m s, pr_bus s) seg = ((qq, p), r)"
      "rr_view c (q_pipeline (pr_ram s), q_loc (pr_ram s)) seg = (rdy, pipe, out)" by (metis surj_pair)
    have "rseg_inv c f seg (words c f seg (all_rops c Q @ take k (all_rops c C)))
        (words c f seg (all_rops c (Q @ C @ R))) ((qq, p), r) (rdy, pipe, out)"
      using fi seg v by (auto simp: rflow_inv_def)
    moreover have "mr_view c (?m, pr_bus s) seg = ((qq @ proj seg (rops_for c cmd), p), r)"
      using v(1) q(2) [OF seg] by (simp add: mr_view_def m)
    moreover have "\<forall>a \<in> set (proj seg (rops_for c cmd)). a AND ones (seg_addr_width c) = a"
      using o proj_seg_in by fastforce
    ultimately show "rseg_inv c f seg (words c f seg (all_rops c Q @ take k (all_rops c C)))
        (words c f seg (all_rops c (Q @ C @ R @ [cmd]))) (mr_view c (?m, pr_bus s) seg)
        (rr_view c (q_pipeline (pr_ram s), q_loc (pr_ram s)) seg)"
      using v(2) by (auto simp: words_def)
  qed
  ultimately show ?thesis using j by (auto simp: rjoint_inv_def)
qed

lemma read_upto_step:
  assumes c: "cfg_ok c" and f: "store_bytes f" and k: "k < segments c (rd_address cmd) (rd_length cmd)"
  defines "seg \<equiv> (rd_address cmd div seg_byte_lanes c + k) mod seg_count c"
  shows "bytes_at f (rd_address cmd) (read_upto c cmd k) @ word_bytes c (rrc_of c cmd) k
      (word_at c f seg (int ((rd_address cmd + k * seg_byte_lanes c) div byte_lanes c))) =
    bytes_at f (rd_address cmd) (read_upto c cmd (Suc k))"
proof -
  let ?a = "rd_address cmd" and ?n = "rd_length cmd"
  have L: "0 < seg_byte_lanes c" using c by (simp add: cfg_ok_def)
  note l = lanes [OF L k]
  have "read_upto c cmd (Suc k) = data_offset c ?a k + (lane_stop c ?a ?n k - lane_start c ?a k)"
    using l(5,6) k by (cases "k = segments c ?a ?n - 1") (auto simp: read_upto_def)
  moreover have "read_upto c cmd k = data_offset c ?a k" using k by (simp add: read_upto_def)
  moreover have "word_bytes c (rrc_of c cmd) k (word_at c f seg (int ((?a + k * seg_byte_lanes c) div byte_lanes c))) =
    map (\<lambda>i. f (int ?a + int i)) [data_offset c ?a k..<data_offset c ?a k + (lane_stop c ?a ?n k - lane_start c ?a k)]"
    unfolding seg_def by (rule word_bytes_range [OF c f k]) (simp_all add: rrc_of_def)
  ultimately show ?thesis by (simp add: bytes_at_def map_append [symmetric] upt_add_eq_append [symmetric] del: map_append)
qed

lemma read_upto_0:
  assumes "cfg_ok c" shows "read_upto c cmd 0 = 0"
proof (cases "segments c (rd_address cmd) (rd_length cmd) = 0")
  case True
  have L: "0 < seg_byte_lanes c" using assms by (simp add: cfg_ok_def)
  then have "rd_length cmd + rd_address cmd mod seg_byte_lanes c + seg_byte_lanes c - 1 < seg_byte_lanes c"
    using True unfolding segments_def by (simp add: div_eq_0_iff)
  then show ?thesis using L True by (simp add: read_upto_def)
qed (simp add: read_upto_def data_offset_def seg_start_def lane_start_def start_offset_def)

lemma rops_nth:
  "k < length (rops_for c cmd) \<Longrightarrow> rops_for c cmd ! k =
    ((rd_address cmd div seg_byte_lanes c + k) mod seg_count c, int ((rd_address cmd + k * seg_byte_lanes c) div byte_lanes c))"
  by (simp add: rops_for_def read_segments_eq)

lemma rjoint_response:
  assumes c: "cfg_ok c" and f: "store_bytes f" and j: "rjoint_inv c f cmds s Q C R k"
  shows "\<exists>Q' C' R' k'. rjoint_inv c f cmds (s\<lparr>pr_m := process_read_resp c (pr_m s)\<rparr>) Q' C' R' k'"
proof -
  let ?m = "pr_m s" and ?b = "pr_bus s" and ?pl = "q_pipeline (pr_ram s)" and ?d = "q_loc (pr_ram s)"
  let ?m' = "process_read_resp c ?m"
  have ci: "rcommands_inv c f cmds ?m Q C R k" and fi: "rflow_inv c f ?m ?b ?pl ?d Q C R k"
    using j by (simp_all add: rjoint_inv_def)
  consider (none) "C = []" "R = []" | (take) cmd R1 where "C = []" "R = cmd # R1" | (cur) cmd where "C = [cmd]"
    using ci by (cases C; cases R) (auto simp: rcommands_inv_def)
  then have "\<exists>Q' C' R' k'. rcommands_inv c f cmds ?m' Q' C' R' k' \<and> rflow_inv c f ?m' ?b ?pl ?d Q' C' R' k'"
  proof cases
    case none
    then have "?m' = ?m" using ci by (simp add: rcommands_inv_def process_read_resp_def)
    then show ?thesis using ci fi by auto
  next
    case take
    have e: "?m' = ?m\<lparr>read_resp_command_queue := map (rrc_of c) R1,
        current_read_resp := Some (rrc_of c cmd, 0, first_seg c (rd_address cmd), [])\<rparr>"
      using ci take by (simp add: rcommands_inv_def process_read_resp_def rrc_of_def)
    have "rcommands_inv c f cmds ?m' Q [cmd] R1 0"
      using ci take by (simp add: e rcommands_inv_def first_seg_def read_upto_0 [OF c] bytes_at_def)
    moreover have "rflow_inv c f ?m' ?b ?pl ?d Q [cmd] R1 0"
      using fi take ci by (simp add: e rflow_inv_def rcommands_inv_def mr_view_def)
    ultimately show ?thesis by blast
  next
    case cur
    have r: "r_in_range c cmd" using ci cur by (simp add: rcommands_inv_def)
    note o = rops_for_facts [OF c r]
    define seg where "seg = (rd_address cmd div seg_byte_lanes c + k) mod seg_count c"
    have seg: "seg < seg_count c" using c by (simp add: seg_def cfg_ok_def)
    have cw: "current_read_resp ?m = Some (rrc_of c cmd, k, seg, bytes_at f (rd_address cmd) (read_upto c cmd k))"
      "k \<le> length (rops_for c cmd)" using ci cur by (simp_all add: rcommands_inv_def seg_def)
    consider (wait) "k < length (rops_for c cmd)" "seg_read_resp_queue ?m ! seg = []"
      | (answer) v rest where "k < length (rops_for c cmd)" "seg_read_resp_queue ?m ! seg = v # rest"
      | (complete) "k = length (rops_for c cmd)" using cw(2) by (cases "seg_read_resp_queue ?m ! seg") force+
    then show ?thesis
    proof cases
      case wait
      then have "?m' = ?m" using cw o(1) by (simp add: process_read_resp_def rrc_of_def)
      then show ?thesis using ci fi by auto
    next
      case answer
      have kn: "k < segments c (rd_address cmd) (rd_length cmd)" using answer(1) o(1) by simp
      have pk: "words c f s' (take (Suc k) (rops_for c cmd)) = words c f s' (take k (rops_for c cmd)) @
          (if s' = seg then [word_at c f seg (int ((rd_address cmd + k * seg_byte_lanes c) div byte_lanes c))] else [])" for s'
        using nth_split [OF answer(1)] rops_nth [OF answer(1)] by (simp add: words_def seg_def)
      obtain q p r rdy pipe out where v: "mr_view c (?m, ?b) seg = ((q, p), r)" "rr_view c (?pl, ?d) seg = (rdy, pipe, out)"
        by (metis surj_pair)
      have "take k (rops_for c cmd) @ drop k (rops_for c cmd) = rops_for c cmd" by simp
      then have "words c f seg (rops_for c cmd) = words c f seg (take (Suc k) (rops_for c cmd)) @ words c f seg (drop (Suc k) (rops_for c cmd))"
        by (metis append_take_drop_id words_simps(2))
      then have w: "words c f seg (rops_for c cmd) = words c f seg (take k (rops_for c cmd)) @
          word_at c f seg (int ((rd_address cmd + k * seg_byte_lanes c) div byte_lanes c)) #
          words c f seg (drop (Suc k) (rops_for c cmd))" using pk [of seg] by simp
      have rv: "r = v # rest" using v(1) answer(2) by (simp add: mr_view_def)
      have "rseg_inv c f seg (words c f seg (all_rops c Q @ take k (rops_for c cmd)))
          (words c f seg (all_rops c (Q @ [cmd] @ R))) ((q, p), r) (rdy, pipe, out)"
        using fi seg v cur by (auto simp: rflow_inv_def)
      then have vv: "v = word_at c f seg (int ((rd_address cmd + k * seg_byte_lanes c) div byte_lanes c))" "r = v # rest"
        using rv w by simp_all
      have e: "?m' = ?m\<lparr>seg_read_resp_queue := (seg_read_resp_queue ?m)[seg := rest],
          current_read_resp := Some (rrc_of c cmd, Suc k, (seg + 1) mod seg_count c,
            bytes_at f (rd_address cmd) (read_upto c cmd (Suc k)))\<rparr>"
        using answer cw o(1) read_upto_step [OF c f kn] vv(1)
        by (simp add: process_read_resp_def rrc_of_def seg_def)
      have "(seg + 1) mod seg_count c = (rd_address cmd div seg_byte_lanes c + Suc k) mod seg_count c"
        by (simp add: seg_def mod_Suc_eq)
      then have "rcommands_inv c f cmds ?m' Q [cmd] R (Suc k)"
        using ci cur answer(1) by (simp add: e rcommands_inv_def)
      moreover have "rflow_inv c f ?m' ?b ?pl ?d Q [cmd] R (Suc k)"
        unfolding rflow_inv_def
      proof (intro conjI allI impI)
        show "length ?pl = seg_count c" using fi by (simp add: rflow_inv_def)
        fix s' assume s': "s' < seg_count c"
        have l: "length (seg_read_resp_queue ?m) = seg_count c" using ci by (simp add: rcommands_inv_def)
        have "rseg_inv c f s' (words c f s' (all_rops c Q @ take k (rops_for c cmd)))
          (words c f s' (all_rops c (Q @ [cmd] @ R))) (mr_view c (?m, ?b) s') (rr_view c (?pl, ?d) s')"
          using fi cur s' by (simp add: rflow_inv_def)
        then show "rseg_inv c f s' (words c f s' (all_rops c Q @ take (Suc k) (all_rops c [cmd])))
          (words c f s' (all_rops c (Q @ [cmd] @ R))) (mr_view c (?m', ?b) s') (rr_view c (?pl, ?d) s')"
          using pk [of s'] s' l vv answer(2) v
          by (cases "s' = seg"; cases "rr_view c (?pl, ?d) s'") (auto simp: e mr_view_def)
      qed
      ultimately show ?thesis by blast
    next
      case complete
      have e: "?m' = ?m\<lparr>current_read_resp := None,
          read_events := read_events ?m @ [(rd_event cmd, rd_address cmd, bytes_at f (rd_address cmd) (rd_length cmd))],
          r_in_flight := r_in_flight ?m - 1,
          r_idle_event := (if r_in_flight ?m - 1 = 0 then True else r_idle_event ?m)\<rparr>"
        using complete cw o(1) by (simp add: process_read_resp_def rrc_of_def read_upto_def)
      have "rcommands_inv c f cmds ?m' (Q @ [cmd]) [] R 0"
        using ci cur by (auto simp: e rcommands_inv_def)
      moreover have "rflow_inv c f ?m' ?b ?pl ?d (Q @ [cmd]) [] R 0"
        using fi cur complete by (simp add: e rflow_inv_def mr_view_def)
      ultimately show ?thesis by blast
    qed
  qed
  then show ?thesis using j by (auto simp: rjoint_inv_def)
qed

lemma master_read_segs:
  assumes "mr_rest n m0 rr x"
  shows "mr_rest n m0 rr (fold (master_read_seg c cr rv rdat) [0..<n] x) \<and>
    (\<forall>s < n. mr_view c (fold (master_read_seg c cr rv rdat) [0..<n] x) s =
      mr_step c cr rv rdat rr (rm_pause m0) s (mr_view c x s))"
  using fold_segments [where P = "mr_rest n m0 rr" and n = n and view = "mr_view c" and f = "master_read_seg c cr rv rdat"
      and g = "mr_step c cr rv rdat rr (rm_pause m0)", OF master_read_seg_view assms] .

lemma cycle_segment:
  assumes c: "cfg_ok c" and f: "store_bytes f"
    and i: "rseg_inv c f seg used all (mr_view c (m, b) seg) (rr_view c (pl, d) seg)"
    and m: "mr_view c (m', b') seg = mr_step c (q_cmd_ready d) (q_resp_valid d) (q_resp_data d) (rd_resp_ready b) pause seg (mr_view c (m, b) seg)"
    and r: "rr_view c (pl', d') seg = rr_step (seg_data_width c) (word_at c f seg) (bit (rd_resp_ready b) seg)
          (on_field (seg_addr_width c) (rd_valid b) (rd_addr b) seg) (rr_view c (pl, d) seg)"
  shows "rseg_inv c f seg used all (mr_view c (m', b') seg) (rr_view c (pl', d') seg)"
proof -
  obtain q p r where mv: "mr_view c (m, b) seg = ((q, p), r)" by (metis surj_pair)
  obtain rdy pipe out where rv: "rr_view c (pl, d) seg = (rdy, pipe, out)" by (metis surj_pair)
  obtain rdy' pipe' out' where rv': "rr_view c (pl', d') seg = (rdy', pipe', out')" by (metis surj_pair)
  obtain q' p' where h: "rhand rdy pause (\<lambda>a. a AND ones (seg_addr_width c)) (q, p) = (q', p')" by fastforce
  have pf: "p = on_field (seg_addr_width c) (rd_valid b) (rd_addr b) seg" "rdy = bit (q_cmd_ready d) seg"
    "out = on_field (seg_data_width c) (q_resp_valid d) (q_resp_data d) seg"
    using mv rv by (simp_all add: mr_view_def rr_view_def)
  have mv': "mr_view c (m', b') seg = ((q', p'), r @ (if bit (rd_resp_ready b) seg then out else []))"
    using m h pf mv by (simp add: mr_step_def del: rhand.simps)
  have st: "rr_step (seg_data_width c) (word_at c f seg) (bit (rd_resp_ready b) seg) p (rdy, pipe, out) = (rdy', pipe', out')"
    using r rv rv' pf by simp
  note inv = i [unfolded mv rv rseg_inv.simps]
  have pre: "\<forall>a \<in> set q. a AND ones (seg_addr_width c) = a" "\<forall>v. pipe = Some v \<longrightarrow> v AND ones (seg_data_width c) = v"
    "rdy \<longrightarrow> out = [] \<or> pipe = None" "length p \<le> 1" using inv by auto
  note fl = segment_flow [OF h st pre]
  have dw: "seg_data_width c = 8 * seg_byte_lanes c" using c by (simp add: cfg_ok_def)
  have "\<forall>v. pipe' = Some v \<longrightarrow> v AND ones (seg_data_width c) = v"
    using fl(5) pre(2) word_at_bounds [OF f] unfolding dw by fastforce
  moreover have "\<forall>a \<in> set p' \<union> set q'. a AND ones (seg_addr_width c) = a" using fl(3) inv by blast
  ultimately show ?thesis
    using fl(1,2,4) inv unfolding mv' rv' rseg_inv.simps by (simp add: fl(1))
qed

context byte_store begin

lemma rjoint_cycle:
  assumes c: "cfg_ok c" and sz: "space c \<le> size" and f: "store_bytes (byt mem)" and j: "rjoint_inv c (byt mem) cmds s Q C R k"
  shows "\<exists>s'. psdp_rd_cycle c (\<lambda>a k. rd a k mem) size p q s = Inr s' \<and> rjoint_inv c (byt mem) cmds s' Q C R k"
proof -
  let ?m = "(pr_m s)\<lparr>rm_pause := p\<rparr>" and ?b = "pr_bus s" and ?S = "seg_count c"
  let ?pl = "q_pipeline (pr_ram s)" and ?d = "q_loc (pr_ram s)"
  have ci: "rcommands_inv c (byt mem) cmds (pr_m s) Q C R k" and fi: "rflow_inv c (byt mem) (pr_m s) ?b ?pl ?d Q C R k"
    and eq: "pr_loc s = ?b" "q_bus (pr_ram s) = ?d" using j by (simp_all add: rjoint_inv_def)
  have "mr_rest ?S ?m (rd_resp_ready ?b) (?m, ?b)" using ci by (simp add: mr_rest_def rcommands_inv_def)
  note ms = master_read_segs [OF this, of c "q_cmd_ready ?d" "q_resp_valid ?d" "q_resp_data ?d"]
  obtain m1 b1 where m1: "fold (master_read_seg c (q_cmd_ready ?d) (q_resp_valid ?d) (q_resp_data ?d)) [0..<?S] (?m, ?b) = (m1, b1)"
    by fastforce
  have rest: "mr_rest ?S ?m (rd_resp_ready ?b) (m1, b1)" and mv: "\<And>seg. seg < ?S \<Longrightarrow> mr_view c (m1, b1) seg =
      mr_step c (q_cmd_ready ?d) (q_resp_valid ?d) (q_resp_data ?d) (rd_resp_ready ?b) p seg (mr_view c (pr_m s, ?b) seg)"
    using ms m1 by (simp_all add: mr_view_def)
  have "length ?pl = ?S" using fi by (simp add: rflow_inv_def)
  then obtain pl1 d1 where r1: "rfold (ram_read_seg c (\<lambda>a k. rd a k mem) size ?b) [0..<?S] (?pl, ?d) = Inr (pl1, d1)"
    "length pl1 = ?S" and rv: "\<And>seg. seg < ?S \<Longrightarrow> rr_view c (pl1, d1) seg = rr_step (seg_data_width c) (word_at c (byt mem) seg)
        (bit (rd_resp_ready ?b) seg) (on_field (seg_addr_width c) (rd_valid ?b) (rd_addr ?b) seg) (rr_view c (?pl, ?d) seg)"
    using ram_read_segs [OF c sz, of ?pl mem ?b ?d] by blast
  define b2 where "b2 = b1\<lparr>rd_resp_ready := (if p then 0 else 2 ^ ?S - 1 :: int)\<rparr>"
  define d2 where "d2 = (if q then d1\<lparr>q_cmd_ready := 0\<rparr> else d1)"
  have pm: "rm_pause m1 = p" using rest by (simp add: mr_rest_def)
  have "master_read_cycle c False (q_cmd_ready ?d) (q_resp_valid ?d) (q_resp_data ?d) (?m, pr_loc s, ?b) = (m1, b2, b2)"
    unfolding master_read_cycle_def eq(1) prod.case m1 b2_def pm Let_def by simp
  moreover have "ram_read_cycle c (\<lambda>a k. rd a k mem) size False ?b ((pr_ram s)\<lparr>q_pause := q\<rparr>) =
      Inr ((pr_ram s)\<lparr>q_pause := q, q_pipeline := pl1, q_loc := d2, q_bus := d2\<rparr>)"
    using r1(1) by (simp add: ram_read_cycle_def d2_def Let_def)
  ultimately have step: "psdp_rd_cycle c (\<lambda>a k. rd a k mem) size p q s =
      Inr \<lparr>pr_m = m1, pr_loc = b2, pr_bus = b2, pr_ram = (pr_ram s)\<lparr>q_pause := q, q_pipeline := pl1, q_loc := d2, q_bus := d2\<rparr>\<rparr>"
    unfolding psdp_rd_cycle_def eq(2) Let_def by simp
  have "rcommands_inv c (byt mem) cmds m1 Q C R k" using ci rest by (simp add: rcommands_inv_def mr_rest_def)
  moreover have "rflow_inv c (byt mem) m1 b2 pl1 d2 Q C R k"
    unfolding rflow_inv_def
  proof (intro conjI allI impI)
    show "length pl1 = ?S" by (rule r1(2))
    fix seg assume seg: "seg < ?S"
    let ?used = "words c (byt mem) seg (all_rops c Q @ take k (all_rops c C))"
      and ?all = "words c (byt mem) seg (all_rops c (Q @ C @ R))"
    have "rseg_inv c (byt mem) seg ?used ?all (mr_view c (pr_m s, ?b) seg) (rr_view c (?pl, ?d) seg)"
      using fi seg by (simp add: rflow_inv_def)
    then have "rseg_inv c (byt mem) seg ?used ?all (mr_view c (m1, b1) seg) (rr_view c (pl1, d1) seg)"
      using cycle_segment [OF c f _ mv [OF seg] rv [OF seg]] by blast
    moreover have "mr_view c (m1, b2) seg = mr_view c (m1, b1) seg" by (simp add: mr_view_def b2_def)
    ultimately show "rseg_inv c (byt mem) seg ?used ?all (mr_view c (m1, b2) seg) (rr_view c (pl1, d2) seg)"
      by (cases "mr_view c (m1, b1) seg"; cases "rr_view c (pl1, d1) seg") (auto simp: d2_def rr_view_def)
  qed
  ultimately show ?thesis unfolding step by (simp add: rjoint_inv_def)
qed

theorem rd_reach_inv:
  assumes c: "cfg_ok c" and sz: "space c \<le> size" and f: "store_bytes (byt mem)"
  shows "psdp_rd_reach c (\<lambda>a k. rd a k mem) size cmds s \<Longrightarrow> \<exists>Q C R k. rjoint_inv c (byt mem) cmds s Q C R k"
proof (induction rule: psdp_rd_reach.induct)
  case Init
  show ?case using rjoint_init [of c "byt mem"] by blast
next
  case (Request cmds s address len ev m)
  then show ?case using rjoint_request [OF c Request.hyps(2)] by blast
next
  case (Process cmds s)
  then show ?case using rjoint_process [OF c] by blast
next
  case (Response cmds s)
  then show ?case using rjoint_response [OF c f] by blast
next
  case (Cycle cmds s p q s')
  then obtain Q C R k where "rjoint_inv c (byt mem) cmds s Q C R k" by blast
  from rjoint_cycle [OF c sz f this, of p q] Cycle.hyps(2) show ?case by (metis sum.inject(2))
qed

end

section \<open>Properties\<close>

datatype rd_move = RReq int int nat | RProc | RResp | RClk bool bool

fun rd_act :: "psdp_cfg \<Rightarrow> (int \<Rightarrow> int \<Rightarrow> bytes result) \<Rightarrow> int \<Rightarrow> rd_move \<Rightarrow> read_cmd list \<times> psdp_rd \<Rightarrow> (read_cmd list \<times> psdp_rd) result" where
  "rd_act c rd sz (RReq address len ev) (cmds, s) = rbind (read_request c address len ev (pr_m s)) (\<lambda>m.
     Inr (cmds @ [\<lparr>rd_address = nat address, rd_length = nat len, rd_event = ev\<rparr>], s\<lparr>pr_m := m\<rparr>))"
| "rd_act c rd sz RProc (cmds, s) = Inr (cmds, s\<lparr>pr_m := process_read c (pr_m s)\<rparr>)"
| "rd_act c rd sz RResp (cmds, s) = Inr (cmds, s\<lparr>pr_m := process_read_resp c (pr_m s)\<rparr>)"
| "rd_act c rd sz (RClk p q) (cmds, s) = rbind (psdp_rd_cycle c rd sz p q s) (\<lambda>s'. Inr (cmds, s'))"

lemma rd_acts_reach:
  assumes "rfold (rd_act c rd sz) acts ([], psdp_rd_init c) = Inr (cmds, s)"
  shows "psdp_rd_reach c rd sz cmds s"
proof -
  have "(\<lambda>(cmds, s). psdp_rd_reach c rd sz cmds s) (cmds, s)"
  proof (rule rfold_invariant [OF assms])
    show "(\<lambda>(cmds, s). psdp_rd_reach c rd sz cmds s) ([], psdp_rd_init c)" by (simp add: psdp_rd_reach.Init)
    fix a x y
    assume "(\<lambda>(cmds, s). psdp_rd_reach c rd sz cmds s) x" "rd_act c rd sz a x = Inr y"
    then show "(\<lambda>(cmds, s). psdp_rd_reach c rd sz cmds s) y"
      by (cases a; cases x) (auto simp: rbind_Inr_iff intro: psdp_rd_reach.intros)
  qed
  then show ?thesis by simp
qed

text \<open>C19: The read side.  Against a store that is not written meanwhile, whatever the pauses,
  the number of segments and the interleaving, the responses come in the order of the requests and
  each carries exactly the bytes of the store at the requested addresses; the idle event and the
  count follow the requests not yet answered; no clock cycle raises.\<close>

theorem psdp_reads_exact:
  assumes "byte_store wr rd byt n" "cfg_ok c" "space c \<le> n" "store_bytes (byt mem)"
    "psdp_rd_reach c (\<lambda>a k. rd a k mem) n cmds s"
  shows "length (read_events (pr_m s)) + r_in_flight (pr_m s) = length cmds \<and>
    read_events (pr_m s) = map (\<lambda>cmd. (rd_event cmd, rd_address cmd,
        map (\<lambda>i. byt mem (int (rd_address cmd) + int i)) [0..<rd_length cmd])) (take (length (read_events (pr_m s))) cmds) \<and>
    (r_idle_event (pr_m s) \<longleftrightarrow> r_in_flight (pr_m s) = 0) \<and>
    (\<exists>s'. psdp_rd_cycle c (\<lambda>a k. rd a k mem) n p q s = Inr s')"
proof -
  obtain Q C R k where j: "rjoint_inv c (byt mem) cmds s Q C R k"
    using byte_store.rd_reach_inv [OF assms] by blast
  then have e: "read_events (pr_m s) = map (\<lambda>cmd. (rd_event cmd, rd_address cmd, bytes_at (byt mem) (rd_address cmd) (rd_length cmd))) Q"
    "cmds = Q @ C @ R @ read_command_queue (pr_m s)"
    "r_in_flight (pr_m s) + length Q = length cmds" "r_idle_event (pr_m s) \<longleftrightarrow> r_in_flight (pr_m s) = 0"
    by (simp_all add: rjoint_inv_def rcommands_inv_def)
  have "take (length (read_events (pr_m s))) cmds = Q" unfolding e(1) by (simp add: e(2))
  then show ?thesis
    using e byte_store.rjoint_cycle [OF assms(1-4) j, of p q] by (auto simp: bytes_at_def)
qed

lemma psdp_reads_exact_witness:
  "\<exists>cmds s. psdp_rd_reach demo_cfg (\<lambda>a k. fun_read 8 a k (\<lambda>x. x mod 8 + 10)) 8 cmds s \<and>
     read_events (pr_m s) = [(0, 1, [11, 12, 13]), (1, 6, [16])]"
proof -
  let ?rd = "\<lambda>a k. fun_read 8 a k (\<lambda>x. x mod 8 + 10)"
  let ?moves = "[RReq 1 3 0, RProc, RClk False False, RReq 6 1 1, RClk False True, RProc, RClk False False, RClk False False,
     RClk True False, RClk False False, RClk False False, RClk False False, RClk False False, RClk False False,
     RResp, RResp, RResp, RResp, RResp, RResp, RResp, RResp]"
  have "case rfold (rd_act demo_cfg ?rd 8) ?moves ([], psdp_rd_init demo_cfg) of
      Inr (cmds, s) \<Rightarrow> length cmds = 2 \<and> map rd_address cmds = [1, 6] \<and> map rd_length cmds = [3, 1] \<and>
        map rd_event cmds = [0, 1] \<and> length (read_events (pr_m s)) = 2
    | Inl _ \<Rightarrow> False"
    by code_simp
  then obtain cmds s where d: "rfold (rd_act demo_cfg ?rd 8) ?moves ([], psdp_rd_init demo_cfg) = Inr (cmds, s)"
    "map rd_address cmds = [1, 6]" "map rd_length cmds = [3, 1]" "map rd_event cmds = [0, 1]"
    "length (read_events (pr_m s)) = 2" by (auto split: sum.splits prod.splits)
  obtain x y where xy: "cmds = [x, y]" using d(2) by (cases cmds; cases "tl cmds") auto
  have sp: "space demo_cfg \<le> 8" by (simp add: demo_cfg_ok)
  have "0 \<le> (x :: int) mod 8" "x mod 8 < 8" for x by simp_all
  then have "0 \<le> (x :: int) mod 8 + 10 \<and> x mod 8 + 10 < 256" for x by (smt (verit))
  then have sb: "store_bytes (\<lambda>x. x mod 8 + 10)" unfolding store_bytes_def by blast
  note r = rd_acts_reach [OF d(1)]
  from psdp_reads_exact [where byt = "\<lambda>m. m" and mem = "\<lambda>x. x mod 8 + 10",
      OF sparse.byte_store_axioms demo_cfg_ok(1) sp sb r] show ?thesis
    using d r xy by (intro exI [of _ cmds] exI [of _ s]) (simp add: upt_rec)
qed

text \<open>A read request raises \<open>ValueError\<close> exactly when it starts outside the address
  space, has a negative length or runs past the end.\<close>

lemma read_request_errors:
  assumes "cfg_ok c"
  shows "read_request c address len ev m =
    (if 0 \<le> address \<and> address < space c \<and> 0 \<le> len \<and> address + len \<le> space c
     then Inr (m\<lparr>r_in_flight := r_in_flight m + 1, r_idle_event := False,
       read_command_queue := read_command_queue m @ [\<lparr>rd_address = nat address, rd_length = nat len, rd_event = ev\<rparr>]\<rparr>)
     else Inl ValueError)"
  by (simp add: read_request_def address_space [OF assms])

end
