(* ===== verification/Gearbox.thy ===== *)
theory Gearbox imports Prelude begin

text \<open>
  The gearbox bookkeeping that the serial link models share (\<open>set_gbx_cfg\<close> and the
  gearbox part of \<open>_run\<close> in \<open>src/eth/tb/baser.py\<close> and
  \<open>src/eth/tb/basex.py\<close>): the configuration with its checks, one tick of the source
  and of the sink, and the settling of the bit count.  The number of bits of a block (66 or 10) is a
  parameter.
\<close>

section \<open>State\<close>

text \<open>\<open>gbx_seq_len\<close> is \<open>None\<close> when the gearbox is off; the stall set is a list.\<close>

record gbx =
  gbx_seq :: nat
  gbx_seq_gen :: nat
  gbx_seq_len :: "nat option"
  gbx_seq_stall :: "nat list"
  gbx_in_bits :: nat
  gbx_out_bits :: nat
  gbx_bit_cnt :: int

definition gbx_new :: "nat \<Rightarrow> gbx" where
  "gbx_new bits = \<lparr>gbx_seq = 0, gbx_seq_gen = 0, gbx_seq_len = None, gbx_seq_stall = [],
     gbx_in_bits = bits, gbx_out_bits = bits, gbx_bit_cnt = 0\<rparr>"

definition gbx_on :: "gbx \<Rightarrow> bool" where
  "gbx_on g = (case gbx_seq_len g of Some n \<Rightarrow> n \<noteq> 0 | None \<Rightarrow> False)"

section \<open>Configuration\<close>

text \<open>The count after the priming loop: the source takes a word out of what came in, the sink the
  other way round.\<close>

definition src_count :: "nat list \<Rightarrow> nat \<Rightarrow> nat \<Rightarrow> nat \<Rightarrow> int \<Rightarrow> int" where
  "src_count stall in_bits out_bits k cnt =
     (let c = cnt + int in_bits in if k \<in> set stall then c else max (c - int out_bits) 0)"

definition sink_count :: "nat list \<Rightarrow> nat \<Rightarrow> nat \<Rightarrow> nat \<Rightarrow> int \<Rightarrow> int" where
  "sink_count stall in_bits out_bits k cnt =
     (let c = max (cnt - int out_bits) 0 in if k \<in> set stall then c else c + int in_bits)"

text \<open>\<open>set_gbx_cfg\<close>: with no length the disabled configuration is set and the code then falls
  through to \<open>set(seq_stall)\<close>, where a missing stall list raises; a given one is compared with
  the missing length.  The result has the state at the point where the call ends or raises.\<close>

definition set_gbx_cfg_src :: "nat \<Rightarrow> nat option \<Rightarrow> int list option \<Rightarrow> gbx \<Rightarrow> gbx \<times> unit result" where
  "set_gbx_cfg_src bits seq_len seq_stall g =
     (let g1 = (if seq_len = None then g\<lparr>gbx_bit_cnt := 0, gbx_seq_len := None, gbx_seq_stall := [],
                  gbx_in_bits := bits, gbx_out_bits := bits, gbx_seq := 0\<rparr> else g)
      in case seq_stall of
        None \<Rightarrow> (g1, Inl TypeError)
      | Some stall0 \<Rightarrow>
          let stall = sort (remdups stall0)
          in case seq_len of
            None \<Rightarrow> (g1, Inl (if stall \<noteq> [] \<and> hd stall < 0 then AssertionError else TypeError))
          | Some n \<Rightarrow>
              if \<exists>x \<in> set stall. \<not> (0 \<le> x \<and> x < int n) then (g1, Inl AssertionError)
              else if n = 0 then (g1, Inl (Raised ''ZeroDivisionError''))
              else let out_cycles = n - length stall; in_bits = (bits * out_cycles) div n; s = map nat stall in
                if n * in_bits \<noteq> out_cycles * bits then (g1, Inl AssertionError)
                else (g1\<lparr>gbx_seq := 0, gbx_seq_len := Some n, gbx_seq_stall := s, gbx_in_bits := in_bits,
                         gbx_out_bits := bits, gbx_bit_cnt := fold (src_count s in_bits bits) [0..<n] 0\<rparr>, Inr ()))"

definition set_gbx_cfg_sink :: "nat \<Rightarrow> nat option \<Rightarrow> int list option \<Rightarrow> gbx \<Rightarrow> gbx \<times> unit result" where
  "set_gbx_cfg_sink bits seq_len seq_stall g =
     (let g1 = (if seq_len = None then g\<lparr>gbx_seq_len := None, gbx_seq_stall := []\<rparr> else g)
      in case seq_stall of
        None \<Rightarrow> (g1, Inl TypeError)
      | Some stall0 \<Rightarrow>
          let stall = sort (remdups stall0)
          in case seq_len of
            None \<Rightarrow> (g1, Inl (if stall \<noteq> [] \<and> hd stall < 0 then AssertionError else TypeError))
          | Some n \<Rightarrow>
              if \<exists>x \<in> set stall. \<not> (0 \<le> x \<and> x < int n) then (g1, Inl AssertionError)
              else if n = 0 then (g1, Inl (Raised ''ZeroDivisionError''))
              else let in_cycles = n - length stall; out_bits = (bits * in_cycles) div n; s = map nat stall in
                if in_cycles * bits \<noteq> n * out_bits then (g1, Inl AssertionError)
                else (g1\<lparr>gbx_seq := 0, gbx_seq_gen := 0, gbx_seq_len := Some n, gbx_seq_stall := s, gbx_in_bits := bits,
                         gbx_out_bits := out_bits, gbx_bit_cnt := fold (sink_count s bits out_bits) [0..<n] 0\<rparr>, Inr ()))"

section \<open>Ticks\<close>

text \<open>The source: the state, whether this is a stall cycle, the sync value and the delay (unchanged
  in a stall cycle).\<close>

definition gbx_src_tick :: "int \<Rightarrow> int \<Rightarrow> gbx \<Rightarrow> gbx \<times> bool \<times> bool \<times> int" where
  "gbx_src_tick clk_period delay g =
     (case gbx_seq_len g of
        Some n \<Rightarrow> if n = 0 then (g\<lparr>gbx_seq := 0, gbx_bit_cnt := 0\<rparr>, False, False, 0)
          else let s = (gbx_seq g + 1) mod n; cnt = src_count (gbx_seq_stall g) (gbx_in_bits g) (gbx_out_bits g) s (gbx_bit_cnt g);
                   g1 = g\<lparr>gbx_seq := s, gbx_bit_cnt := cnt\<rparr>
               in if s \<in> set (gbx_seq_stall g) then (g1, True, s = 0, delay)
                  else (g1, False, s = 0, (cnt * clk_period) div int (gbx_in_bits g))
      | None \<Rightarrow> (g\<lparr>gbx_seq := 0, gbx_bit_cnt := 0\<rparr>, False, False, 0))"

text \<open>The sink: the state, the two request outputs and whether this is a stall cycle; a sync input
  of 1 restarts the sequence.\<close>

definition gbx_sink_tick :: "int \<Rightarrow> int \<Rightarrow> bool option \<Rightarrow> gbx \<Rightarrow> gbx \<times> bool \<times> bool \<times> bool \<times> int" where
  "gbx_sink_tick clk_period delay sync g =
     (case gbx_seq_len g of
        Some n \<Rightarrow> if n = 0 then (g\<lparr>gbx_seq := 0, gbx_seq_gen := 0, gbx_bit_cnt := 0\<rparr>, False, False, False, 0)
          else let gen = (gbx_seq_gen g + 1) mod n;
                   s = (if sync = Some True then 0 else (gbx_seq g + 1) mod n);
                   cnt = sink_count (gbx_seq_stall g) (gbx_in_bits g) (gbx_out_bits g) s (gbx_bit_cnt g);
                   g1 = g\<lparr>gbx_seq_gen := gen, gbx_seq := s, gbx_bit_cnt := cnt\<rparr>
               in if s \<in> set (gbx_seq_stall g) then (g1, gen = 0, gen \<in> set (gbx_seq_stall g), True, delay)
                  else (g1, gen = 0, gen \<in> set (gbx_seq_stall g), False, (cnt * clk_period) div int (gbx_out_bits g))
      | None \<Rightarrow> (g\<lparr>gbx_seq := 0, gbx_seq_gen := 0, gbx_bit_cnt := 0\<rparr>, False, False, False, 0))"

section \<open>The bit count settles\<close>

text \<open>A count that moves by \<open>x\<close> and is clipped at zero: over a list of moves it ends at the
  greater of the unclipped value and the largest sum of a tail.\<close>

definition clip :: "int \<Rightarrow> int \<Rightarrow> int" where "clip x c = max (c + x) 0"

lemma clip_nonneg [simp]: "0 \<le> clip x c"
  by (simp add: clip_def)

fun tail_max :: "int list \<Rightarrow> int" where
  "tail_max [] = 0"
| "tail_max (x # xs) = max (sum_list (x # xs)) (tail_max xs)"

lemma tail_max_nonneg: "0 \<le> tail_max xs"
  by (induction xs) auto

lemma sum_le_tail: "sum_list xs \<le> tail_max xs"
  by (cases xs) auto

lemma fold_clip: "0 \<le> c \<Longrightarrow> fold clip xs c = max (c + sum_list xs) (tail_max xs)"
proof (induction xs arbitrary: c)
  case (Cons x xs)
  have "fold clip (x # xs) c = max (clip x c + sum_list xs) (tail_max xs)"
    using Cons.IH [of "clip x c"] by simp
  also have "\<dots> = max (c + sum_list (x # xs)) (tail_max (x # xs))"
    using Cons.prems sum_le_tail [of xs] by (simp add: clip_def)
  finally show ?case .
qed simp

lemma fold_clip_period:
  assumes "0 \<le> c" "sum_list xs = 0"
  shows "fold clip xs (fold clip xs c) = fold clip xs c"
proof -
  have "0 \<le> fold clip xs c" using fold_clip [OF assms(1)] assms tail_max_nonneg [of xs] by simp
  then show ?thesis using fold_clip [of "fold clip xs c" xs] fold_clip [OF assms(1), of xs] assms(2) by simp
qed

text \<open>Where a list of moves ends without a net change, nothing was clipped on the way.\<close>

lemma clip_gain: "c + sum_list xs \<le> fold clip xs c"
proof (induction xs arbitrary: c)
  case (Cons x xs)
  have "c + x + sum_list xs \<le> clip x c + sum_list xs" by (simp add: clip_def)
  also have "\<dots> \<le> fold clip xs (clip x c)" by (rule Cons.IH)
  finally show ?case by simp
qed simp

lemma no_clip:
  assumes "fold clip xs c = c" "sum_list xs = 0" "k \<le> length xs"
  shows "fold clip (take k xs) c = c + sum_list (take k xs)"
proof -
  have "fold clip (take k xs) c + sum_list (drop k xs) \<le> fold clip (drop k xs) (fold clip (take k xs) c)"
    by (rule clip_gain)
  also have "\<dots> = c" using assms(1) by (metis append_take_drop_id comp_apply fold_append)
  finally have "fold clip (take k xs) c \<le> c - sum_list (drop k xs)" by linarith
  moreover have "sum_list (take k xs) + sum_list (drop k xs) = 0"
    using assms(2) by (metis append_take_drop_id sum_list_append)
  ultimately show ?thesis using clip_gain [of c "take k xs"] by linarith
qed

text \<open>The moves of the source from a position of the sequence.\<close>

definition src_move :: "gbx \<Rightarrow> nat \<Rightarrow> int" where
  "src_move g k = (if k \<in> set (gbx_seq_stall g) then int (gbx_in_bits g) else int (gbx_in_bits g) - int (gbx_out_bits g))"

definition src_moves :: "gbx \<Rightarrow> nat \<Rightarrow> int list" where
  "src_moves g m = (case gbx_seq_len g of None \<Rightarrow> [] | Some n \<Rightarrow> map (\<lambda>i. src_move g ((gbx_seq g + 1 + i) mod n)) [0..<m])"

lemma src_move_update: "src_move (g\<lparr>gbx_seq := a, gbx_bit_cnt := b\<rparr>) = src_move g"
  by (simp add: src_move_def fun_eq_iff)

lemma src_count_clip: "0 \<le> c \<Longrightarrow>
  src_count (gbx_seq_stall g) (gbx_in_bits g) (gbx_out_bits g) k c = clip (src_move g k) c"
  by (auto simp: src_count_def clip_def src_move_def Let_def)

definition src_ticks :: "nat \<Rightarrow> gbx \<Rightarrow> gbx" where
  "src_ticks m g = ((\<lambda>g. fst (gbx_src_tick 0 0 g)) ^^ m) g"

lemma src_ticks_eq:
  assumes "gbx_seq_len g = Some n" "0 < n" "gbx_seq g < n" "0 \<le> gbx_bit_cnt g"
  shows "src_ticks m g = g\<lparr>gbx_seq := (gbx_seq g + m) mod n, gbx_bit_cnt := fold clip (src_moves g m) (gbx_bit_cnt g)\<rparr> \<and>
    0 \<le> fold clip (src_moves g m) (gbx_bit_cnt g)"
proof (induction m)
  case 0
  then show ?case using assms by (simp add: src_ticks_def src_moves_def)
next
  case (Suc m)
  let ?c = "fold clip (src_moves g m) (gbx_bit_cnt g)"
  let ?g = "g\<lparr>gbx_seq := (gbx_seq g + m) mod n, gbx_bit_cnt := ?c\<rparr>"
  have s: "((gbx_seq g + m) mod n + 1) mod n = (gbx_seq g + 1 + m) mod n" by (simp add: mod_Suc_eq)
  have mv: "src_moves g (Suc m) = src_moves g m @ [src_move g ((gbx_seq g + 1 + m) mod n)]"
    using assms(1) by (simp add: src_moves_def)
  have "src_ticks (Suc m) g = fst (gbx_src_tick 0 0 ?g)" using Suc by (simp add: src_ticks_def)
  also have "\<dots> = g\<lparr>gbx_seq := (gbx_seq g + 1 + m) mod n,
      gbx_bit_cnt := clip (src_move g ((gbx_seq g + 1 + m) mod n)) ?c\<rparr>"
    using assms Suc src_count_clip [of ?c g] s by (auto simp: gbx_src_tick_def Let_def)
  finally show ?case unfolding mv by simp
qed

lemma rotate_back:
  fixes i a n :: nat
  assumes "i < n" "a < n" shows "((i + a) mod n + n - a) mod n = i"
proof (cases "i + a < n")
  case False
  then have "i + a - n < n" "(i + a) mod n = i + a - n" using assms by (simp_all add: le_mod_geq)
  then show ?thesis using False assms by simp
qed (use assms in simp)

lemma sum_moves:
  assumes "gbx_seq_len g = Some n" "0 < n"
  shows "sum_list (src_moves g n) = (\<Sum>k < n. src_move g k)"
proof -
  have "sum_list (src_moves g n) = (\<Sum>i < n. src_move g ((i + (gbx_seq g + 1)) mod n))"
    using assms(1) unfolding src_moves_def interv_sum_list_conv_sum_set_nat
    by (simp add: interv_sum_list_conv_sum_set_nat atLeast0LessThan add.commute [of _ "gbx_seq g"])
  also have "\<dots> = (\<Sum>k < n. src_move g k)"
  proof (rule sum.reindex_bij_witness [where i = "\<lambda>k. (k + n - (gbx_seq g + 1) mod n) mod n" and j = "\<lambda>i. (i + (gbx_seq g + 1)) mod n"])
    let ?a = "(gbx_seq g + 1) mod n"
    have a: "?a < n" using assms(2) by simp
    show "((i + (gbx_seq g + 1)) mod n + n - ?a) mod n = i" if "i \<in> {..<n}" for i
    proof -
      have "(i + (gbx_seq g + 1)) mod n = (i + ?a) mod n" by (simp add: mod_add_right_eq)
      then show ?thesis using rotate_back [OF _ a, of i] that by simp
    qed
    show "((k + n - ?a) mod n + (gbx_seq g + 1)) mod n = k" if "k \<in> {..<n}" for k
    proof -
      have "((k + n - ?a) mod n + (gbx_seq g + 1)) mod n = ((k + n - ?a) + ?a) mod n"
        by (metis mod_add_left_eq mod_add_right_eq)
      moreover have "(k + n - ?a) + ?a = k + n" using a by linarith
      ultimately show ?thesis using that by simp
    qed
  qed (use assms(2) in auto)
  finally show ?thesis .
qed

lemma sum_src_move:
  assumes "distinct (gbx_seq_stall g)" "set (gbx_seq_stall g) \<subseteq> {..<n}"
    "n * gbx_in_bits g = (n - length (gbx_seq_stall g)) * gbx_out_bits g"
  shows "(\<Sum>k < n. src_move g k) = 0"
proof -
  let ?S = "set (gbx_seq_stall g)"
  have card: "card ?S = length (gbx_seq_stall g)" using assms(1) by (rule distinct_card)
  have le: "card ?S \<le> n" using card_mono [OF _ assms(2)] by simp
  have "(\<Sum>k < n. src_move g k) = (\<Sum>k < n. int (gbx_in_bits g) - (if k \<in> ?S then 0 else int (gbx_out_bits g)))"
    by (rule sum.cong) (auto simp: src_move_def)
  also have "\<dots> = int (n * gbx_in_bits g) - (\<Sum>k \<in> {..<n} - ?S. int (gbx_out_bits g))"
  proof -
    have "(\<Sum>k < n. if k \<in> ?S then 0 else int (gbx_out_bits g)) = (\<Sum>k \<in> {..<n} - ?S. int (gbx_out_bits g))"
      by (rule sum.mono_neutral_cong_right) auto
    then show ?thesis by (simp add: sum_subtractf)
  qed
  also have "(\<Sum>k \<in> {..<n} - ?S. int (gbx_out_bits g)) = int ((n - card ?S) * gbx_out_bits g)"
    using assms(2) by (simp add: card_Diff_subset)
  finally show ?thesis using assms(3) card by simp
qed

text \<open>C14: The gearbox of the source.  A configuration that \<open>set_gbx_cfg\<close> accepts has as many
  bits in as out over a sequence, and from then on, at any position: after one sequence the bit count
  repeats with the sequence, and it is exact, that is the clipping at zero never acts again.\<close>

theorem gearbox_settles:
  assumes "set_gbx_cfg_src bits (Some n) (Some stall) g0 = (g, Inr ())"
  shows "n * gbx_in_bits g = (n - length (gbx_seq_stall g)) * bits \<and>
    (let h = src_ticks (k + n) g in
       gbx_bit_cnt (src_ticks n h) = gbx_bit_cnt h \<and> gbx_seq (src_ticks n h) = gbx_seq h \<and>
       (\<forall>m \<le> n. gbx_bit_cnt (src_ticks m h) = gbx_bit_cnt h + sum_list (src_moves h m)))"
proof -
  define s where "s = sort (remdups stall)"
  have ok: "\<forall>x \<in> set s. 0 \<le> x \<and> x < int n" "0 < n"
    "g = g0\<lparr>gbx_seq := 0, gbx_seq_len := Some n, gbx_seq_stall := map nat s, gbx_in_bits := (bits * (n - length s)) div n,
       gbx_out_bits := bits, gbx_bit_cnt := fold (src_count (map nat s) ((bits * (n - length s)) div n) bits) [0..<n] 0\<rparr>"
    "n * gbx_in_bits g = (n - length s) * bits"
    using assms unfolding set_gbx_cfg_src_def
    by (auto simp: s_def Let_def split: if_splits)
  have st: "gbx_seq_stall g = map nat s" "gbx_out_bits g = bits" "gbx_seq_len g = Some n" "gbx_seq g = 0"
    using ok(3) by simp_all
  have fc: "0 \<le> fold (src_count a b d) ks c" if "0 \<le> c" for a b d ks c
    using that by (induction ks arbitrary: c) (simp_all add: src_count_def Let_def)
  then have c0: "0 \<le> gbx_bit_cnt g" using ok(3) by simp
  have "distinct s" by (simp add: s_def)
  moreover have "inj_on nat (set s)" using ok(1) by (intro inj_onI) (metis eq_nat_nat_iff)
  ultimately have dist: "distinct (gbx_seq_stall g)" by (simp add: st distinct_map)
  have sub: "set (gbx_seq_stall g) \<subseteq> {..<n}" using ok(1) by (auto simp: st nat_less_iff)
  have z: "(\<Sum>i < n. src_move g i) = 0" using sum_src_move [OF dist sub] ok(4) st by simp
  define h0 where "h0 = src_ticks k g"
  have h0: "h0 = g\<lparr>gbx_seq := k mod n, gbx_bit_cnt := gbx_bit_cnt h0\<rparr>" "0 \<le> gbx_bit_cnt h0"
    using src_ticks_eq [OF st(3) ok(2) _ c0, of k] st(4) ok(2) by (auto simp: h0_def)
  have h0f: "gbx_seq_len h0 = Some n" "gbx_seq h0 = k mod n" "src_move h0 = src_move g"
    using st by (subst h0(1), simp add: src_move_update)+
  define h where "h = src_ticks n h0"
  have he: "h = src_ticks (k + n) g" by (simp add: h_def h0_def src_ticks_def funpow_add add.commute [of k n])
  have sm: "sum_list (src_moves h0 n) = 0" using sum_moves [OF h0f(1) ok(2)] h0f(3) z by simp
  have h: "h = h0\<lparr>gbx_seq := k mod n, gbx_bit_cnt := gbx_bit_cnt h\<rparr>" "0 \<le> gbx_bit_cnt h"
    "gbx_bit_cnt h = fold clip (src_moves h0 n) (gbx_bit_cnt h0)"
    using src_ticks_eq [OF h0f(1) ok(2) _ h0(2), of n] h0f(2) ok(2) by (auto simp: h_def)
  have hf: "gbx_seq_len h = Some n" "gbx_seq h = k mod n" "src_move h = src_move g"
    using h0f by (subst h(1), simp add: src_move_update)+
  have mv: "src_moves h m = src_moves h0 m" for m using hf h0f by (simp add: src_moves_def)
  have per: "fold clip (src_moves h n) (gbx_bit_cnt h) = gbx_bit_cnt h"
    unfolding mv h(3) by (rule fold_clip_period [OF h0(2) sm])
  have tk: "gbx_bit_cnt (src_ticks m h) = fold clip (src_moves h m) (gbx_bit_cnt h)"
    "gbx_seq (src_ticks m h) = (gbx_seq h + m) mod n" for m
    using src_ticks_eq [OF hf(1) ok(2) _ h(2), of m] hf(2) ok(2) by simp_all
  have "take m (src_moves h n) = src_moves h m" if "m \<le> n" for m
    using that hf(1) by (simp add: src_moves_def take_map)
  then have "gbx_bit_cnt (src_ticks m h) = gbx_bit_cnt h + sum_list (src_moves h m)" if "m \<le> n" for m
    using no_clip [OF per, of m] sm mv that tk(1) hf(1) by (simp add: src_moves_def)
  then show ?thesis using ok(4) per tk hf(2) ok(2) st unfolding he [symmetric] by simp
qed

lemma gearbox_settles_witness:
  "snd (set_gbx_cfg_src 66 (Some 33) (Some [32]) (gbx_new 66)) = Inr () \<and>
   gbx_bit_cnt (src_ticks 33 (src_ticks 33 (fst (set_gbx_cfg_src 66 (Some 33) (Some [32]) (gbx_new 66))))) =
   gbx_bit_cnt (src_ticks 33 (fst (set_gbx_cfg_src 66 (Some 33) (Some [32]) (gbx_new 66))))"
proof -
  have ok: "snd (set_gbx_cfg_src 66 (Some 33) (Some [32]) (gbx_new 66)) = Inr ()" by code_simp
  then have "set_gbx_cfg_src 66 (Some 33) (Some [32]) (gbx_new 66) =
      (fst (set_gbx_cfg_src 66 (Some 33) (Some [32]) (gbx_new 66)), Inr ())" by (simp add: prod_eq_iff)
  from gearbox_settles [OF this, of 0] ok show ?thesis by (simp add: Let_def)
qed

end
