(* ===== verification/BaseR.thy ===== *)
theory BaseR imports Gearbox begin

text \<open>
  The 64b/66b serial link models (\<open>src/eth/tb/baser.py\<close>): the source that turns frames into
  lanes of a word, words into blocks, and blocks into scrambled serial data; the sink that goes the
  other way.  A clock edge is a step function.  The constants and the frame class come from
  \<open>cocotbext.eth\<close> and are parameters.
\<close>

section \<open>Parameters from \<open>cocotbext.eth\<close>\<close>

record eth_consts =
  pre_byte :: int
  sfd_byte :: int
  x_idle :: int
  x_start :: int
  x_term :: int
  x_error :: int
  x_seq_os :: int
  x_sig_os :: int
  r_error :: int
  sync_data :: int
  sync_ctrl :: int
  o_seq :: int
  o_sig :: int
  bt_ctrl :: int
  bt_os_4 :: int
  bt_start_4 :: int
  bt_os_start :: int
  bt_os_04 :: int
  bt_start_0 :: int
  bt_os_0 :: int
  bt_term :: "nat \<Rightarrow> int"
  ctrl_to_baser :: "int \<Rightarrow> int option"
  baser_to_ctrl :: "int \<Rightarrow> int option"
  term_lane :: "int \<Rightarrow> nat option"

text \<open>A frame; the times are those the models store in it.\<close>

record xframe =
  x_data :: bytes
  x_ctrl :: "int list"
  x_start_lane :: nat
  x_time_start :: "int option"
  x_time_sfd :: "int option"
  x_time_end :: "int option"

text \<open>The frame class: its constructor from data and control, \<open>normalize\<close> and
  \<open>compact\<close>.\<close>

record frame_class =
  make_frame :: "bytes \<Rightarrow> int list \<Rightarrow> xframe"
  normalize_frame :: "xframe \<Rightarrow> xframe"
  compact_frame :: "xframe \<Rightarrow> xframe"

section \<open>Source: state\<close>

record serdes_cfg =
  byte_lanes_of :: nat
  scramble_on :: bool
  reverse_on :: bool

definition serdes_width :: "serdes_cfg \<Rightarrow> nat" where "serdes_width c = 8 * byte_lanes_of c"
definition pack_cnt :: "serdes_cfg \<Rightarrow> nat" where "pack_cnt c = 8 div byte_lanes_of c"

definition serdes_cfg_ok :: "serdes_cfg \<Rightarrow> bool" where
  "serdes_cfg_ok c \<longleftrightarrow> byte_lanes_of c \<in> {1, 2, 4, 8}"

text \<open>The lane state: the variables the loop over the eight lanes of a word reads and writes.\<close>

record lane_src =
  ls_queue :: "xframe list"
  ls_active :: bool
  ls_idle_event :: bool
  ls_dequeue_event :: bool
  ls_occ_bytes :: int
  ls_occ_frames :: int
  ls_frame :: "xframe option"
  ls_offset :: int
  ls_sof :: bool
  ls_in_pre :: bool
  ls_in_term :: bool
  ls_ifg_cnt :: int
  ls_deficit :: int
  ls_rep_cnt :: int
  ls_done :: "xframe list"

record src_opts =
  enable_dic :: bool
  ifg :: int
  force_offset_start :: bool
  xgmii_rep_count :: int
  limit_bytes :: int
  limit_frames :: int

record base_src =
  bs_lane :: lane_src
  bs_opts :: src_opts
  bs_gbx :: gbx
  bs_bit_offset :: int
  bs_os :: "int option"
  bs_os_sig :: bool
  bs_pack_seq :: nat
  bs_scrambler :: int
  bs_last_d :: int
  bs_clk_period :: int
  bs_last_clk :: int
  bs_gbx_delay :: int
  bs_data :: int
  bs_hdr :: int

text \<open>What the source drives.\<close>

record serdes_bus =
  b_data :: int
  b_data_valid :: bool
  b_hdr :: int
  b_hdr_valid :: bool
  b_gbx_sync :: bool

definition lane_src_new :: lane_src where
  "lane_src_new = \<lparr>ls_queue = [], ls_active = False, ls_idle_event = True, ls_dequeue_event = False,
     ls_occ_bytes = 0, ls_occ_frames = 0, ls_frame = None, ls_offset = 0, ls_sof = False, ls_in_pre = False,
     ls_in_term = False, ls_ifg_cnt = 0, ls_deficit = 0, ls_rep_cnt = 0, ls_done = []\<rparr>"

definition base_src_new :: base_src where
  "base_src_new = \<lparr>bs_lane = lane_src_new,
     bs_opts = \<lparr>enable_dic = True, ifg = 12, force_offset_start = False, xgmii_rep_count = 0,
       limit_bytes = -1, limit_frames = -1\<rparr>,
     bs_gbx = gbx_new 66, bs_bit_offset = 0, bs_os = None, bs_os_sig = False, bs_pack_seq = 0,
     bs_scrambler = 0, bs_last_d = 0, bs_clk_period = 0, bs_last_clk = 0, bs_gbx_delay = 0, bs_data = 0, bs_hdr = 0\<rparr>"

definition bus_idle :: serdes_bus where
  "bus_idle = \<lparr>b_data = 0, b_data_valid = False, b_hdr = 0, b_hdr_valid = False, b_gbx_sync = False\<rparr>"

section \<open>Source: queue\<close>

definition frame_len :: "xframe \<Rightarrow> int" where "frame_len f = int (length (x_data f))"

definition src_full :: "src_opts \<Rightarrow> lane_src \<Rightarrow> bool" where
  "src_full opts l \<longleftrightarrow>
     (if limit_bytes opts > 0 \<and> ls_occ_bytes l > limit_bytes opts then True
      else limit_frames opts > 0 \<and> ls_occ_frames l > limit_frames opts)"

definition send_nowait :: "src_opts \<Rightarrow> xframe \<Rightarrow> lane_src \<Rightarrow> lane_src result" where
  "send_nowait opts f l =
     (if src_full opts l then Inl QueueFull
      else Inr (l\<lparr>ls_queue := ls_queue l @ [f], ls_idle_event := False,
                  ls_occ_bytes := ls_occ_bytes l + frame_len f, ls_occ_frames := ls_occ_frames l + 1\<rparr>))"

text \<open>One turn of \<open>send\<close>: while the queue is full it clears the event and waits (the
  result is None).\<close>

definition send_turn :: "src_opts \<Rightarrow> xframe \<Rightarrow> lane_src \<Rightarrow> lane_src \<times> bool" where
  "send_turn opts f l =
     (if src_full opts l then (l\<lparr>ls_dequeue_event := False\<rparr>, False)
      else (l\<lparr>ls_queue := ls_queue l @ [f], ls_idle_event := False,
              ls_occ_bytes := ls_occ_bytes l + frame_len f, ls_occ_frames := ls_occ_frames l + 1\<rparr>, True))"

definition src_idle :: "lane_src \<Rightarrow> bool" where
  "src_idle l \<longleftrightarrow> ls_queue l = [] \<and> \<not> ls_active l"

definition src_clear :: "base_src \<Rightarrow> base_src" where
  "src_clear s = s\<lparr>bs_lane := (bs_lane s)\<lparr>ls_done := ls_done (bs_lane s) @ map (\<lambda>f. f\<lparr>x_time_end := None\<rparr>) (ls_queue (bs_lane s)),
       ls_queue := [], ls_dequeue_event := True, ls_idle_event := True, ls_occ_bytes := 0, ls_occ_frames := 0\<rparr>,
     bs_os := None, bs_os_sig := False\<rparr>"

definition src_count_frames :: "lane_src \<Rightarrow> nat" where "src_count_frames l = length (ls_queue l)"

definition set_os :: "int option \<Rightarrow> bool \<Rightarrow> base_src \<Rightarrow> base_src" where
  "set_os os sig s = s\<lparr>bs_os := os, bs_os_sig := sig\<rparr>"

definition set_seq_os :: "int option \<Rightarrow> base_src \<Rightarrow> base_src" where "set_seq_os os = set_os os False"
definition set_sig_os :: "int option \<Rightarrow> base_src \<Rightarrow> base_src" where "set_sig_os os = set_os os True"

definition set_xgmii_rep_count :: "int \<Rightarrow> base_src \<Rightarrow> base_src" where
  "set_xgmii_rep_count rep s = s\<lparr>bs_opts := (bs_opts s)\<lparr>xgmii_rep_count := rep\<rparr>\<rparr>"

section \<open>Source: lanes\<close>

text \<open>At the first lane of each half word: wait out the gap, take a frame, or go idle.\<close>

definition half_start :: "eth_consts \<Rightarrow> frame_class \<Rightarrow> src_opts \<Rightarrow> nat \<Rightarrow> lane_src \<Rightarrow> lane_src result" where
  "half_start K F opts k l =
     (if k mod 4 \<noteq> 0 \<or> ls_rep_cnt l \<noteq> 0 \<or> (force_offset_start opts \<and> k = 0) \<or> ls_in_term l then Inr l
      else if ls_ifg_cnt l + ls_deficit l > 4 - 1 \<or> (\<not> enable_dic opts \<and> ls_ifg_cnt l > 0)
      then let cnt = ls_ifg_cnt l - 4 in
        if cnt < 0
        then Inr (l\<lparr>ls_ifg_cnt := 0, ls_deficit := (if enable_dic opts then max (ls_deficit l + cnt) 0 else ls_deficit l)\<rparr>)
        else Inr (l\<lparr>ls_ifg_cnt := cnt\<rparr>)
      else if ls_frame l = None
      then (case ls_queue l of
          f0 # rest \<Rightarrow>
            let f = (normalize_frame F (f0\<lparr>x_time_start := None, x_time_sfd := None, x_time_end := None\<rparr>))\<lparr>x_start_lane := 0\<rparr>
            in rbind (py_get (x_data f) 0) (\<lambda>d0. if d0 \<noteq> pre_byte K then Inl AssertionError
               else rbind (py_get (x_ctrl f) 0) (\<lambda>c0. if c0 \<noteq> 0 then Inl AssertionError
               else Inr (l\<lparr>ls_queue := rest, ls_dequeue_event := True, ls_occ_bytes := ls_occ_bytes l - frame_len f0,
                    ls_occ_frames := ls_occ_frames l - 1, ls_frame := Some f,
                    ls_deficit := (if enable_dic opts then max (ls_deficit l + ls_ifg_cnt l) 0 else ls_deficit l),
                    ls_ifg_cnt := 0, ls_active := True, ls_offset := 0, ls_sof := True, ls_in_pre := True\<rparr>)))
        | [] \<Rightarrow> Inr (l\<lparr>ls_deficit := 0, ls_ifg_cnt := 0, ls_active := False, ls_idle_event := True\<rparr>))
      else Inr l)"

text \<open>The character of a lane, at time \<open>t\<close>.\<close>

definition lane_emit :: "eth_consts \<Rightarrow> src_opts \<Rightarrow> int \<Rightarrow> nat \<Rightarrow> lane_src \<Rightarrow> ((int \<times> int) \<times> lane_src) result" where
  "lane_emit K opts t k l =
     (case ls_frame l of
        None \<Rightarrow> Inr ((x_idle K, 1), l)
      | Some f \<Rightarrow>
          if ls_sof l
          then Inr ((x_start K, 1), l\<lparr>ls_sof := False, ls_frame := Some (f\<lparr>x_start_lane := k, x_time_start := Some t\<rparr>)\<rparr>)
          else if ls_offset l \<ge> frame_len f
          then Inr ((x_term K, 1), l\<lparr>ls_in_term := True, ls_ifg_cnt := max (ifg opts - (8 - int k)) 0,
                 ls_done := ls_done l @ [f\<lparr>x_time_end := Some t\<rparr>], ls_frame := None\<rparr>)
          else rbind (py_get (x_data f) (ls_offset l)) (\<lambda>d. rbind (py_get (x_ctrl f) (ls_offset l)) (\<lambda>c.
            Inr (if ls_offset l = 0 then (170, 0) else (d, c),
                 l\<lparr>ls_frame := Some (if x_time_sfd f = None \<and> \<not> ls_in_pre l then f\<lparr>x_time_sfd := Some t\<rparr> else f),
                   ls_in_pre := (if d = sfd_byte K \<and> (xgmii_rep_count opts = 0 \<or> ls_rep_cnt l = 1) then False else ls_in_pre l)\<rparr>))))"

text \<open>The offset, and the repetition of half words at the lower speeds.\<close>

definition lane_next :: "src_opts \<Rightarrow> nat \<Rightarrow> lane_src \<Rightarrow> lane_src" where
  "lane_next opts k l =
     (let l1 = l\<lparr>ls_offset := ls_offset l + 1\<rparr> in
      if k mod 4 = 3
      then let rep = (if ls_rep_cnt l1 > 0 then ls_rep_cnt l1 - 1
                      else if xgmii_rep_count opts \<noteq> 0 \<and>
                        (xgmii_rep_count opts mod 2 = 0 \<or> (if force_offset_start opts then k \<noteq> 3 else k = 3))
                      then xgmii_rep_count opts else ls_rep_cnt l1)
           in l1\<lparr>ls_rep_cnt := rep, ls_offset := (if rep > 0 then ls_offset l1 - 4 else ls_offset l1)\<rparr>
      else l1)"

definition lane_step :: "eth_consts \<Rightarrow> frame_class \<Rightarrow> src_opts \<Rightarrow> (nat \<Rightarrow> int) \<Rightarrow> nat \<Rightarrow>
    (int list \<times> int list) \<times> lane_src \<Rightarrow> ((int list \<times> int list) \<times> lane_src) result" where
  "lane_step K F opts time k = (\<lambda>((dl, cl), l).
     rbind (half_start K F opts k l) (\<lambda>l1.
     rbind (lane_emit K opts (time k) k l1) (\<lambda>((d, c), l2).
     Inr ((dl @ [d], cl @ [c]), lane_next opts k l2))))"

text \<open>The eight lanes of a word.\<close>

definition word_lanes :: "eth_consts \<Rightarrow> frame_class \<Rightarrow> src_opts \<Rightarrow> (nat \<Rightarrow> int) \<Rightarrow> lane_src \<Rightarrow>
    ((int list \<times> int list) \<times> lane_src) result" where
  "word_lanes K F opts time l = rfold (lane_step K F opts time) [0..<8] (([], []), l)"

text \<open>Ordered sets in place of four idles.\<close>

definition put_os :: "eth_consts \<Rightarrow> bool \<Rightarrow> bytes \<Rightarrow> nat \<Rightarrow> int list \<times> int list \<Rightarrow> int list \<times> int list" where
  "put_os K sig_os b k = (\<lambda>(dl, cl).
     (take k dl @ [if sig_os then x_sig_os K else x_seq_os K] @ b @ drop (k + 4) dl,
      take (k + 1) cl @ [0, 0, 0] @ drop (k + 4) cl))"

definition replace_idles :: "eth_consts \<Rightarrow> int option \<Rightarrow> bool \<Rightarrow> int list \<times> int list \<Rightarrow> (int list \<times> int list) result" where
  "replace_idles K os sig_os w =
     (case os of None \<Rightarrow> Inr w
      | Some v \<Rightarrow> rfold (\<lambda>k (dl, cl).
          if (\<forall>c \<in> set (py_slice k (k + 4) cl). c \<noteq> 0) \<and> (\<forall>d \<in> set (py_slice k (k + 4) dl). d = x_idle K)
          then rbind (to_bytes_be 3 v) (\<lambda>b. Inr (put_os K sig_os b k (dl, cl))) else Inr (dl, cl)) [0, 4] w)"

section \<open>Source: blocks\<close>

definition any_ctrl :: "int list \<Rightarrow> bool" where "any_ctrl cl \<longleftrightarrow> (\<exists>c \<in> set cl. c \<noteq> 0)"

text \<open>\<open>sum(mapping.get(d, ERROR) << i*7)\<close>.\<close>

definition ctrl_chars :: "eth_consts \<Rightarrow> int list \<Rightarrow> int" where
  "ctrl_chars K dl = sum_list (map (\<lambda>i. push_bit (i * 7)
     (case ctrl_to_baser K (dl ! i) of Some v \<Rightarrow> v | None \<Rightarrow> r_error K)) [0..<length dl])"

text \<open>The lanes from \<open>i\<close> up to \<open>j\<close> at byte \<open>i + s\<close>, or-ed to the block.\<close>

definition or_lanes :: "int list \<Rightarrow> nat \<Rightarrow> nat \<Rightarrow> nat \<Rightarrow> int \<Rightarrow> int" where
  "or_lanes dl i j s data = fold (\<lambda>k data. data OR push_bit ((k + s) * 8) (dl ! k)) [i..<j] data"

abbreviation is_os :: "eth_consts \<Rightarrow> int \<Rightarrow> bool" where
  "is_os K d \<equiv> d = x_seq_os K \<or> d = x_sig_os K"

definition start_block :: "eth_consts \<Rightarrow> int list \<Rightarrow> int list \<Rightarrow> int \<Rightarrow> int" where
  "start_block K dl cl ctrl =
     or_lanes dl 5 8 0
       (if cl ! 0 \<noteq> 0 \<and> is_os K (dl ! 0) \<and> \<not> any_ctrl (py_slice 1 4 cl)
        then (let data = or_lanes dl 1 4 0 (bt_os_start K)
              in if dl ! 0 = x_sig_os K then data OR push_bit 32 (o_sig K) else data)
        else bt_start_4 K OR push_bit 8 (ctrl AND 0xfffffff))"

definition os_block :: "eth_consts \<Rightarrow> int list \<Rightarrow> int list \<Rightarrow> int \<Rightarrow> int" where
  "os_block K dl cl ctrl =
     (let data = (if cl ! 4 \<noteq> 0 \<and> is_os K (dl ! 4) \<and> \<not> any_ctrl (py_slice 5 8 cl)
                  then (let d = or_lanes dl 5 8 0 (bt_os_04 K)
                        in if dl ! 4 = x_sig_os K then d OR push_bit 36 (o_sig K) else d)
                  else bt_os_0 K OR push_bit 40 (ctrl AND 0xfffffff));
          data1 = or_lanes dl 1 4 0 data
      in if dl ! 0 = x_sig_os K then data1 OR push_bit 32 (o_sig K) else data1)"

definition os_4_block :: "eth_consts \<Rightarrow> int list \<Rightarrow> int \<Rightarrow> int" where
  "os_4_block K dl ctrl =
     (let data = or_lanes dl 5 8 0 (bt_os_4 K OR push_bit 8 (ctrl AND 0xfffffff))
      in if dl ! 4 = x_sig_os K then data OR push_bit 36 (o_sig K) else data)"

text \<open>The eight masks of the terminate blocks.\<close>

definition term_mask :: "nat \<Rightarrow> int" where
  "term_mask k = [0xffffffffffff80, 0xffffffffffc000, 0xffffffffe00000, 0xfffffff0000000,
     0xfffff800000000, 0xfffc0000000000, 0xfe000000000000, 0] ! k"

definition term_block :: "eth_consts \<Rightarrow> int list \<Rightarrow> int \<Rightarrow> nat \<Rightarrow> int" where
  "term_block K dl ctrl k = or_lanes dl 0 k 1 (bt_term K k OR push_bit 8 (ctrl AND term_mask k))"

definition first_term :: "eth_consts \<Rightarrow> int list \<Rightarrow> int list \<Rightarrow> nat option" where
  "first_term K dl cl = find (\<lambda>k. cl ! k \<noteq> 0 \<and> dl ! k = x_term K \<and> \<not> any_ctrl (take k cl)) [0..<8]"

text \<open>The block of a word: the sync header and the data.\<close>

definition encode_block :: "eth_consts \<Rightarrow> int list \<times> int list \<Rightarrow> int \<times> int" where
  "encode_block K = (\<lambda>(dl, cl).
     let ctrl = ctrl_chars K dl in
     if \<not> any_ctrl cl then (sync_data K, le_int dl)
     else (sync_ctrl K,
       if cl ! 0 \<noteq> 0 \<and> dl ! 0 = x_start K \<and> \<not> any_ctrl (drop 1 cl) then or_lanes dl 1 8 0 (bt_start_0 K)
       else if cl ! 4 \<noteq> 0 \<and> dl ! 4 = x_start K \<and> \<not> any_ctrl (drop 5 cl) then start_block K dl cl ctrl
       else if cl ! 0 \<noteq> 0 \<and> is_os K (dl ! 0) \<and> \<not> any_ctrl (py_slice 1 4 cl) then os_block K dl cl ctrl
       else if cl ! 4 \<noteq> 0 \<and> is_os K (dl ! 4) \<and> \<not> any_ctrl (py_slice 5 8 cl) then os_4_block K dl ctrl
       else case first_term K dl cl of
          Some k \<Rightarrow> term_block K dl ctrl k
        | None \<Rightarrow> bt_ctrl K OR push_bit 8 ctrl))"

section \<open>Scrambler, bit slip and bit reversal\<close>

definition tap :: "int \<Rightarrow> int \<Rightarrow> nat \<Rightarrow> bool" where
  "tap st data i \<longleftrightarrow> (bit st 38 \<noteq> bit st 57) \<noteq> bit data i"

definition scramble_bit :: "int \<Rightarrow> nat \<Rightarrow> int \<times> int \<Rightarrow> int \<times> int" where
  "scramble_bit data i = (\<lambda>(st, b).
     if tap st data i then (push_bit 1 (st AND 0x1ffffffffffffff) OR 1, b OR push_bit i 1)
     else (push_bit 1 (st AND 0x1ffffffffffffff), b))"

definition scramble :: "int \<Rightarrow> int \<Rightarrow> int \<times> int" where
  "scramble st data = fold (scramble_bit data) [0..<64] (st, 0)"

definition descramble_bit :: "int \<Rightarrow> nat \<Rightarrow> int \<times> int \<Rightarrow> int \<times> int" where
  "descramble_bit data i = (\<lambda>(st, b).
     (push_bit 1 (st AND 0x1ffffffffffffff) OR of_bool (bit data i), if tap st data i then b OR push_bit i 1 else b))"

definition descramble :: "int \<Rightarrow> int \<Rightarrow> int \<times> int" where
  "descramble st data = fold (descramble_bit data) [0..<64] (st, 0)"

text \<open>The slip: the offset grows on request, and with an offset the block is cut from the last
  66 bits and this one.\<close>

definition slip_out :: "bool \<Rightarrow> int \<Rightarrow> int \<Rightarrow> int \<Rightarrow> int \<Rightarrow> int \<times> int \<times> int \<times> int" where
  "slip_out slip off last_d data hdr =
     (let off1 = max 0 (if slip then off + 1 else off) mod 66 in
      if off1 \<noteq> 0
      then let d = push_bit 2 data OR hdr; out = drop_bit (nat (66 - off1)) (last_d OR push_bit 66 d) AND 0x3ffffffffffffffff
           in (off1, d, drop_bit 2 out, out AND 3)
      else (off1, last_d, data, hdr))"

definition bit_reverse :: "nat \<Rightarrow> int \<Rightarrow> int" where
  "bit_reverse w x = sum_list (map (\<lambda>i. if drop_bit i x AND 1 \<noteq> 0 then push_bit (w - 1 - i) 1 else 0) [0..<w])"

section \<open>Source: clock edge\<close>

definition edge_time :: "serdes_cfg \<Rightarrow> int \<Rightarrow> int \<Rightarrow> int \<Rightarrow> nat \<Rightarrow> int" where
  "edge_time c sim_time clk_period delay k = sim_time + clk_period div int (byte_lanes_of c) * int k + delay"

text \<open>The block of a cycle that is not a stall and has nothing left to output.\<close>

definition src_block :: "eth_consts \<Rightarrow> frame_class \<Rightarrow> serdes_cfg \<Rightarrow> int \<Rightarrow> base_src \<Rightarrow> base_src result" where
  "src_block K F c sim_time s =
     rbind (word_lanes K F (bs_opts s) (edge_time c sim_time (bs_clk_period s) (- bs_gbx_delay s)) (bs_lane s)) (\<lambda>(w, l).
     rbind (replace_idles K (bs_os s) (bs_os_sig s) w) (\<lambda>w1.
     let (hdr, data) = encode_block K w1;
         (st, data1) = (if scramble_on c then scramble (bs_scrambler s) data else (bs_scrambler s, data))
     in Inr (s\<lparr>bs_lane := l\<lparr>ls_in_term := False\<rparr>, bs_scrambler := st, bs_data := data1, bs_hdr := hdr\<rparr>)))"

definition drive :: "serdes_cfg \<Rightarrow> int \<Rightarrow> int" where
  "drive c x = (let y = if reverse_on c then bit_reverse (serdes_width c) x else x in y AND (2 ^ serdes_width c - 1))"

definition ser_src_step :: "eth_consts \<Rightarrow> frame_class \<Rightarrow> serdes_cfg \<Rightarrow> int \<Rightarrow> bool \<Rightarrow> bool \<Rightarrow>
    base_src \<times> serdes_bus \<Rightarrow> (base_src \<times> serdes_bus) result" where
  "ser_src_step K F c sim_time enable slip = (\<lambda>(s, b).
     let s1 = s\<lparr>bs_clk_period := (if bs_last_clk s \<noteq> 0 then sim_time - bs_last_clk s else bs_clk_period s),
                bs_last_clk := sim_time\<rparr>
     in if \<not> enable then Inr (s1, b)
     else
       let (g, stall, sync, delay) = gbx_src_tick (bs_clk_period s1) (bs_gbx_delay s1) (bs_gbx s1);
           s2 = s1\<lparr>bs_gbx := g, bs_gbx_delay := delay\<rparr>
       in if stall
          then Inr (s2, \<lparr>b_data = 0, b_data_valid = False, b_hdr = 0, b_hdr_valid = False, b_gbx_sync = sync\<rparr>)
       else if bs_pack_seq s2 \<noteq> 0
          then Inr (s2\<lparr>bs_pack_seq := bs_pack_seq s2 - 1\<rparr>,
                 \<lparr>b_data = drive c (drop_bit (serdes_width c * (pack_cnt c - bs_pack_seq s2)) (bs_data s2)),
                  b_data_valid = True, b_hdr = 0, b_hdr_valid = False, b_gbx_sync = sync\<rparr>)
       else rbind (src_block K F c sim_time s2) (\<lambda>s3.
          let (off, ld, data, hdr) = slip_out slip (bs_bit_offset s3) (bs_last_d s3) (bs_data s3) (bs_hdr s3)
          in Inr (s3\<lparr>bs_bit_offset := off, bs_last_d := ld, bs_data := data, bs_hdr := hdr, bs_pack_seq := pack_cnt c - 1\<rparr>,
                 \<lparr>b_data = drive c data, b_data_valid = True, b_hdr = (if reverse_on c then bit_reverse 2 hdr else hdr),
                  b_hdr_valid = True, b_gbx_sync = sync\<rparr>)))"

section \<open>Sink\<close>

record lane_sink =
  lk_queue :: "xframe list"
  lk_occ_bytes :: int
  lk_occ_frames :: int
  lk_active_event :: bool
  lk_frame :: "xframe option"
  lk_in_pre :: bool
  lk_skip_cnt :: int

record base_sink =
  bk_lane :: lane_sink
  bk_rep_count :: int
  bk_gbx :: gbx
  bk_os :: "int option"
  bk_os_sig :: bool
  bk_os_match_cnt :: int
  bk_idle_match_cnt :: int
  bk_pack_seq :: nat
  bk_scrambler :: int
  bk_clk_period :: int
  bk_last_clk :: int
  bk_gbx_delay :: int
  bk_sync_bad :: bool
  bk_data :: int
  bk_hdr :: int
  bk_req_sync :: bool
  bk_req_stall :: bool

definition lane_sink_new :: lane_sink where
  "lane_sink_new = \<lparr>lk_queue = [], lk_occ_bytes = 0, lk_occ_frames = 0, lk_active_event = False,
     lk_frame = None, lk_in_pre = False, lk_skip_cnt = 0\<rparr>"

definition base_sink_new :: base_sink where
  "base_sink_new = \<lparr>bk_lane = lane_sink_new, bk_rep_count = 0, bk_gbx = gbx_new 66, bk_os = None, bk_os_sig = False,
     bk_os_match_cnt = 0, bk_idle_match_cnt = 0, bk_pack_seq = 0, bk_scrambler = 0, bk_clk_period = 0, bk_last_clk = 0,
     bk_gbx_delay = 0, bk_sync_bad = True, bk_data = 0, bk_hdr = 0, bk_req_sync = False, bk_req_stall = False\<rparr>"

definition get_os :: "base_sink \<Rightarrow> (int option \<times> bool) \<times> base_sink" where
  "get_os s = ((bk_os s, bk_os_sig s), s\<lparr>bk_os := None\<rparr>)"

definition get_os_match :: "base_sink \<Rightarrow> bool" where "get_os_match s \<longleftrightarrow> bk_os_match_cnt s > 2"
definition get_idle_match :: "base_sink \<Rightarrow> bool" where "get_idle_match s \<longleftrightarrow> bk_idle_match_cnt s > 2"

definition recv_nowait :: "frame_class \<Rightarrow> bool \<Rightarrow> lane_sink \<Rightarrow> (xframe \<times> lane_sink) result" where
  "recv_nowait F do_compact l =
     (case lk_queue l of [] \<Rightarrow> Inl QueueEmpty
      | f # rest \<Rightarrow> Inr (if do_compact then compact_frame F f else f,
          l\<lparr>lk_queue := rest, lk_active_event := (if rest = [] then False else lk_active_event l),
            lk_occ_bytes := lk_occ_bytes l - frame_len f, lk_occ_frames := lk_occ_frames l - 1\<rparr>))"

definition set_sink_rep_count :: "int \<Rightarrow> base_sink \<Rightarrow> base_sink" where "set_sink_rep_count rep s = s\<lparr>bk_rep_count := rep\<rparr>"

definition sink_count_frames :: "lane_sink \<Rightarrow> nat" where "sink_count_frames l = length (lk_queue l)"

definition sink_clear :: "lane_sink \<Rightarrow> lane_sink" where
  "sink_clear l = l\<lparr>lk_queue := [], lk_active_event := False, lk_occ_bytes := 0, lk_occ_frames := 0\<rparr>"

text \<open>A block back to a word: the characters, the control flags, and whether it had ordered sets.\<close>

definition o_char :: "eth_consts \<Rightarrow> int \<Rightarrow> int" where
  "o_char K o4 = (if o4 = o_seq K then x_seq_os K else if o4 = o_sig K then x_sig_os K else x_error K)"

definition rx_ctrl :: "eth_consts \<Rightarrow> int \<Rightarrow> int list" where
  "rx_ctrl K data = map (\<lambda>i. case baser_to_ctrl K (drop_bit (i * 7 + 8) data AND 0x7f) of Some d \<Rightarrow> d | None \<Rightarrow> x_error K) [0..<8]"

definition decode_block :: "eth_consts \<Rightarrow> int \<Rightarrow> int \<Rightarrow> (int list \<times> int list \<times> bool) result" where
  "decode_block K hdr data =
     rbind (to_bytes_le 8 data) (\<lambda>db.
     let ctrl = rx_ctrl K data; bt = db ! 0; o0 = o_char K (db ! 4 AND 0xf); o4 = o_char K (drop_bit 4 (db ! 4) AND 0xf) in
     if hdr = sync_data K then Inr (db, replicate 8 0, False)
     else if hdr = sync_ctrl K then
       if bt = bt_ctrl K then Inr (ctrl, replicate 8 1, False)
       else if bt = bt_os_4 K then Inr (take 4 ctrl @ [o4] @ drop 5 db, replicate 4 1 @ [1] @ replicate 3 0, True)
       else if bt = bt_start_4 K then Inr (take 4 ctrl @ [x_start K] @ drop 5 db, replicate 4 1 @ [1] @ replicate 3 0, False)
       else if bt = bt_os_start K
       then Inr ([o0] @ py_slice 1 4 db @ [x_start K] @ drop 5 db, [1] @ replicate 3 0 @ [1] @ replicate 3 0, True)
       else if bt = bt_os_04 K
       then Inr ([o0] @ py_slice 1 4 db @ [o4] @ drop 5 db, [1] @ replicate 3 0 @ [1] @ replicate 3 0, True)
       else if bt = bt_start_0 K then Inr ([x_start K] @ drop 1 db, [1] @ replicate 7 0, False)
       else if bt = bt_os_0 K then Inr ([o0] @ py_slice 1 4 db @ drop 4 ctrl, [1] @ replicate 3 0 @ replicate 4 1, True)
       else if bt \<in> bt_term K ` {0..<8}
       then (case term_lane K bt of
           None \<Rightarrow> Inl KeyError
         | Some k \<Rightarrow> Inr (py_slice 1 (k + 1) db @ [x_term K] @ drop (k + 1) ctrl, replicate k 0 @ [1] @ replicate (7 - k) 1, False))
       else Inr (replicate 8 (x_error K), replicate 8 1, False)
     else Inr (replicate 8 (x_error K), replicate 8 1, False))"

text \<open>Ordered sets: the three bytes after the character, most significant first, and the match
  counters.\<close>

definition extract_os :: "eth_consts \<Rightarrow> int list \<times> int list \<Rightarrow> bytes \<Rightarrow> base_sink \<Rightarrow> base_sink" where
  "extract_os K = (\<lambda>(dl, cl) db s. fold (\<lambda>k s.
     let sig_os = (dl ! k = x_sig_os K) in
     if cl ! k \<noteq> 0 \<and> (dl ! k = x_seq_os K \<or> sig_os)
     then let v = le_int (rev (py_slice (k + 1) (k + 4) db)) in
       s\<lparr>bk_os_match_cnt := (if bk_os s = Some v \<and> bk_os_sig s = sig_os then bk_os_match_cnt s + 1 else bk_os_match_cnt s),
         bk_idle_match_cnt := 0, bk_os := Some v, bk_os_sig := sig_os\<rparr>
     else s) [0, 4] s)"

text \<open>A lane of the sink: the skipping of repeated half words, then the frame.\<close>

definition sink_char :: "eth_consts \<Rightarrow> frame_class \<Rightarrow> int \<Rightarrow> nat \<Rightarrow> int \<Rightarrow> int \<Rightarrow> lane_sink \<Rightarrow> lane_sink" where
  "sink_char K F t k d c l =
     (case lk_frame l of
        None \<Rightarrow>
          if c \<noteq> 0 \<and> d = x_start K
          then l\<lparr>lk_frame := Some ((make_frame F [pre_byte K] [0])\<lparr>x_time_start := Some t, x_start_lane := k\<rparr>), lk_in_pre := True\<rparr>
          else l
      | Some f \<Rightarrow>
          if c \<noteq> 0
          then let f1 = (if d \<noteq> x_term K then f\<lparr>x_data := x_data f @ [d], x_ctrl := x_ctrl f @ [c]\<rparr> else f);
                   f2 = (compact_frame F f1)\<lparr>x_time_end := Some t\<rparr>
               in l\<lparr>lk_occ_bytes := lk_occ_bytes l + frame_len f2, lk_occ_frames := lk_occ_frames l + 1,
                    lk_queue := lk_queue l @ [f2], lk_active_event := True, lk_frame := None\<rparr>
          else let f1 = (if x_time_sfd f = None \<and> \<not> lk_in_pre l then f\<lparr>x_time_sfd := Some t\<rparr> else f)
               in l\<lparr>lk_in_pre := (if d = sfd_byte K then False else lk_in_pre l),
                    lk_frame := Some (f1\<lparr>x_data := x_data f1 @ [d], x_ctrl := x_ctrl f1 @ [c]\<rparr>)\<rparr>)"

definition sink_lane :: "eth_consts \<Rightarrow> frame_class \<Rightarrow> int \<Rightarrow> (nat \<Rightarrow> int) \<Rightarrow> int list \<times> int list \<Rightarrow> nat \<Rightarrow> lane_sink \<Rightarrow> lane_sink" where
  "sink_lane K F rep time w k l =
     (let d = fst w ! k; c = snd w ! k;
          l1 = (if rep \<noteq> 0 \<and> c \<noteq> 0 \<and> d = x_start K then l\<lparr>lk_skip_cnt := 0\<rparr> else l)
      in if lk_skip_cnt l1 > 0
         then (if k = 3 \<or> k = 7 then l1\<lparr>lk_skip_cnt := lk_skip_cnt l1 - 1\<rparr> else l1)
         else sink_char K F (time k) k d c (if rep \<noteq> 0 \<and> (k = 3 \<or> k = 7) then l1\<lparr>lk_skip_cnt := rep\<rparr> else l1))"

definition sink_lanes :: "eth_consts \<Rightarrow> frame_class \<Rightarrow> int \<Rightarrow> (nat \<Rightarrow> int) \<Rightarrow> int list \<times> int list \<Rightarrow> lane_sink \<Rightarrow> lane_sink" where
  "sink_lanes K F rep time w l = fold (sink_lane K F rep time w) [0..<8] l"

text \<open>The block that a cycle completes.\<close>

definition sink_block :: "eth_consts \<Rightarrow> frame_class \<Rightarrow> serdes_cfg \<Rightarrow> int \<Rightarrow> base_sink \<Rightarrow> base_sink result" where
  "sink_block K F c sim_time s =
     (let (st, data) = (if scramble_on c then descramble (bk_scrambler s) (bk_data s) else (bk_scrambler s, bk_data s));
          s1 = s\<lparr>bk_scrambler := st, bk_data := data\<rparr>
      in rbind (decode_block K (bk_hdr s1) data) (\<lambda>(dl, cl, os).
        let db = le_bytes 8 data;
            s2 = (if bk_hdr s1 = sync_ctrl K \<and> bk_hdr s1 \<noteq> sync_data K \<and> db ! 0 = bt_ctrl K
                  then s1\<lparr>bk_os_match_cnt := 0, bk_idle_match_cnt := bk_idle_match_cnt s1 + 1\<rparr> else s1);
            s3 = (if os then extract_os K (dl, cl) db s2 else s2)
        in Inr (s3\<lparr>bk_lane := sink_lanes K F (bk_rep_count s3)
             (edge_time c sim_time (bk_clk_period s3) (bk_gbx_delay s3)) (dl, cl) (bk_lane s3)\<rparr>)))"

text \<open>What the sink samples; an absent signal is None.\<close>

record sink_in =
  i_data :: int
  i_hdr :: int
  i_data_valid :: "bool option"
  i_hdr_valid :: "bool option"
  i_gbx_sync :: "bool option"

definition ser_sink_step :: "eth_consts \<Rightarrow> frame_class \<Rightarrow> serdes_cfg \<Rightarrow> int \<Rightarrow> bool \<Rightarrow> sink_in \<Rightarrow> base_sink \<Rightarrow> base_sink result" where
  "ser_sink_step K F c sim_time enable i s =
     (let s1 = s\<lparr>bk_clk_period := (if bk_last_clk s \<noteq> 0 then sim_time - bk_last_clk s else bk_clk_period s), bk_last_clk := sim_time\<rparr>
      in if \<not> enable then Inr s1
      else
        let (g, req_sync, req_stall, stall, delay) = gbx_sink_tick (bk_clk_period s1) (bk_gbx_delay s1) (i_gbx_sync i) (bk_gbx s1);
            s2 = s1\<lparr>bk_gbx := g, bk_gbx_delay := delay,
                    bk_req_sync := (if gbx_on g then req_sync else bk_req_sync s1),
                    bk_req_stall := (if gbx_on g then req_stall else bk_req_stall s1)\<rparr>
        in if stall then Inr s2
        else if i_data_valid i = Some False
        then Inr (s2\<lparr>bk_sync_bad := (if gbx_on g then True else bk_sync_bad s2)\<rparr>)
        else
          let s3 = s2\<lparr>bk_sync_bad := False\<rparr>;
              data_in = (if reverse_on c then bit_reverse (serdes_width c) (i_data i) else i_data i);
              hdr_in = (if reverse_on c then bit_reverse 2 (i_hdr i) else i_hdr i)
          in if pack_cnt c > 1
             then if i_hdr_valid i = Some True
                  then Inr (s3\<lparr>bk_data := data_in, bk_hdr := hdr_in, bk_pack_seq := 1\<rparr>)
                  else let s4 = s3\<lparr>bk_data := bk_data s3 OR push_bit (serdes_width c * bk_pack_seq s3) data_in,
                                   bk_pack_seq := bk_pack_seq s3 + 1\<rparr>
                       in if bk_pack_seq s4 < pack_cnt c then Inr s4
                          else sink_block K F c sim_time (s4\<lparr>bk_pack_seq := 0\<rparr>)
             else sink_block K F c sim_time (s3\<lparr>bk_data := data_in, bk_hdr := hdr_in\<rparr>))"

end
