(* ===== verification/BaseRBlock.thy ===== *)
theory BaseRBlock imports BaseR begin

text \<open>
  Blocks: the sink's decoding inverts the source's encoding on every word that a block type stands
  for; and what the sink decodes of words with ordered sets that have no block.
\<close>

section \<open>What the code relies on of the constants\<close>

definition bt_list :: "eth_consts \<Rightarrow> int list" where
  "bt_list K = [bt_ctrl K, bt_os_4 K, bt_start_4 K, bt_os_start K, bt_os_04 K, bt_start_0 K, bt_os_0 K,
     bt_term K 0, bt_term K 1, bt_term K 2, bt_term K 3, bt_term K 4, bt_term K 5, bt_term K 6, bt_term K 7]"

definition consts_ok :: "eth_consts \<Rightarrow> bool" where
  "consts_ok K \<longleftrightarrow>
     sync_data K \<noteq> sync_ctrl K \<and> fits 2 (sync_data K) \<and> fits 2 (sync_ctrl K) \<and>
     distinct (bt_list K) \<and> (\<forall>b \<in> set (bt_list K). fits 8 b) \<and>
     distinct [x_idle K, x_start K, x_term K, x_seq_os K, x_sig_os K] \<and>
     (\<forall>x \<in> {x_idle K, x_start K, x_term K, x_seq_os K, x_sig_os K, x_error K}. fits 8 x) \<and>
     o_seq K = 0 \<and> o_sig K \<noteq> 0 \<and> fits 4 (o_sig K) \<and> fits 7 (r_error K) \<and>
     (\<forall>d v. ctrl_to_baser K d = Some v \<longrightarrow> fits 7 v \<and> baser_to_ctrl K v = Some d) \<and>
     ctrl_to_baser K (x_idle K) \<noteq> None \<and>
     (\<forall>k < 8. term_lane K (bt_term K k) = Some k)"

definition mapped :: "eth_consts \<Rightarrow> int \<Rightarrow> bool" where "mapped K d \<longleftrightarrow> ctrl_to_baser K d \<noteq> None"

definition code :: "eth_consts \<Rightarrow> int \<Rightarrow> int" where
  "code K d = (case ctrl_to_baser K d of Some v \<Rightarrow> v | None \<Rightarrow> r_error K)"
definition char_of :: "eth_consts \<Rightarrow> int \<Rightarrow> int" where
  "char_of K v = (case baser_to_ctrl K v of Some d \<Rightarrow> d | None \<Rightarrow> x_error K)"

lemma code_fits: "consts_ok K \<Longrightarrow> fits 7 (code K d)"
  by (auto simp: consts_ok_def code_def split: option.splits)

lemma char_code: "consts_ok K \<Longrightarrow> mapped K d \<Longrightarrow> char_of K (code K d) = d"
  by (auto simp: consts_ok_def code_def char_of_def mapped_def)

section \<open>Fields of a block\<close>

definition field :: "nat \<Rightarrow> nat \<Rightarrow> int \<Rightarrow> int" where "field p w x = take_bit w (drop_bit p x)"

lemma bit_field: "bit (field p w x) n \<longleftrightarrow> n < w \<and> bit x (p + n)"
  by (auto simp: field_def bit_simps)

lemma fits_bitD: "fits v d \<Longrightarrow> bit d n \<Longrightarrow> n < v"
  by (auto simp: fits_bit not_less [symmetric])

lemma field_or: "field p w (x OR y) = field p w x OR field p w y"
  by (rule bit_eqI) (auto simp: bit_field bit_simps)

lemma field_above: "p + w \<le> q \<Longrightarrow> field p w (push_bit q d) = 0"
  by (rule bit_eqI) (auto simp: bit_field bit_push_bit_iff)

lemma field_below: "fits v d \<Longrightarrow> q + v \<le> p \<Longrightarrow> field p w (push_bit q d) = 0"
  by (rule bit_eqI) (auto simp: bit_field bit_push_bit_iff dest: fits_bitD)

lemma field_exact: "fits v d \<Longrightarrow> v \<le> w \<Longrightarrow> field p w (push_bit p d) = d"
  by (rule bit_eqI) (auto simp: bit_field bit_push_bit_iff dest: fits_bitD)

lemma field_in: "q \<le> p \<Longrightarrow> field p w (push_bit q x) = field (p - q) w x"
  by (rule bit_eqI) (auto simp: bit_field bit_push_bit_iff)

lemma field_head: "fits v d \<Longrightarrow> v \<le> w \<Longrightarrow> field 0 w d = d" "fits v d \<Longrightarrow> v \<le> p \<Longrightarrow> field p w d = 0"
  by (auto intro!: bit_eqI simp: bit_field dest: fits_bitD)

lemma field_take: "p + w \<le> n \<Longrightarrow> field p w (take_bit n x) = field p w x"
  by (rule bit_eqI) (auto simp: bit_field bit_simps)

lemma field_drop: "field p w (drop_bit m x) = field (p + m) w x"
  by (rule bit_eqI) (simp add: bit_field bit_drop_bit_eq add.left_commute add.assoc)

lemma fits_push: "fits v d \<Longrightarrow> q + v \<le> n \<Longrightarrow> fits n (push_bit q d)"
  by (auto simp: fits_bit bit_push_bit_iff)

lemma fits_drop: "fits v x \<Longrightarrow> v \<le> n + m \<Longrightarrow> fits n (drop_bit m x)"
  by (auto simp: fits_bit bit_simps)

section \<open>Control characters\<close>

fun le7 :: "int list \<Rightarrow> int" where
  "le7 [] = 0"
| "le7 (c # cs) = c + 128 * le7 cs"

lemma le7_bounds: "\<forall>c \<in> set cs. fits 7 c \<Longrightarrow> fits (7 * length cs) (le7 cs)"
  by (induction cs) (auto simp: fits_def power_add)

lemma le7_field: "\<forall>c \<in> set cs. fits 7 c \<Longrightarrow> i < length cs \<Longrightarrow> field (7 * i) 7 (le7 cs) = cs ! i"
proof (induction cs arbitrary: i)
  case (Cons c cs)
  then have c: "0 \<le> c" "c < 128" by (auto simp: fits_def)
  show ?case
  proof (cases i)
    case 0
    then show ?thesis using c by (simp add: field_def take_bit_eq_mod)
  next
    case (Suc j)
    have "(c + 128 * le7 cs) div 128 = le7 cs" using c by simp
    moreover have "drop_bit (7 * i) x = drop_bit (7 * j) (x div 128)" for x :: int
      unfolding Suc by (simp add: drop_bit_eq_div zdiv_zmult2_eq power_add)
    ultimately show ?thesis using Cons Suc by (simp add: field_def)
  qed
qed simp

lemma sum_le7: "sum_list (map (\<lambda>i. push_bit (i * 7) (f (dl ! i))) [0..<length dl]) = le7 (map f dl)"
proof (induction dl)
  case (Cons d dl)
  have u: "[0..<length (d # dl)] = 0 # map Suc [0..<length dl]" by (simp add: map_Suc_upt upt_conv_Cons del: upt_Suc)
  have "sum_list (map (\<lambda>i. push_bit (Suc i * 7) (f (dl ! i))) [0..<length dl]) =
      128 * sum_list (map (\<lambda>i. push_bit (i * 7) (f (dl ! i))) [0..<length dl])"
    unfolding sum_list_const_mult [symmetric] by (simp add: push_bit_eq_mult power_add mult.left_commute)
  then show ?case using Cons unfolding u by (simp add: comp_def)
qed simp

lemma ctrl_chars_le7: "ctrl_chars K dl = le7 (map (code K) dl)"
  using sum_le7 [of "code K" dl] by (simp add: ctrl_chars_def code_def)

lemma ctrl_chars_fits: "consts_ok K \<Longrightarrow> length dl = 8 \<Longrightarrow> fits 56 (ctrl_chars K dl)"
  using le7_bounds [of "map (code K) dl"] code_fits by (simp add: ctrl_chars_le7)

lemma ctrl_chars_field: "consts_ok K \<Longrightarrow> i < length dl \<Longrightarrow> field (7 * i) 7 (ctrl_chars K dl) = code K (dl ! i)"
  using le7_field [of "map (code K) dl" i] code_fits by (simp add: ctrl_chars_le7)

section \<open>Decoding by fields\<close>

lemma upt8: "[0..<8] = [0, 1, 2, 3, 4, 5, 6, 7 :: nat]"
  by (simp add: upt_rec)

lemma to_bytes_fields: "fits 64 x \<Longrightarrow> to_bytes_le 8 x =
    Inr [field 0 8 x, field 8 8 x, field 16 8 x, field 24 8 x, field 32 8 x, field 40 8 x, field 48 8 x, field 56 8 x]"
  using fitsD [of 64 x] by (simp add: to_bytes_le_def le_bytes_def field_def upt8)

lemma rx_ctrl_fields: "rx_ctrl K x = map (char_of K) [field 8 7 x, field 15 7 x, field 22 7 x, field 29 7 x, field 36 7 x,
    field 43 7 x, field 50 7 x, field 57 7 x]"
proof -
  have "y AND 0x7f = take_bit 7 y" for y :: int
    using take_bit_eq_mask [of 7 y] by (simp add: mask_eq_exp_minus_1)
  then show ?thesis by (simp add: rx_ctrl_def field_def upt8 char_of_def)
qed

lemma nibbles: "field 32 8 x AND 0xf = field 32 4 x" "drop_bit 4 (field 32 8 x) AND 0xf = field 36 4 x"
proof -
  have m: "y AND 0xf = take_bit 4 y" for y :: int
    using take_bit_eq_mask [of 4 y] by (simp add: mask_eq_exp_minus_1)
  show "field 32 8 x AND 0xf = field 32 4 x" unfolding m by (simp add: field_def take_bit_take_bit)
  show "drop_bit 4 (field 32 8 x) AND 0xf = field 36 4 x"
    unfolding m by (rule bit_eqI) (auto simp: bit_simps bit_field)
qed

lemma decode_by_fields:
  assumes "fits 64 x"
  shows "decode_block K hdr x =
    (let db = [field 0 8 x, field 8 8 x, field 16 8 x, field 24 8 x, field 32 8 x, field 40 8 x, field 48 8 x, field 56 8 x];
       ctrl = map (char_of K) [field 8 7 x, field 15 7 x, field 22 7 x, field 29 7 x, field 36 7 x, field 43 7 x, field 50 7 x, field 57 7 x];
       bt = field 0 8 x; o0 = o_char K (field 32 4 x); o4 = o_char K (field 36 4 x) in
     if hdr = sync_data K then Inr (db, replicate 8 0, False)
     else if hdr = sync_ctrl K then
       if bt = bt_ctrl K then Inr (ctrl, replicate 8 1, False)
       else if bt = bt_os_4 K then Inr (take 4 ctrl @ [o4] @ drop 5 db, replicate 4 1 @ [1] @ replicate 3 0, True)
       else if bt = bt_start_4 K then Inr (take 4 ctrl @ [x_start K] @ drop 5 db, replicate 4 1 @ [1] @ replicate 3 0, False)
       else if bt = bt_os_start K
       then Inr ([o0] @ py_slice 1 4 db @ [x_start K] @ drop 5 db, [1] @ replicate 3 0 @ [1] @ replicate 3 0, True)
       else if bt = bt_os_04 K
       then Inr ([o0] @ py_slice 1 4 db @ [o4] @ drop 5 db, [1] @ replicate 3 0 @ [1] @ replicate 3 0, True)
       else if bt = bt_start_0 K then Inr ([x_start K] @ drop 1 db, [1] @ replicate 7 0, False)
       else if bt = bt_os_0 K then Inr ([o0] @ py_slice 1 4 db @ drop 4 ctrl, [1] @ replicate 3 0 @ replicate 4 1, True)
       else if bt \<in> bt_term K ` {0..<8}
       then (case term_lane K bt of
           None \<Rightarrow> Inl KeyError
         | Some k \<Rightarrow> Inr (py_slice 1 (k + 1) db @ [x_term K] @ drop (k + 1) ctrl, replicate k 0 @ [1] @ replicate (7 - k) 1, False))
       else Inr (replicate 8 (x_error K), replicate 8 1, False)
     else Inr (replicate 8 (x_error K), replicate 8 1, False))"
  unfolding decode_block_def to_bytes_fields [OF assms] rbind_simps rx_ctrl_fields Let_def
  by (simp add: nibbles)

section \<open>Words by block type\<close>

lemma rep_simps: "replicate 3 x = [x, x, x]" "replicate 4 x = [x, x, x, x]" "replicate 7 x = [x, x, x, x, x, x, x]"
  "replicate 8 x = [x, x, x, x, x, x, x, x]"
  by (simp_all add: numeral_eq_Suc)

lemma bt_ne:
  assumes "consts_ok K"
  shows "bt_os_4 K \<noteq> bt_ctrl K" "bt_start_4 K \<noteq> bt_ctrl K" "bt_start_4 K \<noteq> bt_os_4 K" "bt_os_start K \<noteq> bt_ctrl K"
    "bt_os_start K \<noteq> bt_os_4 K" "bt_os_start K \<noteq> bt_start_4 K" "bt_os_04 K \<noteq> bt_ctrl K" "bt_os_04 K \<noteq> bt_os_4 K"
    "bt_os_04 K \<noteq> bt_start_4 K" "bt_os_04 K \<noteq> bt_os_start K" "bt_start_0 K \<noteq> bt_ctrl K" "bt_start_0 K \<noteq> bt_os_4 K"
    "bt_start_0 K \<noteq> bt_start_4 K" "bt_start_0 K \<noteq> bt_os_start K" "bt_start_0 K \<noteq> bt_os_04 K" "bt_os_0 K \<noteq> bt_ctrl K"
    "bt_os_0 K \<noteq> bt_os_4 K" "bt_os_0 K \<noteq> bt_start_4 K" "bt_os_0 K \<noteq> bt_os_start K" "bt_os_0 K \<noteq> bt_os_04 K"
    "bt_os_0 K \<noteq> bt_start_0 K"
proof -
  have d: "distinct (bt_list K)" using assms by (simp add: consts_ok_def)
  have "bt_list K ! i \<noteq> bt_list K ! j" if "j < i" "i < 7" for i j
    using nth_eq_iff_index_eq [OF d, of i j] that by (simp add: bt_list_def)
  note this [of 0 1] this [of 0 2] this [of 1 2] this [of 0 3] this [of 1 3] this [of 2 3] this [of 0 4] this [of 1 4]
    this [of 2 4] this [of 3 4] this [of 0 5] this [of 1 5] this [of 2 5] this [of 3 5] this [of 4 5] this [of 0 6]
    this [of 1 6] this [of 2 6] this [of 3 6] this [of 4 6] this [of 5 6]
  from this [unfolded bt_list_def, simplified]
  show "bt_os_4 K \<noteq> bt_ctrl K" "bt_start_4 K \<noteq> bt_ctrl K" "bt_start_4 K \<noteq> bt_os_4 K" "bt_os_start K \<noteq> bt_ctrl K"
    "bt_os_start K \<noteq> bt_os_4 K" "bt_os_start K \<noteq> bt_start_4 K" "bt_os_04 K \<noteq> bt_ctrl K" "bt_os_04 K \<noteq> bt_os_4 K"
    "bt_os_04 K \<noteq> bt_start_4 K" "bt_os_04 K \<noteq> bt_os_start K" "bt_start_0 K \<noteq> bt_ctrl K" "bt_start_0 K \<noteq> bt_os_4 K"
    "bt_start_0 K \<noteq> bt_start_4 K" "bt_start_0 K \<noteq> bt_os_start K" "bt_start_0 K \<noteq> bt_os_04 K" "bt_os_0 K \<noteq> bt_ctrl K"
    "bt_os_0 K \<noteq> bt_os_4 K" "bt_os_0 K \<noteq> bt_start_4 K" "bt_os_0 K \<noteq> bt_os_start K" "bt_os_0 K \<noteq> bt_os_04 K"
    "bt_os_0 K \<noteq> bt_start_0 K" .
qed

lemma bt_term_ne:
  assumes "consts_ok K" "k < 8"
  shows "bt_term K k \<noteq> bt_ctrl K"
    "bt_term K k \<noteq> bt_os_4 K"
    "bt_term K k \<noteq> bt_start_4 K"
    "bt_term K k \<noteq> bt_os_start K"
    "bt_term K k \<noteq> bt_os_04 K"
    "bt_term K k \<noteq> bt_start_0 K"
    "bt_term K k \<noteq> bt_os_0 K"
proof -
  have d: "distinct (bt_list K)" using assms(1) by (simp add: consts_ok_def)
  have "bt_list K = [bt_ctrl K, bt_os_4 K, bt_start_4 K, bt_os_start K, bt_os_04 K, bt_start_0 K, bt_os_0 K] @ map (bt_term K) [0..<8]"
    by (simp add: bt_list_def upt8)
  then have t: "bt_list K ! (7 + k) = bt_term K k" using assms(2) by (simp add: nth_append)
  have ne: "bt_term K k \<noteq> bt_list K ! i" if "i < 7" for i
    using nth_eq_iff_index_eq [OF d, of "7 + k" i] that assms(2) unfolding t by (simp add: bt_list_def)
  show "bt_term K k \<noteq> bt_ctrl K"
    "bt_term K k \<noteq> bt_os_4 K"
    "bt_term K k \<noteq> bt_start_4 K"
    "bt_term K k \<noteq> bt_os_start K"
    "bt_term K k \<noteq> bt_os_04 K"
    "bt_term K k \<noteq> bt_start_0 K"
    "bt_term K k \<noteq> bt_os_0 K"
    using ne [of 0] ne [of 1] ne [of 2] ne [of 3] ne [of 4] ne [of 5] ne [of 6] by (simp_all add: bt_list_def)
qed

lemma sync_ne: "consts_ok K \<Longrightarrow> sync_ctrl K \<noteq> sync_data K"
  by (auto simp: consts_ok_def)

lemma sync_fits: "consts_ok K \<Longrightarrow> fits 2 (sync_data K)" "consts_ok K \<Longrightarrow> fits 2 (sync_ctrl K)"
  by (simp_all add: consts_ok_def)

lemma decode_by_type:
  assumes K: "consts_ok K" and x: "fits 64 x"
  defines "ch \<equiv> \<lambda>i. char_of K (field (7 * i + 8) 7 x)" and "db \<equiv> \<lambda>i. field (8 * i) 8 x"
    and "o0 \<equiv> o_char K (field 32 4 x)" and "o4 \<equiv> o_char K (field 36 4 x)"
  shows "field 0 8 x = bt_ctrl K \<Longrightarrow> decode_block K (sync_ctrl K) x = Inr ([ch 0, ch 1, ch 2, ch 3, ch 4, ch 5, ch 6, ch 7], replicate 8 1, False)"
    and "field 0 8 x = bt_os_4 K \<Longrightarrow> decode_block K (sync_ctrl K) x = Inr ([ch 0, ch 1, ch 2, ch 3, o4, db 5, db 6, db 7], [1, 1, 1, 1, 1, 0, 0, 0], True)"
    and "field 0 8 x = bt_start_4 K \<Longrightarrow> decode_block K (sync_ctrl K) x = Inr ([ch 0, ch 1, ch 2, ch 3, x_start K, db 5, db 6, db 7], [1, 1, 1, 1, 1, 0, 0, 0], False)"
    and "field 0 8 x = bt_os_start K \<Longrightarrow> decode_block K (sync_ctrl K) x = Inr ([o0, db 1, db 2, db 3, x_start K, db 5, db 6, db 7], [1, 0, 0, 0, 1, 0, 0, 0], True)"
    and "field 0 8 x = bt_os_04 K \<Longrightarrow> decode_block K (sync_ctrl K) x = Inr ([o0, db 1, db 2, db 3, o4, db 5, db 6, db 7], [1, 0, 0, 0, 1, 0, 0, 0], True)"
    and "field 0 8 x = bt_start_0 K \<Longrightarrow> decode_block K (sync_ctrl K) x = Inr ([x_start K, db 1, db 2, db 3, db 4, db 5, db 6, db 7], [1, 0, 0, 0, 0, 0, 0, 0], False)"
  unfolding decode_by_fields [OF x] ch_def db_def o0_def o4_def
  by (simp_all add: bt_ne [OF K] sync_ne [OF K] rep_simps py_slice_def)

lemma bytes_fits: "is_bytes ds \<Longrightarrow> d \<in> set ds \<Longrightarrow> fits 8 d"
  by (simp add: is_bytes_def fits_def)

lemmas field8 = field_above field_exact [where v = 8] field_below [where v = 8] field_head [where v = 8]
lemmas field4 = field_exact [where v = 4] field_below [where v = 4] fits_push [where v = 4]
lemmas fits8 = fits_push [where v = 8] fits_mono [where m = 8 and n = 64]

lemma K_facts:
  assumes "consts_ok K"
  shows "fits 8 (bt_ctrl K)" "fits 8 (bt_os_4 K)" "fits 8 (bt_start_4 K)" "fits 8 (bt_os_start K)" "fits 8 (bt_os_04 K)"
    "fits 8 (bt_start_0 K)" "fits 4 (o_sig K)" "k < 8 \<Longrightarrow> fits 8 (bt_term K k)" "fits 8 (x_start K)" "fits 8 (x_term K)"
    "fits 8 (x_seq_os K)" "fits 8 (x_sig_os K)" "fits 8 (bt_os_0 K)"
proof -
  show "fits 8 (bt_term K k)" if "k < 8"
  proof -
    have "k \<in> {0, 1, 2, 3, 4, 5, 6, 7}" using that by auto
    then show ?thesis using assms by (auto simp: consts_ok_def bt_list_def)
  qed
qed (use assms in \<open>auto simp: consts_ok_def bt_list_def\<close>)

lemma data_word:
  assumes K: "consts_ok K" and d: "is_bytes [d0, d1, d2, d3, d4, d5, d6, d7]"
  shows "encode_block K ([d0, d1, d2, d3, d4, d5, d6, d7], replicate 8 0) = (sync_data K, le_int [d0, d1, d2, d3, d4, d5, d6, d7])"
    and "decode_block K (sync_data K) (le_int [d0, d1, d2, d3, d4, d5, d6, d7]) = Inr ([d0, d1, d2, d3, d4, d5, d6, d7], replicate 8 0, False)"
proof -
  let ?dl = "[d0, d1, d2, d3, d4, d5, d6, d7]"
  have f: "fits 64 (le_int ?dl)" using le_int_bounds [OF d] unfolding fits_def by simp
  show "encode_block K (?dl, replicate 8 0) = (sync_data K, le_int ?dl)"
    by (simp add: encode_block_def any_ctrl_def del: le_int.simps)
  have "field (8 * i) 8 (le_int ?dl) = ?dl ! i" if "i < 8" for i
    using le_int_byte [OF d, of i] that unfolding field_def by simp
  from this [of 0] this [of 1] this [of 2] this [of 3] this [of 4] this [of 5] this [of 6] this [of 7]
  show "decode_block K (sync_data K) (le_int ?dl) = Inr (?dl, replicate 8 0, False)"
    unfolding decode_by_fields [OF f] by (simp del: le_int.simps)
qed

lemma or_lanes_high: "or_lanes dl 5 8 0 x = x OR push_bit 40 (dl ! 5) OR push_bit 48 (dl ! 6) OR push_bit 56 (dl ! 7)"
  and or_lanes_low: "or_lanes dl 1 4 0 x = x OR push_bit 8 (dl ! 1) OR push_bit 16 (dl ! 2) OR push_bit 24 (dl ! 3)"
  and or_lanes_all: "or_lanes dl 1 8 0 x = x OR push_bit 8 (dl ! 1) OR push_bit 16 (dl ! 2) OR push_bit 24 (dl ! 3) OR
    push_bit 32 (dl ! 4) OR push_bit 40 (dl ! 5) OR push_bit 48 (dl ! 6) OR push_bit 56 (dl ! 7)"
proof -
  have "[5..<8] = [5, 6, 7 :: nat]" "[1..<4] = [1, 2, 3 :: nat]" "[1..<8] = [1, 2, 3, 4, 5, 6, 7 :: nat]" by code_simp+
  then show "or_lanes dl 5 8 0 x = x OR push_bit 40 (dl ! 5) OR push_bit 48 (dl ! 6) OR push_bit 56 (dl ! 7)"
    "or_lanes dl 1 4 0 x = x OR push_bit 8 (dl ! 1) OR push_bit 16 (dl ! 2) OR push_bit 24 (dl ! 3)"
    "or_lanes dl 1 8 0 x = x OR push_bit 8 (dl ! 1) OR push_bit 16 (dl ! 2) OR push_bit 24 (dl ! 3) OR
      push_bit 32 (dl ! 4) OR push_bit 40 (dl ! 5) OR push_bit 48 (dl ! 6) OR push_bit 56 (dl ! 7)"
    by (simp_all add: or_lanes_def or.assoc del: upt_Suc)
qed

lemmas or_lanes_simps = or_lanes_high or_lanes_low [unfolded One_nat_def] or_lanes_all [unfolded One_nat_def]

lemma start_0_word:
  assumes K: "consts_ok K" and d: "is_bytes [d1, d2, d3, d4, d5, d6, d7]"
  defines "w \<equiv> ([x_start K, d1, d2, d3, d4, d5, d6, d7], [1, 0, 0, 0, 0, 0, 0, 0])"
  shows "\<exists>x. encode_block K w = (sync_ctrl K, x) \<and> fits 64 x \<and> decode_block K (sync_ctrl K) x = Inr (fst w, snd w, False)"
proof -
  define x where "x = or_lanes (fst w) 1 8 0 (bt_start_0 K)"
  have e: "encode_block K w = (sync_ctrl K, x)"
    by (simp add: encode_block_def w_def x_def any_ctrl_def Let_def)
  have f: "fits 8 d1" "fits 8 d2" "fits 8 d3" "fits 8 d4" "fits 8 d5" "fits 8 d6" "fits 8 d7" using d by (auto simp: fits_def)
  have xe: "x = bt_start_0 K OR push_bit 8 d1 OR push_bit 16 d2 OR push_bit 24 d3 OR push_bit 32 d4 OR push_bit 40 d5 OR
      push_bit 48 d6 OR push_bit 56 d7"
    by (simp add: x_def w_def or_lanes_simps)
  have x64: "fits 64 x" unfolding xe using f K_facts [OF K] by (simp add: fits8)
  have "field 0 8 x = bt_start_0 K" "field 8 8 x = d1" "field 16 8 x = d2" "field 24 8 x = d3" "field 32 8 x = d4"
    "field 40 8 x = d5" "field 48 8 x = d6" "field 56 8 x = d7"
    unfolding xe field_or using f K_facts [OF K] by (simp_all add: field8)
  then show ?thesis using e x64 decode_by_type(6) [OF K x64] by (simp add: w_def)
qed

lemma x_ne:
  assumes "consts_ok K"
  shows "x_start K \<noteq> x_idle K" "x_term K \<noteq> x_idle K" "x_term K \<noteq> x_start K" "x_seq_os K \<noteq> x_idle K" "x_seq_os K \<noteq> x_start K"
    "x_seq_os K \<noteq> x_term K" "x_sig_os K \<noteq> x_idle K" "x_sig_os K \<noteq> x_start K" "x_sig_os K \<noteq> x_term K" "x_sig_os K \<noteq> x_seq_os K"
proof -
  let ?xs = "[x_idle K, x_start K, x_term K, x_seq_os K, x_sig_os K]"
  have d: "distinct ?xs" using assms by (simp only: consts_ok_def)
  have "?xs ! i \<noteq> ?xs ! j" if "j < i" "i < 5" for i j
    using nth_eq_iff_index_eq [OF d, of i j] that by simp
  note this [of 0 1] this [of 0 2] this [of 1 2] this [of 0 3] this [of 1 3] this [of 2 3] this [of 0 4] this [of 1 4]
    this [of 2 4] this [of 3 4]
  from this [simplified] show "x_start K \<noteq> x_idle K" "x_term K \<noteq> x_idle K" "x_term K \<noteq> x_start K" "x_seq_os K \<noteq> x_idle K" "x_seq_os K \<noteq> x_start K"
    "x_seq_os K \<noteq> x_term K" "x_sig_os K \<noteq> x_idle K" "x_sig_os K \<noteq> x_start K" "x_sig_os K \<noteq> x_term K" "x_sig_os K \<noteq> x_seq_os K" .
qed

lemma os_ne: "consts_ok K \<Longrightarrow> is_os K d \<Longrightarrow> d \<noteq> x_start K \<and> d \<noteq> x_term K \<and> d \<noteq> x_idle K"
  by (elim disjE) (simp_all add: x_ne)

lemma and28: "y AND 0xfffffff = take_bit 28 (y :: int)"
  using take_bit_eq_mask [of 28 y] by (simp add: mask_eq_exp_minus_1)

text \<open>The control characters of the low half and of the whole word, in place.\<close>

definition low_chars :: "int \<Rightarrow> int" where "low_chars ctrl = push_bit 8 (ctrl AND 0xfffffff)"

lemma low_ctrl:
  assumes K: "consts_ok K" and l: "length dl = 8"
  shows "i < 4 \<Longrightarrow> field (7 * i + 8) 7 (low_chars (ctrl_chars K dl)) = code K (dl ! i)"
    and "field 0 8 (low_chars (ctrl_chars K dl)) = 0"
    and "36 \<le> p \<Longrightarrow> field p w (low_chars (ctrl_chars K dl)) = 0"
    and "fits 64 (low_chars (ctrl_chars K dl))"
proof -
  have f: "fits 28 (take_bit 28 (ctrl_chars K dl))" by simp
  have e: "low_chars y = push_bit 8 (take_bit 28 y)" for y by (simp only: low_chars_def and28)
  show "field (7 * i + 8) 7 (low_chars (ctrl_chars K dl)) = code K (dl ! i)" if "i < 4"
  proof -
    have "field (7 * i + 8) 7 (low_chars (ctrl_chars K dl)) = field (7 * i) 7 (take_bit 28 (ctrl_chars K dl))"
      unfolding e by (subst field_in) simp_all
    also have "\<dots> = field (7 * i) 7 (ctrl_chars K dl)" using that by (intro field_take) simp
    finally show ?thesis using ctrl_chars_field [OF K, of i dl] l that by simp
  qed
  show "field 0 8 (low_chars (ctrl_chars K dl)) = 0" unfolding e by (rule field_above) simp
  show "field p w (low_chars (ctrl_chars K dl)) = 0" if "36 \<le> p"
    unfolding e by (rule field_below [OF f]) (use that in simp)
  show "fits 64 (low_chars (ctrl_chars K dl))" unfolding e by (rule fits_push [OF f]) simp
qed

lemma o_char_code: "consts_ok K \<Longrightarrow> is_os K d \<Longrightarrow> o_char K (if d = x_sig_os K then o_sig K else 0) = d"
  by (auto simp: o_char_def consts_ok_def)

lemma start_4_word:
  assumes K: "consts_ok K" and m: "mapped K d0" "mapped K d1" "mapped K d2" "mapped K d3" and d: "is_bytes [d5, d6, d7]"
  defines "w \<equiv> ([d0, d1, d2, d3, x_start K, d5, d6, d7], [1, 1, 1, 1, 1, 0, 0, 0])"
  shows "\<exists>x. encode_block K w = (sync_ctrl K, x) \<and> fits 64 x \<and> decode_block K (sync_ctrl K) x = Inr (fst w, snd w, False)"
proof -
  define x where "x = start_block K (fst w) (snd w) (ctrl_chars K (fst w))"
  have e: "encode_block K w = (sync_ctrl K, x)"
    by (simp add: encode_block_def w_def x_def any_ctrl_def Let_def)
  have f: "fits 8 d5" "fits 8 d6" "fits 8 d7" using d by (auto simp: fits_def)
  have xe: "x = bt_start_4 K OR low_chars (ctrl_chars K (fst w)) OR push_bit 40 d5 OR push_bit 48 d6 OR push_bit 56 d7"
    unfolding x_def start_block_def low_chars_def [symmetric]
    by (simp add: w_def any_ctrl_def py_slice_def or_lanes_simps or.assoc)
  have lw: "length (fst w) = 8" by (simp add: w_def)
  note lc = low_ctrl [OF K lw]
  have x64: "fits 64 x" unfolding xe using f K_facts [OF K] lc(4) by (simp add: fits8)
  have bt: "field 0 8 x = bt_start_4 K" unfolding xe field_or using f K_facts [OF K] lc(2) by (simp add: field8)
  have db: "field 40 8 x = d5" "field 48 8 x = d6" "field 56 8 x = d7"
    unfolding xe field_or using f K_facts [OF K] lc(3) by (simp_all add: field8)
  have "field (7 * i + 8) 7 x = code K (fst w ! i)" if "i < 4" for i
    unfolding xe field_or using that f K_facts [OF K] lc(1) by (simp add: field8)
  from this [of 0] this [of 1] this [of 2] this [of 3]
  show ?thesis using e x64 decode_by_type(3) [OF K x64 bt] db m by (simp add: w_def char_code [OF K])
qed

text \<open>An ordered set in lane 4 makes the code take the first four lanes for control characters.\<close>

lemma os_4_any:
  fixes d0 d1 d2 d3 c0 c1 c2 :: int
  assumes K: "consts_ok K" and d: "is_bytes [d5, d6, d7]" and o: "is_os K d4" and c3: "c3 \<noteq> 0"
  defines "w \<equiv> ([d0, d1, d2, d3, d4, d5, d6, d7], [c0, c1, c2, c3, 1, 0, 0, 0])"
  shows "\<exists>x. encode_block K w = (sync_ctrl K, x) \<and> fits 64 x \<and> decode_block K (sync_ctrl K) x =
    Inr (map (char_of K \<circ> code K) [d0, d1, d2, d3] @ [d4, d5, d6, d7], [1, 1, 1, 1, 1, 0, 0, 0], True)"
proof -
  define x where "x = os_4_block K (fst w) (ctrl_chars K (fst w))"
  define ov where "ov = (if d4 = x_sig_os K then o_sig K else 0)"
  have e: "encode_block K w = (sync_ctrl K, x)"
    unfolding encode_block_def w_def x_def
    using c3 by (simp add: eqTrueI [OF o] os_ne [OF K o] any_ctrl_def Let_def py_slice_def)
  have f: "fits 8 d5" "fits 8 d6" "fits 8 d7" using d by (auto simp: fits_def)
  have o4: "fits 4 ov" using K_facts(7) [OF K] by (simp add: ov_def)
  have xe: "x = bt_os_4 K OR low_chars (ctrl_chars K (fst w)) OR push_bit 40 d5 OR push_bit 48 d6 OR push_bit 56 d7 OR
      push_bit 36 ov"
    unfolding x_def os_4_block_def low_chars_def [symmetric]
    by (simp add: w_def ov_def or_lanes_simps or.assoc)
  have lw: "length (fst w) = 8" by (simp add: w_def)
  note lc = low_ctrl [OF K lw]
  have x64: "fits 64 x" unfolding xe using f K_facts [OF K] lc(4) o4 by (simp add: fits8 field4)
  have bt: "field 0 8 x = bt_os_4 K" unfolding xe field_or using f K_facts [OF K] lc(2) by (simp add: field8)
  have db: "field 40 8 x = d5" "field 48 8 x = d6" "field 56 8 x = d7" "field 36 4 x = ov"
    unfolding xe field_or using f K_facts [OF K] lc(3) o4 by (simp_all add: field8 field4)
  have "field (7 * i + 8) 7 x = code K (fst w ! i)" if "i < 4" for i
    unfolding xe field_or using that f K_facts [OF K] lc(1) by (simp add: field8)
  from this [of 0] this [of 1] this [of 2] this [of 3]
  show ?thesis using e x64 decode_by_type(2) [OF K x64 bt] db o_char_code [OF K o, folded ov_def] by (simp add: w_def)
qed

lemma os_4_word:
  assumes K: "consts_ok K" and m: "mapped K d0" "mapped K d1" "mapped K d2" "mapped K d3" and d: "is_bytes [d5, d6, d7]"
    and o: "is_os K d4"
  defines "w \<equiv> ([d0, d1, d2, d3, d4, d5, d6, d7], [1, 1, 1, 1, 1, 0, 0, 0])"
  shows "\<exists>x. encode_block K w = (sync_ctrl K, x) \<and> fits 64 x \<and> decode_block K (sync_ctrl K) x = Inr (fst w, snd w, True)"
proof -
  have "\<exists>x. encode_block K w = (sync_ctrl K, x) \<and> fits 64 x \<and> decode_block K (sync_ctrl K) x =
    Inr (map (char_of K \<circ> code K) [d0, d1, d2, d3] @ [d4, d5, d6, d7], [1, 1, 1, 1, 1, 0, 0, 0], True)"
    unfolding w_def by (rule os_4_any [OF K d o]) simp
  then show ?thesis using m by (simp add: w_def char_code [OF K])
qed

lemma os_start_word:
  assumes K: "consts_ok K" and d: "is_bytes [d1, d2, d3, d5, d6, d7]" and o: "is_os K d0"
  defines "w \<equiv> ([d0, d1, d2, d3, x_start K, d5, d6, d7], [1, 0, 0, 0, 1, 0, 0, 0])"
  shows "\<exists>x. encode_block K w = (sync_ctrl K, x) \<and> fits 64 x \<and> decode_block K (sync_ctrl K) x = Inr (fst w, snd w, True)"
proof -
  define x where "x = start_block K (fst w) (snd w) (ctrl_chars K (fst w))"
  define ov where "ov = (if d0 = x_sig_os K then o_sig K else 0)"
  have e: "encode_block K w = (sync_ctrl K, x)"
    by (simp add: encode_block_def w_def x_def any_ctrl_def Let_def)
  have f: "fits 8 d1" "fits 8 d2" "fits 8 d3" "fits 8 d5" "fits 8 d6" "fits 8 d7" using d by (auto simp: fits_def)
  have o4: "fits 4 ov" using K_facts(7) [OF K] by (simp add: ov_def)
  have xe: "x = bt_os_start K OR push_bit 8 d1 OR push_bit 16 d2 OR push_bit 24 d3 OR push_bit 32 ov OR
      push_bit 40 d5 OR push_bit 48 d6 OR push_bit 56 d7"
    unfolding x_def start_block_def w_def
    by (simp add: eqTrueI [OF o] ov_def any_ctrl_def py_slice_def or_lanes_simps or.assoc)
  have x64: "fits 64 x" unfolding xe using f K_facts [OF K] o4 by (simp add: fits8 field4)
  have bt: "field 0 8 x = bt_os_start K" unfolding xe field_or using f K_facts [OF K] by (simp add: field8)
  have "field 8 8 x = d1" "field 16 8 x = d2" "field 24 8 x = d3" "field 32 4 x = ov" "field 40 8 x = d5" "field 48 8 x = d6" "field 56 8 x = d7"
    unfolding xe field_or using f K_facts [OF K] o4 by (simp_all add: field8 field4)
  then show ?thesis using e x64 decode_by_type(4) [OF K x64 bt] o_char_code [OF K o, folded ov_def] by (simp add: w_def)
qed

lemma os_04_word:
  assumes K: "consts_ok K" and d: "is_bytes [d1, d2, d3, d5, d6, d7]" and o: "is_os K d0" "is_os K d4"
  defines "w \<equiv> ([d0, d1, d2, d3, d4, d5, d6, d7], [1, 0, 0, 0, 1, 0, 0, 0])"
  shows "\<exists>x. encode_block K w = (sync_ctrl K, x) \<and> fits 64 x \<and> decode_block K (sync_ctrl K) x = Inr (fst w, snd w, True)"
proof -
  define x where "x = os_block K (fst w) (snd w) (ctrl_chars K (fst w))"
  define ov ov' where "ov = (if d0 = x_sig_os K then o_sig K else 0)" and "ov' = (if d4 = x_sig_os K then o_sig K else 0)"
  have e: "encode_block K w = (sync_ctrl K, x)"
    unfolding encode_block_def w_def x_def
    by (simp add: eqTrueI [OF o(1)] eqTrueI [OF o(2)] os_ne [OF K o(1)] os_ne [OF K o(2)] any_ctrl_def Let_def py_slice_def)
  have f: "fits 8 d1" "fits 8 d2" "fits 8 d3" "fits 8 d5" "fits 8 d6" "fits 8 d7" using d by (auto simp: fits_def)
  have o4: "fits 4 ov" "fits 4 ov'" using K_facts(7) [OF K] by (simp_all add: ov_def ov'_def)
  have xe: "x = bt_os_04 K OR push_bit 40 d5 OR push_bit 48 d6 OR push_bit 56 d7 OR push_bit 36 ov' OR
      push_bit 8 d1 OR push_bit 16 d2 OR push_bit 24 d3 OR push_bit 32 ov"
    unfolding x_def os_block_def w_def
    by (simp add: eqTrueI [OF o(2)] ov_def ov'_def any_ctrl_def py_slice_def or_lanes_simps or.assoc)
  have x64: "fits 64 x" unfolding xe using f K_facts [OF K] o4 by (simp add: fits8 field4)
  have bt: "field 0 8 x = bt_os_04 K" unfolding xe field_or using f K_facts [OF K] by (simp add: field8)
  have "field 8 8 x = d1" "field 16 8 x = d2" "field 24 8 x = d3" "field 32 4 x = ov" "field 36 4 x = ov'"
    "field 40 8 x = d5" "field 48 8 x = d6" "field 56 8 x = d7"
    unfolding xe field_or using f K_facts [OF K] o4 by (simp_all add: field8 field4)
  then show ?thesis using e x64 decode_by_type(5) [OF K x64 bt] o_char_code [OF K o(1), folded ov_def] o_char_code [OF K o(2), folded ov'_def] by (simp add: w_def)
qed

lemma ctrl_word:
  assumes K: "consts_ok K" and l: "length dl = 8" and m: "\<forall>d \<in> set dl. mapped K d" and t: "dl ! 0 \<noteq> x_term K"
  shows "\<exists>x. encode_block K (dl, replicate 8 1) = (sync_ctrl K, x) \<and> fits 64 x \<and>
    decode_block K (sync_ctrl K) x = Inr (dl, replicate 8 1, False)"
proof -
  define x where "x = bt_ctrl K OR push_bit 8 (ctrl_chars K dl)"
  have "first_term K dl (replicate 8 1) = None"
  proof -
    have "\<not> ((replicate 8 1 :: int list) ! k \<noteq> 0 \<and> dl ! k = x_term K \<and> \<not> any_ctrl (take k (replicate 8 1)))" for k
      using t by (cases k) (auto simp: any_ctrl_def)
    then show ?thesis unfolding first_term_def find_None_iff by blast
  qed
  then have e: "encode_block K (dl, replicate 8 1) = (sync_ctrl K, x)"
    by (simp add: encode_block_def x_def any_ctrl_def Let_def py_slice_def)
  note cf = ctrl_chars_fits [OF K l]
  have x64: "fits 64 x" unfolding x_def using K_facts [OF K] fits_push [OF cf, of 8 64] by (simp add: fits8)
  have bt: "field 0 8 x = bt_ctrl K" unfolding x_def field_or using K_facts [OF K] by (simp add: field8)
  have ch: "char_of K (field (7 * i + 8) 7 x) = dl ! i" if "i < 8" for i
    unfolding x_def field_or using that K_facts [OF K] ctrl_chars_field [OF K, of i dl] l m char_code [OF K]
    by (simp add: field8 field_in)
  obtain d0 d1 d2 d3 d4 d5 d6 d7 where "dl = [d0, d1, d2, d3, d4, d5, d6, d7]"
    using l by (auto simp: length_Suc_conv numeral_eq_Suc)
  then show ?thesis using e x64 decode_by_type(1) [OF K x64 bt]
      ch [of 0] ch [of 1] ch [of 2] ch [of 3] ch [of 4] ch [of 5] ch [of 6] ch [of 7] by simp
qed

section \<open>Terminate words\<close>

lemma bit_term_mask:
  assumes "k < 8" shows "bit (term_mask k) n \<longleftrightarrow> 7 * (k + 1) \<le> n \<and> n < 56"
proof -
  have "term_mask k = push_bit (7 * (k + 1)) (mask (49 - 7 * k))"
  proof -
    have "k \<in> {0, 1, 2, 3, 4, 5, 6, 7}" using assms by auto
    then show ?thesis by (elim insertE) (simp_all add: term_mask_def mask_eq_exp_minus_1)
  qed
  then show ?thesis using assms by (auto simp: bit_push_bit_iff bit_mask_iff)
qed

definition hi_chars :: "nat \<Rightarrow> int \<Rightarrow> int" where "hi_chars k ctrl = push_bit 8 (ctrl AND term_mask k)"

lemma bit_hi_chars: "k < 8 \<Longrightarrow> bit (hi_chars k ctrl) n \<longleftrightarrow> 7 * k + 15 \<le> n \<and> n < 64 \<and> bit ctrl (n - 8)"
  by (auto simp: hi_chars_def bit_push_bit_iff bit_and_iff bit_term_mask)

lemma hi_ctrl:
  assumes "k < 8"
  shows "m < k \<Longrightarrow> field (8 * (m + 1)) 8 (hi_chars k ctrl) = 0" "field 0 8 (hi_chars k ctrl) = 0" "fits 64 (hi_chars k ctrl)"
    "k < i \<Longrightarrow> i < 8 \<Longrightarrow> field (7 * i + 8) 7 (hi_chars k ctrl) = field (7 * i) 7 ctrl"
proof -
  show "m < k \<Longrightarrow> field (8 * (m + 1)) 8 (hi_chars k ctrl) = 0" "field 0 8 (hi_chars k ctrl) = 0"
    using assms by (auto intro!: bit_eqI simp: bit_field bit_hi_chars)
  show "fits 64 (hi_chars k ctrl)" using assms by (simp add: fits_bit bit_hi_chars)
  show "field (7 * i + 8) 7 (hi_chars k ctrl) = field (7 * i) 7 ctrl" if "k < i" "i < 8"
  proof (rule bit_eqI)
    fix n
    have "7 * k + 15 \<le> 7 * i + 8 + n" "n < 7 \<Longrightarrow> 7 * i + 8 + n < 64" "7 * i + 8 + n - 8 = 7 * i + n" using that by linarith+
    then show "bit (field (7 * i + 8) 7 (hi_chars k ctrl)) n \<longleftrightarrow> bit (field (7 * i) 7 ctrl) n"
      by (auto simp: bit_field bit_hi_chars [OF assms])
  qed
qed

lemma or_lanes_Suc: "i \<le> j \<Longrightarrow> or_lanes dl i (Suc j) s b = or_lanes dl i j s b OR push_bit ((j + s) * 8) (dl ! j)"
  by (simp add: or_lanes_def)

lemma or_lanes_fields:
  assumes "\<forall>m < k. fits 8 (dl ! m)"
  shows "p + w \<le> 8 \<or> 8 * k + 8 \<le> p \<Longrightarrow> field p w (or_lanes dl 0 k 1 b) = field p w b"
    and "m < k \<Longrightarrow> field (8 * (m + 1)) 8 (or_lanes dl 0 k 1 b) = field (8 * (m + 1)) 8 b OR dl ! m"
    and "fits 64 b \<Longrightarrow> k \<le> 7 \<Longrightarrow> fits 64 (or_lanes dl 0 k 1 b)"
proof -
  have "(\<forall>p w. p + w \<le> 8 \<or> 8 * k + 8 \<le> p \<longrightarrow> field p w (or_lanes dl 0 k 1 b) = field p w b) \<and>
    (\<forall>m < k. field (8 * (m + 1)) 8 (or_lanes dl 0 k 1 b) = field (8 * (m + 1)) 8 b OR dl ! m) \<and>
    (fits 64 b \<and> k \<le> 7 \<longrightarrow> fits 64 (or_lanes dl 0 k 1 b))"
    using assms
  proof (induction k)
    case 0
    then show ?case by (simp add: or_lanes_def)
  next
    case (Suc k)
    let ?q = "(k + 1) * 8"
    have f: "fits 8 (dl ! k)" using Suc.prems by simp
    have e: "or_lanes dl 0 (Suc k) 1 b = or_lanes dl 0 k 1 b OR push_bit ?q (dl ! k)" by (rule or_lanes_Suc) simp
    have ih: "\<And>p w. p + w \<le> 8 \<or> 8 * k + 8 \<le> p \<Longrightarrow> field p w (or_lanes dl 0 k 1 b) = field p w b"
      "\<And>m. m < k \<Longrightarrow> field (8 * (m + 1)) 8 (or_lanes dl 0 k 1 b) = field (8 * (m + 1)) 8 b OR dl ! m"
      "fits 64 b \<Longrightarrow> k \<le> 7 \<Longrightarrow> fits 64 (or_lanes dl 0 k 1 b)"
      using Suc by auto
    show ?case unfolding e field_or
    proof (intro conjI allI impI)
      show "field p w (or_lanes dl 0 k 1 b) OR field p w (push_bit ?q (dl ! k)) = field p w b" if "p + w \<le> 8 \<or> 8 * Suc k + 8 \<le> p" for p w
      proof -
        have "field p w (push_bit ?q (dl ! k)) = 0"
          using that field_above [of p w ?q "dl ! k"] field_below [OF f, of ?q p w] by auto
        then show ?thesis using ih(1) [of p w] that by auto
      qed
      show "field (8 * (m + 1)) 8 (or_lanes dl 0 k 1 b) OR field (8 * (m + 1)) 8 (push_bit ?q (dl ! k)) = field (8 * (m + 1)) 8 b OR dl ! m"
        if "m < Suc k" for m
      proof (cases "m = k")
        case True
        then show ?thesis using ih(1) [of "8 * (m + 1)" 8] field_exact [OF f, of 8 ?q] by (simp add: mult.commute)
      next
        case False
        then have "m < k" using that by simp
        then show ?thesis using ih(2) [of m] field_above [of "8 * (m + 1)" 8 ?q "dl ! k"] by simp
      qed
      show "fits 64 (or_lanes dl 0 k 1 b OR push_bit ?q (dl ! k))" if "fits 64 b \<and> Suc k \<le> 7"
        using that ih(3) fits_push [OF f, of ?q 64] by simp
    qed
  qed
  then show "p + w \<le> 8 \<or> 8 * k + 8 \<le> p \<Longrightarrow> field p w (or_lanes dl 0 k 1 b) = field p w b"
    "m < k \<Longrightarrow> field (8 * (m + 1)) 8 (or_lanes dl 0 k 1 b) = field (8 * (m + 1)) 8 b OR dl ! m"
    "fits 64 b \<Longrightarrow> k \<le> 7 \<Longrightarrow> fits 64 (or_lanes dl 0 k 1 b)" by blast+
qed

definition term_ctrl :: "nat \<Rightarrow> int list" where
  "term_ctrl k = replicate k 0 @ [1] @ replicate (7 - k) 1"

lemma term_ctrl_facts:
  assumes "k < 8"
  shows "length (term_ctrl k) = 8" "j < 8 \<Longrightarrow> term_ctrl k ! j = (if j < k then 0 else 1)"
  using assms by (auto simp: term_ctrl_def nth_append nth_Cons')

lemma term_encode:
  assumes K: "consts_ok K" and k: "k < 8" and l: "length dl = 8" and t: "dl ! k = x_term K"
  shows "encode_block K (dl, term_ctrl k) = (sync_ctrl K, term_block K dl (ctrl_chars K dl) k)"
proof -
  note c = term_ctrl_facts [OF k]
  have tail: "any_ctrl (drop j (term_ctrl k))" if "j < 8" for j
  proof -
    have "drop j (term_ctrl k) ! (7 - j) = 1" "7 - j < length (drop j (term_ctrl k))" using c k that by auto
    then show ?thesis unfolding any_ctrl_def by (metis nth_mem zero_neq_one)
  qed
  have "py_slice 5 8 (term_ctrl k) = drop 5 (term_ctrl k)" using c(1) by (simp add: py_slice_def)
  moreover have "first_term K dl (term_ctrl k) = Some k"
  proof -
    have "\<not> any_ctrl (take k (term_ctrl k))" by (simp add: any_ctrl_def term_ctrl_def)
    then show ?thesis unfolding first_term_def find_Some_iff
      using c k t by (intro exI [of _ k]) (auto simp: nth_upt)
  qed
  moreover have "any_ctrl (term_ctrl k)" using tail [of 0] by simp
  moreover have "term_ctrl k ! 0 \<noteq> 0 \<Longrightarrow> dl ! 0 = x_term K" using c(2) [of 0] t by (simp split: if_splits)
  ultimately show ?thesis
    using tail [of 1] tail [of 5] x_ne [OF K] by (auto simp: encode_block_def Let_def)
qed

lemma term_word:
  assumes K: "consts_ok K" and k: "k < 8" and l: "length dl = 8" and t: "dl ! k = x_term K"
    and d: "\<forall>m < k. fits 8 (dl ! m)" and m: "\<forall>i. k < i \<and> i < 8 \<longrightarrow> mapped K (dl ! i)"
  shows "\<exists>x. encode_block K (dl, term_ctrl k) = (sync_ctrl K, x) \<and> fits 64 x \<and>
    decode_block K (sync_ctrl K) x = Inr (dl, term_ctrl k, False)"
proof -
  let ?c = "ctrl_chars K dl"
  define x where "x = term_block K dl ?c k"
  let ?b = "bt_term K k OR hi_chars k ?c"
  have xe: "x = or_lanes dl 0 k 1 ?b" by (simp add: x_def term_block_def hi_chars_def)
  note kf = K_facts(8) [OF K k] and h = hi_ctrl [OF k, where ctrl = ?c] and ol = or_lanes_fields [OF d]
  have b64: "fits 64 ?b" using kf h(3) by (simp add: fits8)
  have x64: "fits 64 x" unfolding xe using ol(3) [OF b64] k by simp
  have bt: "field 0 8 x = bt_term K k" unfolding xe using ol(1) [of 0 8 ?b] h(2) kf by (simp add: field_or field8)
  have db: "field (8 * (j + 1)) 8 x = dl ! j" if "j < k" for j
    unfolding xe using ol(2) [OF that] h(1) [OF that] kf by (simp add: field_or field_head(2) [where v = 8])
  have ch: "char_of K (field (7 * i + 8) 7 x) = dl ! i" if "k < i" "i < 8" for i
  proof -
    have "field (7 * i + 8) 7 x = field (7 * i + 8) 7 ?b" unfolding xe by (rule ol(1)) (use that in linarith)
    also have "\<dots> = code K (dl ! i)"
      using h(4) [OF that] kf ctrl_chars_field [OF K, of i dl] that l by (simp add: field_or field_head(2) [where v = 8])
    finally show ?thesis using char_code [OF K] m that by simp
  qed
  have "bt_term K k \<in> bt_term K ` {0..<8}" using k by simp
  moreover have "term_lane K (bt_term K k) = Some k" using K k by (simp add: consts_ok_def)
  ultimately have "decode_block K (sync_ctrl K) x =
      Inr (py_slice 1 (k + 1) (map (\<lambda>i. field (8 * i) 8 x) [0..<8]) @ [x_term K] @
        drop (k + 1) (map (\<lambda>i. char_of K (field (7 * i + 8) 7 x)) [0..<8]), replicate k 0 @ [1] @ replicate (7 - k) 1, False)"
    unfolding decode_by_fields [OF x64] bt Let_def
    by (simp add: bt bt_term_ne [OF K k] sync_ne [OF K] upt8)
  moreover have "py_slice 1 (k + 1) (map (\<lambda>i. field (8 * i) 8 x) [0..<8]) @ [x_term K] @
        drop (k + 1) (map (\<lambda>i. char_of K (field (7 * i + 8) 7 x)) [0..<8]) = dl"
  proof (rule nth_equalityI)
    fix i assume "i < length (py_slice 1 (k + 1) (map (\<lambda>i. field (8 * i) 8 x) [0..<8]) @ [x_term K] @
        drop (k + 1) (map (\<lambda>i. char_of K (field (7 * i + 8) 7 x)) [0..<8]))"
    then have i: "i < 8" using k by simp
    consider "i < k" | "i = k" | "k < i" by linarith
    then show "(py_slice 1 (k + 1) (map (\<lambda>i. field (8 * i) 8 x) [0..<8]) @ [x_term K] @
        drop (k + 1) (map (\<lambda>i. char_of K (field (7 * i + 8) 7 x)) [0..<8])) ! i = dl ! i"
    proof cases
      case 1
      then show ?thesis using db [of i] k by (simp add: nth_append)
    next
      case 2
      then show ?thesis using t k by (simp add: nth_append)
    next
      case 3
      then show ?thesis using ch [of i] i k by (simp add: nth_append nth_Cons')
    qed
  qed (use k l in simp)
  ultimately show ?thesis
    using term_encode [OF K k l t] x64 unfolding x_def [symmetric] term_ctrl_def by auto
qed

section \<open>Round trip\<close>

text \<open>The words that a block type stands for, with the flag for ordered sets.\<close>

definition word_ok :: "eth_consts \<Rightarrow> int list \<times> int list \<Rightarrow> bool \<Rightarrow> bool" where
  "word_ok K = (\<lambda>(dl, cl) os. length dl = 8 \<and>
     (cl = replicate 8 0 \<and> is_bytes dl \<and> \<not> os \<or>
      cl = replicate 8 1 \<and> (\<forall>d \<in> set dl. mapped K d) \<and> dl ! 0 \<noteq> x_term K \<and> \<not> os \<or>
      cl = [1, 0, 0, 0, 0, 0, 0, 0] \<and> dl ! 0 = x_start K \<and> is_bytes (drop 1 dl) \<and> \<not> os \<or>
      cl = [1, 1, 1, 1, 1, 0, 0, 0] \<and> (\<forall>d \<in> set (take 4 dl). mapped K d) \<and> is_bytes (drop 5 dl) \<and>
        (if os then is_os K (dl ! 4) else dl ! 4 = x_start K) \<or>
      cl = [1, 0, 0, 0, 1, 0, 0, 0] \<and> is_os K (dl ! 0) \<and> (is_os K (dl ! 4) \<or> dl ! 4 = x_start K) \<and>
        is_bytes (py_slice 1 4 dl) \<and> is_bytes (drop 5 dl) \<and> os \<or>
      (\<exists>k < 8. cl = term_ctrl k \<and> dl ! k = x_term K \<and> is_bytes (take k dl) \<and>
        (\<forall>d \<in> set (drop (k + 1) dl). mapped K d)) \<and> \<not> os))"

lemma eight: "length dl = 8 \<Longrightarrow> \<exists>d0 d1 d2 d3 d4 d5 d6 d7. dl = [d0, d1, d2, d3, d4, d5, d6, d7]"
  by (auto simp: length_Suc_conv numeral_eq_Suc)

lemma block_roundtrip_cases:
  assumes K: "consts_ok K" and w: "word_ok K (dl, cl) os"
  shows "\<exists>hdr x. encode_block K (dl, cl) = (hdr, x) \<and> (hdr = sync_data K \<or> hdr = sync_ctrl K) \<and> fits 64 x \<and>
    decode_block K hdr x = Inr (dl, cl, os)"
proof -
  have l: "length dl = 8" using w by (simp add: word_ok_def)
  obtain d0 d1 d2 d3 d4 d5 d6 d7 where dl: "dl = [d0, d1, d2, d3, d4, d5, d6, d7]" using eight [OF l] by blast
  consider (data) "cl = replicate 8 0" "is_bytes dl" "\<not> os"
    | (ctrl) "cl = replicate 8 1" "\<forall>d \<in> set dl. mapped K d" "dl ! 0 \<noteq> x_term K" "\<not> os"
    | (start0) "cl = [1, 0, 0, 0, 0, 0, 0, 0]" "dl ! 0 = x_start K" "is_bytes (drop 1 dl)" "\<not> os"
    | (four) "cl = [1, 1, 1, 1, 1, 0, 0, 0]" "\<forall>d \<in> set (take 4 dl). mapped K d" "is_bytes (drop 5 dl)"
        "if os then is_os K (dl ! 4) else dl ! 4 = x_start K"
    | (os) "cl = [1, 0, 0, 0, 1, 0, 0, 0]" "is_os K (dl ! 0)" "is_os K (dl ! 4) \<or> dl ! 4 = x_start K"
        "is_bytes (py_slice 1 4 dl)" "is_bytes (drop 5 dl)" os
    | (tm) k where "k < 8" "cl = term_ctrl k" "dl ! k = x_term K" "is_bytes (take k dl)" "\<forall>d \<in> set (drop (k + 1) dl). mapped K d" "\<not> os"
    using w unfolding word_ok_def prod.case by (elim conjE disjE exE) blast+
  then show ?thesis
  proof cases
    case data
    have b: "is_bytes [d0, d1, d2, d3, d4, d5, d6, d7]" using data(2) dl by simp
    have "fits 64 (le_int [d0, d1, d2, d3, d4, d5, d6, d7])" using le_int_bounds [OF b] unfolding fits_def by simp
    then show ?thesis using data_word [OF K b] data dl by auto
  next
    case ctrl
    then show ?thesis using ctrl_word [OF K l ctrl(2,3)] by auto
  next
    case start0
    then have b: "is_bytes [d1, d2, d3, d4, d5, d6, d7]" using dl by simp
    show ?thesis using start_0_word [OF K b] start0 dl by auto
  next
    case four
    then have b: "is_bytes [d5, d6, d7]" and m: "mapped K d0" "mapped K d1" "mapped K d2" "mapped K d3" using dl by simp_all
    show ?thesis
    proof (cases os)
      case True
      then have "is_os K d4" using four(4) dl by simp
      from os_4_word [OF K m b this] show ?thesis using four(1) True dl by auto
    next
      case False
      then show ?thesis using start_4_word [OF K m b] four dl by auto
    qed
  next
    case os
    then have b: "is_bytes [d1, d2, d3, d5, d6, d7]" and o: "is_os K d0" using dl by (simp_all add: py_slice_def)
    from os(3) dl consider "is_os K d4" | "d4 = x_start K" by auto
    then show ?thesis
    proof cases
      case 1
      from os_04_word [OF K b o 1] show ?thesis using os dl by auto
    next
      case 2
      then show ?thesis using os_start_word [OF K b o] os dl by auto
    qed
  next
    case tm
    have "fits 8 (dl ! m)" if "m < k" for m
    proof -
      have "dl ! m \<in> set (take k dl)" using that tm(1) l by (auto simp: in_set_conv_nth intro!: exI [of _ m])
      then show ?thesis using bytes_fits [OF tm(4)] by simp
    qed
    moreover have "mapped K (dl ! i)" if "k < i" "i < 8" for i
    proof -
      have "dl ! i = drop (k + 1) dl ! (i - (k + 1))" "i - (k + 1) < length (drop (k + 1) dl)" using that l by simp_all
      then show ?thesis using tm(5) nth_mem by metis
    qed
    ultimately show ?thesis using term_word [OF K tm(1) l tm(3)] tm(2,6) by auto
  qed
qed

text \<open>The constants of the standard, as \<open>cocotbext.eth.constants\<close> documents them.\<close>

definition ieee :: eth_consts where
  "ieee = \<lparr>pre_byte = 0x55, sfd_byte = 0xd5, x_idle = 0x07, x_start = 0xfb, x_term = 0xfd, x_error = 0xfe,
     x_seq_os = 0x9c, x_sig_os = 0x5c, r_error = 0x1e, sync_data = 2, sync_ctrl = 1, o_seq = 0, o_sig = 15,
     bt_ctrl = 0x1e, bt_os_4 = 0x2d, bt_start_4 = 0x33, bt_os_start = 0x66, bt_os_04 = 0x55, bt_start_0 = 0x78, bt_os_0 = 0x4b,
     bt_term = (\<lambda>k. if k < 8 then [0x87, 0x99, 0xaa, 0xb4, 0xcc, 0xd2, 0xe1, 0xff] ! k else 0),
     ctrl_to_baser = map_of [(0x07, 0), (0x06, 6), (0xfe, 0x1e), (0x1c, 0x2d), (0x3c, 0x33), (0x7c, 0x4b), (0xbc, 0x55), (0xdc, 0x66), (0xf7, 0x78)],
     baser_to_ctrl = map_of [(0, 0x07), (6, 0x06), (0x1e, 0xfe), (0x2d, 0x1c), (0x33, 0x3c), (0x4b, 0x7c), (0x55, 0xbc), (0x66, 0xdc), (0x78, 0xf7)],
     term_lane = map_of [(0x87, 0), (0x99, 1), (0xaa, 2), (0xb4, 3), (0xcc, 4), (0xd2, 5), (0xe1, 6), (0xff, 7)]\<rparr>"

lemma ieee_ok: "consts_ok ieee"
proof -
  have t: "(\<forall>k < 8. term_lane ieee (bt_term ieee k) = Some k)"
  proof (intro allI impI)
    fix k :: nat assume "k < 8"
    then have "k \<in> {0, 1, 2, 3, 4, 5, 6, 7}" by auto
    then show "term_lane ieee (bt_term ieee k) = Some k" by (elim insertE) (simp_all add: ieee_def)
  qed
  show ?thesis unfolding consts_ok_def using t
    by (auto simp: ieee_def bt_list_def fits_def split: if_splits)
qed

text \<open>C12: The block code.  Every word that one of the block types stands for (data; control
  characters; a start in lane 0 or 4; ordered sets in the second half, in both halves, or before a
  start; a terminate in any of the eight lanes), is encoded by the source into 66 bits from which the
  sink decodes the word, with the flag that makes it look for ordered sets.\<close>

theorem block_roundtrip:
  assumes "consts_ok K" "word_ok K (dl, cl) os"
  shows "decode_block K (fst (encode_block K (dl, cl))) (snd (encode_block K (dl, cl))) = Inr (dl, cl, os) \<and>
    fits 64 (snd (encode_block K (dl, cl))) \<and> fits 2 (fst (encode_block K (dl, cl)))"
  using block_roundtrip_cases [OF assms] assms(1) by (auto simp: consts_ok_def)

lemma block_roundtrip_witness:
  "decode_block ieee (fst (encode_block ieee ([0xd5, 1, 0xfd, 7, 7, 7, 7, 7], [0, 0, 1, 1, 1, 1, 1, 1])))
     (snd (encode_block ieee ([0xd5, 1, 0xfd, 7, 7, 7, 7, 7], [0, 0, 1, 1, 1, 1, 1, 1]))) =
   Inr ([0xd5, 1, 0xfd, 7, 7, 7, 7, 7], [0, 0, 1, 1, 1, 1, 1, 1], False)"
proof -
  have m: "mapped ieee 7" by (simp add: mapped_def ieee_def)
  have t: "term_ctrl 2 = [0, 0, 1, 1, 1, 1, 1, 1]" by (simp add: term_ctrl_def numeral_eq_Suc)
  have "\<exists>k < 8. [0, 0, 1, 1, 1, 1, 1, 1] = term_ctrl k \<and> [0xd5, 1, 0xfd, 7, 7, 7, 7, 7] ! k = x_term ieee \<and>
      is_bytes (take k [0xd5, 1, 0xfd, 7, 7, 7, 7, 7]) \<and> (\<forall>d \<in> set (drop (k + 1) [0xd5, 1, 0xfd, 7, 7, 7, 7, 7]). mapped ieee d)"
    by (rule exI [of _ 2]) (simp add: t m, simp add: ieee_def)
  then have "word_ok ieee ([0xd5, 1, 0xfd, 7, 7, 7, 7, 7], [0, 0, 1, 1, 1, 1, 1, 1]) False"
    by (simp add: word_ok_def)
  from block_roundtrip [OF ieee_ok this] show ?thesis by blast
qed

section \<open>Words with ordered sets that have no block\<close>

text \<open>What the sink decodes of a word that the source encodes; only 64 bits of the block are on the bus.\<close>

definition over_link :: "eth_consts \<Rightarrow> int list \<times> int list \<Rightarrow> (int list \<times> int list \<times> bool) result" where
  "over_link K w = decode_block K (fst (encode_block K w)) (take_bit 64 (snd (encode_block K w)))"

lemma over_link_fits: "encode_block K w = (h, x) \<Longrightarrow> fits 64 x \<Longrightarrow> over_link K w = decode_block K h x"
  using fitsD [of 64 x] by (simp add: over_link_def take_bit_int_eq_self)

text \<open>The upper four bits of one seven-bit code, followed by the lower three bits of the next.\<close>

definition cross :: "int \<Rightarrow> int \<Rightarrow> int" where "cross a b = drop_bit 3 a OR push_bit 4 (take_bit 3 b)"

lemma field_cross:
  assumes a: "field p 7 x = a" and b: "field (p + 7) 7 x = b"
  shows "field (p + 3) 7 x = cross a b"
proof (rule bit_eqI)
  fix n
  have "bit a (n + 3) \<longleftrightarrow> n + 3 < 7 \<and> bit x (p + (n + 3))" "bit b (n - 4) \<longleftrightarrow> n - 4 < 7 \<and> bit x (p + 7 + (n - 4))"
    by (simp_all only: a [symmetric] b [symmetric] bit_field)
  moreover have "p + (n + 3) = p + 3 + n" by simp
  moreover have "4 \<le> n \<Longrightarrow> p + 7 + (n - 4) = p + 3 + n" by simp
  ultimately show "bit (field (p + 3) 7 x) n \<longleftrightarrow> bit (cross a b) n"
    by (cases "4 \<le> n") (auto simp: bit_field cross_def bit_or_iff bit_push_bit_iff bit_drop_bit_eq bit_take_bit_iff ac_simps)
qed

lemma os_0_word:
  assumes K: "consts_ok K" and d: "is_bytes [d1, d2, d3]" and o: "is_os K d0"
  shows "over_link K ([d0, d1, d2, d3, d4, d5, d6, d7], [1, 0, 0, 0, 1, 1, 1, 1]) =
    Inr ([d0, d1, d2, d3] @ map (char_of K) [cross 0 (code K d0), cross (code K d0) (code K d1), cross (code K d1) (code K d2),
      cross (code K d2) (code K d3)], [1, 0, 0, 0, 1, 1, 1, 1], True)"
proof -
  let ?dl = "[d0, d1, d2, d3, d4, d5, d6, d7]" and ?cl = "[1, 0, 0, 0, 1, 1, 1, 1] :: int list"
  define c where "c = take_bit 28 (ctrl_chars K ?dl)"
  define x where "x = os_block K ?dl ?cl (ctrl_chars K ?dl)"
  define ov where "ov = (if d0 = x_sig_os K then o_sig K else 0)"
  have e: "encode_block K (?dl, ?cl) = (sync_ctrl K, x)"
    unfolding encode_block_def x_def by (simp add: eqTrueI [OF o] os_ne [OF K o] any_ctrl_def Let_def py_slice_def)
  have f: "fits 8 d1" "fits 8 d2" "fits 8 d3" using d by (auto simp: fits_def)
  have o4: "fits 4 ov" using K_facts(7) [OF K] by (simp add: ov_def)
  have xe: "x = bt_os_0 K OR push_bit 40 c OR push_bit 8 d1 OR push_bit 16 d2 OR push_bit 24 d3 OR push_bit 32 ov"
    unfolding x_def os_block_def c_def and28 by (simp add: ov_def any_ctrl_def py_slice_def or_lanes_simps or.assoc)
  have x64: "fits 64 (take_bit 64 x)" by simp
  have y: "field p w (take_bit 64 x) = field p w x" if "p + w \<le> 64" for p w by (rule field_take [OF that])
  have bt: "field 0 8 x = bt_os_0 K" and db: "field 8 8 x = d1" "field 16 8 x = d2" "field 24 8 x = d3" "field 32 4 x = ov"
    unfolding xe field_or using f K_facts [OF K] o4 by (simp_all add: field8 field4 field_above)
  have c4: "field 36 7 x = field 36 7 (push_bit 40 c)" "field (40 + m) 7 x = field m 7 c" for m
    unfolding xe field_or using f K_facts [OF K] o4 by (simp_all add: field8 field4 field_in)
  have cc: "field (7 * i) 7 c = code K (?dl ! i)" if "i < 4" for i
    using that ctrl_chars_field [OF K, of i ?dl] unfolding c_def by (subst field_take) simp_all
  note cc0 = cc [of 0] cc [of 1] cc [of 2] cc [of 3]
  have l4: "field 36 7 x = cross 0 (code K d0)"
  proof -
    have "field 33 7 (push_bit 40 c) = 0" by (rule field_above) simp
    moreover have "field (33 + 7) 7 (push_bit 40 c) = code K d0" using cc0(1) by (simp add: field_in)
    ultimately show ?thesis using c4(1) field_cross [of 33] by simp
  qed
  have l: "field 43 7 x = cross (code K d0) (code K d1)" "field 50 7 x = cross (code K d1) (code K d2)" "field 57 7 x = cross (code K d2) (code K d3)"
    using c4(2) [of 3] c4(2) [of 10] c4(2) [of 17] field_cross [of 0 c] field_cross [of 7 c] field_cross [of 14 c] cc0 by simp_all
  show ?thesis unfolding over_link_def e prod.sel decode_by_fields [OF x64]
    using o_char_code [OF K o, folded ov_def]
    by (simp add: y bt db l4 l bt_ne [OF K] sync_ne [OF K] rep_simps py_slice_def)
qed

text \<open>The last word of a frame: bytes, a terminate, idles.\<close>

definition last_word :: "eth_consts \<Rightarrow> int list \<Rightarrow> int list \<times> int list" where
  "last_word K ds = (ds @ x_term K # replicate (7 - length ds) (x_idle K), term_ctrl (length ds))"

definition heard :: "eth_consts \<Rightarrow> int \<Rightarrow> int" where "heard K d = (if mapped K d then d else x_error K)"

lemma heard_code:
  assumes "consts_ok K" "baser_to_ctrl K (r_error K) = Some (x_error K)"
  shows "char_of K (code K d) = heard K d"
proof (cases "mapped K d")
  case True
  then show ?thesis using char_code [OF assms(1)] by (simp add: heard_def)
next
  case False
  then show ?thesis using assms(2) by (simp add: heard_def code_def mapped_def char_of_def)
qed

definition os_bytes :: "int \<Rightarrow> int list" where "os_bytes v = [field 16 8 v, field 8 8 v, field 0 8 v]"

lemma os_bytes_be: "fits 24 v \<Longrightarrow> to_bytes_be 3 v = Inr (os_bytes v)" "is_bytes (os_bytes v)"
proof -
  have u: "[0..<3] = [0, 1, 2 :: nat]" by (simp add: upt_rec)
  show "fits 24 v \<Longrightarrow> to_bytes_be 3 v = Inr (os_bytes v)"
    using fitsD [of 24 v] by (simp add: to_bytes_be_def to_bytes_le_def le_bytes_def os_bytes_def field_def u)
  have "take_bit 8 y < (256 :: int)" for y using take_bit_int_less_exp [of 8 y] by simp
  then show "is_bytes (os_bytes v)" by (simp add: is_bytes_def os_bytes_def field_def)
qed

lemma short_list: "length ds < 4 \<Longrightarrow> (ds = [] \<Longrightarrow> P) \<Longrightarrow> (\<And>a. ds = [a] \<Longrightarrow> P) \<Longrightarrow> (\<And>a b. ds = [a, b] \<Longrightarrow> P) \<Longrightarrow>
    (\<And>a b c. ds = [a, b, c] \<Longrightarrow> P) \<Longrightarrow> P"
  by (auto simp: less_Suc_eq length_Suc_conv numeral_eq_Suc)

text \<open>Idles of the second half are replaced when the terminate is in the first.\<close>

lemma replace_last:
  assumes K: "consts_ok K" and v: "fits 24 v" and l: "length ds < 8"
  shows "replace_idles K (Some v) sig (last_word K ds) = Inr (if 4 \<le> length ds then last_word K ds
    else (ds @ x_term K # replicate (3 - length ds) (x_idle K) @ (if sig then x_sig_os K else x_seq_os K) # os_bytes v,
      replicate (length ds) 0 @ replicate (4 - length ds) 1 @ [1, 0, 0, 0]))"
proof -
  let ?k = "length ds"
  define dl cl where dc: "dl = ds @ x_term K # replicate (7 - ?k) (x_idle K)" "cl = term_ctrl ?k"
  have w: "last_word K ds = (dl, cl)" by (simp add: last_word_def dc)
  have n: "length dl = 8" "length cl = 8" using l by (simp_all add: dc term_ctrl_def)
  have at: "cl ! j = (if j < ?k then 0 else 1)" "?k \<le> j \<Longrightarrow> dl ! j = (if j = ?k then x_term K else x_idle K)" if "j < 8" for j
    using that l term_ctrl_facts [OF l] by (auto simp: dc nth_append nth_Cons')
  have half: "?k < j \<longleftrightarrow> (\<forall>c \<in> set (py_slice j (j + 4) cl). c \<noteq> 0) \<and> (\<forall>d \<in> set (py_slice j (j + 4) dl). d = x_idle K)" if "j = 0 \<or> j = 4" for j
  proof -
    have s: "set (py_slice j (j + 4) xs) = (\<lambda>i. xs ! i) ` {j..<j + 4}" if "length xs = 8" for xs :: "int list"
    proof -
      have "py_slice j (j + 4) xs = map (nth xs) [j..<j + 4]"
        by (rule nth_equalityI) (use that \<open>j = 0 \<or> j = 4\<close> in \<open>auto simp: py_slice_def\<close>)
      then show ?thesis by simp
    qed
    show ?thesis
    proof
      assume "?k < j"
      then show "(\<forall>c \<in> set (py_slice j (j + 4) cl). c \<noteq> 0) \<and> (\<forall>d \<in> set (py_slice j (j + 4) dl). d = x_idle K)"
        using that unfolding s [OF n(1)] s [OF n(2)] by (auto simp: at)
    next
      assume h: "(\<forall>c \<in> set (py_slice j (j + 4) cl). c \<noteq> 0) \<and> (\<forall>d \<in> set (py_slice j (j + 4) dl). d = x_idle K)"
      then have "cl ! j \<noteq> 0" "dl ! j = x_idle K" unfolding s [OF n(1)] s [OF n(2)] by simp_all
      then show "?k < j" using that at [of j] x_ne(2) [OF K] by (auto split: if_splits)
    qed
  qed
  have r: "replace_idles K (Some v) sig (last_word K ds) = Inr (if ?k < 4 then put_os K sig (os_bytes v) 4 (dl, cl) else (dl, cl))"
    unfolding replace_idles_def using half [of 0] half [of 4] os_bytes_be(1) [OF v] by (auto simp: w rbind_simps)
  show ?thesis
  proof (cases "?k < 4")
    case True
    then show ?thesis unfolding r
      by (rule short_list) (simp_all add: put_os_def dc term_ctrl_def numeral_eq_Suc)
  next
    case False
    then show ?thesis using r by (simp add: w)
  qed
qed

text \<open>C17: Ordered sets for which the code has no block.  When the source puts an ordered set in place of idles in the
  last word of a frame, the word is sent unharmed if the terminate is in one of the lanes 4 to 7 (no idles are replaced);
  if it is in one of the lanes 0 to 3, for every value of the ordered set and all bytes of the frame, the sink
  decodes the first four lanes as control characters, an error in place of the terminate, so that the end of the frame
  is lost.  And the block of an ordered set in lane 0 before four control characters never depends on these: what the sink
  decodes in lanes 4 to 7 are pieces of the codes of the first four lanes.\<close>

theorem ordered_sets_without_block:
  assumes K: "consts_ok K" "\<not> mapped K (x_term K)" "baser_to_ctrl K (r_error K) = Some (x_error K)"
    and ds: "is_bytes ds" "length ds < 8" and v: "fits 24 v" and os: "is_os K d0" "is_bytes [d1, d2, d3]"
  shows "rbind (replace_idles K (Some v) sig (last_word K ds)) (over_link K) =
      Inr (if 4 \<le> length ds then (fst (last_word K ds), snd (last_word K ds), False)
        else (map (heard K) ds @ x_error K # replicate (3 - length ds) (x_idle K) @
            (if sig then x_sig_os K else x_seq_os K) # os_bytes v, [1, 1, 1, 1, 1, 0, 0, 0], True)) \<and>
    over_link K ([d0, d1, d2, d3, d4, d5, d6, d7], [1, 0, 0, 0, 1, 1, 1, 1]) =
      Inr ([d0, d1, d2, d3] @ map (char_of K) [cross 0 (code K d0), cross (code K d0) (code K d1), cross (code K d1) (code K d2),
        cross (code K d2) (code K d3)], [1, 0, 0, 0, 1, 1, 1, 1], True)"
proof
  have idle: "mapped K (x_idle K)" using K(1) by (simp add: consts_ok_def mapped_def)
  show "rbind (replace_idles K (Some v) sig (last_word K ds)) (over_link K) =
      Inr (if 4 \<le> length ds then (fst (last_word K ds), snd (last_word K ds), False)
        else (map (heard K) ds @ x_error K # replicate (3 - length ds) (x_idle K) @
            (if sig then x_sig_os K else x_seq_os K) # os_bytes v, [1, 1, 1, 1, 1, 0, 0, 0], True))"
  proof (cases "4 \<le> length ds")
    case True
    have "\<exists>k < 8. term_ctrl (length ds) = term_ctrl k \<and> fst (last_word K ds) ! k = x_term K \<and> is_bytes (take k (fst (last_word K ds))) \<and>
        (\<forall>d \<in> set (drop (k + 1) (fst (last_word K ds))). mapped K d)"
      using ds idle by (intro exI [of _ "length ds"]) (simp add: last_word_def)
    then have "word_ok K (last_word K ds) False" using ds(2) by (simp add: word_ok_def last_word_def)
    from block_roundtrip_cases [OF K(1) this [unfolded last_word_def]]
    show ?thesis using True replace_last [OF K(1) v ds(2)] over_link_fits [of K "last_word K ds"] by (auto simp: last_word_def)
  next
    case False
    let ?o = "if sig then x_sig_os K else x_seq_os K"
    have o: "is_os K ?o" by simp
    obtain b5 b6 b7 where b: "os_bytes v = [b5, b6, b7]" by (simp add: os_bytes_def)
    note bb = os_bytes_be(2) [of v, unfolded b]
    have link: "over_link K ([a0, a1, a2, a3, ?o, b5, b6, b7], [c0, c1, c2, 1, 1, 0, 0, 0]) =
        Inr (map (heard K) [a0, a1, a2, a3] @ [?o, b5, b6, b7], [1, 1, 1, 1, 1, 0, 0, 0], True)" for a0 a1 a2 a3 c0 c1 c2 :: int
    proof -
      obtain x where x: "encode_block K ([a0, a1, a2, a3, ?o, b5, b6, b7], [c0, c1, c2, 1, 1, 0, 0, 0]) = (sync_ctrl K, x)" "fits 64 x"
        "decode_block K (sync_ctrl K) x = Inr (map (char_of K \<circ> code K) [a0, a1, a2, a3] @ [?o, b5, b6, b7], [1, 1, 1, 1, 1, 0, 0, 0], True)"
        using os_4_any [OF K(1) bb o one_neq_zero, of a0 a1 a2 a3 c0 c1 c2] by blast
      show ?thesis unfolding over_link_fits [OF x(1,2)] x(3) by (simp add: heard_code [OF K(1,3)])
    qed
    have t: "heard K (x_term K) = x_error K" "heard K (x_idle K) = x_idle K" using K(2) idle by (simp_all add: heard_def)
    have r: "rbind (replace_idles K (Some v) sig (last_word K ds)) (over_link K) =
        over_link K (ds @ x_term K # replicate (3 - length ds) (x_idle K) @ ?o # [b5, b6, b7], replicate (length ds) 0 @ replicate (4 - length ds) 1 @ [1, 0, 0, 0])"
      using False replace_last [OF K(1) v ds(2), of sig] by (simp add: b)
    have "length ds < 4" using False by simp
    then show ?thesis unfolding r b
      by (rule short_list) (use link t in \<open>simp_all add: numeral_eq_Suc\<close>)
  qed
  show "over_link K ([d0, d1, d2, d3, d4, d5, d6, d7], [1, 0, 0, 0, 1, 1, 1, 1]) =
      Inr ([d0, d1, d2, d3] @ map (char_of K) [cross 0 (code K d0), cross (code K d0) (code K d1), cross (code K d1) (code K d2),
        cross (code K d2) (code K d3)], [1, 0, 0, 0, 1, 1, 1, 1], True)" by (rule os_0_word [OF K(1) os(2,1)])
qed

text \<open>With the constants of the standard: one byte and a terminate, sequence ordered set 1; and the same ordered set before idles.\<close>

lemma ordered_sets_without_block_witness:
  "rbind (replace_idles ieee (Some 1) False ([0xaa, 0xfd, 7, 7, 7, 7, 7, 7], [0, 1, 1, 1, 1, 1, 1, 1])) (over_link ieee) =
      Inr ([0xfe, 0xfe, 7, 7, 0x9c, 0, 0, 1], [1, 1, 1, 1, 1, 0, 0, 0], True) \<and>
    over_link ieee ([0x9c, 0, 0, 1, 7, 7, 7, 7], [1, 0, 0, 0, 1, 1, 1, 1]) =
      Inr ([0x9c, 0, 0, 1, 0xfe, 0xfe, 0xfe, 0xfe], [1, 0, 0, 0, 1, 1, 1, 1], True)"
proof -
  have h: "\<not> mapped ieee (x_term ieee)" "baser_to_ctrl ieee (r_error ieee) = Some (x_error ieee)" "is_bytes [0xaa]" "length [0xaa :: int] < 8"
    "fits 24 1" "is_os ieee 0x9c" "is_bytes [0, 0, 1]" by (simp_all add: mapped_def ieee_def fits_def)
  have w: "last_word ieee [0xaa] = ([0xaa, 0xfd, 7, 7, 7, 7, 7, 7], [0, 1, 1, 1, 1, 1, 1, 1])"
    by (simp add: last_word_def term_ctrl_def ieee_def numeral_eq_Suc)
  have c: "map (char_of ieee) [cross 0 (code ieee 0x9c), cross (code ieee 0x9c) (code ieee 0), cross (code ieee 0) (code ieee 0),
      cross (code ieee 0) (code ieee 1)] = [0xfe, 0xfe, 0xfe, 0xfe]" by code_simp
  have e: "map (heard ieee) [0xaa] @ x_error ieee # replicate (3 - length [0xaa :: int]) (x_idle ieee) @ x_seq_os ieee # os_bytes 1 =
      [0xfe, 0xfe, 7, 7, 0x9c, 0, 0, 1]" by code_simp
  note p = ordered_sets_without_block [OF ieee_ok h, of False 7 7 7 7]
  have "rbind (replace_idles ieee (Some 1) False (last_word ieee [0xaa])) (over_link ieee) =
      Inr ([0xfe, 0xfe, 7, 7, 0x9c, 0, 0, 1], [1, 1, 1, 1, 1, 0, 0, 0], True)" using conjunct1 [OF p] e by simp
  moreover have "over_link ieee ([0x9c, 0, 0, 1, 7, 7, 7, 7], [1, 0, 0, 0, 1, 1, 1, 1]) =
      Inr ([0x9c, 0, 0, 1] @ [0xfe, 0xfe, 0xfe, 0xfe], [1, 0, 0, 0, 1, 1, 1, 1], True)" using conjunct2 [OF p] unfolding c .
  ultimately show ?thesis unfolding w by simp
qed

end
