(* ===== verification/BaseRScr.thy ===== *)
theory BaseRScr imports BaseR begin

text \<open>
  The 64b/66b scrambler: the descrambler undoes it from the same state, is in step with it after one
  block from any state, and bit reversal is an involution.
\<close>

section \<open>Scrambler\<close>

lemma bit_mask57: "bit (0x1ffffffffffffff :: int) n \<longleftrightarrow> n < 57"
proof -
  have "(0x1ffffffffffffff :: int) = mask 57" by (simp add: mask_eq_exp_minus_1)
  then show ?thesis by (simp only: bit_mask_iff) simp
qed

text \<open>The state after a bit, in both directions.\<close>

definition shift_in :: "int \<Rightarrow> bool \<Rightarrow> int" where
  "shift_in st x = push_bit 1 (st AND 0x1ffffffffffffff) OR of_bool x"

lemma bit_shift_in: "bit (shift_in st x) j \<longleftrightarrow> (if j = 0 then x else j < 58 \<and> bit st (j - 1))"
  by (cases j) (auto simp: shift_in_def bit_simps bit_mask57 bit_double_iff mult.commute [of _ 2])

lemma scramble_bit_eq: "scramble_bit data i (st, b) = (shift_in st (tap st data i), if tap st data i then b OR push_bit i 1 else b)"
  by (simp add: scramble_bit_def shift_in_def)

lemma descramble_bit_eq: "descramble_bit data i (st, b) = (shift_in st (bit data i), if tap st data i then b OR push_bit i 1 else b)"
  by (simp add: descramble_bit_def shift_in_def)

abbreviation scr_st :: "int \<Rightarrow> int \<Rightarrow> nat \<Rightarrow> int" where
  "scr_st st data n \<equiv> fst (fold (scramble_bit data) [0..<n] (st, 0))"
abbreviation des_st :: "int \<Rightarrow> int \<Rightarrow> nat \<Rightarrow> int" where
  "des_st st data n \<equiv> fst (fold (descramble_bit data) [0..<n] (st, 0))"

lemma scr_st_Suc: "scr_st st data (Suc n) = shift_in (scr_st st data n) (tap (scr_st st data n) data n)"
  by (cases "fold (scramble_bit data) [0..<n] (st, 0)") (simp add: scramble_bit_eq)

lemma des_st_Suc: "des_st st data (Suc n) = shift_in (des_st st data n) (bit data n)"
  by (cases "fold (descramble_bit data) [0..<n] (st, 0)") (simp add: descramble_bit_eq)

lemma scr_bits: "bit (snd (fold (scramble_bit data) [0..<n] (st, 0))) i \<longleftrightarrow> i < n \<and> tap (scr_st st data i) data i"
proof (induction n)
  case (Suc n)
  then show ?case
    by (cases "fold (scramble_bit data) [0..<n] (st, 0)") (auto simp: scramble_bit_eq bit_simps less_Suc_eq)
qed simp

lemma descr_bits: "bit (snd (fold (descramble_bit data) [0..<n] (st, 0))) i \<longleftrightarrow> i < n \<and> tap (des_st st data i) data i"
proof (induction n)
  case (Suc n)
  then show ?case
    by (cases "fold (descramble_bit data) [0..<n] (st, 0)") (auto simp: descramble_bit_eq bit_simps less_Suc_eq)
qed simp

lemma same_states:
  assumes "n \<le> 64" shows "des_st st (snd (scramble st data)) n = scr_st st data n"
  using assms
proof (induction n)
  case (Suc n)
  then have "bit (snd (scramble st data)) n \<longleftrightarrow> tap (scr_st st data n) data n"
    using scr_bits [of data 64 st n] by (simp add: scramble_def)
  then show ?case using Suc unfolding des_st_Suc scr_st_Suc by simp
qed simp

lemma des_state_bits: "bit (des_st st data n) j \<longleftrightarrow> (if j < n then j < 58 \<and> bit data (n - 1 - j)
    else (n = 0 \<or> j < 58) \<and> bit st (j - n))"
proof (induction n arbitrary: j)
  case (Suc n)
  show ?case
  proof (cases j)
    case 0
    then show ?thesis unfolding des_st_Suc bit_shift_in by simp
  next
    case (Suc i)
    then show ?thesis using Suc.IH [of i] unfolding des_st_Suc bit_shift_in by auto
  qed
qed simp

lemma scramble_fits: "0 \<le> snd (scramble st data) \<and> snd (scramble st data) < 2 ^ 64"
proof -
  have "fits 64 (snd (scramble st data))" unfolding fits_bit by (simp add: scramble_def scr_bits)
  then show ?thesis by (rule fitsD)
qed

lemma scrambler_exact:
  assumes "0 \<le> data" "data < 2 ^ 64"
  shows "descramble st (snd (scramble st data)) = (fst (scramble st data), data)"
proof -
  let ?b = "snd (scramble st data)"
  have "snd (descramble st ?b) = data"
  proof (rule bit_eqI)
    fix i
    show "bit (snd (descramble st ?b)) i \<longleftrightarrow> bit data i"
    proof (cases "i < 64")
      case True
      have "bit ?b i \<longleftrightarrow> tap (scr_st st data i) data i"
        using scr_bits [of data 64 st i] True by (simp add: scramble_def)
      moreover have "bit (snd (descramble st ?b)) i \<longleftrightarrow> tap (scr_st st data i) ?b i"
        using descr_bits [of ?b 64 st i] same_states [of i st data] True by (simp add: descramble_def)
      ultimately show ?thesis by (auto simp: tap_def)
    next
      case False
      then show ?thesis
        using assms fits_bit [of 64 data] descr_bits [of ?b 64 st i] by (simp add: fits_def descramble_def)
    qed
  qed
  moreover have "fst (descramble st ?b) = fst (scramble st data)"
    using same_states [of 64 st data] by (simp add: descramble_def scramble_def)
  ultimately show ?thesis by (simp add: prod_eq_iff)
qed

lemma descrambler_syncs: "fst (descramble st' b) = fst (descramble st b)"
proof -
  have "des_st st' b 64 = des_st st b 64"
    by (rule bit_eqI) (simp add: des_state_bits)
  then show ?thesis by (simp add: descramble_def)
qed

text \<open>C13: The 64b/66b scrambler.  From the scrambler's state the descrambler returns the 64 bits
  that were scrambled and ends in the scrambler's state; from any other state it ends in the
  scrambler's state all the same, so a sink is in step from the second block on.\<close>

theorem scrambler_in_step:
  assumes "0 \<le> data" "data < 2 ^ 64"
  shows "descramble st (snd (scramble st data)) = (fst (scramble st data), data) \<and>
    fst (descramble st' (snd (scramble st data))) = fst (scramble st data)"
  using scrambler_exact [OF assms, of st] descrambler_syncs [of st' _ st] by simp

lemma scrambler_in_step_witness:
  "descramble 5 (snd (scramble 5 0xd5555555555555fb)) = (fst (scramble 5 0xd5555555555555fb), 0xd5555555555555fb) \<and>
   fst (descramble 77 (snd (scramble 5 0xd5555555555555fb))) = fst (scramble 5 0xd5555555555555fb)"
  using scrambler_in_step [of "0xd5555555555555fb" 5 77] by simp

section \<open>Bit reversal\<close>

lemma bit_bit_reverse: "bit (bit_reverse w x) j \<longleftrightarrow> j < w \<and> bit x (w - 1 - j)"
proof -
  have one: "drop_bit i x AND 1 \<noteq> 0 \<longleftrightarrow> bit x i" for i
    by (simp add: and_one_eq bit_iff_odd_drop_bit odd_iff_mod_2_eq_one)
  let ?f = "\<lambda>i. if drop_bit i x AND 1 \<noteq> 0 then push_bit (w - 1 - i) (1 :: int) else 0"
  have "bit (sum_list (map ?f [0..<n])) j \<longleftrightarrow> j < w \<and> w - 1 - j < n \<and> bit x (w - 1 - j)" if "n \<le> w" for n j
    using that
  proof (induction n arbitrary: j)
    case (Suc n)
    have "sum_list (map ?f [0..<n]) AND ?f n = 0"
    proof (rule bit_eqI)
      fix i
      show "bit (sum_list (map ?f [0..<n]) AND ?f n) i \<longleftrightarrow> bit (0 :: int) i"
        using Suc.IH [of i] Suc.prems unfolding one by (auto simp: bit_simps)
    qed
    then have "sum_list (map ?f [0..<Suc n]) = sum_list (map ?f [0..<n]) OR ?f n"
      by (simp add: disjunctive_add_eq_or)
    then have "bit (sum_list (map ?f [0..<Suc n])) j \<longleftrightarrow> bit (sum_list (map ?f [0..<n])) j \<or> bit (?f n) j"
      by (simp only: bit_or_iff)
    moreover have "bit (?f n) j \<longleftrightarrow> j = w - 1 - n \<and> bit x n"
      using one [of n] by (auto simp: bit_simps)
    moreover have "bit x (w - 1 - j) \<longleftrightarrow> bit x n" if "j = w - 1 - n"
      using that Suc.prems by (simp add: Suc_diff_Suc)
    moreover have "j < w \<and> w - 1 - j < Suc n \<longleftrightarrow> j < w \<and> w - 1 - j < n \<or> j = w - 1 - n"
      using Suc.prems by linarith
    moreover have "\<not> (j < w \<and> w - 1 - j < n)" if "j = w - 1 - n" using that Suc.prems by linarith
    ultimately show ?case using Suc.IH [of j] Suc.prems by (cases "j = w - 1 - n") (simp_all, blast?)
  qed auto
  note r = this [OF le_refl, of j, folded bit_reverse_def]
  have "w - 1 - j < w" if "j < w" using that by linarith
  then show ?thesis unfolding r by blast
qed

lemma bit_reverse_twice: "bit_reverse w (bit_reverse w x) = take_bit w x"
  by (rule bit_eqI) (auto simp: bit_bit_reverse bit_simps)

end
