(* ===== verification/BaseRLink.thy ===== *)
theory BaseRLink imports BaseRBlock BaseRScr "HOL-Library.Sublist" begin

text \<open>
  The serial link end to end: the lanes that the source produces are words that survive the block
  code, and the sink's lanes rebuild the frames; then the whole of both models, with scrambling, bit
  reversal, narrow data paths, clock enables and stalls of the source's gearbox.
\<close>

section \<open>Frames\<close>

text \<open>A frame as the source sends it: prepared, with preamble, at least a word long and without
  control characters.\<close>

definition sent :: "frame_class \<Rightarrow> xframe \<Rightarrow> xframe" where
  "sent F f = (normalize_frame F (f\<lparr>x_time_start := None, x_time_sfd := None, x_time_end := None\<rparr>))\<lparr>x_start_lane := 0\<rparr>"

definition good_frame :: "eth_consts \<Rightarrow> xframe \<Rightarrow> bool" where
  "good_frame K f \<longleftrightarrow> 8 \<le> length (x_data f) \<and> x_ctrl f = replicate (length (x_data f)) 0 \<and>
     is_bytes (x_data f) \<and> x_data f ! 0 = pre_byte K"

text \<open>The interface to the frame class: the constructor stores its arguments, and
  \<open>compact\<close> leaves a frame without control characters as it is.\<close>

locale frame_laws =
  fixes K :: eth_consts and F :: frame_class
  assumes K_ok: "consts_ok K"
    and make: "x_data (make_frame F d c) = d" "x_ctrl (make_frame F d c) = c"
    and compact: "\<forall>c \<in> set (x_ctrl f). c = 0 \<Longrightarrow> x_data (compact_frame F f) = x_data f"
      "\<forall>c \<in> set (x_ctrl f). c = 0 \<Longrightarrow> \<forall>c \<in> set (x_ctrl (compact_frame F f)). c = 0"

section \<open>One lane of the source\<close>

text \<open>What the start of a half word may change.\<close>

definition same_lane :: "lane_src \<Rightarrow> lane_src \<Rightarrow> bool" where
  "same_lane l l' \<longleftrightarrow> ls_queue l' = ls_queue l \<and> ls_frame l' = ls_frame l \<and> ls_offset l' = ls_offset l \<and>
     ls_sof l' = ls_sof l \<and> ls_in_term l' = ls_in_term l \<and> ls_rep_cnt l' = ls_rep_cnt l \<and> ls_done l' = ls_done l"

lemma half_start_same_or_take:
  assumes "\<forall>f \<in> set (ls_queue l). good_frame K (sent F f)"
  obtains (same) l1 where "half_start K F opts k l = Inr l1" "same_lane l l1"
  | (take) l1 f0 rest where "half_start K F opts k l = Inr l1" "k mod 4 = 0" "\<not> ls_in_term l" "ls_frame l = None"
      "ls_queue l = f0 # rest" "ls_queue l1 = rest" "ls_frame l1 = Some (sent F f0)" "ls_sof l1" "ls_offset l1 = 0"
      "\<not> ls_in_term l1" "ls_rep_cnt l1 = ls_rep_cnt l" "ls_done l1 = ls_done l"
proof (cases "k mod 4 \<noteq> 0 \<or> ls_rep_cnt l \<noteq> 0 \<or> (force_offset_start opts \<and> k = 0) \<or> ls_in_term l")
  case True
  then have "half_start K F opts k l = Inr l" by (simp add: half_start_def)
  then show thesis using same by (simp add: same_lane_def)
next
  case start: False
  show thesis
  proof (cases "ls_ifg_cnt l + ls_deficit l > 4 - 1 \<or> (\<not> enable_dic opts \<and> ls_ifg_cnt l > 0)")
    case True
    then have "half_start K F opts k l = Inr (if ls_ifg_cnt l - 4 < 0
        then l\<lparr>ls_ifg_cnt := 0, ls_deficit := (if enable_dic opts then max (ls_deficit l + (ls_ifg_cnt l - 4)) 0 else ls_deficit l)\<rparr>
        else l\<lparr>ls_ifg_cnt := ls_ifg_cnt l - 4\<rparr>)"
      unfolding half_start_def if_not_P [OF start] if_P [OF True] Let_def by simp
    then show thesis by (rule same) (simp add: same_lane_def)
  next
    case False
    consider (f) "ls_frame l \<noteq> None" | (e) "ls_frame l = None" "ls_queue l = []"
      | (q) f0 rest where "ls_frame l = None" "ls_queue l = f0 # rest" by (cases "ls_queue l") auto
    then show thesis
    proof cases
      case f
      then have "half_start K F opts k l = Inr l"
        unfolding half_start_def if_not_P [OF start] if_not_P [OF False] if_not_P [OF f] by simp
      then show thesis using same by (simp add: same_lane_def)
    next
      case e
      then have "half_start K F opts k l = Inr (l\<lparr>ls_deficit := 0, ls_ifg_cnt := 0, ls_active := False, ls_idle_event := True\<rparr>)"
        unfolding half_start_def if_not_P [OF start] if_not_P [OF False] if_P [OF e(1)] by simp
      then show thesis using same by (simp add: same_lane_def)
    next
      case q
      have g: "good_frame K (sent F f0)" using assms q(2) by simp
      then have "0 < length (x_data (sent F f0))" unfolding good_frame_def by linarith
      then have "py_get (x_data (sent F f0)) 0 = Inr (pre_byte K)" "py_get (x_ctrl (sent F f0)) 0 = Inr 0"
        using g by (simp_all add: good_frame_def py_get_pos)
      then have "half_start K F opts k l = Inr (l\<lparr>ls_queue := rest, ls_dequeue_event := True, ls_occ_bytes := ls_occ_bytes l - frame_len f0,
                    ls_occ_frames := ls_occ_frames l - 1, ls_frame := Some (sent F f0),
                    ls_deficit := (if enable_dic opts then max (ls_deficit l + ls_ifg_cnt l) 0 else ls_deficit l),
                    ls_ifg_cnt := 0, ls_active := True, ls_offset := 0, ls_sof := True, ls_in_pre := True\<rparr>)"
        unfolding half_start_def if_not_P [OF start] if_not_P [OF False] if_P [OF q(1)] q(2) list.case Let_def
          sent_def [symmetric] by simp
      then show thesis using take [of _ f0 rest] start q by simp
    qed
  qed
qed

text \<open>The lane's character, by the state it finds.\<close>

lemma lane_emit_cases:
  assumes "\<forall>f. ls_frame l = Some f \<longrightarrow> good_frame K f \<and> 0 \<le> ls_offset l"
  obtains (idle) "ls_frame l = None" "lane_emit K opts t k l = Inr ((x_idle K, 1), l)"
  | (start) f f' l' where "ls_frame l = Some f" "ls_sof l" "lane_emit K opts t k l = Inr ((x_start K, 1), l')"
      "ls_frame l' = Some f'" "x_data f' = x_data f" "x_ctrl f' = x_ctrl f" "\<not> ls_sof l'" "ls_queue l' = ls_queue l" "ls_offset l' = ls_offset l"
      "ls_in_term l' = ls_in_term l" "ls_rep_cnt l' = ls_rep_cnt l" "ls_done l' = ls_done l"
  | (tm) f f' l' where "ls_frame l = Some f" "\<not> ls_sof l" "frame_len f \<le> ls_offset l" "lane_emit K opts t k l = Inr ((x_term K, 1), l')"
      "ls_frame l' = None" "ls_in_term l'" "ls_queue l' = ls_queue l" "ls_rep_cnt l' = ls_rep_cnt l"
      "ls_done l' = ls_done l @ [f']" "x_data f' = x_data f"
  | (data) f f' l' where "ls_frame l = Some f" "\<not> ls_sof l" "ls_offset l < frame_len f"
      "lane_emit K opts t k l = Inr (if ls_offset l = 0 then (170, 0) else (x_data f ! nat (ls_offset l), 0), l')"
      "ls_frame l' = Some f'" "x_data f' = x_data f" "x_ctrl f' = x_ctrl f" "\<not> ls_sof l'" "ls_queue l' = ls_queue l"
      "ls_offset l' = ls_offset l" "ls_in_term l' = ls_in_term l" "ls_rep_cnt l' = ls_rep_cnt l" "ls_done l' = ls_done l"
proof (cases "ls_frame l")
  case None
  then show thesis using idle by (simp add: lane_emit_def)
next
  case (Some f)
  then have g: "good_frame K f" "0 \<le> ls_offset l" using assms by auto
  consider (s) "ls_sof l" | (e) "\<not> ls_sof l" "frame_len f \<le> ls_offset l" | (d) "\<not> ls_sof l" "ls_offset l < frame_len f" by linarith
  then show thesis
  proof cases
    case s
    then show thesis
      using Some by (intro start [of f "l\<lparr>ls_sof := False, ls_frame := Some (f\<lparr>x_start_lane := k, x_time_start := Some t\<rparr>)\<rparr>"
          "f\<lparr>x_start_lane := k, x_time_start := Some t\<rparr>"])
        (simp_all add: lane_emit_def)
  next
    case e
    then show thesis
      using Some by (intro tm [of f "l\<lparr>ls_in_term := True, ls_ifg_cnt := max (ifg opts - (8 - int k)) 0,
                 ls_done := ls_done l @ [f\<lparr>x_time_end := Some t\<rparr>], ls_frame := None\<rparr>" "f\<lparr>x_time_end := Some t\<rparr>"])
        (simp_all add: lane_emit_def)
  next
    case d
    have pg: "py_get (x_data f) (ls_offset l) = Inr (x_data f ! nat (ls_offset l))" "py_get (x_ctrl f) (ls_offset l) = Inr 0"
      using g d by (simp_all add: py_get_pos frame_len_def good_frame_def)
    define f' where "f' = (if x_time_sfd f = None \<and> \<not> ls_in_pre l then f\<lparr>x_time_sfd := Some t\<rparr> else f)"
    define l' where "l' = l\<lparr>ls_frame := Some f',
      ls_in_pre := (if x_data f ! nat (ls_offset l) = sfd_byte K \<and> (xgmii_rep_count opts = 0 \<or> ls_rep_cnt l = 1) then False else ls_in_pre l)\<rparr>"
    have "lane_emit K opts t k l = Inr (if ls_offset l = 0 then (170, 0) else (x_data f ! nat (ls_offset l), 0), l')"
      using Some d pg by (simp add: lane_emit_def l'_def f'_def)
    moreover have "x_data f' = x_data f" "x_ctrl f' = x_ctrl f" by (simp_all add: f'_def)
    ultimately show thesis using Some d by (intro data [of f l' f']) (simp_all add: l'_def)
  qed
qed

section \<open>The lanes of a word\<close>

text \<open>What has been produced after \<open>k\<close> lanes, and the state that goes with it: idles; the
  middle of a frame; a terminate and idles; a start in lane 0; idles and a start in lane 4.\<close>

definition idles :: "eth_consts \<Rightarrow> nat \<Rightarrow> int list" where "idles K n = replicate n (x_idle K)"

definition in_frame :: "eth_consts \<Rightarrow> lane_src \<Rightarrow> bool" where
  "in_frame K l \<longleftrightarrow> (\<exists>f. ls_frame l = Some f \<and> good_frame K f \<and> 1 \<le> ls_offset l \<and> ls_offset l \<le> frame_len f) \<and> \<not> ls_sof l"

inductive lane_shape :: "eth_consts \<Rightarrow> int list \<Rightarrow> int list \<Rightarrow> lane_src \<Rightarrow> bool" for K where
  Idle: "ls_frame l = None \<Longrightarrow> \<not> ls_in_term l \<Longrightarrow> lane_shape K (idles K k) (replicate k 1) l"
| Data: "in_frame K l \<Longrightarrow> \<not> ls_in_term l \<Longrightarrow> is_bytes ds \<Longrightarrow> cl = replicate (length ds) 0 \<Longrightarrow> lane_shape K ds cl l"
| Term: "ls_frame l = None \<Longrightarrow> ls_in_term l \<Longrightarrow> is_bytes ds \<Longrightarrow>
    lane_shape K (ds @ x_term K # idles K n) (replicate (length ds) 0 @ replicate (Suc n) 1) l"
| Start0: "in_frame K l \<Longrightarrow> \<not> ls_in_term l \<Longrightarrow> is_bytes ds \<Longrightarrow> ls_offset l = 1 + int (length ds) \<Longrightarrow>
    lane_shape K (x_start K # ds) (1 # replicate (length ds) 0) l"
| Start4: "in_frame K l \<Longrightarrow> \<not> ls_in_term l \<Longrightarrow> is_bytes ds \<Longrightarrow> ls_offset l = 1 + int (length ds) \<Longrightarrow>
    lane_shape K (idles K 4 @ x_start K # ds) (replicate 4 1 @ 1 # replicate (length ds) 0) l"

text \<open>The source's lanes against the sink's; \<open>rx\<close> is the data already received.\<close>

definition linked :: "eth_consts \<Rightarrow> bytes list \<Rightarrow> lane_src \<Rightarrow> lane_sink \<Rightarrow> bool" where
  "linked K rx l lk \<longleftrightarrow> rx @ map x_data (lk_queue lk) = map x_data (ls_done l) \<and> lk_skip_cnt lk = 0 \<and>
     (\<forall>f \<in> set (lk_queue lk). \<forall>c \<in> set (x_ctrl f). c = 0) \<and>
     (case ls_frame l of
        None \<Rightarrow> lk_frame lk = None
      | Some f \<Rightarrow> \<exists>g. lk_frame lk = Some g \<and> x_data g = take (nat (ls_offset l)) (x_data f) \<and> (\<forall>c \<in> set (x_ctrl g). c = 0))"

definition lane_ok :: "eth_consts \<Rightarrow> frame_class \<Rightarrow> lane_src \<Rightarrow> bool" where
  "lane_ok K F l \<longleftrightarrow> (\<forall>f \<in> set (ls_queue l). good_frame K (sent F f)) \<and> ls_rep_cnt l = 0 \<and>
     (ls_frame l = None \<or> in_frame K l)"

definition stream :: "frame_class \<Rightarrow> lane_src \<Rightarrow> bytes list" where
  "stream F l = map x_data (ls_done l) @ (case ls_frame l of None \<Rightarrow> [] | Some f \<Rightarrow> [x_data f]) @ map (\<lambda>f. x_data (sent F f)) (ls_queue l)"

lemma lane_next_eq: "xgmii_rep_count opts = 0 \<Longrightarrow> ls_rep_cnt l = 0 \<Longrightarrow>
    lane_next opts k l = l\<lparr>ls_offset := ls_offset l + 1, ls_rep_cnt := 0\<rparr>"
  by (simp add: lane_next_def Let_def)

lemma good_byte: "good_frame K f \<Longrightarrow> 0 \<le> i \<Longrightarrow> i < frame_len f \<Longrightarrow> 0 \<le> x_data f ! nat i \<and> x_data f ! nat i < 256"
  using is_bytes_nth [of "x_data f" "nat i"] by (simp add: good_frame_def frame_len_def)

text \<open>A step by what it emits, with the states before and after.\<close>

lemma lane_step_cases:
  assumes ok: "lane_ok K F l" and rep: "xgmii_rep_count opts = 0"
  obtains (idle) l' where "lane_step K F opts time k ((dl, cl), l) = Inr ((dl @ [x_idle K], cl @ [1]), l')" "lane_ok K F l'"
      "ls_frame l = None" "ls_frame l' = None" "ls_in_term l' = ls_in_term l" "ls_done l' = ls_done l" "stream F l' = stream F l"
  | (start) f l' where "lane_step K F opts time k ((dl, cl), l) = Inr ((dl @ [x_start K], cl @ [1]), l')" "lane_ok K F l'"
      "k mod 4 = 0" "\<not> ls_in_term l" "ls_frame l = None" "ls_frame l' = Some f" "in_frame K l'" "ls_offset l' = 1" "\<not> ls_in_term l'"
      "ls_done l' = ls_done l" "stream F l' = stream F l" "take 1 (x_data f) = [pre_byte K]"
  | (tm) f f' l' where "lane_step K F opts time k ((dl, cl), l) = Inr ((dl @ [x_term K], cl @ [1]), l')" "lane_ok K F l'"
      "ls_frame l = Some f" "in_frame K l" "ls_offset l = frame_len f" "ls_frame l' = None" "ls_in_term l'" "ls_done l' = ls_done l @ [f']" "x_data f' = x_data f"
      "stream F l' = stream F l"
  | (data) f f' d l' where "lane_step K F opts time k ((dl, cl), l) = Inr ((dl @ [d], cl @ [0]), l')" "lane_ok K F l'"
      "ls_frame l = Some f" "in_frame K l" "ls_offset l < frame_len f" "0 \<le> d" "d < 256" "d = x_data f ! nat (ls_offset l)"
      "ls_frame l' = Some f'" "x_data f' = x_data f" "in_frame K l'" "ls_offset l' = ls_offset l + 1"
      "ls_in_term l' = ls_in_term l" "ls_done l' = ls_done l" "stream F l' = stream F l"
proof -
  have q: "\<forall>f \<in> set (ls_queue l). good_frame K (sent F f)" and r0: "ls_rep_cnt l = 0" using ok by (simp_all add: lane_ok_def)
  have step: "lane_step K F opts time k ((dl, cl), l) = Inr ((dl @ [d], cl @ [c]), l2\<lparr>ls_offset := ls_offset l2 + 1, ls_rep_cnt := 0\<rparr>)"
    if "half_start K F opts k l = Inr l1" "lane_emit K opts (time k) k l1 = Inr ((d, c), l2)" "ls_rep_cnt l2 = 0" for l1 l2 d c
    using that lane_next_eq [OF rep that(3)] by (simp add: lane_step_def)
  from q show thesis
  proof (cases rule: half_start_same_or_take [where opts = opts and k = k])
    case (same l1)
    have s: "ls_queue l1 = ls_queue l" "ls_frame l1 = ls_frame l" "ls_offset l1 = ls_offset l" "ls_sof l1 = ls_sof l"
      "ls_in_term l1 = ls_in_term l" "ls_rep_cnt l1 = 0" "ls_done l1 = ls_done l" using same(2) r0 by (simp_all add: same_lane_def)
    have fr: "in_frame K l" if "ls_frame l \<noteq> None" using ok that by (simp add: lane_ok_def)
    then have pre: "\<forall>f. ls_frame l1 = Some f \<longrightarrow> good_frame K f \<and> 0 \<le> ls_offset l1" using s by (auto simp: in_frame_def)
    then show thesis
    proof (cases rule: lane_emit_cases [where opts = opts and k = k and t = "time k"])
      case idle1: idle
      show thesis
        by (rule idle [OF step [OF same(1) idle1(2)]]) (use s idle1 q in \<open>simp_all add: lane_ok_def stream_def\<close>)
    next
      case (start f)
      then have "in_frame K l" using fr s by simp
      then show thesis using start s by (simp add: in_frame_def)
    next
      case (tm f f' l2)
      then have i: "in_frame K l" using fr s by simp
      show thesis
        by (rule that(3) [OF step [OF same(1) tm(4)], of f f']) (use s tm q i in \<open>auto simp: lane_ok_def stream_def in_frame_def\<close>)
    next
      case (data f f' l2)
      then have i: "in_frame K l" "ls_frame l = Some f" using fr s by simp_all
      have g: "good_frame K f" "1 \<le> ls_offset l" using i by (auto simp: in_frame_def)
      then have f': "good_frame K f'" "frame_len f' = frame_len f" using data by (simp_all add: good_frame_def frame_len_def)
      have e: "lane_emit K opts (time k) k l1 = Inr ((x_data f ! nat (ls_offset l), 0), l2)"
        using data(4) g s by simp
      have b: "0 \<le> x_data f ! nat (ls_offset l)" "x_data f ! nat (ls_offset l) < 256"
        using good_byte [OF g(1), of "ls_offset l"] g data(3) s by auto
      show thesis
        by (rule that(4) [OF step [OF same(1) e], of f f'])
          (use s data q i g f' b in \<open>auto simp: lane_ok_def stream_def in_frame_def\<close>)
    qed
  next
    case (take l1 f0 rest)
    let ?f = "sent F f0"
    have g: "good_frame K ?f" using q take(5) by simp
    have pre: "\<forall>f. ls_frame l1 = Some f \<longrightarrow> good_frame K f \<and> 0 \<le> ls_offset l1" using take g by simp
    have l8: "8 \<le> length (x_data ?f)" using g by (simp add: good_frame_def)
    then have t1: "take 1 (x_data ?f) = [pre_byte K]" using g by (cases "x_data ?f") (auto simp: good_frame_def)
    from pre show thesis
    proof (cases rule: lane_emit_cases [where opts = opts and k = k and t = "time k"])
      case start1: (start f f' l2)
      then have f': "good_frame K f'" "x_data f' = x_data ?f" "frame_len f' = frame_len ?f" "8 \<le> frame_len ?f"
        using take g l8 by (simp_all add: good_frame_def frame_len_def)
      show thesis
        by (rule that(2) [OF step [OF take(1) start1(3)], of f'])
          (use take start1 f' t1 q r0 in \<open>auto simp: lane_ok_def stream_def in_frame_def\<close>)
    qed (use take in auto)
  qed
qed

section \<open>A word\<close>

lemma is_bytes_snoc: "is_bytes (ds @ [d]) \<longleftrightarrow> is_bytes ds \<and> 0 \<le> d \<and> d < 256"
  by (auto simp: is_bytes_def)

lemma idles_snoc: "idles K n @ [x_idle K] = idles K (Suc n)"
  by (simp add: idles_def replicate_append_same)

lemma rep_snoc: "replicate n x @ [x] = replicate (Suc n) x"
  by (simp add: replicate_append_same)

lemma idles_len [simp]: "length (idles K n) = n"
  by (simp add: idles_def)

text \<open>The frames completed before this word: the terminate of a word stands for one more.\<close>

definition finished :: "lane_src \<Rightarrow> int" where "finished l = int (length (ls_done l)) - of_bool (ls_in_term l)"

lemma lane_step_shape:
  assumes ok: "lane_ok K F l" and rep: "xgmii_rep_count opts = 0" and k: "length dl < 8" and sh: "lane_shape K dl cl l"
  obtains d c l' where "lane_step K F opts time (length dl) ((dl, cl), l) = Inr ((dl @ [d], cl @ [c]), l')" "lane_ok K F l'"
    "lane_shape K (dl @ [d]) (cl @ [c]) l'" "stream F l' = stream F l" "finished l' = finished l"
proof -
  have fn: "ls_frame l \<noteq> None" if "in_frame K l" using that by (auto simp: in_frame_def)
  from ok rep show thesis
  proof (cases rule: lane_step_cases [where time = time and k = "length dl" and dl = dl and cl = cl])
    case (idle l')
    from sh have "lane_shape K (dl @ [x_idle K]) (cl @ [1]) l'"
    proof cases
      case (Idle k)
      then show ?thesis using lane_shape.Idle [OF idle(4), of K "Suc k"] idle(5) by (simp add: idles_snoc rep_snoc del: replicate_Suc)
    next
      case (Term ds n)
      then show ?thesis using lane_shape.Term [OF idle(4) _ Term(5), of K "Suc n"] idle(5)
        by (simp add: idles_snoc replicate_append_same)
    qed (use idle(3) fn in auto)
    then show thesis by (rule that [OF idle(1,2) _ idle(7)]) (simp add: finished_def idle)
  next
    case (start f l')
    from sh have "lane_shape K (dl @ [x_start K]) (cl @ [1]) l'"
    proof cases
      case (Idle k)
      then have "k = 0 \<or> k = 4" using k start(3) by simp presburger
      then show ?thesis using Idle lane_shape.Start0 [OF start(7,9), of "[]"] lane_shape.Start4 [OF start(7,9), of "[]"] start(8)
        by (auto simp: idles_def is_bytes_def)
    qed (use start(4,5) fn in auto)
    then show thesis by (rule that [OF start(1,2) _ start(11)]) (simp add: finished_def start)
  next
    case (tm f f' l')
    have it: "\<not> ls_in_term l" using sh by cases (use tm(3) in auto)
    have len: "8 \<le> ls_offset l" using tm(3-5) by (auto simp: in_frame_def good_frame_def frame_len_def)
    from sh have "lane_shape K (dl @ [x_term K]) (cl @ [1]) l'"
    proof cases
      case Data
      then show ?thesis using lane_shape.Term [OF tm(6,7) Data(3), of K 0] by (simp add: idles_def)
    qed (use tm(3) len k in auto)
    then show thesis by (rule that [OF tm(1,2) _ tm(10)]) (simp add: finished_def tm it)
  next
    case (data f f' d l')
    have t: "ls_in_term l' = ls_in_term l" by (rule data)
    from sh have "lane_shape K (dl @ [d]) (cl @ [0]) l'"
    proof cases
      case Data
      then show ?thesis using lane_shape.Data [OF data(11), of "dl @ [d]" "cl @ [0]"] t data(6,7) by (simp add: is_bytes_snoc replicate_append_same)
    next
      case (Start0 ds)
      then show ?thesis using lane_shape.Start0 [OF data(11), of "ds @ [d]"] t data(6,7,12) by (simp add: is_bytes_snoc replicate_append_same)
    next
      case (Start4 ds)
      then show ?thesis using lane_shape.Start4 [OF data(11), of "ds @ [d]"] t data(6,7,12) by (simp add: is_bytes_snoc replicate_append_same)
    qed (use data(3) in auto)
    then show thesis by (rule that [OF data(1,2) _ data(15)]) (simp add: finished_def data)
  qed
qed

section \<open>The lanes of the sink\<close>

lemma shape_word_ok:
  assumes K: "consts_ok K" and sh: "lane_shape K dl cl l" and len: "length dl = 8"
  shows "word_ok K (dl, cl) False"
proof -
  have m: "mapped K (x_idle K)" and ne: "x_idle K \<noteq> x_term K" using K by (auto simp: consts_ok_def mapped_def)
  from sh show ?thesis
  proof cases
    case (Idle k)
    then show ?thesis using len m ne by (simp add: word_ok_def idles_def)
  next
    case (Data)
    then show ?thesis using len by (simp add: word_ok_def)
  next
    case (Term ds n)
    then have n: "length ds + n = 7" using len by simp
    have "cl = term_ctrl (length ds)" using Term n by (simp add: term_ctrl_def)
    moreover have "\<forall>d \<in> set (drop (length ds + 1) dl). mapped K d" using Term m by (simp add: idles_def)
    ultimately have "\<exists>k < 8. cl = term_ctrl k \<and> dl ! k = x_term K \<and> is_bytes (take k dl) \<and> (\<forall>d \<in> set (drop (k + 1) dl). mapped K d)"
      using Term n by (intro exI [of _ "length ds"]) simp
    then show ?thesis using len by (simp add: word_ok_def)
  next
    case (Start0 ds)
    then have "length ds = 7" using len by simp
    then show ?thesis using Start0 len by (simp add: word_ok_def rep_simps)
  next
    case (Start4 ds)
    then have "length ds = 3" using len by simp
    then show ?thesis using Start4 len m by (simp add: word_ok_def rep_simps idles_def nth_append)
  qed
qed

context frame_laws begin

lemma lane_link:
  assumes ok: "lane_ok K F l" and rep: "xgmii_rep_count opts = 0"
    and step: "lane_step K F opts time k ((dl, cl), l) = Inr ((dl @ [d], cl @ [c]), l')" and ln: "linked K rx l lk"
  shows "linked K rx l' (sink_char K F t k d c lk)"
proof -
  have ne: "x_idle K \<noteq> x_start K" using K_ok by (simp add: consts_ok_def)
  from ok rep show ?thesis
  proof (cases rule: lane_step_cases [where time = time and k = k and dl = dl and cl = cl])
    case (idle l2)
    then have "d = x_idle K" "l' = l2" using step by simp_all
    then show ?thesis using ln idle ne by (simp add: linked_def sink_char_def)
  next
    case (start f l2)
    then have "d = x_start K" "c = 1" "l' = l2" using step by simp_all
    then show ?thesis using ln start make by (simp add: linked_def sink_char_def)
  next
    case (tm f f' l2)
    then have e: "d = x_term K" "c = 1" "l' = l2" using step by simp_all
    obtain g where g: "lk_frame lk = Some g" "x_data g = x_data f" "\<forall>c \<in> set (x_ctrl g). c = 0"
      using ln tm(3,5) by (auto simp: linked_def frame_len_def)
    then show ?thesis using ln tm e compact [of g] by (auto simp: linked_def sink_char_def Let_def)
  next
    case (data f f' d2 l2)
    then have e: "d = d2" "c = 0" "l' = l2" using step by simp_all
    obtain g where g: "lk_frame lk = Some g" "x_data g = take (nat (ls_offset l)) (x_data f)" "\<forall>c \<in> set (x_ctrl g). c = 0"
      using ln data(3) by (auto simp: linked_def)
    have o: "0 \<le> ls_offset l" "nat (ls_offset l) < length (x_data f)" "nat (ls_offset l + 1) = Suc (nat (ls_offset l))"
      using data(4,5) by (auto simp: in_frame_def frame_len_def)
    have "take (nat (ls_offset l + 1)) (x_data f) = take (nat (ls_offset l)) (x_data f) @ [d]"
      using take_Suc_conv_app_nth [OF o(2)] o(3) data(8) e by simp
    then show ?thesis using ln data e g by (auto simp: linked_def sink_char_def Let_def)
  qed
qed

lemma sink_lane_rep0: "lk_skip_cnt lk = 0 \<Longrightarrow> sink_lane K F 0 time (dl, cl) k lk = sink_char K F (time k) k (dl ! k) (cl ! k) lk"
  by (simp add: sink_lane_def)

text \<open>The word of a source in the middle of its work, through the sink's lanes.\<close>

lemma word_link_upto:
  assumes ok: "lane_ok K F l" and rep: "xgmii_rep_count opts = 0" and it: "\<not> ls_in_term l" and ln: "linked K rx l lk" and n: "n \<le> 8"
  shows "\<exists>dl cl l'. rfold (lane_step K F opts time) [0..<n] (([], []), l) = Inr ((dl, cl), l') \<and> length dl = n \<and> length cl = n \<and>
    lane_ok K F l' \<and> lane_shape K dl cl l' \<and> stream F l' = stream F l \<and> finished l' = finished l \<and>
    (\<forall>t dx cx. linked K rx l' (fold (sink_lane K F 0 t (dl @ dx, cl @ cx)) [0..<n] lk))"
  using n
proof (induction n)
  case 0
  have "lane_shape K [] [] l"
    using lane_shape.Idle [of l K 0] lane_shape.Data [of K l "[]" "[]"] ok it by (auto simp: lane_ok_def idles_def)
  then show ?case using ok ln by simp
next
  case (Suc n)
  then obtain dl cl l1 where a: "rfold (lane_step K F opts time) [0..<n] (([], []), l) = Inr ((dl, cl), l1)"
      "length dl = n" "length cl = n" "lane_ok K F l1" "lane_shape K dl cl l1" "stream F l1 = stream F l" "finished l1 = finished l"
      "\<And>t dx cx. linked K rx l1 (fold (sink_lane K F 0 t (dl @ dx, cl @ cx)) [0..<n] lk)"
    by (metis Suc_leD)
  have "length dl < 8" using a Suc.prems by simp
  from lane_step_shape [OF a(4) rep this a(5), where time = time]
  obtain d c l2 where b: "lane_step K F opts time n ((dl, cl), l1) = Inr ((dl @ [d], cl @ [c]), l2)" "lane_ok K F l2"
      "lane_shape K (dl @ [d]) (cl @ [c]) l2" "stream F l2 = stream F l1" "finished l2 = finished l1"
    using a(2) by blast
  have "linked K rx l2 (fold (sink_lane K F 0 t ((dl @ [d]) @ dx, (cl @ [c]) @ cx)) [0..<Suc n] lk)" for t dx cx
  proof -
    let ?lk = "fold (sink_lane K F 0 t (dl @ d # dx, cl @ c # cx)) [0..<n] lk"
    have l1: "linked K rx l1 ?lk" by (rule a(8))
    then have "lk_skip_cnt ?lk = 0" by (simp add: linked_def)
    from sink_lane_rep0 [OF this, of t "dl @ d # dx" "cl @ c # cx" n] lane_link [OF a(4) rep b(1) l1, of "t n"]
    show ?thesis using a(2,3) by (simp add: nth_append)
  qed
  then show ?case using a b by (intro exI [of _ "dl @ [d]"] exI [of _ "cl @ [c]"] exI [of _ l2]) (simp add: rfold_append)
qed

lemma word_link:
  assumes "lane_ok K F l" "xgmii_rep_count opts = 0" "\<not> ls_in_term l" "linked K rx l lk"
  obtains dl cl l' where "word_lanes K F opts time l = Inr ((dl, cl), l')" "word_ok K (dl, cl) False"
    "lane_ok K F l'" "stream F l' = stream F l" "\<And>t. linked K rx l' (sink_lanes K F 0 t (dl, cl) lk)" "length (ls_done l') \<le> Suc (length (ls_done l))"
proof -
  from word_link_upto [OF assms, of 8 time]
  obtain dl cl l' where a: "rfold (lane_step K F opts time) [0..<8] (([], []), l) = Inr ((dl, cl), l')" "length dl = 8"
      "lane_ok K F l'" "lane_shape K dl cl l'" "stream F l' = stream F l" "finished l' = finished l"
      "\<forall>t dx cx. linked K rx l' (fold (sink_lane K F 0 t (dl @ dx, cl @ cx)) [0..<8] lk)"
    by blast
  have "linked K rx l' (sink_lanes K F 0 t (dl, cl) lk)" for t
    using a(7) [rule_format, of t "[]" "[]"] by (simp add: sink_lanes_def)
  moreover have "length (ls_done l') \<le> Suc (length (ls_done l))"
    using a(6) assms(3) by (simp add: finished_def of_bool_def split: if_splits)
  ultimately show thesis using that [of dl cl l'] a shape_word_ok [OF K_ok a(4,2)] by (simp add: word_lanes_def)
qed

end

end
