(* ===== verification/BaseRSystem.thy ===== *)
theory BaseRSystem imports BaseRLink begin

text \<open>
  The serial link as a system: a source and a sink on the same clock and enable, connected by the
  serial bus, with frames put into the source and taken from the sink between the edges.
\<close>

section \<open>The system\<close>

definition bus_in :: "serdes_bus \<Rightarrow> sink_in" where
  "bus_in b = \<lparr>i_data = b_data b, i_hdr = b_hdr b, i_data_valid = Some (b_data_valid b), i_hdr_valid = Some (b_hdr_valid b), i_gbx_sync = None\<rparr>"

text \<open>An edge: the sink samples what the source drove before it.\<close>

definition link_cycle :: "eth_consts \<Rightarrow> frame_class \<Rightarrow> serdes_cfg \<Rightarrow> int \<Rightarrow> bool \<Rightarrow>
    base_src \<times> serdes_bus \<times> base_sink \<Rightarrow> (base_src \<times> serdes_bus \<times> base_sink) result" where
  "link_cycle K F c t enable = (\<lambda>(s, b, k).
     rbind (ser_sink_step K F c t enable (bus_in b) k) (\<lambda>k'.
     rbind (ser_src_step K F c t enable False (s, b)) (\<lambda>(s', b'). Inr (s', b', k'))))"

text \<open>A source as it is set up: any options without repetition, any gearbox.\<close>

definition src_start :: "base_src \<Rightarrow> bool" where
  "src_start s \<longleftrightarrow> xgmii_rep_count (bs_opts s) = 0 \<and> s = base_src_new\<lparr>bs_opts := bs_opts s, bs_gbx := bs_gbx s\<rparr>"

text \<open>The states that can be reached, with the data of the frames sent and received.\<close>

inductive link_reach :: "eth_consts \<Rightarrow> frame_class \<Rightarrow> serdes_cfg \<Rightarrow> bytes list \<Rightarrow> bytes list \<Rightarrow>
    base_src \<times> serdes_bus \<times> base_sink \<Rightarrow> bool" for K F c where
  Init: "src_start s \<Longrightarrow> link_reach K F c [] [] (s, bus_idle, base_sink_new)"
| Send: "link_reach K F c tx rx (s, b, k) \<Longrightarrow> good_frame K (sent F f) \<Longrightarrow> send_nowait (bs_opts s) f (bs_lane s) = Inr l \<Longrightarrow>
    link_reach K F c (tx @ [x_data (sent F f)]) rx (s\<lparr>bs_lane := l\<rparr>, b, k)"
| Recv: "link_reach K F c tx rx (s, b, k) \<Longrightarrow> recv_nowait F do_compact (bk_lane k) = Inr (f, l) \<Longrightarrow>
    link_reach K F c tx (rx @ [x_data f]) (s, b, k\<lparr>bk_lane := l\<rparr>)"
| Cycle: "link_reach K F c tx rx x \<Longrightarrow> link_cycle K F c t enable x = Inr y \<Longrightarrow> link_reach K F c tx rx y"

section \<open>Blocks in flight\<close>

lemma drive_in: "(if reverse_on c then bit_reverse (serdes_width c) (drive c x) else drive c x) = take_bit (serdes_width c) x"
proof -
  have m: "y AND (2 ^ n - 1) = take_bit n y" for y :: int and n
    by (simp add: take_bit_eq_mask mask_eq_exp_minus_1)
  have "bit_reverse w (take_bit w y) = bit_reverse w y" for w y
    by (rule bit_eqI) (auto simp: bit_bit_reverse bit_simps)
  then show ?thesis by (simp add: drive_def Let_def m bit_reverse_twice)
qed

lemma hdr_in: "fits 2 h \<Longrightarrow> bit_reverse 2 (bit_reverse 2 h) = h"
  by (simp add: bit_reverse_twice fits_take_bit)

lemma take_part: "take_bit n x OR push_bit n (take_bit w (drop_bit n x)) = take_bit (n + w) (x :: int)"
  by (rule bit_eqI) (auto simp: bit_simps)

text \<open>A block that the sink has not consumed yet brings it level with the source's lanes.\<close>

definition block_brings :: "eth_consts \<Rightarrow> frame_class \<Rightarrow> serdes_cfg \<Rightarrow> bytes list \<Rightarrow> base_src \<Rightarrow> base_sink \<Rightarrow> bool" where
  "block_brings K F c rx s k \<longleftrightarrow> fits 64 (bs_data s) \<and> fits 2 (bs_hdr s) \<and>
     (\<exists>x dl cl. (if scramble_on c then descramble (bk_scrambler k) (bs_data s) else (bk_scrambler k, bs_data s)) = (bs_scrambler s, x) \<and>
        decode_block K (bs_hdr s) x = Inr (dl, cl, False) \<and> (\<forall>t. linked K rx (bs_lane s) (sink_lanes K F 0 t (dl, cl) (bk_lane k)))) \<and>
     length (ls_done (bs_lane s)) \<le> Suc (length rx + length (lk_queue (bk_lane k)))"

text \<open>The sink has consumed \<open>m\<close> parts of the source's last block.\<close>

definition consumed :: "eth_consts \<Rightarrow> frame_class \<Rightarrow> serdes_cfg \<Rightarrow> bytes list \<Rightarrow> nat \<Rightarrow> base_src \<Rightarrow> base_sink \<Rightarrow> bool" where
  "consumed K F c rx m s k \<longleftrightarrow> m \<le> pack_cnt c \<and> bk_rep_count k = 0 \<and> gbx_seq_len (bk_gbx k) = None \<and>
     (if m = pack_cnt c then bk_scrambler k = bs_scrambler s \<and> linked K rx (bs_lane s) (bk_lane k)
      else block_brings K F c rx s k \<and>
        (0 < m \<longrightarrow> bk_data k = take_bit (serdes_width c * m) (bs_data s) \<and> bk_hdr k = bs_hdr s \<and> bk_pack_seq k = m))"

definition bus_at :: "serdes_cfg \<Rightarrow> nat \<Rightarrow> base_src \<Rightarrow> serdes_bus \<Rightarrow> bool" where
  "bus_at c m s b \<longleftrightarrow> m < pack_cnt c \<and> b_data b = drive c (drop_bit (serdes_width c * m) (bs_data s)) \<and> b_hdr_valid b = (m = 0) \<and>
     (m = 0 \<longrightarrow> b_hdr b = (if reverse_on c then bit_reverse 2 (bs_hdr s) else bs_hdr s))"

lemma cfg_widths: "serdes_cfg_ok c \<Longrightarrow> serdes_width c * pack_cnt c = 64 \<and> 0 < pack_cnt c"
  by (auto simp: serdes_cfg_ok_def serdes_width_def pack_cnt_def)

section \<open>The sink consumes\<close>

lemma block_brings_cong:
  "block_brings K F c rx s k \<Longrightarrow> bk_scrambler k' = bk_scrambler k \<Longrightarrow> bk_lane k' = bk_lane k \<Longrightarrow> block_brings K F c rx s k'"
  by (simp only: block_brings_def)

lemma sink_block_brings:
  assumes b: "block_brings K F c rx s k" and e: "bk_data k = bs_data s" "bk_hdr k = bs_hdr s" and r: "bk_rep_count k = 0"
  obtains k' where "sink_block K F c t k = Inr k'" "bk_scrambler k' = bs_scrambler s" "linked K rx (bs_lane s) (bk_lane k')"
    "bk_rep_count k' = 0" "bk_gbx k' = bk_gbx k"
proof -
  from b obtain x dl cl where x: "(if scramble_on c then descramble (bk_scrambler k) (bk_data k) else (bk_scrambler k, bk_data k)) = (bs_scrambler s, x)"
      "decode_block K (bk_hdr k) x = Inr (dl, cl, False)" "\<And>t. linked K rx (bs_lane s) (sink_lanes K F 0 t (dl, cl) (bk_lane k))"
    unfolding block_brings_def e by blast
  define k1 where "k1 = k\<lparr>bk_scrambler := bs_scrambler s, bk_data := x\<rparr>"
  define k2 where "k2 = (if bk_hdr k1 = sync_ctrl K \<and> bk_hdr k1 \<noteq> sync_data K \<and> le_bytes 8 x ! 0 = bt_ctrl K
                  then k1\<lparr>bk_os_match_cnt := 0, bk_idle_match_cnt := bk_idle_match_cnt k1 + 1\<rparr> else k1)"
  have k2: "bk_lane k2 = bk_lane k" "bk_scrambler k2 = bs_scrambler s" "bk_rep_count k2 = 0" "bk_gbx k2 = bk_gbx k"
    using r by (simp_all add: k2_def k1_def)
  have d: "decode_block K (bk_hdr k1) x = Inr (dl, cl, False)" using x(2) by (simp add: k1_def)
  have "sink_block K F c t k = Inr (k2\<lparr>bk_lane := sink_lanes K F 0 (edge_time c t (bk_clk_period k2) (bk_gbx_delay k2)) (dl, cl) (bk_lane k)\<rparr>)"
    unfolding sink_block_def x(1) Let_def prod.case k1_def [symmetric] d rbind_simps k2_def [symmetric] if_False k2(1,3) ..
  then show thesis by (rule that) (use k2 x(3) in simp_all)
qed

text \<open>The end of \<open>ser_sink_step\<close>: the input of a valid cycle, put into its place.\<close>

definition sink_pack :: "eth_consts \<Rightarrow> frame_class \<Rightarrow> serdes_cfg \<Rightarrow> int \<Rightarrow> bool \<Rightarrow> int \<Rightarrow> int \<Rightarrow> base_sink \<Rightarrow> base_sink result" where
  "sink_pack K F c t first d h k1 = (let k3 = k1\<lparr>bk_sync_bad := False\<rparr>
     in if 1 < pack_cnt c
        then if first then Inr (k3\<lparr>bk_data := d, bk_hdr := h, bk_pack_seq := 1\<rparr>)
             else let k4 = k3\<lparr>bk_data := bk_data k3 OR push_bit (serdes_width c * bk_pack_seq k3) d, bk_pack_seq := bk_pack_seq k3 + 1\<rparr>
                  in if bk_pack_seq k4 < pack_cnt c then Inr k4 else sink_block K F c t (k4\<lparr>bk_pack_seq := 0\<rparr>)
        else sink_block K F c t (k3\<lparr>bk_data := d, bk_hdr := h\<rparr>))"

lemma sink_off:
  assumes "gbx_seq_len (bk_gbx k) = None"
  obtains k1 where "bk_lane k1 = bk_lane k" "bk_scrambler k1 = bk_scrambler k" "bk_rep_count k1 = bk_rep_count k"
    "gbx_seq_len (bk_gbx k1) = None" "bk_data k1 = bk_data k" "bk_hdr k1 = bk_hdr k" "bk_pack_seq k1 = bk_pack_seq k"
    "ser_sink_step K F c t True i k =
       (if i_data_valid i = Some False then Inr k1
        else sink_pack K F c t (i_hdr_valid i = Some True) (if reverse_on c then bit_reverse (serdes_width c) (i_data i) else i_data i)
          (if reverse_on c then bit_reverse 2 (i_hdr i) else i_hdr i) k1)"
proof -
  define k0 where "k0 = k\<lparr>bk_clk_period := (if bk_last_clk k \<noteq> 0 then t - bk_last_clk k else bk_clk_period k), bk_last_clk := t\<rparr>"
  define g where "g = (bk_gbx k)\<lparr>gbx_seq := 0, gbx_seq_gen := 0, gbx_bit_cnt := 0\<rparr>"
  have tick: "gbx_sink_tick (bk_clk_period k0) (bk_gbx_delay k0) (i_gbx_sync i) (bk_gbx k0) = (g, False, False, False, 0)"
    using assms by (simp add: gbx_sink_tick_def k0_def g_def)
  have off: "\<not> gbx_on g" using assms by (simp add: gbx_on_def g_def)
  show thesis
  proof (rule that [of "k0\<lparr>bk_gbx := g, bk_gbx_delay := 0\<rparr>"])
    show "gbx_seq_len (bk_gbx (k0\<lparr>bk_gbx := g, bk_gbx_delay := 0\<rparr>)) = None" using assms by (simp add: g_def)
  next
    let ?k = "k0\<lparr>bk_gbx := g, bk_gbx_delay := 0\<rparr>"
    show "ser_sink_step K F c t True i k = (if i_data_valid i = Some False then Inr ?k
        else sink_pack K F c t (i_hdr_valid i = Some True) (if reverse_on c then bit_reverse (serdes_width c) (i_data i) else i_data i)
          (if reverse_on c then bit_reverse 2 (i_hdr i) else i_hdr i) ?k)"
      unfolding ser_sink_step_def sink_pack_def k0_def [symmetric] Let_def tick prod.case using off by simp
  qed (simp_all add: k0_def)
qed

lemma consumed_cong:
  assumes "consumed K F c rx m s k" "bk_lane k' = bk_lane k" "bk_scrambler k' = bk_scrambler k" "bk_rep_count k' = bk_rep_count k"
    "gbx_seq_len (bk_gbx k') = gbx_seq_len (bk_gbx k)" "bk_data k' = bk_data k" "bk_hdr k' = bk_hdr k" "bk_pack_seq k' = bk_pack_seq k"
  shows "consumed K F c rx m s k'"
  using assms by (auto simp: consumed_def intro: block_brings_cong)

lemma ser_sink_step_idle:
  assumes "consumed K F c rx m s k" "\<not> enable \<or> \<not> b_data_valid b"
  obtains k' where "ser_sink_step K F c t enable (bus_in b) k = Inr k'" "consumed K F c rx m s k'"
proof (cases enable)
  case True
  have "gbx_seq_len (bk_gbx k) = None" using assms(1) by (simp add: consumed_def)
  from sink_off [OF this, where K = K and F = F and c = c and t = t and i = "bus_in b"]
  obtain k1 where "bk_lane k1 = bk_lane k" "bk_scrambler k1 = bk_scrambler k" "bk_rep_count k1 = bk_rep_count k"
    "gbx_seq_len (bk_gbx k1) = None" "bk_data k1 = bk_data k" "bk_hdr k1 = bk_hdr k" "bk_pack_seq k1 = bk_pack_seq k"
    "ser_sink_step K F c t True (bus_in b) k = Inr k1" using True assms(2) by (auto simp: bus_in_def)
  then show thesis using that [of k1] True consumed_cong [OF assms(1), of k1] \<open>gbx_seq_len (bk_gbx k) = None\<close> by simp
next
  case False
  define k1 where "k1 = k\<lparr>bk_clk_period := (if bk_last_clk k \<noteq> 0 then t - bk_last_clk k else bk_clk_period k), bk_last_clk := t\<rparr>"
  have "ser_sink_step K F c t enable (bus_in b) k = Inr k1" using False by (simp add: ser_sink_step_def k1_def)
  then show thesis by (rule that) (rule consumed_cong [OF assms(1)], simp_all add: k1_def)
qed

lemma ser_sink_step_part:
  assumes cfg: "serdes_cfg_ok c" and m: "consumed K F c rx m s k" and v: "b_data_valid b" and bus: "bus_at c m s b"
  obtains k' where "ser_sink_step K F c t True (bus_in b) k = Inr k'" "consumed K F c rx (Suc m) s k'"
proof -
  let ?w = "serdes_width c" and ?n = "pack_cnt c"
  have n: "?w * ?n = 64" "0 < ?n" using cfg_widths [OF cfg] by simp_all
  have mn: "m < ?n" using bus by (simp add: bus_at_def)
  have off: "gbx_seq_len (bk_gbx k) = None" and b: "block_brings K F c rx s k" and rep: "bk_rep_count k = 0"
    and got: "0 < m \<longrightarrow> bk_data k = take_bit (?w * m) (bs_data s) \<and> bk_hdr k = bs_hdr s \<and> bk_pack_seq k = m"
    using m mn by (simp_all add: consumed_def)
  have f: "fits 64 (bs_data s)" "fits 2 (bs_hdr s)" using b by (simp_all add: block_brings_def)
  define d h where "d = take_bit ?w (drop_bit (?w * m) (bs_data s))" and "h = (if reverse_on c then bit_reverse 2 (b_hdr b) else b_hdr b)"
  have bd: "b_data b = drive c (drop_bit (?w * m) (bs_data s))" using bus by (simp add: bus_at_def)
  have d: "(if reverse_on c then bit_reverse ?w (b_data b) else b_data b) = d"
    unfolding bd d_def by (rule drive_in)
  have h: "m = 0 \<longrightarrow> h = bs_hdr s" using bus hdr_in [OF f(2)] by (simp add: bus_at_def h_def)
  have vh: "b_hdr_valid b = (m = 0)" using bus by (simp add: bus_at_def)
  from sink_off [OF off, where K = K and F = F and c = c and t = t and i = "bus_in b"]
  obtain k1 where k1: "bk_lane k1 = bk_lane k" "bk_scrambler k1 = bk_scrambler k" "bk_rep_count k1 = bk_rep_count k"
    "gbx_seq_len (bk_gbx k1) = None" "bk_data k1 = bk_data k" "bk_hdr k1 = bk_hdr k" "bk_pack_seq k1 = bk_pack_seq k"
    and raw: "ser_sink_step K F c t True (bus_in b) k = (if i_data_valid (bus_in b) = Some False then Inr k1
        else sink_pack K F c t (i_hdr_valid (bus_in b) = Some True)
          (if reverse_on c then bit_reverse ?w (i_data (bus_in b)) else i_data (bus_in b))
          (if reverse_on c then bit_reverse 2 (i_hdr (bus_in b)) else i_hdr (bus_in b)) k1)" .
  have bi: "(i_data_valid (bus_in b) = Some False) = False" "(i_hdr_valid (bus_in b) = Some True) = (m = 0)" "i_data (bus_in b) = b_data b"
    "i_hdr (bus_in b) = b_hdr b" using v vh by (simp_all add: bus_in_def)
  note st = raw [unfolded bi if_False d h_def [symmetric] sink_pack_def]
  note out = that
  have fin: thesis if e: "ser_sink_step K F c t True (bus_in b) k = sink_block K F c t k5" "bk_lane k5 = bk_lane k" "bk_scrambler k5 = bk_scrambler k"
      "bk_rep_count k5 = 0" "gbx_seq_len (bk_gbx k5) = None" "bk_data k5 = bs_data s" "bk_hdr k5 = bs_hdr s" and last: "Suc m = ?n" for k5
  proof -
    have "block_brings K F c rx s k5" using block_brings_cong [OF b] e by simp
    from sink_block_brings [OF this e(6,7,4), where t = t] obtain k' where "sink_block K F c t k5 = Inr k'" "bk_scrambler k' = bs_scrambler s"
        "linked K rx (bs_lane s) (bk_lane k')" "bk_rep_count k' = 0" "bk_gbx k' = bk_gbx k5" by blast
    then show thesis using out [of k'] e last by (simp add: consumed_def)
  qed
  have all: "take_bit 64 (bs_data s) = bs_data s" using f(1) by (simp add: fits_take_bit)
  consider (one) "?n = 1" | (first) "1 < ?n" "m = 0" | (mid) "m \<noteq> 0" "Suc m < ?n" | (last) "m \<noteq> 0" "Suc m = ?n"
    using mn n(2) by linarith
  then show thesis
  proof cases
    case one
    then have "m = 0" "?w = 64" using mn n by simp_all
    then show thesis using fin [of "k1\<lparr>bk_sync_bad := False, bk_data := d, bk_hdr := h\<rparr>"] one st h all k1 rep by (simp add: d_def Let_def)
  next
    case first
    let ?k = "k1\<lparr>bk_sync_bad := False, bk_data := d, bk_hdr := h, bk_pack_seq := 1\<rparr>"
    have "block_brings K F c rx s ?k" using block_brings_cong [OF b] k1 by simp
    then show thesis using that [of ?k] st first h k1 rep by (simp add: consumed_def d_def Let_def)
  next
    case mid
    let ?k = "k1\<lparr>bk_sync_bad := False, bk_data := bk_data k OR push_bit (?w * m) d, bk_pack_seq := Suc m\<rparr>"
    have "block_brings K F c rx s ?k" using block_brings_cong [OF b] k1 by simp
    moreover have "bk_data k OR push_bit (?w * m) d = take_bit (?w * Suc m) (bs_data s)"
      using got mid take_part [of "?w * m" "bs_data s" ?w] by (simp add: d_def add.commute)
    ultimately show thesis using that [of ?k] st mid got k1 rep by (simp add: consumed_def Let_def)
  next
    case last
    let ?k = "k1\<lparr>bk_sync_bad := False, bk_data := bk_data k OR push_bit (?w * m) d, bk_pack_seq := 0\<rparr>"
    have "?w * m + ?w = 64" using last(2) n(1) by (metis add.commute mult_Suc_right)
    then have "bk_data k OR push_bit (?w * m) d = bs_data s"
      using got last take_part [of "?w * m" "bs_data s" ?w] all by (simp add: d_def)
    then show thesis using fin [of ?k] st last got k1 rep by (simp add: Let_def)
  qed
qed

section \<open>The source produces\<close>

definition src_ok :: "eth_consts \<Rightarrow> frame_class \<Rightarrow> serdes_cfg \<Rightarrow> base_src \<Rightarrow> bool" where
  "src_ok K F c s \<longleftrightarrow> xgmii_rep_count (bs_opts s) = 0 \<and> bs_os s = None \<and> bs_bit_offset s = 0 \<and> bs_pack_seq s < pack_cnt c \<and>
     lane_ok K F (bs_lane s) \<and> \<not> ls_in_term (bs_lane s)"

text \<open>The whole: what was sent is what the source holds and has completed; the bus carries the part
  that the sink consumes next.\<close>

definition at_part :: "serdes_cfg \<Rightarrow> base_src \<Rightarrow> serdes_bus \<Rightarrow> nat" where
  "at_part c s b = (if b_data_valid b then pack_cnt c - 1 - bs_pack_seq s else pack_cnt c - bs_pack_seq s)"

definition link_inv :: "eth_consts \<Rightarrow> frame_class \<Rightarrow> serdes_cfg \<Rightarrow> bytes list \<Rightarrow> bytes list \<Rightarrow> base_src \<Rightarrow> serdes_bus \<Rightarrow> base_sink \<Rightarrow> bool" where
  "link_inv K F c tx rx s b k \<longleftrightarrow> src_ok K F c s \<and> stream F (bs_lane s) = tx \<and> consumed K F c rx (at_part c s b) s k \<and>
     (b_data_valid b \<longrightarrow> bus_at c (at_part c s b) s b)"

lemma no_slip: "slip_out False 0 ld d h = (0, ld, d, h)"
  by (simp add: slip_out_def)

lemma block_brings_src:
  "block_brings K F c rx s k \<Longrightarrow> bs_lane s' = bs_lane s \<Longrightarrow> bs_data s' = bs_data s \<Longrightarrow> bs_hdr s' = bs_hdr s \<Longrightarrow>
    bs_scrambler s' = bs_scrambler s \<Longrightarrow> block_brings K F c rx s' k"
  by (simp only: block_brings_def)

lemma consumed_src:
  "consumed K F c rx m s k \<Longrightarrow> bs_lane s' = bs_lane s \<Longrightarrow> bs_data s' = bs_data s \<Longrightarrow> bs_hdr s' = bs_hdr s \<Longrightarrow>
    bs_scrambler s' = bs_scrambler s \<Longrightarrow> consumed K F c rx m s' k"
  using block_brings_src [of K F c rx s k s'] by (simp add: consumed_def)

context frame_laws begin

lemma src_block_brings:
  assumes ok: "src_ok K F c s" and con: "consumed K F c rx (pack_cnt c) s k"
  obtains s' where "src_block K F c t s = Inr s'" "src_ok K F c s'" "stream F (bs_lane s') = stream F (bs_lane s)" "block_brings K F c rx s' k"
    "bs_bit_offset s' = 0" "bs_pack_seq s' = bs_pack_seq s"
proof -
  have o: "xgmii_rep_count (bs_opts s) = 0" "bs_os s = None" "bs_bit_offset s = 0" "lane_ok K F (bs_lane s)" "\<not> ls_in_term (bs_lane s)"
    using ok by (simp_all add: src_ok_def)
  have ln: "linked K rx (bs_lane s) (bk_lane k)" and sc: "bk_scrambler k = bs_scrambler s" using con by (simp_all add: consumed_def)
  from word_link [OF o(4,1,5) ln, where time = "edge_time c t (bs_clk_period s) (- bs_gbx_delay s)"]
  obtain dl cl l where w: "word_lanes K F (bs_opts s) (edge_time c t (bs_clk_period s) (- bs_gbx_delay s)) (bs_lane s) = Inr ((dl, cl), l)"
      "word_ok K (dl, cl) False" "lane_ok K F l" "stream F l = stream F (bs_lane s)" "\<And>t. linked K rx l (sink_lanes K F 0 t (dl, cl) (bk_lane k))"
      "length (ls_done l) \<le> Suc (length (ls_done (bs_lane s)))" by blast
  obtain hdr data where e: "encode_block K (dl, cl) = (hdr, data)" by fastforce
  have bl: "decode_block K hdr data = Inr (dl, cl, False)" "fits 64 data" "fits 2 hdr"
    using block_roundtrip_cases [OF K_ok w(2)] sync_fits [OF K_ok] e by auto
  obtain st d1 where sd: "(if scramble_on c then scramble (bs_scrambler s) data else (bs_scrambler s, data)) = (st, d1)" by fastforce
  have d1: "fits 64 d1" "(if scramble_on c then descramble (bs_scrambler s) d1 else (bs_scrambler s, d1)) = (st, data)"
  proof -
    have "descramble (bs_scrambler s) (snd (scramble (bs_scrambler s) data)) = (fst (scramble (bs_scrambler s) data), data)"
      by (rule scrambler_exact) (use bl(2) in \<open>simp_all add: fits_def\<close>)
    then show "fits 64 d1" "(if scramble_on c then descramble (bs_scrambler s) d1 else (bs_scrambler s, d1)) = (st, data)"
      using sd bl(2) scramble_fits [of "bs_scrambler s" data] by (auto simp: fits_def split: if_splits)
  qed
  define s' where "s' = s\<lparr>bs_lane := l\<lparr>ls_in_term := False\<rparr>, bs_scrambler := st, bs_data := d1, bs_hdr := hdr\<rparr>"
  have "src_block K F c t s = Inr s'"
    unfolding src_block_def w(1) rbind_simps prod.case o(2) replace_idles_def option.case e Let_def sd s'_def ..
  moreover have "lane_ok K F (l\<lparr>ls_in_term := False\<rparr>)" "stream F (l\<lparr>ls_in_term := False\<rparr>) = stream F l"
    "linked K rx (l\<lparr>ls_in_term := False\<rparr>) x = linked K rx l x" for x
    using w(3) by (simp_all add: lane_ok_def in_frame_def stream_def linked_def split: option.splits)
  note l' = this
  have "src_ok K F c s'" using ok l'(1) by (simp add: src_ok_def s'_def)
  moreover have "block_brings K F c rx s' k"
  proof -
    have "length (ls_done (bs_lane s)) = length rx + length (lk_queue (bk_lane k))"
      using ln unfolding linked_def by (metis length_append length_map)
    then show ?thesis using d1 bl w(5,6) sc by (auto simp: block_brings_def s'_def l'(3))
  qed
  moreover have "stream F (bs_lane s') = stream F (bs_lane s)" using w(4) l'(2) by (simp add: s'_def)
  ultimately show thesis using that [of s'] o by (simp add: s'_def)
qed

lemma ser_src_step_next:
  assumes cfg: "serdes_cfg_ok c" and ok: "src_ok K F c s" and con: "consumed K F c rx (pack_cnt c - bs_pack_seq s) s k"
  obtains s' b' where "ser_src_step K F c t True False (s, b) = Inr (s', b')" "link_inv K F c (stream F (bs_lane s)) rx s' b' k"
proof -
  let ?n = "pack_cnt c"
  have n: "0 < ?n" using cfg_widths [OF cfg] by simp
  define s1 where "s1 = s\<lparr>bs_clk_period := (if bs_last_clk s \<noteq> 0 then t - bs_last_clk s else bs_clk_period s), bs_last_clk := t\<rparr>"
  obtain g stall sync delay where gt: "gbx_src_tick (bs_clk_period s1) (bs_gbx_delay s1) (bs_gbx s1) = (g, stall, sync, delay)"
    by (cases "gbx_src_tick (bs_clk_period s1) (bs_gbx_delay s1) (bs_gbx s1)") auto
  define s2 where "s2 = s1\<lparr>bs_gbx := g, bs_gbx_delay := delay\<rparr>"
  have st: "ser_src_step K F c t True False (s, b) =
      (if stall then Inr (s2, \<lparr>b_data = 0, b_data_valid = False, b_hdr = 0, b_hdr_valid = False, b_gbx_sync = sync\<rparr>)
       else if bs_pack_seq s2 \<noteq> 0
       then Inr (s2\<lparr>bs_pack_seq := bs_pack_seq s2 - 1\<rparr>,
                 \<lparr>b_data = drive c (drop_bit (serdes_width c * (?n - bs_pack_seq s2)) (bs_data s2)),
                  b_data_valid = True, b_hdr = 0, b_hdr_valid = False, b_gbx_sync = sync\<rparr>)
       else rbind (src_block K F c t s2) (\<lambda>s3.
          let (off, ld, data, hdr) = slip_out False (bs_bit_offset s3) (bs_last_d s3) (bs_data s3) (bs_hdr s3)
          in Inr (s3\<lparr>bs_bit_offset := off, bs_last_d := ld, bs_data := data, bs_hdr := hdr, bs_pack_seq := ?n - 1\<rparr>,
                 \<lparr>b_data = drive c data, b_data_valid = True, b_hdr = (if reverse_on c then bit_reverse 2 hdr else hdr),
                  b_hdr_valid = True, b_gbx_sync = sync\<rparr>)))"
    unfolding ser_src_step_def prod.case s1_def [symmetric] Let_def gt s2_def [symmetric] by simp
  have ok2: "src_ok K F c s2" "bs_lane s2 = bs_lane s" "bs_pack_seq s2 = bs_pack_seq s"
    using ok by (simp_all add: src_ok_def s2_def s1_def)
  have con2: "consumed K F c rx (?n - bs_pack_seq s2) s2 k"
    by (subst ok2(3), rule consumed_src [OF con]) (simp_all add: s2_def s1_def)
  have p: "bs_pack_seq s2 < ?n" using ok2 by (simp add: src_ok_def)
  consider (stall) stall | (part) "\<not> stall" "bs_pack_seq s2 \<noteq> 0" | (new) "\<not> stall" "bs_pack_seq s2 = 0" by blast
  then show thesis
  proof cases
    case stall
    then show thesis using that [of s2] st ok2 con2 by (simp add: link_inv_def at_part_def)
  next
    case part
    let ?s = "s2\<lparr>bs_pack_seq := bs_pack_seq s2 - 1\<rparr>"
    have "?n - 1 - (bs_pack_seq s2 - 1) = ?n - bs_pack_seq s2" using part p by simp
    moreover have "consumed K F c rx (?n - bs_pack_seq s2) ?s k" by (rule consumed_src [OF con2]) simp_all
    moreover have "src_ok K F c ?s" using ok2(1) p by (auto simp: src_ok_def)
    ultimately show thesis using that [of ?s] st part ok2 p by (simp add: link_inv_def at_part_def bus_at_def)
  next
    case new
    from src_block_brings [OF ok2(1), of rx k t] con2 new
    obtain s3 where s3: "src_block K F c t s2 = Inr s3" "src_ok K F c s3" "stream F (bs_lane s3) = stream F (bs_lane s2)"
        "block_brings K F c rx s3 k" "bs_bit_offset s3 = 0" by auto
    let ?s = "s3\<lparr>bs_bit_offset := 0, bs_last_d := bs_last_d s3, bs_data := bs_data s3, bs_hdr := bs_hdr s3, bs_pack_seq := ?n - 1\<rparr>"
    have b: "block_brings K F c rx ?s k" by (rule block_brings_src [OF s3(4)]) simp_all
    have o: "src_ok K F c ?s" using s3(2) n by (simp add: src_ok_def)
    have k: "bk_rep_count k = 0" "gbx_seq_len (bk_gbx k) = None" using con by (simp_all add: consumed_def)
    have e: "ser_src_step K F c t True False (s, b) = Inr (?s,
        \<lparr>b_data = drive c (bs_data s3), b_data_valid = True, b_hdr = (if reverse_on c then bit_reverse 2 (bs_hdr s3) else bs_hdr s3),
          b_hdr_valid = True, b_gbx_sync = sync\<rparr>)"
      unfolding st if_not_P [OF new(1)] using new(2) s3(1,5) by (simp add: no_slip)
    show thesis by (rule that [OF e]) (use b o k n s3(3) ok2(2) in \<open>simp add: link_inv_def at_part_def bus_at_def consumed_def\<close>)
  qed
qed

text \<open>An edge, with both ends.\<close>

lemma link_cycle_inv:
  assumes cfg: "serdes_cfg_ok c" and inv: "link_inv K F c tx rx s b k"
  obtains s' b' k' where "link_cycle K F c t enable (s, b, k) = Inr (s', b', k')" "link_inv K F c tx rx s' b' k'"
proof -
  have i: "src_ok K F c s" "stream F (bs_lane s) = tx" "consumed K F c rx (at_part c s b) s k"
    "b_data_valid b \<longrightarrow> bus_at c (at_part c s b) s b" using inv by (simp_all add: link_inv_def)
  have p: "bs_pack_seq s < pack_cnt c" using i(1) by (simp add: src_ok_def)
  show thesis
  proof (cases enable)
    case False
    then obtain k' where k': "ser_sink_step K F c t enable (bus_in b) k = Inr k'" "consumed K F c rx (at_part c s b) s k'"
      using ser_sink_step_idle [OF i(3), where enable = enable and b = b] by blast
    define s1 where "s1 = s\<lparr>bs_clk_period := (if bs_last_clk s \<noteq> 0 then t - bs_last_clk s else bs_clk_period s), bs_last_clk := t\<rparr>"
    have s1: "bs_lane s1 = bs_lane s" "bs_data s1 = bs_data s" "bs_hdr s1 = bs_hdr s" "bs_scrambler s1 = bs_scrambler s"
      "bs_pack_seq s1 = bs_pack_seq s" "bs_opts s1 = bs_opts s" "bs_os s1 = bs_os s" "bs_bit_offset s1 = bs_bit_offset s"
      by (simp_all add: s1_def)
    have e: "ser_src_step K F c t enable False (s, b) = Inr (s1, b)" using False by (simp add: ser_src_step_def Let_def s1_def)
    have at: "at_part c s1 b = at_part c s b" by (simp only: at_part_def s1)
    have "consumed K F c rx (at_part c s b) s1 k'" by (rule consumed_src [OF k'(2)]) (simp_all only: s1)
    moreover have "bus_at c (at_part c s b) s1 b = bus_at c (at_part c s b) s b" "src_ok K F c s1 = src_ok K F c s"
      by (simp_all only: bus_at_def src_ok_def s1)
    ultimately have "link_inv K F c tx rx s1 b k'" using i by (simp only: link_inv_def at s1)
    then show thesis by (intro that [of s1 b k']) (simp_all add: link_cycle_def k'(1) e)
  next
    case True
    obtain k' where k': "ser_sink_step K F c t enable (bus_in b) k = Inr k'" "consumed K F c rx (pack_cnt c - bs_pack_seq s) s k'"
    proof (cases "b_data_valid b")
      case v: True
      from ser_sink_step_part [OF cfg i(3) v] i(4) v
      obtain k' where "ser_sink_step K F c t True (bus_in b) k = Inr k'" "consumed K F c rx (Suc (at_part c s b)) s k'" by blast
      moreover have "Suc (at_part c s b) = pack_cnt c - bs_pack_seq s" using v p by (simp add: at_part_def)
      ultimately show thesis using that True by simp
    next
      case v: False
      then obtain k' where "ser_sink_step K F c t enable (bus_in b) k = Inr k'" "consumed K F c rx (at_part c s b) s k'"
        using ser_sink_step_idle [OF i(3), where enable = enable and b = b] by blast
      then show thesis using that v by (simp add: at_part_def)
    qed
    from ser_src_step_next [OF cfg i(1) k'(2), where t = t and b = b]
    obtain s' b' where "ser_src_step K F c t True False (s, b) = Inr (s', b')" "link_inv K F c (stream F (bs_lane s)) rx s' b' k'" by blast
    then show thesis using that True k'(1) i(2) by (simp add: link_cycle_def)
  qed
qed

end

section \<open>Putting frames in and taking them out\<close>

lemma linked_src:
  "ls_done l' = ls_done l \<Longrightarrow> ls_frame l' = ls_frame l \<Longrightarrow> ls_offset l' = ls_offset l \<Longrightarrow> linked K rx l' = linked K rx l"
  by (simp add: linked_def fun_eq_iff split: option.splits)

lemma consumed_lane:
  assumes "consumed K F c rx m s k" "ls_done l = ls_done (bs_lane s)" "ls_frame l = ls_frame (bs_lane s)" "ls_offset l = ls_offset (bs_lane s)"
  shows "consumed K F c rx m (s\<lparr>bs_lane := l\<rparr>) k"
proof -
  have "bs_lane (s\<lparr>bs_lane := l\<rparr>) = l" "bs_data (s\<lparr>bs_lane := l\<rparr>) = bs_data s" "bs_hdr (s\<lparr>bs_lane := l\<rparr>) = bs_hdr s"
    "bs_scrambler (s\<lparr>bs_lane := l\<rparr>) = bs_scrambler s" by simp_all
  note eqs = this
  show ?thesis using assms(1) unfolding consumed_def block_brings_def eqs linked_src [OF assms(2-4)] assms(2) .
qed

text \<open>A sink whose oldest frame has been taken.\<close>

definition taken :: "xframe \<Rightarrow> lane_sink \<Rightarrow> lane_sink \<Rightarrow> bool" where
  "taken g l l' \<longleftrightarrow> lk_queue l = g # lk_queue l' \<and> lk_frame l' = lk_frame l \<and> lk_skip_cnt l' = lk_skip_cnt l \<and> lk_in_pre l' = lk_in_pre l"

lemma sink_char_taken: "taken g l l' \<Longrightarrow> taken g (sink_char K F t k d c l) (sink_char K F t k d c l')"
  by (auto simp: taken_def sink_char_def Let_def split: option.splits)

lemma sink_lanes_taken: "taken g l l' \<Longrightarrow> taken g (sink_lanes K F 0 t w l) (sink_lanes K F 0 t w l')"
proof -
  have "taken g (sink_lane K F 0 t w k l) (sink_lane K F 0 t w k l')" if "taken g l l'" for k l l'
    using that sink_char_taken [OF that] by (auto simp: sink_lane_def taken_def Let_def)
  then have "taken g (fold (sink_lane K F 0 t w) ks l) (fold (sink_lane K F 0 t w) ks l')" if "taken g l l'" for ks
    using that by (induction ks arbitrary: l l') auto
  then show "taken g l l' \<Longrightarrow> taken g (sink_lanes K F 0 t w l) (sink_lanes K F 0 t w l')" by (simp add: sink_lanes_def)
qed

lemma linked_taken: "taken g l l' \<Longrightarrow> linked K rx s l \<Longrightarrow> linked K (rx @ [x_data g]) s l'"
  by (auto simp: taken_def linked_def split: option.splits)

lemma consumed_taken:
  assumes "taken g (bk_lane k) l" "consumed K F c rx m s k"
  shows "consumed K F c (rx @ [x_data g]) m s (k\<lparr>bk_lane := l\<rparr>)"
proof -
  have ln: "linked K (rx @ [x_data g]) (bs_lane s) l" if "linked K rx (bs_lane s) (bk_lane k)" by (rule linked_taken [OF assms(1) that])
  have lns: "linked K (rx @ [x_data g]) (bs_lane s) (sink_lanes K F 0 t w l)" if "linked K rx (bs_lane s) (sink_lanes K F 0 t w (bk_lane k))" for t w
    by (rule linked_taken [OF sink_lanes_taken [OF assms(1)] that])
  have "length rx + length (lk_queue (bk_lane k)) = length (rx @ [x_data g]) + length (lk_queue l)" using assms(1) by (simp add: taken_def)
  moreover have "bk_lane (k\<lparr>bk_lane := l\<rparr>) = l" "bk_scrambler (k\<lparr>bk_lane := l\<rparr>) = bk_scrambler k" by simp_all
  ultimately have "block_brings K F c (rx @ [x_data g]) s (k\<lparr>bk_lane := l\<rparr>)" if "block_brings K F c rx s k"
    using that lns unfolding block_brings_def by (simp only:) blast
  then show ?thesis using assms(2) ln by (auto simp: consumed_def)
qed

lemma sink_lanes_prefix: "prefix (lk_queue l) (lk_queue (sink_lanes K F 0 t w l))"
proof -
  have c: "prefix (lk_queue l) (lk_queue (sink_char K F t k d c l))" for t k d c l
    by (auto simp: sink_char_def Let_def split: option.splits)
  have "prefix (lk_queue l) (lk_queue (sink_lane K F 0 t w k l))" for k l
    using c by (simp add: sink_lane_def Let_def)
  then have "prefix (lk_queue l) (lk_queue (fold (sink_lane K F 0 t w) ks l))" for ks
    by (induction ks arbitrary: l) (simp, metis fold_simps(2) prefix_order.trans)
  then show ?thesis by (simp add: sink_lanes_def)
qed

lemma consumed_plain: "consumed K F c rx m s k \<Longrightarrow> \<forall>f \<in> set (lk_queue (bk_lane k)). \<forall>c \<in> set (x_ctrl f). c = 0"
proof -
  assume con: "consumed K F c rx m s k"
  have plain: "linked K rx l lk \<Longrightarrow> \<forall>f \<in> set (lk_queue lk). \<forall>c \<in> set (x_ctrl f). c = 0" for l lk by (simp add: linked_def)
  show ?thesis
  proof (cases "m = pack_cnt c")
    case True
    then have "linked K rx (bs_lane s) (bk_lane k)" using con by (simp add: consumed_def)
    then show ?thesis by (rule plain)
  next
    case False
    then obtain w where "linked K rx (bs_lane s) (sink_lanes K F 0 (\<lambda>_. 0) w (bk_lane k))"
      using con unfolding consumed_def block_brings_def by auto
    from plain [OF this] show ?thesis using set_mono_prefix [OF sink_lanes_prefix [of "bk_lane k" K F "\<lambda>_. 0" w]] by blast
  qed
qed

lemma link_inv_recv:
  assumes laws: "frame_laws K F" and inv: "link_inv K F c tx rx s b k" and r: "recv_nowait F do_compact (bk_lane k) = Inr (f, l)"
  shows "link_inv K F c tx (rx @ [x_data f]) s b (k\<lparr>bk_lane := l\<rparr>)"
proof -
  obtain g rest where g: "lk_queue (bk_lane k) = g # rest" "f = (if do_compact then compact_frame F g else g)" "taken g (bk_lane k) l"
    using r by (auto simp: recv_nowait_def taken_def split: list.splits)
  have con: "consumed K F c rx (at_part c s b) s k" using inv by (simp add: link_inv_def)
  have "\<forall>c \<in> set (x_ctrl g). c = 0" using consumed_plain [OF con] g(1) by simp
  then have "x_data f = x_data g" using g(2) frame_laws.compact(1) [OF laws] by simp
  then show ?thesis using inv consumed_taken [OF g(3) con] by (simp add: link_inv_def)
qed

lemma link_inv_send:
  assumes inv: "link_inv K F c tx rx s b k" and g: "good_frame K (sent F f)" and l: "send_nowait (bs_opts s) f (bs_lane s) = Inr l"
  shows "link_inv K F c (tx @ [x_data (sent F f)]) rx (s\<lparr>bs_lane := l\<rparr>) b k"
proof -
  have l': "ls_queue l = ls_queue (bs_lane s) @ [f]" "ls_done l = ls_done (bs_lane s)" "ls_frame l = ls_frame (bs_lane s)"
    "ls_offset l = ls_offset (bs_lane s)" "ls_sof l = ls_sof (bs_lane s)" "ls_in_term l = ls_in_term (bs_lane s)" "ls_rep_cnt l = ls_rep_cnt (bs_lane s)"
    using l by (auto simp: send_nowait_def split: if_splits)
  have con: "consumed K F c rx (at_part c s b) s k" using inv by (simp add: link_inv_def)
  have "src_ok K F c (s\<lparr>bs_lane := l\<rparr>)" "stream F l = tx @ [x_data (sent F f)]"
    using inv g l' by (auto simp: link_inv_def src_ok_def lane_ok_def in_frame_def stream_def split: option.splits)
  moreover have "at_part c (s\<lparr>bs_lane := l\<rparr>) b = at_part c s b" "bus_at c (at_part c s b) (s\<lparr>bs_lane := l\<rparr>) b = bus_at c (at_part c s b) s b"
    by (simp_all add: at_part_def bus_at_def)
  ultimately show ?thesis using inv consumed_lane [OF con l'(2-4)] by (simp add: link_inv_def)
qed

lemma link_inv_init: "serdes_cfg_ok c \<Longrightarrow> src_start s \<Longrightarrow> link_inv K F c [] [] s bus_idle base_sink_new"
proof -
  assume cfg: "serdes_cfg_ok c" and s: "src_start s"
  have n: "0 < pack_cnt c" using cfg_widths [OF cfg] by simp
  have e: "s = base_src_new\<lparr>bs_opts := bs_opts s, bs_gbx := bs_gbx s\<rparr>" "xgmii_rep_count (bs_opts s) = 0" using s by (simp_all add: src_start_def)
  have f: "bs_lane s = lane_src_new" "bs_pack_seq s = 0" "bs_os s = None" "bs_bit_offset s = 0" "bs_scrambler s = 0"
    by (subst e(1), simp add: base_src_new_def)+
  show ?thesis using n e(2) f by (simp add: link_inv_def src_ok_def at_part_def consumed_def lane_ok_def stream_def linked_def bus_idle_def
      lane_src_new_def base_sink_new_def lane_sink_new_def gbx_new_def)
qed

lemma link_reach_inv:
  assumes "frame_laws K F" "serdes_cfg_ok c" "link_reach K F c tx rx x"
  shows "case x of (s, b, k) \<Rightarrow> link_inv K F c tx rx s b k"
  using assms(3)
proof induction
  case (Init s)
  then show ?case using link_inv_init [OF assms(2)] by simp
next
  case (Send tx rx s b k f l)
  then show ?case using link_inv_send [of K F c tx rx s b k f l] by simp
next
  case (Recv tx rx s b k do_compact f l)
  then show ?case using link_inv_recv [OF assms(1), of c tx rx s b k do_compact f l] by simp
next
  case (Cycle tx rx x t enable y)
  obtain s b k where x: "x = (s, b, k)" by (cases x)
  from frame_laws.link_cycle_inv [OF assms(1,2), of tx rx s b k t enable] Cycle x show ?case by force
qed

lemma consumed_delivers:
  assumes "consumed K F c rx m s k"
  shows "prefix (rx @ map x_data (lk_queue (bk_lane k))) (map x_data (ls_done (bs_lane s))) \<and>
    length (ls_done (bs_lane s)) \<le> Suc (length rx + length (lk_queue (bk_lane k))) \<and>
    (m = pack_cnt c \<longrightarrow> rx @ map x_data (lk_queue (bk_lane k)) = map x_data (ls_done (bs_lane s)))"
proof (cases "m = pack_cnt c")
  case True
  then have ln: "linked K rx (bs_lane s) (bk_lane k)" using assms by (simp add: consumed_def)
  then have "rx @ map x_data (lk_queue (bk_lane k)) = map x_data (ls_done (bs_lane s))" by (simp add: linked_def)
  moreover from this have "length rx + length (lk_queue (bk_lane k)) = length (ls_done (bs_lane s))" by (metis length_append length_map)
  ultimately show ?thesis by simp
next
  case False
  then obtain w where w: "linked K rx (bs_lane s) (sink_lanes K F 0 (\<lambda>_. 0) w (bk_lane k))"
    and lag: "length (ls_done (bs_lane s)) \<le> Suc (length rx + length (lk_queue (bk_lane k)))"
    using assms unfolding consumed_def block_brings_def by auto
  have "prefix (lk_queue (bk_lane k)) (lk_queue (sink_lanes K F 0 (\<lambda>_. 0) w (bk_lane k)))" by (rule sink_lanes_prefix)
  then have "prefix (rx @ map x_data (lk_queue (bk_lane k))) (rx @ map x_data (lk_queue (sink_lanes K F 0 (\<lambda>_. 0) w (bk_lane k))))"
    by (simp add: map_mono_prefix)
  moreover have "rx @ map x_data (lk_queue (sink_lanes K F 0 (\<lambda>_. 0) w (bk_lane k))) = map x_data (ls_done (bs_lane s))"
    using w by (simp add: linked_def)
  ultimately show ?thesis using False lag by simp
qed

text \<open>C1: The serial link end to end.  A source with any options (without half word repetition) and
  any gearbox, and a sink, with the same width (1, 2, 4 or 8 bytes), scrambling and bit order, on the
  same clock and clock enable; frames of at least eight bytes are put in and taken out at any time.
  Then no edge ever raises; the frames that arrive are those sent, in order and with their data; at
  most one completed frame is still under way; and none is when the source's last block has been
  output and the bus is not valid.\<close>

theorem serial_link_delivers:
  assumes "frame_laws K F" "serdes_cfg_ok c" "link_reach K F c tx rx (s, b, k)"
  shows "(\<exists>y. link_cycle K F c t enable (s, b, k) = Inr y) \<and>
    prefix (rx @ map x_data (lk_queue (bk_lane k))) tx \<and>
    length (ls_done (bs_lane s)) \<le> Suc (length rx + length (lk_queue (bk_lane k))) \<and>
    (bs_pack_seq s = 0 \<and> \<not> b_data_valid b \<longrightarrow> rx @ map x_data (lk_queue (bk_lane k)) = map x_data (ls_done (bs_lane s)))"
proof -
  have inv: "link_inv K F c tx rx s b k" using link_reach_inv [OF assms] by simp
  then have con: "consumed K F c rx (at_part c s b) s k" "stream F (bs_lane s) = tx" by (simp_all add: link_inv_def)
  have "prefix (map x_data (ls_done (bs_lane s))) tx" using con(2) by (auto simp: stream_def)
  moreover have "\<exists>y. link_cycle K F c t enable (s, b, k) = Inr y"
    using frame_laws.link_cycle_inv [OF assms(1,2) inv, of t enable] by blast
  ultimately show ?thesis using consumed_delivers [OF con(1)] by (auto simp: at_part_def intro: prefix_order.trans)
qed

section \<open>Frames as documented\<close>

text \<open>A frame class after the documentation of \<open>cocotbext.eth\<close>: the control list is filled
  up by \<open>normalize\<close>, and dropped by \<open>compact\<close> when it marks nothing.\<close>

definition xgmii_frames :: frame_class where
  "xgmii_frames = \<lparr>
     make_frame = (\<lambda>d c. \<lparr>x_data = d, x_ctrl = c, x_start_lane = 0, x_time_start = None, x_time_sfd = None, x_time_end = None\<rparr>),
     normalize_frame = (\<lambda>f. f\<lparr>x_ctrl := (let n = length (x_data f); c = x_ctrl f in
        if c = [] then replicate n 0 else take n c @ replicate (n - length c) (last c))\<rparr>),
     compact_frame = (\<lambda>f. if \<forall>c \<in> set (x_ctrl f). c = 0 then f\<lparr>x_ctrl := []\<rparr> else f)\<rparr>"

interpretation xf: frame_laws ieee xgmii_frames
  by unfold_locales (auto simp: ieee_ok xgmii_frames_def)

definition link_cfg :: serdes_cfg where "link_cfg = \<lparr>byte_lanes_of = 4, scramble_on = True, reverse_on = True\<rparr>"
definition link_frame :: xframe where
  "link_frame = make_frame xgmii_frames [0x55, 0x55, 0x55, 0x55, 0x55, 0x55, 0x55, 0xd5, 1, 2, 3, 4] []"

definition link_src :: base_src where
  "link_src = base_src_new\<lparr>bs_lane := lane_src_new\<lparr>ls_queue := [link_frame], ls_idle_event := False, ls_occ_bytes := 12, ls_occ_frames := 1\<rparr>\<rparr>"

lemma serial_link_delivers_witness:
  "link_reach ieee xgmii_frames link_cfg [[0x55, 0x55, 0x55, 0x55, 0x55, 0x55, 0x55, 0xd5, 1, 2, 3, 4]] [] (link_src, bus_idle, base_sink_new) \<and>
   (\<exists>y. link_cycle ieee xgmii_frames link_cfg 10 True (link_src, bus_idle, base_sink_new) = Inr y) \<and>
   map x_data (lk_queue (bk_lane base_sink_new)) = map x_data (ls_done (bs_lane link_src))"
proof -
  have i: "src_start base_src_new" by (simp add: src_start_def base_src_new_def)
  have sn: "send_nowait (bs_opts base_src_new) link_frame (bs_lane base_src_new) = Inr (bs_lane link_src)"
    by (simp add: send_nowait_def src_full_def base_src_new_def lane_src_new_def frame_len_def link_frame_def xgmii_frames_def link_src_def)
  have g: "good_frame ieee (sent xgmii_frames link_frame)"
    by (simp add: good_frame_def sent_def link_frame_def xgmii_frames_def ieee_def Let_def numeral_eq_Suc)
  have d: "x_data (sent xgmii_frames link_frame) = [0x55, 0x55, 0x55, 0x55, 0x55, 0x55, 0x55, 0xd5, 1, 2, 3, 4]"
    by (simp add: sent_def link_frame_def xgmii_frames_def)
  have c: "serdes_cfg_ok link_cfg" by (simp add: serdes_cfg_ok_def link_cfg_def)
  have e: "base_src_new\<lparr>bs_lane := bs_lane link_src\<rparr> = link_src" by (simp add: link_src_def base_src_new_def)
  from link_reach.Send [OF link_reach.Init [OF i] g sn]
  have r: "link_reach ieee xgmii_frames link_cfg [[0x55, 0x55, 0x55, 0x55, 0x55, 0x55, 0x55, 0xd5, 1, 2, 3, 4]] []
      (link_src, bus_idle, base_sink_new)" by (simp add: d e)
  have z: "bs_pack_seq link_src = 0" "\<not> b_data_valid bus_idle" by (simp_all add: link_src_def base_src_new_def bus_idle_def)
  from serial_link_delivers [OF xf.frame_laws_axioms c r, of 10 True] r z show ?thesis by simp
qed

end
