(* ===== verification/Structs.thy ===== *)
theory Structs imports Prelude begin

text \<open>
  The part of Python's \<open>struct\<close> module that the network drivers use: little-endian formats of
  unsigned 16, 32 and 64 bit fields and padding, packed into and unpacked from bytes.
\<close>

section \<open>Formats\<close>

text \<open>The letters \<open>H\<close>, \<open>L\<close>, \<open>Q\<close>, and a run of \<open>x\<close>.\<close>

datatype fld = FH | FL | FQ | FX nat

fun fld_size :: "fld \<Rightarrow> nat" where
  "fld_size FH = 2"
| "fld_size FL = 4"
| "fld_size FQ = 8"
| "fld_size (FX n) = n"

fun takes_value :: "fld \<Rightarrow> bool" where
  "takes_value (FX _) = False"
| "takes_value _ = True"

definition fmt_size :: "fld list \<Rightarrow> nat" where "fmt_size fs = sum_list (map fld_size fs)"

definition fmt_args :: "fld list \<Rightarrow> nat" where "fmt_args fs = length (filter takes_value fs)"

fun pack_flds :: "fld list \<Rightarrow> int list \<Rightarrow> bytes result" where
  "pack_flds [] _ = Inr []"
| "pack_flds (FX n # fs) vs = rbind (pack_flds fs vs) (\<lambda>b. Inr (replicate n 0 @ b))"
| "pack_flds (f # fs) (v # vs) =
     (if 0 \<le> v \<and> v < 256 ^ fld_size f then rbind (pack_flds fs vs) (\<lambda>b. Inr (le_bytes (fld_size f) v @ b)) else Inl StructError)"
| "pack_flds (f # fs) [] = Inl StructError"

definition struct_pack :: "fld list \<Rightarrow> int list \<Rightarrow> bytes result" where
  "struct_pack fs vs = (if length vs \<noteq> fmt_args fs then Inl StructError else pack_flds fs vs)"

fun unpack_flds :: "fld list \<Rightarrow> bytes \<Rightarrow> int list" where
  "unpack_flds [] _ = []"
| "unpack_flds (f # fs) b =
     (if takes_value f then le_int (take (fld_size f) b) # unpack_flds fs (drop (fld_size f) b)
      else unpack_flds fs (drop (fld_size f) b))"

definition struct_unpack :: "fld list \<Rightarrow> bytes \<Rightarrow> int list result" where
  "struct_unpack fs b = (if length b \<noteq> fmt_size fs then Inl StructError else Inr (unpack_flds fs b))"

text \<open>\<open>unpack_from\<close> and \<open>pack_into\<close> at an offset that is not negative.\<close>

definition unpack_from :: "fld list \<Rightarrow> bytes \<Rightarrow> nat \<Rightarrow> int list result" where
  "unpack_from fs b off = (if length b < off + fmt_size fs then Inl StructError else Inr (unpack_flds fs (drop off b)))"

definition pack_into :: "fld list \<Rightarrow> bytes \<Rightarrow> nat \<Rightarrow> int list \<Rightarrow> bytes result" where
  "pack_into fs b off vs =
     (if length vs \<noteq> fmt_args fs \<or> length b < off + fmt_size fs then Inl StructError
      else rbind (pack_flds fs vs) (\<lambda>p. Inr (take off b @ p @ drop (off + fmt_size fs) b)))"

section \<open>Round trips\<close>

definition fits_fmt :: "fld list \<Rightarrow> int list \<Rightarrow> bool" where
  "fits_fmt fs vs \<longleftrightarrow> list_all2 (\<lambda>f v. 0 \<le> v \<and> v < 256 ^ fld_size f) (filter takes_value fs) vs"

lemma fmt_size_simps [simp]: "fmt_size [] = 0" "fmt_size (f # fs) = fld_size f + fmt_size fs"
  by (simp_all add: fmt_size_def)

lemma fmt_args_simps [simp]: "fmt_args [] = 0" "fmt_args (f # fs) = (if takes_value f then 1 else 0) + fmt_args fs"
  by (simp_all add: fmt_args_def)

lemma fits_fmt_simps [simp]:
  "fits_fmt [] vs \<longleftrightarrow> vs = []"
  "fits_fmt (FX n # fs) vs \<longleftrightarrow> fits_fmt fs vs"
  "takes_value f \<Longrightarrow> fits_fmt (f # fs) vs \<longleftrightarrow> (\<exists>v ws. vs = v # ws \<and> 0 \<le> v \<and> v < 256 ^ fld_size f \<and> fits_fmt fs ws)"
  by (auto simp: fits_fmt_def list_all2_Cons1)

lemma pack_cases:
  "pack_flds fs vs = (if fits_fmt fs (take (fmt_args fs) vs) then pack_flds fs vs else Inl StructError)"
proof (induction fs vs rule: pack_flds.induct [case_names Nil Pad H L Q H_none L_none Q_none])
  case (Pad n fs vs)
  then show ?case by (cases "fits_fmt fs (take (fmt_args fs) vs)") auto
next
  case (H fs v vs)
  then show ?case by (auto split: if_splits)
next
  case (L fs v vs)
  then show ?case by (auto split: if_splits)
next
  case (Q fs v vs)
  then show ?case by (auto split: if_splits)
qed auto

lemma unpack_take: "unpack_flds fs (take (fmt_size fs) b) = unpack_flds fs b"
proof (induction fs arbitrary: b)
  case (Cons f fs)
  have "unpack_flds fs (drop (fld_size f) (take (fld_size f + fmt_size fs) b)) = unpack_flds fs (drop (fld_size f) b)"
    using Cons.IH [of "drop (fld_size f) b"] by (simp add: take_drop [symmetric] drop_take)
  then show ?case by simp
qed simp

lemma pack_ok:
  assumes "fits_fmt fs vs"
  shows "\<exists>b. pack_flds fs vs = Inr b \<and> length b = fmt_size fs \<and> is_bytes b \<and> (\<forall>r. unpack_flds fs (b @ r) = vs)"
  using assms
proof (induction fs vs rule: pack_flds.induct [case_names Nil Pad H L Q H_none L_none Q_none])
  case (Pad n fs vs)
  then obtain b where "pack_flds fs vs = Inr b" "length b = fmt_size fs" "is_bytes b" "\<forall>r. unpack_flds fs (b @ r) = vs" by auto
  moreover have "is_bytes (replicate n 0)" by (induction n) simp_all
  ultimately show ?case by simp
next
  case (H fs v vs)
  then obtain b where "pack_flds fs vs = Inr b" "length b = fmt_size fs" "is_bytes b" "\<forall>r. unpack_flds fs (b @ r) = vs" by auto
  then show ?case using H le_int_le_bytes [of v 2] by (simp add: le_bytes_facts le_bytes_is_bytes)
next
  case (L fs v vs)
  then obtain b where "pack_flds fs vs = Inr b" "length b = fmt_size fs" "is_bytes b" "\<forall>r. unpack_flds fs (b @ r) = vs" by auto
  then show ?case using L le_int_le_bytes [of v 4] by (simp add: le_bytes_facts le_bytes_is_bytes)
next
  case (Q fs v vs)
  then obtain b where "pack_flds fs vs = Inr b" "length b = fmt_size fs" "is_bytes b" "\<forall>r. unpack_flds fs (b @ r) = vs" by auto
  then show ?case using Q le_int_le_bytes [of v 8] by (simp add: le_bytes_facts le_bytes_is_bytes)
qed auto

lemma fits_fmt_length: "fits_fmt fs vs \<Longrightarrow> length vs = fmt_args fs"
  by (auto simp: fits_fmt_def fmt_args_def dest: list_all2_lengthD)

lemma struct_pack_iff: "struct_pack fs vs = (if fits_fmt fs vs then pack_flds fs vs else Inl StructError)"
  using pack_cases [of fs vs] fits_fmt_length [of fs vs] by (auto simp: struct_pack_def)

lemma struct_pack_unpack: "struct_pack fs vs = Inr b \<Longrightarrow> fits_fmt fs vs \<and> length b = fmt_size fs \<and> is_bytes b \<and> struct_unpack fs b = Inr vs"
proof -
  assume h: "struct_pack fs vs = Inr b"
  then have f: "fits_fmt fs vs" by (simp add: struct_pack_iff split: if_splits)
  then obtain b' where b': "pack_flds fs vs = Inr b'" "length b' = fmt_size fs" "is_bytes b'" "unpack_flds fs (b' @ []) = vs"
    using pack_ok [OF f] by blast
  then show ?thesis using h f by (simp add: struct_pack_iff struct_unpack_def)
qed

lemma struct_pack_total: "fits_fmt fs vs \<Longrightarrow> \<exists>b. struct_pack fs vs = Inr b"
  using pack_ok [of fs vs] by (auto simp: struct_pack_iff)

text \<open>A structure in the middle of a buffer: written there, read back, and nothing else changed.\<close>

lemma pack_into_ok:
  assumes f: "fits_fmt fs vs" and len: "off + fmt_size fs \<le> length b"
  obtains b' where "pack_into fs b off vs = Inr b'" "length b' = length b" "unpack_from fs b' off = Inr vs"
    "\<And>gs o2. o2 + fmt_size gs \<le> off \<or> off + fmt_size fs \<le> o2 \<Longrightarrow> unpack_from gs b' o2 = unpack_from gs b o2"
proof -
  from pack_ok [OF f] obtain p where p: "pack_flds fs vs = Inr p" "length p = fmt_size fs" "\<And>r. unpack_flds fs (p @ r) = vs" by blast
  let ?b = "take off b @ p @ drop (off + fmt_size fs) b"
  have l: "length ?b = length b" using len p(2) by simp
  have far: "unpack_from gs ?b o2 = unpack_from gs b o2" if h: "o2 + fmt_size gs \<le> off \<or> off + fmt_size fs \<le> o2" for gs o2
  proof (cases "off + fmt_size fs \<le> o2")
    case True
    then obtain d where o2: "o2 = off + fmt_size fs + d" using le_Suc_ex by blast
    have "drop o2 ?b = drop o2 b" using len p(2) by (simp add: o2 add.commute)
    then show ?thesis using l by (simp add: unpack_from_def)
  next
    case False
    then have h: "o2 + fmt_size gs \<le> off" using h by simp
    have "unpack_flds gs (drop o2 ?b) = unpack_flds gs (take (fmt_size gs) (drop o2 ?b))" by (rule unpack_take [symmetric])
    also have "take (fmt_size gs) (drop o2 ?b) = take (fmt_size gs) (drop o2 b)" using h len by (auto simp: drop_take min_def)
    also have "unpack_flds gs \<dots> = unpack_flds gs (drop o2 b)" by (rule unpack_take)
    finally show ?thesis using l by (simp add: unpack_from_def)
  qed
  have "pack_into fs b off vs = Inr ?b" using p(1) len fits_fmt_length [OF f] by (simp add: pack_into_def)
  moreover have "unpack_from fs ?b off = Inr vs" using l len p by (simp add: unpack_from_def)
  ultimately show thesis using that l far by blast
qed

lemma pack_into_total: "fits_fmt fs vs \<Longrightarrow> off + fmt_size fs \<le> length b \<Longrightarrow> \<exists>b'. pack_into fs b off vs = Inr b'"
  using pack_ok [of fs vs] fits_fmt_length [of fs vs] by (auto simp: pack_into_def)

end
