(* ===== verification/NicRing.thy ===== *)
theory NicRing imports Structs begin

text \<open>
  What the two network driver models share (\<open>src/cndm_proto/tb/cndm_proto.py\<close> and
  \<open>src/cndm/tb/cndm.py\<close>): the pool of packet buffers, the descriptor rings and the completion
  queues with their phase bit.  Memory regions and DMA are those of \<open>cocotbext.pcie\<close> and
  parameters.
\<close>

section \<open>Memory regions and packet buffers\<close>

text \<open>A region is named by a number; a new one depends on those that exist.  A write and a read at an
  offset, what \<open>region[:n]\<close> gives, and the accesses of the device at an address.\<close>

record mem_env =
  new_region :: "nat list \<Rightarrow> nat"
  region_addr :: "nat \<Rightarrow> int"
  region_size :: "nat \<Rightarrow> int"
  region_write :: "nat \<Rightarrow> int \<Rightarrow> bytes \<Rightarrow> bytes \<Rightarrow> bytes result"
  region_head :: "int \<Rightarrow> bytes \<Rightarrow> bytes"
  dma_read :: "(nat \<Rightarrow> bytes) \<Rightarrow> int \<Rightarrow> int \<Rightarrow> bytes"
  dma_write :: "int \<Rightarrow> bytes \<Rightarrow> (nat \<Rightarrow> bytes) \<Rightarrow> nat \<Rightarrow> bytes"

record pkts =
  free_packets :: "nat list"
  allocated_packets :: "nat list"
  pkt_mem :: "nat \<Rightarrow> bytes"

definition alloc_pkt :: "mem_env \<Rightarrow> pkts \<Rightarrow> nat \<times> pkts" where
  "alloc_pkt E p =
     (case free_packets p of
        k # rest \<Rightarrow> (k, p\<lparr>free_packets := rest\<rparr>)
      | [] \<Rightarrow> let k = new_region E (allocated_packets p) in (k, p\<lparr>allocated_packets := allocated_packets p @ [k]\<rparr>))"

definition free_pkt :: "nat option \<Rightarrow> pkts \<Rightarrow> pkts result" where
  "free_pkt pkt p =
     (case pkt of
        None \<Rightarrow> Inl AssertionError
      | Some k \<Rightarrow> if k \<in> set (allocated_packets p) then Inr (p\<lparr>free_packets := free_packets p @ [k]\<rparr>) else Inl AssertionError)"

section \<open>Descriptor rings\<close>

record ring =
  q_log :: nat
  q_prod :: nat
  q_cons :: nat
  q_info :: "nat option list"
  q_buf :: bytes

definition q_size :: "ring \<Rightarrow> nat" where "q_size r = 2 ^ q_log r"

definition ring_idx :: "nat \<Rightarrow> nat \<Rightarrow> nat" where "ring_idx lg ptr = ptr AND (2 ^ lg - 1)"

definition ring_new :: "nat \<Rightarrow> ring" where
  "ring_new lg = \<lparr>q_log = lg, q_prod = 0, q_cons = 0, q_info = replicate (2 ^ lg) None, q_buf = replicate (2 ^ lg * 16) 0\<rparr>"

definition is_ring_empty :: "ring \<Rightarrow> bool" where "is_ring_empty r \<longleftrightarrow> q_prod r = q_cons r"

definition is_ring_full :: "ring \<Rightarrow> bool" where
  "is_ring_full r \<longleftrightarrow> (int (q_prod r) - int (q_cons r)) AND 0xffffffff > int (q_size r)"

definition desc_fmt :: "fld list" where "desc_fmt = [FX 4, FL, FQ]"

definition start_xmit_ring :: "mem_env \<Rightarrow> bytes \<Rightarrow> ring \<times> pkts \<Rightarrow> (ring \<times> pkts) result" where
  "start_xmit_ring E data = (\<lambda>(r, p).
     let (k, p1) = alloc_pkt E p in
     rbind (region_write E k 10 data (pkt_mem p1 k)) (\<lambda>m.
     let p2 = p1\<lparr>pkt_mem := (pkt_mem p1)(k := m)\<rparr>; i = ring_idx (q_log r) (q_prod r) in
     rbind (pack_into desc_fmt (q_buf r) (16 * i) [int (length data), region_addr E k + 10]) (\<lambda>b.
     rbind (py_set (q_info r) (int i) (Some k)) (\<lambda>info.
     Inr (r\<lparr>q_buf := b, q_info := info, q_prod := q_prod r + 1\<rparr>, p2)))))"

definition free_desc :: "nat \<Rightarrow> ring \<times> pkts \<Rightarrow> (ring \<times> pkts) result" where
  "free_desc i = (\<lambda>(r, p).
     rbind (py_get (q_info r) (int i)) (\<lambda>pkt.
     rbind (free_pkt pkt p) (\<lambda>p'.
     rbind (py_set (q_info r) (int i) None) (\<lambda>info. Inr (r\<lparr>q_info := info\<rparr>, p')))))"

definition prepare_rx_desc :: "mem_env \<Rightarrow> nat \<Rightarrow> ring \<times> pkts \<Rightarrow> (ring \<times> pkts) result" where
  "prepare_rx_desc E i = (\<lambda>(r, p).
     let (k, p1) = alloc_pkt E p in
     rbind (py_set (q_info r) (int i) (Some k)) (\<lambda>info.
     rbind (pack_into desc_fmt (q_buf r) (16 * i) [region_size E k, region_addr E k]) (\<lambda>b.
     Inr (r\<lparr>q_buf := b, q_info := info\<rparr>, p1))))"

text \<open>The refill of a receive ring; the flag says that the doorbell is written.\<close>

definition refill_rx :: "mem_env \<Rightarrow> ring \<times> pkts \<Rightarrow> (bool \<times> ring \<times> pkts) result" where
  "refill_rx E = (\<lambda>(r, p).
     let missing = int (q_size r) - (int (q_prod r) - int (q_cons r)) in
     if missing < 8 then Inr (False, r, p)
     else rbind (rfold (\<lambda>_ (r, p). rbind (prepare_rx_desc E (ring_idx (q_log r) (q_prod r)) (r, p))
                 (\<lambda>(r, p). Inr (r\<lparr>q_prod := q_prod r + 1\<rparr>, p))) [0..<nat missing] (r, p)) (\<lambda>(r, p). Inr (True, r, p)))"

section \<open>Completion queues\<close>

record cring =
  c_log :: nat
  c_cons :: nat
  c_buf :: bytes

definition cring_new :: "nat \<Rightarrow> cring" where
  "cring_new lg = \<lparr>c_log = lg, c_cons = 0, c_buf = replicate (2 ^ lg * 16) 0\<rparr>"

definition cpl_fmt :: "fld list" where "cpl_fmt = [FL, FL, FL, FL]"

text \<open>The phase bit of the last word says whether the entry has been written in this lap.\<close>

definition entry_new :: "nat \<Rightarrow> nat \<Rightarrow> int list \<Rightarrow> bool" where
  "entry_new lg ptr e \<longleftrightarrow> (last e AND 0x80000000 \<noteq> 0) \<noteq> (ptr AND 2 ^ lg \<noteq> 0)"

text \<open>The entry at a pointer, when it is new.\<close>

definition new_entry :: "fld list \<Rightarrow> nat \<Rightarrow> bytes \<Rightarrow> nat \<Rightarrow> int list option" where
  "new_entry fmt lg buf ptr =
     (case unpack_from fmt buf (ring_idx lg ptr * 16) of Inl _ \<Rightarrow> None | Inr e \<Rightarrow> if entry_new lg ptr e then Some e else None)"

lemma ring_idx_mod: "ring_idx lg ptr = ptr mod 2 ^ lg"
  unfolding ring_idx_def mask_eq_exp_minus_1 [symmetric] take_bit_eq_mask [symmetric] take_bit_eq_mod ..

lemma phase_bit: "(ptr :: nat) AND 2 ^ lg \<noteq> 0 \<longleftrightarrow> bit ptr lg"
  using and_exp_eq_0_iff_not_bit [of ptr lg] by simp

lemma phase_flips: "bit (ptr + 2 ^ lg :: nat) lg \<longleftrightarrow> \<not> bit ptr lg"
proof -
  have "(ptr + 2 ^ lg) div 2 ^ lg = ptr div 2 ^ lg + 1" by (rule div_add_self2) simp
  then show ?thesis by (simp add: bit_iff_odd)
qed

lemma entry_new_flips: "entry_new lg (ptr + 2 ^ lg) e \<longleftrightarrow> \<not> entry_new lg ptr e"
  unfolding entry_new_def phase_bit phase_flips by blast

lemma new_entry_flips: "new_entry fmt lg buf ptr \<noteq> None \<Longrightarrow> new_entry fmt lg buf (ptr + 2 ^ lg) = None"
  by (auto simp: new_entry_def entry_new_flips ring_idx_mod split: sum.splits if_splits)

lemma some_old: "\<exists>n. new_entry fmt lg buf (ptr + n) = None"
  using new_entry_flips [of fmt lg buf ptr] by (metis add_0_right)

lemma rbind_cong [fundef_cong]:
  "m = m' \<Longrightarrow> (\<And>x. m' = Inr x \<Longrightarrow> f x = g x) \<Longrightarrow> rbind m f = rbind m' g"
  by (cases m') auto

text \<open>The loop over a completion or event queue: at every entry that is new the body runs; the loop
  ends at the first that is not.  It gives the pointer where it ended.\<close>

function cq_loop :: "fld list \<Rightarrow> (int list \<Rightarrow> 's \<Rightarrow> 's result) \<Rightarrow> nat \<Rightarrow> bytes \<Rightarrow> nat \<Rightarrow> 's \<Rightarrow> (nat \<times> 's) result" where
  "cq_loop fmt body lg buf ptr s =
     rbind (unpack_from fmt buf (ring_idx lg ptr * 16)) (\<lambda>e.
     if \<not> entry_new lg ptr e then Inr (ptr, s)
     else rbind (body e s) (\<lambda>s'. cq_loop fmt body lg buf (ptr + 1) s'))"
  by auto

termination
proof (relation "measure (\<lambda>(fmt, body, lg, buf, ptr, s). LEAST n. new_entry fmt lg buf (ptr + n) = None)")
  fix fmt :: "fld list" and body :: "int list \<Rightarrow> 's \<Rightarrow> 's result" and lg buf ptr and s s' :: 's and e
  assume "unpack_from fmt buf (ring_idx lg ptr * 16) = Inr e" "\<not> \<not> entry_new lg ptr e"
  then have n: "new_entry fmt lg buf (ptr + 0) \<noteq> None" by (simp add: new_entry_def)
  define P where "P n \<longleftrightarrow> new_entry fmt lg buf (ptr + n) = None" for n
  obtain k where k: "P k" using some_old [of fmt lg buf ptr] by (auto simp: P_def)
  have "\<not> P 0" using n by (simp add: P_def)
  then have "(LEAST n. P n) = Suc (LEAST n. P (Suc n))" by (rule Least_Suc [where P = P, OF k])
  then show "((fmt, body, lg, buf, ptr + 1, s'), fmt, body, lg, buf, ptr, s)
      \<in> measure (\<lambda>(fmt, body, lg, buf, ptr, s). LEAST n. new_entry fmt lg buf (ptr + n) = None)"
    by (simp add: P_def)
qed simp

declare cq_loop.simps [simp del]

text \<open>\<open>process_tx_cq\<close> and \<open>process_rx_cq\<close>: the pointers are stored at the end.\<close>

definition tx_body :: "int list \<Rightarrow> nat \<times> ring \<times> pkts \<Rightarrow> (nat \<times> ring \<times> pkts) result" where
  "tx_body e = (\<lambda>(cons, r, p).
     rbind (py_get (q_info r) (int (ring_idx (q_log r) cons))) (\<lambda>_.
     rbind (free_desc (ring_idx (q_log r) cons) (r, p)) (\<lambda>(r', p'). Inr (cons + 1, r', p'))))"

definition process_tx_ring :: "cring \<times> ring \<times> pkts \<Rightarrow> (cring \<times> ring \<times> pkts) result" where
  "process_tx_ring = (\<lambda>(c, r, p).
     rbind (cq_loop cpl_fmt tx_body (c_log c) (c_buf c) (c_cons c) (q_cons r, r, p)) (\<lambda>(cp, cons, r', p').
     Inr (c\<lparr>c_cons := cp\<rparr>, r'\<lparr>q_cons := cons\<rparr>, p')))"

definition rx_body :: "mem_env \<Rightarrow> int list \<Rightarrow> nat \<times> ring \<times> pkts \<times> bytes list \<Rightarrow> (nat \<times> ring \<times> pkts \<times> bytes list) result" where
  "rx_body E e = (\<lambda>(cons, r, p, rx).
     rbind (py_get (q_info r) (int (ring_idx (q_log r) cons))) (\<lambda>pkt. case pkt of None \<Rightarrow> Inl TypeError
     | Some k \<Rightarrow> let data = region_head E (e ! 1) (pkt_mem p k) in
         rbind (free_desc (ring_idx (q_log r) cons) (r, p)) (\<lambda>(r', p'). Inr (cons + 1, r', p', rx @ [data]))))"

definition process_rx_ring :: "mem_env \<Rightarrow> cring \<times> ring \<times> pkts \<times> bytes list \<Rightarrow> (cring \<times> ring \<times> pkts \<times> bytes list) result" where
  "process_rx_ring E = (\<lambda>(c, r, p, rx).
     rbind (cq_loop cpl_fmt (rx_body E) (c_log c) (c_buf c) (c_cons c) (q_cons r, r, p, rx)) (\<lambda>(cp, cons, r', p', rx').
     Inr (c\<lparr>c_cons := cp\<rparr>, r'\<lparr>q_cons := cons\<rparr>, p', rx')))"

lemma free_desc_Inr:
  assumes "free_desc i (r, p) = Inr (r', p')"
  obtains k where "i < length (q_info r)" "q_info r ! i = Some k" "k \<in> set (allocated_packets p)"
    "r' = r\<lparr>q_info := (q_info r)[i := None]\<rparr>" "p' = p\<lparr>free_packets := free_packets p @ [k]\<rparr>"
proof -
  have i: "i < length (q_info r)" using assms by (auto simp: free_desc_def py_get_def py_idx_def rbind_Inr_iff split: if_splits)
  then show thesis using assms that by (auto simp: free_desc_def free_pkt_def rbind_Inr_iff split: option.splits if_splits)
qed

lemma filter_update_less: "i < length xs \<Longrightarrow> P (xs ! i) \<Longrightarrow> \<not> P y \<Longrightarrow> length (filter P (xs[i := y])) < length (filter P xs)"
  by (simp add: upd_conv_take_nth_drop) (subst (3) id_take_nth_drop [of i xs], simp, simp)

text \<open>\<open>free_tx_buf\<close> and \<open>free_rx_buf\<close>.\<close>

function free_ring_buf :: "ring \<times> pkts \<Rightarrow> (ring \<times> pkts) result" where
  "free_ring_buf (r, p) =
     (if is_ring_empty r then Inr (r, p)
      else rbind (free_desc (ring_idx (q_log r) (q_cons r)) (r, p)) (\<lambda>(r', p'). free_ring_buf (r'\<lparr>q_cons := q_cons r' + 1\<rparr>, p')))"
  by pat_completeness auto

termination
proof (relation "measure (\<lambda>(r, p). length (filter (\<lambda>x. x \<noteq> None) (q_info r)))")
  fix r p x r' p'
  assume "free_desc (ring_idx (q_log r) (q_cons r)) (r, p) = Inr x" "(r', p') = x"
  then obtain i k where i: "i < length (q_info r)" "q_info r ! i = Some k" "r' = r\<lparr>q_info := (q_info r)[i := None]\<rparr>"
    by (metis free_desc_Inr)
  have "length (filter (\<lambda>x. x \<noteq> None) ((q_info r)[i := None])) < length (filter (\<lambda>x. x \<noteq> None) (q_info r))"
    using i(1,2) by (simp add: filter_update_less)
  then show "((r'\<lparr>q_cons := q_cons r' + 1\<rparr>, p'), r, p) \<in> measure (\<lambda>(r, p). length (filter (\<lambda>x. x \<noteq> None) (q_info r)))"
    using i(3) by simp
qed simp

end
