(* ===== verification/NicOwn.thy ===== *)
theory NicOwn imports NicRing "HOL-Library.Multiset" begin

text \<open>
  Ownership of the packet buffers: a descriptor ring as the list of the buffers posted in it, the
  pool with the buffers that rings hold, and the completion queue as the window of entries that the
  device has written and the driver has not read.
\<close>

section \<open>Interface to the memory\<close>

locale dma_memory =
  fixes E :: mem_env and cap :: nat
  assumes fresh: "length ks < cap \<Longrightarrow> new_region E ks < cap \<and> new_region E ks \<notin> set ks"
    and addr: "k < cap \<Longrightarrow> 0 \<le> region_addr E k \<and> region_addr E k + region_size E k \<le> 2 ^ 64 \<and> 10 < region_size E k \<and> region_size E k < 2 ^ 32"
    and write_ok: "k < cap \<Longrightarrow> int (length d) + 10 \<le> region_size E k \<Longrightarrow> \<exists>m'. region_write E k 10 d m = Inr m'"
    and read_back: "k < cap \<Longrightarrow> region_write E k 10 d m = Inr (mem k) \<Longrightarrow> dma_read E mem (region_addr E k + 10) (int (length d)) = d"
    and recv_back: "k < cap \<Longrightarrow> int (length d) \<le> region_size E k \<Longrightarrow>
      \<exists>m'. dma_write E (region_addr E k) d mem = mem(k := m') \<and> region_head E (int (length d)) m' = d"

section \<open>Windows of a ring\<close>

lemma window_inj:
  assumes "c \<le> (i :: nat)" "i < c + n" "c \<le> j" "j < c + n" "i mod n = j mod n"
  shows "i = j"
proof -
  have "i = j" if "i \<le> j" "i mod n = j mod n" "j < i + n" for i j :: nat
  proof -
    have "n dvd j - i" using that mod_eq_dvd_iff_nat [of i j n] by simp
    moreover have "j - i < n" using that by simp
    ultimately show ?thesis using that(1) by (metis diff_is_0_eq' dvd_imp_le gr0I le_antisym linorder_not_less zero_less_diff)
  qed
  note le = this
  show ?thesis
  proof (cases "i \<le> j")
    case True
    have "j < i + n" using assms by linarith
    then show ?thesis using le [OF True assms(5)] by simp
  next
    case False
    have "i < j + n" using assms by linarith
    then show ?thesis using le [of j i] False assms(5) by simp
  qed
qed

definition slot :: "ring \<Rightarrow> nat \<Rightarrow> nat" where "slot r j = the (q_info r ! (j mod 2 ^ q_log r))"

definition desc :: "ring \<Rightarrow> nat \<Rightarrow> int list result" where "desc r j = unpack_from desc_fmt (q_buf r) (16 * (j mod 2 ^ q_log r))"

definition posted :: "ring \<Rightarrow> nat list" where "posted r = map (slot r) [q_cons r..<q_prod r]"

definition ring_ok :: "ring \<Rightarrow> bool" where
  "ring_ok r \<longleftrightarrow> length (q_info r) = 2 ^ q_log r \<and> length (q_buf r) = 2 ^ q_log r * 16 \<and>
     q_cons r \<le> q_prod r \<and> q_prod r \<le> q_cons r + 2 ^ q_log r \<and>
     (\<forall>j. q_cons r \<le> j \<and> j < q_prod r \<longrightarrow> q_info r ! (j mod 2 ^ q_log r) \<noteq> None)"

text \<open>A property of every posted slot: of its number, its buffer and its descriptor.\<close>

definition slots_ok :: "(nat \<Rightarrow> nat \<Rightarrow> int list result \<Rightarrow> bool) \<Rightarrow> ring \<Rightarrow> bool" where
  "slots_ok Q r \<longleftrightarrow> (\<forall>j. q_cons r \<le> j \<and> j < q_prod r \<longrightarrow> Q j (slot r j) (desc r j))"

lemma ring_ok_new: "ring_ok (ring_new lg)" "posted (ring_new lg) = []" "slots_ok Q (ring_new lg)"
  by (simp_all add: ring_ok_def ring_new_def posted_def slots_ok_def)

lemma idx_less [simp]: "(j :: nat) mod 2 ^ lg < 2 ^ lg"
  by simp

text \<open>Posting a buffer.\<close>

lemma post:
  assumes ok: "ring_ok r" and room: "q_prod r < q_cons r + 2 ^ q_log r" and vs: "fits_fmt desc_fmt vs"
    and r': "pack_into desc_fmt (q_buf r) (16 * (q_prod r mod 2 ^ q_log r)) vs = Inr b"
      "r' = r\<lparr>q_buf := b, q_info := (q_info r)[q_prod r mod 2 ^ q_log r := Some k], q_prod := q_prod r + 1\<rparr>"
  shows "ring_ok r'" "posted r' = posted r @ [k]" "desc r' (q_prod r) = Inr vs"
    "\<And>Q. slots_ok Q r \<Longrightarrow> Q (q_prod r) k (Inr vs) \<Longrightarrow> slots_ok Q r'"
proof -
  let ?n = "2 ^ q_log r :: nat" and ?p = "q_prod r mod 2 ^ q_log r"
  have len: "length (q_info r) = ?n" "length (q_buf r) = ?n * 16" using ok by (simp_all add: ring_ok_def)
  have sz: "fmt_size desc_fmt = 16" by (simp add: desc_fmt_def)
  have p: "?p < ?n" by simp
  then have "16 * ?p + fmt_size desc_fmt \<le> length (q_buf r)" using len(2) sz by linarith
  from pack_into_ok [OF vs this] r'(1) have b: "length b = length (q_buf r)" "unpack_from desc_fmt b (16 * ?p) = Inr vs"
    "\<And>gs o2. o2 + fmt_size gs \<le> 16 * ?p \<or> 16 * ?p + fmt_size desc_fmt \<le> o2 \<Longrightarrow> unpack_from gs b o2 = unpack_from gs (q_buf r) o2"
    by (metis Inr_inject)+
  have other: "j mod ?n \<noteq> ?p" if "q_cons r \<le> j" "j < q_prod r" for j
    using window_inj [of "q_cons r" j ?n "q_prod r"] that room by auto
  have sl: "slot r' j = slot r j" "desc r' j = desc r j" if "q_cons r \<le> j" "j < q_prod r" for j
  proof -
    show "slot r' j = slot r j" using other [OF that] r'(2) by (simp add: slot_def)
    have "j mod ?n < ?p \<or> ?p < j mod ?n" using other [OF that] by linarith
    then have "16 * (j mod ?n) + fmt_size desc_fmt \<le> 16 * ?p \<or> 16 * ?p + fmt_size desc_fmt \<le> 16 * (j mod ?n)" using sz by linarith
    then show "desc r' j = desc r j" using b(3) r'(2) by (simp add: desc_def)
  qed
  have new: "slot r' (q_prod r) = k" "desc r' (q_prod r) = Inr vs" using p len r'(2) b(2) by (simp_all add: slot_def desc_def)
  show "desc r' (q_prod r) = Inr vs" by (rule new)
  have "q_info r' ! (j mod ?n) \<noteq> None" if "q_cons r \<le> j" "j < q_prod r'" for j
  proof (cases "j = q_prod r")
    case True
    then show ?thesis using p len r'(2) by simp
  next
    case False
    then have j: "q_cons r \<le> j" "j < q_prod r" using that r'(2) by simp_all
    have "q_info r' ! (j mod ?n) = q_info r ! (j mod ?n)" using other [OF j] r'(2) by simp
    then show ?thesis using ok j by (simp add: ring_ok_def)
  qed
  then show "ring_ok r'" using ok room len b(1) r'(2) by (simp add: ring_ok_def)
  have "q_cons r \<le> q_prod r" using ok by (simp add: ring_ok_def)
  then show "posted r' = posted r @ [k]" using sl(1) new(1) r'(2) by (simp add: posted_def)
  show "slots_ok Q r'" if "slots_ok Q r" "Q (q_prod r) k (Inr vs)" for Q
    unfolding slots_ok_def
  proof (intro allI impI)
    fix j assume j: "q_cons r' \<le> j \<and> j < q_prod r'"
    show "Q j (slot r' j) (desc r' j)"
    proof (cases "j = q_prod r")
      case True
      then show ?thesis using that(2) new by simp
    next
      case False
      then have "q_cons r \<le> j" "j < q_prod r" using j r'(2) by simp_all
      then show ?thesis using that(1) sl by (simp add: slots_ok_def)
    qed
  qed
qed

text \<open>Taking the oldest buffer back.\<close>

lemma take_back:
  assumes ok: "ring_ok r" and some: "q_cons r < q_prod r"
    and r': "r' = r\<lparr>q_info := (q_info r)[q_cons r mod 2 ^ q_log r := None], q_cons := q_cons r + 1\<rparr>"
  shows "ring_ok r'" "posted r = slot r (q_cons r) # posted r'" "q_info r ! (q_cons r mod 2 ^ q_log r) = Some (slot r (q_cons r))"
    "slots_ok Q r \<Longrightarrow> slots_ok Q r'"
proof -
  let ?n = "2 ^ q_log r :: nat" and ?p = "q_cons r mod 2 ^ q_log r"
  have other: "j mod ?n \<noteq> ?p" if "q_cons r < j" "j < q_prod r" for j
    using window_inj [of "q_cons r" j ?n "q_cons r"] that ok by (auto simp: ring_ok_def)
  have sl: "slot r' j = slot r j" "desc r' j = desc r j" if "q_cons r < j" "j < q_prod r" for j
    using other [OF that] r' by (simp_all add: slot_def desc_def)
  show "q_info r ! ?p = Some (slot r (q_cons r))" using ok some by (auto simp: ring_ok_def slot_def)
  have "q_info r' ! (j mod ?n) \<noteq> None" if "q_cons r < j" "j < q_prod r" for j
    using other [OF that] ok that r' by (simp add: ring_ok_def)
  then show "ring_ok r'" using ok some r' by (simp add: ring_ok_def Suc_le_eq)
  have "posted r = slot r (q_cons r) # map (slot r) [Suc (q_cons r)..<q_prod r]" using some by (simp add: posted_def upt_conv_Cons)
  then show "posted r = slot r (q_cons r) # posted r'" using sl(1) r' by (simp add: posted_def)
  show "slots_ok Q r'" if "slots_ok Q r" using that sl r' by (simp add: slots_ok_def Suc_le_eq)
qed

section \<open>The pool\<close>

definition pool_ok :: "nat \<Rightarrow> pkts \<Rightarrow> nat list \<Rightarrow> bool" where
  "pool_ok cap p held \<longleftrightarrow> distinct (allocated_packets p) \<and> set (allocated_packets p) \<subseteq> {..<cap} \<and> mset (free_packets p) + mset held = mset (allocated_packets p)"

lemma pool_distinct: "pool_ok cap p held \<Longrightarrow> distinct (free_packets p @ held) \<and> set (free_packets p @ held) = set (allocated_packets p)"
  unfolding pool_ok_def by (metis mset_append mset_eq_imp_distinct_iff mset_eq_setD)

lemma pool_ok_perm: "pool_ok cap p held \<Longrightarrow> mset held' = mset held \<Longrightarrow> pool_ok cap p held'"
  by (simp add: pool_ok_def)

lemma pool_ok_mem: "pool_ok cap (p\<lparr>pkt_mem := m\<rparr>) held = pool_ok cap p held"
  by (simp add: pool_ok_def)

lemma pool_length: "pool_ok cap p held \<Longrightarrow> length (allocated_packets p) = length (free_packets p) + length held"
  unfolding pool_ok_def by (metis size_mset size_union)

context dma_memory begin

lemma alloc_ok:
  assumes "pool_ok cap p held" "alloc_pkt E p = (k, p')" "length held < cap"
  shows "pool_ok cap p' (k # held)" "pkt_mem p' = pkt_mem p" "k \<notin> set held" "k < cap"
proof -
  have "free_packets p = [] \<Longrightarrow> length (allocated_packets p) < cap" using pool_length [OF assms(1)] assms(3) by simp
  then show ok: "pool_ok cap p' (k # held)" and "pkt_mem p' = pkt_mem p"
    using assms(1,2) fresh [of "allocated_packets p"]
    by (auto simp: alloc_pkt_def pool_ok_def Let_def split: list.splits)
  show "k \<notin> set held" using pool_distinct [OF ok] by simp
  have "k \<in> set (allocated_packets p')" using pool_distinct [OF ok] by auto
  then show "k < cap" using ok by (auto simp: pool_ok_def)
qed

end

lemma free_ok:
  assumes "pool_ok cap p (k # held)"
  shows "free_pkt (Some k) p = Inr (p\<lparr>free_packets := free_packets p @ [k]\<rparr>)" "pool_ok cap (p\<lparr>free_packets := free_packets p @ [k]\<rparr>) held"
proof -
  have "k \<in> set (allocated_packets p)" using pool_distinct [OF assms] by auto
  then show "free_pkt (Some k) p = Inr (p\<lparr>free_packets := free_packets p @ [k]\<rparr>)" by (simp add: free_pkt_def)
  show "pool_ok cap (p\<lparr>free_packets := free_packets p @ [k]\<rparr>) held" using assms by (simp add: pool_ok_def)
qed

section \<open>Completion queues\<close>

text \<open>Whatever the memory holds, the loop passes only new entries, so it ends within one lap.\<close>

lemma cq_loop_passes:
  "cq_loop fmt body lg buf ptr s = Inr (q, s') \<Longrightarrow> ptr \<le> q \<and> (\<forall>j. ptr \<le> j \<and> j < q \<longrightarrow> new_entry fmt lg buf j \<noteq> None)"
proof (induction fmt body lg buf ptr s rule: cq_loop.induct)
  case (1 fmt body lg buf ptr s)
  from "1.prems" obtain e where e: "unpack_from fmt buf (ring_idx lg ptr * 16) = Inr e"
    by (subst (asm) cq_loop.simps) (auto simp: rbind_Inr_iff)
  show ?case
  proof (cases "entry_new lg ptr e")
    case False
    then show ?thesis using "1.prems" e by (subst (asm) cq_loop.simps) auto
  next
    case True
    then obtain s2 where s2: "body e s = Inr s2" "cq_loop fmt body lg buf (ptr + 1) s2 = Inr (q, s')"
      using "1.prems" e by (subst (asm) cq_loop.simps) (auto simp: rbind_Inr_iff)
    from "1.IH" [OF e _ s2] True have ih: "ptr + 1 \<le> q" "\<forall>j. ptr + 1 \<le> j \<and> j < q \<longrightarrow> new_entry fmt lg buf j \<noteq> None" by auto
    have n: "new_entry fmt lg buf ptr \<noteq> None" using e True by (simp add: new_entry_def)
    show ?thesis
    proof (intro conjI allI impI)
      show "ptr \<le> q" using ih(1) by simp
      fix j assume "ptr \<le> j \<and> j < q"
      then show "new_entry fmt lg buf j \<noteq> None" using n ih(2) by (cases "j = ptr") (auto simp: Suc_le_eq)
    qed
  qed
qed

lemma cq_loop_lap: "cq_loop fmt body lg buf ptr s = Inr (q, s') \<Longrightarrow> ptr \<le> q \<and> q \<le> ptr + 2 ^ lg"
proof -
  assume h: "cq_loop fmt body lg buf ptr s = Inr (q, s')"
  note p = cq_loop_passes [OF h]
  have "\<not> ptr + 2 ^ lg < q"
  proof
    assume a: "ptr + 2 ^ lg < q"
    then have "new_entry fmt lg buf ptr \<noteq> None" "new_entry fmt lg buf (ptr + 2 ^ lg) \<noteq> None" using p by auto
    then show False using new_entry_flips [of fmt lg buf ptr] by simp
  qed
  then show ?thesis using p by simp
qed

text \<open>The device has written the entries below \<open>dv\<close>: those of the next lap are not new.\<close>

definition synced :: "fld list \<Rightarrow> nat \<Rightarrow> bytes \<Rightarrow> nat \<Rightarrow> bool" where
  "synced fmt lg buf dv \<longleftrightarrow> fmt_size fmt = 16 \<and> length buf = 2 ^ lg * 16 \<and>
     (\<forall>j. dv \<le> j \<and> j < dv + 2 ^ lg \<longrightarrow> new_entry fmt lg buf j = None)"

lemma entry_there:
  assumes "length buf = 2 ^ lg * 16" "fmt_size fmt = 16"
  shows "\<exists>e. unpack_from fmt buf (ring_idx lg j * 16) = Inr e"
proof -
  have "j mod 2 ^ lg < 2 ^ lg" by simp
  then have "(j mod 2 ^ lg) * 16 + 16 \<le> length buf" using assms(1) by linarith
  then show ?thesis using assms(2) by (simp add: unpack_from_def ring_idx_mod)
qed

lemma synced_new:
  assumes "synced fmt lg buf dv" "dv \<le> j + 2 ^ lg" "j < dv"
  obtains e where "unpack_from fmt buf (ring_idx lg j * 16) = Inr e" "entry_new lg j e"
proof -
  obtain e where e: "unpack_from fmt buf (ring_idx lg j * 16) = Inr e" using entry_there assms(1) by (metis synced_def)
  have "new_entry fmt lg buf (j + 2 ^ lg) = None" using assms by (simp add: synced_def)
  then have "entry_new lg j e" using e by (auto simp: new_entry_def ring_idx_mod entry_new_flips split: if_splits)
  then show thesis using that e by blast
qed

lemma synced_end:
  assumes "synced fmt lg buf dv"
  obtains e where "unpack_from fmt buf (ring_idx lg dv * 16) = Inr e" "\<not> entry_new lg dv e"
proof -
  obtain e where e: "unpack_from fmt buf (ring_idx lg dv * 16) = Inr e" using entry_there assms by (metis synced_def)
  have "new_entry fmt lg buf dv = None" using assms by (simp add: synced_def)
  then show thesis using that e by (auto simp: new_entry_def split: if_splits)
qed

text \<open>Then the loop from a pointer at most a lap behind runs the body on exactly those entries.\<close>

lemma cq_loop_drains:
  assumes sy: "synced fmt lg buf dv"
    and body: "\<And>j e s. I j s \<Longrightarrow> c \<le> j \<Longrightarrow> j < dv \<Longrightarrow> unpack_from fmt buf (ring_idx lg j * 16) = Inr e \<Longrightarrow> \<exists>s'. body e s = Inr s' \<and> I (Suc j) s'"
    and c: "c \<le> dv" "dv \<le> c + 2 ^ lg" and I: "I c s"
  shows "\<exists>s'. cq_loop fmt body lg buf c s = Inr (dv, s') \<and> I dv s'"
  using c I body
proof (induction "dv - c" arbitrary: c s)
  case 0
  then have "c = dv" by simp
  moreover obtain e where "unpack_from fmt buf (ring_idx lg dv * 16) = Inr e" "\<not> entry_new lg dv e" using synced_end [OF sy] .
  ultimately show ?case using "0.prems" by (subst cq_loop.simps) simp
next
  case (Suc n)
  then have lt: "c < dv" by simp
  obtain e where e: "unpack_from fmt buf (ring_idx lg c * 16) = Inr e" "entry_new lg c e"
    using synced_new [OF sy _ lt] Suc.prems(2) by blast
  obtain s2 where s2: "body e s = Inr s2" "I (Suc c) s2" using Suc.prems(3) Suc.prems(4) [of c s e] lt e(1) by auto
  have "\<exists>s'. cq_loop fmt body lg buf (Suc c) s2 = Inr (dv, s') \<and> I dv s'"
    by (rule Suc.hyps(1)) (use Suc lt s2(2) in auto)
  then show ?case using e s2(1) by (subst cq_loop.simps) simp
qed

text \<open>The device writes the next entry.\<close>

lemma synced_write:
  assumes sy: "synced fmt lg buf dv" and vs: "fits_fmt fmt vs" "entry_new lg dv vs"
    and w: "pack_into fmt buf (16 * (dv mod 2 ^ lg)) vs = Inr buf'"
  shows "synced fmt lg buf' (Suc dv)" "unpack_from fmt buf' (ring_idx lg dv * 16) = Inr vs"
    "\<And>j. j < dv \<Longrightarrow> dv < j + 2 ^ lg \<Longrightarrow> unpack_from fmt buf' (ring_idx lg j * 16) = unpack_from fmt buf (ring_idx lg j * 16)"
proof -
  let ?n = "2 ^ lg :: nat" and ?p = "dv mod 2 ^ lg"
  have sz: "fmt_size fmt = 16" and len: "length buf = ?n * 16" using sy by (simp_all add: synced_def)
  have "?p < ?n" by simp
  then have "16 * ?p + fmt_size fmt \<le> length buf" using sz len by linarith
  from pack_into_ok [OF vs(1) this] w have b: "length buf' = length buf" "unpack_from fmt buf' (16 * ?p) = Inr vs"
    "\<And>gs o2. o2 + fmt_size gs \<le> 16 * ?p \<or> 16 * ?p + fmt_size fmt \<le> o2 \<Longrightarrow> unpack_from gs buf' o2 = unpack_from gs buf o2"
    by (metis Inr_inject)+
  have far: "unpack_from fmt buf' (ring_idx lg j * 16) = unpack_from fmt buf (ring_idx lg j * 16)" if "j mod ?n \<noteq> ?p" for j
  proof -
    have "(j mod ?n) * 16 + fmt_size fmt \<le> 16 * ?p \<or> 16 * ?p + fmt_size fmt \<le> (j mod ?n) * 16" using that sz by linarith
    then show ?thesis using b(3) by (simp add: ring_idx_mod)
  qed
  show here: "unpack_from fmt buf' (ring_idx lg dv * 16) = Inr vs" using b(2) by (simp add: ring_idx_mod mult.commute)
  show "unpack_from fmt buf' (ring_idx lg j * 16) = unpack_from fmt buf (ring_idx lg j * 16)" if "j < dv" "dv < j + ?n" for j
    using far window_inj [of j j ?n dv] that by auto
  have "new_entry fmt lg buf' j = None" if "Suc dv \<le> j" "j < Suc dv + ?n" for j
  proof (cases "j = dv + ?n")
    case True
    then show ?thesis using here vs(2) by (simp add: new_entry_def ring_idx_mod entry_new_flips)
  next
    case False
    then have "j mod ?n \<noteq> ?p" using window_inj [of dv j ?n dv] that by auto
    moreover have "new_entry fmt lg buf j = None" using sy that False by (simp add: synced_def)
    ultimately show ?thesis using far [of j] by (simp add: new_entry_def)
  qed
  then show "synced fmt lg buf' (Suc dv)" using sz len b(1) by (simp add: synced_def)
qed

lemma unpack_zeros: "unpack_flds fs (replicate m 0) = replicate (fmt_args fs) 0"
proof (induction fs arbitrary: m)
  case (Cons f fs)
  have "le_int (replicate k 0) = 0" for k by (induction k) simp_all
  then show ?case using Cons by (cases f) (simp_all add: fmt_args_def)
qed (simp add: fmt_args_def)

lemma synced_zeros:
  assumes "fmt_size fmt = 16" "fmt_args fmt \<noteq> 0"
  shows "synced fmt lg (replicate (2 ^ lg * 16) 0) 0"
proof -
  have "new_entry fmt lg (replicate (2 ^ lg * 16) 0) j = None" if "j < 2 ^ lg" for j
  proof -
    have "\<not> bit j lg" using that by (simp add: bit_iff_odd)
    then have "j AND 2 ^ lg = 0" using phase_bit [of j lg] by blast
    then have "\<not> entry_new lg j (replicate (fmt_args fmt) 0)" using assms(2) by (simp add: entry_new_def last_replicate)
    moreover have "ring_idx lg j * 16 + 16 \<le> 2 ^ lg * 16" using that by (simp add: ring_idx_mod)
    ultimately show ?thesis using assms(1) by (simp add: new_entry_def unpack_from_def unpack_zeros)
  qed
  then show ?thesis using assms by (simp add: synced_def)
qed

end
