(* ===== verification/NicOps.thy ===== *)
theory NicOps imports NicOwn begin

text \<open>
  The operations of the rings under the ownership invariant: what posting, refilling, and the two
  completion handlers do to the posted buffers and to the pool, and that they do not raise.
\<close>

section \<open>Freeing the oldest slot\<close>

lemma free_slot:
  assumes ok: "ring_ok (r\<lparr>q_cons := j\<rparr>)" and j: "j < q_prod r" and pool: "pool_ok cap p (posted (r\<lparr>q_cons := j\<rparr>) @ rest)"
  obtains r2 p2 where "free_desc (ring_idx (q_log r) j) (r, p) = Inr (r2, p2)"
    "q_prod r2 = q_prod r" "q_cons r2 = q_cons r" "q_log r2 = q_log r" "q_buf r2 = q_buf r" "pkt_mem p2 = pkt_mem p"
    "py_get (q_info r) (int (ring_idx (q_log r) j)) = Inr (Some (slot r j))"
    "ring_ok (r2\<lparr>q_cons := Suc j\<rparr>)" "pool_ok cap p2 (posted (r2\<lparr>q_cons := Suc j\<rparr>) @ rest)"
    "\<And>Q. slots_ok Q (r\<lparr>q_cons := j\<rparr>) \<Longrightarrow> slots_ok Q (r2\<lparr>q_cons := Suc j\<rparr>)" "slot r j = slot (r\<lparr>q_cons := j\<rparr>) j"
proof -
  let ?i = "j mod 2 ^ q_log r" and ?r = "r\<lparr>q_cons := j\<rparr>"
  let ?r2 = "r\<lparr>q_info := (q_info r)[?i := None]\<rparr>" and ?p2 = "p\<lparr>free_packets := free_packets p @ [slot r j]\<rparr>"
  have s: "slot ?r j = slot r j" by (simp add: slot_def)
  have "q_cons ?r < q_prod ?r" using j by simp
  note tb = take_back [OF ok this refl, simplified]
  have e: "?r2\<lparr>q_cons := Suc j\<rparr> = ?r\<lparr>q_info := (q_info r)[?i := None], q_cons := Suc j\<rparr>" by simp
  have len: "?i < length (q_info r)" using ok by (simp add: ring_ok_def)
  have g: "q_info r ! ?i = Some (slot r j)" using tb(3) s by simp
  have po: "posted ?r = slot r j # posted (?r2\<lparr>q_cons := Suc j\<rparr>)" using tb(2) s by simp
  have pk: "pool_ok cap p (slot r j # posted (?r2\<lparr>q_cons := Suc j\<rparr>) @ rest)" using pool unfolding po by simp
  note fr = free_ok [OF pk]
  have "free_desc (ring_idx (q_log r) j) (r, p) = Inr (?r2, ?p2)"
    using len g fr(1) by (simp add: free_desc_def ring_idx_mod)
  then show thesis
  proof (rule that)
    show "py_get (q_info r) (int (ring_idx (q_log r) j)) = Inr (Some (slot r j))" using len g by (simp add: ring_idx_mod)
    show "ring_ok (?r2\<lparr>q_cons := Suc j\<rparr>)" using tb(1) by simp
    show "pool_ok cap ?p2 (posted (?r2\<lparr>q_cons := Suc j\<rparr>) @ rest)" using fr(2) by simp
    show "slots_ok Q (?r2\<lparr>q_cons := Suc j\<rparr>)" if "slots_ok Q ?r" for Q using tb(4) [OF that] by simp
  qed (simp_all add: s)
qed

section \<open>The completion handlers\<close>

definition drained :: "ring \<Rightarrow> nat \<Rightarrow> ring \<Rightarrow> bool" where
  "drained r dv r' \<longleftrightarrow> ring_ok r' \<and> q_cons r' = dv \<and> q_prod r' = q_prod r \<and> q_log r' = q_log r \<and> q_buf r' = q_buf r \<and>
     (\<forall>Q. slots_ok Q r \<longrightarrow> slots_ok Q r')"

lemma process_tx_ok:
  assumes ok: "ring_ok r" and sy: "synced cpl_fmt (c_log c) (c_buf c) dv" and tie: "c_cons c = q_cons r"
    and dv: "q_cons r \<le> dv" "dv \<le> q_prod r" "dv \<le> c_cons c + 2 ^ c_log c" and pool: "pool_ok cap p (posted r @ rest)"
  shows "\<exists>r' p'. process_tx_ring (c, r, p) = Inr (c\<lparr>c_cons := dv\<rparr>, r', p') \<and> drained r dv r' \<and>
    pool_ok cap p' (posted r' @ rest) \<and> pkt_mem p' = pkt_mem p"
proof -
  define I where "I j = (\<lambda>(cons, r1, p1). cons = j \<and> drained r j (r1\<lparr>q_cons := j\<rparr>) \<and> pool_ok cap p1 (posted (r1\<lparr>q_cons := j\<rparr>) @ rest) \<and>
    pkt_mem p1 = pkt_mem p)" for j :: nat
  have "\<exists>s'. cq_loop cpl_fmt tx_body (c_log c) (c_buf c) (c_cons c) (q_cons r, r, p) = Inr (dv, s') \<and> I dv s'"
  proof (rule cq_loop_drains [OF sy])
    fix j e s assume I: "I j s" and j: "c_cons c \<le> j" "j < dv"
    obtain r1 p1 where s: "s = (j, r1, p1)" "drained r j (r1\<lparr>q_cons := j\<rparr>)" "pool_ok cap p1 (posted (r1\<lparr>q_cons := j\<rparr>) @ rest)" "pkt_mem p1 = pkt_mem p"
      using I by (auto simp: I_def split: prod.splits)
    have "ring_ok (r1\<lparr>q_cons := j\<rparr>)" "j < q_prod r1" using s(2) j dv by (simp_all add: drained_def)
    then obtain r2 p2 where f: "free_desc (ring_idx (q_log r1) j) (r1, p1) = Inr (r2, p2)"
        "q_prod r2 = q_prod r1" "q_cons r2 = q_cons r1" "q_log r2 = q_log r1" "q_buf r2 = q_buf r1" "pkt_mem p2 = pkt_mem p1"
        "py_get (q_info r1) (int (ring_idx (q_log r1) j)) = Inr (Some (slot r1 j))"
        "ring_ok (r2\<lparr>q_cons := Suc j\<rparr>)" "pool_ok cap p2 (posted (r2\<lparr>q_cons := Suc j\<rparr>) @ rest)"
        "\<And>Q. slots_ok Q (r1\<lparr>q_cons := j\<rparr>) \<Longrightarrow> slots_ok Q (r2\<lparr>q_cons := Suc j\<rparr>)"
      using free_slot [OF _ _ s(3)] by metis
    have "tx_body e s = Inr (Suc j, r2, p2)" using f(1,7) by (simp add: tx_body_def s(1))
    moreover have "drained r (Suc j) (r2\<lparr>q_cons := Suc j\<rparr>)" using s(2) f by (simp add: drained_def)
    ultimately show "\<exists>s'. tx_body e s = Inr s' \<and> I (Suc j) s'" using f(6,9) s(4) by (simp add: I_def)
  qed (use tie dv pool ok in \<open>simp_all add: I_def drained_def\<close>)
  then obtain r1 p1 where l: "cq_loop cpl_fmt tx_body (c_log c) (c_buf c) (c_cons c) (q_cons r, r, p) = Inr (dv, dv, r1, p1)"
    "drained r dv (r1\<lparr>q_cons := dv\<rparr>)" "pool_ok cap p1 (posted (r1\<lparr>q_cons := dv\<rparr>) @ rest)" "pkt_mem p1 = pkt_mem p"
    by (auto simp: I_def split: prod.splits)
  then show ?thesis by (auto simp: process_tx_ring_def)
qed

text \<open>The receive handler delivers, for each completed slot, the head of its buffer.\<close>

lemma process_rx_ok:
  assumes ok: "ring_ok r" and sy: "synced cpl_fmt (c_log c) (c_buf c) dv" and tie: "c_cons c = q_cons r"
    and dv: "q_cons r \<le> dv" "dv \<le> q_prod r" "dv \<le> c_cons c + 2 ^ c_log c" and pool: "pool_ok cap p (posted r @ rest)"
    and data: "slots_ok (\<lambda>j k d. j < dv \<longrightarrow> (\<exists>e. unpack_from cpl_fmt (c_buf c) (ring_idx (c_log c) j * 16) = Inr e \<and>
      region_head E (e ! 1) (pkt_mem p k) = pl j)) r"
  shows "\<exists>r' p'. process_rx_ring E (c, r, p, rx) = Inr (c\<lparr>c_cons := dv\<rparr>, r', p', rx @ map pl [q_cons r..<dv]) \<and> drained r dv r' \<and>
    pool_ok cap p' (posted r' @ rest) \<and> pkt_mem p' = pkt_mem p"
proof -
  let ?D = "\<lambda>j k d. j < dv \<longrightarrow> (\<exists>e. unpack_from cpl_fmt (c_buf c) (ring_idx (c_log c) j * 16) = Inr e \<and>
      region_head E (e ! 1) (pkt_mem p k) = pl j)"
  define I where "I j = (\<lambda>(cons, r1, p1, rx1). cons = j \<and> drained r j (r1\<lparr>q_cons := j\<rparr>) \<and> pool_ok cap p1 (posted (r1\<lparr>q_cons := j\<rparr>) @ rest) \<and>
    pkt_mem p1 = pkt_mem p \<and> q_cons r \<le> j \<and> rx1 = rx @ map pl [q_cons r..<j])" for j :: nat
  have "\<exists>s'. cq_loop cpl_fmt (rx_body E) (c_log c) (c_buf c) (c_cons c) (q_cons r, r, p, rx) = Inr (dv, s') \<and> I dv s'"
  proof (rule cq_loop_drains [OF sy])
    fix j e s assume I: "I j s" and j: "c_cons c \<le> j" "j < dv" and e: "unpack_from cpl_fmt (c_buf c) (ring_idx (c_log c) j * 16) = Inr e"
    obtain r1 p1 where s: "s = (j, r1, p1, rx @ map pl [q_cons r..<j])" "drained r j (r1\<lparr>q_cons := j\<rparr>)" "pool_ok cap p1 (posted (r1\<lparr>q_cons := j\<rparr>) @ rest)"
        "pkt_mem p1 = pkt_mem p" "q_cons r \<le> j"
      using I by (auto simp: I_def split: prod.splits)
    have "ring_ok (r1\<lparr>q_cons := j\<rparr>)" "j < q_prod r1" using s(2) j dv by (simp_all add: drained_def)
    then obtain r2 p2 where f: "free_desc (ring_idx (q_log r1) j) (r1, p1) = Inr (r2, p2)"
        "q_prod r2 = q_prod r1" "q_cons r2 = q_cons r1" "q_log r2 = q_log r1" "q_buf r2 = q_buf r1" "pkt_mem p2 = pkt_mem p1"
        "py_get (q_info r1) (int (ring_idx (q_log r1) j)) = Inr (Some (slot r1 j))"
        "ring_ok (r2\<lparr>q_cons := Suc j\<rparr>)" "pool_ok cap p2 (posted (r2\<lparr>q_cons := Suc j\<rparr>) @ rest)"
        "\<And>Q. slots_ok Q (r1\<lparr>q_cons := j\<rparr>) \<Longrightarrow> slots_ok Q (r2\<lparr>q_cons := Suc j\<rparr>)"
      using free_slot [OF _ _ s(3)] by metis
    have "slots_ok ?D (r1\<lparr>q_cons := j\<rparr>)" using data s(2) by (simp add: drained_def)
    then have "?D j (slot (r1\<lparr>q_cons := j\<rparr>) j) (desc (r1\<lparr>q_cons := j\<rparr>) j)"
      unfolding slots_ok_def using \<open>j < q_prod r1\<close> by simp
    then have "region_head E (e ! 1) (pkt_mem p (slot r1 j)) = pl j" using j(2) e by (simp add: slot_def)
    then have "rx_body E e s = Inr (Suc j, r2, p2, (rx @ map pl [q_cons r..<j]) @ [pl j])"
      using f(1,7) s(4) by (simp add: rx_body_def s(1))
    moreover have "drained r (Suc j) (r2\<lparr>q_cons := Suc j\<rparr>)" using s(2) f by (simp add: drained_def)
    ultimately show "\<exists>s'. rx_body E e s = Inr s' \<and> I (Suc j) s'" using f(6,9) s(4,5) by (simp add: I_def)
  qed (use tie dv pool ok in \<open>simp_all add: I_def drained_def\<close>)
  then obtain r1 p1 where l: "cq_loop cpl_fmt (rx_body E) (c_log c) (c_buf c) (c_cons c) (q_cons r, r, p, rx) =
      Inr (dv, dv, r1, p1, rx @ map pl [q_cons r..<dv])"
    "drained r dv (r1\<lparr>q_cons := dv\<rparr>)" "pool_ok cap p1 (posted (r1\<lparr>q_cons := dv\<rparr>) @ rest)" "pkt_mem p1 = pkt_mem p"
    by (auto simp: I_def split: prod.splits)
  then show ?thesis by (auto simp: process_rx_ring_def)
qed

section \<open>Posting\<close>

text \<open>A ring that has got one more buffer.\<close>

definition posted_one :: "ring \<Rightarrow> nat \<Rightarrow> int list \<Rightarrow> ring \<Rightarrow> bool" where
  "posted_one r k vs r' \<longleftrightarrow> ring_ok r' \<and> posted r' = posted r @ [k] \<and> q_prod r' = Suc (q_prod r) \<and> q_cons r' = q_cons r \<and>
     q_log r' = q_log r \<and> (\<forall>Q. slots_ok Q r \<longrightarrow> Q (q_prod r) k (Inr vs) \<longrightarrow> slots_ok Q r')"

context dma_memory begin

lemma room_held:
  assumes "q_prod r < q_cons r + 2 ^ q_log r" "2 ^ q_log r + length rest \<le> cap"
  shows "length (posted r @ rest) < cap"
proof -
  have "q_prod r - q_cons r < 2 ^ q_log r" using assms(1) zero_less_power [of "2 :: nat" "q_log r"] by linarith
  moreover have "length (posted r @ rest) = q_prod r - q_cons r + length rest" by (simp add: posted_def)
  ultimately show ?thesis using assms(2) by linarith
qed

lemma desc_fits: "0 \<le> l \<Longrightarrow> l < 2 ^ 32 \<Longrightarrow> 0 \<le> a \<Longrightarrow> a < 2 ^ 64 \<Longrightarrow> fits_fmt desc_fmt [l, a]"
  by (simp add: desc_fmt_def)

lemma post_ring:
  assumes ok: "ring_ok r" and room: "q_prod r < q_cons r + 2 ^ q_log r" and vs: "fits_fmt desc_fmt vs"
  obtains b where "pack_into desc_fmt (q_buf r) (16 * ring_idx (q_log r) (q_prod r)) vs = Inr b"
    "py_set (q_info r) (int (ring_idx (q_log r) (q_prod r))) (Some k) = Inr ((q_info r)[q_prod r mod 2 ^ q_log r := Some k])"
    "posted_one r k vs (r\<lparr>q_buf := b, q_info := (q_info r)[q_prod r mod 2 ^ q_log r := Some k], q_prod := q_prod r + 1\<rparr>)"
proof -
  let ?i = "q_prod r mod 2 ^ q_log r"
  have i: "?i < 2 ^ q_log r" by simp
  have len: "length (q_info r) = 2 ^ q_log r" "length (q_buf r) = 2 ^ q_log r * 16" using ok by (simp_all add: ring_ok_def)
  have "fmt_size desc_fmt = 16" by (simp add: desc_fmt_def)
  then have "16 * ?i + fmt_size desc_fmt \<le> length (q_buf r)" using i len(2) by linarith
  from pack_into_total [OF vs this] obtain b where b: "pack_into desc_fmt (q_buf r) (16 * ?i) vs = Inr b" by blast
  note p = post [OF ok room vs b refl, where k = k]
  show thesis
  proof (rule that [of b])
    show "pack_into desc_fmt (q_buf r) (16 * ring_idx (q_log r) (q_prod r)) vs = Inr b" using b by (simp add: ring_idx_mod)
    show "py_set (q_info r) (int (ring_idx (q_log r) (q_prod r))) (Some k) = Inr ((q_info r)[?i := Some k])"
      using i len(1) by (simp add: ring_idx_mod)
    show "posted_one r k vs (r\<lparr>q_buf := b, q_info := (q_info r)[?i := Some k], q_prod := q_prod r + 1\<rparr>)"
      unfolding posted_one_def using p(1,2) p(4) by (simp del: One_nat_def)
  qed
qed

lemma start_xmit_ok:
  assumes ok: "ring_ok r" and room: "q_prod r < q_cons r + 2 ^ q_log r" and pool: "pool_ok cap p (posted r @ rest)"
    and d: "\<forall>k<cap. int (length d) + 10 \<le> region_size E k" and big: "2 ^ q_log r + length rest \<le> cap"
  obtains k m r' p' where "start_xmit_ring E d (r, p) = Inr (r', p')" "posted_one r k [int (length d), region_addr E k + 10] r'"
    "k \<notin> set (posted r @ rest)" "pool_ok cap p' (posted r' @ rest)" "\<And>i. i \<noteq> k \<Longrightarrow> pkt_mem p' i = pkt_mem p i"
    "region_write E k 10 d m = Inr (pkt_mem p' k)" "k < cap"
proof -
  obtain k p1 where a: "alloc_pkt E p = (k, p1)" by fastforce
  note al = alloc_ok [OF pool a room_held [OF room big]]
  obtain m' where m': "region_write E k 10 d (pkt_mem p1 k) = Inr m'" using write_ok d al(4) by blast
  have "fits_fmt desc_fmt [int (length d), region_addr E k + 10]"
    using addr [OF al(4)] d [rule_format, OF al(4)] by (intro desc_fits) linarith+
  from post_ring [OF ok room this, of k]
  obtain b where b: "pack_into desc_fmt (q_buf r) (16 * ring_idx (q_log r) (q_prod r)) [int (length d), region_addr E k + 10] = Inr b"
    "py_set (q_info r) (int (ring_idx (q_log r) (q_prod r))) (Some k) = Inr ((q_info r)[q_prod r mod 2 ^ q_log r := Some k])"
    "posted_one r k [int (length d), region_addr E k + 10] (r\<lparr>q_buf := b, q_info := (q_info r)[q_prod r mod 2 ^ q_log r := Some k], q_prod := q_prod r + 1\<rparr>)"
    by blast
  let ?r = "r\<lparr>q_buf := b, q_info := (q_info r)[q_prod r mod 2 ^ q_log r := Some k], q_prod := q_prod r + 1\<rparr>"
  let ?p = "p1\<lparr>pkt_mem := (pkt_mem p1)(k := m')\<rparr>"
  have po: "posted ?r = posted r @ [k]" using b(3) by (simp only: posted_one_def)
  have "start_xmit_ring E d (r, p) = Inr (?r, ?p)"
    using a m' b(1,2) by (simp add: start_xmit_ring_def)
  moreover have "pool_ok cap ?p (posted ?r @ rest)" unfolding po by (rule pool_ok_perm [of _ _ "k # posted r @ rest"]) (use al(1) in \<open>simp_all add: pool_ok_mem\<close>)
  ultimately show thesis using that [of ?r ?p k "pkt_mem p1 k"] b(3) al m' by simp
qed

lemma prepare_rx_ok:
  assumes ok: "ring_ok r" and room: "q_prod r < q_cons r + 2 ^ q_log r" and pool: "pool_ok cap p (posted r @ rest)"
    and big: "2 ^ q_log r + length rest \<le> cap"
  obtains k r' p' where
    "rbind (prepare_rx_desc E (ring_idx (q_log r) (q_prod r)) (r, p)) (\<lambda>(r, p). Inr (r\<lparr>q_prod := q_prod r + 1\<rparr>, p)) = Inr (r', p')"
    "posted_one r k [region_size E k, region_addr E k] r'" "pool_ok cap p' (posted r' @ rest)" "pkt_mem p' = pkt_mem p" "k < cap"
proof -
  obtain k p1 where a: "alloc_pkt E p = (k, p1)" by fastforce
  note al = alloc_ok [OF pool a room_held [OF room big]]
  have "fits_fmt desc_fmt [region_size E k, region_addr E k]"
    using addr [OF al(4)] by (intro desc_fits) linarith+
  from post_ring [OF ok room this, of k]
  obtain b where b: "pack_into desc_fmt (q_buf r) (16 * ring_idx (q_log r) (q_prod r)) [region_size E k, region_addr E k] = Inr b"
    "py_set (q_info r) (int (ring_idx (q_log r) (q_prod r))) (Some k) = Inr ((q_info r)[q_prod r mod 2 ^ q_log r := Some k])"
    "posted_one r k [region_size E k, region_addr E k] (r\<lparr>q_buf := b, q_info := (q_info r)[q_prod r mod 2 ^ q_log r := Some k], q_prod := q_prod r + 1\<rparr>)"
    by blast
  let ?r = "r\<lparr>q_buf := b, q_info := (q_info r)[q_prod r mod 2 ^ q_log r := Some k], q_prod := q_prod r + 1\<rparr>"
  have po: "posted ?r = posted r @ [k]" using b(3) by (simp only: posted_one_def)
  have "pool_ok cap p1 (posted ?r @ rest)" unfolding po by (rule pool_ok_perm [of _ _ "k # posted r @ rest"]) (use al(1) in simp_all)
  then show thesis using that [of ?r p1 k] a b al by (simp add: prepare_rx_desc_def)
qed

text \<open>The refill posts as many buffers as are missing, from eight on.\<close>

definition refilled :: "ring \<Rightarrow> ring \<Rightarrow> bool" where
  "refilled r r' \<longleftrightarrow> ring_ok r' \<and> q_cons r' = q_cons r \<and> q_log r' = q_log r \<and> q_prod r \<le> q_prod r' \<and>
     (\<forall>Q. slots_ok Q r \<longrightarrow> (\<forall>j k. q_prod r \<le> j \<longrightarrow> k < cap \<longrightarrow> Q j k (Inr [region_size E k, region_addr E k])) \<longrightarrow> slots_ok Q r')"

lemma refill_loop:
  assumes "ring_ok r" "q_prod r + n \<le> q_cons r + 2 ^ q_log r" "pool_ok cap p (posted r @ rest)" "2 ^ q_log r + length rest \<le> cap"
  shows "\<exists>r' p'. rfold (\<lambda>_ (r, p). rbind (prepare_rx_desc E (ring_idx (q_log r) (q_prod r)) (r, p))
      (\<lambda>(r, p). Inr (r\<lparr>q_prod := q_prod r + 1\<rparr>, p))) [0..<n] (r, p) = Inr (r', p') \<and> refilled r r' \<and> q_prod r' = q_prod r + n \<and>
    pool_ok cap p' (posted r' @ rest) \<and> pkt_mem p' = pkt_mem p"
  using assms(2)
proof (induction n)
  case 0
  then show ?case using assms by (simp add: refilled_def)
next
  case (Suc n)
  then obtain r1 p1 where a: "rfold (\<lambda>_ (r, p). rbind (prepare_rx_desc E (ring_idx (q_log r) (q_prod r)) (r, p))
      (\<lambda>(r, p). Inr (r\<lparr>q_prod := q_prod r + 1\<rparr>, p))) [0..<n] (r, p) = Inr (r1, p1)" "refilled r r1" "q_prod r1 = q_prod r + n"
      "pool_ok cap p1 (posted r1 @ rest)" "pkt_mem p1 = pkt_mem p" by auto
  have "ring_ok r1" "q_prod r1 < q_cons r1 + 2 ^ q_log r1" "2 ^ q_log r1 + length rest \<le> cap"
    using a(2,3) Suc.prems assms(4) by (simp_all add: refilled_def)
  from prepare_rx_ok [OF this(1,2) a(4) this(3)] obtain k r2 p2 where
    b: "rbind (prepare_rx_desc E (ring_idx (q_log r1) (q_prod r1)) (r1, p1)) (\<lambda>(r, p). Inr (r\<lparr>q_prod := q_prod r + 1\<rparr>, p)) = Inr (r2, p2)"
    "posted_one r1 k [region_size E k, region_addr E k] r2" "pool_ok cap p2 (posted r2 @ rest)" "pkt_mem p2 = pkt_mem p1" "k < cap" by blast
  have "refilled r r2" using a(2,3) b(2,5) by (auto simp: refilled_def posted_one_def)
  then show ?case using a b by (auto simp: rfold_append posted_one_def)
qed

lemma refill_ok:
  assumes ok: "ring_ok r" and pool: "pool_ok cap p (posted r @ rest)" and big: "2 ^ q_log r + length rest \<le> cap"
  obtains b r' p' where "refill_rx E (r, p) = Inr (b, r', p')" "refilled r r'" "pool_ok cap p' (posted r' @ rest)" "pkt_mem p' = pkt_mem p"
    "b \<longleftrightarrow> q_prod r + 8 \<le> q_cons r + 2 ^ q_log r" "q_prod r' = (if b then q_cons r + 2 ^ q_log r else q_prod r)"
proof -
  have w: "q_cons r \<le> q_prod r" "q_prod r \<le> q_cons r + 2 ^ q_log r" using ok by (simp_all add: ring_ok_def)
  define n where "n = q_cons r + 2 ^ q_log r - q_prod r"
  have m: "int (q_size r) - (int (q_prod r) - int (q_cons r)) = int n" using w by (simp add: q_size_def n_def of_nat_diff)
  show thesis
  proof (cases "n < 8")
    case True
    then have "refill_rx E (r, p) = Inr (False, r, p)" unfolding refill_rx_def prod.case m Let_def by simp
    moreover have "\<not> q_prod r + 8 \<le> q_cons r + 2 ^ q_log r" using True w unfolding n_def by linarith
    ultimately show thesis using that [of False r p] ok pool by (simp add: refilled_def)
  next
    case False
    have "q_prod r + n \<le> q_cons r + 2 ^ q_log r" using w by (simp add: n_def)
    from refill_loop [OF ok this pool big] obtain r' p' where
      l: "rfold (\<lambda>_ (r, p). rbind (prepare_rx_desc E (ring_idx (q_log r) (q_prod r)) (r, p))
        (\<lambda>(r, p). Inr (r\<lparr>q_prod := q_prod r + 1\<rparr>, p))) [0..<n] (r, p) = Inr (r', p')" "refilled r r'" "q_prod r' = q_prod r + n"
        "pool_ok cap p' (posted r' @ rest)" "pkt_mem p' = pkt_mem p" by blast
    have "refill_rx E (r, p) = Inr (True, r', p')" unfolding refill_rx_def prod.case m Let_def using False l(1) by simp
    moreover have "q_prod r + 8 \<le> q_cons r + 2 ^ q_log r" "q_prod r' = q_cons r + 2 ^ q_log r" using False w l(3) unfolding n_def by linarith+
    ultimately show thesis using that [of True r' p'] l by simp
  qed
qed

end

end
