(* ===== verification/NicProto.thy ===== *)
theory NicProto imports NicOps begin

text \<open>
  The prototype network driver (\<open>src/cndm_proto/tb/cndm_proto.py\<close>): a port with its four
  rings, the register writes, the interrupt handler, and the driver's start.  Then the port with a
  device that consumes descriptors and writes completions.
\<close>

section \<open>Ports\<close>

text \<open>The rings of a port have 256 entries.\<close>

definition proto_log :: nat where "proto_log = 8"

record pport =
  rxq :: ring
  rxcq :: cring
  txq :: ring
  txcq :: cring
  rx_queue :: "bytes list"

text \<open>A memory region for a ring: its address and what it holds.\<close>

type_synonym ring_mem = "int \<times> bytes"

type_synonym reg_writes = "(nat \<times> int) list"

definition pport_new :: "bytes \<Rightarrow> bytes \<Rightarrow> bytes \<Rightarrow> bytes \<Rightarrow> pport" where
  "pport_new m1 m2 m3 m4 = \<lparr>
     rxq = (ring_new proto_log)\<lparr>q_buf := m1\<rparr>, rxcq = (cring_new proto_log)\<lparr>c_buf := m2\<rparr>,
     txq = (ring_new proto_log)\<lparr>q_buf := m3\<rparr>, txcq = (cring_new proto_log)\<lparr>c_buf := m4\<rparr>, rx_queue = []\<rparr>"

text \<open>The set-up of a queue and of a completion queue.\<close>

definition queue_regs :: "nat \<Rightarrow> int \<Rightarrow> reg_writes" where
  "queue_regs base a = [(base, 0), (base + 4, 0), (base + 8, a AND 0xffffffff), (base + 12, drop_bit 32 a),
     (base, 1 OR push_bit 16 (int proto_log))]"

definition cqueue_regs :: "nat \<Rightarrow> int \<Rightarrow> reg_writes" where
  "cqueue_regs base a = [(base, 0), (base + 8, a AND 0xffffffff), (base + 12, drop_bit 32 a),
     (base, 1 OR push_bit 16 (int proto_log))]"

definition port_refill :: "mem_env \<Rightarrow> pport \<times> pkts \<Rightarrow> (reg_writes \<times> pport \<times> pkts) result" where
  "port_refill E = (\<lambda>(t, p). rbind (refill_rx E (rxq t, p)) (\<lambda>(db, r, p').
     Inr (if db then [(0x204, int (q_prod r) AND 0xffff)] else [], t\<lparr>rxq := r\<rparr>, p')))"

definition port_init :: "mem_env \<Rightarrow> ring_mem \<Rightarrow> ring_mem \<Rightarrow> ring_mem \<Rightarrow> ring_mem \<Rightarrow> pkts \<Rightarrow> (reg_writes \<times> pport \<times> pkts) result" where
  "port_init E m1 m2 m3 m4 p =
     rbind (port_refill E (pport_new (snd m1) (snd m2) (snd m3) (snd m4), p)) (\<lambda>(w, t, p').
     Inr (queue_regs 0x200 (fst m1) @ cqueue_regs 0x400 (fst m2) @ queue_regs 0x100 (fst m3) @ cqueue_regs 0x300 (fst m4) @ w, t, p'))"

definition port_xmit :: "mem_env \<Rightarrow> bytes \<Rightarrow> pport \<times> pkts \<Rightarrow> (reg_writes \<times> pport \<times> pkts) result" where
  "port_xmit E d = (\<lambda>(t, p). rbind (start_xmit_ring E d (txq t, p)) (\<lambda>(r, p').
     Inr ([(0x104, int (q_prod r) AND 0xffff)], t\<lparr>txq := r\<rparr>, p')))"

definition port_recv_nowait :: "pport \<Rightarrow> (bytes \<times> pport) result" where
  "port_recv_nowait t = (case rx_queue t of [] \<Rightarrow> Inl QueueEmpty | d # rest \<Rightarrow> Inr (d, t\<lparr>rx_queue := rest\<rparr>))"

definition port_process_tx :: "pport \<times> pkts \<Rightarrow> (pport \<times> pkts) result" where
  "port_process_tx = (\<lambda>(t, p). rbind (process_tx_ring (txcq t, txq t, p)) (\<lambda>(c, r, p'). Inr (t\<lparr>txcq := c, txq := r\<rparr>, p')))"

definition port_process_rx :: "mem_env \<Rightarrow> pport \<times> pkts \<Rightarrow> (reg_writes \<times> pport \<times> pkts) result" where
  "port_process_rx E = (\<lambda>(t, p). rbind (process_rx_ring E (rxcq t, rxq t, p, rx_queue t)) (\<lambda>(c, r, p', rx).
     port_refill E (t\<lparr>rxcq := c, rxq := r, rx_queue := rx\<rparr>, p')))"

definition port_interrupt :: "mem_env \<Rightarrow> pport \<times> pkts \<Rightarrow> (reg_writes \<times> pport \<times> pkts) result" where
  "port_interrupt E x = rbind (port_process_rx E x) (\<lambda>(w, y). rbind (port_process_tx y) (\<lambda>(t, p). Inr (w, t, p)))"

text \<open>\<open>free_tx_buf\<close> and \<open>free_rx_buf\<close>.\<close>

definition port_free_tx :: "pport \<times> pkts \<Rightarrow> (pport \<times> pkts) result" where
  "port_free_tx = (\<lambda>(t, p). rbind (free_ring_buf (txq t, p)) (\<lambda>(r, p'). Inr (t\<lparr>txq := r\<rparr>, p')))"

definition port_free_rx :: "pport \<times> pkts \<Rightarrow> (pport \<times> pkts) result" where
  "port_free_rx = (\<lambda>(t, p). rbind (free_ring_buf (rxq t, p)) (\<lambda>(r, p'). Inr (t\<lparr>rxq := r\<rparr>, p')))"

section \<open>The driver\<close>

definition pkts_new :: pkts where "pkts_new = \<lparr>free_packets = [], allocated_packets = [], pkt_mem = (\<lambda>_. [])\<rparr>"

text \<open>The start of the driver: \<open>rd\<close> reads the registers, \<open>mems\<close> gives the ring memory of a
  port; each port writes in its window.\<close>

definition proto_start :: "mem_env \<Rightarrow> (nat \<Rightarrow> nat) \<Rightarrow> (nat \<Rightarrow> ring_mem \<times> ring_mem \<times> ring_mem \<times> ring_mem) \<Rightarrow>
    ((nat \<times> int) list \<times> pport list \<times> pkts) result" where
  "proto_start E rd mems = rfold (\<lambda>k (ws, ts, p).
     let (m1, m2, m3, m4) = mems k in
     rbind (port_init E m1 m2 m3 m4 p) (\<lambda>(w, t, p').
     Inr (ws @ map (\<lambda>(r, v). (rd 0x104 + rd 0x108 * k + r, v)) w, ts @ [t], p'))) [0..<rd 0x100] ([], [], pkts_new)"

section \<open>With a device\<close>

text \<open>The device's registers, its pointers, and what it has sent on the wire.\<close>

record nic_dev =
  dv_regs :: "nat \<Rightarrow> int"
  dv_tx :: nat
  dv_rx :: nat
  dv_wire :: "bytes list"

definition reg_put :: "reg_writes \<Rightarrow> nic_dev \<Rightarrow> nic_dev" where
  "reg_put w v = v\<lparr>dv_regs := fold (\<lambda>(r, x) g. g(r := x)) w (dv_regs v)\<rparr>"

definition dev_new :: nic_dev where "dev_new = \<lparr>dv_regs = (\<lambda>_. 0), dv_tx = 0, dv_rx = 0, dv_wire = []\<rparr>"

text \<open>A descriptor is available when the 16 bits of the doorbell are not those of the pointer.\<close>

definition doorbell :: "nic_dev \<Rightarrow> nat \<Rightarrow> nat \<Rightarrow> bool" where
  "doorbell v r ptr \<longleftrightarrow> dv_regs v r \<noteq> int ptr mod 65536"

inductive nic_reach :: "mem_env \<Rightarrow> nat \<Rightarrow> bytes list \<Rightarrow> bytes list \<Rightarrow> bytes list \<Rightarrow> pport \<times> pkts \<times> nic_dev \<Rightarrow> bool" for E cap where
  Init: "length m1 = 2 ^ proto_log * 16 \<Longrightarrow> length m3 = 2 ^ proto_log * 16 \<Longrightarrow>
    port_init E (a1, m1) (a2, replicate (2 ^ proto_log * 16) 0) (a3, m3) (a4, replicate (2 ^ proto_log * 16) 0) pkts_new = Inr (w, t, p) \<Longrightarrow>
    nic_reach E cap [] [] [] (t, p, reg_put w dev_new)"
| Send: "nic_reach E cap tx rx got (t, p, v) \<Longrightarrow> q_prod (txq t) < q_cons (txq t) + 2 ^ proto_log \<Longrightarrow>
    \<forall>k<cap. int (length d) + 10 \<le> region_size E k \<Longrightarrow> port_xmit E d (t, p) = Inr (w, t', p') \<Longrightarrow>
    nic_reach E cap (tx @ [d]) rx got (t', p', reg_put w v)"
| IrqRx: "nic_reach E cap tx rx got (t, p, v) \<Longrightarrow> port_process_rx E (t, p) = Inr (w, t', p') \<Longrightarrow> nic_reach E cap tx rx got (t', p', reg_put w v)"
| IrqTx: "nic_reach E cap tx rx got (t, p, v) \<Longrightarrow> port_process_tx (t, p) = Inr (t', p') \<Longrightarrow> nic_reach E cap tx rx got (t', p', v)"
| Recv: "nic_reach E cap tx rx got (t, p, v) \<Longrightarrow> port_recv_nowait t = Inr (d, t') \<Longrightarrow> nic_reach E cap tx rx (got @ [d]) (t', p, v)"
| DevTx: "nic_reach E cap tx rx got (t, p, v) \<Longrightarrow> doorbell v 0x104 (dv_tx v) \<Longrightarrow>
    unpack_from desc_fmt (q_buf (txq t)) (16 * (dv_tx v mod 2 ^ proto_log)) = Inr [len, ptr] \<Longrightarrow>
    fits_fmt cpl_fmt e \<Longrightarrow> entry_new proto_log (dv_tx v) e \<Longrightarrow>
    pack_into cpl_fmt (c_buf (txcq t)) (16 * (dv_tx v mod 2 ^ proto_log)) e = Inr m \<Longrightarrow>
    nic_reach E cap tx rx got (t\<lparr>txcq := (txcq t)\<lparr>c_buf := m\<rparr>\<rparr>, p,
      v\<lparr>dv_tx := dv_tx v + 1, dv_wire := dv_wire v @ [dma_read E (pkt_mem p) ptr len]\<rparr>)"
| DevRx: "nic_reach E cap tx rx got (t, p, v) \<Longrightarrow> doorbell v 0x204 (dv_rx v) \<Longrightarrow>
    unpack_from desc_fmt (q_buf (rxq t)) (16 * (dv_rx v mod 2 ^ proto_log)) = Inr [len, ptr] \<Longrightarrow>
    int (length d) \<le> len \<Longrightarrow> fits_fmt cpl_fmt e \<Longrightarrow> entry_new proto_log (dv_rx v) e \<Longrightarrow> e ! 1 = int (length d) \<Longrightarrow>
    pack_into cpl_fmt (c_buf (rxcq t)) (16 * (dv_rx v mod 2 ^ proto_log)) e = Inr m \<Longrightarrow>
    nic_reach E cap tx (rx @ [d]) got (t\<lparr>rxcq := (rxcq t)\<lparr>c_buf := m\<rparr>\<rparr>, p\<lparr>pkt_mem := dma_write E ptr d (pkt_mem p)\<rparr>, v\<lparr>dv_rx := dv_rx v + 1\<rparr>)"

section \<open>The invariant\<close>

text \<open>A descriptor ring and its completion queue against the device's pointer.\<close>

definition chan_ok :: "ring \<Rightarrow> cring \<Rightarrow> nat \<Rightarrow> bool" where
  "chan_ok r c dv \<longleftrightarrow> ring_ok r \<and> q_log r = proto_log \<and> c_log c = proto_log \<and> c_cons c = q_cons r \<and>
     synced cpl_fmt proto_log (c_buf c) dv \<and> q_cons r \<le> dv \<and> dv \<le> q_prod r"

definition tx_slot :: "mem_env \<Rightarrow> bytes list \<Rightarrow> (nat \<Rightarrow> bytes) \<Rightarrow> nat \<Rightarrow> nat \<Rightarrow> int list result \<Rightarrow> bool" where
  "tx_slot E tx mem j k d \<longleftrightarrow> d = Inr [int (length (tx ! j)), region_addr E k + 10] \<and> (\<exists>m. region_write E k 10 (tx ! j) m = Inr (mem k))"

definition rx_slot :: "mem_env \<Rightarrow> bytes list \<Rightarrow> (nat \<Rightarrow> bytes) \<Rightarrow> cring \<Rightarrow> nat \<Rightarrow> nat \<Rightarrow> int list result \<Rightarrow> bool" where
  "rx_slot E rx mem c j k d \<longleftrightarrow> d = Inr [region_size E k, region_addr E k] \<and>
     (j < length rx \<longrightarrow> (\<exists>e. unpack_from cpl_fmt (c_buf c) (ring_idx (c_log c) j * 16) = Inr e \<and> region_head E (e ! 1) (mem k) = rx ! j))"

definition nic_inv :: "mem_env \<Rightarrow> nat \<Rightarrow> bytes list \<Rightarrow> bytes list \<Rightarrow> bytes list \<Rightarrow> pport \<times> pkts \<times> nic_dev \<Rightarrow> bool" where
  "nic_inv E cap tx rx got = (\<lambda>(t, p, v).
     chan_ok (txq t) (txcq t) (dv_tx v) \<and> chan_ok (rxq t) (rxcq t) (dv_rx v) \<and> pool_ok cap p (posted (txq t) @ posted (rxq t)) \<and>
     dv_regs v 0x104 = int (q_prod (txq t)) mod 65536 \<and> dv_regs v 0x204 = int (q_prod (rxq t)) mod 65536 \<and>
     length tx = q_prod (txq t) \<and> dv_wire v = take (dv_tx v) tx \<and> slots_ok (tx_slot E tx (pkt_mem p)) (txq t) \<and>
     length rx = dv_rx v \<and> got @ rx_queue t = take (q_cons (rxq t)) rx \<and> slots_ok (rx_slot E rx (pkt_mem p) (rxcq t)) (rxq t))"

lemma slots_ok_mono:
  assumes "slots_ok Q r" "\<And>j k d. q_cons r \<le> j \<Longrightarrow> j < q_prod r \<Longrightarrow> k \<in> set (posted r) \<Longrightarrow> k = slot r j \<Longrightarrow> Q j k d \<Longrightarrow> Q' j k d"
  shows "slots_ok Q' r"
  using assms unfolding slots_ok_def posted_def by auto

lemma mod16: "n AND 0xffff = n mod 65536" for n :: int
proof -
  have "n AND 0xffff = n AND mask 16" by (simp add: mask_eq_exp_minus_1)
  also have "\<dots> = n mod 65536" by (simp add: take_bit_eq_mask [symmetric] take_bit_eq_mod)
  finally show ?thesis .
qed

lemma ahead:
  assumes "doorbell v r dv" "dv_regs v r = int pp mod 65536" "dv \<le> pp" shows "dv < pp"
  using assms by (cases "dv = pp") (auto simp: doorbell_def)

lemma chan_ok_new:
  "chan_ok (ring_new proto_log\<lparr>q_buf := m\<rparr>) (cring_new proto_log) 0" if "length m = 2 ^ proto_log * 16"
  using that synced_zeros [of cpl_fmt proto_log]
  by (simp add: chan_ok_def ring_ok_def ring_new_def cring_new_def cpl_fmt_def)

lemma chan_ok_post: "chan_ok r c dv \<Longrightarrow> posted_one r k vs r' \<Longrightarrow> chan_ok r' c dv"
  by (simp add: chan_ok_def posted_one_def)

lemma chan_ok_drain: "chan_ok r c dv \<Longrightarrow> drained r dv r' \<Longrightarrow> chan_ok r' (c\<lparr>c_cons := dv\<rparr>) dv"
  by (auto simp: chan_ok_def drained_def)

lemma chan_ok_write:
  assumes ch: "chan_ok r c dv" and lt: "dv < q_prod r" and e: "fits_fmt cpl_fmt e" "entry_new proto_log dv e"
    and w: "pack_into cpl_fmt (c_buf c) (16 * (dv mod 2 ^ proto_log)) e = Inr m"
  shows "chan_ok r (c\<lparr>c_buf := m\<rparr>) (Suc dv)" "unpack_from cpl_fmt m (ring_idx proto_log dv * 16) = Inr e"
    "\<And>j. q_cons r \<le> j \<Longrightarrow> j < dv \<Longrightarrow> unpack_from cpl_fmt m (ring_idx proto_log j * 16) = unpack_from cpl_fmt (c_buf c) (ring_idx proto_log j * 16)"
proof -
  have sy: "synced cpl_fmt proto_log (c_buf c) dv" using ch by (simp add: chan_ok_def)
  note s = synced_write [OF sy e w]
  show "chan_ok r (c\<lparr>c_buf := m\<rparr>) (Suc dv)" using ch lt s(1) by (simp add: chan_ok_def)
  show "unpack_from cpl_fmt m (ring_idx proto_log dv * 16) = Inr e" by (rule s(2))
  show "unpack_from cpl_fmt m (ring_idx proto_log j * 16) = unpack_from cpl_fmt (c_buf c) (ring_idx proto_log j * 16)"
    if "q_cons r \<le> j" "j < dv" for j
  proof (rule s(3) [OF that(2)])
    have "q_prod r \<le> q_cons r + 2 ^ proto_log" using ch by (auto simp: chan_ok_def ring_ok_def)
    then show "dv < j + 2 ^ proto_log" using that lt by linarith
  qed
qed

lemma map_nth_upt: "map ((!) xs) [a..<length xs] = drop a xs"
  by (cases "a \<le> length xs") (auto intro: nth_equalityI)

lemma posted_slot: "q_cons r \<le> j \<Longrightarrow> j < q_prod r \<Longrightarrow> slot r j \<in> set (posted r)"
  by (simp add: posted_def)

lemma chan_posted: "chan_ok r c dv \<Longrightarrow> length (posted r) \<le> 2 ^ proto_log"
  by (auto simp: chan_ok_def ring_ok_def posted_def)

lemma held_cap: "pool_ok cap p held \<Longrightarrow> k \<in> set held \<Longrightarrow> k < cap"
  using pool_distinct [of cap p held] by (auto simp: pool_ok_def)

lemma slot_inj:
  assumes "distinct (posted r)" "q_cons r \<le> i" "i < q_prod r" "q_cons r \<le> j" "j < q_prod r" "slot r i = slot r j"
  shows "i = j"
proof -
  have "inj_on (slot r) (set [q_cons r..<q_prod r])" using assms(1) unfolding posted_def distinct_map by blast
  then show ?thesis by (rule inj_onD) (use assms(2-) in auto)
qed

context dma_memory begin

lemma inv_init:
  assumes cap: "2 * 2 ^ proto_log \<le> cap" and m: "length m1 = 2 ^ proto_log * 16" "length m3 = 2 ^ proto_log * 16"
    and i: "port_init E (a1, m1) (a2, replicate (2 ^ proto_log * 16) 0) (a3, m3) (a4, replicate (2 ^ proto_log * 16) 0) pkts_new = Inr (w, t, p)"
  shows "nic_inv E cap [] [] [] (t, p, reg_put w dev_new)"
proof -
  let ?r = "ring_new proto_log\<lparr>q_buf := m1\<rparr>" and ?t = "pport_new m1 (replicate (2 ^ proto_log * 16) 0) m3 (replicate (2 ^ proto_log * 16) 0)"
  have c: "cring_new proto_log\<lparr>c_buf := replicate (2 ^ proto_log * 16) 0\<rparr> = cring_new proto_log" by (simp add: cring_new_def)
  have ch: "chan_ok ?r (cring_new proto_log) 0" "chan_ok (ring_new proto_log\<lparr>q_buf := m3\<rparr>) (cring_new proto_log) 0"
    using chan_ok_new m by blast+
  have ok: "ring_ok ?r" using ch(1) by (simp add: chan_ok_def)
  have "pool_ok cap pkts_new (posted ?r @ [])" by (simp add: pool_ok_def pkts_new_def posted_def ring_new_def)
  moreover have "2 ^ q_log ?r + length ([] :: nat list) \<le> cap" using cap by (simp add: ring_new_def)
  ultimately obtain b r' p' where r: "refill_rx E (?r, pkts_new) = Inr (b, r', p')" "refilled ?r r'" "pool_ok cap p' (posted r' @ [])"
      "pkt_mem p' = pkt_mem pkts_new" "b \<longleftrightarrow> q_prod ?r + 8 \<le> q_cons ?r + 2 ^ q_log ?r" "q_prod r' = (if b then q_cons ?r + 2 ^ q_log ?r else q_prod ?r)"
    using refill_ok [OF ok] by blast
  have b: "b" "q_prod r' = 256" using r(5,6) by (simp_all add: ring_new_def proto_log_def)
  have e: "t = ?t\<lparr>rxq := r'\<rparr>" "p = p'" "w = queue_regs 0x200 a1 @ cqueue_regs 0x400 a2 @ queue_regs 0x100 a3 @ cqueue_regs 0x300 a4 @ [(0x204, int (q_prod r') AND 0xffff)]"
    using i r(1) b by (simp_all add: port_init_def port_refill_def pport_new_def c)
  have rr: "chan_ok r' (cring_new proto_log) 0" using ch(1) r(2) by (simp add: chan_ok_def refilled_def)
  have "slots_ok (rx_slot E [] (pkt_mem p') (cring_new proto_log)) ?r" by (simp add: slots_ok_def ring_new_def)
  then have sl: "slots_ok (rx_slot E [] (pkt_mem p') (cring_new proto_log)) r'"
    using r(2) by (auto simp: refilled_def rx_slot_def)
  have regs: "dv_regs (reg_put w dev_new) 0x104 = 0" "dv_regs (reg_put w dev_new) 0x204 = int (q_prod r') mod 65536"
    by (simp_all add: e(3) reg_put_def dev_new_def queue_regs_def cqueue_regs_def mod16)
  have tq: "txq t = ring_new proto_log\<lparr>q_buf := m3\<rparr>" "txcq t = cring_new proto_log" "rxq t = r'" "rxcq t = cring_new proto_log" "rx_queue t = []"
    by (simp_all add: e(1) pport_new_def c)
  have d: "dv_tx (reg_put w dev_new) = 0" "dv_rx (reg_put w dev_new) = 0" "dv_wire (reg_put w dev_new) = []" by (simp_all add: reg_put_def dev_new_def)
  have q0: "q_prod (ring_new proto_log\<lparr>q_buf := m3\<rparr>) = 0" "posted (ring_new proto_log\<lparr>q_buf := m3\<rparr>) = []"
    "slots_ok (tx_slot E [] (pkt_mem p)) (ring_new proto_log\<lparr>q_buf := m3\<rparr>)"
    by (simp_all add: ring_new_def posted_def slots_ok_def)
  have "q_cons r' = 0" using r(2) by (simp add: refilled_def ring_new_def)
  then show ?thesis using ch(2) rr r(3) sl regs q0 e(2) by (simp add: nic_inv_def tq d)
qed

lemma inv_send:
  assumes cap: "2 * 2 ^ proto_log \<le> cap" and inv: "nic_inv E cap tx rx got (t, p, v)" and room: "q_prod (txq t) < q_cons (txq t) + 2 ^ proto_log"
    and d: "\<forall>k<cap. int (length d) + 10 \<le> region_size E k" and x: "port_xmit E d (t, p) = Inr (w, t', p')"
  shows "nic_inv E cap (tx @ [d]) rx got (t', p', reg_put w v)"
proof -
  have i: "chan_ok (txq t) (txcq t) (dv_tx v)" "chan_ok (rxq t) (rxcq t) (dv_rx v)" "pool_ok cap p (posted (txq t) @ posted (rxq t))"
    "dv_regs v 0x204 = int (q_prod (rxq t)) mod 65536" "length tx = q_prod (txq t)" "dv_wire v = take (dv_tx v) tx"
    "slots_ok (tx_slot E tx (pkt_mem p)) (txq t)" "slots_ok (rx_slot E rx (pkt_mem p) (rxcq t)) (rxq t)"
    using inv by (simp_all add: nic_inv_def)
  have ok: "ring_ok (txq t)" "q_log (txq t) = proto_log" using i(1) by (simp_all add: chan_ok_def)
  have rm: "q_prod (txq t) < q_cons (txq t) + 2 ^ q_log (txq t)" using room ok(2) by simp
  have bg: "2 ^ q_log (txq t) + length (posted (rxq t)) \<le> cap" using chan_posted [OF i(2)] cap ok(2) by simp
  obtain k m r' q where
    s: "start_xmit_ring E d (txq t, p) = Inr (r', q)" "posted_one (txq t) k [int (length d), region_addr E k + 10] r'"
      "k \<notin> set (posted (txq t) @ posted (rxq t))" "pool_ok cap q (posted r' @ posted (rxq t))" "\<And>i. i \<noteq> k \<Longrightarrow> pkt_mem q i = pkt_mem p i"
      "region_write E k 10 d m = Inr (pkt_mem q k)" "k < cap" by (rule start_xmit_ok [OF ok(1) rm i(3) d bg]) (rule that)
  have e: "t' = t\<lparr>txq := r'\<rparr>" "p' = q" "w = [(0x104, int (q_prod r') AND 0xffff)]" using x s(1) by (simp_all add: port_xmit_def)
  have ch: "chan_ok r' (txcq t) (dv_tx v)" using chan_ok_post [OF i(1) s(2)] .
  have "slots_ok (tx_slot E (tx @ [d]) (pkt_mem q)) (txq t)"
  proof (rule slots_ok_mono [OF i(7)])
    fix j k' x assume j: "q_cons (txq t) \<le> j" "j < q_prod (txq t)" "k' \<in> set (posted (txq t))" and h: "tx_slot E tx (pkt_mem p) j k' x"
    have "k' \<noteq> k" using j(3) s(3) by auto
    then show "tx_slot E (tx @ [d]) (pkt_mem q) j k' x" using h s(5) j(2) i(5) by (simp add: tx_slot_def nth_append)
  qed
  moreover have "tx_slot E (tx @ [d]) (pkt_mem q) (q_prod (txq t)) k (Inr [int (length d), region_addr E k + 10])"
    using s(6) i(5) by (auto simp: tx_slot_def nth_append)
  ultimately have st: "slots_ok (tx_slot E (tx @ [d]) (pkt_mem q)) r'" using s(2) by (auto simp: posted_one_def)
  have sr: "slots_ok (rx_slot E rx (pkt_mem q) (rxcq t)) (rxq t)"
  proof (rule slots_ok_mono [OF i(8)])
    fix j k' x assume j: "k' \<in> set (posted (rxq t))" and h: "rx_slot E rx (pkt_mem p) (rxcq t) j k' x"
    have "k' \<noteq> k" using j s(3) by auto
    then show "rx_slot E rx (pkt_mem q) (rxcq t) j k' x" using h s(5) by (simp add: rx_slot_def)
  qed
  have "dv_tx v \<le> q_prod (txq t)" using i(1) by (simp add: chan_ok_def)
  then show ?thesis using inv ch s(2,4) st sr i(4-6) by (simp add: nic_inv_def e reg_put_def mod16 posted_one_def)
qed

lemma inv_rx:
  assumes cap: "2 * 2 ^ proto_log \<le> cap" and inv: "nic_inv E cap tx rx got (t, p, v)"
  obtains w t' p' where "port_process_rx E (t, p) = Inr (w, t', p')" "nic_inv E cap tx rx got (t', p', reg_put w v)"
    "got @ rx_queue t' = rx"
proof -
  have i: "chan_ok (txq t) (txcq t) (dv_tx v)" "chan_ok (rxq t) (rxcq t) (dv_rx v)" "pool_ok cap p (posted (txq t) @ posted (rxq t))"
    "length rx = dv_rx v" "got @ rx_queue t = take (q_cons (rxq t)) rx"
    "slots_ok (rx_slot E rx (pkt_mem p) (rxcq t)) (rxq t)" using inv by (simp_all add: nic_inv_def)
  have c1: "ring_ok (rxq t)" "synced cpl_fmt (c_log (rxcq t)) (c_buf (rxcq t)) (dv_rx v)" "c_cons (rxcq t) = q_cons (rxq t)" "q_cons (rxq t) \<le> dv_rx v"
    "dv_rx v \<le> q_prod (rxq t)" "dv_rx v \<le> c_cons (rxcq t) + 2 ^ c_log (rxcq t)" "q_log (rxq t) = proto_log"
    using i(2) by (auto simp: chan_ok_def ring_ok_def)
  have p1: "pool_ok cap p (posted (rxq t) @ posted (txq t))" by (rule pool_ok_perm [OF i(3)]) simp
  have "slots_ok (\<lambda>j k d. j < dv_rx v \<longrightarrow> (\<exists>e. unpack_from cpl_fmt (c_buf (rxcq t)) (ring_idx (c_log (rxcq t)) j * 16) = Inr e \<and>
      region_head E (e ! 1) (pkt_mem p k) = rx ! j)) (rxq t)"
    by (rule slots_ok_mono [OF i(6)]) (use i(4) in \<open>auto simp: rx_slot_def\<close>)
  from process_rx_ok [OF c1(1-6) p1 this, of "rx_queue t"] obtain r1 q1 where
    a: "process_rx_ring E (rxcq t, rxq t, p, rx_queue t) = Inr ((rxcq t)\<lparr>c_cons := dv_rx v\<rparr>, r1, q1, rx_queue t @ map ((!) rx) [q_cons (rxq t)..<dv_rx v])"
      "drained (rxq t) (dv_rx v) r1" "pool_ok cap q1 (posted r1 @ posted (txq t))" "pkt_mem q1 = pkt_mem p" by blast
  have ok1: "ring_ok r1" using a(2) by (simp add: drained_def)
  have "2 ^ q_log r1 + length (posted (txq t)) \<le> cap" using a(2) c1(7) chan_posted [OF i(1)] cap by (simp add: drained_def)
  from refill_ok [OF ok1 a(3) this] obtain b r2 q2 where
    f: "refill_rx E (r1, q1) = Inr (b, r2, q2)" "refilled r1 r2" "pool_ok cap q2 (posted r2 @ posted (txq t))" "pkt_mem q2 = pkt_mem q1"
      "q_prod r2 = (if b then q_cons r1 + 2 ^ q_log r1 else q_prod r1)" by blast
  let ?rx = "rx_queue t @ map ((!) rx) [q_cons (rxq t)..<dv_rx v]" and ?w = "if b then [(0x204 :: nat, int (q_prod r2) AND 0xffff)] else []"
  let ?c = "(rxcq t)\<lparr>c_cons := dv_rx v\<rparr>" and ?t = "t\<lparr>rxcq := (rxcq t)\<lparr>c_cons := dv_rx v\<rparr>, rxq := r2, rx_queue := ?rx\<rparr>"
  have e: "port_process_rx E (t, p) = Inr (?w, ?t, q2)" using a(1) f(1) by (simp add: port_process_rx_def port_refill_def)
  have "map ((!) rx) [q_cons (rxq t)..<dv_rx v] = drop (q_cons (rxq t)) rx" unfolding i(4) [symmetric] by (rule map_nth_upt)
  then have rxd: "got @ ?rx = rx" unfolding append_assoc [symmetric] i(5) by (simp only: append_take_drop_id)
  have ch: "chan_ok r2 ?c (dv_rx v)" using chan_ok_drain [OF i(2) a(2)] f(2) by (auto simp: chan_ok_def refilled_def)
  have "slots_ok (rx_slot E rx (pkt_mem p) (rxcq t)) r1" using a(2) i(6) by (simp add: drained_def)
  then have s1: "slots_ok (rx_slot E rx (pkt_mem p) ?c) r1" by (rule slots_ok_mono) (simp add: rx_slot_def)
  have "rx_slot E rx (pkt_mem p) ?c j k (Inr [region_size E k, region_addr E k])" if "q_prod r1 \<le> j" for j k
    using that a(2) c1(5) i(4) by (simp add: rx_slot_def drained_def)
  then have sr: "slots_ok (rx_slot E rx (pkt_mem q2) ?c) r2" using s1 f(2,4) a(4) by (auto simp: refilled_def)
  have p2: "pool_ok cap q2 (posted (txq t) @ posted r2)" by (rule pool_ok_perm [OF f(3)]) simp
  have "nic_inv E cap tx rx got (?t, q2, reg_put ?w v)"
    using inv ch p2 a(2,4) f(2,4,5) sr rxd by (auto simp: nic_inv_def reg_put_def mod16 drained_def refilled_def)
  then show thesis using that e rxd by simp
qed

lemma inv_tx:
  assumes inv: "nic_inv E cap tx rx got (t, p, v)"
  obtains t' p' where "port_process_tx (t, p) = Inr (t', p')" "nic_inv E cap tx rx got (t', p', v)"
    "q_cons (txq t') = dv_tx v" "rx_queue t' = rx_queue t"
proof -
  have i: "chan_ok (txq t) (txcq t) (dv_tx v)" "pool_ok cap p (posted (txq t) @ posted (rxq t))" "slots_ok (tx_slot E tx (pkt_mem p)) (txq t)"
    using inv by (simp_all add: nic_inv_def)
  have c2: "ring_ok (txq t)" "synced cpl_fmt (c_log (txcq t)) (c_buf (txcq t)) (dv_tx v)" "c_cons (txcq t) = q_cons (txq t)" "q_cons (txq t) \<le> dv_tx v"
    "dv_tx v \<le> q_prod (txq t)" "dv_tx v \<le> c_cons (txcq t) + 2 ^ c_log (txcq t)"
    using i(1) by (auto simp: chan_ok_def ring_ok_def)
  from process_tx_ok [OF c2 i(2)] obtain r q where
    g: "process_tx_ring (txcq t, txq t, p) = Inr ((txcq t)\<lparr>c_cons := dv_tx v\<rparr>, r, q)" "drained (txq t) (dv_tx v) r"
      "pool_ok cap q (posted r @ posted (rxq t))" "pkt_mem q = pkt_mem p" by blast
  let ?t = "t\<lparr>txcq := (txcq t)\<lparr>c_cons := dv_tx v\<rparr>, txq := r\<rparr>"
  have "port_process_tx (t, p) = Inr (?t, q)" using g(1) by (simp add: port_process_tx_def)
  moreover have "nic_inv E cap tx rx got (?t, q, v)"
    using inv chan_ok_drain [OF i(1) g(2)] g(2-4) by (simp add: nic_inv_def drained_def)
  ultimately show thesis using that g(2) by (simp add: drained_def)
qed

lemma inv_irq:
  assumes cap: "2 * 2 ^ proto_log \<le> cap" and inv: "nic_inv E cap tx rx got (t, p, v)"
  shows "\<exists>w t' p'. port_interrupt E (t, p) = Inr (w, t', p') \<and> got @ rx_queue t' = rx \<and> q_cons (txq t') = dv_tx v"
proof -
  obtain w t1 p1 where 1: "port_process_rx E (t, p) = Inr (w, t1, p1)" "nic_inv E cap tx rx got (t1, p1, reg_put w v)" "got @ rx_queue t1 = rx"
    by (rule inv_rx [OF cap inv])
  obtain t2 p2 where 2: "port_process_tx (t1, p1) = Inr (t2, p2)" "q_cons (txq t2) = dv_tx (reg_put w v)" "rx_queue t2 = rx_queue t1"
    by (rule inv_tx [OF 1(2)])
  then show ?thesis using 1 by (simp add: port_interrupt_def reg_put_def)
qed

lemma inv_recv:
  assumes "nic_inv E cap tx rx got (t, p, v)" "port_recv_nowait t = Inr (d, t')"
  shows "nic_inv E cap tx rx (got @ [d]) (t', p, v)"
  using assms by (auto simp: nic_inv_def port_recv_nowait_def split: list.splits)

lemma inv_dev_tx:
  assumes inv: "nic_inv E cap tx rx got (t, p, v)" and db: "doorbell v 0x104 (dv_tx v)"
    and u: "unpack_from desc_fmt (q_buf (txq t)) (16 * (dv_tx v mod 2 ^ proto_log)) = Inr [len, ptr]"
    and e: "fits_fmt cpl_fmt e" "entry_new proto_log (dv_tx v) e"
    and w: "pack_into cpl_fmt (c_buf (txcq t)) (16 * (dv_tx v mod 2 ^ proto_log)) e = Inr m"
  shows "nic_inv E cap tx rx got (t\<lparr>txcq := (txcq t)\<lparr>c_buf := m\<rparr>\<rparr>, p,
    v\<lparr>dv_tx := dv_tx v + 1, dv_wire := dv_wire v @ [dma_read E (pkt_mem p) ptr len]\<rparr>)"
proof -
  have i: "chan_ok (txq t) (txcq t) (dv_tx v)" "pool_ok cap p (posted (txq t) @ posted (rxq t))"
    "dv_regs v 0x104 = int (q_prod (txq t)) mod 65536" "length tx = q_prod (txq t)" "dv_wire v = take (dv_tx v) tx"
    "slots_ok (tx_slot E tx (pkt_mem p)) (txq t)" using inv by (simp_all add: nic_inv_def)
  let ?j = "dv_tx v" and ?k = "slot (txq t) (dv_tx v)"
  have c: "q_cons (txq t) \<le> ?j" "?j \<le> q_prod (txq t)" "q_log (txq t) = proto_log" using i(1) by (simp_all add: chan_ok_def)
  have lt: "?j < q_prod (txq t)" by (rule ahead [OF db i(3) c(2)])
  have "tx_slot E tx (pkt_mem p) ?j ?k (desc (txq t) ?j)" using i(6) c(1) lt by (simp add: slots_ok_def)
  moreover have "desc (txq t) ?j = Inr [len, ptr]" using u c(3) by (simp add: desc_def)
  ultimately obtain m' where s: "len = int (length (tx ! ?j))" "ptr = region_addr E ?k + 10" "region_write E ?k 10 (tx ! ?j) m' = Inr (pkt_mem p ?k)"
    by (auto simp: tx_slot_def)
  have "?k < cap" by (rule held_cap [OF i(2)]) (use posted_slot [OF c(1) lt] in simp)
  then have rd: "dma_read E (pkt_mem p) ptr len = tx ! ?j" unfolding s(1,2) using s(3) by (rule read_back)
  have "take (Suc ?j) tx = take ?j tx @ [tx ! ?j]" using lt i(4) by (simp add: take_Suc_conv_app_nth)
  then show ?thesis using inv chan_ok_write(1) [OF i(1) lt e w] rd by (simp add: nic_inv_def)
qed

lemma inv_dev_rx:
  assumes inv: "nic_inv E cap tx rx got (t, p, v)" and db: "doorbell v 0x204 (dv_rx v)"
    and u: "unpack_from desc_fmt (q_buf (rxq t)) (16 * (dv_rx v mod 2 ^ proto_log)) = Inr [len, ptr]"
    and d: "int (length d) \<le> len" and e: "fits_fmt cpl_fmt e" "entry_new proto_log (dv_rx v) e" "e ! 1 = int (length d)"
    and w: "pack_into cpl_fmt (c_buf (rxcq t)) (16 * (dv_rx v mod 2 ^ proto_log)) e = Inr m"
  shows "nic_inv E cap tx (rx @ [d]) got (t\<lparr>rxcq := (rxcq t)\<lparr>c_buf := m\<rparr>\<rparr>, p\<lparr>pkt_mem := dma_write E ptr d (pkt_mem p)\<rparr>, v\<lparr>dv_rx := dv_rx v + 1\<rparr>)"
proof -
  have i: "chan_ok (rxq t) (rxcq t) (dv_rx v)" "pool_ok cap p (posted (txq t) @ posted (rxq t))"
    "dv_regs v 0x204 = int (q_prod (rxq t)) mod 65536" "length rx = dv_rx v" "got @ rx_queue t = take (q_cons (rxq t)) rx"
    "slots_ok (rx_slot E rx (pkt_mem p) (rxcq t)) (rxq t)" "slots_ok (tx_slot E tx (pkt_mem p)) (txq t)" using inv by (simp_all add: nic_inv_def)
  let ?j = "dv_rx v" and ?k = "slot (rxq t) (dv_rx v)" and ?c = "(rxcq t)\<lparr>c_buf := m\<rparr>"
  have c: "q_cons (rxq t) \<le> ?j" "?j \<le> q_prod (rxq t)" "q_log (rxq t) = proto_log" "c_log (rxcq t) = proto_log" using i(1) by (simp_all add: chan_ok_def)
  have lt: "?j < q_prod (rxq t)" by (rule ahead [OF db i(3) c(2)])
  have "rx_slot E rx (pkt_mem p) (rxcq t) ?j ?k (desc (rxq t) ?j)" using i(6) c(1) lt by (simp add: slots_ok_def)
  moreover have "desc (rxq t) ?j = Inr [len, ptr]" using u c(3) by (simp add: desc_def)
  ultimately have s: "len = region_size E ?k" "ptr = region_addr E ?k" by (auto simp: rx_slot_def)
  have kp: "?k \<in> set (posted (rxq t))" by (rule posted_slot [OF c(1) lt])
  have "?k < cap" by (rule held_cap [OF i(2)]) (use kp in simp)
  then obtain m' where m': "dma_write E ptr d (pkt_mem p) = (pkt_mem p)(?k := m')" "region_head E (int (length d)) m' = d"
    using recv_back [of ?k d "pkt_mem p"] d s by blast
  have di: "distinct (posted (rxq t))" "?k \<notin> set (posted (txq t))" using pool_distinct [OF i(2)] kp by auto
  note cw = chan_ok_write [OF i(1) lt e(1,2) w]
  have sr: "slots_ok (rx_slot E (rx @ [d]) ((pkt_mem p)(?k := m')) ?c) (rxq t)"
    unfolding slots_ok_def
  proof (intro allI impI)
    fix j assume j: "q_cons (rxq t) \<le> j \<and> j < q_prod (rxq t)"
    have old: "rx_slot E rx (pkt_mem p) (rxcq t) j (slot (rxq t) j) (desc (rxq t) j)" using i(6) j by (simp add: slots_ok_def)
    consider "j = ?j" | "j < ?j" | "?j < j" by linarith
    then show "rx_slot E (rx @ [d]) ((pkt_mem p)(?k := m')) ?c j (slot (rxq t) j) (desc (rxq t) j)"
    proof cases
      case 1
      then show ?thesis using old cw(2) m'(2) e(3) i(4) c(4) by (simp add: rx_slot_def nth_append)
    next
      case 2
      have "slot (rxq t) j \<noteq> ?k" using slot_inj [OF di(1) _ _ c(1) lt] j 2 by blast
      then show ?thesis using old cw(3) [of j] j 2 i(4) c(4) by (simp add: rx_slot_def nth_append)
    next
      case 3
      then show ?thesis using old i(4) by (simp add: rx_slot_def)
    qed
  qed
  have st: "slots_ok (tx_slot E tx ((pkt_mem p)(?k := m'))) (txq t)"
  proof (rule slots_ok_mono [OF i(7)])
    fix j k' x assume "k' \<in> set (posted (txq t))" "tx_slot E tx (pkt_mem p) j k' x"
    then show "tx_slot E tx ((pkt_mem p)(?k := m')) j k' x" using di(2) by (auto simp: tx_slot_def)
  qed
  have "q_cons (rxq t) \<le> length rx" using c(1) i(4) by simp
  then show ?thesis using inv cw(1) sr st m'(1) by (simp add: nic_inv_def pool_ok_mem)
qed

lemma reach_inv:
  assumes cap: "2 * 2 ^ proto_log \<le> cap" and r: "nic_reach E cap tx rx got s"
  shows "nic_inv E cap tx rx got s"
  using r
proof induction
  case (IrqRx tx rx got t p v w t' p')
  from inv_rx [OF cap IrqRx.IH] show ?case using IrqRx.hyps(2) by auto
next
  case (IrqTx tx rx got t p v t' p')
  from inv_tx [OF IrqTx.IH] show ?case using IrqTx.hyps(2) by auto
qed (use cap in \<open>blast intro: inv_init inv_send inv_recv inv_dev_tx inv_dev_rx\<close>)+

text \<open>What can happen: the start, a send while there is room, and both steps of the device.\<close>

lemma init_total:
  assumes cap: "2 * 2 ^ proto_log \<le> cap" and m: "length m1 = 2 ^ proto_log * 16"
  shows "\<exists>w t p. port_init E (a1, m1) x2 x3 x4 pkts_new = Inr (w, t, p) \<and> q_prod (rxq t) = 2 ^ proto_log"
proof -
  let ?r = "ring_new proto_log\<lparr>q_buf := m1\<rparr>"
  have ok: "ring_ok ?r" using chan_ok_new [OF m] by (simp add: chan_ok_def)
  have po: "pool_ok cap pkts_new (posted ?r @ [])" by (simp add: pool_ok_def pkts_new_def posted_def ring_new_def)
  have bg: "2 ^ q_log ?r + length ([] :: nat list) \<le> cap" using cap by (simp add: ring_new_def)
  obtain b r' p' where "refill_rx E (?r, pkts_new) = Inr (b, r', p')" "b \<longleftrightarrow> q_prod ?r + 8 \<le> q_cons ?r + 2 ^ q_log ?r"
    "q_prod r' = (if b then q_cons ?r + 2 ^ q_log ?r else q_prod ?r)" by (rule refill_ok [OF ok po bg])
  then show ?thesis by (simp add: port_init_def port_refill_def pport_new_def ring_new_def proto_log_def)
qed

lemma send_total:
  assumes cap: "2 * 2 ^ proto_log \<le> cap" and inv: "nic_inv E cap tx rx got (t, p, v)" and room: "q_prod (txq t) < q_cons (txq t) + 2 ^ proto_log"
    and d: "\<forall>k<cap. int (length d) + 10 \<le> region_size E k"
  shows "\<exists>w t' p'. port_xmit E d (t, p) = Inr (w, t', p') \<and> q_prod (txq t') = Suc (q_prod (txq t))"
proof -
  have i: "chan_ok (txq t) (txcq t) (dv_tx v)" "chan_ok (rxq t) (rxcq t) (dv_rx v)" "pool_ok cap p (posted (txq t) @ posted (rxq t))"
    using inv by (simp_all add: nic_inv_def)
  have ok: "ring_ok (txq t)" "q_log (txq t) = proto_log" using i(1) by (simp_all add: chan_ok_def)
  have rm: "q_prod (txq t) < q_cons (txq t) + 2 ^ q_log (txq t)" using room ok(2) by simp
  have bg: "2 ^ q_log (txq t) + length (posted (rxq t)) \<le> cap" using chan_posted [OF i(2)] cap ok(2) by simp
  obtain k r' q where "start_xmit_ring E d (txq t, p) = Inr (r', q)" "posted_one (txq t) k [int (length d), region_addr E k + 10] r'"
    by (rule start_xmit_ok [OF ok(1) rm i(3) d bg])
  then show ?thesis by (simp add: port_xmit_def posted_one_def)
qed

lemma dev_enabled:
  assumes ch: "chan_ok r c dv" and lt: "dv < q_prod r" and n: "0 \<le> n" "n < 2 ^ 32" and reg: "dv_regs v x = int (q_prod r) mod 65536"
  shows "doorbell v x dv" "\<exists>e m. fits_fmt cpl_fmt e \<and> entry_new proto_log dv e \<and> e ! 1 = n \<and> pack_into cpl_fmt (c_buf c) (16 * (dv mod 2 ^ proto_log)) e = Inr m"
proof -
  have "q_prod r < dv + 65536" using ch by (auto simp: chan_ok_def ring_ok_def proto_log_def)
  then have "q_prod r mod 65536 \<noteq> dv mod 65536" using window_inj [of dv "q_prod r" 65536 dv] lt by auto
  then have "int (q_prod r mod 65536) \<noteq> int (dv mod 65536)" by simp
  then show "doorbell v x dv" using reg by (simp add: doorbell_def zmod_int)
  let ?e = "[0, n, 0, if bit dv proto_log then 0 else 0x80000000]"
  have f: "fits_fmt cpl_fmt ?e" using n by (simp add: cpl_fmt_def)
  have "(0x80000000 :: int) AND 0x80000000 = 0x80000000" by simp
  then have "entry_new proto_log dv ?e" unfolding entry_new_def phase_bit by simp
  moreover have "16 * (dv mod 2 ^ proto_log) + fmt_size cpl_fmt \<le> length (c_buf c)"
    using ch by (auto simp: chan_ok_def synced_def proto_log_def)
  ultimately show "\<exists>e m. fits_fmt cpl_fmt e \<and> entry_new proto_log dv e \<and> e ! 1 = n \<and> pack_into cpl_fmt (c_buf c) (16 * (dv mod 2 ^ proto_log)) e = Inr m"
    using pack_into_total [OF f] f by (metis nth_Cons_0 nth_Cons_Suc One_nat_def)
qed

lemma dev_tx_total:
  assumes r: "nic_reach E cap tx rx got (t, p, v)" and cap: "2 * 2 ^ proto_log \<le> cap" and lt: "dv_tx v < length tx"
  shows "\<exists>m v'. nic_reach E cap tx rx got (t\<lparr>txcq := (txcq t)\<lparr>c_buf := m\<rparr>\<rparr>, p, v') \<and> dv_tx v' = Suc (dv_tx v) \<and> dv_rx v' = dv_rx v"
proof -
  have inv: "nic_inv E cap tx rx got (t, p, v)" by (rule reach_inv [OF cap r])
  then have i: "chan_ok (txq t) (txcq t) (dv_tx v)" "dv_regs v 0x104 = int (q_prod (txq t)) mod 65536" "dv_tx v < q_prod (txq t)"
    "slots_ok (tx_slot E tx (pkt_mem p)) (txq t)" using lt by (simp_all add: nic_inv_def)
  have "q_cons (txq t) \<le> dv_tx v" "q_log (txq t) = proto_log" using i(1) by (simp_all add: chan_ok_def)
  then have "\<exists>len ptr. unpack_from desc_fmt (q_buf (txq t)) (16 * (dv_tx v mod 2 ^ proto_log)) = Inr [len, ptr]"
    using i(3,4) by (auto simp: slots_ok_def tx_slot_def desc_def)
  then obtain len ptr where u: "unpack_from desc_fmt (q_buf (txq t)) (16 * (dv_tx v mod 2 ^ proto_log)) = Inr [len, ptr]" by blast
  have z: "(0 :: int) \<le> 0" "(0 :: int) < 2 ^ 32" by simp_all
  note en = dev_enabled [OF i(1,3) z i(2)]
  from en(2) obtain e m where e: "fits_fmt cpl_fmt e" "entry_new proto_log (dv_tx v) e"
    "pack_into cpl_fmt (c_buf (txcq t)) (16 * (dv_tx v mod 2 ^ proto_log)) e = Inr m" by blast
  show ?thesis using nic_reach.DevTx [OF r en(1) u e] by (intro exI conjI, assumption) simp_all
qed

lemma dev_rx_total:
  assumes r: "nic_reach E cap tx rx got (t, p, v)" and cap: "2 * 2 ^ proto_log \<le> cap" and lt: "dv_rx v < q_prod (rxq t)"
    and d: "\<forall>k<cap. int (length d) \<le> region_size E k"
  shows "\<exists>t' p' v'. nic_reach E cap tx (rx @ [d]) got (t', p', v') \<and> dv_rx v' = Suc (dv_rx v) \<and> dv_tx v' = dv_tx v"
proof -
  have inv: "nic_inv E cap tx rx got (t, p, v)" by (rule reach_inv [OF cap r])
  then have i: "chan_ok (rxq t) (rxcq t) (dv_rx v)" "dv_regs v 0x204 = int (q_prod (rxq t)) mod 65536"
    "pool_ok cap p (posted (txq t) @ posted (rxq t))"
    "slots_ok (rx_slot E rx (pkt_mem p) (rxcq t)) (rxq t)" by (simp_all add: nic_inv_def)
  let ?k = "slot (rxq t) (dv_rx v)"
  have c: "q_cons (rxq t) \<le> dv_rx v" "q_log (rxq t) = proto_log" using i(1) by (simp_all add: chan_ok_def)
  then have u: "unpack_from desc_fmt (q_buf (rxq t)) (16 * (dv_rx v mod 2 ^ proto_log)) = Inr [region_size E ?k, region_addr E ?k]"
    using i(4) lt by (auto simp: slots_ok_def rx_slot_def desc_def)
  have "?k < cap" by (rule held_cap [OF i(3)]) (use posted_slot [OF c(1) lt] in simp)
  then have k: "int (length d) \<le> region_size E ?k" "int (length d) < 2 ^ 32" using d addr [of ?k] by force+
  note en = dev_enabled [OF i(1) lt _ k(2) i(2), OF of_nat_0_le_iff]
  from en(2) obtain e m where e: "fits_fmt cpl_fmt e" "entry_new proto_log (dv_rx v) e" "e ! 1 = int (length d)"
    "pack_into cpl_fmt (c_buf (rxcq t)) (16 * (dv_rx v mod 2 ^ proto_log)) e = Inr m" by blast
  show ?thesis using nic_reach.DevRx [OF r en(1) u k(1) e] by (intro exI conjI, assumption) simp_all
qed

end

end
