(* ===== verification/NicSystem.thy ===== *)
theory NicSystem imports NicProto begin

text \<open>
  A memory that satisfies the interface, and the properties of the network driver's rings.
\<close>

section \<open>A flat memory of pages\<close>

text \<open>Pages of 4096 bytes, one after the other; an allocation takes the first that is not in use.\<close>

definition page_pad :: "bytes \<Rightarrow> bytes" where "page_pad m = m @ replicate (4096 - length m) 0"

definition page_write :: "nat \<Rightarrow> bytes \<Rightarrow> bytes \<Rightarrow> bytes" where
  "page_write off d m = take off (page_pad m) @ d @ drop (off + length d) (page_pad m)"

definition flat_pages :: nat where "flat_pages = 1024"

definition flat_mem :: mem_env where
  "flat_mem = \<lparr>
     new_region = (\<lambda>ks. case find (\<lambda>k. k \<notin> set ks) [0..<flat_pages] of Some k \<Rightarrow> k | None \<Rightarrow> 0),
     region_addr = (\<lambda>k. 4096 * int k), region_size = (\<lambda>_. 4096),
     region_write = (\<lambda>k off d m. if 0 \<le> off \<and> off + int (length d) \<le> 4096 then Inr (page_write (nat off) d m) else Inl IndexError),
     region_head = (\<lambda>n m. take (nat n) (page_pad m)),
     dma_read = (\<lambda>mem a n. take (nat n) (drop (nat (a mod 4096)) (page_pad (mem (nat (a div 4096)))))),
     dma_write = (\<lambda>a d mem. mem(nat (a div 4096) := page_write (nat (a mod 4096)) d (mem (nat (a div 4096)))))\<rparr>"

lemma page_pad_length: "4096 \<le> length (page_pad m)"
  by (simp add: page_pad_def)

lemma page_pad_write: "off + length d \<le> 4096 \<Longrightarrow> page_pad (page_write off d m) = page_write off d m"
  using page_pad_length [of m] by (simp add: page_write_def page_pad_def [of "page_write off d m"] page_pad_def [of "_ @ _"])

lemma page_write_read: "off + length d \<le> 4096 \<Longrightarrow> take (length d) (drop off (page_write off d m)) = d"
  using page_pad_length [of m] by (simp add: page_write_def)

lemma flat_fresh:
  assumes "length ks < flat_pages"
  shows "new_region flat_mem ks < flat_pages \<and> new_region flat_mem ks \<notin> set ks"
proof -
  have "\<not> {..<flat_pages} \<subseteq> set ks"
    using card_mono [of "set ks" "{..<flat_pages}"] card_length [of ks] assms by (auto simp: not_le)
  then have "find (\<lambda>k. k \<notin> set ks) [0..<flat_pages] \<noteq> None" by (auto simp: find_None_iff)
  then obtain k where k: "find (\<lambda>k. k \<notin> set ks) [0..<flat_pages] = Some k" by blast
  then have "k < flat_pages \<and> k \<notin> set ks" by (auto simp: find_Some_iff)
  then show ?thesis using k by (simp add: flat_mem_def)
qed

interpretation flat: dma_memory flat_mem flat_pages
proof
  show "length ks < flat_pages \<Longrightarrow> new_region flat_mem ks < flat_pages \<and> new_region flat_mem ks \<notin> set ks" for ks
    by (rule flat_fresh)
  show "0 \<le> region_addr flat_mem k \<and> region_addr flat_mem k + region_size flat_mem k \<le> 2 ^ 64 \<and> 10 < region_size flat_mem k \<and>
      region_size flat_mem k < 2 ^ 32" if "k < flat_pages" for k
    using that by (simp add: flat_mem_def flat_pages_def)
  show "\<exists>m'. region_write flat_mem k 10 d m = Inr m'" if "int (length d) + 10 \<le> region_size flat_mem k" for k d m
    using that by (simp add: flat_mem_def)
  show "dma_read flat_mem mem (region_addr flat_mem k + 10) (int (length d)) = d" if "region_write flat_mem k 10 d m = Inr (mem k)" for k d m mem
  proof -
    have len: "10 + length d \<le> 4096" and m: "mem k = page_write 10 d m" using that by (auto simp: flat_mem_def split: if_splits)
    have "(4096 * int k + 10) div 4096 = int k" "(4096 * int k + 10) mod 4096 = 10"
      using div_mult_self4 [of "4096 :: int" "int k" 10] mod_mult_self4 [of "4096 :: int" "int k" 10] by simp_all
    then show ?thesis using page_write_read [OF len] page_pad_write [OF len] m by (simp add: flat_mem_def)
  qed
  show "\<exists>m'. dma_write flat_mem (region_addr flat_mem k) d mem = mem(k := m') \<and> region_head flat_mem (int (length d)) m' = d"
    if "int (length d) \<le> region_size flat_mem k" for k d mem
  proof -
    have len: "0 + length d \<le> 4096" using that by (simp add: flat_mem_def)
    have "dma_write flat_mem (region_addr flat_mem k) d mem = mem(k := page_write 0 d (mem k))" by (simp add: flat_mem_def)
    moreover have "region_head flat_mem (int (length d)) (page_write 0 d (mem k)) = d"
      unfolding flat_mem_def mem_env.simps page_pad_write [OF len] nat_int using page_write_read [OF len] by (simp only: drop_0)
    ultimately show ?thesis by blast
  qed
qed

section \<open>A run\<close>

text \<open>One packet sent and transmitted, one received; not yet handled.\<close>

lemma nic_demo_run:
  "\<exists>t p v. nic_reach flat_mem flat_pages [[1, 2, 3]] [[7, 8]] [] (t, p, v) \<and> dv_tx v = 1 \<and> dv_rx v = 1"
proof -
  let ?z = "replicate (2 ^ proto_log * 16) 0"
  have cap: "2 * 2 ^ proto_log \<le> flat_pages" by (simp add: flat_pages_def proto_log_def)
  have size: "\<forall>k<flat_pages. int (length [1, 2, 3 :: int]) + 10 \<le> region_size flat_mem k" "\<forall>k<flat_pages. int (length [7, 8 :: int]) \<le> region_size flat_mem k"
    by (simp_all add: flat_mem_def)
  have l: "length ?z = 2 ^ proto_log * 16" by simp
  obtain w t p where i: "port_init flat_mem (0, ?z) (0, ?z) (0, ?z) (0, ?z) pkts_new = Inr (w, t, p)" "q_prod (rxq t) = 2 ^ proto_log"
    using flat.init_total [OF cap l] by blast
  note r1 = nic_reach.Init [OF l l i(1)]
  note inv1 = flat.reach_inv [OF cap r1]
  then have z: "q_prod (txq t) = 0" "dv_rx (reg_put w dev_new) = 0" "dv_tx (reg_put w dev_new) = 0"
    by (simp_all add: nic_inv_def reg_put_def dev_new_def)
  then have room: "q_prod (txq t) < q_cons (txq t) + 2 ^ proto_log" by simp
  obtain w2 t2 p2 where s: "port_xmit flat_mem [1, 2, 3] (t, p) = Inr (w2, t2, p2)"
    using flat.send_total [OF cap inv1 room size(1)] by blast
  have q: "rxq t2 = rxq t" using s by (auto simp: port_xmit_def rbind_Inr_iff)
  have r2: "nic_reach flat_mem flat_pages [[1, 2, 3]] [] [] (t2, p2, reg_put w2 (reg_put w dev_new))"
    using nic_reach.Send [OF r1 room size(1) s] by simp
  obtain m v3 where r3: "nic_reach flat_mem flat_pages [[1, 2, 3]] [] [] (t2\<lparr>txcq := (txcq t2)\<lparr>c_buf := m\<rparr>\<rparr>, p2, v3)"
    "dv_tx v3 = 1" "dv_rx v3 = 0"
    using flat.dev_tx_total [OF r2 cap] z by (auto simp: reg_put_def)
  have lt: "dv_rx v3 < q_prod (rxq (t2\<lparr>txcq := (txcq t2)\<lparr>c_buf := m\<rparr>\<rparr>))" using r3(3) q i(2) by simp
  show ?thesis using flat.dev_rx_total [OF r3(1) cap lt size(2)] r3(2,3) by auto
qed

section \<open>Ownership and order\<close>

text \<open>C3: In every state that the prototype driver reaches with a device (sends while the ring has room,
  interrupts, receives and any steps of the device), every packet buffer that was allocated is in exactly one
  place: the free list, a posted transmit descriptor, or a posted receive descriptor.  No buffer is lost, freed
  twice, or given to the device twice.  The rings hold at most 256 buffers each.\<close>

theorem nic_buffers_owned:
  assumes "dma_memory E cap" "2 * 2 ^ proto_log \<le> cap" "nic_reach E cap tx rx got (t, p, v)"
  shows "distinct (free_packets p @ posted (txq t) @ posted (rxq t)) \<and>
    set (free_packets p @ posted (txq t) @ posted (rxq t)) = set (allocated_packets p) \<and>
    (\<forall>j\<in>{q_cons (txq t)..<q_prod (txq t)}. q_info (txq t) ! (j mod 256) = Some (slot (txq t) j)) \<and>
    (\<forall>j\<in>{q_cons (rxq t)..<q_prod (rxq t)}. q_info (rxq t) ! (j mod 256) = Some (slot (rxq t) j)) \<and>
    q_prod (txq t) \<le> q_cons (txq t) + 256 \<and> q_prod (rxq t) \<le> q_cons (rxq t) + 256"
proof -
  have inv: "nic_inv E cap tx rx got (t, p, v)" by (rule dma_memory.reach_inv [OF assms])
  then have po: "pool_ok cap p (posted (txq t) @ posted (rxq t))" and ch: "chan_ok (txq t) (txcq t) (dv_tx v)" "chan_ok (rxq t) (rxcq t) (dv_rx v)"
    by (simp_all add: nic_inv_def)
  have "ring_ok r \<and> q_log r = 8 \<Longrightarrow> (\<forall>j\<in>{q_cons r..<q_prod r}. q_info r ! (j mod 256) = Some (slot r j)) \<and> q_prod r \<le> q_cons r + 256" for r
    by (auto simp: ring_ok_def slot_def)
  then show ?thesis using pool_distinct [OF po] ch by (simp add: chan_ok_def proto_log_def)
qed

theorem nic_buffers_owned_witness:
  "\<exists>t p v. nic_reach flat_mem flat_pages [[1, 2, 3]] [[7, 8]] [] (t, p, v) \<and> dv_tx v = 1 \<and>
    distinct (free_packets p @ posted (txq t) @ posted (rxq t)) \<and>
    set (free_packets p @ posted (txq t) @ posted (rxq t)) = set (allocated_packets p)"
  using nic_demo_run nic_buffers_owned [OF flat.dma_memory_axioms] by (fastforce simp: flat_pages_def proto_log_def)

text \<open>C2: What the device sends is what the client sent, in order and byte for byte; what the client has
  received and what waits in the queue is what the device received, in order; and from every reachable state the
  interrupt handler returns, delivers every packet received so far and takes back every buffer transmitted so far.\<close>

theorem nic_packets_in_order:
  assumes "dma_memory E cap" "2 * 2 ^ proto_log \<le> cap" "nic_reach E cap tx rx got (t, p, v)"
  shows "dv_wire v = take (dv_tx v) tx \<and> got @ rx_queue t = take (q_cons (rxq t)) rx \<and>
    (\<exists>w t' p'. port_interrupt E (t, p) = Inr (w, t', p') \<and> got @ rx_queue t' = rx \<and> q_cons (txq t') = dv_tx v)"
proof -
  have inv: "nic_inv E cap tx rx got (t, p, v)" by (rule dma_memory.reach_inv [OF assms])
  then have "dv_wire v = take (dv_tx v) tx" "got @ rx_queue t = take (q_cons (rxq t)) rx" by (simp_all add: nic_inv_def)
  moreover have "\<exists>w t' p'. port_interrupt E (t, p) = Inr (w, t', p') \<and> got @ rx_queue t' = rx \<and> q_cons (txq t') = dv_tx v"
    by (rule dma_memory.inv_irq [OF assms(1,2) inv])
  ultimately show ?thesis by blast
qed

theorem nic_packets_in_order_witness:
  "\<exists>t p v. nic_reach flat_mem flat_pages [[1, 2, 3]] [[7, 8]] [] (t, p, v) \<and> dv_wire v = [[1, 2, 3]] \<and>
    (\<exists>w t' p'. port_interrupt flat_mem (t, p) = Inr (w, t', p') \<and> rx_queue t' = [[7, 8]])"
proof -
  have cap: "2 * 2 ^ proto_log \<le> flat_pages" by (simp add: flat_pages_def proto_log_def)
  obtain t p v where r: "nic_reach flat_mem flat_pages [[1, 2, 3]] [[7, 8]] [] (t, p, v)" "dv_tx v = 1" using nic_demo_run by blast
  show ?thesis using nic_packets_in_order [OF flat.dma_memory_axioms cap r(1)] r by fastforce
qed

section \<open>Termination\<close>

text \<open>The loop of the handlers with a bound on its passes; \<open>None\<close> when it has not ended.\<close>

fun cq_fuel :: "nat \<Rightarrow> fld list \<Rightarrow> (int list \<Rightarrow> 's \<Rightarrow> 's result) \<Rightarrow> nat \<Rightarrow> bytes \<Rightarrow> nat \<Rightarrow> 's \<Rightarrow> (nat \<times> 's) result option" where
  "cq_fuel 0 fmt body lg buf ptr s = None"
| "cq_fuel (Suc n) fmt body lg buf ptr s =
     (case unpack_from fmt buf (ring_idx lg ptr * 16) of
        Inl x \<Rightarrow> Some (Inl x)
      | Inr e \<Rightarrow> if \<not> entry_new lg ptr e then Some (Inr (ptr, s))
          else (case body e s of Inl x \<Rightarrow> Some (Inl x) | Inr s' \<Rightarrow> cq_fuel n fmt body lg buf (ptr + 1) s'))"

lemma cq_fuel_enough:
  "k < n \<Longrightarrow> new_entry fmt lg buf (ptr + k) = None \<Longrightarrow> cq_fuel n fmt body lg buf ptr s = Some (cq_loop fmt body lg buf ptr s)"
proof (induction n arbitrary: k ptr s)
  case (Suc n)
  show ?case
  proof (cases "unpack_from fmt buf (ring_idx lg ptr * 16)")
    case (Inl x)
    then show ?thesis by (subst cq_loop.simps) simp
  next
    case (Inr e)
    show ?thesis
    proof (cases "entry_new lg ptr e")
      case False
      then show ?thesis using Inr by (subst cq_loop.simps) simp
    next
      case True
      then obtain m where m: "k = Suc m" using Suc.prems(2) Inr by (cases k) (auto simp: new_entry_def)
      have "cq_fuel n fmt body lg buf (ptr + 1) s' = Some (cq_loop fmt body lg buf (ptr + 1) s')" for s'
        by (rule Suc.IH [of m]) (use Suc.prems m in auto)
      then show ?thesis using Inr True by (subst cq_loop.simps) (auto split: sum.splits)
    qed
  qed
qed simp

text \<open>C34: The loops over the completion and event queues end whatever the device has written in the queue
  memory: the phase bit of an entry flips its meaning every lap, so after at most one lap and one more look the
  loop has returned or raised.\<close>

theorem cq_loop_terminates:
  "cq_fuel (2 ^ lg + 1) fmt body lg buf ptr s = Some (cq_loop fmt body lg buf ptr s)"
proof (cases "new_entry fmt lg buf (ptr + 0) = None")
  case True
  then show ?thesis by (rule cq_fuel_enough [rotated]) simp
next
  case False
  then have "new_entry fmt lg buf (ptr + 2 ^ lg) = None" using new_entry_flips by simp
  then show ?thesis by (rule cq_fuel_enough [rotated]) simp
qed

section \<open>The transmit ring has no bound\<close>

lemma window_covers:
  assumes "i < (n :: nat)"
  shows "\<exists>j. c \<le> j \<and> j < c + n \<and> j mod n = i"
proof -
  let ?j = "c + (i + n - c mod n) mod n"
  have "c mod n < n" using assms by simp
  then have "?j mod n = (c mod n + (i + n - c mod n)) mod n" by (metis mod_add_eq mod_mod_trivial)
  also have "c mod n + (i + n - c mod n) = i + n" using \<open>c mod n < n\<close> by linarith
  also have "(i + n) mod n = i" using assms by simp
  finally show ?thesis using assms by (intro exI [of _ ?j]) simp
qed

text \<open>C37: \<open>start_xmit\<close> does not look whether the ring is full, and \<open>is_ring_full\<close> would not say so when all its
  slots are in use.  A send into such a ring succeeds and overwrites the oldest slot: its buffer stays allocated
  but is neither free nor in the ring, so no later completion can free it.\<close>

theorem tx_ring_overrun:
  assumes mem: "dma_memory E cap" and ok: "ring_ok r" and full: "q_prod r = q_cons r + 2 ^ q_log r"
    and pool: "pool_ok cap p (posted r @ rest)" and big: "2 ^ q_log r + length rest < cap"
    and d: "\<forall>k<cap. int (length d) + 10 \<le> region_size E k"
  shows "\<not> is_ring_full r \<and> (\<exists>r' p'. start_xmit_ring E d (r, p) = Inr (r', p') \<and>
    slot r (q_cons r) \<in> set (allocated_packets p') \<and> slot r (q_cons r) \<notin> set (free_packets p') \<and> Some (slot r (q_cons r)) \<notin> set (q_info r'))"
proof -
  let ?n = "2 ^ q_log r :: nat" and ?k0 = "slot r (q_cons r)"
  have "(2 :: int) ^ q_log r AND 0xffffffff \<le> 2 ^ q_log r" by (rule AND_upper1) simp
  then have nf: "\<not> is_ring_full r" using full by (simp add: is_ring_full_def q_size_def not_less)
  obtain k p1 where a: "alloc_pkt E p = (k, p1)" by fastforce
  have "length (posted r @ rest) < cap" using full big by (simp add: posted_def)
  note al = dma_memory.alloc_ok [OF mem pool a this]
  have k0: "?k0 \<in> set (posted r)" using full by (intro posted_slot) simp_all
  have di: "distinct (free_packets p1 @ k # posted r @ rest)" "set (free_packets p1 @ k # posted r @ rest) = set (allocated_packets p1)"
    using pool_distinct [OF al(1)] by blast+
  obtain m where m: "region_write E k 10 d (pkt_mem p1 k) = Inr m" using dma_memory.write_ok [OF mem al(4)] d al(4) by blast
  have ad: "0 \<le> region_addr E k \<and> region_addr E k + region_size E k \<le> 2 ^ 64 \<and> 10 < region_size E k \<and> region_size E k < 2 ^ 32"
    by (rule dma_memory.addr [OF mem al(4)])
  have len: "length (q_info r) = ?n" "length (q_buf r) = ?n * 16" using ok by (simp_all add: ring_ok_def)
  have i: "q_prod r mod ?n = q_cons r mod ?n" using full by simp
  have fit: "fits_fmt desc_fmt [int (length d), region_addr E k + 10]"
    by (rule dma_memory.desc_fits [OF mem]) (use ad d al(4) in force)+
  have "q_prod r mod ?n < ?n" "fmt_size desc_fmt = 16" by (simp_all add: desc_fmt_def)
  then have "16 * (q_prod r mod ?n) + fmt_size desc_fmt \<le> length (q_buf r)" using len(2) by linarith
  from pack_into_total [OF fit this] obtain b where b: "pack_into desc_fmt (q_buf r) (16 * (q_prod r mod ?n)) [int (length d), region_addr E k + 10] = Inr b" by blast
  let ?info = "(q_info r)[q_cons r mod ?n := Some k]"
  have x: "start_xmit_ring E d (r, p) = Inr (r\<lparr>q_buf := b, q_info := ?info, q_prod := q_prod r + 1\<rparr>, p1\<lparr>pkt_mem := (pkt_mem p1)(k := m)\<rparr>)"
    using a m b len(1) i by (simp add: start_xmit_ring_def ring_idx_mod)
  have "?info ! i \<noteq> Some ?k0" if ii: "i < ?n" for i
  proof (cases "i = q_cons r mod ?n")
    case True
    then show ?thesis using len(1) di(1) k0 by auto
  next
    case False
    obtain j where j: "q_cons r \<le> j" "j < q_cons r + ?n" "j mod ?n = i" using window_covers [OF ii] by blast
    have "q_info r ! i = Some (slot r j)" using ok j full by (auto simp: ring_ok_def slot_def)
    moreover have "slot r j \<noteq> ?k0" using slot_inj [of r j "q_cons r"] di(1) j False full by auto
    ultimately show ?thesis using False by simp
  qed
  then have "Some ?k0 \<notin> set ?info" using len(1) by (metis in_set_conv_nth length_list_update)
  moreover have "?k0 \<in> set (allocated_packets p1)" "?k0 \<notin> set (free_packets p1)" using di k0 by auto
  ultimately show ?thesis using nf unfolding x by simp
qed

theorem tx_ring_overrun_witness:
  "\<exists>r' p'. start_xmit_ring flat_mem [1, 2] (\<lparr>q_log = 1, q_prod = 2, q_cons = 0, q_info = [Some 5, Some 6], q_buf = replicate 32 0\<rparr>,
      \<lparr>free_packets = [], allocated_packets = [5, 6], pkt_mem = (\<lambda>_. [])\<rparr>) = Inr (r', p') \<and>
    5 \<in> set (allocated_packets p') \<and> 5 \<notin> set (free_packets p') \<and> Some 5 \<notin> set (q_info r')"
proof -
  let ?r = "\<lparr>q_log = 1, q_prod = 2, q_cons = 0, q_info = [Some 5, Some 6], q_buf = replicate 32 0\<rparr>"
    and ?p = "\<lparr>free_packets = [], allocated_packets = [5, 6], pkt_mem = (\<lambda>_. [])\<rparr>"
  have po: "posted ?r = [5, 6]" "slot ?r 0 = 5" by (simp_all add: posted_def slot_def upt_rec numeral_2_eq_2)
  have ok: "ring_ok ?r" by (auto simp: ring_ok_def less_2_cases_iff)
  have "pool_ok flat_pages ?p (posted ?r @ [])" unfolding po(1) by (simp add: pool_ok_def flat_pages_def)
  from tx_ring_overrun [OF flat.dma_memory_axioms ok _ this, of "[1, 2]"]
  show ?thesis using po(2) by (simp add: flat_pages_def flat_mem_def del: One_nat_def)
qed

end
