(* ===== verification/CndmCmd.thy ===== *)
theory CndmCmd imports Structs begin

text \<open>
  The command mailbox of the network driver (\<open>src/cndm/tb/cndm.py\<close>): the accesses to the device's
  registers, the execution of a command, and what it gives on a device that keeps the mailbox
  protocol.
\<close>

section \<open>Programs that may not return\<close>

text \<open>\<open>None\<close>: the program does not return.  Otherwise its result, or the error it raises.\<close>

type_synonym 'a run = "'a result option"

definition xbind :: "'a run \<Rightarrow> ('a \<Rightarrow> 'b run) \<Rightarrow> 'b run" where
  "xbind m f = (case m of None \<Rightarrow> None | Some (Inl e) \<Rightarrow> Some (Inl e) | Some (Inr x) \<Rightarrow> f x)"

lemma xbind_simps [simp]: "xbind None f = None" "xbind (Some (Inl e)) f = Some (Inl e)" "xbind (Some (Inr x)) f = f x"
  by (simp_all add: xbind_def)

lemma xbind_returns: "xbind m f = Some (Inr y) \<longleftrightarrow> (\<exists>x. m = Some (Inr x) \<and> f x = Some (Inr y))"
  by (auto simp: xbind_def split: option.splits sum.splits)

fun xfold :: "('a \<Rightarrow> 's \<Rightarrow> 's run) \<Rightarrow> 'a list \<Rightarrow> 's \<Rightarrow> 's run" where
  "xfold f [] s = Some (Inr s)"
| "xfold f (x # xs) s = xbind (f x s) (xfold f xs)"

section \<open>Registers\<close>

text \<open>The accesses to the register window: what they do to the device belongs to the device and is a parameter.\<close>

record 'd mmio =
  mm_write :: "nat \<Rightarrow> int \<Rightarrow> 'd \<Rightarrow> 'd"
  mm_read :: "nat \<Rightarrow> 'd \<Rightarrow> int \<times> 'd"

section \<open>Executing a command\<close>

partial_function (option) poll :: "'d mmio \<Rightarrow> 'd \<Rightarrow> 'd option" where
  "poll E d = (if fst (mm_read E 0x0200 d) AND 1 \<noteq> 0 then poll E (snd (mm_read E 0x0200 d)) else Some (snd (mm_read E 0x0200 d)))"

definition dwords :: "bytes \<Rightarrow> int list" where "dwords cmd = map (\<lambda>k. le_int (take 4 (drop (4 * k) cmd))) [0..<16]"

definition tobytes :: "int list \<Rightarrow> bytes" where "tobytes ws = concat (map (le_bytes 4) ws)"

definition ljust64 :: "bytes \<Rightarrow> bytes" where "ljust64 cmd = cmd @ replicate (64 - length cmd) 0"

definition read_response :: "'d mmio \<Rightarrow> int list \<Rightarrow> 'd \<Rightarrow> (int list \<times> 'd) result" where
  "read_response E a d = rfold (\<lambda>k (a, d).
     let (x, d') = mm_read E (0x10040 + k * 4) d in
     if 0 \<le> x \<and> x < 2 ^ 32 then Inr (a[k := x], d') else Inl OverflowError) [0..<16] (a, d)"

definition exec_mbox_cmd :: "'d mmio \<Rightarrow> bytes \<Rightarrow> 'd \<Rightarrow> (bytes \<times> 'd) run" where
  "exec_mbox_cmd E cmd d =
     (let cmd = ljust64 cmd in
      if length cmd \<noteq> 64 then Some (Inl ValueError)
      else let a = dwords cmd;
               d1 = fold (\<lambda>k. mm_write E (0x10000 + k * 4) (a ! k)) [0..<16] d;
               d2 = mm_write E 0x0200 1 d1
           in (case poll E d2 of None \<Rightarrow> None
               | Some d3 \<Rightarrow> Some (rbind (read_response E a d3) (\<lambda>(a, d4). Inr (tobytes a, d4)))))"

definition exec_cmd :: "'d mmio \<Rightarrow> bytes \<Rightarrow> 'd \<Rightarrow> (bytes \<times> 'd) run" where "exec_cmd = exec_mbox_cmd"

section \<open>Commands\<close>

definition cmd_fmt :: "fld list" where "cmd_fmt = [FH, FH, FL, FL, FL, FL, FL, FL, FL, FQ, FQ, FL, FL, FL, FL]"

definition cfg_fmt :: "fld list" where "cfg_fmt = [FH, FH, FL, FH, FH, FL, FL, FL, FL, FL, FL, FL, FL, FL, FL, FL, FL, FL]"

definition ptp_fmt :: "fld list" where "ptp_fmt = [FH, FH, FL, FL, FL, FQ, FQ, FQ, FQ, FQ, FL, FL]"

text \<open>A command in a format, and its response in the same format.\<close>

definition command :: "'d mmio \<Rightarrow> fld list \<Rightarrow> int list \<Rightarrow> 'd \<Rightarrow> (int list \<times> 'd) run" where
  "command E fmt vs d = xbind (Some (struct_pack fmt vs)) (\<lambda>b. xbind (exec_cmd E b d) (\<lambda>(rsp, d').
     xbind (Some (struct_unpack fmt rsp)) (\<lambda>rs. Some (Inr (rs, d')))))"

definition access_reg :: "'d mmio \<Rightarrow> int \<Rightarrow> bool \<Rightarrow> bool \<Rightarrow> int \<Rightarrow> 'd \<Rightarrow> (int \<times> 'd) run" where
  "access_reg E reg raw write data d =
     (let flags = (if raw then 0x100 else 0) OR (if write then 1 else 0) in
      xbind (Some (struct_pack cmd_fmt [0, 0x0180, flags, 0, 0, 0, 0, 0, reg, data, 0, 0, 0, 0, 0])) (\<lambda>b.
      xbind (exec_cmd E b d) (\<lambda>(rsp, d').
      xbind (Some (unpack_from [FQ] rsp 40)) (\<lambda>rs. Some (Inr (hd rs, d'))))))"

section \<open>The mailbox protocol\<close>

text \<open>What the driver relies on: sixteen command words, a start bit that reads as one while the command
  runs, sixteen response words.  \<open>step\<close> is the command processor.\<close>

locale mailbox =
  fixes E :: "'d mmio" and okay :: "'d \<Rightarrow> bool" and inp outp :: "'d \<Rightarrow> int list" and busy :: "'d \<Rightarrow> nat" and core :: "'d \<Rightarrow> 's"
    and step :: "int list \<Rightarrow> 's \<Rightarrow> int list \<times> 's"
  assumes range: "okay d \<Longrightarrow> length (inp d) = 16 \<and> length (outp d) = 16 \<and> (\<forall>x \<in> set (outp d). 0 \<le> x \<and> x < 2 ^ 32)"
    and put: "okay d \<Longrightarrow> busy d = 0 \<Longrightarrow> k < 16 \<Longrightarrow> okay (mm_write E (0x10000 + k * 4) v d) \<and> busy (mm_write E (0x10000 + k * 4) v d) = 0 \<and>
      inp (mm_write E (0x10000 + k * 4) v d) = (inp d)[k := v] \<and> core (mm_write E (0x10000 + k * 4) v d) = core d"
    and start: "okay d \<Longrightarrow> busy d = 0 \<Longrightarrow> okay (mm_write E 0x0200 1 d) \<and>
      (outp (mm_write E 0x0200 1 d), core (mm_write E 0x0200 1 d)) = step (inp d) (core d)"
    and running: "okay d \<Longrightarrow> busy d \<noteq> 0 \<Longrightarrow> mm_read E 0x0200 d = (x, d') \<Longrightarrow>
      x AND 1 \<noteq> 0 \<and> okay d' \<and> busy d' < busy d \<and> outp d' = outp d \<and> core d' = core d"
    and finished: "okay d \<Longrightarrow> busy d = 0 \<Longrightarrow> mm_read E 0x0200 d = (x, d') \<Longrightarrow>
      x AND 1 = 0 \<and> okay d' \<and> busy d' = 0 \<and> outp d' = outp d \<and> core d' = core d"
    and get: "okay d \<Longrightarrow> busy d = 0 \<Longrightarrow> k < 16 \<Longrightarrow> mm_read E (0x10040 + k * 4) d = (x, d') \<Longrightarrow>
      x = outp d ! k \<and> okay d' \<and> busy d' = 0 \<and> outp d' = outp d \<and> core d' = core d"
begin

lemma poll_ends: "okay d \<Longrightarrow> \<exists>d'. poll E d = Some d' \<and> okay d' \<and> busy d' = 0 \<and> outp d' = outp d \<and> core d' = core d"
proof (induction "busy d" arbitrary: d rule: less_induct)
  case less
  obtain x d1 where r: "mm_read E 0x0200 d = (x, d1)" by fastforce
  show ?case
  proof (cases "busy d = 0")
    case True
    then show ?thesis using finished [OF less.prems True r] r by (subst poll.simps) simp
  next
    case False
    note n = running [OF less.prems False r]
    then obtain d' where "poll E d1 = Some d'" "okay d'" "busy d' = 0" "outp d' = outp d1" "core d' = core d1" using less.hyps by blast
    then show ?thesis using n r by (subst poll.simps) simp
  qed
qed

lemma put_all:
  assumes "okay d" "busy d = 0" "n \<le> 16"
  shows "let d' = fold (\<lambda>k. mm_write E (0x10000 + k * 4) (a ! k)) [0..<n] d in
    okay d' \<and> busy d' = 0 \<and> core d' = core d \<and> (\<forall>k<n. inp d' ! k = a ! k)"
  using assms(3)
proof (induction n)
  case 0
  then show ?case using assms by simp
next
  case (Suc n)
  let ?d = "fold (\<lambda>k. mm_write E (0x10000 + k * 4) (a ! k)) [0..<n] d"
  have d: "okay ?d" "busy ?d = 0" "core ?d = core d" "\<forall>k<n. inp ?d ! k = a ! k" using Suc by (simp_all add: Let_def)
  have "n < 16" using Suc.prems by simp
  from put [OF d(1,2) this, of "a ! n"] show ?case using d(3,4) range [OF d(1)] Suc.prems by (simp add: Let_def less_Suc_eq nth_list_update)
qed

lemma get_all:
  assumes "okay d" "busy d = 0" "length a = 16" "n \<le> 16"
  shows "\<exists>d'. rfold (\<lambda>k (a, d). let (x, d') = mm_read E (0x10040 + k * 4) d in
      if 0 \<le> x \<and> x < 2 ^ 32 then Inr (a[k := x], d') else Inl OverflowError) [0..<n] (a, d) = Inr (take n (outp d) @ drop n a, d') \<and>
    okay d' \<and> busy d' = 0 \<and> outp d' = outp d \<and> core d' = core d"
  using assms(4)
proof (induction n)
  case 0
  then show ?case using assms by simp
next
  case (Suc n)
  then obtain d1 where d1: "rfold (\<lambda>k (a, d). let (x, d') = mm_read E (0x10040 + k * 4) d in
      if 0 \<le> x \<and> x < 2 ^ 32 then Inr (a[k := x], d') else Inl OverflowError) [0..<n] (a, d) = Inr (take n (outp d) @ drop n a, d1)"
    "okay d1" "busy d1 = 0" "outp d1 = outp d" "core d1 = core d" by auto
  obtain x d2 where r: "mm_read E (0x10040 + n * 4) d1 = (x, d2)" by fastforce
  have n: "n < 16" using Suc.prems by simp
  note g = get [OF d1(2,3) n r]
  have o: "n < length (outp d)" "0 \<le> outp d ! n \<and> outp d ! n < 2 ^ 32" using range [OF assms(1)] n by auto
  have "(take n (outp d) @ drop n a)[n := outp d ! n] = take (Suc n) (outp d) @ drop (Suc n) a"
    by (rule nth_equalityI) (use range [OF assms(1)] n assms(3) in \<open>auto simp: nth_list_update nth_append less_Suc_eq\<close>)
  then show ?case using d1 g r o by (simp add: rfold_append)
qed

lemma exec_returns:
  assumes d: "okay d" "busy d = 0" and len: "length cmd \<le> 64"
  shows "\<exists>d'. exec_mbox_cmd E cmd d = Some (Inr (tobytes (fst (step (dwords (ljust64 cmd)) (core d))), d')) \<and>
    length (fst (step (dwords (ljust64 cmd)) (core d))) = 16 \<and> okay d' \<and> busy d' = 0 \<and> core d' = snd (step (dwords (ljust64 cmd)) (core d))"
proof -
  let ?a = "dwords (ljust64 cmd)"
  let ?d1 = "fold (\<lambda>k. mm_write E (0x10000 + k * 4) (?a ! k)) [0..<16] d"
  let ?d2 = "mm_write E 0x0200 1 ?d1"
  have d1: "okay ?d1" "busy ?d1 = 0" "core ?d1 = core d" "\<forall>k<16. inp ?d1 ! k = ?a ! k" using put_all [OF d order_refl, of ?a] unfolding Let_def by blast+
  have "inp ?d1 = ?a" by (rule nth_equalityI) (use range [OF d1(1)] d1(4) in \<open>simp_all add: dwords_def\<close>)
  then have d2: "okay ?d2" "(outp ?d2, core ?d2) = step ?a (core d)" using start [OF d1(1,2)] d1(3) by simp_all
  obtain d3 where d3: "poll E ?d2 = Some d3" "okay d3" "busy d3 = 0" "outp d3 = outp ?d2" "core d3 = core ?d2" using poll_ends [OF d2(1)] by blast
  have o: "outp ?d2 = fst (step ?a (core d))" "core ?d2 = snd (step ?a (core d))" 
    using arg_cong [OF d2(2), of fst] arg_cong [OF d2(2), of snd] by (simp_all only: fst_conv snd_conv)
  have la: "length ?a = 16" by (simp add: dwords_def)
  from get_all [OF d3(2,3) la order_refl] obtain d4 where
    "read_response E ?a d3 = Inr (take 16 (outp d3) @ drop 16 ?a, d4)" and d4: "okay d4" "busy d4 = 0" "core d4 = core d3"
    unfolding read_response_def by blast
  moreover have l: "length (fst (step ?a (core d))) = 16" using range [OF d3(2)] d3(4) o(1) by simp
  moreover have "take 16 (outp d3) = fst (step ?a (core d))" "drop 16 ?a = []" using range [OF d3(2)] d3(4) o(1) la by simp_all
  ultimately have "read_response E ?a d3 = Inr (fst (step ?a (core d)), d4)" by (simp only: append_Nil2)
  moreover have "length (ljust64 cmd) = 64" using len by (simp add: ljust64_def)
  ultimately have "exec_mbox_cmd E cmd d = Some (Inr (tobytes (fst (step ?a (core d))), d4))"
    unfolding exec_mbox_cmd_def Let_def using d3(1) by simp
  then show ?thesis using d4 d3(5) o(2) l by metis
qed

end

section \<open>A device with a mailbox\<close>

text \<open>The registers of \<open>cndm_micro_cmd_mbox.sv\<close>: \<open>h\<close> is the command processor, a command takes \<open>lat\<close> more
  reads of the control register, and a write to any other register is seen by \<open>db\<close>.\<close>

record 's soft =
  sf_in :: "int list"
  sf_out :: "int list"
  sf_left :: nat
  sf_core :: 's

definition clip16 :: "int list \<Rightarrow> int list" where
  "clip16 o' = map (\<lambda>k. if k < length o' then take_bit 32 (o' ! k) else 0) [0..<16]"

definition soft_step :: "(int list \<Rightarrow> 's \<Rightarrow> int list \<times> 's) \<Rightarrow> int list \<Rightarrow> 's \<Rightarrow> int list \<times> 's" where
  "soft_step h i c = (clip16 (fst (h i c)), snd (h i c))"

definition soft_io :: "(int list \<Rightarrow> 's \<Rightarrow> int list \<times> 's) \<Rightarrow> (nat \<Rightarrow> int \<Rightarrow> 's \<Rightarrow> 's) \<Rightarrow> nat \<Rightarrow> 's soft mmio" where
  "soft_io h db lat = \<lparr>
     mm_write = (\<lambda>a v d.
       if 0x10000 \<le> a \<and> a < 0x10040 \<and> a mod 4 = 0 then d\<lparr>sf_in := (sf_in d)[(a - 0x10000) div 4 := v]\<rparr>
       else if a = 0x0200 then (if v AND 1 = 0 \<or> sf_left d \<noteq> 0 then d
         else d\<lparr>sf_out := fst (soft_step h (sf_in d) (sf_core d)), sf_core := snd (soft_step h (sf_in d) (sf_core d)), sf_left := lat\<rparr>)
       else d\<lparr>sf_core := db a v (sf_core d)\<rparr>),
     mm_read = (\<lambda>a d.
       if a = 0x0200 then (of_bool (sf_left d \<noteq> 0), d\<lparr>sf_left := sf_left d - 1\<rparr>)
       else if 0x10040 \<le> a \<and> a < 0x10080 \<and> a mod 4 = 0 then (sf_out d ! ((a - 0x10040) div 4), d)
       else (0, d))\<rparr>"

definition soft_ok :: "'s soft \<Rightarrow> bool" where
  "soft_ok d \<longleftrightarrow> length (sf_in d) = 16 \<and> length (sf_out d) = 16 \<and> (\<forall>x \<in> set (sf_out d). 0 \<le> x \<and> x < 2 ^ 32)"

lemma clip16_range: "length (clip16 ws) = 16 \<and> (\<forall>x \<in> set (clip16 ws). 0 \<le> x \<and> x < 2 ^ 32)"
proof -
  have "take_bit 32 x < (2 :: int) ^ 32" for x by (rule take_bit_int_less_exp)
  then show ?thesis by (auto simp: clip16_def)
qed

interpretation soft: mailbox "soft_io h db lat" soft_ok sf_in sf_out sf_left sf_core "soft_step h" for h db lat
proof
  fix d d' :: "'a soft" and x v :: int and k :: nat
  show "soft_ok d \<Longrightarrow> length (sf_in d) = 16 \<and> length (sf_out d) = 16 \<and> (\<forall>x \<in> set (sf_out d). 0 \<le> x \<and> x < 2 ^ 32)"
    by (simp add: soft_ok_def)
  show "soft_ok d \<Longrightarrow> sf_left d = 0 \<Longrightarrow> k < 16 \<Longrightarrow> soft_ok (mm_write (soft_io h db lat) (0x10000 + k * 4) v d) \<and>
      sf_left (mm_write (soft_io h db lat) (0x10000 + k * 4) v d) = 0 \<and>
      sf_in (mm_write (soft_io h db lat) (0x10000 + k * 4) v d) = (sf_in d)[k := v] \<and> sf_core (mm_write (soft_io h db lat) (0x10000 + k * 4) v d) = sf_core d"
    by (simp add: soft_io_def soft_ok_def)
  show "soft_ok d \<Longrightarrow> sf_left d = 0 \<Longrightarrow> soft_ok (mm_write (soft_io h db lat) 0x0200 1 d) \<and>
      (sf_out (mm_write (soft_io h db lat) 0x0200 1 d), sf_core (mm_write (soft_io h db lat) 0x0200 1 d)) = soft_step h (sf_in d) (sf_core d)"
    using clip16_range by (simp add: soft_io_def soft_ok_def soft_step_def)
  show "soft_ok d \<Longrightarrow> sf_left d \<noteq> 0 \<Longrightarrow> mm_read (soft_io h db lat) 0x0200 d = (x, d') \<Longrightarrow>
      x AND 1 \<noteq> 0 \<and> soft_ok d' \<and> sf_left d' < sf_left d \<and> sf_out d' = sf_out d \<and> sf_core d' = sf_core d"
    by (auto simp: soft_io_def soft_ok_def)
  show "soft_ok d \<Longrightarrow> sf_left d = 0 \<Longrightarrow> mm_read (soft_io h db lat) 0x0200 d = (x, d') \<Longrightarrow>
      x AND 1 = 0 \<and> soft_ok d' \<and> sf_left d' = 0 \<and> sf_out d' = sf_out d \<and> sf_core d' = sf_core d"
    by (auto simp: soft_io_def soft_ok_def)
  show "soft_ok d \<Longrightarrow> sf_left d = 0 \<Longrightarrow> k < 16 \<Longrightarrow> mm_read (soft_io h db lat) (0x10040 + k * 4) d = (x, d') \<Longrightarrow>
      x = sf_out d ! k \<and> soft_ok d' \<and> sf_left d' = 0 \<and> sf_out d' = sf_out d \<and> sf_core d' = sf_core d"
    by (auto simp: soft_io_def soft_ok_def)
qed

end
