(* ===== verification/CndmQueue.thy ===== *)
theory CndmQueue imports CndmCmd NicOps begin

text \<open>
  The queues of the network driver (\<open>src/cndm/tb/cndm.py\<close>): event queues, completion queues, send
  and receive queues, their opening and closing by commands, and the handlers of completions and
  events.  The objects are held in lists of the driver's state; a reference is an index.
\<close>

section \<open>State\<close>

record eq =
  eq_port :: nat
  eq_log :: nat
  eqn :: "int option"
  eq_enabled :: bool
  eq_buf :: bytes
  eq_irqn :: "int option"
  cq_table :: "int \<rightharpoonup> nat"
  eq_cons :: nat
  eq_db :: "int option"

datatype wq_kind = Tx | Rx

record cq =
  cq_port :: nat
  cq_ring :: cring
  cqn :: "int option"
  cq_enabled :: bool
  cq_eq :: "nat option"
  cq_irqn :: "int option"
  cq_src :: "(wq_kind \<times> nat) option"
  cq_db :: "int option"

text \<open>\<open>Sq\<close> and \<open>Rq\<close>.\<close>

record wq =
  wq_port :: nat
  wq_ring :: ring
  wqn :: "int option"
  wq_enabled :: bool
  wq_cq :: "nat option"
  wq_db :: "int option"

record nport =
  np_eq :: "nat list"
  np_rxq :: "nat list"
  np_txq :: "nat list"
  np_rx_queue :: "bytes list"

record 'd cndm =
  hw :: 'd
  packets :: pkts
  regions :: nat
  eqs :: "eq list"
  cqs :: "cq list"
  sqs :: "wq list"
  rqs :: "wq list"
  ports :: "nport list"

text \<open>The memory of the packets, the registers, and the address of the \<open>n\<close>-th region for a queue.\<close>

record 'd nenv =
  nmem :: mem_env
  nio :: "'d mmio"
  ring_base :: "nat \<Rightarrow> nat \<Rightarrow> int"

definition eq_new :: "nat \<Rightarrow> eq" where
  "eq_new p = \<lparr>eq_port = p, eq_log = 0, eqn = None, eq_enabled = False, eq_buf = [], eq_irqn = None, cq_table = Map.empty, eq_cons = 0, eq_db = None\<rparr>"

definition cq_new :: "nat \<Rightarrow> cq" where
  "cq_new p = \<lparr>cq_port = p, cq_ring = \<lparr>c_log = 0, c_cons = 0, c_buf = []\<rparr>, cqn = None, cq_enabled = False, cq_eq = None, cq_irqn = None,
     cq_src = None, cq_db = None\<rparr>"

definition wq_new :: "nat \<Rightarrow> wq" where
  "wq_new p = \<lparr>wq_port = p, wq_ring = \<lparr>q_log = 0, q_prod = 0, q_cons = 0, q_info = [], q_buf = []\<rparr>, wqn = None, wq_enabled = False,
     wq_cq = None, wq_db = None\<rparr>"

section \<open>Doorbells\<close>

definition arm_word :: "nat \<Rightarrow> int" where "arm_word c = (int c AND 0xffff) OR 0x80000000"

definition ring_word :: "nat \<Rightarrow> int" where "ring_word c = int c AND 0xffff"

definition write_db :: "'d nenv \<Rightarrow> int option \<Rightarrow> int \<Rightarrow> 'd cndm \<Rightarrow> 'd cndm result" where
  "write_db N db v s = (case db of None \<Rightarrow> Inl TypeError | Some a \<Rightarrow> Inr (s\<lparr>hw := mm_write (nio N) (nat a) v (hw s)\<rparr>))"

definition eq_arm :: "'d nenv \<Rightarrow> nat \<Rightarrow> 'd cndm \<Rightarrow> 'd cndm result" where
  "eq_arm N e s = write_db N (eq_db (eqs s ! e)) (arm_word (eq_cons (eqs s ! e))) s"

definition eq_unarmed :: "'d nenv \<Rightarrow> nat \<Rightarrow> 'd cndm \<Rightarrow> 'd cndm result" where
  "eq_unarmed N e s = write_db N (eq_db (eqs s ! e)) (ring_word (eq_cons (eqs s ! e))) s"

definition cq_arm :: "'d nenv \<Rightarrow> nat \<Rightarrow> 'd cndm \<Rightarrow> 'd cndm result" where
  "cq_arm N c s = write_db N (cq_db (cqs s ! c)) (arm_word (c_cons (cq_ring (cqs s ! c)))) s"

definition cq_unarmed :: "'d nenv \<Rightarrow> nat \<Rightarrow> 'd cndm \<Rightarrow> 'd cndm result" where
  "cq_unarmed N c s = write_db N (cq_db (cqs s ! c)) (ring_word (c_cons (cq_ring (cqs s ! c)))) s"

definition sq_kick :: "'d nenv \<Rightarrow> nat \<Rightarrow> 'd cndm \<Rightarrow> 'd cndm result" where
  "sq_kick N i s = write_db N (wq_db (sqs s ! i)) (ring_word (q_prod (wq_ring (sqs s ! i)))) s"

definition rq_kick :: "'d nenv \<Rightarrow> nat \<Rightarrow> 'd cndm \<Rightarrow> 'd cndm result" where
  "rq_kick N i s = write_db N (wq_db (rqs s ! i)) (ring_word (q_prod (wq_ring (rqs s ! i)))) s"

section \<open>Opening and closing\<close>

text \<open>A command about a queue: the operation, the port, the numbers of the queue and of its parent, the size and the
  address.  The answer is the number and the doorbell offset.\<close>

definition queue_cmd :: "int \<Rightarrow> nat \<Rightarrow> int \<Rightarrow> int \<Rightarrow> nat \<Rightarrow> int \<Rightarrow> int list" where
  "queue_cmd op port n parent lg base = [0, op, 0, int port, n, parent, 0, int lg, 0, base, 0, 0, 0, 0, 0]"

definition create_queue :: "'d nenv \<Rightarrow> int \<Rightarrow> nat \<Rightarrow> int \<Rightarrow> nat \<Rightarrow> 'd cndm \<Rightarrow> ((int \<times> int) option \<times> 'd cndm) run" where
  "create_queue N op port parent lg s =
     xbind (command (nio N) cmd_fmt (queue_cmd op port 0 parent lg (ring_base N (regions s) (2 ^ lg * 16))) (hw s)) (\<lambda>(rs, d).
     Some (Inr (if rs ! 8 = 0 then None else Some (rs ! 4, rs ! 8), s\<lparr>hw := d, regions := regions s + 1\<rparr>)))"

definition destroy_queue :: "'d nenv \<Rightarrow> int \<Rightarrow> nat \<Rightarrow> int \<Rightarrow> 'd cndm \<Rightarrow> 'd cndm run" where
  "destroy_queue N op port n s =
     xbind (command (nio N) cmd_fmt (queue_cmd op port n 0 0 0) (hw s)) (\<lambda>(rs, d). Some (Inr (s\<lparr>hw := d\<rparr>)))"

definition log_size :: "nat \<Rightarrow> nat run" where
  "log_size sz = Some (if sz = 0 then Inl TypeError else Inr (bit_length sz - 1))"

definition set_eq :: "nat \<Rightarrow> eq \<Rightarrow> 'd cndm \<Rightarrow> 'd cndm" where "set_eq i q s = s\<lparr>eqs := (eqs s)[i := q]\<rparr>"

definition set_cq :: "nat \<Rightarrow> cq \<Rightarrow> 'd cndm \<Rightarrow> 'd cndm" where "set_cq i q s = s\<lparr>cqs := (cqs s)[i := q]\<rparr>"

definition set_sq :: "nat \<Rightarrow> wq \<Rightarrow> 'd cndm \<Rightarrow> 'd cndm" where "set_sq i q s = s\<lparr>sqs := (sqs s)[i := q]\<rparr>"

definition set_rq :: "nat \<Rightarrow> wq \<Rightarrow> 'd cndm \<Rightarrow> 'd cndm" where "set_rq i q s = s\<lparr>rqs := (rqs s)[i := q]\<rparr>"

definition eq_open :: "'d nenv \<Rightarrow> nat \<Rightarrow> int \<Rightarrow> nat \<Rightarrow> 'd cndm \<Rightarrow> 'd cndm run" where
  "eq_open N i irqn sz s =
     (let q = eqs s ! i in
      if eqn q \<noteq> None then Some (Inl (Raised ''Already open''))
      else xbind (log_size sz) (\<lambda>lg.
        let q1 = q\<lparr>eq_log := lg, eq_buf := replicate (2 ^ lg * 16) 0, eq_cons := 0, eq_irqn := Some irqn, cq_table := Map.empty\<rparr> in
        xbind (create_queue N 0x0200 (eq_port q) irqn lg s) (\<lambda>(r, s1). case r of
          None \<Rightarrow> Some (Inr (set_eq i (q1\<lparr>eqn := None, eq_db := None\<rparr>) s1))
        | Some (n, db) \<Rightarrow> Some (eq_arm N i (set_eq i (q1\<lparr>eqn := Some n, eq_db := Some db, eq_enabled := True\<rparr>) s1)))))"

definition eq_close :: "'d nenv \<Rightarrow> nat \<Rightarrow> 'd cndm \<Rightarrow> 'd cndm run" where
  "eq_close N i s = (case eqn (eqs s ! i) of None \<Rightarrow> Some (Inr s) | Some n \<Rightarrow>
     xbind (destroy_queue N 0x0203 (eq_port (eqs s ! i)) n s) (\<lambda>s1.
     Some (Inr (set_eq i ((eqs s1 ! i)\<lparr>eq_enabled := False, eqn := None\<rparr>) s1))))"

definition attach_cq :: "nat \<Rightarrow> int \<Rightarrow> nat \<Rightarrow> 'd cndm \<Rightarrow> 'd cndm" where
  "attach_cq e n c s = set_eq e ((eqs s ! e)\<lparr>cq_table := (cq_table (eqs s ! e))(n \<mapsto> c)\<rparr>) s"

definition detach_cq :: "nat \<Rightarrow> int \<Rightarrow> 'd cndm \<Rightarrow> 'd cndm result" where
  "detach_cq e n s = (if cq_table (eqs s ! e) n = None then Inl KeyError
     else Inr (set_eq e ((eqs s ! e)\<lparr>cq_table := (cq_table (eqs s ! e))(n := None)\<rparr>) s))"

text \<open>A completion queue reports to an event queue or to an interrupt.\<close>

definition cq_open :: "'d nenv \<Rightarrow> nat \<Rightarrow> nat + int \<Rightarrow> nat \<Rightarrow> 'd cndm \<Rightarrow> 'd cndm run" where
  "cq_open N i dest sz s =
     (let q = cqs s ! i in
      if cqn q \<noteq> None then Some (Inl (Raised ''Already open''))
      else xbind (log_size sz) (\<lambda>lg.
        let q1 = (case dest of Inl e \<Rightarrow> q\<lparr>cq_eq := Some e\<rparr> | Inr irqn \<Rightarrow> q\<lparr>cq_irqn := Some irqn\<rparr>)\<lparr>cq_ring := cring_new lg\<rparr> in
        case (case dest of Inl e \<Rightarrow> eqn (eqs s ! e) | Inr irqn \<Rightarrow> Some (irqn OR 0x80000000)) of
          None \<Rightarrow> Some (Inl StructError)
        | Some dqn \<Rightarrow> xbind (create_queue N 0x0210 (cq_port q) dqn lg s) (\<lambda>(r, s1). case r of
            None \<Rightarrow> Some (Inr (set_cq i (q1\<lparr>cqn := None, cq_db := None\<rparr>) s1))
          | Some (n, db) \<Rightarrow>
              let s2 = set_cq i (q1\<lparr>cqn := Some n, cq_db := Some db, cq_enabled := True\<rparr>) s1 in
              Some (cq_arm N i (case cq_eq q1 of None \<Rightarrow> s2 | Some e \<Rightarrow> attach_cq e n i s2)))))"

definition cq_close :: "'d nenv \<Rightarrow> nat \<Rightarrow> 'd cndm \<Rightarrow> 'd cndm run" where
  "cq_close N i s = (case cqn (cqs s ! i) of None \<Rightarrow> Some (Inr s) | Some n \<Rightarrow>
     xbind (destroy_queue N 0x0213 (cq_port (cqs s ! i)) n s) (\<lambda>s1.
     Some (Inr (set_cq i ((cqs s1 ! i)\<lparr>cq_enabled := False, cqn := None\<rparr>) s1))))"

definition rq_refill :: "'d nenv \<Rightarrow> nat \<Rightarrow> 'd cndm \<Rightarrow> 'd cndm result" where
  "rq_refill N i s = rbind (refill_rx (nmem N) (wq_ring (rqs s ! i), packets s)) (\<lambda>(kick, r, p).
     let s1 = set_rq i ((rqs s ! i)\<lparr>wq_ring := r\<rparr>) (s\<lparr>packets := p\<rparr>) in if kick then rq_kick N i s1 else Inr s1)"

definition sq_open :: "'d nenv \<Rightarrow> nat \<Rightarrow> nat \<Rightarrow> nat \<Rightarrow> 'd cndm \<Rightarrow> 'd cndm run" where
  "sq_open N i c sz s =
     (let q = sqs s ! i in
      if wqn q \<noteq> None then Some (Inl (Raised ''Already open''))
      else xbind (log_size sz) (\<lambda>lg.
        let q1 = q\<lparr>wq_ring := ring_new lg, wq_cq := Some c\<rparr>; s0 = set_cq c ((cqs s ! c)\<lparr>cq_src := Some (Tx, i)\<rparr>) s in
        case cqn (cqs s ! c) of None \<Rightarrow> Some (Inl StructError)
        | Some cn \<Rightarrow> xbind (create_queue N 0x0220 (wq_port q) cn lg s0) (\<lambda>(r, s1). case r of
            None \<Rightarrow> Some (Inr (set_sq i (q1\<lparr>wqn := None, wq_db := None\<rparr>) s1))
          | Some (n, db) \<Rightarrow> Some (Inr (set_sq i (q1\<lparr>wqn := Some n, wq_db := Some db, wq_enabled := True\<rparr>) s1)))))"

definition rq_open :: "'d nenv \<Rightarrow> nat \<Rightarrow> nat \<Rightarrow> nat \<Rightarrow> 'd cndm \<Rightarrow> 'd cndm run" where
  "rq_open N i c sz s =
     (let q = rqs s ! i in
      if wqn q \<noteq> None then Some (Inl (Raised ''Already open''))
      else xbind (log_size sz) (\<lambda>lg.
        let q1 = q\<lparr>wq_ring := ring_new lg, wq_cq := Some c\<rparr>; s0 = set_cq c ((cqs s ! c)\<lparr>cq_src := Some (Rx, i)\<rparr>) s in
        case cqn (cqs s ! c) of None \<Rightarrow> Some (Inl StructError)
        | Some cn \<Rightarrow> xbind (create_queue N 0x0230 (wq_port q) cn lg s0) (\<lambda>(r, s1). case r of
            None \<Rightarrow> Some (Inr (set_rq i (q1\<lparr>wqn := None, wq_db := None\<rparr>) s1))
          | Some (n, db) \<Rightarrow> Some (rq_refill N i (set_rq i (q1\<lparr>wqn := Some n, wq_db := Some db, wq_enabled := True\<rparr>) s1)))))"

definition sq_close :: "'d nenv \<Rightarrow> nat \<Rightarrow> 'd cndm \<Rightarrow> 'd cndm run" where
  "sq_close N i s = (case wqn (sqs s ! i) of None \<Rightarrow> Some (Inr s) | Some n \<Rightarrow>
     xbind (destroy_queue N 0x0223 (wq_port (sqs s ! i)) n s) (\<lambda>s1.
     Some (Inr (set_sq i ((sqs s1 ! i)\<lparr>wq_enabled := False, wqn := None\<rparr>) s1))))"

definition rq_close :: "'d nenv \<Rightarrow> nat \<Rightarrow> 'd cndm \<Rightarrow> 'd cndm run" where
  "rq_close N i s = (case wqn (rqs s ! i) of None \<Rightarrow> Some (Inr s) | Some n \<Rightarrow>
     xbind (destroy_queue N 0x0233 (wq_port (rqs s ! i)) n s) (\<lambda>s1.
     Some (Inr (set_rq i ((rqs s1 ! i)\<lparr>wq_enabled := False, wqn := None\<rparr>) s1))))"

section \<open>Packets\<close>

definition sq_start_xmit :: "'d nenv \<Rightarrow> nat \<Rightarrow> bytes \<Rightarrow> 'd cndm \<Rightarrow> 'd cndm result" where
  "sq_start_xmit N i data s = rbind (start_xmit_ring (nmem N) data (wq_ring (sqs s ! i), packets s)) (\<lambda>(r, p).
     sq_kick N i (set_sq i ((sqs s ! i)\<lparr>wq_ring := r\<rparr>) (s\<lparr>packets := p\<rparr>)))"

definition free_tx_buf :: "nat \<Rightarrow> 'd cndm \<Rightarrow> 'd cndm result" where
  "free_tx_buf i s = rbind (free_ring_buf (wq_ring (sqs s ! i), packets s)) (\<lambda>(r, p).
     Inr (set_sq i ((sqs s ! i)\<lparr>wq_ring := r\<rparr>) (s\<lparr>packets := p\<rparr>)))"

definition free_rx_buf :: "nat \<Rightarrow> 'd cndm \<Rightarrow> 'd cndm result" where
  "free_rx_buf i s = rbind (free_ring_buf (wq_ring (rqs s ! i), packets s)) (\<lambda>(r, p).
     Inr (set_rq i ((rqs s ! i)\<lparr>wq_ring := r\<rparr>) (s\<lparr>packets := p\<rparr>)))"

definition process_tx_cq :: "'d nenv \<Rightarrow> nat \<Rightarrow> nat \<Rightarrow> 'd cndm \<Rightarrow> 'd cndm result" where
  "process_tx_cq N c i s = rbind (process_tx_ring (cq_ring (cqs s ! c), wq_ring (sqs s ! i), packets s)) (\<lambda>(cr, r, p).
     cq_arm N c (set_cq c ((cqs s ! c)\<lparr>cq_ring := cr\<rparr>) (set_sq i ((sqs s ! i)\<lparr>wq_ring := r\<rparr>) (s\<lparr>packets := p\<rparr>))))"

definition set_rx_queue :: "nat \<Rightarrow> bytes list \<Rightarrow> 'd cndm \<Rightarrow> 'd cndm" where
  "set_rx_queue p xs s = s\<lparr>ports := (ports s)[p := (ports s ! p)\<lparr>np_rx_queue := xs\<rparr>]\<rparr>"

definition process_rx_cq :: "'d nenv \<Rightarrow> nat \<Rightarrow> nat \<Rightarrow> 'd cndm \<Rightarrow> 'd cndm result" where
  "process_rx_cq N c i s = (let pt = wq_port (rqs s ! i) in
     rbind (process_rx_ring (nmem N) (cq_ring (cqs s ! c), wq_ring (rqs s ! i), packets s, np_rx_queue (ports s ! pt))) (\<lambda>(cr, r, p, rx).
     rbind (rq_refill N i (set_cq c ((cqs s ! c)\<lparr>cq_ring := cr\<rparr>) (set_rq i ((rqs s ! i)\<lparr>wq_ring := r\<rparr>)
       (set_rx_queue pt rx (s\<lparr>packets := p\<rparr>))))) (cq_arm N c)))"

definition cq_handler :: "'d nenv \<Rightarrow> nat \<Rightarrow> 'd cndm \<Rightarrow> 'd cndm result" where
  "cq_handler N c s = (case cq_src (cqs s ! c) of
     None \<Rightarrow> Inl TypeError | Some (Tx, i) \<Rightarrow> process_tx_cq N c i s | Some (Rx, i) \<Rightarrow> process_rx_cq N c i s)"

definition ev_fmt :: "fld list" where "ev_fmt = [FH, FH, FL, FL, FL]"

definition eq_event :: "'d nenv \<Rightarrow> nat \<Rightarrow> int list \<Rightarrow> 'd cndm \<Rightarrow> 'd cndm result" where
  "eq_event N e ev s = (if ev ! 1 = 0
     then (case cq_table (eqs s ! e) (ev ! 2) of None \<Rightarrow> Inl KeyError | Some c \<Rightarrow> cq_handler N c s) else Inr s)"

text \<open>The events are those in the buffer when the handler starts: the code reads the buffer again after each completion
  handler, whose awaits let the device write more.  Events written in that time are left for the next interrupt here.\<close>

definition process_eq :: "'d nenv \<Rightarrow> nat \<Rightarrow> 'd cndm \<Rightarrow> 'd cndm result" where
  "process_eq N e s = (let q = eqs s ! e in
     rbind (cq_loop ev_fmt (eq_event N e) (eq_log q) (eq_buf q) (eq_cons q) s) (\<lambda>(ptr, s1).
     eq_arm N e (set_eq e ((eqs s1 ! e)\<lparr>eq_cons := ptr\<rparr>) s1)))"

end
