(* ===== verification/CndmDriver.thy ===== *)
theory CndmDriver imports CndmQueue begin

text \<open>
  Ports and the driver as a whole (\<open>src/cndm/tb/cndm.py\<close>): the start, with the configuration pages
  and the clock, the opening of the queues of a port, sending and receiving, and the dispatch of
  interrupts.
\<close>

section \<open>Ports\<close>

definition port_count_const :: nat where "port_count_const = 1"

definition port_new :: nport where "port_new = \<lparr>np_eq = [], np_rxq = [], np_txq = [], np_rx_queue = []\<rparr>"

definition set_port :: "nat \<Rightarrow> (nport \<Rightarrow> nport) \<Rightarrow> 'd cndm \<Rightarrow> 'd cndm" where
  "set_port p f s = s\<lparr>ports := (ports s)[p := f (ports s ! p)]\<rparr>"

text \<open>One pass of each loop of \<open>Port.open\<close>: a completion queue on the port's first event queue, and a ring on it.\<close>

definition open_cq :: "'d nenv \<Rightarrow> nat \<Rightarrow> 'd cndm \<Rightarrow> (nat \<times> 'd cndm) run" where
  "open_cq N p s = xbind (Some (py_get (np_eq (ports s ! p)) 0)) (\<lambda>e.
     let c = length (cqs s) in
     xbind (cq_open N c (Inl e) 256 (s\<lparr>cqs := cqs s @ [cq_new p]\<rparr>)) (\<lambda>s1. Some (Inr (c, s1))))"

definition port_open_rx :: "'d nenv \<Rightarrow> nat \<Rightarrow> 'd cndm \<Rightarrow> 'd cndm run" where
  "port_open_rx N p s = xbind (open_cq N p s) (\<lambda>(c, s1).
     let i = length (rqs s1) in
     xbind (rq_open N i c 256 (s1\<lparr>rqs := rqs s1 @ [wq_new p]\<rparr>)) (\<lambda>s2.
     Some (Inr (set_port p (\<lambda>q. q\<lparr>np_rxq := np_rxq q @ [i]\<rparr>) s2))))"

definition port_open_tx :: "'d nenv \<Rightarrow> nat \<Rightarrow> 'd cndm \<Rightarrow> 'd cndm run" where
  "port_open_tx N p s = xbind (open_cq N p s) (\<lambda>(c, s1).
     let i = length (sqs s1) in
     xbind (sq_open N i c 256 (s1\<lparr>sqs := sqs s1 @ [wq_new p]\<rparr>)) (\<lambda>s2.
     Some (Inr (set_port p (\<lambda>q. q\<lparr>np_txq := np_txq q @ [i]\<rparr>) s2))))"

definition port_open :: "'d nenv \<Rightarrow> nat \<Rightarrow> 'd cndm \<Rightarrow> 'd cndm run" where
  "port_open N p s = xbind (xfold (\<lambda>_. port_open_rx N p) [0..<port_count_const] s) (xfold (\<lambda>_. port_open_tx N p) [0..<port_count_const])"

definition port_open_eq :: "'d nenv \<Rightarrow> nat \<Rightarrow> 'd cndm \<Rightarrow> 'd cndm run" where
  "port_open_eq N p s =
     (let i = length (eqs s) in
      xbind (eq_open N i (int p) 256 (s\<lparr>eqs := eqs s @ [eq_new p]\<rparr>)) (\<lambda>s1.
      Some (Inr (set_port p (\<lambda>q. q\<lparr>np_eq := np_eq q @ [i]\<rparr>) s1))))"

definition nport_init :: "'d nenv \<Rightarrow> nat \<Rightarrow> 'd cndm \<Rightarrow> 'd cndm run" where
  "nport_init N p s = xbind (xfold (\<lambda>_. port_open_eq N p) [0..<port_count_const] s) (port_open N p)"

definition nport_xmit :: "'d nenv \<Rightarrow> nat \<Rightarrow> bytes \<Rightarrow> int \<Rightarrow> 'd cndm \<Rightarrow> 'd cndm result" where
  "nport_xmit N p data tx_ring s = rbind (py_get (np_txq (ports s ! p)) tx_ring) (\<lambda>i. sq_start_xmit N i data s)"

definition nport_recv_nowait :: "nat \<Rightarrow> 'd cndm \<Rightarrow> (bytes \<times> 'd cndm) result" where
  "nport_recv_nowait p s = (case np_rx_queue (ports s ! p) of [] \<Rightarrow> Inl QueueEmpty | d # rest \<Rightarrow> Inr (d, set_rx_queue p rest s))"

section \<open>The start of the driver\<close>

record resource =
  log_max :: int
  log_max_sz :: int
  res_pool :: int
  entry_ver :: int

definition res_fields :: "int \<Rightarrow> resource" where
  "res_fields w = \<lparr>log_max = w AND 0xff, log_max_sz = drop_bit 8 w AND 0xff, res_pool = drop_bit 16 w AND 0xff, entry_ver = drop_bit 24 w AND 0xff\<rparr>"

record hw_info =
  cfg_page_max :: int
  cmd_ver :: int
  fpga_id :: int
  fw_id :: int
  fw_ver :: int
  board_id :: int
  board_ver :: int
  build_date :: int
  git_hash :: int
  release_info :: int
  port_count :: int
  sys_clk_num :: int
  sys_clk_den :: int
  ptp_clk_num :: int
  ptp_clk_den :: int
  eq_res :: resource
  cq_res :: resource
  sq_res :: resource
  rq_res :: resource

definition cfg_cmd :: "int \<Rightarrow> int list" where "cfg_cmd page = [0, 0x0100, 0, page, 0] @ replicate 13 0"

text \<open>The three pages; the clock periods are printed as \<open>1000/(num/den)\<close>.\<close>

definition read_info :: "'d nenv \<Rightarrow> 'd \<Rightarrow> (hw_info \<times> 'd) run" where
  "read_info N d =
     xbind (command (nio N) cfg_fmt (cfg_cmd 0) d) (\<lambda>(a, d1).
     xbind (command (nio N) cfg_fmt (cfg_cmd 1) d1) (\<lambda>(b, d2).
     if drop_bit 16 (b ! 14) = 0 \<or> b ! 14 AND 0xffff = 0 \<or> drop_bit 16 (b ! 15) = 0 \<or> b ! 15 AND 0xffff = 0
     then Some (Inl (Raised ''ZeroDivisionError''))
     else xbind (command (nio N) cfg_fmt (cfg_cmd 2) d2) (\<lambda>(c, d3).
     Some (Inr (\<lparr>cfg_page_max = a ! 4, cmd_ver = a ! 5, fpga_id = a ! 10, fw_id = a ! 11, fw_ver = a ! 12, board_id = a ! 13, board_ver = a ! 14,
       build_date = a ! 15, git_hash = a ! 16, release_info = a ! 17, port_count = b ! 10 AND 0xff, sys_clk_num = drop_bit 16 (b ! 14),
       sys_clk_den = b ! 14 AND 0xffff, ptp_clk_num = drop_bit 16 (b ! 15), ptp_clk_den = b ! 15 AND 0xffff,
       eq_res = res_fields (c ! 10), cq_res = res_fields (c ! 11), sq_res = res_fields (c ! 12), rq_res = res_fields (c ! 13)\<rparr>, d3)))))"

definition ptp_cmd :: "int \<Rightarrow> int list" where
  "ptp_cmd period = [0, 0x0190, 0x01 OR 0x04 OR 0x80, 0, 0x12345678, 0x123456654321, 0x112233445566, 0, 0, period, 0, 0]"

definition set_clock :: "'d nenv \<Rightarrow> 'd \<Rightarrow> 'd run" where
  "set_clock N d =
     xbind (command (nio N) ptp_fmt ([0, 0x0190] @ replicate 10 0) d) (\<lambda>(rs, d1).
     xbind (command (nio N) ptp_fmt (ptp_cmd (rs ! 8)) d1) (\<lambda>(_, d2). Some (Inr d2)))"

definition drv_new :: "'d \<Rightarrow> 'd cndm" where
  "drv_new d = \<lparr>hw = d, packets = \<lparr>free_packets = [], allocated_packets = [], pkt_mem = (\<lambda>_. [])\<rparr>, regions = 0,
     eqs = [], cqs = [], sqs = [], rqs = [], ports = []\<rparr>"

definition init_common :: "'d nenv \<Rightarrow> 'd cndm \<Rightarrow> (hw_info \<times> 'd cndm) run" where
  "init_common N s =
     xbind (read_info N (hw s)) (\<lambda>(info, d1).
     xbind (set_clock N d1) (\<lambda>d2.
     xbind (xfold (\<lambda>k s. nport_init N k (s\<lparr>ports := ports s @ [port_new]\<rparr>)) [0..<nat (port_count info)] (s\<lparr>hw := d2\<rparr>)) (\<lambda>s1.
     Some (Inr (info, s1)))))"

section \<open>Interrupts\<close>

definition ring_irq :: "'d nenv \<Rightarrow> int \<Rightarrow> wq \<Rightarrow> 'd cndm \<Rightarrow> 'd cndm result" where
  "ring_irq N irqn q s = (case wq_cq q of None \<Rightarrow> Inl AttributeError
     | Some c \<Rightarrow> if cq_irqn (cqs s ! c) = Some irqn then cq_handler N c s else Inr s)"

definition port_irq :: "'d nenv \<Rightarrow> int \<Rightarrow> nat \<Rightarrow> 'd cndm \<Rightarrow> 'd cndm result" where
  "port_irq N irqn p s = (let q = ports s ! p in
     if np_eq q \<noteq> [] then rfold (\<lambda>e s. if eq_irqn (eqs s ! e) = Some irqn then process_eq N e s else Inr s) (np_eq q) s
     else rbind (rfold (\<lambda>i s. ring_irq N irqn (rqs s ! i) s) (np_rxq q) s) (rfold (\<lambda>i s. ring_irq N irqn (sqs s ! i) s) (np_txq q)))"

definition interrupt_handler :: "'d nenv \<Rightarrow> int \<Rightarrow> 'd cndm \<Rightarrow> 'd cndm result" where
  "interrupt_handler N irqn s = rfold (port_irq N irqn) [0..<length (ports s)] s"

end
