(* ===== verification/CndmFlow.thy ===== *)
theory CndmFlow imports CndmDriver begin

text \<open>
  The handlers of the network driver over the whole state: the loop over a queue as a fold over the
  entries that the device has written, and the invariant of rings, completion queues and packet
  pool that every interrupt keeps.
\<close>

section \<open>The loop as a fold\<close>

definition entry_at :: "fld list \<Rightarrow> nat \<Rightarrow> bytes \<Rightarrow> nat \<Rightarrow> int list" where
  "entry_at fmt lg buf j = unpack_flds fmt (drop (ring_idx lg j * 16) buf)"

lemma cq_loop_fold:
  assumes sy: "synced fmt lg buf dv" and c: "c \<le> dv" "dv \<le> c + 2 ^ lg"
  shows "cq_loop fmt body lg buf c s = rbind (rfold body (map (entry_at fmt lg buf) [c..<dv]) s) (\<lambda>s'. Inr (dv, s'))"
  using c
proof (induction "dv - c" arbitrary: c s)
  case 0
  then have "c = dv" by simp
  moreover obtain e where "unpack_from fmt buf (ring_idx lg dv * 16) = Inr e" "\<not> entry_new lg dv e" using synced_end [OF sy] .
  ultimately show ?case by (subst cq_loop.simps) simp
next
  case (Suc n)
  then have lt: "c < dv" by simp
  obtain e where e: "unpack_from fmt buf (ring_idx lg c * 16) = Inr e" "entry_new lg c e"
    using synced_new [OF sy _ lt] Suc.prems(2) by blast
  then have ee: "entry_at fmt lg buf c = e" by (auto simp: unpack_from_def entry_at_def split: if_splits)
  have "cq_loop fmt body lg buf (Suc c) s' = rbind (rfold body (map (entry_at fmt lg buf) [Suc c..<dv]) s') (\<lambda>s'. Inr (dv, s'))" for s'
    by (rule Suc.hyps(1)) (use Suc lt in auto)
  then have "cq_loop fmt body lg buf (Suc c) = (\<lambda>s'. rbind (rfold body (map (entry_at fmt lg buf) [Suc c..<dv]) s') (\<lambda>s'. Inr (dv, s')))" ..
  then show ?case using e ee lt by (subst cq_loop.simps) (simp add: upt_conv_Cons rbind_assoc)
qed

section \<open>Rings of the driver\<close>

fun wring :: "'d cndm \<Rightarrow> wq_kind \<times> nat \<Rightarrow> ring" where
  "wring s (Tx, i) = wq_ring (sqs s ! i)"
| "wring s (Rx, i) = wq_ring (rqs s ! i)"

fun wthere :: "'d cndm \<Rightarrow> wq_kind \<times> nat \<Rightarrow> bool" where
  "wthere s (Tx, i) \<longleftrightarrow> i < length (sqs s)"
| "wthere s (Rx, i) \<longleftrightarrow> i < length (rqs s) \<and> wq_db (rqs s ! i) \<noteq> None"

fun put_ring :: "wq_kind \<times> nat \<Rightarrow> ring \<Rightarrow> 'd cndm \<Rightarrow> 'd cndm" where
  "put_ring (Tx, i) r s = set_sq i ((sqs s ! i)\<lparr>wq_ring := r\<rparr>) s"
| "put_ring (Rx, i) r s = set_rq i ((rqs s ! i)\<lparr>wq_ring := r\<rparr>) s"

definition rings :: "'d cndm \<Rightarrow> ring list" where "rings s = map wq_ring (sqs s @ rqs s)"

fun others :: "'d cndm \<Rightarrow> wq_kind \<times> nat \<Rightarrow> ring list" where
  "others s (Tx, i) = map wq_ring (take i (sqs s) @ drop (Suc i) (sqs s) @ rqs s)"
| "others s (Rx, i) = map wq_ring (sqs s @ take i (rqs s) @ drop (Suc i) (rqs s))"

definition held_bufs :: "ring list \<Rightarrow> nat list" where "held_bufs rs = concat (map posted rs)"

definition chan :: "ring \<Rightarrow> cring \<Rightarrow> nat \<Rightarrow> bool" where
  "chan r c dv \<longleftrightarrow> ring_ok r \<and> synced cpl_fmt (c_log c) (c_buf c) dv \<and> c_cons c = q_cons r \<and> q_cons r \<le> dv \<and> dv \<le> q_prod r \<and>
     dv \<le> c_cons c + 2 ^ c_log c"

definition in_bounds :: "ring \<Rightarrow> bool" where "in_bounds r \<longleftrightarrow> q_prod r \<le> q_cons r + 2 ^ q_log r"

text \<open>The pool against all rings; every completion queue that serves a ring against that ring and the device's
  pointer \<open>dv\<close>; no ring served twice; the tables of the event queues.\<close>

definition drv_ok :: "nat \<Rightarrow> (nat \<Rightarrow> nat) \<Rightarrow> 'd cndm \<Rightarrow> bool" where
  "drv_ok cap dv s \<longleftrightarrow> pool_ok cap (packets s) (held_bufs (rings s)) \<and> (\<Sum>r\<leftarrow>rings s. 2 ^ q_log r) \<le> cap \<and> (\<forall>r \<in> set (rings s). in_bounds r) \<and>
     (\<forall>c w. c < length (cqs s) \<and> cq_src (cqs s ! c) = Some w \<longrightarrow> wthere s w \<and> cq_db (cqs s ! c) \<noteq> None \<and> chan (wring s w) (cq_ring (cqs s ! c)) (dv c)) \<and>
     (\<forall>c c' w. c < length (cqs s) \<and> c' < length (cqs s) \<and> cq_src (cqs s ! c) = Some w \<and> cq_src (cqs s ! c') = Some w \<longrightarrow> c = c') \<and>
     (\<forall>e n c. e < length (eqs s) \<and> cq_table (eqs s ! e) n = Some c \<longrightarrow> c < length (cqs s) \<and> cq_src (cqs s ! c) \<noteq> None)"

lemma split_nth: "i < length xs \<Longrightarrow> mset (map f xs) = {#f (xs ! i)#} + mset (map f (take i xs @ drop (Suc i) xs))"
  by (subst (1) id_take_nth_drop [of i xs]) (simp_all only: map_append list.map mset_append mset.simps, simp)

lemma rings_split: "wthere s w \<Longrightarrow> mset (rings s) = {#wring s w#} + mset (others s w)"
proof (cases w)
  case (Pair k i)
  assume w: "wthere s w"
  show ?thesis
  proof (cases k)
    case Tx
    then show ?thesis using split_nth [of i "sqs s" wq_ring] w Pair by (simp add: rings_def)
  next
    case Rx
    then show ?thesis using split_nth [of i "rqs s" wq_ring] w Pair by (simp add: rings_def)
  qed
qed

lemma held_split: "mset rs = mset rs' \<Longrightarrow> mset (held_bufs rs) = mset (held_bufs rs')"
  by (simp add: held_bufs_def mset_concat flip: sum_mset_sum_list)

lemma sum_split: "mset rs = mset rs' \<Longrightarrow> (\<Sum>r\<leftarrow>rs. f r) = (\<Sum>r\<leftarrow>rs'. f r)" for f :: "ring \<Rightarrow> nat"
  by (simp flip: sum_mset_sum_list)

lemma put_ring_facts:
  assumes "wthere s w"
  shows "wring (put_ring w r s) w = r" "others (put_ring w r s) w = others s w" "wthere (put_ring w r s) w' = wthere s w'"
    "w' \<noteq> w \<Longrightarrow> wring (put_ring w r s) w' = wring s w'" "cqs (put_ring w r s) = cqs s" "eqs (put_ring w r s) = eqs s"
    "packets (put_ring w r s) = packets s" "ports (put_ring w r s) = ports s"
proof -
  obtain k i where w: "w = (k, i)" by fastforce
  obtain k' j where w': "w' = (k', j)" by fastforce
  show "wring (put_ring w r s) w = r" "others (put_ring w r s) w = others s w" "cqs (put_ring w r s) = cqs s" "eqs (put_ring w r s) = eqs s"
    "packets (put_ring w r s) = packets s" "ports (put_ring w r s) = ports s"
    using assms by (cases k; simp add: w set_sq_def set_rq_def)+
  show "wthere (put_ring w r s) w' = wthere s w'"
    using assms by (cases k; cases k'; simp add: w w' set_sq_def set_rq_def nth_list_update)
  show "wring (put_ring w r s) w' = wring s w'" if "w' \<noteq> w"
    using assms that by (cases k; cases k'; simp add: w w' set_sq_def set_rq_def nth_list_update)
qed

lemma wring_packets [simp]: "wring (s\<lparr>packets := p\<rparr>) w = wring s w" "others (s\<lparr>packets := p\<rparr>) w = others s w" "wthere (s\<lparr>packets := p\<rparr>) w = wthere s w"
  by (cases "(s, w)" rule: wring.cases; simp)+

lemma wring_cq [simp]: "wring (set_cq c q s) w = wring s w" "others (set_cq c q s) w = others s w" "wthere (set_cq c q s) w = wthere s w"
  by (cases "(s, w)" rule: wring.cases; simp add: set_cq_def)+

lemma set_cq_fields [simp]:
  "rings (set_cq c q s) = rings s" "packets (set_cq c q s) = packets s" "eqs (set_cq c q s) = eqs s" "cqs (set_cq c q s) = (cqs s)[c := q]"
  by (simp_all add: rings_def set_cq_def)

lemma drv_ok_cong:
  "packets s' = packets s \<Longrightarrow> sqs s' = sqs s \<Longrightarrow> rqs s' = rqs s \<Longrightarrow> cqs s' = cqs s \<Longrightarrow> eqs s' = eqs s \<Longrightarrow> drv_ok cap dv s' = drv_ok cap dv s"
proof -
  assume h: "packets s' = packets s" "sqs s' = sqs s" "rqs s' = rqs s" "cqs s' = cqs s" "eqs s' = eqs s"
  have "wring s' w = wring s w" "wthere s' w = wthere s w" for w using h by (cases "(s, w)" rule: wring.cases; simp)+
  moreover have "rings s' = rings s" using h by (simp add: rings_def)
  ultimately show ?thesis unfolding drv_ok_def by (simp only: h)
qed

lemma drv_ok_pool:
  assumes "drv_ok cap dv s" "wthere s w"
  shows "pool_ok cap (packets s) (posted (wring s w) @ held_bufs (others s w))"
    "2 ^ q_log (wring s w) + length (held_bufs (others s w)) \<le> cap"
proof -
  note m = rings_split [OF assms(2)]
  have "mset (held_bufs (rings s)) = mset (held_bufs (wring s w # others s w))" by (rule held_split) (simp add: m)
  then show "pool_ok cap (packets s) (posted (wring s w) @ held_bufs (others s w))"
    using assms(1) pool_ok_perm [of cap "packets s" "held_bufs (rings s)"] by (simp add: drv_ok_def held_bufs_def)
  have b: "\<forall>r \<in> set rs. in_bounds r \<Longrightarrow> length (held_bufs rs) \<le> (\<Sum>r\<leftarrow>rs. 2 ^ q_log r)" for rs
    by (induction rs) (auto simp: held_bufs_def posted_def in_bounds_def)
  have "set (others s w) \<subseteq> set (rings s)" using m by (metis add_mset_add_single mset_subset_eq_add_left set_mset_mono set_mset_mset union_commute)
  then have "length (held_bufs (others s w)) \<le> (\<Sum>r\<leftarrow>others s w. 2 ^ q_log r)" using assms(1) by (intro b) (auto simp: drv_ok_def)
  moreover have "(\<Sum>r\<leftarrow>rings s. 2 ^ q_log r) = (\<Sum>r\<leftarrow>wring s w # others s w. 2 ^ q_log r :: nat)" by (rule sum_split) (simp add: m)
  ultimately show "2 ^ q_log (wring s w) + length (held_bufs (others s w)) \<le> cap" using assms(1) by (simp add: drv_ok_def)
qed

lemma drv_ok_update:
  assumes ok: "drv_ok cap dv s" and c: "c < length (cqs s)" "cq_src (cqs s ! c) = Some w"
    and ch: "chan r' c' (dv c)" and lg: "q_log r' = q_log (wring s w)" and pool: "pool_ok cap p' (posted r' @ held_bufs (others s w))"
  shows "drv_ok cap dv (set_cq c ((cqs s ! c)\<lparr>cq_ring := c'\<rparr>) (put_ring w r' (s\<lparr>packets := p'\<rparr>)))"
proof -
  have cs: "wthere s w'" "cq_db (cqs s ! x) \<noteq> None" "chan (wring s w') (cq_ring (cqs s ! x)) (dv x)"
    if "x < length (cqs s)" "cq_src (cqs s ! x) = Some w'" for x w' using ok that unfolding drv_ok_def by blast+
  have inj: "x = y" if "x < length (cqs s)" "y < length (cqs s)" "cq_src (cqs s ! x) = Some w'" "cq_src (cqs s ! y) = Some w'" for x y w'
    using ok that unfolding drv_ok_def by blast
  have tab: "x < length (cqs s) \<and> cq_src (cqs s ! x) \<noteq> None" if "e < length (eqs s)" "cq_table (eqs s ! e) n = Some x" for e n x
    using ok that unfolding drv_ok_def by blast
  note w = cs(1) [OF c]
  have w': "wthere (s\<lparr>packets := p'\<rparr>) w" using w by simp
  note pf = put_ring_facts [OF w']
  define t where "t = set_cq c ((cqs s ! c)\<lparr>cq_ring := c'\<rparr>) (put_ring w r' (s\<lparr>packets := p'\<rparr>))"
  have f: "wring t w = r'" "others t w = others s w" "\<And>x. wthere t x = wthere s x" "\<And>x. x \<noteq> w \<Longrightarrow> wring t x = wring s x"
    "cqs t = (cqs s)[c := (cqs s ! c)\<lparr>cq_ring := c'\<rparr>]" "eqs t = eqs s" "packets t = p'"
    by (simp_all add: t_def pf)
  have src: "cq_src (cqs t ! x) = cq_src (cqs s ! x)" "cq_db (cqs t ! x) = cq_db (cqs s ! x)" for x
    unfolding f(5) using c(1) by (simp_all add: nth_list_update)
  have "wthere t w" using w f(3) by blast
  note m = rings_split [OF this, unfolded f(1,2)] and m0 = rings_split [OF w]
  show ?thesis unfolding t_def [symmetric] drv_ok_def
  proof (intro conjI)
    have "mset (held_bufs (rings t)) = mset (held_bufs (r' # others s w))" by (rule held_split) (use m in simp)
    then show "pool_ok cap (packets t) (held_bufs (rings t))" unfolding f(7) using pool by (intro pool_ok_perm [OF pool]) (simp add: held_bufs_def)
    have "(\<Sum>r\<leftarrow>rings t. 2 ^ q_log r) = (\<Sum>r\<leftarrow>r' # others s w. 2 ^ q_log r :: nat)" by (rule sum_split) (use m in simp)
    moreover have "(\<Sum>r\<leftarrow>rings s. 2 ^ q_log r) = (\<Sum>r\<leftarrow>wring s w # others s w. 2 ^ q_log r :: nat)" by (rule sum_split) (simp add: m0)
    ultimately show "(\<Sum>r\<leftarrow>rings t. 2 ^ q_log r) \<le> cap" using ok lg by (simp add: drv_ok_def)
    have "set (rings t) = insert r' (set (others s w))" using m by (metis add_mset_add_single set_mset_add_mset_insert set_mset_mset union_commute)
    moreover have "set (rings s) = insert (wring s w) (set (others s w))" using m0 by (metis add_mset_add_single set_mset_add_mset_insert set_mset_mset union_commute)
    moreover have "in_bounds r'" using ch by (simp add: chan_def in_bounds_def ring_ok_def)
    ultimately show "\<forall>r \<in> set (rings t). in_bounds r" using ok by (simp add: drv_ok_def)
    show "\<forall>x w'. x < length (cqs t) \<and> cq_src (cqs t ! x) = Some w' \<longrightarrow> wthere t w' \<and> cq_db (cqs t ! x) \<noteq> None \<and> chan (wring t w') (cq_ring (cqs t ! x)) (dv x)"
    proof (intro allI impI, elim conjE)
      fix x w' assume x: "x < length (cqs t)" "cq_src (cqs t ! x) = Some w'"
      then have x0: "x < length (cqs s)" "cq_src (cqs s ! x) = Some w'" using f(5) src(1) by simp_all
      have "chan (wring t w') (cq_ring (cqs t ! x)) (dv x)"
      proof (cases "x = c")
        case True
        then show ?thesis using x0(2) c ch f(1,5) by simp
      next
        case False
        then have "w' \<noteq> w" using inj [OF x0(1) c(1) x0(2)] c(2) by blast
        then show ?thesis using cs(3) [OF x0] False f(4,5) by simp
      qed
      then show "wthere t w' \<and> cq_db (cqs t ! x) \<noteq> None \<and> chan (wring t w') (cq_ring (cqs t ! x)) (dv x)"
        using cs(1,2) [OF x0] by (simp add: f(3) src(2))
    qed
    show "\<forall>x y w'. x < length (cqs t) \<and> y < length (cqs t) \<and> cq_src (cqs t ! x) = Some w' \<and> cq_src (cqs t ! y) = Some w' \<longrightarrow> x = y"
      unfolding src using inj by (simp add: f(5))
    show "\<forall>e n x. e < length (eqs t) \<and> cq_table (eqs t ! e) n = Some x \<longrightarrow> x < length (cqs t) \<and> cq_src (cqs t ! x) \<noteq> None"
    proof -
      have l: "length (cqs t) = length (cqs s)" by (simp add: f(5))
      show ?thesis unfolding src f(6) l using tab by blast
    qed
  qed
qed

section \<open>The handlers\<close>

text \<open>What a handler leaves as it is; and a queue that is drained stays so.\<close>

definition kept :: "(nat \<Rightarrow> nat) \<Rightarrow> 'd cndm \<Rightarrow> 'd cndm \<Rightarrow> bool" where
  "kept dv s s' \<longleftrightarrow> length (ports s') = length (ports s) \<and> (\<forall>p < length (ports s). np_eq (ports s' ! p) = np_eq (ports s ! p)) \<and>
     length (cqs s') = length (cqs s) \<and> (\<forall>c. cq_src (cqs s' ! c) = cq_src (cqs s ! c)) \<and>
     (\<forall>c. c_cons (cq_ring (cqs s ! c)) = dv c \<longrightarrow> c_cons (cq_ring (cqs s' ! c)) = dv c) \<and>
     length (eqs s') = length (eqs s) \<and> (\<forall>e < length (eqs s). eq_irqn (eqs s' ! e) = eq_irqn (eqs s ! e) \<and> cq_table (eqs s' ! e) = cq_table (eqs s ! e) \<and>
       eq_db (eqs s' ! e) = eq_db (eqs s ! e) \<and> eq_log (eqs s' ! e) = eq_log (eqs s ! e) \<and> eq_buf (eqs s' ! e) = eq_buf (eqs s ! e))"

lemma kept_refl: "kept dv s s"
  by (simp add: kept_def)

lemma kept_trans: "kept dv s1 s2 \<Longrightarrow> kept dv s2 s3 \<Longrightarrow> kept dv s1 s3"
  by (simp add: kept_def)

lemma chan_drain: "chan r c dv \<Longrightarrow> drained r dv r' \<Longrightarrow> chan r' (c\<lparr>c_cons := dv\<rparr>) dv"
  by (auto simp: chan_def drained_def)

lemma drv_ok_src:
  assumes "drv_ok cap dv s" "c < length (cqs s)" "cq_src (cqs s ! c) = Some w"
  shows "wthere s w" "cq_db (cqs s ! c) \<noteq> None" "chan (wring s w) (cq_ring (cqs s ! c)) (dv c)"
  using assms unfolding drv_ok_def by blast+

lemma write_db_ok: "db \<noteq> None \<Longrightarrow> \<exists>d. write_db N db v s = Inr (s\<lparr>hw := d\<rparr>)"
  by (auto simp: write_db_def)

lemma cq_arm_ok:
  "cq_db (cqs s ! c) \<noteq> None \<Longrightarrow> \<exists>d. cq_arm N c s = Inr (s\<lparr>hw := d\<rparr>)"
  "cq_db (cqs s ! c) \<noteq> None \<Longrightarrow> \<exists>d. cq_arm N c (s\<lparr>hw := x\<rparr>) = Inr (s\<lparr>hw := d\<rparr>)"
  by (auto simp: cq_arm_def write_db_def)

lemma kept_hw: "kept dv s (s'\<lparr>hw := d\<rparr>) = kept dv s s'"
  by (simp add: kept_def)

lemma drv_ok_hw: "drv_ok cap dv (s\<lparr>hw := d\<rparr>) = drv_ok cap dv s"
  by (rule drv_ok_cong) simp_all

lemma process_tx_flow:
  assumes ok: "drv_ok cap dv s" and c: "c < length (cqs s)" "cq_src (cqs s ! c) = Some (Tx, i)"
  shows "\<exists>s'. process_tx_cq N c i s = Inr s' \<and> drv_ok cap dv s' \<and> kept dv s s' \<and> c_cons (cq_ring (cqs s' ! c)) = dv c \<and> eqs s' = eqs s"
proof -
  note so = drv_ok_src [OF ok c]
  note po = drv_ok_pool [OF ok so(1)]
  have ch: "ring_ok (wring s (Tx, i))" "synced cpl_fmt (c_log (cq_ring (cqs s ! c))) (c_buf (cq_ring (cqs s ! c))) (dv c)"
    "c_cons (cq_ring (cqs s ! c)) = q_cons (wring s (Tx, i))" "q_cons (wring s (Tx, i)) \<le> dv c" "dv c \<le> q_prod (wring s (Tx, i))"
    "dv c \<le> c_cons (cq_ring (cqs s ! c)) + 2 ^ c_log (cq_ring (cqs s ! c))" using so(3) by (simp_all add: chan_def)
  from process_tx_ok [OF ch po(1)] obtain r' p' where
    r: "process_tx_ring (cq_ring (cqs s ! c), wring s (Tx, i), packets s) = Inr ((cq_ring (cqs s ! c))\<lparr>c_cons := dv c\<rparr>, r', p')"
      "drained (wring s (Tx, i)) (dv c) r'" "pool_ok cap p' (posted r' @ held_bufs (others s (Tx, i)))" by blast
  let ?c = "(cq_ring (cqs s ! c))\<lparr>c_cons := dv c\<rparr>"
  let ?s = "set_cq c ((cqs s ! c)\<lparr>cq_ring := ?c\<rparr>) (put_ring (Tx, i) r' (s\<lparr>packets := p'\<rparr>))"
  have "drv_ok cap dv ?s" by (rule drv_ok_update [OF ok c chan_drain [OF so(3) r(2)] _ r(3)]) (use r(2) in \<open>simp add: drained_def\<close>)
  moreover have e: "process_tx_cq N c i s = cq_arm N c ?s" using r(1) by (simp add: process_tx_cq_def set_sq_def set_cq_def)
  moreover have "cq_db (cqs ?s ! c) \<noteq> None" using so(2) c(1) by (simp add: set_sq_def)
  from cq_arm_ok(1) [OF this] obtain d where "cq_arm N c ?s = Inr (?s\<lparr>hw := d\<rparr>)" by blast
  moreover have "kept dv s ?s" using c(1) by (auto simp: kept_def set_sq_def set_cq_def nth_list_update)
  moreover have "c_cons (cq_ring (cqs ?s ! c)) = dv c" "eqs ?s = eqs s" using c(1) by (simp_all add: set_sq_def)
  ultimately show ?thesis by (simp add: kept_hw drv_ok_hw)
qed

lemma rx_queue_np_eq: "p < length xs \<Longrightarrow> np_eq (xs[q := (xs ! q)\<lparr>np_rx_queue := x\<rparr>] ! p) = np_eq (xs ! p)"
  by (cases "p = q") simp_all

lemma process_rx_flow:
  assumes ok: "drv_ok cap dv s" and mem: "dma_memory (nmem N) cap" and c: "c < length (cqs s)" "cq_src (cqs s ! c) = Some (Rx, i)"
  shows "\<exists>s'. process_rx_cq N c i s = Inr s' \<and> drv_ok cap dv s' \<and> kept dv s s' \<and> c_cons (cq_ring (cqs s' ! c)) = dv c \<and> eqs s' = eqs s"
proof -
  note so = drv_ok_src [OF ok c]
  note po = drv_ok_pool [OF ok so(1)]
  let ?r = "wring s (Rx, i)" and ?c0 = "cq_ring (cqs s ! c)" and ?pt = "wq_port (rqs s ! i)" and ?o = "held_bufs (others s (Rx, i))"
  have ch: "ring_ok ?r" "synced cpl_fmt (c_log ?c0) (c_buf ?c0) (dv c)" "c_cons ?c0 = q_cons ?r" "q_cons ?r \<le> dv c" "dv c \<le> q_prod ?r"
    "dv c \<le> c_cons ?c0 + 2 ^ c_log ?c0" using so(3) by (simp_all add: chan_def)
  let ?pl = "\<lambda>j. region_head (nmem N) (entry_at cpl_fmt (c_log ?c0) (c_buf ?c0) j ! 1) (pkt_mem (packets s) (slot ?r j))"
  have data: "slots_ok (\<lambda>j k d. j < dv c \<longrightarrow> (\<exists>e. unpack_from cpl_fmt (c_buf ?c0) (ring_idx (c_log ?c0) j * 16) = Inr e \<and>
      region_head (nmem N) (e ! 1) (pkt_mem (packets s) k) = ?pl j)) ?r"
    unfolding slots_ok_def
  proof (intro allI impI)
    fix j
    obtain e where e: "unpack_from cpl_fmt (c_buf ?c0) (ring_idx (c_log ?c0) j * 16) = Inr e"
      using entry_there [of "c_buf ?c0" "c_log ?c0" cpl_fmt j] ch(2) by (auto simp: synced_def)
    then have "entry_at cpl_fmt (c_log ?c0) (c_buf ?c0) j = e" by (auto simp: unpack_from_def entry_at_def split: if_splits)
    then show "\<exists>e. unpack_from cpl_fmt (c_buf ?c0) (ring_idx (c_log ?c0) j * 16) = Inr e \<and>
      region_head (nmem N) (e ! 1) (pkt_mem (packets s) (slot ?r j)) = ?pl j" using e by blast
  qed
  from process_rx_ok [OF ch po(1) data, of "np_rx_queue (ports s ! ?pt)"] obtain r1 p1 where
    r: "process_rx_ring (nmem N) (?c0, ?r, packets s, np_rx_queue (ports s ! ?pt)) = Inr (?c0\<lparr>c_cons := dv c\<rparr>, r1, p1, np_rx_queue (ports s ! ?pt) @ map ?pl [q_cons ?r..<dv c])"
      "drained ?r (dv c) r1" "pool_ok cap p1 (posted r1 @ ?o)" by blast
  let ?x = "np_rx_queue (ports s ! ?pt) @ map ?pl [q_cons ?r..<dv c]"
  define s1 where "s1 = set_cq c ((cqs s ! c)\<lparr>cq_ring := ?c0\<lparr>c_cons := dv c\<rparr>\<rparr>) (set_rq i ((rqs s ! i)\<lparr>wq_ring := r1\<rparr>) (set_rx_queue ?pt ?x (s\<lparr>packets := p1\<rparr>)))"
  have i: "i < length (rqs s)" "wq_db (rqs s ! i) \<noteq> None" using so(1) by simp_all
  have rr: "wq_ring (rqs s1 ! i) = r1" "packets s1 = p1" using i(1) by (simp_all add: s1_def set_cq_def set_rq_def set_rx_queue_def)
  have ok1: "ring_ok r1" "q_log r1 = q_log ?r" using r(2) by (simp_all add: drained_def)
  have "2 ^ q_log r1 + length ?o \<le> cap" using po(2) ok1(2) by simp
  from dma_memory.refill_ok [OF mem ok1(1) r(3) this] obtain b r2 p2 where
    f: "refill_rx (nmem N) (r1, p1) = Inr (b, r2, p2)" "dma_memory.refilled (nmem N) cap r1 r2" "pool_ok cap p2 (posted r2 @ ?o)" by metis
  have f2: "ring_ok r2" "q_cons r2 = q_cons r1" "q_log r2 = q_log r1" "q_prod r1 \<le> q_prod r2"
    using f(2) by (simp_all add: dma_memory.refilled_def [OF mem])
  define s2 where "s2 = set_rq i ((rqs s1 ! i)\<lparr>wq_ring := r2\<rparr>) (s1\<lparr>packets := p2\<rparr>)"
  have db: "wq_db (rqs s2 ! i) \<noteq> None" using i by (simp add: s1_def s2_def set_cq_def set_rq_def set_rx_queue_def)
  have "\<exists>d. (if b then rq_kick N i s2 else Inr s2) = Inr (s2\<lparr>hw := d\<rparr>)"
  proof (cases b)
    case True
    show ?thesis unfolding rq_kick_def if_P [OF True] by (rule write_db_ok [OF db])
  next
    case False
    show ?thesis unfolding if_not_P [OF False] by (rule exI [of _ "hw s2"]) simp
  qed
  then obtain d where d: "(if b then rq_kick N i s2 else Inr s2) = Inr (s2\<lparr>hw := d\<rparr>)" by blast
  have rf: "rq_refill N i s1 = Inr (s2\<lparr>hw := d\<rparr>)"
    unfolding rq_refill_def rr f(1) rbind_simps prod.case Let_def s2_def [symmetric] by (rule d)
  have pr: "process_rx_cq N c i s = rbind (rq_refill N i s1) (cq_arm N c)" using r(1) by (simp add: process_rx_cq_def Let_def s1_def)
  have cdb: "cq_db (cqs s2 ! c) \<noteq> None" using so(2) c(1) by (simp add: s1_def s2_def set_cq_def set_rq_def set_rx_queue_def)
  from cq_arm_ok(2) [OF cdb] obtain d2 where d2: "cq_arm N c (s2\<lparr>hw := d\<rparr>) = Inr (s2\<lparr>hw := d2\<rparr>)" by blast
  let ?t = "set_cq c ((cqs s ! c)\<lparr>cq_ring := ?c0\<lparr>c_cons := dv c\<rparr>\<rparr>) (put_ring (Rx, i) r2 (s\<lparr>packets := p2\<rparr>))"
  have "chan r2 (?c0\<lparr>c_cons := dv c\<rparr>) (dv c)" using chan_drain [OF so(3) r(2)] f2 by (auto simp: chan_def)
  then have "drv_ok cap dv ?t" by (rule drv_ok_update [OF ok c _ _ f(3)]) (use f2(3) ok1(2) in simp)
  moreover have "drv_ok cap dv s2 = drv_ok cap dv ?t"
    by (rule drv_ok_cong) (use i(1) in \<open>simp_all add: s1_def s2_def set_cq_def set_rq_def set_rx_queue_def\<close>)
  moreover have "kept dv s s2" using c(1) by (auto simp: rx_queue_np_eq kept_def s1_def s2_def set_cq_def set_rq_def set_rx_queue_def nth_list_update)
  moreover have "c_cons (cq_ring (cqs s2 ! c)) = dv c" "eqs s2 = eqs s" using c(1) by (simp_all add: s1_def s2_def set_cq_def set_rq_def set_rx_queue_def)
  ultimately show ?thesis using pr rf d2 by (simp add: kept_hw drv_ok_hw)
qed

lemma handler_flow:
  assumes "drv_ok cap dv s" "dma_memory (nmem N) cap" "c < length (cqs s)" "cq_src (cqs s ! c) \<noteq> None"
  shows "\<exists>s'. cq_handler N c s = Inr s' \<and> drv_ok cap dv s' \<and> kept dv s s' \<and> c_cons (cq_ring (cqs s' ! c)) = dv c \<and> eqs s' = eqs s"
proof -
  obtain k i where w: "cq_src (cqs s ! c) = Some (k, i)" using assms(4) by auto
  show ?thesis
  proof (cases k)
    case Tx
    then show ?thesis using process_tx_flow [OF assms(1,3)] w by (simp add: cq_handler_def)
  next
    case Rx
    then show ?thesis using process_rx_flow [OF assms(1-3)] w by (simp add: cq_handler_def)
  qed
qed

text \<open>Events: of a completion queue in the table of the event queue, or of another kind.\<close>

definition event_known :: "(int \<rightharpoonup> nat) \<Rightarrow> int list \<Rightarrow> bool" where
  "event_known tab ev \<longleftrightarrow> ev ! 1 \<noteq> 0 \<or> tab (ev ! 2) \<noteq> None"

lemma events_flow:
  assumes "dma_memory (nmem N) cap" "e < length (eqs s)"
  shows "drv_ok cap dv s \<Longrightarrow> \<forall>ev \<in> set evs. event_known (cq_table (eqs s ! e)) ev \<Longrightarrow>
    \<exists>s'. rfold (eq_event N e) evs s = Inr s' \<and> drv_ok cap dv s' \<and> kept dv s s' \<and> eqs s' = eqs s \<and>
      (\<forall>ev \<in> set evs. ev ! 1 = 0 \<longrightarrow> c_cons (cq_ring (cqs s' ! the (cq_table (eqs s ! e) (ev ! 2)))) = dv (the (cq_table (eqs s ! e) (ev ! 2))))"
  using assms(2)
proof (induction evs arbitrary: s)
  case Nil
  then show ?case by (simp add: kept_refl)
next
  case (Cons ev evs)
  show ?case
  proof (cases "ev ! 1 = 0")
    case False
    then have "eq_event N e ev s = Inr s" by (simp add: eq_event_def)
    then show ?thesis using Cons False by simp
  next
    case True
    then obtain c where c: "cq_table (eqs s ! e) (ev ! 2) = Some c" using Cons.prems(2) by (auto simp: event_known_def)
    have cc: "c < length (cqs s)" "cq_src (cqs s ! c) \<noteq> None" using Cons.prems(1,3) c unfolding drv_ok_def by blast+
    from handler_flow [OF Cons.prems(1) assms(1) cc] obtain s1 where
      s1: "cq_handler N c s = Inr s1" "drv_ok cap dv s1" "kept dv s s1" "c_cons (cq_ring (cqs s1 ! c)) = dv c" "eqs s1 = eqs s" by blast
    have ev: "eq_event N e ev s = Inr s1" using True c s1(1) by (simp add: eq_event_def)
    have "\<forall>ev \<in> set evs. event_known (cq_table (eqs s1 ! e)) ev" "e < length (eqs s1)" using Cons.prems(2,3) s1(5) by simp_all
    from Cons.IH [OF s1(2) this] obtain s2 where
      s2: "rfold (eq_event N e) evs s1 = Inr s2" "drv_ok cap dv s2" "kept dv s1 s2" "eqs s2 = eqs s1"
        "\<forall>ev \<in> set evs. ev ! 1 = 0 \<longrightarrow> c_cons (cq_ring (cqs s2 ! the (cq_table (eqs s1 ! e) (ev ! 2)))) = dv (the (cq_table (eqs s1 ! e) (ev ! 2)))" by blast
    have "c < length (cqs s1)" using cc(1) s1(3) by (simp add: kept_def)
    then have "c_cons (cq_ring (cqs s2 ! c)) = dv c" using s2(3) s1(4) by (simp add: kept_def)
    then show ?thesis using ev s2 s1(5) c kept_trans [OF s1(3) s2(3)] by simp
  qed
qed

section \<open>Event queues\<close>

text \<open>An event queue that the device has written up to \<open>ev\<close>, with events of known completion queues.\<close>

definition eq_ready :: "nat \<Rightarrow> eq \<Rightarrow> bool" where
  "eq_ready ev q \<longleftrightarrow> synced ev_fmt (eq_log q) (eq_buf q) ev \<and> eq_cons q \<le> ev \<and> ev \<le> eq_cons q + 2 ^ eq_log q \<and> eq_db q \<noteq> None \<and>
     (\<forall>j \<in> {eq_cons q..<ev}. event_known (cq_table q) (entry_at ev_fmt (eq_log q) (eq_buf q) j))"

lemma process_eq_fold:
  assumes "eq_ready ev (eqs s ! e)"
  shows "process_eq N e s =
    rbind (rfold (eq_event N e) (map (entry_at ev_fmt (eq_log (eqs s ! e)) (eq_buf (eqs s ! e))) [eq_cons (eqs s ! e)..<ev]) s)
      (\<lambda>s1. eq_arm N e (set_eq e ((eqs s1 ! e)\<lparr>eq_cons := ev\<rparr>) s1))"
proof -
  have "synced ev_fmt (eq_log (eqs s ! e)) (eq_buf (eqs s ! e)) ev" "eq_cons (eqs s ! e) \<le> ev" "ev \<le> eq_cons (eqs s ! e) + 2 ^ eq_log (eqs s ! e)"
    using assms by (simp_all add: eq_ready_def)
  then show ?thesis unfolding process_eq_def Let_def by (simp add: cq_loop_fold rbind_assoc)
qed

text \<open>The queue after it was handled.\<close>

definition handled :: "(nat \<Rightarrow> nat) \<Rightarrow> nat \<Rightarrow> eq \<Rightarrow> 'd cndm \<Rightarrow> bool" where
  "handled dv ev q s \<longleftrightarrow> (\<forall>j \<in> {eq_cons q..<ev}. entry_at ev_fmt (eq_log q) (eq_buf q) j ! 1 = 0 \<longrightarrow>
     c_cons (cq_ring (cqs s ! the (cq_table q (entry_at ev_fmt (eq_log q) (eq_buf q) j ! 2)))) =
       dv (the (cq_table q (entry_at ev_fmt (eq_log q) (eq_buf q) j ! 2))))"

lemma drv_ok_eq:
  assumes "drv_ok cap dv s" "cq_table q = cq_table (eqs s ! e)"
  shows "drv_ok cap dv (set_eq e q s)"
proof -
  have w: "wring (set_eq e q s) w = wring s w" "wthere (set_eq e q s) w = wthere s w" for w
    by (cases "(s, w)" rule: wring.cases; simp add: set_eq_def)+
  have r: "rings (set_eq e q s) = rings s" "packets (set_eq e q s) = packets s" "cqs (set_eq e q s) = cqs s" by (simp_all add: rings_def set_eq_def)
  have t: "cq_table (eqs (set_eq e q s) ! x) = cq_table (eqs s ! x)" if "x < length (eqs s)" for x
    using that assms(2) by (cases "x = e") (simp_all add: set_eq_def)
  have l: "length (eqs (set_eq e q s)) = length (eqs s)" by (simp add: set_eq_def)
  show ?thesis using assms(1) t unfolding drv_ok_def w r l by auto
qed

lemma process_eq_flow:
  assumes "drv_ok cap dv s" "dma_memory (nmem N) cap" "e < length (eqs s)" "eq_ready ev (eqs s ! e)"
  shows "\<exists>s'. process_eq N e s = Inr s' \<and> drv_ok cap dv s' \<and> kept dv s s' \<and> eq_cons (eqs s' ! e) = ev \<and> handled dv ev (eqs s ! e) s' \<and>
    (\<forall>x. x \<noteq> e \<longrightarrow> eqs s' ! x = eqs s ! x)"
proof -
  let ?q = "eqs s ! e"
  have "\<forall>ev \<in> set (map (entry_at ev_fmt (eq_log ?q) (eq_buf ?q)) [eq_cons ?q..<ev]). event_known (cq_table ?q) ev"
    using assms(4) by (auto simp: eq_ready_def)
  from events_flow [OF assms(2,3,1) this] obtain s1 where
    s1: "rfold (eq_event N e) (map (entry_at ev_fmt (eq_log ?q) (eq_buf ?q)) [eq_cons ?q..<ev]) s = Inr s1" "drv_ok cap dv s1" "kept dv s s1" "eqs s1 = eqs s"
      "handled dv ev ?q s1" unfolding handled_def by auto
  let ?s = "set_eq e (?q\<lparr>eq_cons := ev\<rparr>) s1"
  have "eq_db ?q \<noteq> None" using assms(4) by (simp add: eq_ready_def)
  then have "\<exists>d. eq_arm N e ?s = Inr (?s\<lparr>hw := d\<rparr>)" using assms(3) s1(4) by (auto simp: eq_arm_def write_db_def set_eq_def)
  then obtain d where d: "eq_arm N e ?s = Inr (?s\<lparr>hw := d\<rparr>)" by blast
  have "process_eq N e s = Inr (?s\<lparr>hw := d\<rparr>)" unfolding process_eq_fold [OF assms(4)] s1(1) rbind_simps s1(4) by (rule d)
  moreover have "drv_ok cap dv ?s" by (rule drv_ok_eq [OF s1(2)]) (simp add: s1(4))
  moreover have "kept dv s ?s" using assms(3) s1(3) s1(4) by (auto simp: kept_def set_eq_def nth_list_update)
  moreover have "eq_cons (eqs ?s ! e) = ev" "\<forall>x. x \<noteq> e \<longrightarrow> eqs ?s ! x = eqs s ! x" using assms(3) s1(4) by (simp_all add: set_eq_def)
  moreover have "handled dv ev ?q ?s" using s1(5) by (simp add: handled_def set_eq_def)
  ultimately show ?thesis by (intro exI [of _ "?s\<lparr>hw := d\<rparr>"]) (simp add: kept_hw drv_ok_hw handled_def)
qed

section \<open>Interrupts\<close>

lemma handled_kept: "handled dv ev q s \<Longrightarrow> kept dv s s' \<Longrightarrow> handled dv ev q s'"
  unfolding handled_def kept_def by blast

definition irq_eq :: "'d nenv \<Rightarrow> int \<Rightarrow> nat \<Rightarrow> 'd cndm \<Rightarrow> 'd cndm result" where
  "irq_eq N irqn e s = (if eq_irqn (eqs s ! e) = Some irqn then process_eq N e s else Inr s)"

definition eqs_ready :: "(nat \<Rightarrow> nat) \<Rightarrow> int \<Rightarrow> nat list \<Rightarrow> 'd cndm \<Rightarrow> bool" where
  "eqs_ready ev irqn es s \<longleftrightarrow> distinct es \<and> (\<forall>e \<in> set es. e < length (eqs s) \<and> (eq_irqn (eqs s ! e) = Some irqn \<longrightarrow> eq_ready (ev e) (eqs s ! e)))"

definition eqs_handled :: "(nat \<Rightarrow> nat) \<Rightarrow> (nat \<Rightarrow> nat) \<Rightarrow> int \<Rightarrow> nat list \<Rightarrow> 'd cndm \<Rightarrow> 'd cndm \<Rightarrow> bool" where
  "eqs_handled dv ev irqn es s s' \<longleftrightarrow> (\<forall>e \<in> set es. eq_irqn (eqs s ! e) = Some irqn \<longrightarrow> eq_cons (eqs s' ! e) = ev e \<and> handled dv (ev e) (eqs s ! e) s') \<and>
     (\<forall>x. x \<notin> set es \<longrightarrow> eqs s' ! x = eqs s ! x)"

lemma irq_eq_flow:
  assumes "dma_memory (nmem N) cap"
  shows "drv_ok cap dv s \<Longrightarrow> eqs_ready ev irqn es s \<Longrightarrow>
    \<exists>s'. rfold (irq_eq N irqn) es s = Inr s' \<and> drv_ok cap dv s' \<and> kept dv s s' \<and> eqs_handled dv ev irqn es s s'"
proof (induction es arbitrary: s)
  case Nil
  then show ?case by (simp add: kept_refl eqs_handled_def)
next
  case (Cons e es)
  have e: "e < length (eqs s)" "e \<notin> set es" "eq_irqn (eqs s ! e) = Some irqn \<Longrightarrow> eq_ready (ev e) (eqs s ! e)"
    using Cons.prems(2) by (auto simp: eqs_ready_def)
  obtain s1 where s1: "irq_eq N irqn e s = Inr s1" "drv_ok cap dv s1" "kept dv s s1" "\<forall>x. x \<noteq> e \<longrightarrow> eqs s1 ! x = eqs s ! x"
    "eq_irqn (eqs s ! e) = Some irqn \<Longrightarrow> eq_cons (eqs s1 ! e) = ev e \<and> handled dv (ev e) (eqs s ! e) s1"
  proof (cases "eq_irqn (eqs s ! e) = Some irqn")
    case True
    from process_eq_flow [OF Cons.prems(1) assms e(1) e(3) [OF True]] True that show thesis unfolding irq_eq_def by auto
  next
    case False
    then show thesis using that [of s] Cons.prems(1) by (simp add: irq_eq_def kept_refl)
  qed
  have "eqs_ready ev irqn es s1" using Cons.prems(2) s1(3,4) by (auto simp: eqs_ready_def kept_def)
  from Cons.IH [OF s1(2) this] obtain s2 where
    s2: "rfold (irq_eq N irqn) es s1 = Inr s2" "drv_ok cap dv s2" "kept dv s1 s2" "eqs_handled dv ev irqn es s1 s2" by blast
  have "eqs_handled dv ev irqn (e # es) s s2" unfolding eqs_handled_def
  proof (intro conjI ballI impI allI)
    fix x assume x: "x \<in> set (e # es)" "eq_irqn (eqs s ! x) = Some irqn"
    show "eq_cons (eqs s2 ! x) = ev x" "handled dv (ev x) (eqs s ! x) s2"
    proof (atomize (full), cases "x = e")
      case True
      then show "eq_cons (eqs s2 ! x) = ev x \<and> handled dv (ev x) (eqs s ! x) s2"
        using s1(5) x(2) s2(3,4) e(2) handled_kept by (auto simp: eqs_handled_def)
    next
      case False
      then have u: "x \<in> set es" "eqs s1 ! x = eqs s ! x" using x(1) s1(4) by simp_all
      have "eq_irqn (eqs s1 ! x) = Some irqn \<longrightarrow> eq_cons (eqs s2 ! x) = ev x \<and> handled dv (ev x) (eqs s1 ! x) s2"
        using s2(4) u(1) unfolding eqs_handled_def by blast
      then show "eq_cons (eqs s2 ! x) = ev x \<and> handled dv (ev x) (eqs s ! x) s2" unfolding u(2) using x(2) by blast
    qed
  next
    fix x assume "x \<notin> set (e # es)"
    then show "eqs s2 ! x = eqs s ! x" using s1(4) s2(4) by (simp add: eqs_handled_def)
  qed
  then show ?case using s1(1) s2 kept_trans [OF s1(3) s2(3)] by simp
qed

lemma irq_ports_flow:
  assumes mem: "dma_memory (nmem N) cap" and ports: "length (ports s0) = n" "\<forall>p < n. np_eq (ports s0 ! p) \<noteq> []"
  shows "drv_ok cap dv s \<Longrightarrow> kept dv s0 s \<Longrightarrow> \<forall>p \<in> set ps. p < n \<Longrightarrow> eqs_ready ev irqn (concat (map (\<lambda>p. np_eq (ports s0 ! p)) ps)) s \<Longrightarrow>
    \<exists>s'. rfold (port_irq N irqn) ps s = Inr s' \<and> drv_ok cap dv s' \<and> eqs_handled dv ev irqn (concat (map (\<lambda>p. np_eq (ports s0 ! p)) ps)) s s'"
proof -
  have one: "port_irq N irqn p s = rfold (irq_eq N irqn) (np_eq (ports s0 ! p)) s" if "kept dv s0 s" "p < n" for p s
  proof -
    have "np_eq (ports s ! p) = np_eq (ports s0 ! p)" using that ports(1) by (simp add: kept_def)
    then show ?thesis using ports(2) that(2) by (simp add: port_irq_def Let_def irq_eq_def [abs_def])
  qed
  have flat: "rfold (port_irq N irqn) ps s = rfold (irq_eq N irqn) (concat (map (\<lambda>p. np_eq (ports s0 ! p)) ps)) s"
    if "drv_ok cap dv s" "kept dv s0 s" "\<forall>p \<in> set ps. p < n" "eqs_ready ev irqn (concat (map (\<lambda>p. np_eq (ports s0 ! p)) ps)) s" for s ps
    using that
  proof (induction ps arbitrary: s)
    case (Cons p ps)
    let ?a = "np_eq (ports s0 ! p)" and ?b = "concat (map (\<lambda>p. np_eq (ports s0 ! p)) ps)"
    have r: "eqs_ready ev irqn ?a s" using Cons.prems(4) by (simp add: eqs_ready_def)
    obtain s1 where s1: "rfold (irq_eq N irqn) ?a s = Inr s1" "drv_ok cap dv s1" "kept dv s s1" "eqs_handled dv ev irqn ?a s s1"
      using irq_eq_flow [OF mem Cons.prems(1) r] by blast
    have "eqs_ready ev irqn ?b s1" unfolding eqs_ready_def
    proof (intro conjI ballI impI)
      show "distinct ?b" using Cons.prems(4) by (simp add: eqs_ready_def)
      fix e assume e: "e \<in> set ?b"
      then have n: "e \<notin> set ?a" and b: "e < length (eqs s)" "eq_irqn (eqs s ! e) = Some irqn \<Longrightarrow> eq_ready (ev e) (eqs s ! e)"
        using Cons.prems(4) by (auto simp: eqs_ready_def)
      from n have u: "eqs s1 ! e = eqs s ! e" using s1(4) by (simp add: eqs_handled_def)
      show "e < length (eqs s1)" using b(1) s1(3) by (simp add: kept_def)
      assume "eq_irqn (eqs s1 ! e) = Some irqn"
      then show "eq_ready (ev e) (eqs s1 ! e)" unfolding u by (rule b(2))
    qed
    from Cons.IH [OF s1(2) kept_trans [OF Cons.prems(2) s1(3)] _ this] Cons.prems(3)
    have "rfold (port_irq N irqn) ps s1 = rfold (irq_eq N irqn) ?b s1" by simp
    then show ?case using one [OF Cons.prems(2)] Cons.prems(3) s1(1) by (simp add: rfold_append)
  qed simp
  show "drv_ok cap dv s \<Longrightarrow> kept dv s0 s \<Longrightarrow> \<forall>p \<in> set ps. p < n \<Longrightarrow> eqs_ready ev irqn (concat (map (\<lambda>p. np_eq (ports s0 ! p)) ps)) s \<Longrightarrow>
    \<exists>s'. rfold (port_irq N irqn) ps s = Inr s' \<and> drv_ok cap dv s' \<and> eqs_handled dv ev irqn (concat (map (\<lambda>p. np_eq (ports s0 ! p)) ps)) s s'"
    using flat irq_eq_flow [OF mem] by fastforce
qed

end
