(* ===== verification/CndmStep.thy ===== *)
theory CndmStep imports CndmQueue begin

text \<open>
  Commands on a device that keeps the mailbox protocol, and the queues of the driver against the
  queues that the device has open.
\<close>

section \<open>Commands over the mailbox\<close>

lemma wbytes_chunks: "is_bytes b \<Longrightarrow> length b = 4 * n \<Longrightarrow> tobytes (map (\<lambda>k. le_int (take 4 (drop (4 * k) b))) [0..<n]) = b"
  using le_chunks [of b 4 n] by (simp add: tobytes_def comp_def)

lemma wbytes_dwords: "is_bytes b \<Longrightarrow> length b = 64 \<Longrightarrow> tobytes (dwords (ljust64 b)) = b"
  unfolding dwords_def by (subst wbytes_chunks) (simp_all add: ljust64_def)

lemma length_wbytes: "length (tobytes ws) = 4 * length ws"
  by (induction ws) (simp_all add: tobytes_def le_bytes_facts)

definition cmd_words :: "fld list \<Rightarrow> int list \<Rightarrow> int list" where
  "cmd_words fmt vs = (case struct_pack fmt vs of Inl _ \<Rightarrow> [] | Inr b \<Rightarrow> dwords (ljust64 b))"

lemma cmd_words_fields:
  assumes "fits_fmt fmt vs" "fmt_size fmt = 64"
  shows "unpack_flds fmt (tobytes (cmd_words fmt vs)) = vs"
proof -
  obtain b where b: "struct_pack fmt vs = Inr b" using struct_pack_total [OF assms(1)] by blast
  from struct_pack_unpack [OF b] have "length b = 64" "is_bytes b" "struct_unpack fmt b = Inr vs" using assms(2) by simp_all
  then show ?thesis using b by (simp add: cmd_words_def wbytes_dwords struct_unpack_def assms(2))
qed

context mailbox begin

lemma command_result:
  assumes d: "okay d" "busy d = 0" and f: "fmt_size fmt = 64"
  shows "\<not> fits_fmt fmt vs \<Longrightarrow> command E fmt vs d = Some (Inl StructError)"
    "fits_fmt fmt vs \<Longrightarrow> \<exists>d'. command E fmt vs d = Some (Inr (unpack_flds fmt (tobytes (fst (step (cmd_words fmt vs) (core d)))), d')) \<and>
      okay d' \<and> busy d' = 0 \<and> core d' = snd (step (cmd_words fmt vs) (core d))"
proof -
  show "command E fmt vs d = Some (Inl StructError)" if "\<not> fits_fmt fmt vs" using that by (simp add: command_def struct_pack_iff)
  assume v: "fits_fmt fmt vs"
  obtain b where b: "struct_pack fmt vs = Inr b" using struct_pack_total [OF v] by blast
  then have w: "length b \<le> 64" "cmd_words fmt vs = dwords (ljust64 b)" using struct_pack_unpack [OF b] f by (simp_all add: cmd_words_def)
  let ?r = "fst (step (cmd_words fmt vs) (core d))"
  obtain d' where d': "exec_mbox_cmd E b d = Some (Inr (tobytes ?r, d'))" "length ?r = 16"
    "okay d'" "busy d' = 0" "core d' = snd (step (cmd_words fmt vs) (core d))"
    using exec_returns [OF d w(1)] w(2) by auto
  have "struct_unpack fmt (tobytes ?r) = Inr (unpack_flds fmt (tobytes ?r))" using f d'(2) by (simp add: struct_unpack_def length_wbytes)
  then have "command E fmt vs d = Some (Inr (unpack_flds fmt (tobytes ?r), d'))" using b d'(1) by (simp add: command_def exec_cmd_def)
  then show "\<exists>d'. command E fmt vs d = Some (Inr (unpack_flds fmt (tobytes ?r), d')) \<and>
      okay d' \<and> busy d' = 0 \<and> core d' = snd (step (cmd_words fmt vs) (core d))" using d'(3-5) by blast
qed

end

text \<open>When the loop on the control register ends.\<close>

definition ctrl_after :: "'d mmio \<Rightarrow> nat \<Rightarrow> 'd \<Rightarrow> 'd" where "ctrl_after E n d = ((\<lambda>d. snd (mm_read E 0x0200 d)) ^^ n) d"

lemma ctrl_after_Suc: "ctrl_after E (Suc n) d = ctrl_after E n (snd (mm_read E 0x0200 d))" "ctrl_after E 0 d = d"
  by (simp_all add: ctrl_after_def funpow_Suc_right del: funpow.simps(2))

lemma poll_some:
  assumes "poll E d = Some d'"
  shows "\<exists>n. fst (mm_read E 0x0200 (ctrl_after E n d)) AND 1 = 0"
proof (rule poll.raw_induct [of "\<lambda>E d d'. \<exists>n. fst (mm_read E 0x0200 (ctrl_after E n d)) AND 1 = 0", OF _ assms])
  fix p and E :: "'b mmio" and d d'
  assume IH: "\<And>E d d'. p E d = Some d' \<Longrightarrow> \<exists>n. fst (mm_read E 0x0200 (ctrl_after E n d)) AND 1 = 0"
    and h: "(if fst (mm_read E 0x0200 d) AND 1 \<noteq> 0 then p E (snd (mm_read E 0x0200 d)) else Some (snd (mm_read E 0x0200 d))) = Some d'"
  show "\<exists>n. fst (mm_read E 0x0200 (ctrl_after E n d)) AND 1 = 0"
  proof (cases "fst (mm_read E 0x0200 d) AND 1 = 0")
    case True
    then show ?thesis by (intro exI [of _ 0]) (simp add: ctrl_after_Suc)
  next
    case False
    then have "p E (snd (mm_read E 0x0200 d)) = Some d'" using h by simp
    from IH [OF this] obtain n where "fst (mm_read E 0x0200 (ctrl_after E n (snd (mm_read E 0x0200 d)))) AND 1 = 0" by blast
    then show ?thesis by (intro exI [of _ "Suc n"]) (simp add: ctrl_after_Suc)
  qed
qed

lemma poll_stops: "fst (mm_read E 0x0200 (ctrl_after E n d)) AND 1 = 0 \<Longrightarrow> poll E d \<noteq> None"
proof (induction n arbitrary: d)
  case 0
  then show ?case by (subst poll.simps) (simp add: ctrl_after_Suc)
next
  case (Suc n)
  then have "poll E (snd (mm_read E 0x0200 d)) \<noteq> None" by (simp add: ctrl_after_Suc)
  then show ?case by (subst poll.simps) simp
qed

section \<open>Queues of the device\<close>

datatype qkind = QE | QC | QS | QR

fun create_op :: "qkind \<Rightarrow> int" where
  "create_op QE = 0x0200" | "create_op QC = 0x0210" | "create_op QS = 0x0220" | "create_op QR = 0x0230"

text \<open>What the driver relies on.  The device numbers its queues per kind and port: a create command for a port of the
  device gives a number that is not open on that port and a doorbell of no open queue, or a doorbell offset of zero;
  a destroy command closes the open queue that it names; doorbells of open queues do not disturb either.\<close>

type_synonym queue_id = "qkind \<times> nat \<times> int"

locale queue_device = mailbox E okay inp outp busy core step
  for E :: "'d mmio" and okay inp outp busy and core :: "'d \<Rightarrow> 's" and step +
  fixes open_qs :: "'s \<Rightarrow> queue_id set" and bell :: "queue_id \<Rightarrow> int" and dports :: "nat set"
  assumes create: "port \<in> dports \<Longrightarrow> fits_fmt cmd_fmt (queue_cmd (create_op k) port 0 parent lg base) \<Longrightarrow>
      step (cmd_words cmd_fmt (queue_cmd (create_op k) port 0 parent lg base)) c = (rs, c') \<Longrightarrow>
      unpack_flds cmd_fmt (tobytes rs) = vs \<Longrightarrow>
      vs ! 8 = 0 \<and> open_qs c' = open_qs c \<or>
      vs ! 8 \<noteq> 0 \<and> vs ! 8 = bell (k, port, vs ! 4) \<and> vs ! 8 \<notin> bell ` open_qs c \<and>
      open_qs c' = insert (k, port, vs ! 4) (open_qs c)"
    and destroy: "port \<in> dports \<Longrightarrow> (k, port, n) \<in> open_qs c \<Longrightarrow> fits_fmt cmd_fmt (queue_cmd (create_op k + 3) port n 0 0 0) \<Longrightarrow>
      step (cmd_words cmd_fmt (queue_cmd (create_op k + 3) port n 0 0 0)) c = (rs, c') \<Longrightarrow> open_qs c' = open_qs c - {(k, port, n)}"
    and knock: "q \<in> open_qs (core d) \<Longrightarrow> okay d \<Longrightarrow> busy d = 0 \<Longrightarrow> okay (mm_write E (nat (bell q)) v d) \<and>
      busy (mm_write E (nat (bell q)) v d) = 0 \<and> open_qs (core (mm_write E (nat (bell q)) v d)) = open_qs (core d)"

text \<open>The port, number and doorbell of each object of the driver, and the queues that it holds.\<close>

fun qview :: "qkind \<Rightarrow> 'd cndm \<Rightarrow> (nat \<times> int option \<times> int option) list" where
  "qview QE s = map (\<lambda>q. (eq_port q, eqn q, eq_db q)) (eqs s)"
| "qview QC s = map (\<lambda>q. (cq_port q, cqn q, cq_db q)) (cqs s)"
| "qview QS s = map (\<lambda>q. (wq_port q, wqn q, wq_db q)) (sqs s)"
| "qview QR s = map (\<lambda>q. (wq_port q, wqn q, wq_db q)) (rqs s)"

definition held_qs :: "'d cndm \<Rightarrow> queue_id set" where
  "held_qs s = {(k, p, n). \<exists>db. (p, Some n, db) \<in> set (qview k s)}"

text \<open>No two objects hold the same queue, and none the doorbell of another.\<close>

definition one_each :: "'d cndm \<Rightarrow> bool" where
  "one_each s \<longleftrightarrow> (\<forall>k i j p n x y. i < length (qview k s) \<and> j < length (qview k s) \<and>
     qview k s ! i = (p, Some n, x) \<and> qview k s ! j = (p, Some n, y) \<longrightarrow> i = j)"

definition bells_apart :: "'d cndm \<Rightarrow> bool" where
  "bells_apart s \<longleftrightarrow> (\<forall>k k' i j p p' n n' db. i < length (qview k s) \<and> j < length (qview k' s) \<and>
     qview k s ! i = (p, Some n, db) \<and> qview k' s ! j = (p', Some n', db) \<longrightarrow> k = k' \<and> i = j)"

definition bells_held :: "(queue_id \<Rightarrow> int) \<Rightarrow> 'd cndm \<Rightarrow> bool" where
  "bells_held bell s \<longleftrightarrow> (\<forall>k p n db. (p, Some n, db) \<in> set (qview k s) \<longrightarrow> db = Some (bell (k, p, n)) \<and> bell (k, p, n) \<noteq> 0)"

definition on_ports :: "nat set \<Rightarrow> 'd cndm \<Rightarrow> bool" where
  "on_ports P s \<longleftrightarrow> (\<forall>k. \<forall>x \<in> set (qview k s). fst x \<in> P)"

definition view_put :: "qkind \<Rightarrow> nat \<Rightarrow> nat \<times> int option \<times> int option \<Rightarrow> 'd cndm \<Rightarrow> 'd cndm \<Rightarrow> bool" where
  "view_put k i r s s' \<longleftrightarrow> (\<forall>k'. qview k' s' = (if k' = k then (qview k s)[i := r] else qview k' s))"

lemma held_nth: "i < length (qview k s) \<Longrightarrow> qview k s ! i = (p, Some n, x) \<Longrightarrow> (k, p, n) \<in> held_qs s"
  using nth_mem [of i "qview k s"] by (auto simp: held_qs_def)

lemma apart_of_bells:
  assumes "one_each s" "bells_held bell s" "inj_on bell (held_qs s)"
  shows "bells_apart s"
  unfolding bells_apart_def
proof (intro allI impI, elim conjE)
  fix k k' i j p p' n n' db
  assume h: "i < length (qview k s)" "j < length (qview k' s)" "qview k s ! i = (p, Some n, db)" "qview k' s ! j = (p', Some n', db)"
  have m: "(p, Some n, db) \<in> set (qview k s)" "(p', Some n', db) \<in> set (qview k' s)" using h nth_mem by metis+
  have "bell (k, p, n) = bell (k', p', n')" using m assms(2) unfolding bells_held_def by (metis option.inject)
  then have e: "(k, p, n) = (k', p', n')"
    by (rule inj_onD [OF assms(3) _ held_nth [OF h(1,3)] held_nth [OF h(2,4)]])
  then have "k = k'" "p = p'" "n = n'" by simp_all
  then show "k = k' \<and> i = j" using assms(1) h unfolding one_each_def by blast
qed

text \<open>An object without a queue takes one; an object gives its queue up, or stays without.\<close>

lemma put_mem:
  assumes v: "view_put k i r s s'" and i: "i < length (qview k s)"
  shows "x \<in> set (qview k' s') \<longleftrightarrow> (if k' = k then x = r \<or> (\<exists>j < length (qview k s). j \<noteq> i \<and> qview k s ! j = x) else x \<in> set (qview k' s))"
proof (cases "k' = k")
  case True
  then have "qview k' s' = (qview k s)[i := r]" using v by (simp add: view_put_def)
  then show ?thesis using True i by (auto simp: in_set_conv_nth nth_list_update split: if_splits)
qed (use v in \<open>simp add: view_put_def\<close>)

lemma put_ports: "view_put k i r s s' \<Longrightarrow> i < length (qview k s) \<Longrightarrow> on_ports P s \<Longrightarrow> fst r = fst (qview k s ! i) \<Longrightarrow> on_ports P s'"
  unfolding on_ports_def by (metis nth_mem put_mem)

lemma view_put_open:
  assumes v: "view_put k i (p, Some n, Some db) s s'" and i: "i < length (qview k s)" "qview k s ! i = (p, None, x)"
    and new: "(k, p, n) \<notin> held_qs s" and db: "db = bell (k, p, n)" "db \<noteq> 0" and ok: "one_each s" "bells_held bell s"
  shows "held_qs s' = insert (k, p, n) (held_qs s)" "one_each s'" "bells_held bell s'"
proof -
  have mem: "(p', Some m, y) \<in> set (qview k' s') \<longleftrightarrow> (k', p', m, y) = (k, p, n, Some db) \<or> (p', Some m, y) \<in> set (qview k' s)" for k' p' m y
    unfolding put_mem [OF v i(1)] using i by (auto simp: in_set_conv_nth)
  show "held_qs s' = insert (k, p, n) (held_qs s)" unfolding held_qs_def mem by auto
  show "bells_held bell s'" using ok(2) db unfolding bells_held_def mem by auto
  have fresh: "qview k s ! j \<noteq> (p, Some n, y)" if "j < length (qview k s)" for j y
    using new held_nth [OF that] by blast
  show "one_each s'" unfolding one_each_def
  proof (intro allI impI, elim conjE)
    fix k' a b p' m y z
    assume h: "a < length (qview k' s')" "b < length (qview k' s')" "qview k' s' ! a = (p', Some m, y)" "qview k' s' ! b = (p', Some m, z)"
    show "a = b"
    proof (cases "k' = k")
      case False
      then show ?thesis using h ok(1) v unfolding one_each_def by (simp add: view_put_def) blast
    next
      case True
      then have q: "qview k' s' = (qview k s)[i := (p, Some n, Some db)]" using v by (simp add: view_put_def)
      show ?thesis
      proof (cases "a = i \<or> b = i")
        case True
        then show ?thesis using h fresh [of a y] fresh [of b z] unfolding q by (auto simp: nth_list_update split: if_splits)
      next
        case False
        then have "qview k s ! a = (p', Some m, y)" "qview k s ! b = (p', Some m, z)" "a < length (qview k s)" "b < length (qview k s)"
          using h unfolding q by simp_all
        then show ?thesis using ok(1) unfolding one_each_def by blast
      qed
    qed
  qed
qed

lemma view_put_close:
  assumes v: "view_put k i (p, None, db) s s'" and ok: "one_each s" "bells_held bell s"
    and i: "i < length (qview k s)" "qview k s ! i = (p, y, x)"
  shows "held_qs s' = held_qs s - (case y of None \<Rightarrow> {} | Some n \<Rightarrow> {(k, p, n)})" "one_each s'" "bells_held bell s'"
proof -
  have q: "qview k' s' = (if k' = k then (qview k s)[i := (p, None, db)] else qview k' s)" for k' using v by (simp add: view_put_def)
  have sub: "(p', Some m, z) \<in> set (qview k' s)" if "(p', Some m, z) \<in> set (qview k' s')" for k' p' m z
    using that unfolding put_mem [OF v i(1)] by (auto simp: in_set_conv_nth split: if_splits)
  have away: "(p', Some m, z) \<in> set (qview k s') \<longleftrightarrow> (p', Some m, z) \<in> set (qview k s) \<and> y \<noteq> Some m \<or> (p', Some m, z) \<in> set (qview k s) \<and> p' \<noteq> p" for p' m z
  proof
    assume h: "(p', Some m, z) \<in> set (qview k s')"
    then obtain j where j: "j < length (qview k s)" "j \<noteq> i" "qview k s ! j = (p', Some m, z)" unfolding put_mem [OF v i(1)] by auto
    then have "y \<noteq> Some m \<or> p' \<noteq> p" using ok(1) i unfolding one_each_def by blast
    then show "(p', Some m, z) \<in> set (qview k s) \<and> y \<noteq> Some m \<or> (p', Some m, z) \<in> set (qview k s) \<and> p' \<noteq> p" using sub [OF h] by blast
  next
    assume h: "(p', Some m, z) \<in> set (qview k s) \<and> y \<noteq> Some m \<or> (p', Some m, z) \<in> set (qview k s) \<and> p' \<noteq> p"
    then obtain j where "j < length (qview k s)" "qview k s ! j = (p', Some m, z)" unfolding in_set_conv_nth by blast
    then show "(p', Some m, z) \<in> set (qview k s')" unfolding put_mem [OF v i(1)] using h i(2) by auto
  qed
  have other: "qview k' s' = qview k' s" if "k' \<noteq> k" for k' using q that by simp
  show "held_qs s' = held_qs s - (case y of None \<Rightarrow> {} | Some n \<Rightarrow> {(k, p, n)})"
  proof (rule set_eqI)
    fix h :: queue_id
    obtain k' p' m where h: "h = (k', p', m)" by (cases h)
    show "h \<in> held_qs s' \<longleftrightarrow> h \<in> held_qs s - (case y of None \<Rightarrow> {} | Some n \<Rightarrow> {(k, p, n)})"
      unfolding h held_qs_def using away [of p' m] other [of k'] by (cases "k' = k") (auto split: option.splits)
  qed
  show "one_each s'" using ok(1) i(1) unfolding one_each_def q by (auto simp: nth_list_update split: if_splits)
  show "bells_held bell s'" using ok(2) sub unfolding bells_held_def by blast
qed

section \<open>Opening and closing against the device\<close>

definition queues_match :: "('d \<Rightarrow> bool) \<Rightarrow> ('d \<Rightarrow> nat) \<Rightarrow> ('d \<Rightarrow> queue_id set) \<Rightarrow> (queue_id \<Rightarrow> int) \<Rightarrow> nat set \<Rightarrow> 'd cndm \<Rightarrow> bool" where
  "queues_match okay busy openq bell P s \<longleftrightarrow> okay (hw s) \<and> busy (hw s) = 0 \<and> openq (hw s) = held_qs s \<and> one_each s \<and>
     bells_held bell s \<and> inj_on bell (held_qs s) \<and> on_ports P s"

lemma match_bells_apart: "queues_match okay busy openq bell P s \<Longrightarrow> bells_apart s"
  unfolding queues_match_def by (elim conjE) (rule apart_of_bells)

lemma qview_other [simp]:
  "qview k (s\<lparr>hw := d\<rparr>) = qview k s" "qview k (s\<lparr>regions := n\<rparr>) = qview k s" "qview k (s\<lparr>packets := p\<rparr>) = qview k s"
  "qview k (s\<lparr>ports := x\<rparr>) = qview k s"
  by (cases k; simp)+

lemma held_other [simp]:
  "held_qs (s\<lparr>hw := d\<rparr>) = held_qs s" "held_qs (s\<lparr>regions := n\<rparr>) = held_qs s"
  "one_each (s\<lparr>hw := d\<rparr>) = one_each s" "one_each (s\<lparr>regions := n\<rparr>) = one_each s"
  "bells_held bell (s\<lparr>hw := d\<rparr>) = bells_held bell s" "bells_held bell (s\<lparr>regions := n\<rparr>) = bells_held bell s"
  "on_ports P (s\<lparr>hw := d\<rparr>) = on_ports P s" "on_ports P (s\<lparr>regions := n\<rparr>) = on_ports P s"
  by (simp_all add: held_qs_def one_each_def bells_held_def on_ports_def)

lemma view_set:
  "i < length (eqs s) \<Longrightarrow> view_put QE i (eq_port q, eqn q, eq_db q) s (set_eq i q s)"
  "i < length (cqs s) \<Longrightarrow> view_put QC i (cq_port c, cqn c, cq_db c) s (set_cq i c s)"
  "i < length (sqs s) \<Longrightarrow> view_put QS i (wq_port w, wqn w, wq_db w) s (set_sq i w s)"
  "i < length (rqs s) \<Longrightarrow> view_put QR i (wq_port w, wqn w, wq_db w) s (set_rq i w s)"
  unfolding view_put_def set_eq_def set_cq_def set_sq_def set_rq_def
  by (intro allI, case_tac k', simp_all add: map_update)+

lemma same_view:
  assumes "\<And>k. qview k s' = qview k s" "hw s' = hw s"
  shows "queues_match okay busy openq bell P s' = queues_match okay busy openq bell P s"
  using assms by (simp add: queues_match_def held_qs_def one_each_def bells_held_def on_ports_def)

lemma view_same_put: "view_put k i (qview k s ! i) s s' \<Longrightarrow> qview k' s' = qview k' s"
  by (cases "i < length (qview k s)") (auto simp: view_put_def)

lemma set_hw [simp]: "hw (set_eq i q s) = hw s" "hw (set_cq i c s) = hw s" "hw (set_sq i w s) = hw s" "hw (set_rq i w s) = hw s"
  by (simp_all add: set_eq_def set_cq_def set_sq_def set_rq_def)

context queue_device begin

abbreviation "matches \<equiv> queues_match okay busy (\<lambda>d. open_qs (core d)) bell dports"

lemma match_db:
  assumes m: "matches s" and w: "write_db N db v s = Inr s'" "nio N = E" and h: "(p, Some n, db) \<in> set (qview k s)"
  shows "matches s'"
proof -
  have b: "db = Some (bell (k, p, n))" using m h unfolding queues_match_def bells_held_def by blast
  have "(k, p, n) \<in> open_qs (core (hw s))" using m h by (auto simp: queues_match_def held_qs_def)
  then show ?thesis using m w knock unfolding b by (auto simp: write_db_def queues_match_def)
qed

lemma port_there: "matches s \<Longrightarrow> i < length (qview k s) \<Longrightarrow> fst (qview k s ! i) \<in> dports"
  using nth_mem [of i "qview k s"] unfolding queues_match_def on_ports_def by blast

lemma created:
  assumes m: "matches s" and N: "nio N = E" and p: "port \<in> dports" and c: "create_queue N (create_op k) port parent lg s = Some (Inr (r, s1))"
  shows "\<exists>d. s1 = s\<lparr>hw := d, regions := regions s + 1\<rparr> \<and> okay d \<and> busy d = 0 \<and>
    (case r of None \<Rightarrow> open_qs (core d) = held_qs s
     | Some (n, db) \<Rightarrow> db \<noteq> 0 \<and> db = bell (k, port, n) \<and> db \<notin> bell ` held_qs s \<and> open_qs (core d) = insert (k, port, n) (held_qs s))"
proof -
  let ?vs = "queue_cmd (create_op k) port 0 parent lg (ring_base N (regions s) (2 ^ lg * 16))"
  have ok: "okay (hw s)" "busy (hw s) = 0" "open_qs (core (hw s)) = held_qs s" using m by (simp_all add: queues_match_def)
  have sz: "fmt_size cmd_fmt = 64" by (simp add: cmd_fmt_def)
  have f: "fits_fmt cmd_fmt ?vs"
    using c command_result(1) [OF ok(1,2) sz] N by (cases "fits_fmt cmd_fmt ?vs") (simp_all add: create_queue_def)
  obtain rs c' where st: "step (cmd_words cmd_fmt ?vs) (core (hw s)) = (rs, c')" by fastforce
  obtain d where d: "command E cmd_fmt ?vs (hw s) = Some (Inr (unpack_flds cmd_fmt (tobytes rs), d))" "okay d" "busy d = 0" "core d = c'"
    using command_result(2) [OF ok(1,2) sz f] st by auto
  from create [OF p f st refl] show ?thesis using c d N ok(3) by (auto simp: create_queue_def Let_def split: if_splits)
qed

lemma destroyed:
  assumes m: "matches s" and N: "nio N = E" and h: "i < length (qview k s)" "qview k s ! i = (port, Some n, x)"
    and c: "destroy_queue N (create_op k + 3) port n s = Some (Inr s1)"
  shows "\<exists>d. s1 = s\<lparr>hw := d\<rparr> \<and> okay d \<and> busy d = 0 \<and> open_qs (core d) = held_qs s - {(k, port, n)}"
proof -
  let ?vs = "queue_cmd (create_op k + 3) port n 0 0 0"
  have ok: "okay (hw s)" "busy (hw s) = 0" "open_qs (core (hw s)) = held_qs s" using m by (simp_all add: queues_match_def)
  have p: "port \<in> dports" using port_there [OF m h(1)] h(2) by simp
  have o: "(k, port, n) \<in> open_qs (core (hw s))" using held_nth [OF h] ok(3) by simp
  have sz: "fmt_size cmd_fmt = 64" by (simp add: cmd_fmt_def)
  have f: "fits_fmt cmd_fmt ?vs"
    using c command_result(1) [OF ok(1,2) sz] N by (cases "fits_fmt cmd_fmt ?vs") (simp_all add: destroy_queue_def)
  obtain rs c' where st: "step (cmd_words cmd_fmt ?vs) (core (hw s)) = (rs, c')" by fastforce
  obtain d where d: "command E cmd_fmt ?vs (hw s) = Some (Inr (unpack_flds cmd_fmt (tobytes rs), d))" "okay d" "busy d = 0" "core d = c'"
    using command_result(2) [OF ok(1,2) sz f] st by auto
  from destroy [OF p o f st] show ?thesis using c d N ok(3) by (auto simp: destroy_queue_def)
qed

text \<open>The object takes the number that the device gave, or none.\<close>

lemma match_open:
  assumes m: "matches s" and N: "nio N = E" and i: "i < length (qview k s)" "qview k s ! i = (port, None, x)"
    and c: "create_queue N (create_op k) port parent lg s = Some (Inr (r, s1))"
    and v: "view_put k i (case r of None \<Rightarrow> (port, None, None) | Some (n, db) \<Rightarrow> (port, Some n, Some db)) s1 s2" "hw s2 = hw s1"
  shows "matches s2"
proof -
  have p: "port \<in> dports" using port_there [OF m i(1)] i(2) by simp
  obtain d where d: "s1 = s\<lparr>hw := d, regions := regions s + 1\<rparr>" "okay d" "busy d = 0"
    "case r of None \<Rightarrow> open_qs (core d) = held_qs s
     | Some (n, db) \<Rightarrow> db \<noteq> 0 \<and> db = bell (k, port, n) \<and> db \<notin> bell ` held_qs s \<and> open_qs (core d) = insert (k, port, n) (held_qs s)"
    using created [OF m N p c] by blast
  have ok: "one_each s1" "bells_held bell s1" "inj_on bell (held_qs s1)" "on_ports dports s1" using m d(1) by (simp_all add: queues_match_def)
  have i1: "i < length (qview k s1)" "qview k s1 ! i = (port, None, x)" and h: "held_qs s1 = held_qs s" using i d(1) by simp_all
  have ps: "on_ports dports s2" by (rule put_ports [OF v(1) i1(1) ok(4)]) (use i1(2) in \<open>simp split: option.splits prod.splits\<close>)
  show ?thesis
  proof (cases r)
    case None
    have "view_put k i (port, None, None) s1 s2" using v(1) None by simp
    from view_put_close [OF this ok(1,2) i1] have "held_qs s2 = held_qs s1" "one_each s2" "bells_held bell s2" by simp_all
    then show ?thesis using d None v(2) h ps ok(3) by (simp add: queues_match_def)
  next
    case (Some y)
    obtain n db where y: "y = (n, db)" by fastforce
    have f: "db = bell (k, port, n)" "db \<noteq> 0" "bell (k, port, n) \<notin> bell ` held_qs s1" "open_qs (core d) = insert (k, port, n) (held_qs s1)"
      using d(4) Some y h by auto
    have "view_put k i (port, Some n, Some db) s1 s2" using v(1) Some y by simp
    note vo = view_put_open [OF this i1 _ f(1,2) ok(1,2)]
    have "(k, port, n) \<notin> held_qs s1" using f(3) by blast
    note vo = vo [OF this]
    moreover have "inj_on bell (held_qs s2)" unfolding vo(1) inj_on_insert using ok(3) f(3) by blast
    ultimately show ?thesis using d(1-3) f(4) v(2) ps by (simp add: queues_match_def)
  qed
qed

lemma match_close:
  assumes m: "matches s" and N: "nio N = E" and i: "i < length (qview k s)" "qview k s ! i = (port, Some n, x)"
    and c: "destroy_queue N (create_op k + 3) port n s = Some (Inr s1)"
    and v: "view_put k i (port, None, db) s1 s2" "hw s2 = hw s1"
  shows "matches s2"
proof -
  obtain d where d: "s1 = s\<lparr>hw := d\<rparr>" "okay d" "busy d = 0" "open_qs (core d) = held_qs s - {(k, port, n)}"
    using destroyed [OF m N i c] by blast
  have ok: "one_each s1" "bells_held bell s1" "inj_on bell (held_qs s1)" "on_ports dports s1" using m d(1) by (simp_all add: queues_match_def)
  have i1: "i < length (qview k s1)" "qview k s1 ! i = (port, Some n, x)" using i d(1) by simp_all
  have "on_ports dports s2" by (rule put_ports [OF v(1) i1(1) ok(4)]) (use i1(2) in simp)
  moreover from view_put_close [OF v(1) ok(1,2) i1]
  have "held_qs s2 = held_qs s1 - {(k, port, n)}" "one_each s2" "bells_held bell s2" by simp_all
  moreover have "inj_on bell (held_qs s2)" unfolding calculation(2) by (rule inj_on_subset [OF ok(3)]) blast
  ultimately show ?thesis using d v(2) by (simp add: queues_match_def)
qed

end

section \<open>Sequences of operations\<close>

datatype qop = OpenEq nat int nat | CloseEq nat | OpenCq nat "nat + int" nat | CloseCq nat
  | OpenSq nat nat nat | CloseSq nat | OpenRq nat nat nat | CloseRq nat

fun run_op :: "'d nenv \<Rightarrow> qop \<Rightarrow> 'd cndm \<Rightarrow> 'd cndm run" where
  "run_op N (OpenEq i irqn sz) = eq_open N i irqn sz"
| "run_op N (CloseEq i) = eq_close N i"
| "run_op N (OpenCq i dest sz) = cq_open N i dest sz"
| "run_op N (CloseCq i) = cq_close N i"
| "run_op N (OpenSq i c sz) = sq_open N i c sz"
| "run_op N (CloseSq i) = sq_close N i"
| "run_op N (OpenRq i c sz) = rq_open N i c sz"
| "run_op N (CloseRq i) = rq_close N i"

text \<open>The operations are those of objects that exist.\<close>

fun op_there :: "'d cndm \<Rightarrow> qop \<Rightarrow> bool" where
  "op_there s (OpenEq i _ _) = (i < length (eqs s))"
| "op_there s (CloseEq i) = (i < length (eqs s))"
| "op_there s (OpenCq i _ _) = (i < length (cqs s))"
| "op_there s (CloseCq i) = (i < length (cqs s))"
| "op_there s (OpenSq i _ _) = (i < length (sqs s))"
| "op_there s (CloseSq i) = (i < length (sqs s))"
| "op_there s (OpenRq i _ _) = (i < length (rqs s))"
| "op_there s (CloseRq i) = (i < length (rqs s))"

definition same_objects :: "'d cndm \<Rightarrow> 'd cndm \<Rightarrow> bool" where
  "same_objects s s' \<longleftrightarrow> length (eqs s') = length (eqs s) \<and> length (cqs s') = length (cqs s) \<and> length (sqs s') = length (sqs s) \<and> length (rqs s') = length (rqs s)"

lemma same_objects_there: "same_objects s s' \<Longrightarrow> op_there s' x = op_there s x"
  by (cases x) (simp_all add: same_objects_def)

lemma same_objects_simps [simp]:
  "same_objects s s" "same_objects s (s'\<lparr>hw := d\<rparr>) = same_objects s s'" "same_objects s (s'\<lparr>regions := n\<rparr>) = same_objects s s'"
  "same_objects s (s'\<lparr>packets := p\<rparr>) = same_objects s s'"
  "same_objects s (set_eq i q s') = same_objects s s'" "same_objects s (set_cq i c s') = same_objects s s'"
  "same_objects s (set_sq i w s') = same_objects s s'" "same_objects s (set_rq i w s') = same_objects s s'"
  "same_objects s (attach_cq e m c0 s') = same_objects s s'"
  by (simp_all add: same_objects_def set_eq_def set_cq_def set_sq_def set_rq_def attach_cq_def)

lemma same_objects_trans: "same_objects s1 s2 \<Longrightarrow> same_objects s2 s3 \<Longrightarrow> same_objects s1 s3"
  by (simp add: same_objects_def)

lemma same_objects_db: "write_db N db v s1 = Inr s2 \<Longrightarrow> same_objects s s1 \<Longrightarrow> same_objects s s2"
  by (auto simp: write_db_def split: option.splits)

lemma attach_view: "qview k (attach_cq e n c s) = qview k s"
proof (cases "e < length (eqs s)")
  case True
  from view_set(1) [OF True, of "(eqs s ! e)\<lparr>cq_table := (cq_table (eqs s ! e))(n \<mapsto> c)\<rparr>"]
  have "view_put QE e (qview QE s ! e) s (attach_cq e n c s)" using True by (simp add: attach_cq_def)
  then show ?thesis by (rule view_same_put)
next
  case False
  then show ?thesis by (cases k) (simp_all add: attach_cq_def set_eq_def not_less list_update_beyond)
qed

lemma attach_rest: "hw (attach_cq e n c s) = hw s" "cqs (attach_cq e n c s) = cqs s"
  by (simp_all add: attach_cq_def set_eq_def)

lemma src_view: "qview k (set_cq c ((cqs s ! c)\<lparr>cq_src := x\<rparr>) s) = qview k s"
proof (cases "c < length (cqs s)")
  case True
  from view_set(2) [OF True, of "(cqs s ! c)\<lparr>cq_src := x\<rparr>"]
  have "view_put QC c (qview QC s ! c) s (set_cq c ((cqs s ! c)\<lparr>cq_src := x\<rparr>) s)" using True by simp
  then show ?thesis by (rule view_same_put)
next
  case False
  then show ?thesis by (cases k) (simp_all add: set_cq_def not_less list_update_beyond)
qed

lemma ring_view: "i < length (rqs s) \<Longrightarrow> qview k (set_rq i ((rqs s ! i)\<lparr>wq_ring := r\<rparr>) s) = qview k s"
  using view_set(4) [of i s "(rqs s ! i)\<lparr>wq_ring := r\<rparr>"] view_same_put [of QR i s "set_rq i ((rqs s ! i)\<lparr>wq_ring := r\<rparr>) s" k] by simp

lemma xbind_None: "xbind m f = None \<longleftrightarrow> m = None \<or> (\<exists>x. m = Some (Inr x) \<and> f x = None)"
  by (auto simp: xbind_def split: option.splits sum.splits)

lemma log_size_cases: "xbind (log_size sz) f = Some (Inr s) \<Longrightarrow> \<exists>lg. f lg = Some (Inr s)"
  by (auto simp: log_size_def split: if_splits)

context queue_device begin

lemma match_eq_open:
  assumes m: "matches s" and N: "nio N = E" and i: "i < length (eqs s)" and c: "eq_open N i irqn sz s = Some (Inr s')"
  shows "matches s' \<and> same_objects s s'"
proof -
  have fresh: "eqn (eqs s ! i) = None" using c by (auto simp: eq_open_def Let_def split: if_splits)
  then obtain lg r s1 where cr: "create_queue N (create_op QE) (eq_port (eqs s ! i)) irqn lg s = Some (Inr (r, s1))"
    and rest: "(let q1 = (eqs s ! i)\<lparr>eq_log := lg, eq_buf := replicate (2 ^ lg * 16) 0, eq_cons := 0, eq_irqn := Some irqn, cq_table := Map.empty\<rparr> in
      case r of None \<Rightarrow> Some (Inr (set_eq i (q1\<lparr>eqn := None, eq_db := None\<rparr>) s1))
      | Some (n, db) \<Rightarrow> Some (eq_arm N i (set_eq i (q1\<lparr>eqn := Some n, eq_db := Some db, eq_enabled := True\<rparr>) s1))) = Some (Inr s')"
    using c by (auto simp: eq_open_def Let_def xbind_returns dest!: log_size_cases)
  have v: "i < length (qview QE s)" "qview QE s ! i = (eq_port (eqs s ! i), None, eq_db (eqs s ! i))" using i fresh by simp_all
  have p: "eq_port (eqs s ! i) \<in> dports" using port_there [OF m v(1)] v(2) by simp
  from created [OF m N p cr] obtain d where s1: "s1 = s\<lparr>hw := d, regions := regions s + 1\<rparr>" by blast
  note mo = match_open [OF m N v cr]
  have l: "i < length (eqs s1)" using s1 i by simp
  show ?thesis
  proof (cases r)
    case None
    let ?q = "(eqs s ! i)\<lparr>eq_log := lg, eq_buf := replicate (2 ^ lg * 16) 0, eq_cons := 0, eq_irqn := Some irqn, cq_table := Map.empty, eqn := None, eq_db := None\<rparr>"
    have "s' = set_eq i ?q s1" using rest None by simp
    moreover have "matches (set_eq i ?q s1)" by (rule mo) (use view_set(1) [OF l, of ?q] None in simp_all)
    ultimately show ?thesis using s1 by simp
  next
    case (Some x)
    obtain n db where x: "x = (n, db)" by fastforce
    let ?q = "(eqs s ! i)\<lparr>eq_log := lg, eq_buf := replicate (2 ^ lg * 16) 0, eq_cons := 0, eq_irqn := Some irqn, cq_table := Map.empty,
      eqn := Some n, eq_db := Some db, eq_enabled := True\<rparr>"
    have a: "eq_arm N i (set_eq i ?q s1) = Inr s'" using rest Some x by simp
    have mt: "matches (set_eq i ?q s1)" by (rule mo) (use view_set(1) [OF l, of ?q] Some x in simp_all)
    have "(eq_port (eqs s ! i), Some n, eq_db (eqs (set_eq i ?q s1) ! i)) \<in> set (qview QE (set_eq i ?q s1))"
      using l by (auto simp: set_eq_def map_update intro!: set_update_memI)
    from match_db [OF mt a [unfolded eq_arm_def] N this] same_objects_db [OF a [unfolded eq_arm_def]] show ?thesis using s1 by simp
  qed
qed

lemma match_cq_open:
  assumes m: "matches s" and N: "nio N = E" and i: "i < length (cqs s)" and c: "cq_open N i dest sz s = Some (Inr s')"
  shows "matches s' \<and> same_objects s s'"
proof -
  have fresh: "cqn (cqs s ! i) = None" using c by (auto simp: cq_open_def Let_def split: if_splits)
  define q1 where "q1 lg = (case dest of Inl e \<Rightarrow> (cqs s ! i)\<lparr>cq_eq := Some e\<rparr> | Inr irqn \<Rightarrow> (cqs s ! i)\<lparr>cq_irqn := Some irqn\<rparr>)\<lparr>cq_ring := cring_new lg\<rparr>" for lg
  define G where "G lg = (\<lambda>(r, s1). case r of None \<Rightarrow> Some (Inr (set_cq i ((q1 lg)\<lparr>cqn := None, cq_db := None\<rparr>) s1))
      | Some (n, db) \<Rightarrow> Some (cq_arm N i (case cq_eq (q1 lg) of None \<Rightarrow> set_cq i ((q1 lg)\<lparr>cqn := Some n, cq_db := Some db, cq_enabled := True\<rparr>) s1
        | Some e \<Rightarrow> attach_cq e n i (set_cq i ((q1 lg)\<lparr>cqn := Some n, cq_db := Some db, cq_enabled := True\<rparr>) s1))))" for lg
  let ?D = "case dest of Inl e \<Rightarrow> eqn (eqs s ! e) | Inr irqn \<Rightarrow> Some (irqn OR 0x80000000)"
  have "cq_open N i dest sz s = xbind (log_size sz) (\<lambda>lg. case ?D of None \<Rightarrow> Some (Inl StructError)
      | Some dqn \<Rightarrow> xbind (create_queue N (create_op QC) (cq_port (cqs s ! i)) dqn lg s) (G lg))"
    unfolding cq_open_def Let_def G_def q1_def create_op.simps using fresh by simp
  with c obtain lg where "(case ?D of None \<Rightarrow> Some (Inl StructError)
      | Some dqn \<Rightarrow> xbind (create_queue N (create_op QC) (cq_port (cqs s ! i)) dqn lg s) (G lg)) = Some (Inr s')"
    by (auto dest!: log_size_cases)
  then obtain dqn where "xbind (create_queue N (create_op QC) (cq_port (cqs s ! i)) dqn lg s) (G lg) = Some (Inr s')"
    by (cases ?D) simp_all
  then obtain r s1 where cr: "create_queue N (create_op QC) (cq_port (cqs s ! i)) dqn lg s = Some (Inr (r, s1))" and rest: "G lg (r, s1) = Some (Inr s')"
    by (auto simp: xbind_returns)
  have v: "i < length (qview QC s)" "qview QC s ! i = (cq_port (cqs s ! i), None, cq_db (cqs s ! i))" using i fresh by simp_all
  have p: "cq_port (cqs s ! i) \<in> dports" using port_there [OF m v(1)] v(2) by simp
  from created [OF m N p cr] obtain d where s1: "s1 = s\<lparr>hw := d, regions := regions s + 1\<rparr>" by blast
  note mo = match_open [OF m N v cr]
  have l: "i < length (cqs s1)" using s1 i by simp
  have qp: "cq_port (q1 lg) = cq_port (cqs s ! i)" by (simp add: q1_def split: sum.splits)
  show ?thesis
  proof (cases r)
    case None
    let ?q = "(q1 lg)\<lparr>cqn := None, cq_db := None\<rparr>"
    have "s' = set_cq i ?q s1" using rest None by (simp add: G_def)
    moreover have "matches (set_cq i ?q s1)" by (rule mo) (use view_set(2) [OF l, of ?q] None qp in simp_all)
    ultimately show ?thesis using s1 by simp
  next
    case (Some x)
    obtain n db where x: "x = (n, db)" by fastforce
    let ?q = "(q1 lg)\<lparr>cqn := Some n, cq_db := Some db, cq_enabled := True\<rparr>"
    let ?s = "set_cq i ?q s1" and ?t = "case cq_eq (q1 lg) of None \<Rightarrow> set_cq i ?q s1 | Some e \<Rightarrow> attach_cq e n i (set_cq i ?q s1)"
    have a: "cq_arm N i ?t = Inr s'" using rest Some x by (simp add: G_def)
    have mt: "matches ?s" by (rule mo) (use view_set(2) [OF l, of ?q] Some x qp in simp_all)
    have vt: "qview k ?t = qview k ?s" "hw ?t = hw ?s" "cqs ?t = cqs ?s" for k
      by (auto simp: attach_view attach_rest split: option.splits)
    have "matches ?t" using mt same_view [OF vt(1,2)] by blast
    moreover have "(cq_port (q1 lg), Some n, cq_db (cqs ?t ! i)) \<in> set (qview QC ?t)"
      unfolding vt using l by (auto simp: set_cq_def map_update intro!: set_update_memI)
    ultimately have "matches s'" using match_db [OF _ a [unfolded cq_arm_def] N] by blast
    moreover have "same_objects s ?t" using s1 by (simp split: option.splits)
    ultimately show ?thesis using same_objects_db [OF a [unfolded cq_arm_def]] by blast
  qed
qed

lemma match_sq_open:
  assumes m: "matches s" and N: "nio N = E" and i: "i < length (sqs s)" and c: "sq_open N i cc sz s = Some (Inr s')"
  shows "matches s' \<and> same_objects s s'"
proof -
  let ?s0 = "set_cq cc ((cqs s ! cc)\<lparr>cq_src := Some (Tx, i)\<rparr>) s"
  have fresh: "wqn (sqs s ! i) = None" using c by (auto simp: sq_open_def Let_def split: if_splits)
  obtain lg cn r s1 where cr: "create_queue N (create_op QS) (wq_port (sqs s ! i)) cn lg ?s0 = Some (Inr (r, s1))"
    and rest: "(case r of None \<Rightarrow> Some (Inr (set_sq i ((sqs s ! i)\<lparr>wq_ring := ring_new lg, wq_cq := Some cc, wqn := None, wq_db := None\<rparr>) s1))
      | Some (n, db) \<Rightarrow> Some (Inr (set_sq i ((sqs s ! i)\<lparr>wq_ring := ring_new lg, wq_cq := Some cc, wqn := Some n, wq_db := Some db, wq_enabled := True\<rparr>) s1))) = Some (Inr s')"
    using c fresh by (auto simp: sq_open_def Let_def xbind_returns dest!: log_size_cases split: option.splits)
  have m0: "matches ?s0" using m same_view [OF src_view, where s = s] by simp
  have v: "i < length (qview QS ?s0)" "qview QS ?s0 ! i = (wq_port (sqs s ! i), None, wq_db (sqs s ! i))" using i fresh unfolding src_view by simp_all
  have p: "wq_port (sqs s ! i) \<in> dports" using port_there [OF m0 v(1)] v(2) by simp
  from created [OF m0 N p cr] obtain d where s1: "s1 = ?s0\<lparr>hw := d, regions := regions ?s0 + 1\<rparr>" by blast
  note mo = match_open [OF m0 N v cr]
  have l: "i < length (sqs s1)" using s1 i by (simp add: set_cq_def)
  let ?q = "\<lambda>x y. (sqs s ! i)\<lparr>wq_ring := ring_new lg, wq_cq := Some cc, wqn := x, wq_db := y\<rparr>"
  show ?thesis
  proof (cases r)
    case None
    then have "s' = set_sq i (?q None None) s1" using rest by simp
    moreover have "matches (set_sq i (?q None None) s1)" by (rule mo) (use view_set(3) [OF l, of "?q None None"] None in simp_all)
    ultimately show ?thesis using s1 by simp
  next
    case (Some x)
    obtain n db where x: "x = (n, db)" by fastforce
    let ?w = "(?q (Some n) (Some db))\<lparr>wq_enabled := True\<rparr>"
    have "s' = set_sq i ?w s1" using rest Some x by simp
    moreover have "matches (set_sq i ?w s1)" by (rule mo) (use view_set(3) [OF l, of ?w] Some x in simp_all)
    ultimately show ?thesis using s1 by simp
  qed
qed

lemma match_refill:
  assumes m: "matches s" and N: "nio N = E" and i: "i < length (rqs s)" "wqn (rqs s ! i) = Some n" and c: "rq_refill N i s = Inr s'"
  shows "matches s' \<and> same_objects s s'"
proof -
  obtain kick r p where x: "(let s1 = set_rq i ((rqs s ! i)\<lparr>wq_ring := r\<rparr>) (s\<lparr>packets := p\<rparr>) in if kick then rq_kick N i s1 else Inr s1) = Inr s'"
    using c by (auto simp: rq_refill_def rbind_Inr_iff)
  let ?s = "set_rq i ((rqs (s\<lparr>packets := p\<rparr>) ! i)\<lparr>wq_ring := r\<rparr>) (s\<lparr>packets := p\<rparr>)"
  have v: "qview k ?s = qview k s" for k using ring_view [of i "s\<lparr>packets := p\<rparr>" k r] i(1) by simp
  have mt: "matches ?s" using m same_view [OF v] by simp
  have o: "same_objects s ?s" by simp
  show ?thesis
  proof (cases kick)
    case False
    then show ?thesis using x mt o by (simp add: Let_def)
  next
    case True
    then have k: "rq_kick N i ?s = Inr s'" using x by (simp add: Let_def)
    have "(wq_port (rqs s ! i), Some n, wq_db (rqs ?s ! i)) \<in> set (qview QR ?s)" unfolding v using i by (force simp: set_rq_def)
    then show ?thesis using match_db [OF mt k [unfolded rq_kick_def] N] same_objects_db [OF k [unfolded rq_kick_def] o] by blast
  qed
qed

lemma match_rq_open:
  assumes m: "matches s" and N: "nio N = E" and i: "i < length (rqs s)" and c: "rq_open N i cc sz s = Some (Inr s')"
  shows "matches s' \<and> same_objects s s'"
proof -
  let ?s0 = "set_cq cc ((cqs s ! cc)\<lparr>cq_src := Some (Rx, i)\<rparr>) s"
  have fresh: "wqn (rqs s ! i) = None" using c by (auto simp: rq_open_def Let_def split: if_splits)
  obtain lg cn r s1 where cr: "create_queue N (create_op QR) (wq_port (rqs s ! i)) cn lg ?s0 = Some (Inr (r, s1))"
    and rest: "(case r of None \<Rightarrow> Some (Inr (set_rq i ((rqs s ! i)\<lparr>wq_ring := ring_new lg, wq_cq := Some cc, wqn := None, wq_db := None\<rparr>) s1))
      | Some (n, db) \<Rightarrow> Some (rq_refill N i (set_rq i ((rqs s ! i)\<lparr>wq_ring := ring_new lg, wq_cq := Some cc, wqn := Some n, wq_db := Some db, wq_enabled := True\<rparr>) s1))) = Some (Inr s')"
    using c fresh by (auto simp: rq_open_def Let_def xbind_returns dest!: log_size_cases split: option.splits)
  have m0: "matches ?s0" using m same_view [OF src_view, where s = s] by simp
  have v: "i < length (qview QR ?s0)" "qview QR ?s0 ! i = (wq_port (rqs s ! i), None, wq_db (rqs s ! i))" using i fresh unfolding src_view by simp_all
  have p: "wq_port (rqs s ! i) \<in> dports" using port_there [OF m0 v(1)] v(2) by simp
  from created [OF m0 N p cr] obtain d where s1: "s1 = ?s0\<lparr>hw := d, regions := regions ?s0 + 1\<rparr>" by blast
  note mo = match_open [OF m0 N v cr]
  have l: "i < length (rqs s1)" using s1 i by (simp add: set_cq_def)
  let ?q = "\<lambda>x y. (rqs s ! i)\<lparr>wq_ring := ring_new lg, wq_cq := Some cc, wqn := x, wq_db := y\<rparr>"
  show ?thesis
  proof (cases r)
    case None
    then have "s' = set_rq i (?q None None) s1" using rest by simp
    moreover have "matches (set_rq i (?q None None) s1)" by (rule mo) (use view_set(4) [OF l, of "?q None None"] None in simp_all)
    ultimately show ?thesis using s1 by simp
  next
    case (Some x)
    obtain n db where x: "x = (n, db)" by fastforce
    let ?w = "(?q (Some n) (Some db))\<lparr>wq_enabled := True\<rparr>"
    have rf: "rq_refill N i (set_rq i ?w s1) = Inr s'" using rest Some x by simp
    have mt: "matches (set_rq i ?w s1)" by (rule mo) (use view_set(4) [OF l, of ?w] Some x in simp_all)
    have "i < length (rqs (set_rq i ?w s1))" "wqn (rqs (set_rq i ?w s1) ! i) = Some n" using l by (simp_all add: set_rq_def)
    note mr = match_refill [OF mt N this rf]
    have "same_objects s (set_rq i ?w s1)" using s1 by simp
    then show ?thesis using mr same_objects_trans by blast
  qed
qed

lemma match_closes:
  assumes m: "matches s" and N: "nio N = E"
  shows "i < length (eqs s) \<Longrightarrow> eq_close N i s = Some (Inr s') \<Longrightarrow> matches s' \<and> same_objects s s'"
    "i < length (cqs s) \<Longrightarrow> cq_close N i s = Some (Inr s') \<Longrightarrow> matches s' \<and> same_objects s s'"
    "i < length (sqs s) \<Longrightarrow> sq_close N i s = Some (Inr s') \<Longrightarrow> matches s' \<and> same_objects s s'"
    "i < length (rqs s) \<Longrightarrow> rq_close N i s = Some (Inr s') \<Longrightarrow> matches s' \<and> same_objects s s'"
proof -
  have cl: "matches s2 \<and> same_objects s s2"
    if "i < length (qview k s)" "qview k s ! i = (port, Some n, x)" "destroy_queue N (create_op k + 3) port n s = Some (Inr s1)"
      "view_put k i (port, None, db) s1 s2" "hw s2 = hw s1" "same_objects s s1 \<Longrightarrow> same_objects s s2" for k port n x s1 db s2
  proof
    show "matches s2" by (rule match_close [OF m N that(1-5)])
    from destroyed [OF m N that(1-3)] obtain d where "s1 = s\<lparr>hw := d\<rparr>" by blast
    then have "same_objects s s1" by simp
    then show "same_objects s s2" by (rule that(6))
  qed
  note ob = destroyed [OF m N]
  show "matches s' \<and> same_objects s s'" if i: "i < length (eqs s)" and c: "eq_close N i s = Some (Inr s')"
  proof (cases "eqn (eqs s ! i)")
    case None
    then show ?thesis using c m by (simp add: eq_close_def)
  next
    case (Some n)
    then obtain s1 where d: "destroy_queue N (create_op QE + 3) (eq_port (eqs s ! i)) n s = Some (Inr s1)"
      and s': "s' = set_eq i ((eqs s1 ! i)\<lparr>eq_enabled := False, eqn := None\<rparr>) s1" using c by (auto simp: eq_close_def xbind_returns)
    have v: "i < length (qview QE s)" "qview QE s ! i = (eq_port (eqs s ! i), Some n, eq_db (eqs s ! i))" using i Some by simp_all
    from ob [OF v d] obtain h where "s1 = s\<lparr>hw := h\<rparr>" by blast
    then have l: "i < length (eqs s1)" "eq_port (eqs s1 ! i) = eq_port (eqs s ! i)" using i by simp_all
    from view_set(1) [OF l(1), of "(eqs s1 ! i)\<lparr>eq_enabled := False, eqn := None\<rparr>"]
    show ?thesis by (intro cl [OF v d]) (use l(2) s' in simp_all)
  qed
  show "matches s' \<and> same_objects s s'" if i: "i < length (cqs s)" and c: "cq_close N i s = Some (Inr s')"
  proof (cases "cqn (cqs s ! i)")
    case None
    then show ?thesis using c m by (simp add: cq_close_def)
  next
    case (Some n)
    then obtain s1 where d: "destroy_queue N (create_op QC + 3) (cq_port (cqs s ! i)) n s = Some (Inr s1)"
      and s': "s' = set_cq i ((cqs s1 ! i)\<lparr>cq_enabled := False, cqn := None\<rparr>) s1" using c by (auto simp: cq_close_def xbind_returns)
    have v: "i < length (qview QC s)" "qview QC s ! i = (cq_port (cqs s ! i), Some n, cq_db (cqs s ! i))" using i Some by simp_all
    from ob [OF v d] obtain h where "s1 = s\<lparr>hw := h\<rparr>" by blast
    then have l: "i < length (cqs s1)" "cq_port (cqs s1 ! i) = cq_port (cqs s ! i)" using i by simp_all
    from view_set(2) [OF l(1), of "(cqs s1 ! i)\<lparr>cq_enabled := False, cqn := None\<rparr>"]
    show ?thesis by (intro cl [OF v d]) (use l(2) s' in simp_all)
  qed
  show "matches s' \<and> same_objects s s'" if i: "i < length (sqs s)" and c: "sq_close N i s = Some (Inr s')"
  proof (cases "wqn (sqs s ! i)")
    case None
    then show ?thesis using c m by (simp add: sq_close_def)
  next
    case (Some n)
    then obtain s1 where d: "destroy_queue N (create_op QS + 3) (wq_port (sqs s ! i)) n s = Some (Inr s1)"
      and s': "s' = set_sq i ((sqs s1 ! i)\<lparr>wq_enabled := False, wqn := None\<rparr>) s1" using c by (auto simp: sq_close_def xbind_returns)
    have v: "i < length (qview QS s)" "qview QS s ! i = (wq_port (sqs s ! i), Some n, wq_db (sqs s ! i))" using i Some by simp_all
    from ob [OF v d] obtain h where "s1 = s\<lparr>hw := h\<rparr>" by blast
    then have l: "i < length (sqs s1)" "wq_port (sqs s1 ! i) = wq_port (sqs s ! i)" using i by simp_all
    from view_set(3) [OF l(1), of "(sqs s1 ! i)\<lparr>wq_enabled := False, wqn := None\<rparr>"]
    show ?thesis by (intro cl [OF v d]) (use l(2) s' in simp_all)
  qed
  show "matches s' \<and> same_objects s s'" if i: "i < length (rqs s)" and c: "rq_close N i s = Some (Inr s')"
  proof (cases "wqn (rqs s ! i)")
    case None
    then show ?thesis using c m by (simp add: rq_close_def)
  next
    case (Some n)
    then obtain s1 where d: "destroy_queue N (create_op QR + 3) (wq_port (rqs s ! i)) n s = Some (Inr s1)"
      and s': "s' = set_rq i ((rqs s1 ! i)\<lparr>wq_enabled := False, wqn := None\<rparr>) s1" using c by (auto simp: rq_close_def xbind_returns)
    have v: "i < length (qview QR s)" "qview QR s ! i = (wq_port (rqs s ! i), Some n, wq_db (rqs s ! i))" using i Some by simp_all
    from ob [OF v d] obtain h where "s1 = s\<lparr>hw := h\<rparr>" by blast
    then have l: "i < length (rqs s1)" "wq_port (rqs s1 ! i) = wq_port (rqs s ! i)" using i by simp_all
    from view_set(4) [OF l(1), of "(rqs s1 ! i)\<lparr>wq_enabled := False, wqn := None\<rparr>"]
    show ?thesis by (intro cl [OF v d]) (use l(2) s' in simp_all)
  qed
qed

lemma match_op:
  assumes "matches s" "nio N = E" "op_there s x" "run_op N x s = Some (Inr s')"
  shows "matches s' \<and> same_objects s s'"
proof (cases x)
  case (OpenEq i irqn sz)
  then show ?thesis using assms match_eq_open [of s N i irqn sz s'] by simp
next
  case (CloseEq i)
  then show ?thesis using assms match_closes(1) [of s N i s'] by simp
next
  case (OpenCq i dest sz)
  then show ?thesis using assms match_cq_open [of s N i dest sz s'] by simp
next
  case (CloseCq i)
  then show ?thesis using assms match_closes(2) [of s N i s'] by simp
next
  case (OpenSq i c sz)
  then show ?thesis using assms match_sq_open [of s N i c sz s'] by simp
next
  case (CloseSq i)
  then show ?thesis using assms match_closes(3) [of s N i s'] by simp
next
  case (OpenRq i c sz)
  then show ?thesis using assms match_rq_open [of s N i c sz s'] by simp
next
  case (CloseRq i)
  then show ?thesis using assms match_closes(4) [of s N i s'] by simp
qed

lemma match_ops:
  "matches s \<Longrightarrow> nio N = E \<Longrightarrow> \<forall>x \<in> set xs. op_there s x \<Longrightarrow> xfold (run_op N) xs s = Some (Inr s') \<Longrightarrow> matches s'"
proof (induction xs arbitrary: s)
  case (Cons x xs)
  then obtain s1 where s1: "run_op N x s = Some (Inr s1)" "xfold (run_op N) xs s1 = Some (Inr s')" by (auto simp: xbind_returns)
  from match_op [OF Cons.prems(1,2) _ s1(1)] Cons.prems(3) have "matches s1" "same_objects s s1" by simp_all
  then show ?case using Cons.IH [OF _ Cons.prems(2) _ s1(2)] Cons.prems(3) by (simp add: same_objects_there)
qed simp

text \<open>No operation hangs.\<close>

lemma queue_cmds_return:
  assumes "okay (hw s)" "busy (hw s) = 0" "nio N = E"
  shows "create_queue N op port parent lg s \<noteq> None" "destroy_queue N op port n s \<noteq> None"
proof -
  have sz: "fmt_size cmd_fmt = 64" by (simp add: cmd_fmt_def)
  have c: "\<exists>r. command E cmd_fmt vs (hw s) = Some r" for vs
    using command_result [OF assms(1,2) sz, of vs] by (cases "fits_fmt cmd_fmt vs") auto
  show "create_queue N op port parent lg s \<noteq> None"
    using c [of "queue_cmd op port 0 parent lg (ring_base N (regions s) (2 ^ lg * 16))"] assms(3)
    by (auto simp: create_queue_def xbind_def split: sum.splits)
  show "destroy_queue N op port n s \<noteq> None"
    using c [of "queue_cmd op port n 0 0 0"] assms(3) by (auto simp: destroy_queue_def xbind_def split: sum.splits)
qed

lemma ops_return:
  assumes "matches s" "nio N = E"
  shows "run_op N x s \<noteq> None"
proof -
  have ok: "okay (hw s)" "busy (hw s) = 0" using assms(1) by (simp_all add: queues_match_def)
  note q = queue_cmds_return [OF ok assms(2)]
  have q0: "create_queue N op port parent lg (set_cq c y s) \<noteq> None" for op port parent lg c y
    using queue_cmds_return(1) [of "set_cq c y s" N] ok assms(2) by simp
  show ?thesis
  proof (cases x)
    case (OpenEq i irqn sz)
    then show ?thesis using q by (auto simp: eq_open_def Let_def xbind_None log_size_def simp del: not_None_eq split: option.splits)
  next
    case (OpenCq i dest sz)
    then show ?thesis using q by (auto simp: cq_open_def Let_def xbind_None log_size_def simp del: not_None_eq split: option.splits)
  next
    case (OpenSq i c sz)
    then show ?thesis using q0 by (auto simp: sq_open_def Let_def xbind_None log_size_def simp del: not_None_eq split: option.splits)
  next
    case (OpenRq i c sz)
    then show ?thesis using q0 by (auto simp: rq_open_def Let_def xbind_None log_size_def simp del: not_None_eq split: option.splits)
  qed (use q in \<open>auto simp: eq_close_def cq_close_def sq_close_def rq_close_def xbind_None simp del: not_None_eq split: option.splits\<close>)
qed

end

end
