(* ===== verification/CndmSystem.thy ===== *)
theory CndmSystem imports CndmStep begin

text \<open>
  A device with a command processor for queues, and the properties of the mailbox and of the queues.
\<close>

section \<open>A device with queues\<close>

text \<open>The command processor of \<open>cndm_micro_dp_mgr.sv\<close> for create and destroy, with two ports and 32 queues of a
  type.  The device keeps an enable register with a type per port and number, one bank for send and receive queues
  and one for event and completion queues; a create command takes the first register of the port that is off, and
  answers with the number and with the offset of the doorbell, 32 bytes apart, \<open>0x10000\<close> per port.\<close>

type_synonym qregs = "bool \<times> nat \<times> nat \<Rightarrow> qkind option"

definition qkinds :: "qkind list" where "qkinds = [QE, QC, QS, QR]"

definition wq_bank :: "qkind \<Rightarrow> bool" where "wq_bank k \<longleftrightarrow> k = QS \<or> k = QR"

definition q_slot :: "qkind \<Rightarrow> nat \<Rightarrow> nat \<Rightarrow> bool \<times> nat \<times> nat" where "q_slot k p n = (wq_bank k, p, n)"

definition q_bell :: "queue_id \<Rightarrow> int" where
  "q_bell = (\<lambda>(k, p, n). 0x20000 + 0x10000 * int p + (if wq_bank k then 0x0008 else 0x400C) + 32 * n)"

definition q_fail :: "int \<Rightarrow> int list" where "q_fail e = cmd_words cmd_fmt ((replicate 15 0)[1 := e])"

definition qdev :: "int list \<Rightarrow> qregs \<Rightarrow> int list \<times> qregs" where
  "qdev ws c = (let f = unpack_flds cmd_fmt (tobytes ws); p = nat (take_bit 16 (f ! 3)) in
     case find (\<lambda>k. create_op k = f ! 1) qkinds of
       Some k \<Rightarrow> (case find (\<lambda>n. c (q_slot k p n) = None) [0..<32] of
           None \<Rightarrow> (q_fail 0x000C, c)
         | Some n \<Rightarrow> (cmd_words cmd_fmt (f[1 := 0, 4 := int n, 8 := q_bell (k, p, int n)]), c(q_slot k p n := Some k)))
     | None \<Rightarrow> (case find (\<lambda>k. create_op k + 3 = f ! 1) qkinds of
           None \<Rightarrow> (q_fail 0x0016, c)
         | Some k \<Rightarrow> (cmd_words cmd_fmt (f[1 := 0]), c(q_slot k p (nat (take_bit 16 (f ! 4))) := None))))"

definition q_open :: "qregs \<Rightarrow> queue_id set" where
  "q_open c = {(k, p, n). p < 2 \<and> 0 \<le> n \<and> n < 32 \<and> c (q_slot k p (nat n)) = Some k}"

lemma find_create: "find (\<lambda>k. create_op k = create_op k') qkinds = Some k'" "find (\<lambda>k'. create_op k' = create_op k + 3) qkinds = None"
    "find (\<lambda>k'. create_op k' + 3 = create_op k + 3) qkinds = Some k"
  by (cases k'; simp add: qkinds_def) (cases k; simp add: qkinds_def)+

lemma cmd_words_range:
  assumes "fits_fmt cmd_fmt vs"
  shows "length (cmd_words cmd_fmt vs) = 16 \<and> (\<forall>x \<in> set (cmd_words cmd_fmt vs). 0 \<le> x \<and> x < 2 ^ 32)"
proof -
  obtain b where b: "struct_pack cmd_fmt vs = Inr b" using struct_pack_total [OF assms] by blast
  have y: "is_bytes b" "length b = 64" using struct_pack_unpack [OF b] by (simp_all add: cmd_fmt_def)
  have "0 \<le> le_int (take 4 (drop (4 * k) b)) \<and> le_int (take 4 (drop (4 * k) b)) < 2 ^ 32" if "k < 16" for k
  proof -
    have "length (take 4 (drop (4 * k) b)) = 4" using y(2) that by simp
    then show ?thesis using le_int_bounds [of "take 4 (drop (4 * k) b)"] y(1) by (simp add: is_bytes_take_drop)
  qed
  then show ?thesis using b y by (auto simp: cmd_words_def dwords_def ljust64_def)
qed

lemma clip16_same: "length ws = 16 \<and> (\<forall>x \<in> set ws. 0 \<le> x \<and> x < 2 ^ 32) \<Longrightarrow> clip16 ws = ws"
  by (rule nth_equalityI) (auto simp: clip16_def take_bit_int_eq_self)

lemma unpack_cmd: "fits_fmt cmd_fmt vs \<Longrightarrow> unpack_flds cmd_fmt (tobytes (cmd_words cmd_fmt vs)) = vs"
  by (rule cmd_words_fields) (simp_all add: cmd_fmt_def)

definition create_rsp :: "qkind \<Rightarrow> nat \<Rightarrow> int \<Rightarrow> nat \<Rightarrow> int \<Rightarrow> nat \<Rightarrow> int list" where
  "create_rsp k p parent lg base n = (queue_cmd (create_op k) p 0 parent lg base)[1 := 0, 4 := int n, 8 := q_bell (k, p, int n)]"

lemma create_rsp_simps [simp]: "create_rsp k p parent lg base n ! 4 = int n" "create_rsp k p parent lg base n ! 8 = q_bell (k, p, int n)"
  by (simp_all add: create_rsp_def queue_cmd_def)

lemma create_rsp_fits:
  assumes "fits_fmt cmd_fmt (queue_cmd (create_op k) p 0 parent lg base)" "p < 2" "n < 32"
  shows "fits_fmt cmd_fmt (create_rsp k p parent lg base n)"
  using assms by (simp add: cmd_fmt_def queue_cmd_def create_rsp_def q_bell_def)

lemma bell_inj:
  assumes e: "q_bell (k, p, n) = q_bell (k', p', n')" and p: "p < 2" "p' < 2" and n: "0 \<le> n" "n < 32" "0 \<le> n'" "n' < 32"
  shows "q_slot k p (nat n) = q_slot k' p' (nat n')"
proof -
  have "p = 0 \<or> p = 1" "p' = 0 \<or> p' = 1" using p by auto
  then show ?thesis using e n by (elim disjE) (simp_all add: q_bell_def q_slot_def split: if_splits)
qed

lemma soft_create:
  assumes f: "fits_fmt cmd_fmt (queue_cmd (create_op k) p 0 parent lg base)" and p: "p < 2"
    and st: "soft_step qdev (cmd_words cmd_fmt (queue_cmd (create_op k) p 0 parent lg base)) c = (rs, c')"
  shows "case find (\<lambda>n. c (q_slot k p n) = None) [0..<32] of
      None \<Rightarrow> unpack_flds cmd_fmt (tobytes rs) ! 8 = 0 \<and> c' = c
    | Some n \<Rightarrow> n < 32 \<and> c (q_slot k p n) = None \<and> unpack_flds cmd_fmt (tobytes rs) = create_rsp k p parent lg base n \<and> c' = c(q_slot k p n := Some k)"
proof -
  let ?vs = "queue_cmd (create_op k) p 0 parent lg base"
  have v: "?vs ! 1 = create_op k" "nat (take_bit 16 (?vs ! 3)) = p" using p by (simp_all add: queue_cmd_def take_bit_int_eq_self)
  have q: "qdev (cmd_words cmd_fmt ?vs) c = (case find (\<lambda>n. c (q_slot k p n) = None) [0..<32] of
      None \<Rightarrow> (q_fail 0x000C, c)
    | Some n \<Rightarrow> (cmd_words cmd_fmt (create_rsp k p parent lg base n), c(q_slot k p n := Some k)))"
    unfolding qdev_def unpack_cmd [OF f] Let_def v find_create create_rsp_def by simp
  show ?thesis
  proof (cases "find (\<lambda>n. c (q_slot k p n) = None) [0..<32]")
    case None
    have e: "fits_fmt cmd_fmt ((replicate 15 0)[1 := 0x000C])" by (simp add: cmd_fmt_def numeral_eq_Suc)
    have "rs = q_fail 0x000C" "c' = c"
      using st clip16_same [OF cmd_words_range [OF e]] unfolding soft_step_def q None q_fail_def by simp_all
    then show ?thesis using None unpack_cmd [OF e] by (simp add: q_fail_def)
  next
    case (Some n)
    then have n: "n < 32" "c (q_slot k p n) = None" by (auto simp: find_Some_iff)
    note r = create_rsp_fits [OF f p n(1)]
    have "rs = cmd_words cmd_fmt (create_rsp k p parent lg base n)" "c' = c(q_slot k p n := Some k)"
      using st clip16_same [OF cmd_words_range [OF r]] unfolding soft_step_def q Some by simp_all
    then show ?thesis using Some n unpack_cmd [OF r] by simp
  qed
qed

lemma soft_destroy:
  assumes f: "fits_fmt cmd_fmt (queue_cmd (create_op k + 3) p n 0 0 0)" and p: "p < 2" "0 \<le> n" "n < 32"
    and st: "soft_step qdev (cmd_words cmd_fmt (queue_cmd (create_op k + 3) p n 0 0 0)) c = (rs, c')"
  shows "c' = c(q_slot k p (nat n) := None)"
proof -
  let ?vs = "queue_cmd (create_op k + 3) p n 0 0 0"
  have v: "?vs ! 1 = create_op k + 3" "nat (take_bit 16 (?vs ! 3)) = p" "take_bit 16 (?vs ! 4) = n"
    using p by (simp_all add: queue_cmd_def take_bit_int_eq_self)
  have "snd (qdev (cmd_words cmd_fmt ?vs) c) = c(q_slot k p (nat n) := None)"
    unfolding qdev_def unpack_cmd [OF f] Let_def v find_create by simp
  then show ?thesis using st by (simp add: soft_step_def)
qed

lemma q_open_put: "p < 2 \<Longrightarrow> n < 32 \<Longrightarrow> c (q_slot k p n) = None \<Longrightarrow> q_open (c(q_slot k p n := Some k)) = insert (k, p, int n) (q_open c)"
  by (auto simp: q_open_def q_slot_def)

lemma q_open_drop:
  assumes "(k, p, n) \<in> q_open c"
  shows "q_open (c(q_slot k p (nat n) := None)) = q_open c - {(k, p, n)}"
proof (rule set_eqI)
  fix q :: queue_id
  obtain k' p' n' where q: "q = (k', p', n')" by (cases q)
  have c: "c (q_slot k p (nat n)) = Some k" "0 \<le> n" using assms by (simp_all add: q_open_def)
  show "q \<in> q_open (c(q_slot k p (nat n) := None)) \<longleftrightarrow> q \<in> q_open c - {(k, p, n)}"
  proof (cases "q_slot k' p' (nat n') = q_slot k p (nat n)")
    case True
    then show ?thesis using c unfolding q by (auto simp: q_open_def q_slot_def)
  next
    case False
    then show ?thesis unfolding q by (auto simp: q_open_def)
  qed
qed

interpretation qsoft: queue_device "soft_io qdev (\<lambda>_ _ c. c) lat" soft_ok sf_in sf_out sf_left sf_core "soft_step qdev" q_open q_bell "{0, 1}" for lat
proof unfold_locales
  fix port k parent lg base and c c' :: qregs and rs vs
  assume h: "port \<in> {0, 1}" "fits_fmt cmd_fmt (queue_cmd (create_op k) port 0 parent lg base)"
    "soft_step qdev (cmd_words cmd_fmt (queue_cmd (create_op k) port 0 parent lg base)) c = (rs, c')" "unpack_flds cmd_fmt (tobytes rs) = vs"
  then have p: "port < 2" by auto
  note sc = soft_create [OF h(2) p h(3), unfolded h(4)]
  show "vs ! 8 = 0 \<and> q_open c' = q_open c \<or>
      vs ! 8 \<noteq> 0 \<and> vs ! 8 = q_bell (k, port, vs ! 4) \<and> vs ! 8 \<notin> q_bell ` q_open c \<and> q_open c' = insert (k, port, vs ! 4) (q_open c)"
  proof (cases "find (\<lambda>n. c (q_slot k port n) = None) [0..<32]")
    case None
    then show ?thesis using sc by simp
  next
    case (Some n)
    then have n: "n < 32" "c (q_slot k port n) = None" "vs = create_rsp k port parent lg base n" "c' = c(q_slot k port n := Some k)" using sc by simp_all
    have "q_bell (k, port, int n) \<noteq> q_bell q" if "q \<in> q_open c" for q
    proof
      obtain k' p' n' where q: "q = (k', p', n')" by (cases q)
      assume "q_bell (k, port, int n) = q_bell q"
      from bell_inj [OF this [unfolded q] p] n(1,2) show False using that unfolding q q_open_def by auto
    qed
    moreover have "q_bell (k, port, int n) \<noteq> 0" by (simp add: q_bell_def)
    ultimately show ?thesis unfolding n(3,4) using q_open_put [of port n c k, OF p n(1,2)] by auto
  qed
next
  fix port k n and c c' :: qregs and rs
  assume h: "port \<in> {0, 1}" "(k, port, n) \<in> q_open c" "fits_fmt cmd_fmt (queue_cmd (create_op k + 3) port n 0 0 0)"
    "soft_step qdev (cmd_words cmd_fmt (queue_cmd (create_op k + 3) port n 0 0 0)) c = (rs, c')"
  then have "port < 2" "0 \<le> n" "n < 32" by (simp_all add: q_open_def)
  from soft_destroy [OF h(3) this h(4)] q_open_drop [OF h(2)] show "q_open c' = q_open c - {(k, port, n)}" by simp
next
  fix q v and d :: "qregs soft"
  assume "q \<in> q_open (sf_core d)" "soft_ok d" "sf_left d = 0"
  moreover from this(1) have "0x20000 \<le> nat (q_bell q)" by (auto simp: q_open_def q_bell_def)
  ultimately show "soft_ok (mm_write (soft_io qdev (\<lambda>_ _ c. c) lat) (nat (q_bell q)) v d) \<and> sf_left (mm_write (soft_io qdev (\<lambda>_ _ c. c) lat) (nat (q_bell q)) v d) = 0 \<and>
      q_open (sf_core (mm_write (soft_io qdev (\<lambda>_ _ c. c) lat) (nat (q_bell q)) v d)) = q_open (sf_core d)"
    by (simp add: soft_io_def soft_ok_def)
qed

section \<open>The mailbox\<close>

text \<open>C21: On any device that keeps the mailbox protocol, a command of a 64-byte format is carried out exactly once:
  the command processor gets sixteen words that decode to the values of the command, the call returns the decoded
  response, and the mailbox is ready again; values that do not fit raise \<open>struct.error\<close> before the device sees anything.\<close>

theorem mailbox_command:
  assumes "mailbox E okay inp outp busy core step" "okay d" "busy d = 0" "fmt_size fmt = 64"
  shows "if fits_fmt fmt vs
    then \<exists>ws rs c d'. unpack_flds fmt (tobytes ws) = vs \<and> step ws (core d) = (rs, c) \<and>
      command E fmt vs d = Some (Inr (unpack_flds fmt (tobytes rs), d')) \<and> okay d' \<and> busy d' = 0 \<and> core d' = c
    else command E fmt vs d = Some (Inl StructError)"
proof (cases "fits_fmt fmt vs")
  case False
  then show ?thesis using mailbox.command_result(1) [OF assms] by simp
next
  case True
  then show ?thesis using mailbox.command_result(2) [OF assms True] cmd_words_fields [OF True assms(4)] by (auto intro: prod.collapse [symmetric])
qed

definition soft_new :: "'s \<Rightarrow> 's soft" where
  "soft_new c = \<lparr>sf_in = replicate 16 0, sf_out = replicate 16 0, sf_left = 0, sf_core = c\<rparr>"

lemma soft_new_ok: "soft_ok (soft_new c)" "sf_left (soft_new c) = 0" "sf_core (soft_new c) = c"
  by (simp_all add: soft_new_def soft_ok_def)

definition no_queues :: qregs where "no_queues = (\<lambda>_. None)"

lemma find_free: "c (q_slot k p 0) = None \<Longrightarrow> find (\<lambda>n. c (q_slot k p n) = None) [0..<32] = Some 0"
    "c (q_slot k p 0) \<noteq> None \<Longrightarrow> c (q_slot k p 1) = None \<Longrightarrow> find (\<lambda>n. c (q_slot k p n) = None) [0..<32] = Some 1"
proof -
  have "[0..<32] = 0 # 1 # [2..<32 :: nat]" by (simp add: upt_rec)
  then show "c (q_slot k p 0) = None \<Longrightarrow> find (\<lambda>n. c (q_slot k p n) = None) [0..<32] = Some 0"
    "c (q_slot k p 0) \<noteq> None \<Longrightarrow> c (q_slot k p 1) = None \<Longrightarrow> find (\<lambda>n. c (q_slot k p n) = None) [0..<32] = Some 1" by simp_all
qed

text \<open>An event queue on the second port: number zero, doorbell \<open>0x3400c\<close>.\<close>

theorem mailbox_command_witness:
  "\<exists>d'. command (soft_io qdev (\<lambda>_ _ c. c) 2) cmd_fmt (queue_cmd (create_op QE) 1 0 3 8 4096) (soft_new no_queues) =
      Some (Inr ((queue_cmd (create_op QE) 1 0 3 8 4096)[1 := 0, 8 := 0x3400C], d')) \<and> sf_core d' = no_queues((False, 1, 0) := Some QE)"
proof -
  have sz: "fmt_size cmd_fmt = 64" by (simp add: cmd_fmt_def)
  have f: "fits_fmt cmd_fmt (queue_cmd (create_op QE) 1 0 3 8 4096)" by (simp add: cmd_fmt_def queue_cmd_def)
  from mailbox_command [OF soft.mailbox_axioms [of qdev "\<lambda>_ _ c. c" 2] soft_new_ok(1,2) sz, of "queue_cmd (create_op QE) 1 0 3 8 4096" no_queues] f
  obtain ws rs c d' where w: "unpack_flds cmd_fmt (tobytes ws) = queue_cmd (create_op QE) 1 0 3 8 4096" "soft_step qdev ws no_queues = (rs, c)"
    "command (soft_io qdev (\<lambda>_ _ c. c) 2) cmd_fmt (queue_cmd (create_op QE) 1 0 3 8 4096) (soft_new no_queues) = Some (Inr (unpack_flds cmd_fmt (tobytes rs), d'))"
    "sf_core d' = c" by (auto simp: soft_new_ok(3))
  have v: "queue_cmd (create_op QE) 1 0 3 8 4096 ! 1 = create_op QE" "nat (take_bit 16 (queue_cmd (create_op QE) 1 0 3 8 4096 ! 3)) = 1"
    by (simp_all add: queue_cmd_def)
  note ff = find_free(1) [of no_queues QE 1]
  have "no_queues (q_slot QE 1 0) = None" by (simp add: no_queues_def)
  note ff = ff [OF this]
  have q: "qdev ws no_queues = (cmd_words cmd_fmt (create_rsp QE 1 3 8 4096 0), no_queues(q_slot QE 1 0 := Some QE))"
    unfolding qdev_def w(1) Let_def v find_create create_rsp_def using ff by simp
  have r: "fits_fmt cmd_fmt (create_rsp QE 1 3 8 4096 0)" by (rule create_rsp_fits [OF f]) simp_all
  have "rs = cmd_words cmd_fmt (create_rsp QE 1 3 8 4096 0)" "c = no_queues(q_slot QE 1 0 := Some QE)"
    using w(2) clip16_same [OF cmd_words_range [OF r]] unfolding soft_step_def q by simp_all
  moreover have "create_rsp QE 1 3 8 4096 0 = (queue_cmd (create_op QE) 1 0 3 8 4096)[1 := 0, 8 := 0x3400C]"
    by (simp add: create_rsp_def queue_cmd_def q_bell_def wq_bank_def)
  ultimately show ?thesis using w(3,4) unpack_cmd [OF r] by (simp add: q_slot_def wq_bank_def)
qed

definition started :: "'d mmio \<Rightarrow> bytes \<Rightarrow> 'd \<Rightarrow> 'd" where
  "started E cmd d = mm_write E 0x0200 1 (fold (\<lambda>k. mm_write E (0x10000 + k * 4) (dwords (ljust64 cmd) ! k)) [0..<16] d)"

text \<open>C35: The driver waits for the end of a command without a limit: \<open>exec_cmd\<close> does not return exactly when the command
  is no longer than 64 bytes and the busy bit stays set in every read of the control register after the start.\<close>

theorem exec_hangs_iff:
  "exec_cmd E cmd d = None \<longleftrightarrow> length cmd \<le> 64 \<and> (\<forall>n. fst (mm_read E 0x0200 (ctrl_after E n (started E cmd d))) AND 1 \<noteq> 0)"
proof -
  have "poll E x = None \<longleftrightarrow> (\<forall>n. fst (mm_read E 0x0200 (ctrl_after E n x)) AND 1 \<noteq> 0)" for x
    using poll_some [of E x] poll_stops [of E _ x] by (cases "poll E x") auto
  moreover have "length (ljust64 cmd) = 64 \<longleftrightarrow> length cmd \<le> 64" by (auto simp: ljust64_def)
  moreover have "exec_cmd E cmd d = None \<longleftrightarrow> length (ljust64 cmd) = 64 \<and> poll E (started E cmd d) = None"
    by (simp add: exec_cmd_def exec_mbox_cmd_def Let_def started_def split: option.splits)
  ultimately show ?thesis by simp
qed

section \<open>Queues\<close>

text \<open>C4: Against a device that numbers its queues per kind and port and never gives the doorbell of an open queue, no
  sequence of openings and closings of event, completion, send and receive queues, on any of the device's ports, hangs;
  and as long as none raises, the queues that are open in the device are exactly those that the driver holds (each by
  its kind, port and number, with the device's doorbell for it), no two objects of a kind on one port hold the same
  number, and no two objects at all hold the same doorbell.\<close>

theorem queues_in_step:
  assumes "queue_device E okay inp outp busy core step open_qs bell dports" "nio N = E"
    "queues_match okay busy (\<lambda>d. open_qs (core d)) bell dports s" "\<forall>x \<in> set xs. op_there s x"
  shows "xfold (run_op N) xs s \<noteq> None \<and>
    (\<forall>s'. xfold (run_op N) xs s = Some (Inr s') \<longrightarrow> queues_match okay busy (\<lambda>d. open_qs (core d)) bell dports s' \<and> bells_apart s')"
proof
  show "\<forall>s'. xfold (run_op N) xs s = Some (Inr s') \<longrightarrow> queues_match okay busy (\<lambda>d. open_qs (core d)) bell dports s' \<and> bells_apart s'"
    using queue_device.match_ops [OF assms(1,3,2,4)] match_bells_apart by blast
  show "xfold (run_op N) xs s \<noteq> None" using assms(3,4)
  proof (induction xs arbitrary: s)
    case (Cons x xs)
    have r: "run_op N x s \<noteq> None" by (rule queue_device.ops_return [OF assms(1) Cons.prems(1) assms(2)])
    have "xfold (run_op N) xs s1 \<noteq> None" if "run_op N x s = Some (Inr s1)" for s1
    proof -
      have "op_there s x" using Cons.prems(2) by simp
      from queue_device.match_op [OF assms(1) Cons.prems(1) assms(2) this that]
      have m: "queues_match okay busy (\<lambda>d. open_qs (core d)) bell dports s1" and o: "same_objects s s1" by simp_all
      have "\<forall>a\<in>set xs. op_there s1 a" using Cons.prems(2) by (simp add: same_objects_there [OF o])
      then show ?thesis by (rule Cons.IH [OF m])
    qed
    then show ?case using r by (auto simp: xbind_None simp del: not_None_eq)
  qed simp
qed

definition demo_nic :: "qregs soft nenv" where
  "demo_nic = \<lparr>nmem = \<lparr>new_region = length, region_addr = (\<lambda>k. 4096 * int k), region_size = (\<lambda>_. 4096), region_write = (\<lambda>_ _ _ m. Inr m),
       region_head = (\<lambda>_ m. m), dma_read = (\<lambda>_ _ _. []), dma_write = (\<lambda>_ _ m. m)\<rparr>,
     nio = soft_io qdev (\<lambda>_ _ c. c) 2, ring_base = (\<lambda>n _. 0x100000 + 0x10000 * int n)\<rparr>"

text \<open>A driver with event queues on both ports.\<close>

definition demo_drv :: "qregs soft cndm" where
  "demo_drv = \<lparr>hw = soft_new no_queues, packets = \<lparr>free_packets = [], allocated_packets = [], pkt_mem = (\<lambda>_. [])\<rparr>, regions = 0,
     eqs = [eq_new 0, eq_new 1, eq_new 0], cqs = [], sqs = [], rqs = [], ports = []\<rparr>"

lemma demo_drv_match: "queues_match soft_ok sf_left (\<lambda>d. q_open (sf_core d)) q_bell {0, 1} demo_drv"
proof -
  have v: "qview k demo_drv = (if k = QE then [(0, None, None), (1, None, None), (0, None, None)] else [])" for k
    by (cases k) (simp_all add: demo_drv_def eq_new_def)
  have h: "hw demo_drv = soft_new no_queues" by (simp add: demo_drv_def)
  have e: "held_qs demo_drv = {}" by (auto simp: held_qs_def v)
  have "one_each demo_drv" unfolding one_each_def v by (auto simp: less_Suc_eq)
  then show ?thesis unfolding queues_match_def e h by (auto simp: soft_new_ok bells_held_def on_ports_def v q_open_def no_queues_def)
qed

lemma demo_eq_open:
  assumes s: "soft_ok (hw s)" "sf_left (hw s) = 0" "i < length (eqs s)" "eqn (eqs s ! i) = None" "eq_port (eqs s ! i) = p" "p < 2"
    and v: "0 \<le> irqn" "irqn < 2 ^ 32" "regions s < 100" and n: "find (\<lambda>n. sf_core (hw s) (q_slot QE p n) = None) [0..<32] = Some n"
  shows "\<exists>s'. eq_open demo_nic i irqn 256 s = Some (Inr s') \<and> soft_ok (hw s') \<and> sf_left (hw s') = 0 \<and>
    sf_core (hw s') = (sf_core (hw s))(q_slot QE p n := Some QE) \<and>
    qview QE s' = (qview QE s)[i := (p, Some (int n), Some (q_bell (QE, p, int n)))] \<and> regions s' = Suc (regions s)"
proof -
  let ?vs = "queue_cmd (create_op QE) p 0 irqn 8 (ring_base demo_nic (regions s) (2 ^ 8 * 16))"
  let ?r = "create_rsp QE p irqn 8 (ring_base demo_nic (regions s) (2 ^ 8 * 16)) n" and ?b = "q_bell (QE, p, int n)"
  have lg: "bit_length 256 - 1 = 8" by (simp add: bit_length.simps)
  have sz: "fmt_size cmd_fmt = 64" by (simp add: cmd_fmt_def)
  have f: "fits_fmt cmd_fmt ?vs" using v s(6) by (simp add: cmd_fmt_def queue_cmd_def demo_nic_def)
  obtain rs c' where st: "soft_step qdev (cmd_words cmd_fmt ?vs) (sf_core (hw s)) = (rs, c')" by fastforce
  have sc: "unpack_flds cmd_fmt (tobytes rs) = ?r" "c' = (sf_core (hw s))(q_slot QE p n := Some QE)"
    using soft_create [OF f s(6) st] n by simp_all
  have io: "nio demo_nic = soft_io qdev (\<lambda>_ _ c. c) 2" by (simp add: demo_nic_def)
  obtain d where d: "command (nio demo_nic) cmd_fmt ?vs (hw s) = Some (Inr (?r, d))" "soft_ok d" "sf_left d = 0" "sf_core d = c'"
    using soft.command_result(2) [OF s(1,2) sz f, of qdev "\<lambda>_ _ c. c" 2] st sc(1) unfolding io by auto
  have b: "0x20000 \<le> ?b" by (simp add: q_bell_def)
  have cr: "create_queue demo_nic 0x0200 p irqn 8 s = Some (Inr (Some (int n, ?b), s\<lparr>hw := d, regions := regions s + 1\<rparr>))"
    using d(1) b by (simp add: create_queue_def)
  let ?q = "(eqs s ! i)\<lparr>eq_log := 8, eq_buf := replicate (2 ^ 8 * 16) 0, eq_cons := 0, eq_irqn := Some irqn, cq_table := Map.empty,
    eqn := Some (int n), eq_db := Some ?b, eq_enabled := True\<rparr>"
  let ?s = "set_eq i ?q (s\<lparr>hw := d, regions := regions s + 1\<rparr>)"
  have "eq_open demo_nic i irqn 256 s = Some (eq_arm demo_nic i ?s)"
    unfolding eq_open_def Let_def log_size_def lg using s(4,5) cr by simp
  also have "eq_arm demo_nic i ?s = Inr (?s\<lparr>hw := mm_write (nio demo_nic) (nat ?b) (arm_word 0) d\<rparr>)"
    using s(3) by (simp add: eq_arm_def write_db_def set_eq_def)
  finally have e: "eq_open demo_nic i irqn 256 s = Some (Inr (?s\<lparr>hw := mm_write (nio demo_nic) (nat ?b) (arm_word 0) d\<rparr>))" .
  have k: "mm_write (nio demo_nic) (nat ?b) (arm_word 0) d = d"
  proof -
    have "0x20000 \<le> nat ?b" using b by linarith
    then show ?thesis by (simp add: io soft_io_def)
  qed
  have "qview QE ?s = (qview QE s)[i := (p, Some (int n), Some ?b)]"
    using s(3,5) by (simp add: set_eq_def map_update)
  then show ?thesis using e d(2-4) sc(2) unfolding k by (simp add: set_eq_def)
qed

lemma qview_nth: "i < length (eqs s) \<Longrightarrow> qview QE s ! i = (p, x, y) \<Longrightarrow> eq_port (eqs s ! i) = p \<and> eqn (eqs s ! i) = x"
  by simp

text \<open>Three event queues opened, on the ports 0, 1 and 0: both ports number theirs from zero.\<close>

theorem queues_in_step_witness:
  "\<exists>s'. xfold (run_op demo_nic) [OpenEq 0 3 256, OpenEq 1 4 256, OpenEq 2 5 256] demo_drv = Some (Inr s') \<and>
    qview QE s' = [(0, Some 0, Some 0x2400C), (1, Some 0, Some 0x3400C), (0, Some 1, Some 0x2402C)] \<and>
    q_open (sf_core (hw s')) = held_qs s' \<and> one_each s' \<and> bells_apart s'"
proof -
  have d0: "soft_ok (hw demo_drv)" "sf_left (hw demo_drv) = 0" "sf_core (hw demo_drv) = no_queues" "regions demo_drv = 0"
    "qview QE demo_drv = [(0, None, None), (1, None, None), (0, None, None)]"
    by (simp_all add: demo_drv_def soft_new_ok eq_new_def)
  note sl = q_slot_def wq_bank_def no_queues_def q_bell_def
  have l: "length (eqs s) = length (qview QE s)" for s :: "qregs soft cndm" by simp
  have l0: "length (eqs demo_drv) = 3" unfolding l d0(5) by simp
  have a0: "eq_port (eqs demo_drv ! 0) = 0 \<and> eqn (eqs demo_drv ! 0) = None" by (rule qview_nth) (simp add: l0, simp only: d0(5) nth_Cons_0)
  have f0: "find (\<lambda>n. sf_core (hw demo_drv) (q_slot QE 0 n) = None) [0..<32] = Some 0" by (rule find_free(1)) (simp add: d0(3) sl)
  obtain s1 where s1: "eq_open demo_nic 0 3 256 demo_drv = Some (Inr s1)" "soft_ok (hw s1)" "sf_left (hw s1) = 0"
    "sf_core (hw s1) = no_queues(q_slot QE 0 0 := Some QE)" "qview QE s1 = [(0, Some 0, Some 0x2400C), (1, None, None), (0, None, None)]" "regions s1 = 1"
    using demo_eq_open [OF d0(1,2) _ conjunct2 [OF a0] conjunct1 [OF a0] _ _ _ _ f0, of 3] l0 unfolding d0(3-5) by (auto simp: sl(2,4))
  have l1: "length (eqs s1) = 3" unfolding l s1(5) by simp
  have a1: "eq_port (eqs s1 ! 1) = 1 \<and> eqn (eqs s1 ! 1) = None" by (rule qview_nth) (simp add: l1, simp only: s1(5), simp)
  have f1: "find (\<lambda>n. sf_core (hw s1) (q_slot QE 1 n) = None) [0..<32] = Some 0" by (rule find_free(1)) (simp add: s1(4) sl)
  obtain s2 where s2: "eq_open demo_nic 1 4 256 s1 = Some (Inr s2)" "soft_ok (hw s2)" "sf_left (hw s2) = 0"
    "sf_core (hw s2) = no_queues(q_slot QE 0 0 := Some QE, q_slot QE 1 0 := Some QE)"
    "qview QE s2 = [(0, Some 0, Some 0x2400C), (1, Some 0, Some 0x3400C), (0, None, None)]" "regions s2 = 2"
    using demo_eq_open [OF s1(2,3) _ conjunct2 [OF a1] conjunct1 [OF a1] _ _ _ _ f1, of 4] l1 unfolding s1(4-6) by (auto simp: sl(2,4))
  have l2: "length (eqs s2) = 3" unfolding l s2(5) by simp
  have a2: "eq_port (eqs s2 ! 2) = 0 \<and> eqn (eqs s2 ! 2) = None" by (rule qview_nth) (simp add: l2, simp only: s2(5), simp)
  have f2: "find (\<lambda>n. sf_core (hw s2) (q_slot QE 0 n) = None) [0..<32] = Some 1" by (rule find_free(2)) (simp_all add: s2(4) sl)
  obtain s3 where s3: "eq_open demo_nic 2 5 256 s2 = Some (Inr s3)"
    "qview QE s3 = [(0, Some 0, Some 0x2400C), (1, Some 0, Some 0x3400C), (0, Some 1, Some 0x2402C)]"
    using demo_eq_open [OF s2(2,3) _ conjunct2 [OF a2] conjunct1 [OF a2] _ _ _ _ f2, of 5] l2 unfolding s2(4-6) by (auto simp: sl(2,4))
  have io: "nio demo_nic = soft_io qdev (\<lambda>_ _ c. c) 2" by (simp add: demo_nic_def)
  have run: "xfold (run_op demo_nic) [OpenEq 0 3 256, OpenEq 1 4 256, OpenEq 2 5 256] demo_drv = Some (Inr s3)"
    using s1(1) s2(1) s3(1) by simp
  have "\<forall>x \<in> set [OpenEq 0 3 256, OpenEq 1 4 256, OpenEq 2 5 256]. op_there demo_drv x" using l0 by simp
  from queues_in_step [where core = sf_core and open_qs = q_open, OF qsoft.queue_device_axioms io demo_drv_match this]
  have "queues_match soft_ok sf_left (\<lambda>d. q_open (sf_core d)) q_bell {0, 1} s3 \<and> bells_apart s3" using run by blast
  then show ?thesis using run s3(2) unfolding queues_match_def by blast
qed

end
