(* ===== verification/CndmIrq.thy ===== *)
theory CndmIrq imports CndmFlow CndmSystem NicSystem begin

text \<open>
  The properties of the interrupts of the network driver: an event queue is worked off entry by
  entry and armed again, and no interrupt breaks the rings, the completion queues or the pool.
\<close>

section \<open>A driver with one sent packet\<close>

text \<open>Rings of one entry: packet 7 is in the transmit ring, its completion and the event have been written.\<close>

definition irq_nic :: "qregs soft nenv" where
  "irq_nic = demo_nic\<lparr>nmem := flat_mem\<rparr>"

definition irq_sq :: wq where
  "irq_sq = (wq_new 0)\<lparr>wq_ring := \<lparr>q_log = 0, q_prod = 1, q_cons = 0, q_info = [Some 7], q_buf = replicate 16 0\<rparr>, wqn := Some 0, wq_cq := Some 0, wq_db := Some 0x20000\<rparr>"

definition irq_cq :: cq where
  "irq_cq = (cq_new 0)\<lparr>cq_ring := \<lparr>c_log = 0, c_cons = 0, c_buf = replicate 15 0 @ [128]\<rparr>, cqn := Some 5, cq_eq := Some 0, cq_src := Some (Tx, 0), cq_db := Some 0x20014\<rparr>"

definition irq_eq0 :: eq where
  "irq_eq0 = (eq_new 0)\<lparr>eqn := Some 0, eq_irqn := Some 3, eq_buf := [0, 0, 0, 0, 5] @ replicate 10 0 @ [128], cq_table := [5 \<mapsto> 0], eq_db := Some 0x20000\<rparr>"

definition irq_drv :: "qregs soft cndm" where
  "irq_drv = \<lparr>hw = soft_new no_queues, packets = \<lparr>free_packets = [], allocated_packets = [7], pkt_mem = (\<lambda>_. [])\<rparr>, regions = 3,
     eqs = [irq_eq0], cqs = [irq_cq], sqs = [irq_sq], rqs = [], ports = [\<lparr>np_eq = [0], np_rxq = [], np_txq = [0], np_rx_queue = []\<rparr>]\<rparr>"

lemma irq_entries:
  "unpack_from cpl_fmt (c_buf (cq_ring irq_cq)) 0 = Inr [0, 0, 0, 0x80000000]"
  "unpack_from ev_fmt (eq_buf irq_eq0) 0 = Inr [0, 0, 5, 0, 0x80000000]"
  by (simp_all add: irq_cq_def irq_eq0_def unpack_from_def cpl_fmt_def ev_fmt_def numeral_eq_Suc)

lemma synced_one:
  assumes "fmt_size fmt = 16" "length buf = 16" "new_entry fmt 0 buf dv = None"
  shows "synced fmt 0 buf dv"
  unfolding synced_def
proof (intro conjI allI impI)
  fix j assume "dv \<le> j \<and> j < dv + 2 ^ 0"
  then have "j = dv" by simp
  then show "new_entry fmt 0 buf j = None" using assms(3) by (simp only:)
qed (use assms in simp_all)

lemma irq_synced: "synced cpl_fmt 0 (c_buf (cq_ring irq_cq)) 1" "synced ev_fmt 0 (eq_buf irq_eq0) 1"
proof -
  have "new_entry cpl_fmt 0 (c_buf (cq_ring irq_cq)) 1 = None" "new_entry ev_fmt 0 (eq_buf irq_eq0) 1 = None"
    using irq_entries by (simp_all add: new_entry_def ring_idx_def entry_new_def)
  moreover have "fmt_size cpl_fmt = 16" "fmt_size ev_fmt = 16" "length (c_buf (cq_ring irq_cq)) = 16" "length (eq_buf irq_eq0) = 16"
    by (simp_all add: cpl_fmt_def ev_fmt_def irq_cq_def irq_eq0_def)
  ultimately show "synced cpl_fmt 0 (c_buf (cq_ring irq_cq)) 1" "synced ev_fmt 0 (eq_buf irq_eq0) 1" by (blast intro: synced_one)+
qed

lemma irq_chan: "chan (wq_ring irq_sq) (cq_ring irq_cq) 1"
  using irq_synced(1) by (simp add: chan_def irq_sq_def ring_ok_def) (simp add: irq_cq_def)

lemma irq_drv_ok: "drv_ok flat_pages (\<lambda>_. 1) irq_drv"
proof -
  have p: "posted (wq_ring irq_sq) = [7]" by (simp add: irq_sq_def posted_def slot_def)
  have r: "rings irq_drv = [wq_ring irq_sq]" by (simp add: rings_def irq_drv_def)
  have l: "length (cqs irq_drv) = 1" "cqs irq_drv ! 0 = irq_cq" "length (eqs irq_drv) = 1" "eqs irq_drv ! 0 = irq_eq0" by (simp_all add: irq_drv_def)
  have "cq_src irq_cq = Some (Tx, 0)" "cq_db irq_cq \<noteq> None" by (simp_all add: irq_cq_def)
  moreover have "wthere irq_drv (Tx, 0)" "wring irq_drv (Tx, 0) = wq_ring irq_sq" by (simp_all add: irq_drv_def)
  moreover have "cq_table irq_eq0 = [5 \<mapsto> 0]" by (simp add: irq_eq0_def)
  moreover have "pool_ok flat_pages (packets irq_drv) (held_bufs (rings irq_drv))"
    unfolding r by (simp add: held_bufs_def p pool_ok_def) (simp add: irq_drv_def flat_pages_def)
  moreover have "in_bounds (wq_ring irq_sq)" "2 ^ q_log (wq_ring irq_sq) \<le> flat_pages" by (simp_all add: in_bounds_def irq_sq_def flat_pages_def)
  ultimately show ?thesis using irq_chan by (auto simp: drv_ok_def l r split: if_splits)
qed

lemma irq_ready: "eq_ready 1 (eqs irq_drv ! 0)"
proof -
  have q: "eq_log irq_eq0 = 0" "eq_cons irq_eq0 = 0" "eq_db irq_eq0 \<noteq> None" "cq_table irq_eq0 5 = Some 0" by (simp_all add: irq_eq0_def eq_new_def)
  have "unpack_flds ev_fmt (eq_buf irq_eq0) = [0, 0, 5, 0, 0x80000000]" using irq_entries(2) by (simp add: unpack_from_def split: if_splits)
  then have "event_known (cq_table irq_eq0) (entry_at ev_fmt 0 (eq_buf irq_eq0) 0)" by (simp add: entry_at_def ring_idx_def event_known_def q)
  then show ?thesis using irq_synced(2) q by (simp add: eq_ready_def irq_drv_def)
qed

section \<open>Properties\<close>

lemma write_db_eqs: "write_db N db v s = Inr s' \<Longrightarrow> eqs s' = eqs s"
  by (auto simp: write_db_def split: option.splits)

lemma handler_eqs: "cq_handler N c s = Inr s' \<Longrightarrow> eqs s' = eqs s"
  by (auto simp: cq_handler_def process_tx_cq_def process_rx_cq_def rq_refill_def cq_arm_def rq_kick_def Let_def rbind_Inr_iff
      set_cq_def set_sq_def set_rq_def set_rx_queue_def dest!: write_db_eqs split: option.splits prod.splits wq_kind.splits if_splits)

lemma events_eqs: "rfold (eq_event N e) evs s = Inr s' \<Longrightarrow> eqs s' = eqs s"
  by (induction evs arbitrary: s) (auto simp: eq_event_def rbind_Inr_iff dest!: handler_eqs split: option.splits if_splits)

text \<open>C22: The interrupt of an event queue hands its events to the handlers one by one and in the order in which the
  device wrote them, each exactly once and none that was not written; then the consumer pointer is the device's and
  the queue is armed at it.  If a handler raises, the call raises the same.\<close>

theorem process_eq_drains:
  assumes "e < length (eqs s)" "eq_ready ev (eqs s ! e)"
  shows "process_eq N e s =
    rbind (rfold (eq_event N e) (map (\<lambda>j. unpack_flds ev_fmt (drop (j mod 2 ^ eq_log (eqs s ! e) * 16) (eq_buf (eqs s ! e)))) [eq_cons (eqs s ! e)..<ev]) s)
      (\<lambda>s1. write_db N (eq_db (eqs s ! e)) (arm_word ev) (set_eq e ((eqs s ! e)\<lparr>eq_cons := ev\<rparr>) s1))"
proof -
  have "entry_at ev_fmt (eq_log (eqs s ! e)) (eq_buf (eqs s ! e)) = (\<lambda>j. unpack_flds ev_fmt (drop (j mod 2 ^ eq_log (eqs s ! e) * 16) (eq_buf (eqs s ! e))))"
    by (simp add: entry_at_def ring_idx_mod fun_eq_iff)
  moreover have "eq_arm N e (set_eq e ((eqs s1 ! e)\<lparr>eq_cons := ev\<rparr>) s1) =
      write_db N (eq_db (eqs s ! e)) (arm_word ev) (set_eq e ((eqs s ! e)\<lparr>eq_cons := ev\<rparr>) s1)" if "eqs s1 = eqs s" for s1
    using that assms(1) by (simp add: eq_arm_def set_eq_def)
  ultimately show ?thesis unfolding process_eq_fold [OF assms(2)] by (intro rbind_cong) (auto dest: events_eqs)
qed

theorem process_eq_drains_witness:
  "process_eq irq_nic 0 irq_drv = rbind (cq_handler irq_nic 0 irq_drv)
    (\<lambda>s1. write_db irq_nic (Some 0x20000) 0x80000001 (set_eq 0 (irq_eq0\<lparr>eq_cons := 1\<rparr>) s1))"
proof -
  have q: "eqs irq_drv ! 0 = irq_eq0" "0 < length (eqs irq_drv)" "eq_log irq_eq0 = 0" "eq_cons irq_eq0 = 0" "cq_table irq_eq0 5 = Some 0"
    "eq_db irq_eq0 = Some 0x20000" by (simp_all add: irq_eq0_def irq_drv_def eq_new_def)
  have "unpack_flds ev_fmt (eq_buf irq_eq0) = [0, 0, 5, 0, 0x80000000]" using irq_entries(2) by (simp add: unpack_from_def split: if_splits)
  moreover have "arm_word 1 = 0x80000001" by (simp add: arm_word_def)
  ultimately show ?thesis using process_eq_drains [OF q(2) irq_ready, of irq_nic] by (simp add: q eq_event_def rbind_assoc)
qed

text \<open>C5: No interrupt breaks the driver.  From a state in which the packet pool, the rings and the completion queues
  agree, and whatever completions and events the device has written for the queues of that interrupt, the handler
  returns without an error in a state in which they agree again: no buffer is lost, freed twice or in two rings.
  The event queues of that interrupt are worked off and their completion queues too; the others are as before.\<close>

theorem nic_interrupt_safe:
  assumes "dma_memory (nmem N) cap" "drv_ok cap dv s" "\<forall>p < length (ports s). np_eq (ports s ! p) \<noteq> []"
    "eqs_ready ev irqn (concat (map (\<lambda>p. np_eq p) (ports s))) s"
  shows "\<exists>s'. interrupt_handler N irqn s = Inr s' \<and> drv_ok cap dv s' \<and>
    eqs_handled dv ev irqn (concat (map (\<lambda>p. np_eq p) (ports s))) s s'"
proof -
  have m: "map (\<lambda>p. np_eq (ports s ! p)) [0..<length (ports s)] = map (\<lambda>p. np_eq p) (ports s)" by (rule nth_equalityI) simp_all
  from irq_ports_flow [OF assms(1) refl assms(3) assms(2) kept_refl, of "[0..<length (ports s)]" ev irqn] assms(4)
  show ?thesis unfolding m interrupt_handler_def by simp
qed

theorem nic_interrupt_safe_witness:
  "\<exists>s'. interrupt_handler irq_nic 3 irq_drv = Inr s' \<and> drv_ok flat_pages (\<lambda>_. 1) s' \<and> eq_cons (eqs s' ! 0) = 1 \<and> c_cons (cq_ring (cqs s' ! 0)) = 1"
proof -
  have m: "dma_memory (nmem irq_nic) flat_pages" using flat.dma_memory_axioms by (simp add: irq_nic_def)
  have p: "\<forall>p < length (ports irq_drv). np_eq (ports irq_drv ! p) \<noteq> []" "concat (map (\<lambda>p. np_eq p) (ports irq_drv)) = [0]" by (simp_all add: irq_drv_def)
  have r: "eqs_ready (\<lambda>_. 1) 3 [0] irq_drv" using irq_ready by (simp add: eqs_ready_def irq_drv_def)
  from nic_interrupt_safe [OF m irq_drv_ok p(1), unfolded p(2), OF r] obtain s' where
    s: "interrupt_handler irq_nic 3 irq_drv = Inr s'" "drv_ok flat_pages (\<lambda>_. 1) s'" "eqs_handled (\<lambda>_. 1) (\<lambda>_. 1) 3 [0] irq_drv s'" by blast
  have q: "eq_log irq_eq0 = 0" "eq_cons irq_eq0 = 0" "cq_table irq_eq0 5 = Some 0" "eq_irqn irq_eq0 = Some 3" "eqs irq_drv ! 0 = irq_eq0"
    by (simp_all add: irq_eq0_def irq_drv_def eq_new_def)
  have "unpack_flds ev_fmt (eq_buf irq_eq0) = [0, 0, 5, 0, 0x80000000]" using irq_entries(2) by (simp add: unpack_from_def split: if_splits)
  then have "entry_at ev_fmt 0 (eq_buf irq_eq0) 0 = [0, 0, 5, 0, 0x80000000]" by (simp add: entry_at_def ring_idx_def)
  then have "eq_cons (eqs s' ! 0) = 1 \<and> c_cons (cq_ring (cqs s' ! 0)) = 1" using s(3) by (simp add: eqs_handled_def handled_def q)
  then show ?thesis using s by blast
qed

end
