(* ===== verification/BaseX.thy ===== *)
theory BaseX imports BaseR begin

text \<open>
  The 1000BASE-X serial link models (\<open>src/eth/tb/basex.py\<close>): the source that turns frames, idles and
  the configuration register of the autonegotiation into code groups, and the sink that goes the
  other way.  A clock edge is a step function.  The gearbox is that of \<open>Gearbox\<close> with ten bits; the
  8b/10b coder of the source is not implemented there either and changes nothing.
\<close>

section \<open>Running disparity\<close>

text \<open>The tables of the code groups whose halves are not balanced, for the bits of a byte.\<close>

definition rd_flip_3b4b :: "int \<Rightarrow> bool" where "rd_flip_3b4b hgf \<longleftrightarrow> hgf \<in> {0, 4, 7}"

definition rd_flip_5b6b :: "int \<Rightarrow> bool \<Rightarrow> bool" where
  "rd_flip_5b6b edcba k = (if edcba = 28 then k else edcba \<in> {0, 1, 2, 4, 8, 15, 16, 23, 24, 27, 29, 30, 31})"

definition rd_flip_8b10b :: "int \<Rightarrow> bool \<Rightarrow> bool" where
  "rd_flip_8b10b d k \<longleftrightarrow> rd_flip_5b6b (d AND 0x1f) k \<noteq> rd_flip_3b4b (drop_bit 5 d)"

section \<open>Frames\<close>

text \<open>A frame of \<open>cocotbext.eth\<close>, with the empty list for no error list, and the methods of its class:
  the constructor, \<open>normalize\<close> and \<open>compact\<close>.\<close>

record gframe =
  gf_data :: bytes
  gf_error :: "bool list"
  gf_start :: "int option"
  gf_sfd :: "int option"
  gf_end :: "int option"

record gmii_class =
  gm_make :: "bytes \<Rightarrow> bool list \<Rightarrow> gframe"
  gm_normalize :: "gframe \<Rightarrow> gframe"
  gm_compact :: "gframe \<Rightarrow> gframe"

definition gframe_len :: "gframe \<Rightarrow> int" where "gframe_len f = int (length (gf_data f))"

section \<open>Source: state\<close>

record bx_cfg =
  bx_lanes_of :: nat
  bx_reverse :: bool

record gsrc_opts =
  g_dic :: bool
  g_ifg :: int
  g_truncate :: bool
  g_rep :: int
  g_limit_bytes :: int
  g_limit_frames :: int

text \<open>The variables of the loop over the lanes; \<open>gs_pend\<close> is the local \<open>an_cfg\<close>.\<close>

record gsrc =
  gs_queue :: "gframe list"
  gs_active :: bool
  gs_idle_event :: bool
  gs_dequeue_event :: bool
  gs_occ_bytes :: int
  gs_occ_frames :: int
  gs_an_cfg :: "int option"
  gs_frame :: "gframe option"
  gs_offset :: nat
  gs_rd :: bool
  gs_odd :: bool
  gs_ext :: bool
  gs_sof :: bool
  gs_in_pre :: bool
  gs_ifg_cnt :: int
  gs_deficit :: int
  gs_pend :: "int list"
  gs_phase :: bool
  gs_rep_cnt :: int
  gs_done :: "gframe list"

record bx_src =
  xs_lane :: gsrc
  xs_opts :: gsrc_opts
  xs_gbx :: gbx
  xs_clk_period :: int
  xs_last_clk :: int
  xs_gbx_delay :: int

text \<open>What the source drives.\<close>

record bx_bus =
  xb_data :: int
  xb_k :: int
  xb_valid :: bool
  xb_sync :: bool

definition gsrc_new :: gsrc where
  "gsrc_new = \<lparr>gs_queue = [], gs_active = False, gs_idle_event = True, gs_dequeue_event = False, gs_occ_bytes = 0, gs_occ_frames = 0,
     gs_an_cfg = None, gs_frame = None, gs_offset = 0, gs_rd = False, gs_odd = False, gs_ext = False, gs_sof = False, gs_in_pre = False,
     gs_ifg_cnt = 0, gs_deficit = 0, gs_pend = [], gs_phase = False, gs_rep_cnt = 0, gs_done = []\<rparr>"

definition bx_src_new :: bx_src where
  "bx_src_new = \<lparr>xs_lane = gsrc_new,
     xs_opts = \<lparr>g_dic = True, g_ifg = 12, g_truncate = False, g_rep = 0, g_limit_bytes = -1, g_limit_frames = -1\<rparr>,
     xs_gbx = gbx_new 10, xs_clk_period = 0, xs_last_clk = 0, xs_gbx_delay = 0\<rparr>"

definition bx_bus_idle :: bx_bus where "bx_bus_idle = \<lparr>xb_data = 0, xb_k = 0, xb_valid = False, xb_sync = False\<rparr>"

section \<open>Source: operations\<close>

definition bx_src_set_gbx :: "nat option \<Rightarrow> int list option \<Rightarrow> bx_src \<Rightarrow> bx_src \<times> unit result" where
  "bx_src_set_gbx seq_len seq_stall s = (let (g, r) = set_gbx_cfg_src 10 seq_len seq_stall (xs_gbx s) in (s\<lparr>xs_gbx := g\<rparr>, r))"

definition gsrc_full :: "gsrc_opts \<Rightarrow> gsrc \<Rightarrow> bool" where
  "gsrc_full opts s \<longleftrightarrow>
     (if g_limit_bytes opts > 0 \<and> gs_occ_bytes s > g_limit_bytes opts then True
      else g_limit_frames opts > 0 \<and> gs_occ_frames s > g_limit_frames opts)"

definition gsrc_put :: "gframe \<Rightarrow> gsrc \<Rightarrow> gsrc" where
  "gsrc_put f s = s\<lparr>gs_queue := gs_queue s @ [f], gs_idle_event := False,
     gs_occ_bytes := gs_occ_bytes s + gframe_len f, gs_occ_frames := gs_occ_frames s + 1\<rparr>"

definition gsrc_send_nowait :: "gsrc_opts \<Rightarrow> gframe \<Rightarrow> gsrc \<Rightarrow> gsrc result" where
  "gsrc_send_nowait opts f s = (if gsrc_full opts s then Inl QueueFull else Inr (gsrc_put f s))"

text \<open>One turn of \<open>send\<close>: while the queue is full it clears the event and waits.\<close>

definition gsrc_send_turn :: "gsrc_opts \<Rightarrow> gframe \<Rightarrow> gsrc \<Rightarrow> gsrc \<times> bool" where
  "gsrc_send_turn opts f s = (if gsrc_full opts s then (s\<lparr>gs_dequeue_event := False\<rparr>, False) else (gsrc_put f s, True))"

definition gsrc_count :: "gsrc \<Rightarrow> nat" where "gsrc_count s = length (gs_queue s)"

definition gsrc_empty :: "gsrc \<Rightarrow> bool" where "gsrc_empty s \<longleftrightarrow> gs_queue s = []"

definition gsrc_idle :: "gsrc \<Rightarrow> bool" where "gsrc_idle s \<longleftrightarrow> gsrc_empty s \<and> \<not> gs_active s"

definition gsrc_clear :: "gsrc \<Rightarrow> gsrc" where
  "gsrc_clear s = s\<lparr>gs_done := gs_done s @ map (\<lambda>f. f\<lparr>gf_end := None\<rparr>) (gs_queue s), gs_queue := [],
     gs_dequeue_event := True, gs_idle_event := True, gs_occ_bytes := 0, gs_occ_frames := 0, gs_an_cfg := None\<rparr>"

definition set_gmii_rep_count :: "int \<Rightarrow> bx_src \<Rightarrow> bx_src" where
  "set_gmii_rep_count rep s = s\<lparr>xs_opts := (xs_opts s)\<lparr>g_rep := rep\<rparr>\<rparr>"

definition get_gmii_rep_count :: "bx_src \<Rightarrow> int" where "get_gmii_rep_count s = g_rep (xs_opts s)"

definition set_an_cfg :: "int option \<Rightarrow> gsrc \<Rightarrow> gsrc" where "set_an_cfg cfg s = s\<lparr>gs_an_cfg := cfg\<rparr>"

section \<open>Source: one lane\<close>

text \<open>The code group of an idle, or the carrier extension after a frame.\<close>

definition idle_code :: "gsrc \<Rightarrow> int \<times> bool" where
  "idle_code s = (if gs_ext s then (0xF7, True) else if \<not> gs_odd s then (0xBC, True) else if gs_rd s then (0xC5, False) else (0x50, False))"

definition end_ext :: "gsrc \<Rightarrow> gsrc" where "end_ext s = (if gs_ext s \<and> gs_odd s then s\<lparr>gs_ext := False\<rparr> else s)"

definition take_frame :: "eth_consts \<Rightarrow> gmii_class \<Rightarrow> gsrc_opts \<Rightarrow> int \<Rightarrow> gsrc \<Rightarrow> gsrc result" where
  "take_frame K C opts t s = (case gs_queue s of
     [] \<Rightarrow> Inr (s\<lparr>gs_active := False, gs_idle_event := True\<rparr>)
   | f # rest \<Rightarrow>
       let f1 = gm_normalize C (f\<lparr>gf_start := Some t, gf_sfd := None, gf_end := None\<rparr>) in
       if gf_data f1 = [] then Inl IndexError
       else if hd (gf_data f1) \<noteq> pre_byte K then Inl AssertionError
       else Inr (s\<lparr>gs_queue := rest, gs_dequeue_event := True, gs_occ_bytes := gs_occ_bytes s - gframe_len f, gs_occ_frames := gs_occ_frames s - 1,
              gs_frame := Some f1, gs_deficit := (if g_dic opts then gs_ifg_cnt s else gs_deficit s), gs_ifg_cnt := 0,
              gs_active := True, gs_offset := 0, gs_sof := True, gs_in_pre := True\<rparr>))"

text \<open>Between frames: start one, or count the gap.\<close>

definition count_gap :: "gsrc \<Rightarrow> gsrc" where
  "count_gap s = (if gs_frame s \<noteq> None \<or> gs_rep_cnt s > 0 then s
     else if gs_ifg_cnt s > 0 then s\<lparr>gs_ifg_cnt := gs_ifg_cnt s - 1\<rparr>
     else if gs_deficit s > 0 then s\<lparr>gs_deficit := gs_deficit s - 1\<rparr> else s)"

definition between_frames :: "eth_consts \<Rightarrow> gmii_class \<Rightarrow> gsrc_opts \<Rightarrow> int \<Rightarrow> gsrc \<Rightarrow> gsrc result" where
  "between_frames K C opts t s =
     (if gs_frame s \<noteq> None then Inr s
      else rbind (if gs_ifg_cnt s > 1 \<or> (\<not> g_dic opts \<and> gs_ifg_cnt s > 0) \<or> gs_odd s \<or> gs_rep_cnt s \<noteq> 0 then Inr s
                  else take_frame K C opts t s) (\<lambda>s1. Inr (count_gap s1)))"

text \<open>The code group of a frame.\<close>

definition frame_code :: "eth_consts \<Rightarrow> gsrc_opts \<Rightarrow> int \<Rightarrow> gframe \<Rightarrow> gsrc \<Rightarrow> ((int \<times> bool) \<times> gsrc) result" where
  "frame_code K opts t f s =
     (let off = (if gs_rep_cnt s = 0 \<and> \<not> gs_sof s then gs_offset s + 1 else gs_offset s); s1 = s\<lparr>gs_offset := off, gs_sof := False\<rparr> in
      if gs_sof s
      then Inr ((x_start K, True), if g_truncate opts then (if g_rep opts \<noteq> 0 then s1\<lparr>gs_rep_cnt := g_rep opts\<rparr> else s1\<lparr>gs_offset := off + 1\<rparr>) else s1)
      else if length (gf_data f) \<le> off
      then Inr ((x_term K, True), s1\<lparr>gs_ext := True, gs_ifg_cnt := max (g_ifg opts + gs_deficit s - 1) 0,
             gs_done := gs_done s @ [f\<lparr>gf_end := Some t\<rparr>], gs_frame := None\<rparr>)
      else let d = gf_data f ! off;
               f1 = (if gf_sfd f = None \<and> \<not> gs_in_pre s then f\<lparr>gf_sfd := Some t\<rparr> else f);
               s2 = s1\<lparr>gs_frame := Some f1, gs_in_pre := (if d = sfd_byte K \<and> (g_rep opts = 0 \<or> gs_rep_cnt s = 1) then False else gs_in_pre s)\<rparr>
           in rbind (py_get (gf_error f) (int off)) (\<lambda>e. Inr (if e then (x_error K, True) else (d, False), s2)))"

definition lane_code :: "eth_consts \<Rightarrow> gsrc_opts \<Rightarrow> int \<Rightarrow> int \<times> bool \<Rightarrow> gsrc \<Rightarrow> ((int \<times> bool) \<times> gsrc) result" where
  "lane_code K opts t idle s = (case gs_pend s of
     b # bs \<Rightarrow> Inr ((b, False), s\<lparr>gs_pend := bs\<rparr>)
   | [] \<Rightarrow> (case gs_frame s of
       Some f \<Rightarrow> frame_code K opts t f s
     | None \<Rightarrow> (case gs_an_cfg s of
         Some v \<Rightarrow> if gs_odd s
           then Inr ((if gs_phase s then 0x42 else 0xb5, False), s\<lparr>gs_pend := [v AND 0xff, drop_bit 8 v AND 0xff], gs_phase := \<not> gs_phase s\<rparr>)
           else Inr (idle, s)
       | None \<Rightarrow> Inr (idle, s))))"

definition end_lane :: "gsrc_opts \<Rightarrow> int \<times> bool \<Rightarrow> gsrc \<Rightarrow> gsrc" where
  "end_lane opts c s = (let s1 = s\<lparr>gs_odd := \<not> gs_odd s, gs_rd := (gs_rd s \<noteq> rd_flip_8b10b (fst c) (snd c))\<rparr> in
     if gs_rep_cnt s1 > 0 then s1\<lparr>gs_rep_cnt := gs_rep_cnt s1 - 1\<rparr>
     else if g_rep opts \<noteq> 0 \<and> (gs_odd s1 \<or> gs_frame s1 \<noteq> None) then s1\<lparr>gs_rep_cnt := g_rep opts\<rparr> else s1)"

definition src_lane :: "eth_consts \<Rightarrow> gmii_class \<Rightarrow> gsrc_opts \<Rightarrow> int \<Rightarrow> gsrc \<Rightarrow> ((int \<times> bool) \<times> gsrc) result" where
  "src_lane K C opts t s =
     rbind (between_frames K C opts t (end_ext s)) (\<lambda>s1.
     rbind (lane_code K opts t (idle_code s) s1) (\<lambda>(c, s2). Inr (c, end_lane opts c s2)))"

section \<open>Source: clock edge\<close>

definition src_lanes :: "eth_consts \<Rightarrow> gmii_class \<Rightarrow> gsrc_opts \<Rightarrow> (nat \<Rightarrow> int) \<Rightarrow> nat \<Rightarrow> gsrc \<Rightarrow> ((int \<times> bool) list \<times> gsrc) result" where
  "src_lanes K C opts time n s =
     rfold (\<lambda>k (cs, s). rbind (src_lane K C opts (time k) s) (\<lambda>(c, s'). Inr (cs @ [c], s'))) [0..<n] ([], s)"

definition word_of :: "(int \<times> bool) list \<Rightarrow> int" where
  "word_of cs = fold (\<lambda>k w. w OR push_bit (8 * k) (fst (cs ! k))) [0..<length cs] 0"

definition k_bits :: "(int \<times> bool) list \<Rightarrow> int" where
  "k_bits cs = fold (\<lambda>k w. w OR push_bit k (of_bool (snd (cs ! k)))) [0..<length cs] 0"

text \<open>The reversal of the control bits shifts by \<open>1-i\<close>: a set bit above the second raises.\<close>

definition k_reverse :: "nat \<Rightarrow> int \<Rightarrow> int result" where
  "k_reverse n x = (if \<exists>i \<in> {2..<n}. bit x i then Inl ValueError
     else Inr (sum_list (map (\<lambda>i. if bit x i then push_bit (1 - i) 1 else 0) [0..<min n 2])))"

definition bx_time :: "bx_cfg \<Rightarrow> int \<Rightarrow> int \<Rightarrow> int \<Rightarrow> nat \<Rightarrow> int" where
  "bx_time c sim_time clk_period delay k = sim_time + clk_period div int (bx_lanes_of c) * int k + delay"

definition bx_src_step :: "eth_consts \<Rightarrow> gmii_class \<Rightarrow> bx_cfg \<Rightarrow> int \<Rightarrow> bool \<Rightarrow> bx_src \<times> bx_bus \<Rightarrow> (bx_src \<times> bx_bus) result" where
  "bx_src_step K C c sim_time enable = (\<lambda>(s, b).
     let s1 = s\<lparr>xs_clk_period := (if xs_last_clk s \<noteq> 0 then sim_time - xs_last_clk s else xs_clk_period s), xs_last_clk := sim_time\<rparr>
     in if \<not> enable then Inr (s1, b)
     else
       let (g, stall, sync, delay) = gbx_src_tick (xs_clk_period s1) (xs_gbx_delay s1) (xs_gbx s1);
           s2 = s1\<lparr>xs_gbx := g, xs_gbx_delay := delay\<rparr>
       in if stall then Inr (s2, \<lparr>xb_data = 0, xb_k = 0, xb_valid = False, xb_sync = sync\<rparr>)
       else rbind (src_lanes K C (xs_opts s2) (bx_time c sim_time (xs_clk_period s2) (- delay)) (bx_lanes_of c) (xs_lane s2)) (\<lambda>(cs, l).
         let w = 8 * bx_lanes_of c in
         rbind (if bx_reverse c then k_reverse (bx_lanes_of c) (k_bits cs) else Inr (k_bits cs)) (\<lambda>k.
         Inr (s2\<lparr>xs_lane := l\<rparr>,
           \<lparr>xb_data = (if bx_reverse c then bit_reverse w (word_of cs) else word_of cs) AND (2 ^ w - 1), xb_k = k, xb_valid = True, xb_sync = sync\<rparr>))))"

section \<open>Sink\<close>

text \<open>\<open>gk_an\<close> is the local \<open>an_cfg\<close>, the bytes of a configuration register so far.\<close>

record gsink =
  gk_queue :: "gframe list"
  gk_occ_bytes :: int
  gk_occ_frames :: int
  gk_active_event :: bool
  gk_frame :: "gframe option"
  gk_in_pre :: bool
  gk_odd :: bool
  gk_skip :: int
  gk_an :: "int list option"
  gk_last_an :: int
  gk_an_cfg :: "int option"
  gk_ability :: int
  gk_ack :: int
  gk_idle :: int

record bx_sink =
  xk_lane :: gsink
  xk_rep :: int
  xk_gbx :: gbx
  xk_clk_period :: int
  xk_last_clk :: int
  xk_gbx_delay :: int
  xk_sync_bad :: bool
  xk_req_sync :: bool
  xk_req_stall :: bool

definition gsink_new :: gsink where
  "gsink_new = \<lparr>gk_queue = [], gk_occ_bytes = 0, gk_occ_frames = 0, gk_active_event = False, gk_frame = None, gk_in_pre = False,
     gk_odd = False, gk_skip = 0, gk_an = None, gk_last_an = 0, gk_an_cfg = None, gk_ability = 0, gk_ack = 0, gk_idle = 0\<rparr>"

definition bx_sink_new :: bx_sink where
  "bx_sink_new = \<lparr>xk_lane = gsink_new, xk_rep = 0, xk_gbx = gbx_new 10, xk_clk_period = 0, xk_last_clk = 0, xk_gbx_delay = 0,
     xk_sync_bad = True, xk_req_sync = False, xk_req_stall = False\<rparr>"

definition bx_sink_set_gbx :: "nat option \<Rightarrow> int list option \<Rightarrow> bx_sink \<Rightarrow> bx_sink \<times> unit result" where
  "bx_sink_set_gbx seq_len seq_stall s = (let (g, r) = set_gbx_cfg_sink 10 seq_len seq_stall (xk_gbx s) in (s\<lparr>xk_gbx := g\<rparr>, r))"

definition sink_set_rep :: "int \<Rightarrow> bx_sink \<Rightarrow> bx_sink" where "sink_set_rep rep s = s\<lparr>xk_rep := rep\<rparr>"

definition sink_get_rep :: "bx_sink \<Rightarrow> int" where "sink_get_rep s = xk_rep s"

definition get_an_cfg :: "gsink \<Rightarrow> int option \<times> gsink" where "get_an_cfg l = (gk_an_cfg l, l\<lparr>gk_an_cfg := None\<rparr>)"

definition get_an_ability_match :: "gsink \<Rightarrow> bool" where "get_an_ability_match l \<longleftrightarrow> gk_ability l > 2"
definition get_an_ack_match :: "gsink \<Rightarrow> bool" where "get_an_ack_match l \<longleftrightarrow> gk_ack l > 2"
definition get_an_idle_match :: "gsink \<Rightarrow> bool" where "get_an_idle_match l \<longleftrightarrow> gk_idle l > 2"

definition gsink_recv_nowait :: "gmii_class \<Rightarrow> bool \<Rightarrow> gsink \<Rightarrow> (gframe \<times> gsink) result" where
  "gsink_recv_nowait C do_compact l =
     (case gk_queue l of [] \<Rightarrow> Inl QueueEmpty
      | f # rest \<Rightarrow> Inr (if do_compact then gm_compact C f else f,
          l\<lparr>gk_queue := rest, gk_active_event := (if rest = [] then False else gk_active_event l),
            gk_occ_bytes := gk_occ_bytes l - gframe_len f, gk_occ_frames := gk_occ_frames l - 1\<rparr>))"

definition gsink_count :: "gsink \<Rightarrow> nat" where "gsink_count l = length (gk_queue l)"

definition gsink_empty :: "gsink \<Rightarrow> bool" where "gsink_empty l \<longleftrightarrow> gk_queue l = []"

definition gsink_clear :: "gsink \<Rightarrow> gsink" where
  "gsink_clear l = l\<lparr>gk_queue := [], gk_active_event := False, gk_occ_bytes := 0, gk_occ_frames := 0\<rparr>"

section \<open>Sink: one lane\<close>

text \<open>In a frame; a control character ends it.\<close>

definition rx_frame :: "eth_consts \<Rightarrow> gmii_class \<Rightarrow> int \<Rightarrow> gframe \<Rightarrow> int \<times> bool \<Rightarrow> gsink \<Rightarrow> gsink" where
  "rx_frame K C t f = (\<lambda>(d, kv) l.
     if kv
     then let f1 = (if d \<noteq> x_term K then f\<lparr>gf_data := gf_data f @ [d], gf_error := gf_error f @ [True]\<rparr> else f);
              f2 = (gm_compact C f1)\<lparr>gf_end := Some t\<rparr>
          in l\<lparr>gk_occ_bytes := gk_occ_bytes l + gframe_len f2, gk_occ_frames := gk_occ_frames l + 1,
               gk_queue := gk_queue l @ [f2], gk_active_event := True, gk_frame := None\<rparr>
     else if gk_skip l = 0 \<or> (gk_in_pre l \<and> d = sfd_byte K)
     then let f1 = (if gf_sfd f = None \<and> \<not> gk_in_pre l then f\<lparr>gf_sfd := Some t\<rparr> else f)
          in l\<lparr>gk_skip := 0, gk_in_pre := (if d = sfd_byte K then False else gk_in_pre l),
               gk_frame := Some (f1\<lparr>gf_data := gf_data f1 @ [d], gf_error := gf_error f1 @ [False]\<rparr>)\<rparr>
     else l)"

text \<open>In a configuration register.\<close>

definition rx_config :: "int list \<Rightarrow> int \<times> bool \<Rightarrow> gsink \<Rightarrow> gsink" where
  "rx_config a = (\<lambda>(d, kv) l0. let l = l0\<lparr>gk_idle := 0\<rparr> in
     if kv then l\<lparr>gk_an := None\<rparr>
     else if length (a @ [d]) = 2
     then let v = (a @ [d]) ! 0 OR push_bit 8 ((a @ [d]) ! 1) in
       l\<lparr>gk_ability := (if (gk_last_an l XOR v) AND NOT 0x4000 = 0 then gk_ability l + 1 else 0),
         gk_ack := (if gk_last_an l = v \<and> v AND 0x4000 \<noteq> 0 then gk_ack l + 1 else 0),
         gk_last_an := v, gk_an_cfg := Some v, gk_an := None\<rparr>
     else l\<lparr>gk_an := Some (a @ [d])\<rparr>)"

text \<open>Outside of both; the flag says that the match counters are cleared.\<close>

definition rx_idle :: "eth_consts \<Rightarrow> gmii_class \<Rightarrow> int \<Rightarrow> int \<times> bool \<Rightarrow> gsink \<Rightarrow> gsink \<times> bool" where
  "rx_idle K C t = (\<lambda>(d, kv) l.
     if kv
     then (if d = 0xBC then (l\<lparr>gk_odd := False\<rparr>, False)
           else if d = x_start K \<and> \<not> gk_odd l
           then (l\<lparr>gk_frame := Some ((gm_make C [pre_byte K] [False])\<lparr>gf_start := Some t\<rparr>), gk_in_pre := True, gk_skip := 0\<rparr>, True)
           else (l, True))
     else if d = 0xb5 \<or> d = 0x42 then (l\<lparr>gk_an := Some []\<rparr>, False)
     else (l\<lparr>gk_ability := 0, gk_ack := 0, gk_idle := gk_idle l + 1\<rparr>, False))"

definition rx_code :: "eth_consts \<Rightarrow> gmii_class \<Rightarrow> int \<Rightarrow> int \<times> bool \<Rightarrow> gsink \<Rightarrow> gsink \<times> bool" where
  "rx_code K C t c l = (case gk_frame l of Some f \<Rightarrow> (rx_frame K C t f c l, True)
     | None \<Rightarrow> (case gk_an l of Some a \<Rightarrow> (rx_config a c l, False) | None \<Rightarrow> rx_idle K C t c l))"

definition rx_lane :: "eth_consts \<Rightarrow> gmii_class \<Rightarrow> int \<Rightarrow> int \<Rightarrow> int \<times> bool \<Rightarrow> gsink \<Rightarrow> gsink" where
  "rx_lane K C rep t c l =
     (let (l1, reset) = rx_code K C t c l;
          l2 = (if gk_skip l1 > 0 then l1\<lparr>gk_skip := gk_skip l1 - 1\<rparr> else if rep \<noteq> 0 then l1\<lparr>gk_skip := rep\<rparr> else l1);
          l3 = (if reset then l2\<lparr>gk_ability := 0, gk_ack := 0, gk_idle := 0\<rparr> else l2)
      in l3\<lparr>gk_odd := \<not> gk_odd l3\<rparr>)"

section \<open>Sink: clock edge\<close>

definition lane_of :: "int \<Rightarrow> int \<Rightarrow> nat \<Rightarrow> int \<times> bool" where
  "lane_of data data_k k = (drop_bit (8 * k) data AND 0xff, drop_bit k data_k AND 1 \<noteq> 0)"

definition rx_lanes :: "eth_consts \<Rightarrow> gmii_class \<Rightarrow> int \<Rightarrow> (nat \<Rightarrow> int) \<Rightarrow> nat \<Rightarrow> int \<Rightarrow> int \<Rightarrow> gsink \<Rightarrow> gsink" where
  "rx_lanes K C rep time n data data_k l = fold (\<lambda>k. rx_lane K C rep (time k) (lane_of data data_k k)) [0..<n] l"

text \<open>What the sink samples; an absent signal is \<open>None\<close>, and 0 for \<open>data_k\<close>.\<close>

record bx_in =
  xi_data :: int
  xi_k :: int
  xi_valid :: "bool option"
  xi_sync :: "bool option"

definition bx_sink_step :: "eth_consts \<Rightarrow> gmii_class \<Rightarrow> bx_cfg \<Rightarrow> int \<Rightarrow> bool \<Rightarrow> bx_in \<Rightarrow> bx_sink \<Rightarrow> bx_sink result" where
  "bx_sink_step K C c sim_time enable i s =
     (let s1 = s\<lparr>xk_clk_period := (if xk_last_clk s \<noteq> 0 then sim_time - xk_last_clk s else xk_clk_period s), xk_last_clk := sim_time\<rparr>
      in if \<not> enable then Inr s1
      else
        let (g, req_sync, req_stall, stall, delay) = gbx_sink_tick (xk_clk_period s1) (xk_gbx_delay s1) (xi_sync i) (xk_gbx s1);
            s2 = s1\<lparr>xk_gbx := g, xk_gbx_delay := delay,
                    xk_req_sync := (if gbx_on g then req_sync else xk_req_sync s1),
                    xk_req_stall := (if gbx_on g then req_stall else xk_req_stall s1)\<rparr>
        in if stall then Inr s2
        else if xi_valid i = Some False then Inr (s2\<lparr>xk_sync_bad := (if gbx_on g then True else xk_sync_bad s2)\<rparr>)
        else
          let s3 = s2\<lparr>xk_sync_bad := False\<rparr>;
              data = (if bx_reverse c then bit_reverse (8 * bx_lanes_of c) (xi_data i) else xi_data i)
          in rbind (if bx_reverse c then k_reverse (bx_lanes_of c) (xi_k i) else Inr (xi_k i)) (\<lambda>k.
             Inr (s3\<lparr>xk_lane := rx_lanes K C (xk_rep s3) (bx_time c sim_time (xk_clk_period s3) (xk_gbx_delay s3)) (bx_lanes_of c) data k (xk_lane s3)\<rparr>)))"

end
