(* ===== verification/BaseXLink.thy ===== *)
theory BaseXLink imports BaseX "HOL-Library.Sublist" begin

text \<open>
  The lanes of the 1000BASE-X link: one code group from the source to the sink keeps both in step,
  with repeated bytes (SGMII at lower rates), truncated preambles and configuration registers.
\<close>

section \<open>Frames on the wire\<close>

text \<open>The start code group stands for the first byte of the preamble; a truncated preamble loses one more.\<close>

definition wire_skip :: "gsrc_opts \<Rightarrow> nat" where "wire_skip opts = (if g_truncate opts \<and> g_rep opts = 0 then 2 else 1)"

definition wire :: "gsrc_opts \<Rightarrow> bytes \<Rightarrow> bytes" where "wire opts d = take 1 d @ drop (wire_skip opts) d"

definition good_data :: "eth_consts \<Rightarrow> gframe \<Rightarrow> bool" where
  "good_data K f \<longleftrightarrow> gf_data f \<noteq> [] \<and> hd (gf_data f) = pre_byte K \<and> is_bytes (gf_data f) \<and> gf_error f = replicate (length (gf_data f)) False"

definition bx_consts_ok :: "eth_consts \<Rightarrow> bool" where
  "bx_consts_ok K \<longleftrightarrow> is_bytes [pre_byte K, sfd_byte K, x_start K, x_term K] \<and> pre_byte K \<noteq> sfd_byte K \<and> x_start K \<noteq> 0xBC \<and> x_start K \<noteq> 0xF7"

definition no_errors :: "gframe \<Rightarrow> bool" where "no_errors f \<longleftrightarrow> (\<forall>e \<in> set (gf_error f). \<not> e)"

locale gmii_laws =
  fixes K :: eth_consts and C :: gmii_class
  assumes K_ok: "bx_consts_ok K"
    and make: "gf_data (gm_make C d e) = d" "gf_error (gm_make C d e) = e"
    and compact: "no_errors f \<Longrightarrow> gf_data (gm_compact C f) = gf_data f" "no_errors f \<Longrightarrow> no_errors (gm_compact C f)"
    and normalize: "gf_data (gm_normalize C (f\<lparr>gf_start := a, gf_sfd := b, gf_end := c\<rparr>)) = gf_data (gm_normalize C f)"
      "gf_error (gm_normalize C (f\<lparr>gf_start := a, gf_sfd := b, gf_end := c\<rparr>)) = gf_error (gm_normalize C f)"

section \<open>Source and sink in step\<close>

text \<open>The bytes of a configuration register that are still to be sent, and those that have arrived.\<close>

inductive pend_link :: "int set \<Rightarrow> bool \<Rightarrow> int list \<Rightarrow> int list option \<Rightarrow> bool" for V where
  Nothing: "pend_link V od [] None"
| Two: "is_bytes [a, b] \<Longrightarrow> a OR push_bit 8 b \<in> V \<Longrightarrow> pend_link V False [a, b] (Some [])"
| One: "is_bytes [a, b] \<Longrightarrow> a OR push_bit 8 b \<in> V \<Longrightarrow> pend_link V True [b] (Some [a])"

inductive_cases pend_none: "pend_link V od [] an"
inductive_cases pend_some: "pend_link V od (b # bs) an"

text \<open>In a frame: \<open>m\<close> bytes behind the first have arrived; the byte on the wire is the last of them, or is still
  to be taken at a later copy.\<close>

definition mid :: "eth_consts \<Rightarrow> gsrc_opts \<Rightarrow> bytes \<Rightarrow> nat \<Rightarrow> int \<Rightarrow> gsink \<Rightarrow> bool" where
  "mid K opts d off p l \<longleftrightarrow> (let k0 = wire_skip opts in
     \<exists>g m. gk_frame l = Some g \<and> gf_data g = take 1 d @ take m (drop k0 d) \<and> no_errors g \<and>
       (gk_in_pre l \<longrightarrow> sfd_byte K \<notin> set (take m (drop k0 d))) \<and> (0 < p \<longrightarrow> off < length d) \<and> (k0 = 2 \<longrightarrow> p = 0) \<and>
       (off + 1 = k0 + m \<and> p \<le> gk_skip l \<and> gk_skip l \<le> p + g_rep opts \<or>
        off = k0 + m \<and> 0 \<le> gk_skip l \<and> gk_skip l < p \<and> (d ! off = sfd_byte K \<longrightarrow> \<not> gk_in_pre l)))"

definition in_frame_link :: "eth_consts \<Rightarrow> gsrc_opts \<Rightarrow> int set \<Rightarrow> gsrc \<Rightarrow> gsink \<Rightarrow> bool" where
  "in_frame_link K opts V s l \<longleftrightarrow> (case gs_frame s of
     None \<Rightarrow> gk_frame l = None \<and> pend_link V (gs_odd s) (gs_pend s) (gk_an l)
   | Some f \<Rightarrow> good_data K f \<and>
       (if gs_sof s
        then gk_frame l = None \<and> pend_link V (gs_odd s) (gs_pend s) (gk_an l) \<and> gs_offset s = 0 \<and> (gs_pend s = [] \<longrightarrow> \<not> gs_odd s)
        else gs_pend s = [] \<and> gk_an l = None \<and> mid K opts (gf_data f) (gs_offset s) (gs_rep_cnt s) l))"

definition glinked :: "eth_consts \<Rightarrow> gmii_class \<Rightarrow> gsrc_opts \<Rightarrow> int set \<Rightarrow> bytes list \<Rightarrow> gsrc \<Rightarrow> gsink \<Rightarrow> bool" where
  "glinked K C opts V rx s l \<longleftrightarrow> gk_odd l = gs_odd s \<and> rx @ map gf_data (gk_queue l) = map (\<lambda>f. wire opts (gf_data f)) (gs_done s) \<and>
     (\<forall>f \<in> set (gk_queue l). no_errors f) \<and> (\<forall>v. gk_an_cfg l = Some v \<longrightarrow> v \<in> V) \<and> (\<forall>v. gs_an_cfg s = Some v \<longrightarrow> v AND 0xffff \<in> V) \<and>
     (\<forall>f \<in> set (gs_queue s). good_data K (gm_normalize C f)) \<and> 0 \<le> gs_rep_cnt s \<and> gs_rep_cnt s \<le> g_rep opts \<and> in_frame_link K opts V s l"

text \<open>The frames that the source has been given.\<close>

definition gstream :: "gmii_class \<Rightarrow> gsrc_opts \<Rightarrow> gsrc \<Rightarrow> bytes list" where
  "gstream C opts s = map (wire opts) (map gf_data (gs_done s) @ (case gs_frame s of None \<Rightarrow> [] | Some f \<Rightarrow> [gf_data f]) @
     map (\<lambda>f. gf_data (gm_normalize C f)) (gs_queue s))"

lemma cfg_bytes: "is_bytes [v AND 0xff, drop_bit 8 v AND 0xff]" "(v AND 0xff) OR push_bit 8 (drop_bit 8 v AND 0xff) = v AND 0xffff"
proof -
  have t: "x AND 0xff = take_bit 8 x" "x AND 0xffff = take_bit 16 x" for x :: int
    unfolding take_bit_eq_mask by (simp_all add: mask_eq_exp_minus_1)
  have b: "0 \<le> take_bit 8 x \<and> take_bit 8 x < 256" for x :: int using take_bit_int_less_exp [of 8 x] by simp
  show "is_bytes [v AND 0xff, drop_bit 8 v AND 0xff]" by (simp add: t b)
  show "(v AND 0xff) OR push_bit 8 (drop_bit 8 v AND 0xff) = v AND 0xffff" unfolding t by (rule bit_eqI) (auto simp: bit_simps)
qed

section \<open>One lane\<close>

lemma glinked_end_ext: "glinked K C opts V rx (end_ext s) l = glinked K C opts V rx s l" "gstream C opts (end_ext s) = gstream C opts s"
  "gs_odd (end_ext s) = gs_odd s"
  by (auto simp: end_ext_def glinked_def in_frame_link_def gstream_def split: option.splits)

lemma glinked_gap: "glinked K C opts V rx (count_gap s) l = glinked K C opts V rx s l" "gstream C opts (count_gap s) = gstream C opts s"
  "gs_odd (count_gap s) = gs_odd s"
  by (auto simp: count_gap_def glinked_def in_frame_link_def gstream_def split: option.splits)

lemma end_lane_fields [simp]:
  "gs_queue (end_lane opts c s) = gs_queue s" "gs_frame (end_lane opts c s) = gs_frame s" "gs_done (end_lane opts c s) = gs_done s"
  "gs_pend (end_lane opts c s) = gs_pend s" "gs_an_cfg (end_lane opts c s) = gs_an_cfg s" "gs_sof (end_lane opts c s) = gs_sof s"
  "gs_offset (end_lane opts c s) = gs_offset s" "gs_odd (end_lane opts c s) = (\<not> gs_odd s)"
  "gs_rep_cnt (end_lane opts c s) = (if gs_rep_cnt s > 0 then gs_rep_cnt s - 1
     else if g_rep opts \<noteq> 0 \<and> (\<not> gs_odd s \<or> gs_frame s \<noteq> None) then g_rep opts else gs_rep_cnt s)"
  by (auto simp: end_lane_def Let_def)

lemma rx_lane_fields [simp]:
  "gk_queue (rx_lane K C rep t c l) = gk_queue (fst (rx_code K C t c l))" "gk_frame (rx_lane K C rep t c l) = gk_frame (fst (rx_code K C t c l))"
  "gk_in_pre (rx_lane K C rep t c l) = gk_in_pre (fst (rx_code K C t c l))" "gk_an (rx_lane K C rep t c l) = gk_an (fst (rx_code K C t c l))"
  "gk_an_cfg (rx_lane K C rep t c l) = gk_an_cfg (fst (rx_code K C t c l))" "gk_odd (rx_lane K C rep t c l) = (\<not> gk_odd (fst (rx_code K C t c l)))"
  "gk_skip (rx_lane K C rep t c l) = (if gk_skip (fst (rx_code K C t c l)) > 0 then gk_skip (fst (rx_code K C t c l)) - 1
     else if rep \<noteq> 0 then rep else gk_skip (fst (rx_code K C t c l)))"
  by (simp_all add: rx_lane_def Let_def split: prod.splits)

lemma gstream_end_lane: "gstream C opts (end_lane opts c s) = gstream C opts s"
  by (simp add: gstream_def)

text \<open>The lanes of a word, with the sink behind.\<close>

definition rx_codes :: "eth_consts \<Rightarrow> gmii_class \<Rightarrow> int \<Rightarrow> (nat \<Rightarrow> int) \<Rightarrow> (int \<times> bool) list \<Rightarrow> gsink \<Rightarrow> gsink" where
  "rx_codes K C rep time cs l = fold (\<lambda>k. rx_lane K C rep (time k) (cs ! k)) [0..<length cs] l"

lemma rx_codes_snoc: "rx_codes K C rep time (cs @ [c]) l = rx_lane K C rep (time (length cs)) c (rx_codes K C rep time cs l)"
proof -
  have "fold (\<lambda>k. rx_lane K C rep (time k) ((cs @ [c]) ! k)) [0..<length cs] l = fold (\<lambda>k. rx_lane K C rep (time k) (cs ! k)) [0..<length cs] l"
    by (rule fold_cong) (auto simp: nth_append)
  then show ?thesis by (simp add: rx_codes_def)
qed

context gmii_laws
begin

lemma between_link:
  assumes "glinked K C opts V rx s l"
  obtains s1 where "between_frames K C opts t s = Inr s1" "glinked K C opts V rx s1 l" "gstream C opts s1 = gstream C opts s" "gs_odd s1 = gs_odd s"
proof -
  let ?gap = "gs_ifg_cnt s > 1 \<or> (\<not> g_dic opts \<and> gs_ifg_cnt s > 0) \<or> gs_odd s \<or> gs_rep_cnt s \<noteq> 0" and ?s = "s\<lparr>gs_active := False, gs_idle_event := True\<rparr>"
  consider (busy) "gs_frame s \<noteq> None" | (gap) "gs_frame s = None" "?gap" | (empty) "gs_frame s = None" "\<not> ?gap" "gs_queue s = []"
    | (start) "gs_frame s = None" "\<not> ?gap" "gs_queue s \<noteq> []" by blast
  then show thesis
  proof cases
    case busy
    then show thesis using assms that [of s] by (simp add: between_frames_def)
  next
    case gap
    then show thesis using assms that [of "count_gap s"] by (simp add: between_frames_def glinked_gap)
  next
    case empty
    have "glinked K C opts V rx ?s l = glinked K C opts V rx s l" "gstream C opts ?s = gstream C opts s"
      by (auto simp: glinked_def in_frame_link_def gstream_def split: option.splits)
    moreover have "between_frames K C opts t s = Inr (count_gap ?s)"
      unfolding between_frames_def if_not_P [OF empty(2)] using empty by (simp add: take_frame_def)
    ultimately show thesis using assms that [of "count_gap ?s"] by (simp add: glinked_gap)
  next
    case start
    then obtain f rest where q: "gs_queue s = f # rest" by (cases "gs_queue s") auto
    define f1 where "f1 = gm_normalize C (f\<lparr>gf_start := Some t, gf_sfd := None, gf_end := None\<rparr>)"
    have n: "gf_data f1 = gf_data (gm_normalize C f)" "gf_error f1 = gf_error (gm_normalize C f)" by (simp_all add: f1_def normalize)
    have g: "good_data K f1" using assms q n by (simp add: glinked_def good_data_def)
    then have d: "gf_data f1 \<noteq> []" "hd (gf_data f1) = pre_byte K" by (simp_all add: good_data_def)
    define s1 where "s1 = s\<lparr>gs_queue := rest, gs_dequeue_event := True, gs_occ_bytes := gs_occ_bytes s - gframe_len f, gs_occ_frames := gs_occ_frames s - 1,
        gs_frame := Some f1, gs_deficit := (if g_dic opts then gs_ifg_cnt s else gs_deficit s), gs_ifg_cnt := 0,
        gs_active := True, gs_offset := 0, gs_sof := True, gs_in_pre := True\<rparr>"
    have "take_frame K C opts t s = Inr s1" using q d by (simp add: take_frame_def Let_def f1_def s1_def)
    then have "between_frames K C opts t s = Inr s1" unfolding between_frames_def if_not_P [OF start(2)]
      using start by (simp add: count_gap_def s1_def)
    moreover have "glinked K C opts V rx s1 l" using assms start g q by (simp add: glinked_def in_frame_link_def s1_def)
    moreover have "gstream C opts s1 = gstream C opts s" using start q n(1) by (simp add: gstream_def s1_def)
    ultimately show thesis using that by (simp add: s1_def)
  qed
qed

lemma code_pend:
  assumes "glinked K C opts V rx s l" "gs_pend s = b # bs"
  shows "0 \<le> b \<and> b < 256 \<and> glinked K C opts V rx (end_lane opts (b, False) (s\<lparr>gs_pend := bs\<rparr>)) (rx_lane K C (g_rep opts) t (b, False) l)"
proof -
  have p: "pend_link V (gs_odd s) (b # bs) (gk_an l)" "gk_frame l = None" and f: "\<And>f. gs_frame s = Some f \<Longrightarrow> gs_sof s"
    using assms by (auto simp: glinked_def in_frame_link_def split: option.splits if_splits)
  consider (two) b' where "bs = [b']" "\<not> gs_odd s" "gk_an l = Some []" "is_bytes [b, b']" "b OR push_bit 8 b' \<in> V"
    | (one) a where "bs = []" "gs_odd s" "gk_an l = Some [a]" "is_bytes [a, b]" "a OR push_bit 8 b \<in> V"
    using p(1) by (auto elim!: pend_some)
  then show ?thesis
  proof cases
    case two
    then have "rx_code K C t (b, False) l = (l\<lparr>gk_idle := 0, gk_an := Some [b]\<rparr>, False)" using p(2) by (simp add: rx_code_def rx_config_def)
    then show ?thesis using assms f two by (auto simp: glinked_def in_frame_link_def pend_link.simps split: option.splits)
  next
    case one
    then have "gk_queue (fst (rx_code K C t (b, False) l)) = gk_queue l" "gk_frame (fst (rx_code K C t (b, False) l)) = None"
      "gk_an (fst (rx_code K C t (b, False) l)) = None" "gk_an_cfg (fst (rx_code K C t (b, False) l)) = Some (a OR push_bit 8 b)"
      "gk_odd (fst (rx_code K C t (b, False) l)) = gk_odd l"
      using p(2) by (simp_all add: rx_code_def rx_config_def Let_def)
    then show ?thesis using assms f one by (auto simp: glinked_def in_frame_link_def pend_link.simps split: option.splits)
  qed
qed

lemma code_config:
  assumes "glinked K C opts V rx s l" "gs_pend s = []" "gs_frame s = None" "gs_an_cfg s = Some v" "gs_odd s" "d = 0x42 \<or> d = 0xb5"
  shows "glinked K C opts V rx (end_lane opts (d, False) (s\<lparr>gs_pend := [v AND 0xff, drop_bit 8 v AND 0xff], gs_phase := x\<rparr>)) (rx_lane K C (g_rep opts) t (d, False) l)"
proof -
  have p: "gk_an l = None" "gk_frame l = None" using assms(1-3) by (auto simp: glinked_def in_frame_link_def elim: pend_none)
  then have "rx_code K C t (d, False) l = (l\<lparr>gk_an := Some []\<rparr>, False)" using assms(6) by (auto simp: rx_code_def rx_idle_def)
  moreover have "pend_link V False [v AND 0xff, drop_bit 8 v AND 0xff] (Some [])"
    by (rule Two) (use cfg_bytes [of v] assms(1,4) in \<open>simp_all add: glinked_def\<close>)
  ultimately show ?thesis using assms p by (simp add: glinked_def in_frame_link_def)
qed

lemma code_idle:
  assumes "glinked K C opts V rx s l" "gs_pend s = []" "gs_frame s = None" "gs_odd s0 = gs_odd s"
  shows "fst (idle_code s0) \<ge> 0 \<and> fst (idle_code s0) < 256 \<and> glinked K C opts V rx (end_lane opts (idle_code s0) s) (rx_lane K C (g_rep opts) t (idle_code s0) l)"
proof -
  have p: "gk_an l = None" "gk_frame l = None" using assms(1-3) by (auto simp: glinked_def in_frame_link_def elim: pend_none)
  have st: "x_start K \<noteq> 0xBC" "x_start K \<noteq> 0xF7" using K_ok by (simp_all add: bx_consts_ok_def)
  have o: "gk_odd l = gs_odd s" using assms(1) by (simp add: glinked_def)
  have r: "gk_queue (fst (rx_code K C t (idle_code s0) l)) = gk_queue l" "gk_frame (fst (rx_code K C t (idle_code s0) l)) = None"
      "gk_an (fst (rx_code K C t (idle_code s0) l)) = None" "gk_an_cfg (fst (rx_code K C t (idle_code s0) l)) = gk_an_cfg l"
      "gk_odd (fst (rx_code K C t (idle_code s0) l)) = gk_odd l"
    using p st o assms(4) by (auto simp: rx_code_def rx_idle_def idle_code_def)
  have "0 \<le> fst (idle_code s0) \<and> fst (idle_code s0) < 256" by (simp add: idle_code_def)
  then show ?thesis using assms r by (auto simp: glinked_def in_frame_link_def pend_link.simps)
qed

lemma code_start:
  assumes ln: "glinked K C opts V rx s l" and st: "gs_pend s = []" "gs_frame s = Some f" "gs_sof s"
  obtains s2 where "frame_code K opts t f s = Inr ((x_start K, True), s2)" "gstream C opts s2 = gstream C opts s"
    "glinked K C opts V rx (end_lane opts (x_start K, True) s2) (rx_lane K C (g_rep opts) t' (x_start K, True) l)"
proof -
  have g: "good_data K f" "gk_frame l = None" "gk_an l = None" "gs_offset s = 0" "\<not> gs_odd s" "\<not> gk_odd l"
    and r: "0 \<le> gs_rep_cnt s" "gs_rep_cnt s \<le> g_rep opts"
    using ln st by (auto simp: glinked_def in_frame_link_def elim: pend_none)
  define s2 where "s2 = (if g_truncate opts then (if g_rep opts \<noteq> 0 then (s\<lparr>gs_offset := 0, gs_sof := False\<rparr>)\<lparr>gs_rep_cnt := g_rep opts\<rparr>
      else (s\<lparr>gs_offset := 0, gs_sof := False\<rparr>)\<lparr>gs_offset := 0 + 1\<rparr>) else s\<lparr>gs_offset := 0, gs_sof := False\<rparr>)"
  have f: "frame_code K opts t f s = Inr ((x_start K, True), s2)" using st g(4) by (simp add: frame_code_def s2_def Let_def)
  have k: "rx_code K C t' (x_start K, True) l =
      (l\<lparr>gk_frame := Some ((gm_make C [pre_byte K] [False])\<lparr>gf_start := Some t'\<rparr>), gk_in_pre := True, gk_skip := 0\<rparr>, True)"
    using g K_ok by (simp add: rx_code_def rx_idle_def bx_consts_ok_def)
  have d: "take 1 (gf_data f) = [pre_byte K]" "gf_data f \<noteq> []" using g(1) by (auto simp: good_data_def take_Suc)
  have s2: "gs_queue s2 = gs_queue s" "gs_done s2 = gs_done s" "gs_frame s2 = Some f" "gs_pend s2 = []" "gs_an_cfg s2 = gs_an_cfg s"
    "gs_odd s2 = gs_odd s" "\<not> gs_sof s2" "gs_offset s2 + 1 = wire_skip opts" "0 \<le> gs_rep_cnt s2" "gs_rep_cnt s2 \<le> g_rep opts"
    using st r by (simp_all add: s2_def wire_skip_def)
  let ?s = "end_lane opts (x_start K, True) s2" and ?l = "rx_lane K C (g_rep opts) t' (x_start K, True) l"
  have p: "0 \<le> gs_rep_cnt ?s" "gs_rep_cnt ?s \<le> g_rep opts" using s2 by auto
  have skip: "gk_skip ?l = g_rep opts" using k r by simp
  have "wire_skip opts = 2 \<longrightarrow> g_rep opts = 0" by (simp add: wire_skip_def)
  moreover have "gs_offset ?s = (if wire_skip opts = 2 then 1 else 0)" using s2(8) by (simp add: wire_skip_def split: if_splits)
  ultimately have "mid K opts (gf_data f) (gs_offset ?s) (gs_rep_cnt ?s) ?l"
    unfolding mid_def Let_def using d k p skip s2(8)
    by (intro exI [of _ "(gm_make C [pre_byte K] [False])\<lparr>gf_start := Some t'\<rparr>"] exI [of _ 0])
      (auto simp: make no_errors_def simp del: end_lane_fields(9) rx_lane_fields(7))
  then have "glinked K C opts V rx ?s ?l" using ln g s2 p k by (simp add: glinked_def in_frame_link_def del: end_lane_fields(9) rx_lane_fields(7))
  moreover have "gstream C opts s2 = gstream C opts s" using s2 st by (simp add: gstream_def)
  ultimately show thesis using that f by blast
qed

text \<open>A byte on the wire: taken, or left for a later copy.\<close>

lemma rx_byte:
  assumes "gk_frame l = Some g"
  shows "gk_skip l = 0 \<or> (gk_in_pre l \<and> b = sfd_byte K) \<Longrightarrow> \<exists>g'. gk_frame (fst (rx_code K C t (b, False) l)) = Some g' \<and> gf_data g' = gf_data g @ [b] \<and>
      gf_error g' = gf_error g @ [False] \<and> gk_skip (fst (rx_code K C t (b, False) l)) = 0 \<and>
      gk_in_pre (fst (rx_code K C t (b, False) l)) = (gk_in_pre l \<and> b \<noteq> sfd_byte K)"
    "\<not> (gk_skip l = 0 \<or> (gk_in_pre l \<and> b = sfd_byte K)) \<Longrightarrow> fst (rx_code K C t (b, False) l) = l"
    "gk_queue (fst (rx_code K C t (b, False) l)) = gk_queue l \<and> gk_an (fst (rx_code K C t (b, False) l)) = gk_an l \<and>
      gk_an_cfg (fst (rx_code K C t (b, False) l)) = gk_an_cfg l \<and> gk_odd (fst (rx_code K C t (b, False) l)) = gk_odd l"
  using assms by (auto simp: rx_code_def rx_frame_def Let_def)

lemma midI:
  assumes "gk_frame l = Some g" "gk_skip l = sk" "gk_in_pre l = ip" "gf_data g = take 1 d @ take m (drop (wire_skip opts) d)" "no_errors g"
    "ip \<Longrightarrow> sfd_byte K \<notin> set (take m (drop (wire_skip opts) d))" "0 < p \<Longrightarrow> off < length d" "wire_skip opts = 2 \<longrightarrow> p = 0"
    "off + 1 = wire_skip opts + m \<and> p \<le> sk \<and> sk \<le> p + g_rep opts \<or> off = wire_skip opts + m \<and> 0 \<le> sk \<and> sk < p \<and> (d ! off = sfd_byte K \<longrightarrow> \<not> ip)"
  shows "mid K opts d off p l"
  unfolding mid_def Let_def using assms by blast

lemma mid_byte:
  assumes m: "mid K opts d off0 p l" and d: "d \<noteq> []" "hd d = pre_byte K" and r: "0 \<le> p" "p \<le> g_rep opts"
    and off: "off = (if p = 0 then off0 + 1 else off0)" "off < length d"
  shows "mid K opts d off (if p > 0 then p - 1 else g_rep opts) (rx_lane K C (g_rep opts) t (d ! off, False) l)"
proof -
  let ?k0 = "wire_skip opts" and ?r = "g_rep opts" and ?b = "d ! off" and ?l = "rx_lane K C (g_rep opts) t (d ! off, False) l"
  let ?p = "if p > 0 then p - 1 else ?r"
  from m obtain g n where g: "gk_frame l = Some g" "gf_data g = take 1 d @ take n (drop ?k0 d)" "no_errors g" "?k0 = 2 \<longrightarrow> p = 0"
      "gk_in_pre l \<longrightarrow> sfd_byte K \<notin> set (take n (drop ?k0 d))"
      and ph: "off0 + 1 = ?k0 + n \<and> p \<le> gk_skip l \<and> gk_skip l \<le> p + ?r \<or> off0 = ?k0 + n \<and> 0 \<le> gk_skip l \<and> gk_skip l < p \<and> (d ! off0 = sfd_byte K \<longrightarrow> \<not> gk_in_pre l)"
    by (auto simp: mid_def Let_def)
  have k2: "?k0 = 2 \<longrightarrow> ?p = 0" "?k0 = 1 \<or> ?k0 = 2" using g(4) by (simp_all add: wire_skip_def)
  have taken: "mid K opts d off ?p ?l" if n: "off = ?k0 + n" and tk: "gk_skip l = 0 \<or> (gk_in_pre l \<and> ?b = sfd_byte K)" and q: "?p \<le> ?r" "0 \<le> ?p"
  proof -
    obtain g' where h: "gk_frame (fst (rx_code K C t (?b, False) l)) = Some g'" "gf_data g' = gf_data g @ [?b]" "gf_error g' = gf_error g @ [False]"
      "gk_skip (fst (rx_code K C t (?b, False) l)) = 0" "gk_in_pre (fst (rx_code K C t (?b, False) l)) = (gk_in_pre l \<and> ?b \<noteq> sfd_byte K)"
      using rx_byte(1) [OF g(1) tk, of t] by blast
    have g': "gk_frame ?l = Some g'" "gk_skip ?l = ?r" "gk_in_pre ?l = (gk_in_pre l \<and> ?b \<noteq> sfd_byte K)" using h r by auto
    have s: "take (Suc n) (drop ?k0 d) = take n (drop ?k0 d) @ [?b]" using n off(2) by (simp add: take_Suc_conv_app_nth)
    show ?thesis by (rule midI [OF g' _ _ _ off(2) k2(1)]) (use g h(2,3) s n q in \<open>auto simp: no_errors_def\<close>)
  qed
  have left: "mid K opts d off ?p ?l" if tk: "\<not> (gk_skip l = 0 \<or> (gk_in_pre l \<and> ?b = sfd_byte K))" "0 < gk_skip l"
    and ph': "off + 1 = ?k0 + n \<and> ?p \<le> gk_skip l - 1 \<and> gk_skip l - 1 \<le> ?p + ?r \<or> off = ?k0 + n \<and> 0 \<le> gk_skip l - 1 \<and> gk_skip l - 1 < ?p \<and> (?b = sfd_byte K \<longrightarrow> \<not> gk_in_pre l)"
  proof -
    have "gk_frame ?l = Some g" "gk_skip ?l = gk_skip l - 1" "gk_in_pre ?l = gk_in_pre l" using rx_byte(2) [OF g(1) tk(1)] g(1) tk(2) by simp_all
    then show ?thesis by (rule midI [OF _ _ _ g(2,3) _ off(2) k2(1) ph']) (use g(5) in simp)
  qed
  show ?thesis
  proof (cases "p = 0")
    case True
    then have n: "off = ?k0 + n" "0 \<le> gk_skip l" "gk_skip l \<le> ?r" using ph off(1) by auto
    show ?thesis
    proof (cases "gk_skip l = 0 \<or> (gk_in_pre l \<and> ?b = sfd_byte K)")
      case tk: True
      show ?thesis by (rule taken [OF n(1) tk]) (use True r in simp_all)
    next
      case False
      show ?thesis by (rule left [OF False]) (use False True n in auto)
    qed
  next
    case False
    then have p: "0 < p" "off0 = off" using r(1) off(1) by simp_all
    from ph show ?thesis
    proof
      assume a: "off0 + 1 = ?k0 + n \<and> p \<le> gk_skip l \<and> gk_skip l \<le> p + ?r"
      have "\<not> (gk_in_pre l \<and> ?b = sfd_byte K)"
      proof (cases n)
        case 0
        then have "off = 0" using a p k2 g(4) by auto
        then show ?thesis using d K_ok by (simp add: bx_consts_ok_def hd_conv_nth)
      next
        case (Suc i)
        then have "?b \<in> set (take n (drop ?k0 d))" using a p(2) off(2) by (auto simp: in_set_conv_nth intro!: exI [of _ i])
        then show ?thesis using g(5) by auto
      qed
      then show ?thesis using a p by (intro left) auto
    next
      assume a: "off0 = ?k0 + n \<and> 0 \<le> gk_skip l \<and> gk_skip l < p \<and> (d ! off0 = sfd_byte K \<longrightarrow> \<not> gk_in_pre l)"
      show ?thesis
      proof (cases "gk_skip l = 0")
        case True
        show ?thesis by (rule taken) (use a p r True in auto)
      next
        case False
        show ?thesis by (rule left) (use a p False in auto)
      qed
    qed
  qed
qed

lemma code_mid:
  assumes ln: "glinked K C opts V rx s l" and st: "gs_frame s = Some f" "\<not> gs_sof s"
  obtains c s2 where "frame_code K opts t f s = Inr (c, s2)" "0 \<le> fst c \<and> fst c < 256" "gstream C opts s2 = gstream C opts s"
    "glinked K C opts V rx (end_lane opts c s2) (rx_lane K C (g_rep opts) t' c l)"
proof -
  let ?p = "gs_rep_cnt s" and ?d = "gf_data f" and ?off = "if gs_rep_cnt s = 0 then gs_offset s + 1 else gs_offset s"
  have g: "good_data K f" "gs_pend s = []" "gk_an l = None" "mid K opts ?d (gs_offset s) ?p l" and r: "0 \<le> ?p" "?p \<le> g_rep opts"
    using ln st by (auto simp: glinked_def in_frame_link_def)
  from g(4) obtain g0 n where g0: "gk_frame l = Some g0" "gf_data g0 = take 1 ?d @ take n (drop (wire_skip opts) ?d)" "no_errors g0"
      "0 < ?p \<longrightarrow> gs_offset s < length ?d"
      "gs_offset s + 1 = wire_skip opts + n \<and> ?p \<le> gk_skip l \<or> gs_offset s = wire_skip opts + n \<and> 0 \<le> gk_skip l \<and> gk_skip l < ?p"
    unfolding mid_def Let_def by blast
  show thesis
  proof (cases "length ?d \<le> ?off")
    case True
    then have p0: "?p = 0" "length ?d \<le> gs_offset s + 1" using g0(4) r by (auto split: if_splits)
    then have "length (drop (wire_skip opts) ?d) \<le> n" using g0(5) by auto
    then have w: "gf_data g0 = wire opts ?d" using g0(2) by (simp add: wire_def)
    define s2 where "s2 = s\<lparr>gs_offset := ?off, gs_sof := False, gs_ext := True, gs_ifg_cnt := max (g_ifg opts + gs_deficit s - 1) 0,
      gs_done := gs_done s @ [f\<lparr>gf_end := Some t\<rparr>], gs_frame := None\<rparr>"
    let ?c = "(x_term K, True)"
    have f: "frame_code K opts t f s = Inr (?c, s2)" using st True by (simp add: frame_code_def Let_def s2_def)
    define f2 where "f2 = (gm_compact C g0)\<lparr>gf_end := Some t'\<rparr>"
    have f2: "gf_data f2 = wire opts ?d" "no_errors f2" using compact [OF g0(3)] w by (simp_all add: f2_def no_errors_def)
    define l1 where "l1 = l\<lparr>gk_occ_bytes := gk_occ_bytes l + gframe_len f2, gk_occ_frames := gk_occ_frames l + 1,
               gk_queue := gk_queue l @ [f2], gk_active_event := True, gk_frame := None\<rparr>"
    have k: "rx_code K C t' ?c l = (l1, True)" using g0(1) by (simp add: rx_code_def rx_frame_def Let_def l1_def f2_def)
    have "glinked K C opts V rx (end_lane opts ?c s2) (rx_lane K C (g_rep opts) t' ?c l)"
      using ln g(2,3) f2 r by (auto simp: glinked_def in_frame_link_def k l1_def s2_def intro: pend_link.Nothing)
    moreover have "gstream C opts s2 = gstream C opts s" using st by (simp add: gstream_def s2_def)
    moreover have "0 \<le> fst ?c \<and> fst ?c < 256" using K_ok by (simp add: bx_consts_ok_def)
    ultimately show thesis using that f by blast
  next
    case False
    then have off: "?off < length ?d" by simp
    have d: "?d \<noteq> []" "hd ?d = pre_byte K" "is_bytes ?d" "gf_error f = replicate (length ?d) False" using g(1) by (simp_all add: good_data_def)
    let ?c = "(?d ! ?off, False)"
    define f1 where "f1 = (if gf_sfd f = None \<and> \<not> gs_in_pre s then f\<lparr>gf_sfd := Some t\<rparr> else f)"
    define s2 where "s2 = s\<lparr>gs_offset := ?off, gs_sof := False, gs_frame := Some f1,
      gs_in_pre := (if ?d ! ?off = sfd_byte K \<and> (g_rep opts = 0 \<or> ?p = 1) then False else gs_in_pre s)\<rparr>"
    have "py_get (gf_error f) (int ?off) = Inr False" using off d(4) by simp
    then have f: "frame_code K opts t f s = Inr (?c, s2)" using st off by (simp add: frame_code_def Let_def s2_def f1_def)
    have f1: "gf_data f1 = ?d" "good_data K f1" using g(1) by (simp_all add: f1_def good_data_def)
    let ?s = "end_lane opts ?c s2" and ?l = "rx_lane K C (g_rep opts) t' ?c l"
    have s2: "gs_queue s2 = gs_queue s" "gs_done s2 = gs_done s" "gs_frame s2 = Some f1" "gs_pend s2 = []" "gs_an_cfg s2 = gs_an_cfg s"
      "gs_odd s2 = gs_odd s" "\<not> gs_sof s2" "gs_offset s2 = ?off" "gs_rep_cnt s2 = ?p" using g(2) by (simp_all add: s2_def)
    have rep: "gs_rep_cnt ?s = (if ?p > 0 then ?p - 1 else g_rep opts)" using s2 r by auto
    have "mid K opts ?d ?off (if ?p > 0 then ?p - 1 else g_rep opts) ?l" by (rule mid_byte [OF g(4) d(1,2) r refl off])
    then have "mid K opts (gf_data f1) (gs_offset ?s) (gs_rep_cnt ?s) ?l" unfolding f1(1) rep by (simp add: s2(8))
    then have "glinked K C opts V rx ?s ?l" using ln g r rep s2 f1(2) rx_byte(3) [OF g0(1), where b = "?d ! ?off" and t = t']
      by (simp add: glinked_def in_frame_link_def del: end_lane_fields(9) rx_lane_fields(7))
    moreover have "gstream C opts s2 = gstream C opts s" using s2 st f1(1) by (simp add: gstream_def)
    moreover have "0 \<le> fst ?c \<and> fst ?c < 256" using is_bytes_nth [OF d(3) off] by simp
    ultimately show thesis using that f by blast
  qed
qed

text \<open>One lane, whatever it carries.\<close>

theorem lane_link:
  assumes "glinked K C opts V rx s l"
  obtains c s' where "src_lane K C opts t s = Inr (c, s')" "0 \<le> fst c \<and> fst c < 256" "gstream C opts s' = gstream C opts s"
    "glinked K C opts V rx s' (rx_lane K C (g_rep opts) t' c l)"
proof -
  have "glinked K C opts V rx (end_ext s) l" using assms by (simp add: glinked_end_ext)
  from between_link [OF this, of t] obtain s1 where b: "between_frames K C opts t (end_ext s) = Inr s1" "glinked K C opts V rx s1 l"
    "gstream C opts s1 = gstream C opts (end_ext s)" "gs_odd s1 = gs_odd (end_ext s)" by blast
  have s1: "between_frames K C opts t (end_ext s) = Inr s1" "glinked K C opts V rx s1 l"
    "gstream C opts s1 = gstream C opts s" "gs_odd s = gs_odd s1" using b by (simp_all only: glinked_end_ext)
  have "\<exists>c s2. lane_code K opts t (idle_code s) s1 = Inr (c, s2) \<and> 0 \<le> fst c \<and> fst c < 256 \<and> gstream C opts s2 = gstream C opts s1 \<and>
    glinked K C opts V rx (end_lane opts c s2) (rx_lane K C (g_rep opts) t' c l)"
  proof (cases "gs_pend s1")
    case (Cons b bs)
    then show ?thesis using code_pend [OF s1(2) Cons] by (simp add: lane_code_def gstream_def)
  next
    case Nil
    show ?thesis
    proof (cases "gs_frame s1")
      case None
      note id = code_idle [OF s1(2) Nil None s1(4), of t']
      show ?thesis
      proof (cases "gs_an_cfg s1 \<noteq> None \<and> gs_odd s1")
        case True
        then obtain v where v: "gs_an_cfg s1 = Some v" "gs_odd s1" by blast
        let ?d = "if gs_phase s1 then 0x42 else 0xb5 :: int"
        have "glinked K C opts V rx (end_lane opts (?d, False) (s1\<lparr>gs_pend := [v AND 0xff, drop_bit 8 v AND 0xff], gs_phase := \<not> gs_phase s1\<rparr>))
            (rx_lane K C (g_rep opts) t' (?d, False) l)" by (rule code_config [OF s1(2) Nil None v]) simp
        then show ?thesis using Nil None v by (simp add: lane_code_def gstream_def)
      next
        case False
        then have "lane_code K opts t (idle_code s) s1 = Inr (idle_code s, s1)" using Nil None by (auto simp: lane_code_def split: option.split)
        then show ?thesis using id by blast
      qed
    next
      case (Some f)
      then have lc: "lane_code K opts t (idle_code s) s1 = frame_code K opts t f s1" using Nil by (simp add: lane_code_def)
      show ?thesis
      proof (cases "gs_sof s1")
        case True
        from code_start [OF s1(2) Nil Some True] obtain s2 where "frame_code K opts t f s1 = Inr ((x_start K, True), s2)"
          "gstream C opts s2 = gstream C opts s1" "glinked K C opts V rx (end_lane opts (x_start K, True) s2) (rx_lane K C (g_rep opts) t' (x_start K, True) l)" by blast
        moreover have "0 \<le> x_start K \<and> x_start K < 256" using K_ok by (simp add: bx_consts_ok_def)
        ultimately show ?thesis unfolding lc by simp
      next
        case False
        from code_mid [OF s1(2) Some False] show ?thesis unfolding lc by blast
      qed
    qed
  qed
  then obtain c s2 where "lane_code K opts t (idle_code s) s1 = Inr (c, s2)" "0 \<le> fst c \<and> fst c < 256" "gstream C opts s2 = gstream C opts s1"
    "glinked K C opts V rx (end_lane opts c s2) (rx_lane K C (g_rep opts) t' c l)" by blast
  then show thesis using that [of c "end_lane opts c s2"] s1 by (simp add: src_lane_def gstream_end_lane)
qed

theorem lanes_link:
  assumes "glinked K C opts V rx s l"
  obtains cs s' where "src_lanes K C opts time n s = Inr (cs, s')" "length cs = n" "is_bytes (map fst cs)" "gstream C opts s' = gstream C opts s"
    "glinked K C opts V rx s' (rx_codes K C (g_rep opts) time' cs l)"
proof -
  have "\<exists>cs s'. src_lanes K C opts time n s = Inr (cs, s') \<and> length cs = n \<and> is_bytes (map fst cs) \<and> gstream C opts s' = gstream C opts s \<and>
    glinked K C opts V rx s' (rx_codes K C (g_rep opts) time' cs l)"
  proof (induction n)
    case 0
    then show ?case using assms by (simp add: src_lanes_def rx_codes_def)
  next
    case (Suc n)
    then obtain cs s1 where s1: "src_lanes K C opts time n s = Inr (cs, s1)" "length cs = n" "is_bytes (map fst cs)" "gstream C opts s1 = gstream C opts s"
      "glinked K C opts V rx s1 (rx_codes K C (g_rep opts) time' cs l)" by blast
    from lane_link [OF s1(5), of "time n" "time' n"] obtain c s2 where s2: "src_lane K C opts (time n) s1 = Inr (c, s2)" "0 \<le> fst c \<and> fst c < 256"
      "gstream C opts s2 = gstream C opts s1" "glinked K C opts V rx s2 (rx_lane K C (g_rep opts) (time' n) c (rx_codes K C (g_rep opts) time' cs l))" by blast
    have "src_lanes K C opts time (Suc n) s = Inr (cs @ [c], s2)" using s1(1) s2(1) by (simp add: src_lanes_def rfold_append)
    then show ?case using s1 s2 by (intro exI [of _ "cs @ [c]"] exI [of _ s2]) (simp add: rx_codes_snoc)
  qed
  then show thesis using that by blast
qed

end

section \<open>Words\<close>

lemma word_of_snoc: "word_of (cs @ [c]) = word_of cs OR push_bit (8 * length cs) (fst c)"
proof -
  have "fold (\<lambda>k w. w OR push_bit (8 * k) (fst ((cs @ [c]) ! k))) [0..<length cs] 0 = fold (\<lambda>k w. w OR push_bit (8 * k) (fst (cs ! k))) [0..<length cs] 0"
    by (rule fold_cong) (auto simp: nth_append)
  then show ?thesis by (simp add: word_of_def)
qed

lemma k_bits_snoc: "k_bits (cs @ [c]) = k_bits cs OR push_bit (length cs) (of_bool (snd c))"
proof -
  have "fold (\<lambda>k w. w OR push_bit k (of_bool (snd ((cs @ [c]) ! k)))) [0..<length cs] 0 = fold (\<lambda>k w. w OR push_bit k (of_bool (snd (cs ! k)))) [0..<length cs] (0 :: int)"
    by (rule fold_cong) (auto simp: nth_append)
  then show ?thesis by (simp add: k_bits_def)
qed

lemma bit_byte:
  fixes x :: int
  assumes "0 \<le> x" "x < 256" "bit x j"
  shows "j < 8"
proof -
  have "take_bit 8 x = x" using assms by (simp add: take_bit_int_eq_self)
  then show ?thesis using assms(3) by (metis bit_take_bit_iff)
qed

lemma bit_word_of: "is_bytes (map fst cs) \<Longrightarrow> bit (word_of cs) j \<longleftrightarrow> j div 8 < length cs \<and> bit (fst (cs ! (j div 8))) (j mod 8)"
proof (induction cs rule: rev_induct)
  case (snoc c cs)
  have "8 * length cs \<le> j \<and> bit (fst c) (j - 8 * length cs) \<longleftrightarrow> j div 8 = length cs \<and> bit (fst c) (j mod 8)"
  proof (cases "j div 8 = length cs")
    case True
    then have "j = 8 * length cs + j mod 8" by (metis mult_div_mod_eq)
    then show ?thesis using True by (metis add_diff_cancel_left' le_add1)
  next
    case False
    have "j div 8 = length cs" if h: "8 * length cs \<le> j" "bit (fst c) (j - 8 * length cs)"
    proof -
      have "j - 8 * length cs < 8" by (rule bit_byte [OF _ _ h(2)]) (use snoc.prems in simp_all)
      then show ?thesis using h(1) by linarith
    qed
    then show ?thesis using False by blast
  qed
  then show ?case using snoc unfolding word_of_snoc by (auto simp: bit_simps nth_append less_Suc_eq)
qed (simp add: word_of_def)

lemma bit_k_bits: "bit (k_bits cs) j \<longleftrightarrow> j < length cs \<and> snd (cs ! j)"
proof (induction cs rule: rev_induct)
  case (snoc c cs)
  then show ?case unfolding k_bits_snoc by (auto simp: bit_simps nth_append less_Suc_eq)
qed (simp add: k_bits_def)

lemma lane_of_word:
  assumes "is_bytes (map fst cs)" "k < length cs"
  shows "lane_of (word_of cs) (k_bits cs) k = cs ! k"
proof -
  have m: "x AND 0xff = take_bit 8 x" for x :: int unfolding take_bit_eq_mask by (simp add: mask_eq_exp_minus_1)
  have b: "0 \<le> fst (cs ! k)" "fst (cs ! k) < 256" using is_bytes_nth [OF assms(1), of k] assms(2) by simp_all
  have "drop_bit (8 * k) (word_of cs) AND 0xff = fst (cs ! k)" unfolding m
  proof (rule bit_eqI)
    fix j
    have "(8 * k + j) div 8 = k \<and> (8 * k + j) mod 8 = j" if "j < 8" using that by simp
    then show "bit (take_bit 8 (drop_bit (8 * k) (word_of cs))) j = bit (fst (cs ! k)) j"
      using bit_byte [OF b, of j] assms by (auto simp: bit_simps bit_word_of)
  qed
  moreover have "(drop_bit k (k_bits cs) AND 1 \<noteq> 0) = snd (cs ! k)"
    using bit_k_bits [of cs k] assms(2) by (simp add: and_one_eq bit_iff_odd_drop_bit odd_iff_mod_2_eq_one)
  ultimately show ?thesis by (simp add: lane_of_def prod_eq_iff)
qed

lemma rx_lanes_word:
  assumes "is_bytes (map fst cs)"
  shows "rx_lanes K C rep time (length cs) (word_of cs) (k_bits cs) l = rx_codes K C rep time cs l"
  unfolding rx_lanes_def rx_codes_def by (rule fold_cong) (simp_all add: lane_of_word [OF assms])

lemma word_of_fits:
  assumes "is_bytes (map fst cs)"
  shows "take_bit (8 * length cs) (word_of cs) = word_of cs"
proof (rule bit_eqI)
  fix j
  have "j div 8 < length cs \<Longrightarrow> j < 8 * length cs" by (simp add: div_less_iff_less_mult mult.commute)
  then show "bit (take_bit (8 * length cs) (word_of cs)) j = bit (word_of cs) j" by (auto simp: bit_simps bit_word_of [OF assms])
qed

text \<open>With two lanes the reversal of the control bits undoes itself.\<close>

lemma k_reverse_two: "length cs = 2 \<Longrightarrow> \<exists>x. k_reverse 2 (k_bits cs) = Inr x \<and> k_reverse 2 x = Inr (k_bits cs)"
proof -
  assume "length cs = 2"
  then obtain a b where cs: "cs = [a, b]" by (auto simp: length_Suc_conv numeral_2_eq_2)
  show ?thesis unfolding cs by (cases "snd a"; cases "snd b"; simp add: k_reverse_def k_bits_def upt_rec bit_simps)
qed

end
