(* ===== verification/BaseXSystem.thy ===== *)
theory BaseXSystem imports BaseXLink BaseRScr BaseRBlock begin

text \<open>
  The 1000BASE-X link as a system: a source and a sink on the same clock and enable, with frames put
  in and taken out and the configuration register changed and read between the edges; the running
  disparity tables against the code; and what the reversal of the control bits breaks.
\<close>

section \<open>The system\<close>

definition bx_bus_in :: "bx_bus \<Rightarrow> bx_in" where
  "bx_bus_in b = \<lparr>xi_data = xb_data b, xi_k = xb_k b, xi_valid = Some (xb_valid b), xi_sync = None\<rparr>"

text \<open>An edge: the sink samples what the source drove before it.\<close>

definition bx_cycle :: "eth_consts \<Rightarrow> gmii_class \<Rightarrow> bx_cfg \<Rightarrow> int \<Rightarrow> bool \<Rightarrow> bx_src \<times> bx_bus \<times> bx_sink \<Rightarrow> (bx_src \<times> bx_bus \<times> bx_sink) result" where
  "bx_cycle K C c t enable = (\<lambda>(s, b, k).
     rbind (bx_sink_step K C c t enable (bx_bus_in b) k) (\<lambda>k'.
     rbind (bx_src_step K C c t enable (s, b)) (\<lambda>(s', b'). Inr (s', b', k'))))"

text \<open>The configurations in which the control bits survive: reversal needs two lanes.\<close>

definition bx_cfg_ok :: "bx_cfg \<Rightarrow> bool" where
  "bx_cfg_ok c \<longleftrightarrow> bx_lanes_of c \<in> {1, 2, 4, 8} \<and> (bx_reverse c \<longrightarrow> bx_lanes_of c = 2)"

definition bx_start :: "bx_src \<Rightarrow> bx_sink \<Rightarrow> bool" where
  "bx_start s k \<longleftrightarrow> 0 \<le> g_rep (xs_opts s) \<and> s = bx_src_new\<lparr>xs_opts := xs_opts s, xs_gbx := xs_gbx s\<rparr> \<and> k = bx_sink_new\<lparr>xk_rep := g_rep (xs_opts s)\<rparr>"

text \<open>The states that can be reached, with the data on the wire of the frames sent, the data received, and the
  values that the configuration register has had.\<close>

inductive bx_reach :: "eth_consts \<Rightarrow> gmii_class \<Rightarrow> bx_cfg \<Rightarrow> bytes list \<Rightarrow> bytes list \<Rightarrow> int list \<Rightarrow> bx_src \<times> bx_bus \<times> bx_sink \<Rightarrow> bool" for K C c where
  Init: "bx_start s k \<Longrightarrow> bx_reach K C c [] [] [] (s, bx_bus_idle, k)"
| Send: "bx_reach K C c tx rx cf (s, b, k) \<Longrightarrow> good_data K (gm_normalize C f) \<Longrightarrow> gsrc_send_nowait (xs_opts s) f (xs_lane s) = Inr l \<Longrightarrow>
    bx_reach K C c (tx @ [wire (xs_opts s) (gf_data (gm_normalize C f))]) rx cf (s\<lparr>xs_lane := l\<rparr>, b, k)"
| Recv: "bx_reach K C c tx rx cf (s, b, k) \<Longrightarrow> gsink_recv_nowait C do_compact (xk_lane k) = Inr (f, l) \<Longrightarrow>
    bx_reach K C c tx (rx @ [gf_data f]) cf (s, b, k\<lparr>xk_lane := l\<rparr>)"
| SetAn: "bx_reach K C c tx rx cf (s, b, k) \<Longrightarrow> bx_reach K C c tx rx (cf @ (case v of None \<Rightarrow> [] | Some x \<Rightarrow> [x])) (s\<lparr>xs_lane := set_an_cfg v (xs_lane s)\<rparr>, b, k)"
| GetAn: "bx_reach K C c tx rx cf (s, b, k) \<Longrightarrow> get_an_cfg (xk_lane k) = (v, l) \<Longrightarrow> bx_reach K C c tx rx cf (s, b, k\<lparr>xk_lane := l\<rparr>)"
| Cycle: "bx_reach K C c tx rx cf x \<Longrightarrow> bx_cycle K C c t enable x = Inr y \<Longrightarrow> bx_reach K C c tx rx cf y"

definition regs :: "int list \<Rightarrow> int set" where "regs cf = (\<lambda>v. v AND 0xffff) ` set cf"

section \<open>A word on the bus\<close>

definition bus_word :: "bx_cfg \<Rightarrow> (int \<times> bool) list \<Rightarrow> bx_bus \<Rightarrow> bool" where
  "bus_word c cs b \<longleftrightarrow> length cs = bx_lanes_of c \<and> is_bytes (map fst cs) \<and>
     xb_data b = (if bx_reverse c then bit_reverse (8 * bx_lanes_of c) (word_of cs) else word_of cs) AND (2 ^ (8 * bx_lanes_of c) - 1) \<and>
     (if bx_reverse c then k_reverse (bx_lanes_of c) (k_bits cs) = Inr (xb_k b) else xb_k b = k_bits cs)"

lemma bus_word_in:
  assumes c: "bx_cfg_ok c" and b: "bus_word c cs b"
  shows "(if bx_reverse c then bit_reverse (8 * bx_lanes_of c) (xb_data b) else xb_data b) = word_of cs"
    "(if bx_reverse c then k_reverse (bx_lanes_of c) (xb_k b) else Inr (xb_k b)) = Inr (k_bits cs)"
proof -
  have m: "y AND (2 ^ n - 1) = take_bit n y" for y :: int and n by (simp add: take_bit_eq_mask mask_eq_exp_minus_1)
  have r: "bit_reverse w (take_bit w (bit_reverse w y)) = take_bit w y" for w y
  proof -
    have "bit_reverse w (take_bit w x) = bit_reverse w x" for x by (rule bit_eqI) (auto simp: bit_bit_reverse bit_simps)
    then show ?thesis by (simp add: bit_reverse_twice)
  qed
  have l: "length cs = bx_lanes_of c" "is_bytes (map fst cs)" using b by (simp_all add: bus_word_def)
  note f = word_of_fits [OF l(2), unfolded l(1)]
  show "(if bx_reverse c then bit_reverse (8 * bx_lanes_of c) (xb_data b) else xb_data b) = word_of cs"
    using b by (simp add: bus_word_def m r f)
  show "(if bx_reverse c then k_reverse (bx_lanes_of c) (xb_k b) else Inr (xb_k b)) = Inr (k_bits cs)"
  proof (cases "bx_reverse c")
    case True
    then have n: "bx_lanes_of c = 2" using c by (simp add: bx_cfg_ok_def)
    then show ?thesis using True b k_reverse_two [of cs] l(1) by (auto simp: bus_word_def)
  next
    case False
    then show ?thesis using b by (simp add: bus_word_def)
  qed
qed

section \<open>The invariant\<close>

text \<open>A sink from which frames or the register have been taken goes on in the same way.\<close>

definition behind :: "gframe list \<Rightarrow> gsink \<Rightarrow> gsink \<Rightarrow> bool" where
  "behind fs l l' \<longleftrightarrow> gk_queue l = fs @ gk_queue l' \<and> (gk_an_cfg l' = gk_an_cfg l \<or> gk_an_cfg l' = None) \<and> gk_frame l' = gk_frame l \<and>
     gk_in_pre l' = gk_in_pre l \<and> gk_odd l' = gk_odd l \<and> gk_skip l' = gk_skip l \<and> gk_an l' = gk_an l"

lemma rx_code_behind: "behind fs l l' \<Longrightarrow> behind fs (fst (rx_code K C t c l)) (fst (rx_code K C t c l'))"
  by (cases c; cases "gk_frame l"; cases "gk_an l") (simp_all add: behind_def rx_code_def rx_frame_def rx_config_def rx_idle_def Let_def)

lemma rx_lane_behind: "behind fs l l' \<Longrightarrow> behind fs (rx_lane K C rep t c l) (rx_lane K C rep t c l')"
  using rx_code_behind [of fs l l' K C t c] by (simp add: behind_def)

lemma rx_codes_behind:
  assumes "behind fs l l'"
  shows "behind fs (rx_codes K C rep time cs l) (rx_codes K C rep time cs l')"
proof -
  have "behind fs (fold (\<lambda>k. rx_lane K C rep (time k) (cs ! k)) ks l) (fold (\<lambda>k. rx_lane K C rep (time k) (cs ! k)) ks l')" for ks
    using assms by (induction ks arbitrary: l l') (simp_all add: rx_lane_behind)
  then show ?thesis by (simp add: rx_codes_def)
qed

lemma rx_code_queue: "prefix (gk_queue l) (gk_queue (fst (rx_code K C t c l)))"
  by (cases c; cases "gk_frame l"; cases "gk_an l") (simp_all add: rx_code_def rx_frame_def rx_config_def rx_idle_def Let_def)

lemma rx_codes_queue: "prefix (gk_queue l) (gk_queue (rx_codes K C rep time cs l))"
proof -
  have "prefix (gk_queue l) (gk_queue (fold (\<lambda>k. rx_lane K C rep (time k) (cs ! k)) ks l))" for ks
  proof (induction ks arbitrary: l)
    case (Cons k ks)
    have "prefix (gk_queue l) (gk_queue (rx_lane K C rep (time k) (cs ! k) l))" by (simp add: rx_code_queue)
    also have "prefix \<dots> (gk_queue (fold (\<lambda>k. rx_lane K C rep (time k) (cs ! k)) ks (rx_lane K C rep (time k) (cs ! k) l)))" by (rule Cons.IH)
    finally show ?case by simp
  qed simp
  then show ?thesis by (simp add: rx_codes_def)
qed

lemma glinked_behind: "glinked K C opts V rx s l \<Longrightarrow> behind fs l l' \<Longrightarrow> glinked K C opts V (rx @ map gf_data fs) s l'"
  by (auto simp: glinked_def behind_def in_frame_link_def mid_def split: option.splits)

lemma pend_link_mono: "pend_link V od p an \<Longrightarrow> V \<subseteq> W \<Longrightarrow> pend_link W od p an"
  by (induction rule: pend_link.induct) (auto intro: pend_link.intros)

lemma glinked_mono: "glinked K C opts V rx s l \<Longrightarrow> V \<subseteq> W \<Longrightarrow> glinked K C opts W rx s l"
  by (auto simp: glinked_def in_frame_link_def intro: pend_link_mono split: option.splits)

lemma glinked_put: "glinked K C opts V rx s l \<Longrightarrow> good_data K (gm_normalize C f) \<Longrightarrow> glinked K C opts V rx (gsrc_put f s) l"
  by (auto simp: glinked_def in_frame_link_def gsrc_put_def split: option.splits)

lemma glinked_set_an: "glinked K C opts V rx s l \<Longrightarrow> (\<And>x. v = Some x \<Longrightarrow> x AND 0xffff \<in> V) \<Longrightarrow> glinked K C opts V rx (set_an_cfg v s) l"
  by (auto simp: glinked_def in_frame_link_def set_an_cfg_def split: option.splits)

text \<open>The word on the bus, when there is one, brings the sink level with the source.\<close>

definition level :: "eth_consts \<Rightarrow> gmii_class \<Rightarrow> bx_cfg \<Rightarrow> int set \<Rightarrow> bytes list \<Rightarrow> bx_src \<Rightarrow> bx_bus \<Rightarrow> gsink \<Rightarrow> bool" where
  "level K C c V rx s b l \<longleftrightarrow> (if xb_valid b
     then \<exists>cs. bus_word c cs b \<and> (\<forall>time. glinked K C (xs_opts s) V rx (xs_lane s) (rx_codes K C (g_rep (xs_opts s)) time cs l))
     else glinked K C (xs_opts s) V rx (xs_lane s) l)"

definition bx_inv :: "eth_consts \<Rightarrow> gmii_class \<Rightarrow> bx_cfg \<Rightarrow> bytes list \<Rightarrow> bytes list \<Rightarrow> int set \<Rightarrow> bx_src \<Rightarrow> bx_bus \<Rightarrow> bx_sink \<Rightarrow> bool" where
  "bx_inv K C c tx rx V s b k \<longleftrightarrow> xk_rep k = g_rep (xs_opts s) \<and> gbx_seq_len (xk_gbx k) = None \<and> gstream C (xs_opts s) (xs_lane s) = tx \<and>
     level K C c V rx s b (xk_lane k) \<and> (\<forall>v. gk_an_cfg (xk_lane k) = Some v \<longrightarrow> v \<in> V)"

lemma bx_sink_off:
  assumes "gbx_seq_len (xk_gbx k) = None"
  obtains k1 where "xk_lane k1 = xk_lane k" "xk_rep k1 = xk_rep k" "gbx_seq_len (xk_gbx k1) = None"
    "\<And>i. bx_sink_step K C c t True i k = (if xi_valid i = Some False then Inr k1
      else rbind (if bx_reverse c then k_reverse (bx_lanes_of c) (xi_k i) else Inr (xi_k i)) (\<lambda>x.
        Inr (k1\<lparr>xk_sync_bad := False, xk_lane := rx_lanes K C (xk_rep k) (bx_time c t (xk_clk_period k1) 0) (bx_lanes_of c)
          (if bx_reverse c then bit_reverse (8 * bx_lanes_of c) (xi_data i) else xi_data i) x (xk_lane k)\<rparr>)))"
proof -
  define k0 where "k0 = k\<lparr>xk_clk_period := (if xk_last_clk k \<noteq> 0 then t - xk_last_clk k else xk_clk_period k), xk_last_clk := t\<rparr>"
  define g where "g = (xk_gbx k)\<lparr>gbx_seq := 0, gbx_seq_gen := 0, gbx_bit_cnt := 0\<rparr>"
  have tick: "gbx_sink_tick (xk_clk_period k0) (xk_gbx_delay k0) y (xk_gbx k0) = (g, False, False, False, 0)" for y
    using assms by (simp add: gbx_sink_tick_def k0_def g_def)
  have off: "\<not> gbx_on g" using assms by (simp add: gbx_on_def g_def)
  define k1 where "k1 = k0\<lparr>xk_gbx := g, xk_gbx_delay := 0\<rparr>"
  have k1: "xk_lane k1 = xk_lane k" "xk_rep k1 = xk_rep k" "xk_gbx k1 = g" by (simp_all add: k1_def k0_def)
  have "bx_sink_step K C c t True i k = (if xi_valid i = Some False then Inr k1
      else rbind (if bx_reverse c then k_reverse (bx_lanes_of c) (xi_k i) else Inr (xi_k i)) (\<lambda>x.
        Inr (k1\<lparr>xk_sync_bad := False, xk_lane := rx_lanes K C (xk_rep k) (bx_time c t (xk_clk_period k1) 0) (bx_lanes_of c)
          (if bx_reverse c then bit_reverse (8 * bx_lanes_of c) (xi_data i) else xi_data i) x (xk_lane k)\<rparr>)))" for i
    unfolding bx_sink_step_def k0_def [symmetric] Let_def tick prod.case using off by (simp add: k1_def k0_def)
  then show thesis by (rule that [OF k1(1,2), rotated]) (use assms in \<open>simp add: k1(3) g_def\<close>)
qed

context gmii_laws
begin

lemma sink_levels:
  assumes c: "bx_cfg_ok c" and inv: "bx_inv K C c tx rx V s b k"
  obtains k' where "bx_sink_step K C c t True (bx_bus_in b) k = Inr k'" "xk_rep k' = xk_rep k" "gbx_seq_len (xk_gbx k') = None"
    "glinked K C (xs_opts s) V rx (xs_lane s) (xk_lane k')"
proof -
  have i: "xk_rep k = g_rep (xs_opts s)" "gbx_seq_len (xk_gbx k) = None" "level K C c V rx s b (xk_lane k)" using inv by (simp_all add: bx_inv_def)
  from bx_sink_off [OF i(2)] obtain k1 where k1: "xk_lane k1 = xk_lane k" "xk_rep k1 = xk_rep k" "gbx_seq_len (xk_gbx k1) = None"
    "\<And>i. bx_sink_step K C c t True i k = (if xi_valid i = Some False then Inr k1
      else rbind (if bx_reverse c then k_reverse (bx_lanes_of c) (xi_k i) else Inr (xi_k i)) (\<lambda>x.
        Inr (k1\<lparr>xk_sync_bad := False, xk_lane := rx_lanes K C (xk_rep k) (bx_time c t (xk_clk_period k1) 0) (bx_lanes_of c)
          (if bx_reverse c then bit_reverse (8 * bx_lanes_of c) (xi_data i) else xi_data i) x (xk_lane k)\<rparr>)))" by metis
  show thesis
  proof (cases "xb_valid b")
    case False
    then show thesis using i(3) k1 that [of k1] by (simp add: bx_bus_in_def level_def)
  next
    case True
    then obtain cs where cs: "bus_word c cs b" "\<And>time. glinked K C (xs_opts s) V rx (xs_lane s) (rx_codes K C (g_rep (xs_opts s)) time cs (xk_lane k))"
      using i(3) by (auto simp: level_def)
    note w = bus_word_in [OF c cs(1)]
    have l: "length cs = bx_lanes_of c" "is_bytes (map fst cs)" using cs(1) by (simp_all add: bus_word_def)
    define time where "time = bx_time c t (xk_clk_period k1) 0"
    have "bx_sink_step K C c t True (bx_bus_in b) k = Inr (k1\<lparr>xk_sync_bad := False, xk_lane := rx_codes K C (xk_rep k) time cs (xk_lane k)\<rparr>)"
      unfolding k1(4) bx_bus_in_def bx_in.simps w time_def using True rx_lanes_word [OF l(2)] l(1) by simp
    then show thesis by (rule that) (use k1 cs(2) i(1) in simp_all)
  qed
qed

lemma src_next:
  assumes g: "glinked K C (xs_opts s) V rx (xs_lane s) l" and x: "bx_cfg_ok c"
  obtains s' b' where "bx_src_step K C c t True (s, b) = Inr (s', b')" "xs_opts s' = xs_opts s" "level K C c V rx s' b' l"
    "gstream C (xs_opts s) (xs_lane s') = gstream C (xs_opts s) (xs_lane s)"
proof -
  define s1 where "s1 = s\<lparr>xs_clk_period := (if xs_last_clk s \<noteq> 0 then t - xs_last_clk s else xs_clk_period s), xs_last_clk := t\<rparr>"
  obtain gb stall sync delay where tick: "gbx_src_tick (xs_clk_period s1) (xs_gbx_delay s1) (xs_gbx s1) = (gb, stall, sync, delay)" by (metis prod_cases4)
  define s2 where "s2 = s1\<lparr>xs_gbx := gb, xs_gbx_delay := delay\<rparr>"
  have s2: "xs_opts s2 = xs_opts s" "xs_lane s2 = xs_lane s" by (simp_all add: s2_def s1_def)
  show thesis
  proof (cases stall)
    case True
    have "bx_src_step K C c t True (s, b) = Inr (s2, \<lparr>xb_data = 0, xb_k = 0, xb_valid = False, xb_sync = sync\<rparr>)"
      unfolding bx_src_step_def prod.case s1_def [symmetric] Let_def tick s2_def [symmetric] using True by simp
    then show thesis by (rule that) (use g s2 in \<open>simp_all add: level_def\<close>)
  next
    case False
    define time where "time = bx_time c t (xs_clk_period s2) (- delay)"
    from lanes_link [OF g, of time "bx_lanes_of c"] obtain cs l' where cs: "src_lanes K C (xs_opts s) time (bx_lanes_of c) (xs_lane s) = Inr (cs, l')"
      "length cs = bx_lanes_of c" "is_bytes (map fst cs)" "gstream C (xs_opts s) l' = gstream C (xs_opts s) (xs_lane s)" by blast
    have ln: "glinked K C (xs_opts s) V rx l' (rx_codes K C (g_rep (xs_opts s)) time' cs l)" for time'
      using lanes_link [OF g, of time "bx_lanes_of c" time'] cs(1) by (metis Inr_inject prod.inject)
    obtain kb where kb: "(if bx_reverse c then k_reverse (bx_lanes_of c) (k_bits cs) else Inr (k_bits cs)) = Inr kb"
    proof (cases "bx_reverse c")
      case True
      then have "bx_lanes_of c = 2" using x by (simp add: bx_cfg_ok_def)
      then show thesis using that True k_reverse_two [of cs] cs(2) by auto
    qed (use that in simp)
    define b' where "b' = \<lparr>xb_data = (if bx_reverse c then bit_reverse (8 * bx_lanes_of c) (word_of cs) else word_of cs) AND (2 ^ (8 * bx_lanes_of c) - 1),
      xb_k = kb, xb_valid = True, xb_sync = sync\<rparr>"
    have "bx_src_step K C c t True (s, b) = Inr (s2\<lparr>xs_lane := l'\<rparr>, b')"
      unfolding bx_src_step_def prod.case s1_def [symmetric] Let_def tick s2_def [symmetric] s2 time_def [symmetric] cs(1) rbind_simps kb b'_def
      using False by simp
    moreover have "bus_word c cs b'" using cs(2,3) kb by (auto simp: bus_word_def b'_def split: if_splits)
    then have "level K C c V rx (s2\<lparr>xs_lane := l'\<rparr>) b' l" using ln s2 by (auto simp: level_def b'_def)
    ultimately show thesis using that cs(4) s2 by simp
  qed
qed

lemma bx_cycle_inv:
  assumes c: "bx_cfg_ok c" and inv: "bx_inv K C c tx rx V s b k"
  obtains s' b' k' where "bx_cycle K C c t enable (s, b, k) = Inr (s', b', k')" "bx_inv K C c tx rx V s' b' k'" "xs_opts s' = xs_opts s"
    "enable \<Longrightarrow> glinked K C (xs_opts s) V rx (xs_lane s) (xk_lane k')"
proof (cases enable)
  case False
  define s1 where "s1 = s\<lparr>xs_clk_period := (if xs_last_clk s \<noteq> 0 then t - xs_last_clk s else xs_clk_period s), xs_last_clk := t\<rparr>"
  define k1 where "k1 = k\<lparr>xk_clk_period := (if xk_last_clk k \<noteq> 0 then t - xk_last_clk k else xk_clk_period k), xk_last_clk := t\<rparr>"
  have "bx_cycle K C c t enable (s, b, k) = Inr (s1, b, k1)"
    using False by (simp add: bx_cycle_def bx_sink_step_def bx_src_step_def s1_def k1_def Let_def)
  moreover have "bx_inv K C c tx rx V s1 b k1" using inv by (simp add: bx_inv_def level_def s1_def k1_def)
  ultimately show thesis using that False by (simp add: s1_def)
next
  case True
  from sink_levels [OF c inv] obtain k' where k': "bx_sink_step K C c t True (bx_bus_in b) k = Inr k'" "xk_rep k' = xk_rep k" "gbx_seq_len (xk_gbx k') = None"
    "glinked K C (xs_opts s) V rx (xs_lane s) (xk_lane k')" by blast
  from src_next [OF k'(4) c] obtain s' b' where s': "bx_src_step K C c t True (s, b) = Inr (s', b')" "xs_opts s' = xs_opts s" "level K C c V rx s' b' (xk_lane k')"
    "gstream C (xs_opts s) (xs_lane s') = gstream C (xs_opts s) (xs_lane s)" by blast
  have "bx_inv K C c tx rx V s' b' k'" using inv k' s' by (simp add: bx_inv_def glinked_def)
  then show thesis using that [of s' b' k'] True k' s' by (simp add: bx_cycle_def)
qed

lemma bx_inv_init: "bx_cfg_ok c \<Longrightarrow> bx_start s k \<Longrightarrow> bx_inv K C c [] [] {} s bx_bus_idle k"
proof -
  assume "bx_start s k"
  then have s: "0 \<le> g_rep (xs_opts s)" "xs_lane s = gsrc_new" "xk_lane k = gsink_new" "xk_rep k = g_rep (xs_opts s)" "xk_gbx k = gbx_new 10"
    unfolding bx_start_def bx_src_new_def bx_sink_new_def by (metis bx_src.select_convs(1) bx_src.update_convs(2,3) bx_sink.select_convs bx_sink.update_convs(2))+
  show ?thesis using s(1) unfolding bx_inv_def level_def s(2-5)
    by (simp add: glinked_def in_frame_link_def gstream_def gsrc_new_def gsink_new_def bx_bus_idle_def gbx_new_def pend_link.Nothing)
qed

lemma bx_inv_recv:
  assumes inv: "bx_inv K C c tx rx V s b k" and b: "behind fs (xk_lane k) l"
  shows "bx_inv K C c tx (rx @ map gf_data fs) V s b (k\<lparr>xk_lane := l\<rparr>)"
proof -
  have "level K C c V (rx @ map gf_data fs) s b l" using inv glinked_behind [OF _ b] glinked_behind [OF _ rx_codes_behind [OF b]]
    unfolding bx_inv_def level_def by (auto split: if_splits)
  then show ?thesis using inv b by (auto simp: bx_inv_def behind_def)
qed

lemma level_no_errors:
  assumes "level K C c V rx s b l" "f \<in> set (gk_queue l)"
  shows "no_errors f"
proof (cases "xb_valid b")
  case True
  then obtain cs where "glinked K C (xs_opts s) V rx (xs_lane s) (rx_codes K C (g_rep (xs_opts s)) (\<lambda>_. 0) cs l)" using assms(1) by (auto simp: level_def)
  moreover have "f \<in> set (gk_queue (rx_codes K C (g_rep (xs_opts s)) (\<lambda>_. 0) cs l))" by (rule set_mono_prefix [OF rx_codes_queue, THEN subsetD, OF assms(2)])
  ultimately show ?thesis by (simp add: glinked_def)
qed (use assms in \<open>simp add: level_def glinked_def\<close>)

lemma bx_reach_inv:
  assumes "bx_reach K C c tx rx cf x" "bx_cfg_ok c"
  shows "case x of (s, b, k) \<Rightarrow> bx_inv K C c tx rx (regs cf) s b k"
  using assms
proof (induction rule: bx_reach.induct)
  case (Init s k)
  then show ?case using bx_inv_init by (simp add: regs_def)
next
  case (Send tx rx cf s b k f l)
  then have inv: "bx_inv K C c tx rx (regs cf) s b k" and l: "l = gsrc_put f (xs_lane s)" by (auto simp: gsrc_send_nowait_def split: if_splits)
  have "level K C c (regs cf) rx (s\<lparr>xs_lane := l\<rparr>) b (xk_lane k)" using inv glinked_put [OF _ Send.hyps(2)] unfolding l bx_inv_def level_def by (auto split: if_splits)
  then show ?case using inv by (simp add: bx_inv_def l gstream_def gsrc_put_def)
next
  case (Recv tx rx cf s b k do_compact f l)
  then have inv: "bx_inv K C c tx rx (regs cf) s b k" by simp
  from Recv.hyps(2) obtain f0 rest where q: "gk_queue (xk_lane k) = f0 # rest" and f: "f = (if do_compact then gm_compact C f0 else f0)"
    and l: "behind [f0] (xk_lane k) l" by (auto simp: gsink_recv_nowait_def behind_def split: list.splits)
  have "level K C c (regs cf) rx s b (xk_lane k)" using inv by (simp add: bx_inv_def)
  then have "no_errors f0" by (rule level_no_errors) (simp add: q)
  then have "gf_data f = gf_data f0" by (simp add: f compact)
  then show ?case using bx_inv_recv [OF inv l] by simp
next
  case (SetAn tx rx cf s b k v)
  let ?V = "regs (cf @ (case v of None \<Rightarrow> [] | Some x \<Rightarrow> [x]))"
  have sub: "regs cf \<subseteq> ?V" and v: "\<And>x. v = Some x \<Longrightarrow> x AND 0xffff \<in> ?V" by (auto simp: regs_def)
  have inv: "bx_inv K C c tx rx (regs cf) s b k" using SetAn by simp
  have "glinked K C o1 ?V rx (set_an_cfg v s1) l" if "glinked K C o1 (regs cf) rx s1 l" for s1 l o1 by (rule glinked_set_an [OF glinked_mono [OF that sub] v])
  then have "level K C c ?V rx (s\<lparr>xs_lane := set_an_cfg v (xs_lane s)\<rparr>) b (xk_lane k)" using inv unfolding bx_inv_def level_def by (auto split: if_splits)
  then show ?case using inv sub by (auto simp: bx_inv_def gstream_def set_an_cfg_def)
next
  case (GetAn tx rx cf s b k v l)
  then have "behind [] (xk_lane k) l" by (auto simp: get_an_cfg_def behind_def)
  then show ?case using bx_inv_recv [of c tx rx "regs cf" s b k "[]" l] GetAn by simp
next
  case (Cycle tx rx cf x t enable y)
  obtain s b k where x: "x = (s, b, k)" by (metis prod_cases3)
  have "bx_inv K C c tx rx (regs cf) s b k" using Cycle x by simp
  from bx_cycle_inv [OF Cycle.prems this, of t enable] Cycle.hyps(2) show ?case unfolding x by (metis Inr_inject case_prod_conv)
qed

end

section \<open>Frames as documented\<close>

text \<open>A frame class after the documentation of \<open>cocotbext.eth\<close>: the error list is filled up by \<open>normalize\<close>, and
  dropped by \<open>compact\<close> when it marks nothing.\<close>

definition gmii_frames :: gmii_class where
  "gmii_frames = \<lparr>
     gm_make = (\<lambda>d e. \<lparr>gf_data = d, gf_error = e, gf_start = None, gf_sfd = None, gf_end = None\<rparr>),
     gm_normalize = (\<lambda>f. f\<lparr>gf_error := (let n = length (gf_data f); e = gf_error f in
        if e = [] then replicate n False else take n e @ replicate (n - length e) (last e))\<rparr>),
     gm_compact = (\<lambda>f. if \<forall>e \<in> set (gf_error f). \<not> e then f\<lparr>gf_error := []\<rparr> else f)\<rparr>"

interpretation gm: gmii_laws ieee gmii_frames
  by unfold_locales (auto simp: gmii_frames_def no_errors_def bx_consts_ok_def ieee_def)

section \<open>Properties\<close>

text \<open>C6: The 1000BASE-X link end to end.  A source with any inter-frame gap, preamble truncation, byte repetition (the same
  in the sink) and gearbox, and a sink, with the same width, bit reversal only with two lanes; frames are put in and
  taken out and the autonegotiation register is set, cleared and read at any time.  Then no edge ever raises; the
  frames that arrive are those sent, in order and with their data; after an enabled edge the sink has every frame
  that the source had finished before it; and a register value that the sink reports is one that the source was given.\<close>

theorem base_x_link_delivers:
  assumes "gmii_laws K C" "bx_cfg_ok c" "bx_reach K C c tx rx cf (s, b, k)"
  shows "(\<exists>y. bx_cycle K C c t enable (s, b, k) = Inr y) \<and>
    prefix (rx @ map gf_data (gk_queue (xk_lane k))) tx \<and>
    (\<forall>s' b' k'. bx_cycle K C c t True (s, b, k) = Inr (s', b', k') \<longrightarrow>
       rx @ map gf_data (gk_queue (xk_lane k')) = map (\<lambda>f. wire (xs_opts s) (gf_data f)) (gs_done (xs_lane s))) \<and>
    (\<forall>v. gk_an_cfg (xk_lane k) = Some v \<longrightarrow> (\<exists>x \<in> set cf. v = x AND 0xffff))"
proof (intro conjI allI impI)
  have inv: "bx_inv K C c tx rx (regs cf) s b k" using gmii_laws.bx_reach_inv [OF assms(1,3,2)] by simp
  note cyc = gmii_laws.bx_cycle_inv [OF assms(1,2) inv]
  show "\<exists>y. bx_cycle K C c t enable (s, b, k) = Inr y" using cyc [of t enable] by blast
  show "rx @ map gf_data (gk_queue (xk_lane k')) = map (\<lambda>f. wire (xs_opts s) (gf_data f)) (gs_done (xs_lane s))"
    if h: "bx_cycle K C c t True (s, b, k) = Inr (s', b', k')" for s' b' k'
  proof -
    obtain s2 b2 k2 where k2: "bx_cycle K C c t True (s, b, k) = Inr (s2, b2, k2)" "glinked K C (xs_opts s) (regs cf) rx (xs_lane s) (xk_lane k2)"
      using cyc [of t True] by blast
    then have "k2 = k'" using h by simp
    then show ?thesis using k2(2) by (simp add: glinked_def)
  qed
  show "\<exists>x \<in> set cf. v = x AND 0xffff" if "gk_an_cfg (xk_lane k) = Some v" for v
    using inv that by (auto simp: bx_inv_def regs_def)
  show "prefix (rx @ map gf_data (gk_queue (xk_lane k))) tx"
  proof -
    have "prefix (rx @ map gf_data (gk_queue (xk_lane k))) (map (\<lambda>f. wire (xs_opts s) (gf_data f)) (gs_done (xs_lane s)))"
    proof (cases "xb_valid b")
      case True
      then obtain cs where cs: "glinked K C (xs_opts s) (regs cf) rx (xs_lane s) (rx_codes K C (g_rep (xs_opts s)) (\<lambda>_. 0) cs (xk_lane k))"
        using inv by (auto simp: bx_inv_def level_def)
      have "prefix (map gf_data (gk_queue (xk_lane k))) (map gf_data (gk_queue (rx_codes K C (g_rep (xs_opts s)) (\<lambda>_. 0) cs (xk_lane k))))"
        by (rule map_mono_prefix [OF rx_codes_queue])
      then have "prefix (rx @ map gf_data (gk_queue (xk_lane k))) (rx @ map gf_data (gk_queue (rx_codes K C (g_rep (xs_opts s)) (\<lambda>_. 0) cs (xk_lane k))))"
        by simp
      moreover have "rx @ map gf_data (gk_queue (rx_codes K C (g_rep (xs_opts s)) (\<lambda>_. 0) cs (xk_lane k))) = map (\<lambda>f. wire (xs_opts s) (gf_data f)) (gs_done (xs_lane s))"
        using cs by (simp add: glinked_def)
      ultimately show ?thesis by (simp only:)
    qed (use inv in \<open>simp add: bx_inv_def level_def glinked_def\<close>)
    also have "prefix \<dots> tx" using inv by (auto simp: bx_inv_def gstream_def comp_def)
    finally show ?thesis .
  qed
qed

definition bx_demo_cfg :: bx_cfg where "bx_demo_cfg = \<lparr>bx_lanes_of = 2, bx_reverse = True\<rparr>"

definition bx_demo_frame :: gframe where
  "bx_demo_frame = \<lparr>gf_data = replicate 7 0x55 @ [0xd5] @ [1..60], gf_error = [], gf_start = None, gf_sfd = None, gf_end = None\<rparr>"

definition bx_demo_src :: bx_src where
  "bx_demo_src = bx_src_new\<lparr>xs_opts := \<lparr>g_dic = True, g_ifg = 12, g_truncate = True, g_rep = 9, g_limit_bytes = -1, g_limit_frames = -1\<rparr>\<rparr>"

theorem base_x_link_delivers_witness:
  "\<exists>y. bx_cycle ieee gmii_frames bx_demo_cfg 6400 True
    (bx_demo_src\<lparr>xs_lane := gsrc_put bx_demo_frame (set_an_cfg (Some 0x4001) (xs_lane bx_demo_src))\<rparr>, bx_bus_idle, bx_sink_new\<lparr>xk_rep := 9\<rparr>) = Inr y"
proof -
  have st: "bx_start bx_demo_src (bx_sink_new\<lparr>xk_rep := 9\<rparr>)" by (simp add: bx_start_def bx_demo_src_def)
  note i = SetAn [OF Init [OF st], where K = ieee and C = gmii_frames and c = bx_demo_cfg and v = "Some 0x4001"]
  have "good_data ieee (gm_normalize gmii_frames bx_demo_frame)"
    by (simp add: good_data_def gmii_frames_def bx_demo_frame_def ieee_def is_bytes_def numeral_eq_Suc)
  moreover have "gsrc_send_nowait (xs_opts (bx_demo_src\<lparr>xs_lane := set_an_cfg (Some 0x4001) (xs_lane bx_demo_src)\<rparr>)) bx_demo_frame
      (xs_lane (bx_demo_src\<lparr>xs_lane := set_an_cfg (Some 0x4001) (xs_lane bx_demo_src)\<rparr>)) =
      Inr (gsrc_put bx_demo_frame (set_an_cfg (Some 0x4001) (xs_lane bx_demo_src)))"
    by (simp add: gsrc_send_nowait_def gsrc_full_def bx_demo_src_def)
  ultimately have "bx_reach ieee gmii_frames bx_demo_cfg
      ([] @ [wire (xs_opts (bx_demo_src\<lparr>xs_lane := set_an_cfg (Some 0x4001) (xs_lane bx_demo_src)\<rparr>)) (gf_data (gm_normalize gmii_frames bx_demo_frame))]) []
      ([] @ (case Some 0x4001 of None \<Rightarrow> [] | Some x \<Rightarrow> [x]))
      ((bx_demo_src\<lparr>xs_lane := set_an_cfg (Some 0x4001) (xs_lane bx_demo_src)\<rparr>)\<lparr>xs_lane := gsrc_put bx_demo_frame (set_an_cfg (Some 0x4001) (xs_lane bx_demo_src))\<rparr>,
       bx_bus_idle, bx_sink_new\<lparr>xk_rep := 9\<rparr>)" by (rule Send [OF i])
  from base_x_link_delivers [OF gm.gmii_laws_axioms _ this, where t = 6400 and enable = True] show ?thesis by (simp add: bx_cfg_ok_def bx_demo_cfg_def)
qed

section \<open>Running disparity\<close>

text \<open>The code groups of 8b/10b for a negative running disparity, as the standard lists them; for a positive one an
  unbalanced half is complemented, which changes the number of ones alone.\<close>

definition ones :: "nat \<Rightarrow> int \<Rightarrow> nat" where "ones n x = length (filter (bit x) [0..<n])"

definition code_6b :: "int \<Rightarrow> bool \<Rightarrow> int" where
  "code_6b x k = (if x = 28 \<and> k then 0x0F else
     [0x27, 0x1D, 0x2D, 0x31, 0x35, 0x29, 0x19, 0x38, 0x39, 0x25, 0x15, 0x34, 0x0D, 0x2C, 0x1C, 0x17,
      0x1B, 0x23, 0x13, 0x32, 0x0B, 0x2A, 0x1A, 0x3A, 0x33, 0x26, 0x16, 0x36, 0x0E, 0x2E, 0x1E, 0x2B] ! nat x)"

definition code_4b :: "int \<Rightarrow> int" where "code_4b y = [0xB, 0x9, 0x5, 0xC, 0xD, 0xA, 0x6, 0xE] ! nat y"

text \<open>The ones of a half at a running disparity, and the running disparity after it.\<close>

definition half_ones :: "nat \<Rightarrow> int \<Rightarrow> bool \<Rightarrow> nat" where
  "half_ones n cw rd = (if rd \<and> 2 * ones n cw \<noteq> n then n - ones n cw else ones n cw)"

definition half_rd :: "nat \<Rightarrow> int \<Rightarrow> bool \<Rightarrow> bool" where
  "half_rd n cw rd = (if 2 * half_ones n cw rd = n then rd else n < 2 * half_ones n cw rd)"

definition group_rd :: "int \<Rightarrow> bool \<Rightarrow> bool \<Rightarrow> bool" where
  "group_rd d k rd = half_rd 4 (code_4b (d div 32)) (half_rd 6 (code_6b (d mod 32) k) rd)"

lemma half_flips: "half_rd n cw rd \<longleftrightarrow> rd \<noteq> (2 * ones n cw \<noteq> n)" if "n \<le> 2 * ones n cw" "ones n cw \<le> n"
  using that by (auto simp: half_rd_def half_ones_def)

lemma code_tables:
  "\<forall>k \<in> set [True, False]. \<forall>x \<in> set [0..<32]. 6 \<le> 2 * ones 6 (code_6b (int x) k) \<and> ones 6 (code_6b (int x) k) \<le> 6 \<and>
     rd_flip_5b6b (int x) k = (2 * ones 6 (code_6b (int x) k) \<noteq> 6)"
  "\<forall>y \<in> set [0..<8]. 4 \<le> 2 * ones 4 (code_4b (int y)) \<and> ones 4 (code_4b (int y)) \<le> 4 \<and> rd_flip_3b4b (int y) = (2 * ones 4 (code_4b (int y)) \<noteq> 4)"
  by code_simp+

text \<open>C36: For every byte, as data or as control character, \<open>rd_flip_8b10b\<close> says exactly whether the running disparity
  after its 8b/10b code group differs from the one before, from either disparity.\<close>

theorem rd_flip_is_disparity:
  assumes "0 \<le> d" "d < 256"
  shows "group_rd d k rd \<longleftrightarrow> rd \<noteq> rd_flip_8b10b d k"
proof -
  have x: "nat (d mod 32) \<in> set [0..<32]" "nat (d div 32) \<in> set [0..<8]" using assms by (auto simp: nat_less_iff)
  have i: "int (nat (d mod 32)) = d mod 32" "int (nat (d div 32)) = d div 32" using assms by simp_all
  have m: "d AND 0x1f = d mod 32" "drop_bit 5 d = d div 32"
    using take_bit_eq_mask [of 5 d] by (simp_all add: mask_eq_exp_minus_1 take_bit_eq_mod drop_bit_eq_div)
  have k: "k \<in> set [True, False]" by simp
  show ?thesis using code_tables(1) [THEN bspec, OF k, THEN bspec, OF x(1)] code_tables(2) [THEN bspec, OF x(2)]
    unfolding i by (auto simp: group_rd_def rd_flip_8b10b_def m half_flips)
qed

theorem rd_flip_is_disparity_witness: "group_rd 0xBC True False \<and> rd_flip_8b10b 0xBC True"
  using rd_flip_is_disparity [where d = "0xBC" and k = True and rd = False] by (simp add: rd_flip_8b10b_def rd_flip_5b6b_def rd_flip_3b4b_def)

section \<open>Reversal\<close>

text \<open>An idle source: the code groups of a word, with the comma in every other lane.\<close>

lemma idle_lane:
  assumes "gs_queue s = []" "gs_frame s = None" "gs_pend s = []" "gs_an_cfg s = None" "\<not> gs_ext s"
  obtains s' where "src_lane K C opts t s = Inr (idle_code s, s')" "gs_queue s' = []" "gs_frame s' = None" "gs_pend s' = []" "gs_an_cfg s' = None"
    "\<not> gs_ext s'" "gs_odd s' = (\<not> gs_odd s)"
proof -
  have "\<exists>s1. between_frames K C opts t s = Inr s1 \<and> gs_queue s1 = [] \<and> gs_frame s1 = None \<and> gs_pend s1 = [] \<and> gs_an_cfg s1 = None \<and> \<not> gs_ext s1 \<and> gs_odd s1 = gs_odd s"
    using assms by (auto simp: between_frames_def take_frame_def count_gap_def)
  then obtain s1 where s1: "between_frames K C opts t s = Inr s1" "gs_queue s1 = []" "gs_frame s1 = None" "gs_pend s1 = []" "gs_an_cfg s1 = None"
    "\<not> gs_ext s1" "gs_odd s1 = gs_odd s" by blast
  have e: "end_ext s = s" "gs_ext (end_lane opts c s1) = gs_ext s1" for c using assms(5) by (simp_all add: end_ext_def end_lane_def Let_def)
  show thesis by (rule that [of "end_lane opts (idle_code s) s1"]) (use s1 e in \<open>simp_all add: src_lane_def lane_code_def\<close>)
qed

lemma idle_lanes:
  "\<exists>cs s. src_lanes K C opts time n gsrc_new = Inr (cs, s) \<and> length cs = n \<and> (\<forall>i < n. snd (cs ! i) = even i) \<and>
    gs_queue s = [] \<and> gs_frame s = None \<and> gs_pend s = [] \<and> gs_an_cfg s = None \<and> \<not> gs_ext s \<and> gs_odd s = odd n"
proof (induction n)
  case 0
  then show ?case by (simp add: src_lanes_def gsrc_new_def)
next
  case (Suc n)
  then obtain cs s where s: "src_lanes K C opts time n gsrc_new = Inr (cs, s)" "length cs = n" "\<forall>i < n. snd (cs ! i) = even i"
    "gs_queue s = []" "gs_frame s = None" "gs_pend s = []" "gs_an_cfg s = None" "\<not> gs_ext s" "gs_odd s = odd n" by blast
  from idle_lane [OF s(4-8), of K C opts "time n"] obtain s' where s': "src_lane K C opts (time n) s = Inr (idle_code s, s')"
    "gs_queue s' = []" "gs_frame s' = None" "gs_pend s' = []" "gs_an_cfg s' = None" "\<not> gs_ext s'" "gs_odd s' = (\<not> gs_odd s)" by blast
  have "src_lanes K C opts time (Suc n) gsrc_new = Inr (cs @ [idle_code s], s')" using s(1) s'(1) by (simp add: src_lanes_def rfold_append)
  moreover have "snd (idle_code s) = even n" using s(8,9) by (simp add: idle_code_def)
  ultimately show ?case using s s' by (intro exI [of _ "cs @ [idle_code s]"] exI [of _ s']) (auto simp: nth_append less_Suc_eq)
qed

text \<open>With bit reversal the control bits are only right with two lanes.  A new source with four or eight lanes raises
  on its first enabled edge, for the comma in the third lane; with one lane it drives the value 2 on the single bit.\<close>

theorem reversal_needs_two_lanes:
  assumes "bx_reverse c"
  shows "(bx_lanes_of c \<in> {4, 8} \<longrightarrow> bx_src_step K C c t True (bx_src_new, b) = Inl ValueError) \<and>
    (bx_lanes_of c = 1 \<longrightarrow> (\<exists>s' b'. bx_src_step K C c t True (bx_src_new, b) = Inr (s', b') \<and> xb_k b' = 2))"
proof -
  let ?n = "bx_lanes_of c" and ?o = "xs_opts bx_src_new"
  define s2 where "s2 = bx_src_new\<lparr>xs_clk_period := 0, xs_last_clk := t\<rparr>"
  have s2: "xs_lane s2 = gsrc_new" "xs_opts s2 = ?o" "xs_clk_period s2 = 0" by (simp_all add: s2_def bx_src_new_def)
  have tick: "gbx_src_tick 0 0 (gbx_new 10) = (gbx_new 10, False, False, 0)" by (simp add: gbx_src_tick_def gbx_new_def)
  obtain cs l where cs: "src_lanes K C ?o (bx_time c t 0 (- 0)) ?n gsrc_new = Inr (cs, l)" "length cs = ?n" "\<forall>i < ?n. snd (cs ! i) = even i"
    using idle_lanes by blast
  have "xs_clk_period bx_src_new = 0" "xs_last_clk bx_src_new = 0" "xs_gbx_delay bx_src_new = 0" "xs_gbx bx_src_new = gbx_new 10" by (simp_all add: bx_src_new_def)
  then have st: "bx_src_step K C c t True (bx_src_new, b) = rbind (k_reverse ?n (k_bits cs)) (\<lambda>k. Inr (s2\<lparr>xs_gbx := gbx_new 10, xs_gbx_delay := 0, xs_lane := l\<rparr>,
      \<lparr>xb_data = bit_reverse (8 * ?n) (word_of cs) AND (2 ^ (8 * ?n) - 1), xb_k = k, xb_valid = True, xb_sync = False\<rparr>))"
    using assms cs(1) s2 tick by (simp add: bx_src_step_def Let_def s2_def)
  have "k_reverse ?n (k_bits cs) = Inl ValueError" if n: "?n \<in> {4, 8}"
  proof -
    have "bit (k_bits cs) 2" "2 \<in> {2..<?n}" using n cs(2,3) by (auto simp: bit_k_bits)
    then show ?thesis by (auto simp: k_reverse_def)
  qed
  moreover have "k_reverse ?n (k_bits cs) = Inr 2" if n: "?n = 1"
  proof -
    have "bit (k_bits cs) 0" using n cs(2,3) by (simp add: bit_k_bits)
    then show ?thesis by (simp add: n k_reverse_def)
  qed
  ultimately show ?thesis unfolding st by simp
qed

theorem reversal_needs_two_lanes_witness:
  "bx_src_step ieee gmii_frames \<lparr>bx_lanes_of = 4, bx_reverse = True\<rparr> 7 True (bx_src_new, bx_bus_idle) = Inl ValueError"
  using reversal_needs_two_lanes [of "\<lparr>bx_lanes_of = 4, bx_reverse = True\<rparr>" ieee gmii_frames 7 bx_bus_idle] by simp

end
