(* ===== verification/PcieIf.thy ===== *)
theory PcieIf imports ByteRuns begin

text \<open>
  The PCIe interface models of the tests (\<open>src/pcie/tb/pcie_if.py\<close>): the frames that carry
  transaction layer packets, the configuration that the constructor reads off the bus, and the two
  ends of the streaming bus.  A source cuts frames into segments and offers one transaction per
  clock; a sink puts them together again.  Coroutines are step functions; the bus signals are
  integers in which the segments lie side by side.
\<close>

section \<open>Parity\<close>

definition fold_byte :: "int \<Rightarrow> int" where
  "fold_byte d = (let d1 = d XOR drop_bit 4 d; d2 = d1 XOR drop_bit 2 d1 in d2 XOR drop_bit 1 d2)"

definition dword_parity :: "int \<Rightarrow> int" where
  "dword_parity d0 =
     (let d = fold_byte d0; p0 = d AND 0x1;
          p1 = (if d AND 0x100 \<noteq> 0 then p0 OR 0x2 else p0);
          p2 = (if d AND 0x10000 \<noteq> 0 then p1 OR 0x4 else p1)
      in (if d AND 0x1000000 \<noteq> 0 then p2 OR 0x8 else p2))"

text \<open>The loop runs until the number is used up, so for a negative one it does not end.\<close>

partial_function (option) parity_loop :: "int \<Rightarrow> int \<Rightarrow> int \<Rightarrow> int option" where
  "parity_loop d b p =
     (if d \<noteq> 0
      then parity_loop (drop_bit 8 d) (push_bit 1 b) (if d AND 0x1 \<noteq> 0 then p OR b else p)
      else Some p)"

declare parity_loop.simps [code]

definition parity :: "int \<Rightarrow> int option" where
  "parity d = parity_loop (fold_byte d) 0x1 0"

section \<open>Frames\<close>

record pcie_frame =
  fr_tlp_prfx :: int
  fr_hdr :: int
  fr_data :: "int list"
  fr_tlp_prfx_par :: int
  fr_hdr_par :: int
  fr_parity :: "int list"
  fr_func_num :: int
  fr_vf_num :: "int option"
  fr_bar_id :: int
  fr_tlp_abort :: int
  fr_error :: int
  fr_seq :: int

definition new_frame :: pcie_frame where
  "new_frame = \<lparr>fr_tlp_prfx = 0, fr_hdr = 0, fr_data = [], fr_tlp_prfx_par = 0, fr_hdr_par = 0,
     fr_parity = [], fr_func_num = 0, fr_vf_num = None, fr_bar_id = 0, fr_tlp_abort = 0,
     fr_error = 0, fr_seq = 0\<rparr>"

definition update_parity :: "pcie_frame \<Rightarrow> pcie_frame option" where
  "update_parity f = Option.bind (parity (fr_hdr f)) (\<lambda>p.
     Some (f\<lparr>fr_parity := map (\<lambda>d. dword_parity d XOR 0xf) (fr_data f), fr_hdr_par := p,
             fr_tlp_prfx_par := dword_parity (fr_tlp_prfx f)\<rparr>))"

definition check_parity :: "pcie_frame \<Rightarrow> bool option" where
  "check_parity f =
     (if fr_parity f \<noteq> map (\<lambda>d. dword_parity d XOR 0xf) (fr_data f) then Some False
      else Option.bind (parity (fr_hdr f)) (\<lambda>p.
        Some (fr_hdr_par f = p \<and> fr_tlp_prfx_par f = dword_parity (fr_tlp_prfx f))))"

section \<open>The bus\<close>

text \<open>The lengths of the signals; an optional signal may be absent.\<close>

record pcie_bus =
  ln_hdr :: nat
  ln_valid :: nat
  ln_sop :: nat
  ln_eop :: nat
  ln_data :: "nat option"
  ln_empty :: "nat option"
  ln_error :: "nat option"
  ln_tlp_prfx :: "nat option"
  ln_vf_active :: "nat option"
  ln_func_num :: "nat option"
  ln_vf_num :: "nat option"
  ln_data_par :: "nat option"
  ln_hdr_par :: "nat option"
  ln_tlp_prfx_par :: "nat option"
  ln_seq :: "nat option"
  ln_bar_id :: "nat option"
  ln_tlp_abort :: "nat option"

record pcie_cfg =
  pc_bus :: pcie_bus
  pc_width :: nat
  pc_byte_lanes :: nat
  pc_seg_count :: nat
  pc_seg_width :: nat
  pc_seg_par_width :: nat
  pc_seg_byte_lanes :: nat
  pc_seg_empty_width :: nat
  pc_seq_width :: nat
  pc_func_num_width :: nat
  pc_vf_num_width :: nat

definition len_is :: "nat option \<Rightarrow> nat \<Rightarrow> bool" where
  "len_is l n \<longleftrightarrow> (case l of None \<Rightarrow> True | Some k \<Rightarrow> k = n)"

definition seg_len :: "nat option \<Rightarrow> nat \<Rightarrow> nat \<Rightarrow> nat" where
  "seg_len l n d = (case l of None \<Rightarrow> d | Some k \<Rightarrow> k div n)"

text \<open>The constructor of \<open>PcieIfBase\<close>: widths derived from the signals, and its assertions.\<close>

definition pcie_if_cfg :: "pcie_bus \<Rightarrow> pcie_cfg result" where
  "pcie_if_cfg b =
     (if ln_valid b = 0 then Inl (Raised ''ZeroDivisionError'')
      else let w = (case ln_data b of None \<Rightarrow> 64 | Some k \<Rightarrow> k); bl = w div 32; n = ln_valid b;
             sw = w div n; sbl = bl div n; ew = bit_length (nat \<bar>int sbl - 1\<bar>);
             fw = seg_len (ln_func_num b) n 8; vw = seg_len (ln_vf_num b) n 11
        in if len_is (ln_data b) (n * sw) \<and> ln_sop b = n \<and> ln_eop b = n \<and> ln_hdr b = n * 128 \<and>
             len_is (ln_tlp_prfx b) (n * 32) \<and> len_is (ln_empty b) (n * ew) \<and>
             len_is (ln_error b) (n * 4) \<and> len_is (ln_bar_id b) (n * 3) \<and>
             len_is (ln_tlp_abort b) n \<and> len_is (ln_vf_active b) n \<and>
             len_is (ln_data_par b) (n * sw div 8) \<and> len_is (ln_hdr_par b) (n * 128 div 8) \<and>
             len_is (ln_tlp_prfx_par b) (n * 32 div 8)
           then Inr \<lparr>pc_bus = b, pc_width = w, pc_byte_lanes = bl, pc_seg_count = n, pc_seg_width = sw,
                  pc_seg_par_width = sw div 8, pc_seg_byte_lanes = sbl, pc_seg_empty_width = ew,
                  pc_seq_width = seg_len (ln_seq b) n 6, pc_func_num_width = fw, pc_vf_num_width = vw\<rparr>
           else Inl AssertionError)"

text \<open>A transaction: the values of the signals in one clock cycle.\<close>

record pcie_tx =
  tx_data :: int
  tx_empty :: int
  tx_sop :: int
  tx_eop :: int
  tx_valid :: int
  tx_error :: int
  tx_hdr :: int
  tx_tlp_prfx :: int
  tx_seq :: int
  tx_vf_active :: int
  tx_func_num :: int
  tx_vf_num :: int
  tx_bar_id :: int
  tx_tlp_abort :: int
  tx_data_par :: int
  tx_hdr_par :: int
  tx_tlp_prfx_par :: int

definition idle_tx :: pcie_tx where
  "idle_tx = \<lparr>tx_data = 0, tx_empty = 0, tx_sop = 0, tx_eop = 0, tx_valid = 0, tx_error = 0,
     tx_hdr = 0, tx_tlp_prfx = 0, tx_seq = 0, tx_vf_active = 0, tx_func_num = 0, tx_vf_num = 0,
     tx_bar_id = 0, tx_tlp_abort = 0, tx_data_par = 0, tx_hdr_par = 0, tx_tlp_prfx_par = 0\<rparr>"

text \<open>
  \<open>bus.drive\<close> of the simulation library assigns every signal that the bus has and raises
  \<open>OverflowError\<close> for a value that does not fit; \<open>bus.sample\<close> reads those signals, the other
  attributes of a transaction keep their default 0.
\<close>

definition in_signal :: "nat option \<Rightarrow> int \<Rightarrow> bool" where
  "in_signal l v \<longleftrightarrow> (case l of None \<Rightarrow> True | Some n \<Rightarrow> fits n v)"

definition on_wire :: "nat option \<Rightarrow> int \<Rightarrow> int" where
  "on_wire l v = (case l of None \<Rightarrow> 0 | Some n \<Rightarrow> v)"

definition tx_fits :: "pcie_bus \<Rightarrow> pcie_tx \<Rightarrow> bool" where
  "tx_fits b t \<longleftrightarrow> fits (ln_hdr b) (tx_hdr t) \<and> fits (ln_valid b) (tx_valid t) \<and>
     fits (ln_sop b) (tx_sop t) \<and> fits (ln_eop b) (tx_eop t) \<and> in_signal (ln_data b) (tx_data t) \<and>
     in_signal (ln_empty b) (tx_empty t) \<and> in_signal (ln_error b) (tx_error t) \<and>
     in_signal (ln_tlp_prfx b) (tx_tlp_prfx t) \<and> in_signal (ln_vf_active b) (tx_vf_active t) \<and>
     in_signal (ln_func_num b) (tx_func_num t) \<and> in_signal (ln_vf_num b) (tx_vf_num t) \<and>
     in_signal (ln_data_par b) (tx_data_par t) \<and> in_signal (ln_hdr_par b) (tx_hdr_par t) \<and>
     in_signal (ln_tlp_prfx_par b) (tx_tlp_prfx_par t) \<and> in_signal (ln_seq b) (tx_seq t) \<and>
     in_signal (ln_bar_id b) (tx_bar_id t) \<and> in_signal (ln_tlp_abort b) (tx_tlp_abort t)"

definition wire_tx :: "pcie_bus \<Rightarrow> pcie_tx \<Rightarrow> pcie_tx" where
  "wire_tx b t = t\<lparr>tx_data := on_wire (ln_data b) (tx_data t), tx_empty := on_wire (ln_empty b) (tx_empty t),
     tx_error := on_wire (ln_error b) (tx_error t), tx_tlp_prfx := on_wire (ln_tlp_prfx b) (tx_tlp_prfx t),
     tx_vf_active := on_wire (ln_vf_active b) (tx_vf_active t),
     tx_func_num := on_wire (ln_func_num b) (tx_func_num t),
     tx_vf_num := on_wire (ln_vf_num b) (tx_vf_num t),
     tx_data_par := on_wire (ln_data_par b) (tx_data_par t),
     tx_hdr_par := on_wire (ln_hdr_par b) (tx_hdr_par t),
     tx_tlp_prfx_par := on_wire (ln_tlp_prfx_par b) (tx_tlp_prfx_par t),
     tx_seq := on_wire (ln_seq b) (tx_seq t), tx_bar_id := on_wire (ln_bar_id b) (tx_bar_id t),
     tx_tlp_abort := on_wire (ln_tlp_abort b) (tx_tlp_abort t)\<rparr>"

definition drive_bus :: "pcie_bus \<Rightarrow> pcie_tx \<Rightarrow> pcie_tx result" where
  "drive_bus b t = (if tx_fits b t then Inr (wire_tx b t) else Inl OverflowError)"

section \<open>Source\<close>

text \<open>
  \<open>so_cur\<close> is the frame in transmission with its offset, \<open>so_pend\<close> the transaction that waits in
  \<open>_drive\<close> for the place \<open>so_drive\<close>, which the clocked coroutine empties.
\<close>

record pcie_source =
  so_queue :: "pcie_frame list"
  so_occ_bytes :: int
  so_occ_frames :: int
  so_lim_bytes :: int
  so_lim_frames :: int
  so_cur :: "(pcie_frame \<times> nat) option"
  so_pend :: "pcie_tx option"
  so_drive :: "pcie_tx option"
  so_active :: bool
  so_idle_event :: bool
  so_pause :: bool

definition over_limit :: "int \<Rightarrow> int \<Rightarrow> int \<Rightarrow> int \<Rightarrow> bool" where
  "over_limit lim_bytes lim_frames occ_bytes occ_frames \<longleftrightarrow>
     (if lim_bytes > 0 \<and> occ_bytes > lim_bytes then True
      else if lim_frames > 0 \<and> occ_frames > lim_frames then True else False)"

definition pcie_source_full :: "pcie_source \<Rightarrow> bool" where
  "pcie_source_full s = over_limit (so_lim_bytes s) (so_lim_frames s) (so_occ_bytes s) (so_occ_frames s)"

definition pcie_source_init :: pcie_source where
  "pcie_source_init = \<lparr>so_queue = [], so_occ_bytes = 0, so_occ_frames = 0, so_lim_bytes = -1, so_lim_frames = -1,
     so_cur = None, so_pend = None, so_drive = None, so_active = False, so_idle_event = True,
     so_pause = False\<rparr>"

definition pcie_send_nowait :: "pcie_frame \<Rightarrow> pcie_source \<Rightarrow> pcie_source result" where
  "pcie_send_nowait f s =
     (if pcie_source_full s then Inl QueueFull
      else Inr (s\<lparr>so_queue := so_queue s @ [f], so_idle_event := False,
                  so_occ_bytes := so_occ_bytes s + int (length (fr_data f)),
                  so_occ_frames := so_occ_frames s + 1\<rparr>))"

text \<open>\<open>send\<close> waits while the source is full, that is, None until a frame has been taken.\<close>

definition pcie_send :: "pcie_frame \<Rightarrow> pcie_source \<Rightarrow> pcie_source option" where
  "pcie_send f s =
     (if pcie_source_full s then None
      else Some (s\<lparr>so_queue := so_queue s @ [f], so_idle_event := False,
                   so_occ_bytes := so_occ_bytes s + int (length (fr_data f)),
                   so_occ_frames := so_occ_frames s + 1\<rparr>))"

definition pcie_source_clear :: "pcie_source \<Rightarrow> pcie_source" where
  "pcie_source_clear s = s\<lparr>so_queue := [], so_idle_event := True\<rparr>"

definition pcie_source_idle :: "pcie_source \<Rightarrow> bool" where
  "pcie_source_idle s \<longleftrightarrow> so_queue s = [] \<and> \<not> so_active s"

definition get_frame_nowait :: "pcie_source \<Rightarrow> (pcie_frame \<times> pcie_source) result" where
  "get_frame_nowait s =
     (case so_queue s of
        [] \<Rightarrow> Inl QueueEmpty
      | f # fs \<Rightarrow> Inr (f, s\<lparr>so_queue := fs, so_occ_bytes := so_occ_bytes s - int (length (fr_data f)),
                           so_occ_frames := so_occ_frames s - 1\<rparr>))"

text \<open>\<open>x |= v << w * seg\<close>, for a value that is not negative.\<close>

definition or_field :: "nat \<Rightarrow> nat \<Rightarrow> int \<Rightarrow> int \<Rightarrow> int" where
  "or_field w seg v x = x OR push_bit (w * seg) v"

definition put_sop :: "pcie_frame \<Rightarrow> nat \<Rightarrow> pcie_tx \<Rightarrow> pcie_tx" where
  "put_sop f seg t = t\<lparr>tx_valid := set_seg seg (tx_valid t), tx_sop := set_seg seg (tx_sop t),
     tx_hdr := or_field 128 seg (fr_hdr f) (tx_hdr t),
     tx_tlp_prfx := or_field 32 seg (fr_tlp_prfx f) (tx_tlp_prfx t),
     tx_hdr_par := or_field 16 seg (fr_hdr_par f) (tx_hdr_par t),
     tx_tlp_prfx_par := or_field 4 seg (fr_tlp_prfx_par f) (tx_tlp_prfx_par t)\<rparr>"

definition put_sideband :: "pcie_cfg \<Rightarrow> pcie_frame \<Rightarrow> nat \<Rightarrow> pcie_tx \<Rightarrow> pcie_tx" where
  "put_sideband c f seg t0 =
     (let t1 = t0\<lparr>tx_bar_id := or_field 3 seg (fr_bar_id f) (tx_bar_id t0),
            tx_func_num := or_field (pc_func_num_width c) seg (fr_func_num f AND ones (pc_func_num_width c)) (tx_func_num t0)\<rparr>;
          t2 = (case fr_vf_num f of
             Some v \<Rightarrow> t1\<lparr>tx_vf_active := set_seg seg (tx_vf_active t1),
                tx_vf_num := or_field (pc_vf_num_width c) seg (v AND ones (pc_vf_num_width c)) (tx_vf_num t1)\<rparr>
           | None \<Rightarrow> t1)
      in t2\<lparr>tx_error := or_field 4 seg (fr_error f) (tx_error t2),
            tx_seq := or_field (pc_seq_width c) seg (fr_seq f) (tx_seq t2)\<rparr>)"

definition put_dword :: "pcie_cfg \<Rightarrow> pcie_frame \<Rightarrow> nat \<Rightarrow> nat \<Rightarrow> pcie_tx \<times> nat \<Rightarrow> (pcie_tx \<times> nat) result" where
  "put_dword c f seg k = (\<lambda>(t, off).
     rbind (py_get (fr_data f) (int off)) (\<lambda>d.
     rbind (py_get (fr_parity f) (int off)) (\<lambda>p.
     Inr (t\<lparr>tx_data := or_field 32 (k + seg * pc_seg_byte_lanes c) d (tx_data t),
            tx_data_par := or_field 4 (k + seg * pc_seg_byte_lanes c) p (tx_data_par t)\<rparr>, off + 1))))"

definition put_payload :: "pcie_cfg \<Rightarrow> pcie_frame \<Rightarrow> nat \<Rightarrow> pcie_tx \<times> nat \<Rightarrow> (pcie_tx \<times> nat) result" where
  "put_payload c f seg = (\<lambda>(t, off).
     if fr_data f \<noteq> []
     then let cnt = min (pc_seg_byte_lanes c) (length (fr_data f) - off)
          in rfold (put_dword c f seg) [0..<cnt]
               (t\<lparr>tx_valid := set_seg seg (tx_valid t),
                  tx_empty := or_field (pc_seg_empty_width c) seg (int (pc_seg_byte_lanes c - cnt)) (tx_empty t)\<rparr>, off)
     else Inr (t, off))"

text \<open>One segment.  With no frame in hand and none queued the code leaves the loop; the segments
  after that would find the same, so they change nothing.\<close>

definition source_segment :: "pcie_cfg \<Rightarrow> nat \<Rightarrow> pcie_source \<times> pcie_tx \<Rightarrow> (pcie_source \<times> pcie_tx) result" where
  "source_segment c seg = (\<lambda>(s0, t0).
     let send_seg = (\<lambda>f off first s.
           rbind (put_payload c f seg (put_sideband c f seg (if first then put_sop f seg t0 else t0), off)) (\<lambda>(t, off').
           Inr (if off' \<ge> length (fr_data f)
                then (s\<lparr>so_cur := None\<rparr>, t\<lparr>tx_eop := set_seg seg (tx_eop t)\<rparr>)
                else (s\<lparr>so_cur := Some (f, off')\<rparr>, t))))
     in (case so_cur s0 of
           Some (f, off) \<Rightarrow> send_seg f off False s0
         | None \<Rightarrow> if so_queue s0 \<noteq> []
             then rbind (get_frame_nowait s0) (\<lambda>(f, s). send_seg f 0 True s)
             else Inr (s0, t0)))"

text \<open>The coroutine \<open>_run\<close>: build a transaction if there is a frame, then hand it over when the place
  is free.\<close>

definition source_build :: "pcie_cfg \<Rightarrow> pcie_source \<Rightarrow> pcie_source result" where
  "source_build c s =
     (if so_pend s = None \<and> (so_cur s \<noteq> None \<or> so_queue s \<noteq> [])
      then rbind (rfold (source_segment c) [0..<pc_seg_count c] (s, idle_tx)) (\<lambda>(s1, t).
           Inr (s1\<lparr>so_pend := Some t\<rparr>))
      else Inr s)"

definition source_drive :: "pcie_source \<Rightarrow> pcie_source" where
  "source_drive s =
     (if so_drive s = None \<and> so_pend s \<noteq> None then s\<lparr>so_drive := so_pend s, so_pend := None\<rparr> else s)"

text \<open>\<open>_run_source\<close> on a clock edge.\<close>

definition source_edge ::
  "pcie_cfg \<Rightarrow> bool \<Rightarrow> bool \<Rightarrow> pcie_source \<times> pcie_tx \<Rightarrow> (pcie_source \<times> pcie_tx) result" where
  "source_edge c reset ready = (\<lambda>(s, bus).
     if reset then Inr (s\<lparr>so_active := False\<rparr>, bus\<lparr>tx_valid := 0\<rparr>)
     else if ready \<or> tx_valid bus = 0 then
       (case so_drive s of
          Some t \<Rightarrow>
            if \<not> so_pause s
            then rbind (drive_bus (pc_bus c) t) (\<lambda>b. Inr (s\<lparr>so_drive := None, so_active := True\<rparr>, b))
            else Inr (s\<lparr>so_active := True\<rparr>, bus\<lparr>tx_valid := 0\<rparr>)
        | None \<Rightarrow> Inr (s\<lparr>so_active := False, so_idle_event := True\<rparr>, bus\<lparr>tx_valid := 0\<rparr>))
     else Inr (s, bus))"

section \<open>Sink\<close>

record pcie_sink =
  sk_queue :: "pcie_frame list"
  sk_occ_bytes :: int
  sk_occ_frames :: int
  sk_lim_bytes :: int
  sk_lim_frames :: int
  sk_frame :: "pcie_frame option"
  sk_dword_count :: nat
  sk_active :: bool
  sk_active_event :: bool
  sk_pause :: bool

definition pcie_sink_init :: pcie_sink where
  "pcie_sink_init = \<lparr>sk_queue = [], sk_occ_bytes = 0, sk_occ_frames = 0, sk_lim_bytes = -1, sk_lim_frames = -1,
     sk_frame = None, sk_dword_count = 0, sk_active = False, sk_active_event = False, sk_pause = False\<rparr>"

definition pcie_sink_full :: "pcie_sink \<Rightarrow> bool" where
  "pcie_sink_full k = over_limit (sk_lim_bytes k) (sk_lim_frames k) (sk_occ_bytes k) (sk_occ_frames k)"

definition pcie_sink_clear :: "pcie_sink \<Rightarrow> pcie_sink" where
  "pcie_sink_clear k = k\<lparr>sk_queue := [], sk_active_event := False\<rparr>"

definition pcie_sink_idle :: "pcie_sink \<Rightarrow> bool" where
  "pcie_sink_idle k \<longleftrightarrow> \<not> sk_active k"

definition pcie_recv_nowait :: "pcie_sink \<Rightarrow> (pcie_frame \<times> pcie_sink) result" where
  "pcie_recv_nowait k =
     (case sk_queue k of
        [] \<Rightarrow> Inl QueueEmpty
      | f # fs \<Rightarrow> Inr (f, k\<lparr>sk_queue := fs,
            sk_active_event := (if fs = [] then False else sk_active_event k),
            sk_occ_bytes := sk_occ_bytes k - int (length (fr_data f)),
            sk_occ_frames := sk_occ_frames k - 1\<rparr>))"

definition sink_frame :: "pcie_frame \<Rightarrow> pcie_sink \<Rightarrow> pcie_sink" where
  "sink_frame f k = k\<lparr>sk_occ_bytes := sk_occ_bytes k + int (length (fr_data f)),
     sk_occ_frames := sk_occ_frames k + 1, sk_queue := sk_queue k @ [f], sk_active_event := True\<rparr>"

definition frame_dwords :: "int \<Rightarrow> nat" where
  "frame_dwords hdr =
     (if hdr AND push_bit 126 1 \<noteq> 0
      then let n = nat (drop_bit 96 hdr AND 0x3ff) in if n = 0 then 1024 else n
      else 0)"

definition take_sop :: "pcie_cfg \<Rightarrow> pcie_tx \<Rightarrow> nat \<Rightarrow> pcie_frame" where
  "take_sop c t seg =
     (let f = new_frame\<lparr>fr_tlp_prfx := get_field 32 seg (tx_tlp_prfx t),
            fr_tlp_prfx_par := get_field 4 seg (tx_tlp_prfx_par t), fr_hdr := get_field 128 seg (tx_hdr t),
            fr_hdr_par := get_field 16 seg (tx_hdr_par t), fr_bar_id := get_field 3 seg (tx_bar_id t),
            fr_func_num := get_field (pc_func_num_width c) seg (tx_func_num t)\<rparr>;
          f1 = (if seg_bit (tx_vf_active t) seg
                then f\<lparr>fr_vf_num := Some (get_field (pc_vf_num_width c) seg (tx_vf_num t))\<rparr> else f)
      in f1\<lparr>fr_error := get_field 4 seg (tx_error t), fr_seq := get_field (pc_seq_width c) seg (tx_seq t)\<rparr>)"

definition take_dword :: "int \<Rightarrow> int \<Rightarrow> nat \<Rightarrow> pcie_frame \<times> nat \<Rightarrow> pcie_frame \<times> nat" where
  "take_dword data data_par k = (\<lambda>(f, n).
     if n > 0 then (f\<lparr>fr_data := fr_data f @ [get_field 32 k data],
                      fr_parity := fr_parity f @ [get_field 4 k data_par]\<rparr>, n - 1)
     else (f, n))"

text \<open>One segment of a sampled transaction; a failed assertion ends the coroutine.\<close>

definition sink_segment :: "pcie_cfg \<Rightarrow> pcie_tx \<Rightarrow> nat \<Rightarrow> pcie_sink \<Rightarrow> pcie_sink result" where
  "sink_segment c t seg k =
     (if \<not> seg_bit (tx_valid t) seg then Inr k
      else
        rbind (if seg_bit (tx_sop t) seg
               then rbind (guard_err (sk_frame k = None) AssertionError) (\<lambda>_.
                    let f = take_sop c t seg in Inr (Some f, frame_dwords (fr_hdr f)))
               else Inr (sk_frame k, sk_dword_count k)) (\<lambda>(fo, n).
        case fo of
          None \<Rightarrow> Inl AssertionError
        | Some f \<Rightarrow>
            let (f1, n1) =
              (if n > 0
               then fold (take_dword (get_field (pc_seg_width c) seg (tx_data t))
                                     (get_field (pc_seg_par_width c) seg (tx_data_par t)))
                      [0..<pc_seg_byte_lanes c] (f, n)
               else (f, n))
            in if seg_bit (tx_eop t) seg
               then rbind (guard_err (n1 = 0) AssertionError) (\<lambda>_.
                    Inr ((sink_frame f1 k)\<lparr>sk_active := False, sk_frame := None, sk_dword_count := n1\<rparr>))
               else Inr (k\<lparr>sk_frame := Some f1, sk_dword_count := n1\<rparr>)))"

definition sink_sample :: "pcie_cfg \<Rightarrow> pcie_tx \<Rightarrow> pcie_sink \<Rightarrow> pcie_sink result" where
  "sink_sample c t k = rfold (sink_segment c t) [0..<pc_seg_count c] (k\<lparr>sk_active := True\<rparr>)"

text \<open>\<open>_run_sink\<close> on a clock edge, and \<open>_run\<close>, which it wakes and which runs before the next edge.\<close>

definition sink_edge :: "pcie_cfg \<Rightarrow> bool \<Rightarrow> pcie_tx \<Rightarrow> pcie_sink \<times> bool \<Rightarrow> (pcie_sink \<times> bool) result" where
  "sink_edge c reset bus = (\<lambda>(k, ready).
     if reset then Inr (k, False)
     else let ready' = (\<not> pcie_sink_full k \<and> \<not> sk_pause k)
       in if ready \<and> tx_valid bus \<noteq> 0
          then rbind (sink_sample c bus k) (\<lambda>k'. Inr (k', ready'))
          else Inr (k, ready'))"

end
