(* ===== verification/PcieLink.thy ===== *)
theory PcieLink imports PcieIf begin

text \<open>
  One transaction on the PCIe streaming bus: the segments that the source packs side by side are
  those the sink takes apart.  \<open>sees\<close> is what the sink looks at in one segment; packing segment
  \<open>n\<close> sets it there, leaves it alone in the segments before, and keeps every signal within its
  width (\<open>clean\<close>).
\<close>

section \<open>Fields laid side by side\<close>

lemma bit_or_field: "bit (or_field w seg v x) i \<longleftrightarrow> bit x i \<or> (w * seg \<le> i \<and> bit v (i - w * seg))"
  by (auto simp: or_field_def bit_simps)

lemma fits_or_field: "fits (w * seg) x \<Longrightarrow> fits w v \<Longrightarrow> fits (w * Suc seg) (or_field w seg v x)"
  unfolding fits_bit bit_or_field
proof (intro allI impI notI)
  fix i assume a: "\<forall>i\<ge>w * seg. \<not> bit x i" "\<forall>i\<ge>w. \<not> bit v i" "w * Suc seg \<le> i"
    "bit x i \<or> w * seg \<le> i \<and> bit v (i - w * seg)"
  have "w * seg \<le> i" "w \<le> i - w * seg" using a(3) by (simp_all add: le_diff_conv2)
  then show False using a by blast
qed

lemma get_or_field: "fits (w * seg) x \<Longrightarrow> fits w v \<Longrightarrow> get_field w seg (or_field w seg v x) = v"
  by (rule bit_eqI) (auto simp: bit_get_field bit_or_field fits_bit intro: ccontr [of "_ < _"])

lemma get_or_field_other:
  assumes "fits w v" "s \<noteq> seg"
  shows "get_field w s (or_field w seg v x) = get_field w s x"
proof (rule bit_eqI)
  fix n
  show "bit (get_field w s (or_field w seg v x)) n \<longleftrightarrow> bit (get_field w s x) n"
  proof (cases "n < w")
    case True
    have "\<not> (w * seg \<le> w * s + n \<and> bit v (w * s + n - w * seg))"
    proof
      assume a: "w * seg \<le> w * s + n \<and> bit v (w * s + n - w * seg)"
      then have "w * s + n - w * seg < w" using assms(1) by (meson fits_bit not_less)
      then show False using a field_disjoint [of seg s n w] True assms(2) by simp
    qed
    then show ?thesis by (auto simp: bit_get_field bit_or_field)
  qed (simp add: bit_get_field)
qed

lemma get_field_0 [simp]: "get_field w s 0 = 0"
  by (simp add: get_field_def)

lemma get_field_clean: "fits (w * n) x \<Longrightarrow> n \<le> s \<Longrightarrow> get_field w s x = 0"
proof (rule bit_eqI)
  fix i assume a: "fits (w * n) x" "n \<le> s"
  have "w * n \<le> w * s + i" using order_trans [OF mult_le_mono2 [OF a(2), of w] le_add1] .
  then show "bit (get_field w s x) i \<longleftrightarrow> bit 0 i" using a(1) by (simp add: bit_get_field fits_bit)
qed

text \<open>A run of fields, as the data words of one segment.\<close>

definition or_fields :: "nat \<Rightarrow> nat \<Rightarrow> int list \<Rightarrow> int \<Rightarrow> int" where
  "or_fields w base vs x = fold (\<lambda>k x. or_field w (k + base) (vs ! k) x) [0..<length vs] x"

lemma or_fields_snoc: "or_fields w base (vs @ [v]) x = or_field w (length vs + base) v (or_fields w base vs x)"
proof -
  have "fold (\<lambda>k x. or_field w (k + base) ((vs @ [v]) ! k) x) [0..<length vs] x = or_fields w base vs x"
    unfolding or_fields_def by (rule fold_cong) (simp_all add: nth_append)
  then show ?thesis by (simp add: or_fields_def)
qed

lemma or_fields_facts:
  assumes "fits (w * base) x"
  shows "words_fit w vs \<Longrightarrow> fits (w * (base + length vs)) (or_fields w base vs x) \<and>
    (\<forall>j. get_field w j (or_fields w base vs x) =
       (if base \<le> j \<and> j < base + length vs then vs ! (j - base) else get_field w j x))"
proof (induction vs rule: rev_induct)
  case Nil
  then show ?case using assms by (simp add: or_fields_def)
next
  case (snoc v vs)
  then have v: "fits w v" and ih: "fits (w * (base + length vs)) (or_fields w base vs x)"
    "\<And>j. get_field w j (or_fields w base vs x) =
       (if base \<le> j \<and> j < base + length vs then vs ! (j - base) else get_field w j x)"
    by (auto simp: words_fit_def)
  have e: "or_fields w base (vs @ [v]) x = or_field w (base + length vs) v (or_fields w base vs x)"
    by (simp add: or_fields_snoc add.commute)
  have "get_field w j (or_fields w base (vs @ [v]) x) =
    (if base \<le> j \<and> j < base + length (vs @ [v]) then (vs @ [v]) ! (j - base) else get_field w j x)" for j
  proof (cases "j = base + length vs")
    case True
    then show ?thesis using get_or_field [OF ih(1) v] by (simp add: e)
  next
    case False
    then show ?thesis using get_or_field_other [OF v, of j "base + length vs"]
      by (auto simp: e ih(2) nth_append)
  qed
  then show ?case using fits_or_field [OF ih(1) v] by (simp add: e)
qed

lemma get_sub_field:
  assumes "k < L"
  shows "get_field w k (get_field (w * L) s x) = get_field w (k + s * L) x"
proof (rule bit_eqI)
  fix n
  have "w * k + n < w * L" if "n < w"
  proof -
    have "w * Suc k \<le> w * L" using assms by (simp only: mult_le_mono2 Suc_leI)
    then show ?thesis using that by simp
  qed
  moreover have "w * L * s + (w * k + n) = w * (k + s * L) + n" by (simp add: algebra_simps)
  ultimately show "bit (get_field w k (get_field (w * L) s x)) n \<longleftrightarrow> bit (get_field w (k + s * L) x) n"
    unfolding bit_get_field by metis
qed

lemma on_wire_field: "get_field w s (on_wire l x) = on_wire l (get_field w s x)"
  by (simp add: on_wire_def split: option.split)

lemma on_wire_seg: "seg_bit (on_wire l x) s \<longleftrightarrow> l \<noteq> None \<and> seg_bit x s"
  by (auto simp: on_wire_def seg_bit_iff split: option.split)

lemma fits_set_seg: "fits n x \<Longrightarrow> fits (Suc n) (set_seg n x)" "fits n x \<Longrightarrow> fits (Suc n) x"
  by (auto simp: fits_bit bit_set_seg)

lemma seg_bit_clean: "fits n x \<Longrightarrow> n \<le> s \<Longrightarrow> \<not> seg_bit x s"
  by (simp add: fits_bit seg_bit_iff)

lemma seg_bit_set: "seg_bit (set_seg n x) s \<longleftrightarrow> s = n \<or> seg_bit x s"
  by (simp add: seg_bit_iff bit_set_seg)

lemma fits_grow: "fits (w * n) x \<Longrightarrow> fits (w * Suc n) x"
  by (erule fits_mono) simp

section \<open>What the sink looks at\<close>

text \<open>A configuration that the constructor derives, with segments of whole data words.\<close>

definition link_cfg :: "pcie_cfg \<Rightarrow> bool" where
  "link_cfg c \<longleftrightarrow> pcie_if_cfg (pc_bus c) = Inr c \<and> 0 < pc_seg_byte_lanes c \<and>
     pc_seg_width c = 32 * pc_seg_byte_lanes c"

lemma pcie_if_cfgD:
  assumes "pcie_if_cfg b = Inr c"
  shows "pc_bus c = b" "pc_seg_count c = ln_valid b" "0 < ln_valid b"
    "ln_sop b = ln_valid b" "ln_eop b = ln_valid b" "ln_hdr b = ln_valid b * 128"
    "len_is (ln_data b) (ln_valid b * pc_seg_width c)" "len_is (ln_tlp_prfx b) (ln_valid b * 32)"
    "len_is (ln_empty b) (ln_valid b * pc_seg_empty_width c)" "len_is (ln_error b) (ln_valid b * 4)"
    "len_is (ln_bar_id b) (ln_valid b * 3)" "len_is (ln_tlp_abort b) (ln_valid b)"
    "len_is (ln_vf_active b) (ln_valid b)" "len_is (ln_data_par b) (ln_valid b * pc_seg_width c div 8)"
    "len_is (ln_hdr_par b) (ln_valid b * 128 div 8)" "len_is (ln_tlp_prfx_par b) (ln_valid b * 32 div 8)"
    "pc_seg_par_width c = pc_seg_width c div 8"
    "pc_seg_empty_width c = bit_length (nat \<bar>int (pc_seg_byte_lanes c) - 1\<bar>)"
    "pc_seq_width c = seg_len (ln_seq b) (ln_valid b) 6"
    "pc_func_num_width c = seg_len (ln_func_num b) (ln_valid b) 8"
    "pc_vf_num_width c = seg_len (ln_vf_num b) (ln_valid b) 11"
  using assms unfolding pcie_if_cfg_def Let_def by (auto split: if_splits)

definition sees ::
  "pcie_cfg \<Rightarrow> pcie_tx \<Rightarrow> nat \<Rightarrow> bool \<times> bool \<times> bool \<times> pcie_frame \<times> int list \<times> int list" where
  "sees c t s = (seg_bit (tx_valid t) s, seg_bit (tx_sop t) s, seg_bit (tx_eop t) s, take_sop c t s,
     map (\<lambda>k. get_field 32 (k + s * pc_seg_byte_lanes c) (tx_data t)) [0..<pc_seg_byte_lanes c],
     map (\<lambda>k. get_field 4 (k + s * pc_seg_byte_lanes c) (tx_data_par t)) [0..<pc_seg_byte_lanes c])"

text \<open>A segment as the sink takes it in, in terms of what it sees.\<close>

definition eat ::
  "bool \<times> bool \<times> bool \<times> pcie_frame \<times> int list \<times> int list \<Rightarrow> pcie_sink \<Rightarrow> pcie_sink result" where
  "eat = (\<lambda>(valid, sop, eop, f0, ds, ps) k.
     if \<not> valid then Inr k else
     rbind (if sop
            then rbind (guard_err (sk_frame k = None) AssertionError) (\<lambda>_. Inr (Some f0, frame_dwords (fr_hdr f0)))
            else Inr (sk_frame k, sk_dword_count k)) (\<lambda>(fo, n).
     case fo of
       None \<Rightarrow> Inl AssertionError
     | Some f \<Rightarrow>
         let f1 = f\<lparr>fr_data := fr_data f @ take n ds, fr_parity := fr_parity f @ take n ps\<rparr>;
             n1 = n - length ds
         in if eop
            then rbind (guard_err (n1 = 0) AssertionError) (\<lambda>_.
                 Inr ((sink_frame f1 k)\<lparr>sk_active := False, sk_frame := None, sk_dword_count := n1\<rparr>))
            else Inr (k\<lparr>sk_frame := Some f1, sk_dword_count := n1\<rparr>)))"

lemma take_dwords:
  "fold (take_dword d p) [0..<L] (f, n) =
     (f\<lparr>fr_data := fr_data f @ take n (map (\<lambda>k. get_field 32 k d) [0..<L]),
        fr_parity := fr_parity f @ take n (map (\<lambda>k. get_field 4 k p) [0..<L])\<rparr>, n - L)"
proof (induction L)
  case (Suc L)
  show ?case
  proof (cases "n \<le> L")
    case True
    then show ?thesis using Suc by (simp add: take_dword_def)
  next
    case False
    then have "n - L = Suc (n - Suc L)" by simp
    then show ?thesis using Suc False by (simp add: take_dword_def)
  qed
qed simp

lemma sink_segment_eat:
  assumes "link_cfg c"
  shows "sink_segment c t seg k = eat (sees c t seg) k"
proof -
  let ?L = "pc_seg_byte_lanes c"
  have w: "pc_seg_width c = 32 * ?L" and pw: "pc_seg_par_width c = 4 * ?L"
  proof -
    have "pcie_if_cfg (pc_bus c) = Inr c" "pc_seg_width c = 32 * ?L"
      using assms by (simp_all add: link_cfg_def)
    moreover note pcie_if_cfgD(17) [OF this(1)]
    ultimately show "pc_seg_width c = 32 * ?L" "pc_seg_par_width c = 4 * ?L" by simp_all
  qed
  have "map (\<lambda>k. get_field 32 k (get_field (pc_seg_width c) seg x)) [0..<?L] =
      map (\<lambda>k. get_field 32 (k + seg * ?L) x) [0..<?L]"
    "map (\<lambda>k. get_field 4 k (get_field (pc_seg_par_width c) seg x)) [0..<?L] =
      map (\<lambda>k. get_field 4 (k + seg * ?L) x) [0..<?L]" for x
    unfolding w pw by (simp_all add: get_sub_field)
  note m = this
  have s: "(if n > 0 then fold (take_dword (get_field (pc_seg_width c) seg (tx_data t))
      (get_field (pc_seg_par_width c) seg (tx_data_par t))) [0..<?L] (f, n) else (f, n)) =
    (f\<lparr>fr_data := fr_data f @ take n (map (\<lambda>k. get_field 32 (k + seg * ?L) (tx_data t)) [0..<?L]),
       fr_parity := fr_parity f @ take n (map (\<lambda>k. get_field 4 (k + seg * ?L) (tx_data_par t)) [0..<?L])\<rparr>, n - ?L)" for f n
    by (simp add: take_dwords m)
  show ?thesis
    unfolding sink_segment_def eat_def sees_def prod.case s Let_def length_map length_upt minus_nat.diff_0
    by (rule refl)
qed

section \<open>Packing one segment\<close>

definition frame_ok :: "pcie_cfg \<Rightarrow> pcie_frame \<Rightarrow> bool" where
  "frame_ok c f \<longleftrightarrow> fits 128 (fr_hdr f) \<and> fits 32 (fr_tlp_prfx f) \<and> fits 16 (fr_hdr_par f) \<and>
     fits 4 (fr_tlp_prfx_par f) \<and> fits 3 (fr_bar_id f) \<and> fits 4 (fr_error f) \<and>
     fits (pc_seq_width c) (fr_seq f) \<and> words_fit 32 (fr_data f) \<and> words_fit 4 (fr_parity f) \<and>
     length (fr_parity f) = length (fr_data f) \<and>
     (if bit (fr_hdr f) 126
      then 0 < length (fr_data f) \<and> length (fr_data f) \<le> 1024 \<and>
        take_bit 10 (drop_bit 96 (fr_hdr f)) = int (length (fr_data f)) mod 1024
      else fr_data f = [])"

text \<open>The header of a frame says how many words follow: in ten bits, of which 0 stands for 1024.\<close>

lemma frame_ok_dwords: "frame_ok c f \<Longrightarrow> frame_dwords (fr_hdr f) = length (fr_data f)"
proof -
  assume f: "frame_ok c f"
  have b: "fr_hdr f AND push_bit 126 1 \<noteq> 0 \<longleftrightarrow> bit (fr_hdr f) 126"
    using seg_bit_iff [of "fr_hdr f" 126] by (simp add: seg_bit_def)
  have m: "drop_bit 96 (fr_hdr f) AND 0x3ff = take_bit 10 (drop_bit 96 (fr_hdr f))"
    by (simp add: take_bit_eq_mask mask_numeral)
  show ?thesis
  proof (cases "bit (fr_hdr f) 126")
    case False
    then have "frame_dwords (fr_hdr f) = 0" using b unfolding frame_dwords_def by (simp only: if_False not_not)
    then show ?thesis using f False by (simp add: frame_ok_def)
  next
    case True
    then have "take_bit 10 (drop_bit 96 (fr_hdr f)) = int (length (fr_data f)) mod 1024"
      and l: "0 < length (fr_data f)" "length (fr_data f) \<le> 1024" using f by (simp_all add: frame_ok_def)
    then have "nat (take_bit 10 (drop_bit 96 (fr_hdr f))) = length (fr_data f) mod 1024"
      by (simp add: nat_mod_distrib)
    moreover have "length (fr_data f) mod 1024 = (if length (fr_data f) = 1024 then 0 else length (fr_data f))"
      using l by simp
    ultimately show ?thesis using b True l unfolding frame_dwords_def m Let_def by simp
  qed
qed

definition seg_cnt :: "pcie_cfg \<Rightarrow> pcie_frame \<Rightarrow> nat \<Rightarrow> nat" where
  "seg_cnt c f off = min (pc_seg_byte_lanes c) (length (fr_data f) - off)"

definition pack_words :: "pcie_cfg \<Rightarrow> pcie_frame \<Rightarrow> nat \<Rightarrow> nat \<Rightarrow> pcie_tx \<Rightarrow> pcie_tx" where
  "pack_words c f off seg t = t\<lparr>
     tx_data := or_fields 32 (seg * pc_seg_byte_lanes c) (take (seg_cnt c f off) (drop off (fr_data f))) (tx_data t),
     tx_data_par := or_fields 4 (seg * pc_seg_byte_lanes c) (take (seg_cnt c f off) (drop off (fr_parity f))) (tx_data_par t)\<rparr>"

definition pack_payload :: "pcie_cfg \<Rightarrow> pcie_frame \<Rightarrow> nat \<Rightarrow> nat \<Rightarrow> pcie_tx \<Rightarrow> pcie_tx" where
  "pack_payload c f off seg t =
     (if fr_data f \<noteq> []
      then pack_words c f off seg (t\<lparr>tx_valid := set_seg seg (tx_valid t),
             tx_empty := or_field (pc_seg_empty_width c) seg (int (pc_seg_byte_lanes c - seg_cnt c f off)) (tx_empty t)\<rparr>)
      else t)"

definition pack_segment :: "pcie_cfg \<Rightarrow> pcie_frame \<Rightarrow> nat \<Rightarrow> bool \<Rightarrow> nat \<Rightarrow> pcie_tx \<Rightarrow> pcie_tx" where
  "pack_segment c f off first seg t0 =
     (let t = pack_payload c f off seg (put_sideband c f seg (if first then put_sop f seg t0 else t0))
      in if off + seg_cnt c f off \<ge> length (fr_data f) then t\<lparr>tx_eop := set_seg seg (tx_eop t)\<rparr> else t)"

lemma put_dwords:
  assumes "length (fr_parity f) = length (fr_data f)" "off + n \<le> length (fr_data f)"
  shows "rfold (put_dword c f seg) [0..<n] (t, off) =
    Inr (t\<lparr>tx_data := or_fields 32 (seg * pc_seg_byte_lanes c) (take n (drop off (fr_data f))) (tx_data t),
           tx_data_par := or_fields 4 (seg * pc_seg_byte_lanes c) (take n (drop off (fr_parity f))) (tx_data_par t)\<rparr>, off + n)"
  using assms(2)
proof (induction n)
  case 0
  then show ?case by (simp add: or_fields_def)
next
  case (Suc n)
  have "take (Suc n) (drop off xs) = take n (drop off xs) @ [xs ! (off + n)]" if "off + n < length xs" for xs :: "int list"
    using that by (simp add: take_Suc_conv_app_nth)
  moreover have "py_get xs (int off + int n) = Inr (xs ! (off + n))" if "off + n < length xs" for xs :: "int list"
    using py_get_nat [OF that] by simp
  ultimately show ?case using Suc assms(1)
    by (simp add: rfold_append put_dword_def or_fields_snoc)
qed

lemma put_payload_pack:
  assumes "frame_ok c f" "off \<le> length (fr_data f)"
  shows "put_payload c f seg (t, off) = Inr (pack_payload c f off seg t, off + seg_cnt c f off)"
proof -
  have "length (fr_parity f) = length (fr_data f)" "off + seg_cnt c f off \<le> length (fr_data f)"
    using assms by (simp_all add: frame_ok_def seg_cnt_def)
  note d = put_dwords [OF this]
  show ?thesis
  proof (cases "fr_data f = []")
    case True
    then show ?thesis by (simp add: put_payload_def pack_payload_def seg_cnt_def)
  next
    case False
    then show ?thesis unfolding put_payload_def prod.case Let_def seg_cnt_def [symmetric] d
      by (simp add: pack_payload_def pack_words_def)
  qed
qed

lemma set_seg_idem [simp]: "set_seg n (set_seg n x) = set_seg n x"
  by (simp add: set_seg_def or.assoc)

text \<open>Every signal after the segment.\<close>

lemma pack_segment_signals:
  "tx_valid (pack_segment c f off first seg t) =
     (if first \<or> fr_data f \<noteq> [] then set_seg seg (tx_valid t) else tx_valid t)"
  "tx_sop (pack_segment c f off first seg t) = (if first then set_seg seg (tx_sop t) else tx_sop t)"
  "tx_eop (pack_segment c f off first seg t) =
     (if off + seg_cnt c f off \<ge> length (fr_data f) then set_seg seg (tx_eop t) else tx_eop t)"
  "tx_hdr (pack_segment c f off first seg t) = (if first then or_field 128 seg (fr_hdr f) (tx_hdr t) else tx_hdr t)"
  "tx_tlp_prfx (pack_segment c f off first seg t) =
     (if first then or_field 32 seg (fr_tlp_prfx f) (tx_tlp_prfx t) else tx_tlp_prfx t)"
  "tx_hdr_par (pack_segment c f off first seg t) =
     (if first then or_field 16 seg (fr_hdr_par f) (tx_hdr_par t) else tx_hdr_par t)"
  "tx_tlp_prfx_par (pack_segment c f off first seg t) =
     (if first then or_field 4 seg (fr_tlp_prfx_par f) (tx_tlp_prfx_par t) else tx_tlp_prfx_par t)"
  "tx_bar_id (pack_segment c f off first seg t) = or_field 3 seg (fr_bar_id f) (tx_bar_id t)"
  "tx_func_num (pack_segment c f off first seg t) =
     or_field (pc_func_num_width c) seg (fr_func_num f AND ones (pc_func_num_width c)) (tx_func_num t)"
  "tx_vf_active (pack_segment c f off first seg t) =
     (if fr_vf_num f = None then tx_vf_active t else set_seg seg (tx_vf_active t))"
  "tx_vf_num (pack_segment c f off first seg t) = (case fr_vf_num f of None \<Rightarrow> tx_vf_num t
     | Some v \<Rightarrow> or_field (pc_vf_num_width c) seg (v AND ones (pc_vf_num_width c)) (tx_vf_num t))"
  "tx_error (pack_segment c f off first seg t) = or_field 4 seg (fr_error f) (tx_error t)"
  "tx_seq (pack_segment c f off first seg t) = or_field (pc_seq_width c) seg (fr_seq f) (tx_seq t)"
  "tx_empty (pack_segment c f off first seg t) = (if fr_data f \<noteq> []
     then or_field (pc_seg_empty_width c) seg (int (pc_seg_byte_lanes c - seg_cnt c f off)) (tx_empty t) else tx_empty t)"
  "tx_data (pack_segment c f off first seg t) = (if fr_data f \<noteq> []
     then or_fields 32 (seg * pc_seg_byte_lanes c) (take (seg_cnt c f off) (drop off (fr_data f))) (tx_data t)
     else tx_data t)"
  "tx_data_par (pack_segment c f off first seg t) = (if fr_data f \<noteq> []
     then or_fields 4 (seg * pc_seg_byte_lanes c) (take (seg_cnt c f off) (drop off (fr_parity f))) (tx_data_par t)
     else tx_data_par t)"
  "tx_tlp_abort (pack_segment c f off first seg t) = tx_tlp_abort t"
  by (simp_all add: pack_segment_def Let_def pack_payload_def pack_words_def put_sideband_def put_sop_def
      split: option.split)

section \<open>Signals stay within their widths\<close>

definition clean :: "pcie_cfg \<Rightarrow> nat \<Rightarrow> pcie_tx \<Rightarrow> bool" where
  "clean c n t \<longleftrightarrow> fits n (tx_valid t) \<and> fits n (tx_sop t) \<and> fits n (tx_eop t) \<and> fits n (tx_vf_active t) \<and>
     fits (128 * n) (tx_hdr t) \<and> fits (32 * n) (tx_tlp_prfx t) \<and> fits (16 * n) (tx_hdr_par t) \<and>
     fits (4 * n) (tx_tlp_prfx_par t) \<and> fits (3 * n) (tx_bar_id t) \<and>
     fits (pc_func_num_width c * n) (tx_func_num t) \<and> fits (pc_vf_num_width c * n) (tx_vf_num t) \<and>
     fits (4 * n) (tx_error t) \<and> fits (pc_seq_width c * n) (tx_seq t) \<and>
     fits (pc_seg_empty_width c * n) (tx_empty t) \<and>
     fits (32 * (n * pc_seg_byte_lanes c)) (tx_data t) \<and>
     fits (4 * (n * pc_seg_byte_lanes c)) (tx_data_par t) \<and> tx_tlp_abort t = 0"

lemma clean_idle: "clean c n idle_tx"
  by (simp add: clean_def idle_tx_def)

lemma fits_and_ones: "fits w (v AND ones w)"
  using fits_mask [of w v] by (simp only: mask_eq_exp_minus_1)

lemma nat_below_bit_length: "n < 2 ^ bit_length n"
proof (induction n rule: less_induct)
  case (less n)
  show ?case
  proof (cases "n = 0")
    case False
    then have "n div 2 < 2 ^ bit_length (n div 2)" using less by simp
    then have "n < 2 * 2 ^ bit_length (n div 2)" by linarith
    then show ?thesis using False by (simp add: bit_length.simps [of n])
  qed (simp add: bit_length.simps)
qed

lemma words_fit_sub: "words_fit w xs \<Longrightarrow> words_fit w (take n (drop m xs))"
  by (auto simp: words_fit_def dest: in_set_takeD in_set_dropD)

lemma fits_empty:
  assumes "link_cfg c" "off < length (fr_data f)"
  shows "fits (pc_seg_empty_width c) (int (pc_seg_byte_lanes c - seg_cnt c f off))"
proof -
  have "pcie_if_cfg (pc_bus c) = Inr c" and L: "0 < pc_seg_byte_lanes c" using assms(1) by (simp_all add: link_cfg_def)
  from pcie_if_cfgD(18) [OF this(1)] L have w: "pc_seg_empty_width c = bit_length (pc_seg_byte_lanes c - 1)"
    by (simp add: nat_diff_distrib')
  have "pc_seg_byte_lanes c - seg_cnt c f off \<le> pc_seg_byte_lanes c - 1"
    using assms(2) L by (simp add: seg_cnt_def)
  then have "pc_seg_byte_lanes c - seg_cnt c f off < 2 ^ pc_seg_empty_width c"
    using nat_below_bit_length [of "pc_seg_byte_lanes c - 1"] w by simp
  then show ?thesis by (simp add: fits_def)
qed

lemma clean_data:
  assumes "fits (w * (n * L)) x" "words_fit w vs" "length vs \<le> L"
  shows "fits (w * (Suc n * L)) (or_fields w (n * L) vs x)"
proof -
  have "w * (n * L + length vs) \<le> w * (Suc n * L)" using assms(3) by (intro mult_le_mono2) simp
  then show ?thesis using or_fields_facts [OF assms(1,2)] fits_mono by blast
qed

text \<open>The shapes that the signals of a packed segment have.\<close>

lemma fits_shapes:
  "fits n x \<Longrightarrow> fits (Suc n) (if b then set_seg n x else x)"
  "fits n x \<Longrightarrow> fits (Suc n) (if b then x else set_seg n x)"
  "fits (w * n) x \<Longrightarrow> (b \<Longrightarrow> fits w v) \<Longrightarrow> fits (w * Suc n) (if b then or_field w n v x else x)"
  "fits (w * n) x \<Longrightarrow> fits w v \<Longrightarrow> fits (w * Suc n) (or_field w n v x)"
  "fits (w * n) x \<Longrightarrow> (\<And>v. fits w (g v)) \<Longrightarrow>
     fits (w * Suc n) (case vo of None \<Rightarrow> x | Some v \<Rightarrow> or_field w n (g v) x)"
  by (auto simp del: mult_Suc_right intro: fits_set_seg fits_or_field fits_grow split: option.split)

lemma clean_pack:
  assumes "link_cfg c" "frame_ok c f" "fr_data f = [] \<or> off < length (fr_data f)" "clean c n t"
  shows "clean c (Suc n) (pack_segment c f off first n t)"
proof -
  have f: "fits 128 (fr_hdr f)" "fits 32 (fr_tlp_prfx f)" "fits 16 (fr_hdr_par f)" "fits 4 (fr_tlp_prfx_par f)"
    "fits 3 (fr_bar_id f)" "fits 4 (fr_error f)" "fits (pc_seq_width c) (fr_seq f)"
    "words_fit 32 (fr_data f)" "words_fit 4 (fr_parity f)" "length (fr_parity f) = length (fr_data f)"
    using assms(2) by (simp_all add: frame_ok_def)
  note c = assms(4) [unfolded clean_def]
  have e: "fr_data f \<noteq> [] \<Longrightarrow> fits (pc_seg_empty_width c) (int (pc_seg_byte_lanes c - seg_cnt c f off))"
    using fits_empty [OF assms(1)] assms(3) by blast
  have l: "length (take (seg_cnt c f off) (drop off xs)) \<le> pc_seg_byte_lanes c" for xs :: "int list"
    by (simp add: seg_cnt_def)
  have d: "fits (w * (Suc n * pc_seg_byte_lanes c)) (if b then
      or_fields w (n * pc_seg_byte_lanes c) (take (seg_cnt c f off) (drop off xs)) x else x)"
    if "fits (w * (n * pc_seg_byte_lanes c)) x" "words_fit w xs" for b w xs x
    using clean_data [OF that(1) words_fit_sub [OF that(2)] l] that(1) by (auto elim: fits_mono)
  show ?thesis unfolding clean_def pack_segment_signals
    by (intro conjI fits_shapes fits_and_ones d; (rule e, assumption)?; (use c f in \<open>simp only:\<close>)?)
qed

section \<open>Source and sink on one segment\<close>

abbreviation wired :: "pcie_cfg \<Rightarrow> pcie_tx \<Rightarrow> pcie_tx" where "wired c t \<equiv> wire_tx (pc_bus c) t"

lemma wire_tx_signals [simp]:
  "tx_valid (wire_tx b t) = tx_valid t" "tx_sop (wire_tx b t) = tx_sop t" "tx_eop (wire_tx b t) = tx_eop t"
  "tx_hdr (wire_tx b t) = tx_hdr t" "tx_data (wire_tx b t) = on_wire (ln_data b) (tx_data t)"
  "tx_tlp_prfx (wire_tx b t) = on_wire (ln_tlp_prfx b) (tx_tlp_prfx t)"
  "tx_vf_active (wire_tx b t) = on_wire (ln_vf_active b) (tx_vf_active t)"
  "tx_func_num (wire_tx b t) = on_wire (ln_func_num b) (tx_func_num t)"
  "tx_vf_num (wire_tx b t) = on_wire (ln_vf_num b) (tx_vf_num t)"
  "tx_data_par (wire_tx b t) = on_wire (ln_data_par b) (tx_data_par t)"
  "tx_hdr_par (wire_tx b t) = on_wire (ln_hdr_par b) (tx_hdr_par t)"
  "tx_tlp_prfx_par (wire_tx b t) = on_wire (ln_tlp_prfx_par b) (tx_tlp_prfx_par t)"
  "tx_seq (wire_tx b t) = on_wire (ln_seq b) (tx_seq t)" "tx_bar_id (wire_tx b t) = on_wire (ln_bar_id b) (tx_bar_id t)"
  "tx_error (wire_tx b t) = on_wire (ln_error b) (tx_error t)"
  by (simp_all add: wire_tx_def)

text \<open>A frame as it arrives: what the bus has no signal for is lost, the function numbers are cut to
  their widths, and \<open>tlp_abort\<close> is not transmitted.\<close>

definition carry :: "pcie_cfg \<Rightarrow> pcie_frame \<Rightarrow> pcie_frame" where
  "carry c f = (let b = pc_bus c in
     \<lparr>fr_tlp_prfx = on_wire (ln_tlp_prfx b) (fr_tlp_prfx f), fr_hdr = fr_hdr f,
      fr_data = map (on_wire (ln_data b)) (fr_data f),
      fr_tlp_prfx_par = on_wire (ln_tlp_prfx_par b) (fr_tlp_prfx_par f),
      fr_hdr_par = on_wire (ln_hdr_par b) (fr_hdr_par f),
      fr_parity = map (on_wire (ln_data_par b)) (fr_parity f),
      fr_func_num = on_wire (ln_func_num b) (fr_func_num f AND ones (pc_func_num_width c)),
      fr_vf_num = (if ln_vf_active b = None then None
        else map_option (\<lambda>v. on_wire (ln_vf_num b) (v AND ones (pc_vf_num_width c))) (fr_vf_num f)),
      fr_bar_id = on_wire (ln_bar_id b) (fr_bar_id f), fr_tlp_abort = 0,
      fr_error = on_wire (ln_error b) (fr_error f), fr_seq = on_wire (ln_seq b) (fr_seq f)\<rparr>)"

text \<open>The part of it that has arrived after some words.\<close>

definition part :: "pcie_cfg \<Rightarrow> pcie_frame \<Rightarrow> nat \<Rightarrow> pcie_frame" where
  "part c f off = (carry c f)\<lparr>fr_data := take off (fr_data (carry c f)),
                              fr_parity := take off (fr_parity (carry c f))\<rparr>"

lemma pack_get_other:
  assumes "link_cfg c" "frame_ok c f" "fr_data f = [] \<or> off < length (fr_data f)" "clean c n t" "s < n"
  shows "sees c (wired c (pack_segment c f off first n t)) s = sees c (wired c t) s"
proof -
  have f: "fits 128 (fr_hdr f)" "fits 32 (fr_tlp_prfx f)" "fits 16 (fr_hdr_par f)" "fits 4 (fr_tlp_prfx_par f)"
    "fits 3 (fr_bar_id f)" "fits 4 (fr_error f)" "fits (pc_seq_width c) (fr_seq f)"
    "words_fit 32 (fr_data f)" "words_fit 4 (fr_parity f)"
    using assms(2) by (simp_all add: frame_ok_def)
  note get = get_or_field_other [OF f(1)] get_or_field_other [OF f(2)] get_or_field_other [OF f(3)]
    get_or_field_other [OF f(4)] get_or_field_other [OF f(5)] get_or_field_other [OF f(6)]
    get_or_field_other [OF f(7)] get_or_field_other [OF fits_and_ones]
  have s: "s \<noteq> n" using assms(5) by simp
  have lane: "k + s * pc_seg_byte_lanes c < n * pc_seg_byte_lanes c" if "k < pc_seg_byte_lanes c" for k
  proof -
    have "Suc s * pc_seg_byte_lanes c \<le> n * pc_seg_byte_lanes c"
      using assms(5) by (intro mult_le_mono1) simp
    then show ?thesis using that by simp
  qed
  have d: "get_field w (k + s * pc_seg_byte_lanes c) (or_fields w (n * pc_seg_byte_lanes c) (take m (drop off xs)) x) =
      get_field w (k + s * pc_seg_byte_lanes c) x"
    if "fits (w * (n * pc_seg_byte_lanes c)) x" "words_fit w xs" "k < pc_seg_byte_lanes c" for w xs x k m
    using or_fields_facts [OF that(1) words_fit_sub [OF that(2)]] lane [OF that(3)] by simp
  have x: "fits (32 * (n * pc_seg_byte_lanes c)) (tx_data t)" "fits (4 * (n * pc_seg_byte_lanes c)) (tx_data_par t)"
    using assms(4) by (simp_all add: clean_def)
  have sop: "take_sop c (wired c (pack_segment c f off first n t)) s = take_sop c (wired c t) s"
    using s by (simp add: take_sop_def Let_def pack_segment_signals on_wire_field on_wire_seg seg_bit_set get split: option.split)
  show ?thesis unfolding sees_def sop using s
    by (simp add: pack_segment_signals on_wire_field seg_bit_set d [OF x(1) f(8)] d [OF x(2) f(9)] cong: map_cong)
qed

lemma pack_get_sop:
  assumes "frame_ok c f" "clean c n t"
  shows "take_sop c (wired c (pack_segment c f off True n t)) n = part c f 0"
proof -
  have f: "fits 128 (fr_hdr f)" "fits 32 (fr_tlp_prfx f)" "fits 16 (fr_hdr_par f)" "fits 4 (fr_tlp_prfx_par f)"
    "fits 3 (fr_bar_id f)" "fits 4 (fr_error f)" "fits (pc_seq_width c) (fr_seq f)"
    using assms(1) by (simp_all add: frame_ok_def)
  have c: "fits (128 * n) (tx_hdr t)" "fits (32 * n) (tx_tlp_prfx t)" "fits (16 * n) (tx_hdr_par t)"
     "fits (4 * n) (tx_tlp_prfx_par t)" "fits (3 * n) (tx_bar_id t)"
     "fits (pc_func_num_width c * n) (tx_func_num t)" "fits (pc_vf_num_width c * n) (tx_vf_num t)"
     "fits (4 * n) (tx_error t)" "fits (pc_seq_width c * n) (tx_seq t)"
    using assms(2) by (simp_all add: clean_def)
  have v: "\<not> seg_bit (tx_vf_active t) n" using assms(2) seg_bit_clean [of n _ n] by (simp add: clean_def)
  note get = get_or_field [OF c(1) f(1)] get_or_field [OF c(2) f(2)] get_or_field [OF c(3) f(3)]
    get_or_field [OF c(4) f(4)] get_or_field [OF c(5) f(5)] get_or_field [OF c(6) fits_and_ones]
    get_or_field [OF c(7) fits_and_ones] get_or_field [OF c(8) f(6)] get_or_field [OF c(9) f(7)]
  show ?thesis using v
    by (simp add: take_sop_def part_def carry_def new_frame_def Let_def pack_segment_signals on_wire_field
        on_wire_seg seg_bit_set get split: option.split)
qed

lemma pack_get_words:
  assumes "words_fit w xs" "fits (w * (n * L)) x" "length (take m (drop off xs)) \<le> L"
  shows "take (length (take m (drop off xs)))
      (map (\<lambda>k. get_field w (k + n * L) (on_wire l (or_fields w (n * L) (take m (drop off xs)) x))) [0..<L]) =
    map (on_wire l) (take m (drop off xs))"
proof (rule nth_equalityI)
  fix i assume "i < length (take (length (take m (drop off xs))) (map (\<lambda>k. get_field w (k + n * L) (on_wire l (or_fields w (n * L) (take m (drop off xs)) x))) [0..<L]))"
  then have i: "i < length (take m (drop off xs))" "i < L" by simp_all
  have "get_field w (i + n * L) (or_fields w (n * L) (take m (drop off xs)) x) = take m (drop off xs) ! i"
    using or_fields_facts [OF assms(2) words_fit_sub [OF assms(1)], of m off] i(1) by simp
  then show "take (length (take m (drop off xs))) (map (\<lambda>k. get_field w (k + n * L) (on_wire l (or_fields w (n * L) (take m (drop off xs)) x))) [0..<L]) ! i = map (on_wire l) (take m (drop off xs)) ! i"
    using i by (simp add: on_wire_field)
qed (use assms(3) in simp)

text \<open>Taking in frames: they go to the end of the queue and are counted.\<close>

definition grown :: "pcie_sink \<Rightarrow> pcie_frame list \<Rightarrow> pcie_sink \<Rightarrow> bool" where
  "grown k out k' \<longleftrightarrow> sk_queue k' = sk_queue k @ out \<and> sk_lim_bytes k' = sk_lim_bytes k \<and>
     sk_lim_frames k' = sk_lim_frames k \<and> sk_pause k' = sk_pause k \<and>
     sk_occ_frames k' = sk_occ_frames k + int (length out) \<and>
     sk_occ_bytes k' = sk_occ_bytes k + sum_list (map (\<lambda>f. int (length (fr_data f))) out)"

lemma grown_refl: "grown k [] k"
  by (simp add: grown_def)

lemma grown_trans: "grown k a k' \<Longrightarrow> grown k' b k'' \<Longrightarrow> grown k (a @ b) k''"
  by (simp add: grown_def)

text \<open>The sink is in the middle of the frame the source is in the middle of.\<close>

definition glued :: "pcie_cfg \<Rightarrow> (pcie_frame \<times> nat) option \<Rightarrow> pcie_sink \<Rightarrow> bool" where
  "glued c cur k \<longleftrightarrow> (case cur of None \<Rightarrow> sk_frame k = None
     | Some (f, off) \<Rightarrow> frame_ok c f \<and> off < length (fr_data f) \<and> sk_frame k = Some (part c f off) \<and>
         sk_dword_count k = length (fr_data f) - off)"

lemma part_all: "frame_ok c f \<Longrightarrow> length (fr_data f) \<le> off \<Longrightarrow> part c f off = carry c f"
  by (simp add: part_def carry_def Let_def frame_ok_def)

lemma part_more:
  "(part c f off)\<lparr>fr_data := fr_data (part c f off) @ map (on_wire (ln_data (pc_bus c))) (take m (drop off (fr_data f))),
     fr_parity := fr_parity (part c f off) @ map (on_wire (ln_data_par (pc_bus c))) (take m (drop off (fr_parity f)))\<rparr> =
   part c f (off + m)"
  by (simp add: part_def carry_def Let_def take_map take_add)

lemma frame_dwords_part: "frame_ok c f \<Longrightarrow> frame_dwords (fr_hdr (part c f off)) = length (fr_data f)"
  by (simp add: part_def carry_def Let_def frame_ok_dwords)

text \<open>One packed segment, taken in by a sink that is where the source was.\<close>

lemma eat_packed:
  assumes c: "link_cfg c" and f: "frame_ok c f" and t: "clean c n t"
    and s: "sees c t' n = sees c (wired c (pack_segment c f off first n t)) n"
    and k: "if first then off = 0 \<and> sk_frame k = None else glued c (Some (f, off)) k"
  shows "\<exists>k'. sink_segment c t' n k = Inr k' \<and>
    (if off + seg_cnt c f off \<ge> length (fr_data f)
     then grown k [carry c f] k' \<and> glued c None k'
     else grown k [] k' \<and> glued c (Some (f, off + seg_cnt c f off)) k')"
proof -
  let ?L = "pc_seg_byte_lanes c" and ?N = "length (fr_data f)" and ?m = "seg_cnt c f off"
  let ?p = "pack_segment c f off first n t"
  let ?ds = "map (\<lambda>k. get_field 32 (k + n * ?L) (on_wire (ln_data (pc_bus c)) (tx_data ?p))) [0..<?L]"
  let ?ps = "map (\<lambda>k. get_field 4 (k + n * ?L) (on_wire (ln_data_par (pc_bus c)) (tx_data_par ?p))) [0..<?L]"
  have L: "0 < ?L" using c by (simp add: link_cfg_def)
  have ok: "words_fit 32 (fr_data f)" "words_fit 4 (fr_parity f)" "length (fr_parity f) = ?N"
    using f by (simp_all add: frame_ok_def)
  have x: "fits (32 * (n * ?L)) (tx_data t)" "fits (4 * (n * ?L)) (tx_data_par t)"
    using t by (simp_all add: clean_def)
  have off: "off = 0 \<or> off < ?N" using k by (auto simp: glued_def split: if_splits)
  have valid: "first \<or> fr_data f \<noteq> []" using k by (auto simp: glued_def split: if_splits)
  have eop0: "\<not> seg_bit (tx_eop t) n" "\<not> seg_bit (tx_sop t) n"
    using t seg_bit_clean [of n _ n] by (simp_all add: clean_def)
  have see: "sees c t' n = (True, first, off + ?m \<ge> ?N, take_sop c (wired c ?p) n, ?ds, ?ps)"
  proof -
    have "seg_bit (tx_valid ?p) n" "seg_bit (tx_sop ?p) n = first" "seg_bit (tx_eop ?p) n \<longleftrightarrow> off + ?m \<ge> ?N"
      using valid eop0 by (simp_all add: pack_segment_signals seg_bit_set)
    then show ?thesis unfolding s unfolding sees_def by (simp only: wire_tx_signals)
  qed
  have fo: "(if first then rbind (guard_err (sk_frame k = None) AssertionError)
        (\<lambda>_. Inr (Some (take_sop c (wired c ?p) n), frame_dwords (fr_hdr (take_sop c (wired c ?p) n))))
      else Inr (sk_frame k, sk_dword_count k)) = Inr (Some (part c f off), ?N - off)"
    using k pack_get_sop [OF f t] frame_dwords_part [OF f] by (cases first) (auto simp: glued_def)
  have len: "length (take ?m (drop off (fr_data f))) = ?m" "length (take ?m (drop off (fr_parity f))) = ?m"
    using off ok(3) by (auto simp: seg_cnt_def)
  have m: "take (?N - off) xs = take ?m xs" if "length xs = ?L" for xs :: "int list"
    using that by (simp add: seg_cnt_def min_def)
  have dp: "take ?m ?ds = map (on_wire (ln_data (pc_bus c))) (take ?m (drop off (fr_data f)))"
    "take ?m ?ps = map (on_wire (ln_data_par (pc_bus c))) (take ?m (drop off (fr_parity f)))"
  proof -
    have "?m \<le> ?L" by (simp add: seg_cnt_def)
    then show "take ?m ?ds = map (on_wire (ln_data (pc_bus c))) (take ?m (drop off (fr_data f)))"
      "take ?m ?ps = map (on_wire (ln_data_par (pc_bus c))) (take ?m (drop off (fr_parity f)))"
      using pack_get_words [OF ok(1) x(1), of ?m off] pack_get_words [OF ok(2) x(2), of ?m off]
      by (simp_all only: len pack_segment_signals) (auto simp: seg_cnt_def)
  qed
  have e: "sink_segment c t' n k =
     (if off + ?m \<ge> ?N then rbind (guard_err (?N - off - ?L = 0) AssertionError)
        (\<lambda>_. Inr ((sink_frame (part c f (off + ?m)) k)\<lparr>sk_active := False, sk_frame := None, sk_dword_count := ?N - off - ?L\<rparr>))
      else Inr (k\<lparr>sk_frame := Some (part c f (off + ?m)), sk_dword_count := ?N - off - ?L\<rparr>))"
  proof -
    have "length ?ds = ?L" "length ?ps = ?L" by simp_all
    then have w: "take (?N - off) ?ds = map (on_wire (ln_data (pc_bus c))) (take ?m (drop off (fr_data f)))"
      "take (?N - off) ?ps = map (on_wire (ln_data_par (pc_bus c))) (take ?m (drop off (fr_parity f)))"
      using m dp by metis+
    show ?thesis unfolding sink_segment_eat [OF c] see eat_def prod.case fo
      by (simp only: rbind_simps prod.case option.case w part_more Let_def length_map length_upt minus_nat.diff_0
          not_True_eq_False if_False)
  qed
  show ?thesis
  proof (cases "off + ?m \<ge> ?N")
    case True
    then have "?N - off \<le> ?L" using L by (auto simp: seg_cnt_def)
    then show ?thesis using True part_all [OF f True]
      by (auto simp: e grown_def glued_def sink_frame_def carry_def Let_def)
  next
    case False
    then have "?m = ?L" by (simp add: seg_cnt_def)
    then show ?thesis using False f by (auto simp: e grown_def glued_def)
  qed
qed

end
