(* ===== verification/PcieBus.thy ===== *)
theory PcieBus imports PcieLink begin

text \<open>
  Source and sink of the PCIe streaming bus together: what a transaction conveys, the chain of
  transactions that are under way, and the invariant of both ends over any interleaving of sends,
  receives, coroutine turns and clock edges with any pauses.
\<close>

section \<open>Building a transaction\<close>

definition src_frames :: "pcie_source \<Rightarrow> pcie_frame list" where
  "src_frames s = (case so_cur s of None \<Rightarrow> [] | Some (f, off) \<Rightarrow> [f]) @ so_queue s"

definition src_ok :: "pcie_cfg \<Rightarrow> pcie_source \<Rightarrow> bool" where
  "src_ok c s \<longleftrightarrow> (\<forall>f \<in> set (src_frames s). frame_ok c f) \<and>
     (\<forall>f off. so_cur s = Some (f, off) \<longrightarrow> off < length (fr_data f)) \<and>
     so_occ_frames s = int (length (so_queue s)) \<and>
     so_occ_bytes s = sum_list (map (\<lambda>f. int (length (fr_data f))) (so_queue s))"

text \<open>What is left to send: a step for each frame and each word.\<close>

definition src_work :: "pcie_source \<Rightarrow> nat" where
  "src_work s = (case so_cur s of None \<Rightarrow> 0 | Some (f, off) \<Rightarrow> Suc (length (fr_data f)) - off) +
     sum_list (map (\<lambda>f. Suc (length (fr_data f))) (so_queue s))"

definition src_rest :: "pcie_source \<Rightarrow> pcie_source \<Rightarrow> bool" where
  "src_rest s s' \<longleftrightarrow> so_drive s' = so_drive s \<and> so_pend s' = so_pend s \<and> so_pause s' = so_pause s \<and>
     so_lim_bytes s' = so_lim_bytes s \<and> so_lim_frames s' = so_lim_frames s \<and>
     length (so_queue s') \<le> length (so_queue s)"

lemma src_rest_refl: "src_rest s s"
  by (simp add: src_rest_def)

lemma src_rest_trans: "src_rest s s' \<Longrightarrow> src_rest s' s'' \<Longrightarrow> src_rest s s''"
  by (simp add: src_rest_def)

text \<open>The sink follows one segment of any transaction that shows it the same.\<close>

definition follows ::
  "pcie_cfg \<Rightarrow> nat \<Rightarrow> pcie_tx \<Rightarrow> (pcie_frame \<times> nat) option \<Rightarrow> pcie_frame list \<Rightarrow> (pcie_frame \<times> nat) option \<Rightarrow> bool" where
  "follows c n t cur out cur' \<longleftrightarrow> (\<forall>t' k. sees c t' n = sees c (wired c t) n \<longrightarrow> glued c cur k \<longrightarrow>
     (\<exists>k'. sink_segment c t' n k = Inr k' \<and> grown k (map (carry c) out) k' \<and> glued c cur' k'))"

lemma clean_Suc: "clean c n t \<Longrightarrow> clean c (Suc n) t"
  by (auto simp: clean_def elim: fits_mono)

lemma pack_segment_source:
  assumes "link_cfg c" "frame_ok c f" "off \<le> length (fr_data f)"
  shows "rbind (put_payload c f seg (put_sideband c f seg (if first then put_sop f seg t else t), off)) (\<lambda>(t, off').
      Inr (if off' \<ge> length (fr_data f)
           then (s\<lparr>so_cur := None\<rparr>, t\<lparr>tx_eop := set_seg seg (tx_eop t)\<rparr>)
           else (s\<lparr>so_cur := Some (f, off')\<rparr>, t))) =
    Inr (s\<lparr>so_cur := (if off + seg_cnt c f off \<ge> length (fr_data f) then None else Some (f, off + seg_cnt c f off))\<rparr>,
         pack_segment c f off first seg t)"
  unfolding put_payload_pack [OF assms(2,3)] by (simp add: pack_segment_def Let_def)

lemma packed_follows:
  assumes "link_cfg c" "frame_ok c f" "clean c n t" "if first then cur = None \<and> off = 0 else cur = Some (f, off)"
  shows "follows c n (pack_segment c f off first n t) cur
    (if off + seg_cnt c f off \<ge> length (fr_data f) then [f] else [])
    (if off + seg_cnt c f off \<ge> length (fr_data f) then None else Some (f, off + seg_cnt c f off))"
  unfolding follows_def
proof (intro allI impI)
  fix t' k
  assume s: "sees c t' n = sees c (wired c (pack_segment c f off first n t)) n" and g: "glued c cur k"
  have "if first then off = 0 \<and> sk_frame k = None else glued c (Some (f, off)) k"
    using assms(4) g by (auto simp: glued_def split: if_splits)
  from eat_packed [OF assms(1-3) s this]
  show "\<exists>k'. sink_segment c t' n k = Inr k' \<and>
      grown k (map (carry c) (if off + seg_cnt c f off \<ge> length (fr_data f) then [f] else [])) k' \<and>
      glued c (if off + seg_cnt c f off \<ge> length (fr_data f) then None else Some (f, off + seg_cnt c f off)) k'"
    by (cases "off + seg_cnt c f off \<ge> length (fr_data f)") auto
qed

text \<open>One turn of the segment loop, with and without a frame to send.\<close>

definition seg_done ::
  "pcie_cfg \<Rightarrow> nat \<Rightarrow> pcie_source \<times> pcie_tx \<Rightarrow> pcie_frame list \<Rightarrow> pcie_source \<times> pcie_tx \<Rightarrow> bool" where
  "seg_done c n = (\<lambda>(s, t) out (s', t'). src_ok c s' \<and> clean c (Suc n) t' \<and> src_rest s s' \<and>
     src_frames s = out @ src_frames s' \<and> (\<forall>i < n. sees c (wired c t') i = sees c (wired c t) i) \<and>
     follows c n t' (so_cur s) out (so_cur s') \<and> length out \<le> 1 \<and>
     (src_frames s \<noteq> [] \<longrightarrow> seg_bit (tx_valid t') n) \<and>
     src_work s' + of_bool (src_frames s \<noteq> []) \<le> src_work s)"

lemma source_segment_done:
  assumes c: "link_cfg c" and s: "src_ok c s" and t: "clean c n t"
  shows "\<exists>out st'. source_segment c n (s, t) = Inr st' \<and> seg_done c n (s, t) out st'"
proof -
  have pack: "\<exists>out st'. rbind (put_payload c f n (put_sideband c f n (if first then put_sop f n t else t), off)) (\<lambda>(t, off').
      Inr (if off' \<ge> length (fr_data f)
           then (s1\<lparr>so_cur := None\<rparr>, t\<lparr>tx_eop := set_seg n (tx_eop t)\<rparr>)
           else (s1\<lparr>so_cur := Some (f, off')\<rparr>, t))) = Inr st' \<and> seg_done c n (s, t) out st'"
    if f: "frame_ok c f" "fr_data f = [] \<or> off < length (fr_data f)" "off \<le> length (fr_data f)"
      "if first then so_cur s = None \<and> off = 0 else so_cur s = Some (f, off) \<and> off < length (fr_data f)"
      and s1: "src_rest s s1" "src_frames s = f # so_queue s1"
        "so_occ_frames s1 = int (length (so_queue s1))" "so_occ_bytes s1 = sum_list (map (\<lambda>f. int (length (fr_data f))) (so_queue s1))"
        "src_work s = Suc (length (fr_data f)) - off + sum_list (map (\<lambda>f. Suc (length (fr_data f))) (so_queue s1))"
    for f off first s1
  proof -
    let ?e = "off + seg_cnt c f off \<ge> length (fr_data f)"
    let ?s = "s1\<lparr>so_cur := (if ?e then None else Some (f, off + seg_cnt c f off))\<rparr>"
    have q: "\<forall>f \<in> set (so_queue s1). frame_ok c f" using s s1(2) by (auto simp: src_ok_def)
    have cur: "if first then so_cur s = None \<and> off = 0 else so_cur s = Some (f, off)" using f(4) by (auto split: if_splits)
    have "seg_done c n (s, t) (if ?e then [f] else []) (?s, pack_segment c f off first n t)"
      unfolding seg_done_def prod.case
    proof (intro conjI)
      show "src_ok c ?s" using q f(1) s1(3,4) by (auto simp: src_ok_def src_frames_def)
      show "src_rest s ?s" using s1(1) by (simp add: src_rest_def)
      have "src_frames ?s = (if ?e then [] else [f]) @ so_queue s1" by (simp add: src_frames_def)
      then show "src_frames s = (if ?e then [f] else []) @ src_frames ?s" by (simp add: s1(2))
      show "\<forall>i<n. sees c (wired c (pack_segment c f off first n t)) i = sees c (wired c t) i"
        using pack_get_other [OF c f(1,2) t] by blast
      show "follows c n (pack_segment c f off first n t) (so_cur s) (if ?e then [f] else []) (so_cur ?s)"
        using packed_follows [OF c f(1) t cur] by simp
      show "src_frames s \<noteq> [] \<longrightarrow> seg_bit (tx_valid (pack_segment c f off first n t)) n"
        using f(4) by (auto simp: pack_segment_signals seg_bit_set split: if_splits)
      have "?e \<or> 0 < seg_cnt c f off" using c by (auto simp: seg_cnt_def link_cfg_def)
      moreover have "src_work ?s = (if ?e then 0 else Suc (length (fr_data f)) - (off + seg_cnt c f off)) +
          sum_list (map (\<lambda>f. Suc (length (fr_data f))) (so_queue s1))" by (simp add: src_work_def)
      ultimately show "src_work ?s + of_bool (src_frames s \<noteq> []) \<le> src_work s"
        using f(3) s1(2) by (simp add: s1(5)) arith
    qed (use clean_pack [OF c f(1,2) t] in auto)
    then show ?thesis unfolding pack_segment_source [OF c f(1,3)] by blast
  qed
  show ?thesis
  proof (cases "so_cur s")
    case (Some fo)
    then obtain f off where cur: "so_cur s = Some (f, off)" by (cases fo) auto
    then have "frame_ok c f" "off < length (fr_data f)" "src_frames s = f # so_queue s"
      "src_work s = Suc (length (fr_data f)) - off + sum_list (map (\<lambda>f. Suc (length (fr_data f))) (so_queue s))"
      using s by (auto simp: src_ok_def src_frames_def src_work_def)
    with pack [of f off False s] s cur show ?thesis
      by (simp add: source_segment_def src_rest_refl src_ok_def)
  next
    case None
    show ?thesis
    proof (cases "so_queue s")
      case Nil
      have "follows c n t None [] None"
        unfolding follows_def
      proof (intro allI impI)
        fix t' k assume a: "sees c t' n = sees c (wired c t) n" "glued c None k"
        have "\<not> seg_bit (tx_valid t') n"
          using a(1) t seg_bit_clean [of n "tx_valid t" n] by (simp add: sees_def clean_def)
        then have "sink_segment c t' n k = Inr k" by (simp add: sink_segment_def)
        then show "\<exists>k'. sink_segment c t' n k = Inr k' \<and> grown k (map (carry c) []) k' \<and> glued c None k'"
          using a(2) by (auto simp: grown_refl)
      qed
      then have "seg_done c n (s, t) [] (s, t)"
        using s t None Nil by (simp add: seg_done_def clean_Suc src_rest_refl src_frames_def)
      then show ?thesis using None Nil by (auto simp: source_segment_def)
    next
      case (Cons f fs)
      define s1 where "s1 = s\<lparr>so_queue := fs, so_occ_bytes := so_occ_bytes s - int (length (fr_data f)), so_occ_frames := so_occ_frames s - 1\<rparr>"
      have s1: "frame_ok c f" "src_rest s s1" "src_frames s = f # so_queue s1" "so_occ_frames s1 = int (length (so_queue s1))"
        "so_occ_bytes s1 = sum_list (map (\<lambda>f. int (length (fr_data f))) (so_queue s1))"
        "src_work s = Suc (length (fr_data f)) - 0 + sum_list (map (\<lambda>f. Suc (length (fr_data f))) (so_queue s1))"
        using s None Cons by (auto simp: src_ok_def src_frames_def src_rest_def src_work_def s1_def)
      have "source_segment c n (s, t) = rbind (put_payload c f n (put_sideband c f n (if True then put_sop f n t else t), 0)) (\<lambda>(t, off').
          Inr (if off' \<ge> length (fr_data f)
            then (s1\<lparr>so_cur := None\<rparr>, t\<lparr>tx_eop := set_seg n (tx_eop t)\<rparr>)
            else (s1\<lparr>so_cur := Some (f, off')\<rparr>, t)))"
        using None Cons by (simp add: source_segment_def get_frame_nowait_def s1_def cong del: if_weak_cong)
      then show ?thesis using pack [of f 0 True s1, OF s1(1) _ _ _ s1(2-6)] None by simp
    qed
  qed
qed

text \<open>All segments of a transaction.\<close>

lemma fits_signal: "len_is l n \<Longrightarrow> fits n x \<Longrightarrow> in_signal l x"
  by (auto simp: len_is_def in_signal_def split: option.splits)

lemma fits_seg_len:
  assumes "fits (seg_len l n d * n) x"
  shows "in_signal l x"
proof (cases l)
  case (Some k)
  have "k div n * n \<le> k" by simp
  then show ?thesis using assms Some fits_mono by (auto simp: in_signal_def seg_len_def)
qed (simp add: in_signal_def)

lemma clean_tx_fits:
  assumes "link_cfg c" "clean c (pc_seg_count c) t"
  shows "tx_fits (pc_bus c) t"
proof -
  let ?b = "pc_bus c" and ?n = "ln_valid (pc_bus c)"
  have c: "pcie_if_cfg ?b = Inr c" "pc_seg_width c = 32 * pc_seg_byte_lanes c" using assms(1) by (simp_all add: link_cfg_def)
  note d = pcie_if_cfgD [OF c(1)]
  have t: "clean c ?n t" using assms(2) d(2) by simp
  have par: "len_is (ln_data (pc_bus c)) (32 * (?n * pc_seg_byte_lanes c))"
    "len_is (ln_data_par (pc_bus c)) (4 * (?n * pc_seg_byte_lanes c))"
    "len_is (ln_hdr_par ?b) (16 * ?n)" "len_is (ln_tlp_prfx_par ?b) (4 * ?n)"
  proof -
    have "?n * (32 * L) = 32 * (?n * L)" "32 * (?n * L) div 8 = 4 * (?n * L)" for L by simp_all
    then show "len_is (ln_data ?b) (32 * (?n * pc_seg_byte_lanes c))"
      "len_is (ln_data_par ?b) (4 * (?n * pc_seg_byte_lanes c))"
      using d(7,14) c(2) by (simp_all add: mult_ac)
  qed (use d(15,16) in simp_all)
  note one = d(8,9,10,11) [unfolded mult.commute [of ?n]]
  show ?thesis unfolding tx_fits_def
    using t [unfolded clean_def] d(4-6)
    by (intro conjI; (elim conjE)?)
      (simp_all add: mult.commute fits_signal [OF par(1)] fits_signal [OF par(2)] fits_signal [OF par(3)]
        fits_signal [OF par(4)] fits_signal [OF one(1)] fits_signal [OF one(2)] fits_signal [OF one(3)]
        fits_signal [OF one(4)] fits_signal [OF d(12)] fits_signal [OF d(13)] fits_seg_len d(19-21))
qed

definition conveys ::
  "pcie_cfg \<Rightarrow> (pcie_frame \<times> nat) option \<Rightarrow> pcie_tx \<Rightarrow> pcie_frame list \<Rightarrow> (pcie_frame \<times> nat) option \<Rightarrow> bool" where
  "conveys c cur w out cur' \<longleftrightarrow> tx_valid w \<noteq> 0 \<and> length out \<le> pc_seg_count c \<and> (\<forall>k. glued c cur k \<longrightarrow>
     (\<exists>k'. sink_sample c w k = Inr k' \<and> grown k (map (carry c) out) k' \<and> glued c cur' k'))"

definition shows_same :: "pcie_cfg \<Rightarrow> nat \<Rightarrow> pcie_tx \<Rightarrow> pcie_tx \<Rightarrow> bool" where
  "shows_same c n w t \<longleftrightarrow> (\<forall>i < n. sees c w i = sees c (wired c t) i)"

lemma source_segments:
  assumes "link_cfg c" "src_ok c s"
  shows "\<exists>s' t out. rfold (source_segment c) [0..<n] (s, idle_tx) = Inr (s', t) \<and> src_ok c s' \<and> clean c n t \<and>
    src_rest s s' \<and> src_frames s = out @ src_frames s' \<and> length out \<le> n \<and>
    (0 < n \<longrightarrow> src_frames s \<noteq> [] \<longrightarrow> seg_bit (tx_valid t) 0) \<and>
    src_work s' + of_bool (0 < n \<and> src_frames s \<noteq> []) \<le> src_work s \<and>
    (\<forall>w k. shows_same c n w t \<longrightarrow> glued c (so_cur s) k \<longrightarrow>
      (\<exists>k'. rfold (sink_segment c w) [0..<n] k = Inr k' \<and> grown k (map (carry c) out) k' \<and> glued c (so_cur s') k'))"
proof (induction n)
  case 0
  then show ?case using assms(2) by (auto simp: clean_idle src_rest_refl intro: grown_refl)
next
  case (Suc n)
  then obtain s1 t1 out1 where ih: "rfold (source_segment c) [0..<n] (s, idle_tx) = Inr (s1, t1)" "src_ok c s1" "clean c n t1"
    "src_rest s s1" "src_frames s = out1 @ src_frames s1" "length out1 \<le> n"
    "0 < n \<longrightarrow> src_frames s \<noteq> [] \<longrightarrow> seg_bit (tx_valid t1) 0"
    "\<And>w k. shows_same c n w t1 \<Longrightarrow> glued c (so_cur s) k \<Longrightarrow>
      \<exists>k'. rfold (sink_segment c w) [0..<n] k = Inr k' \<and> grown k (map (carry c) out1) k' \<and> glued c (so_cur s1) k'"
    "src_work s1 + of_bool (0 < n \<and> src_frames s \<noteq> []) \<le> src_work s"
    by blast
  obtain out2 s2 t2 where st: "source_segment c n (s1, t1) = Inr (s2, t2)" and d: "seg_done c n (s1, t1) out2 (s2, t2)"
    using source_segment_done [OF assms(1) ih(2,3)] by (metis surj_pair)
  note d = d [unfolded seg_done_def prod.case]
  have sm: "sees c (wired c t2) i = sees c (wired c t1) i" if "i < n" for i using d that by blast
  have "\<exists>k'. rfold (sink_segment c w) [0..<Suc n] k = Inr k' \<and> grown k (map (carry c) (out1 @ out2)) k' \<and> glued c (so_cur s2) k'"
    if a: "shows_same c (Suc n) w t2" "glued c (so_cur s) k" for w k
  proof -
    have "shows_same c n w t1" using a(1) sm by (simp add: shows_same_def)
    from ih(8) [OF this a(2)] obtain k1 where k1: "rfold (sink_segment c w) [0..<n] k = Inr k1"
      "grown k (map (carry c) out1) k1" "glued c (so_cur s1) k1" by blast
    have "sees c w n = sees c (wired c t2) n" using a(1) by (simp add: shows_same_def)
    then obtain k2 where "sink_segment c w n k1 = Inr k2" "grown k1 (map (carry c) out2) k2" "glued c (so_cur s2) k2"
      using d k1(3) unfolding follows_def by blast
    then show ?thesis using k1 grown_trans [OF k1(2)] by (auto simp: rfold_append)
  qed
  moreover have "seg_bit (tx_valid t2) 0" if "src_frames s \<noteq> []"
  proof (cases "n = 0")
    case True
    then show ?thesis using d ih(5,6) that by auto
  next
    case False
    then show ?thesis using sm [of 0] ih(7) that by (simp add: sees_def)
  qed
  moreover have "src_work s2 + of_bool (src_frames s \<noteq> []) \<le> src_work s"
    using d ih(1,5,6,9) by (cases "n = 0") (auto split: if_splits)
  ultimately show ?case
    using ih(1,4,5,6) d st src_rest_trans [OF ih(4)]
    by (intro exI [of _ s2] exI [of _ t2] exI [of _ "out1 @ out2"]) (auto simp: rfold_append)
qed

lemma glued_active [simp]: "glued c cur (k\<lparr>sk_active := b\<rparr>) = glued c cur k"
  by (simp add: glued_def split: option.split)

lemma source_build_conveys:
  assumes "link_cfg c" "src_ok c s"
  shows "\<exists>s'. source_build c s = Inr s' \<and> src_ok c s' \<and>
    (if so_pend s = None \<and> src_frames s \<noteq> []
     then \<exists>t out. so_pend s' = Some t \<and> tx_fits (pc_bus c) t \<and> conveys c (so_cur s) (wired c t) out (so_cur s') \<and>
       src_frames s = out @ src_frames s' \<and> src_rest (s\<lparr>so_pend := Some t\<rparr>) s' \<and> src_work s' < src_work s
     else s' = s)"
proof (cases "so_pend s = None \<and> src_frames s \<noteq> []")
  case True
  then have cond: "so_pend s = None \<and> (so_cur s \<noteq> None \<or> so_queue s \<noteq> [])"
    by (auto simp: src_frames_def split: option.splits)
  have n: "0 < pc_seg_count c" using assms(1) pcie_if_cfgD(2,3) [of "pc_bus c" c] by (auto simp: link_cfg_def)
  obtain s1 t out where b: "rfold (source_segment c) [0..<pc_seg_count c] (s, idle_tx) = Inr (s1, t)" "src_ok c s1"
    "clean c (pc_seg_count c) t" "src_rest s s1" "src_frames s = out @ src_frames s1" "length out \<le> pc_seg_count c"
    "0 < pc_seg_count c \<longrightarrow> src_frames s \<noteq> [] \<longrightarrow> seg_bit (tx_valid t) 0"
    "src_work s1 + of_bool (0 < pc_seg_count c \<and> src_frames s \<noteq> []) \<le> src_work s"
    "\<forall>w k. shows_same c (pc_seg_count c) w t \<longrightarrow> glued c (so_cur s) k \<longrightarrow>
      (\<exists>k'. rfold (sink_segment c w) [0..<pc_seg_count c] k = Inr k' \<and> grown k (map (carry c) out) k' \<and> glued c (so_cur s1) k')"
    using source_segments [OF assms, of "pc_seg_count c"] by (elim exE conjE) (rule that)
  note b = b(1-6) b(7) [rule_format, OF n conjunct2 [OF True]] b(9) [rule_format] b(8)
  have "conveys c (so_cur s) (wired c t) out (so_cur s1)"
    unfolding conveys_def
  proof (intro conjI allI impI)
    show "tx_valid (wired c t) \<noteq> 0" using b(7) by (auto simp: seg_bit_iff)
    fix k assume "glued c (so_cur s) k"
    then obtain k' where "rfold (sink_segment c (wired c t)) [0..<pc_seg_count c] (k\<lparr>sk_active := True\<rparr>) = Inr k'"
      "grown (k\<lparr>sk_active := True\<rparr>) (map (carry c) out) k'" "glued c (so_cur s1) k'"
      using b(8) [of "wired c t" "k\<lparr>sk_active := True\<rparr>"] by (auto simp: shows_same_def)
    then show "\<exists>k'. sink_sample c (wired c t) k = Inr k' \<and> grown k (map (carry c) out) k' \<and> glued c (so_cur s1) k'"
      by (auto simp: sink_sample_def grown_def)
  qed (use b(6) in simp)
  moreover have "source_build c s = Inr (s1\<lparr>so_pend := Some t\<rparr>)" using cond b(1) by (simp add: source_build_def)
  moreover have "src_ok c (s1\<lparr>so_pend := Some t\<rparr>)" "src_frames (s1\<lparr>so_pend := Some t\<rparr>) = src_frames s1"
    "src_work (s1\<lparr>so_pend := Some t\<rparr>) = src_work s1"
    using b(2) by (simp_all add: src_ok_def src_frames_def src_work_def)
  ultimately show ?thesis
    using True n b(4,5,9) clean_tx_fits [OF assms(1) b(3)] by (auto simp: src_rest_def)
next
  case False
  then have "\<not> (so_pend s = None \<and> (so_cur s \<noteq> None \<or> so_queue s \<noteq> []))"
    by (auto simp: src_frames_def split: option.splits)
  then show ?thesis using False assms(2) by (auto simp: source_build_def)
qed

section \<open>Both ends\<close>

record pcie_sys =
  py_src :: pcie_source
  py_bus :: pcie_tx
  py_sink :: pcie_sink
  py_ready :: bool

text \<open>Both clocked coroutines see the values driven before the edge; the pause flags are whatever the
  generators set.\<close>

definition pcie_edge :: "pcie_cfg \<Rightarrow> bool \<Rightarrow> bool \<Rightarrow> bool \<Rightarrow> pcie_sys \<Rightarrow> pcie_sys result" where
  "pcie_edge c reset p q y =
     rbind (source_edge c reset (py_ready y) ((py_src y)\<lparr>so_pause := p\<rparr>, py_bus y)) (\<lambda>(s, bus).
     rbind (sink_edge c reset (py_bus y) ((py_sink y)\<lparr>sk_pause := q\<rparr>, py_ready y)) (\<lambda>(k, ready).
     Inr \<lparr>py_src = s, py_bus = bus, py_sink = k, py_ready = ready\<rparr>))"

definition pcie_init :: "int \<Rightarrow> int \<Rightarrow> int \<Rightarrow> int \<Rightarrow> pcie_sys" where
  "pcie_init sb sf kb kf = \<lparr>py_src = pcie_source_init\<lparr>so_lim_bytes := sb, so_lim_frames := sf\<rparr>, py_bus = idle_tx,
     py_sink = pcie_sink_init\<lparr>sk_lim_bytes := kb, sk_lim_frames := kf\<rparr>, py_ready = False\<rparr>"

text \<open>The frames sent and received so far, with the limits of the two queues.\<close>

inductive pcie_reach ::
  "pcie_cfg \<Rightarrow> int \<times> int \<times> int \<times> int \<Rightarrow> pcie_frame list \<Rightarrow> pcie_frame list \<Rightarrow> pcie_sys \<Rightarrow> bool"
  for c lims where
  Init: "lims = (sb, sf, kb, kf) \<Longrightarrow> pcie_reach c lims [] [] (pcie_init sb sf kb kf)"
| Send: "pcie_reach c lims sent got y \<Longrightarrow> frame_ok c f \<Longrightarrow> pcie_send_nowait f (py_src y) = Inr s \<Longrightarrow>
    pcie_reach c lims (sent @ [f]) got (y\<lparr>py_src := s\<rparr>)"
| Build: "pcie_reach c lims sent got y \<Longrightarrow> source_build c (py_src y) = Inr s \<Longrightarrow>
    pcie_reach c lims sent got (y\<lparr>py_src := s\<rparr>)"
| Drive: "pcie_reach c lims sent got y \<Longrightarrow> pcie_reach c lims sent got (y\<lparr>py_src := source_drive (py_src y)\<rparr>)"
| Recv: "pcie_reach c lims sent got y \<Longrightarrow> pcie_recv_nowait (py_sink y) = Inr (f, k) \<Longrightarrow>
    pcie_reach c lims sent (got @ [f]) (y\<lparr>py_sink := k\<rparr>)"
| Edge: "pcie_reach c lims sent got y \<Longrightarrow> pcie_edge c False p q y = Inr y' \<Longrightarrow> pcie_reach c lims sent got y'"

text \<open>The transactions under way, each with what it conveys.\<close>

fun chain ::
  "pcie_cfg \<Rightarrow> (pcie_frame \<times> nat) option \<Rightarrow> pcie_tx list \<Rightarrow> pcie_frame list \<Rightarrow> (pcie_frame \<times> nat) option \<Rightarrow> bool" where
  "chain c cur [] out cur' \<longleftrightarrow> out = [] \<and> cur' = cur"
| "chain c cur (w # ws) out cur' \<longleftrightarrow> (\<exists>a b mid. out = a @ b \<and> conveys c cur w a mid \<and> chain c mid ws b cur')"

lemma chain_append:
  "chain c cur (us @ ws) out cur' \<longleftrightarrow> (\<exists>a b mid. out = a @ b \<and> chain c cur us a mid \<and> chain c mid ws b cur')"
proof (induction us arbitrary: cur out)
  case (Cons u us)
  show ?case unfolding append_Cons chain.simps Cons by (blast intro: append_assoc [symmetric] append_assoc)
qed auto

definition held :: "pcie_cfg \<Rightarrow> pcie_tx option \<Rightarrow> pcie_tx list" where
  "held c o1 = (case o1 of None \<Rightarrow> [] | Some t \<Rightarrow> [wired c t])"

definition under_way :: "pcie_cfg \<Rightarrow> pcie_sys \<Rightarrow> pcie_tx list" where
  "under_way c y = (if tx_valid (py_bus y) = 0 then [] else [py_bus y]) @
     held c (so_drive (py_src y)) @ held c (so_pend (py_src y))"

definition pjoint :: "pcie_cfg \<Rightarrow> pcie_frame list \<Rightarrow> pcie_frame list \<Rightarrow> pcie_sys \<Rightarrow> bool" where
  "pjoint c sent got y \<longleftrightarrow> src_ok c (py_src y) \<and>
     (\<forall>t. so_drive (py_src y) = Some t \<or> so_pend (py_src y) = Some t \<longrightarrow> tx_fits (pc_bus c) t) \<and>
     (\<exists>cur out. glued c cur (py_sink y) \<and> chain c cur (under_way c y) out (so_cur (py_src y)) \<and>
        map (carry c) sent = got @ sk_queue (py_sink y) @ map (carry c) (out @ src_frames (py_src y)))"

lemma glued_pause [simp]: "glued c cur (k\<lparr>sk_pause := b\<rparr>) = glued c cur k"
  by (simp add: glued_def split: option.split)

lemma pjointI:
  assumes "src_ok c (py_src y)" "\<And>t. so_drive (py_src y) = Some t \<or> so_pend (py_src y) = Some t \<Longrightarrow> tx_fits (pc_bus c) t"
    "glued c cur (py_sink y)" "chain c cur (under_way c y) out (so_cur (py_src y))"
    "map (carry c) sent = got @ sk_queue (py_sink y) @ map (carry c) (out @ src_frames (py_src y))"
  shows "pjoint c sent got y"
  using assms unfolding pjoint_def by blast

lemma pjoint_init: "pjoint c [] [] (pcie_init sb sf kb kf)"
  by (rule pjointI [of _ _ None _ "[]"])
    (simp_all add: pcie_init_def pcie_source_init_def pcie_sink_init_def src_ok_def src_frames_def glued_def
      under_way_def held_def idle_tx_def)

lemma pjoint_send:
  assumes "pjoint c sent got y" "frame_ok c f" "pcie_send_nowait f (py_src y) = Inr s"
  shows "pjoint c (sent @ [f]) got (y\<lparr>py_src := s\<rparr>)"
proof -
  have s: "s = (py_src y)\<lparr>so_queue := so_queue (py_src y) @ [f], so_idle_event := False,
      so_occ_bytes := so_occ_bytes (py_src y) + int (length (fr_data f)), so_occ_frames := so_occ_frames (py_src y) + 1\<rparr>"
    using assms(3) by (simp add: pcie_send_nowait_def split: if_splits)
  then have e: "src_frames s = src_frames (py_src y) @ [f]" "under_way c (y\<lparr>py_src := s\<rparr>) = under_way c y"
    "so_cur s = so_cur (py_src y)" "so_drive s = so_drive (py_src y)" "so_pend s = so_pend (py_src y)"
    by (simp_all add: src_frames_def under_way_def)
  have "src_ok c s" using s assms(1,2) e(1,3) by (auto simp: pjoint_def src_ok_def)
  then show ?thesis using assms(1) by (simp add: pjoint_def e)
qed

lemma pjoint_build:
  assumes "link_cfg c" "pjoint c sent got y"
  shows "\<exists>s. source_build c (py_src y) = Inr s \<and> pjoint c sent got (y\<lparr>py_src := s\<rparr>)"
proof -
  let ?s = "py_src y"
  obtain s where s: "source_build c ?s = Inr s" "src_ok c s" and r: "if so_pend ?s = None \<and> src_frames ?s \<noteq> []
     then \<exists>t out. so_pend s = Some t \<and> tx_fits (pc_bus c) t \<and> conveys c (so_cur ?s) (wired c t) out (so_cur s) \<and>
       src_frames ?s = out @ src_frames s \<and> src_rest (?s\<lparr>so_pend := Some t\<rparr>) s \<and> src_work s < src_work ?s else s = ?s"
    using source_build_conveys [OF assms(1), of ?s] assms(2) unfolding pjoint_def by blast
  obtain cur out where g: "glued c cur (py_sink y)" "chain c cur (under_way c y) out (so_cur ?s)"
    "map (carry c) sent = got @ sk_queue (py_sink y) @ map (carry c) (out @ src_frames ?s)"
    using assms(2) unfolding pjoint_def by blast
  show ?thesis
  proof (cases "so_pend ?s = None \<and> src_frames ?s \<noteq> []")
    case False
    then have "s = ?s" using r by presburger
    then show ?thesis using s(1) assms(2) by simp
  next
    case True
    from r [unfolded if_P [OF True]] obtain t a where t: "so_pend s = Some t" "tx_fits (pc_bus c) t" "conveys c (so_cur ?s) (wired c t) a (so_cur s)"
      "src_frames ?s = a @ src_frames s" "src_rest (?s\<lparr>so_pend := Some t\<rparr>) s" by blast
    have "under_way c (y\<lparr>py_src := s\<rparr>) = under_way c y @ [wired c t]"
      using True t(1,5) by (simp add: under_way_def held_def src_rest_def)
    moreover have "chain c cur (under_way c y @ [wired c t]) (out @ a) (so_cur s)"
      unfolding chain_append using g(2) t(3) by fastforce
    moreover have "tx_fits (pc_bus c) u" if "so_drive s = Some u \<or> so_pend s = Some u" for u
      using that t(1,2,5) assms(2) by (auto simp: src_rest_def pjoint_def)
    ultimately have "pjoint c sent got (y\<lparr>py_src := s\<rparr>)"
      using pjointI [where y = "y\<lparr>py_src := s\<rparr>" and out = "out @ a" and cur = cur and c = c and sent = sent and got = got]
        g(1,3) s(2) t(4) by simp
    then show ?thesis using s(1) by blast
  qed
qed

lemma pjoint_drive:
  assumes "pjoint c sent got y"
  shows "pjoint c sent got (y\<lparr>py_src := source_drive (py_src y)\<rparr>)"
proof -
  have "src_ok c (source_drive s) = src_ok c s" "src_frames (source_drive s) = src_frames s"
    "so_cur (source_drive s) = so_cur s" for s
    by (simp_all add: source_drive_def src_ok_def src_frames_def)
  moreover have "under_way c (y\<lparr>py_src := source_drive (py_src y)\<rparr>) = under_way c y"
    by (auto simp: source_drive_def under_way_def held_def)
  moreover have "so_drive (source_drive s) = Some t \<or> so_pend (source_drive s) = Some t \<Longrightarrow>
      so_drive s = Some t \<or> so_pend s = Some t" for s t
    by (auto simp: source_drive_def split: if_splits)
  ultimately show ?thesis using assms unfolding pjoint_def by simp blast
qed

lemma pjoint_recv:
  assumes "pjoint c sent got y" "pcie_recv_nowait (py_sink y) = Inr (f, k)"
  shows "pjoint c sent (got @ [f]) (y\<lparr>py_sink := k\<rparr>)"
proof -
  have "sk_queue (py_sink y) = f # sk_queue k" "glued c cur k = glued c cur (py_sink y)" for cur
    using assms(2) by (auto simp: pcie_recv_nowait_def glued_def split: list.splits option.split)
  moreover have "under_way c (y\<lparr>py_sink := k\<rparr>) = under_way c y" by (simp add: under_way_def)
  ultimately show ?thesis using assms(1) by (simp add: pjoint_def)
qed

text \<open>A clock edge.\<close>

lemma chain_valid: "chain c cur ws out cur' \<Longrightarrow> w \<in> set ws \<Longrightarrow> tx_valid w \<noteq> 0"
  by (induction ws arbitrary: cur out) (auto simp: conveys_def)

definition on_bus :: "pcie_tx \<Rightarrow> pcie_tx list" where
  "on_bus w = (if tx_valid w = 0 then [] else [w])"

lemma source_edge_moves:
  assumes "\<And>t. so_drive s = Some t \<Longrightarrow> tx_fits (pc_bus c) t \<and> tx_valid t \<noteq> 0"
  shows "\<exists>s' bus'. source_edge c False ready (s, bus) = Inr (s', bus') \<and> src_ok c s' = src_ok c s \<and>
    src_frames s' = src_frames s \<and> so_cur s' = so_cur s \<and> so_pend s' = so_pend s \<and>
    so_lim_bytes s' = so_lim_bytes s \<and> so_lim_frames s' = so_lim_frames s \<and> so_queue s' = so_queue s \<and>
    (so_drive s' = None \<or> so_drive s' = so_drive s) \<and>
    (\<not> so_pause s \<longrightarrow> ready \<or> tx_valid bus = 0 \<longrightarrow> so_drive s' = None) \<and>
    (if ready \<or> tx_valid bus = 0 then on_bus bus' @ held c (so_drive s') = held c (so_drive s)
     else bus' = bus \<and> so_drive s' = so_drive s)"
proof (cases "ready \<or> tx_valid bus = 0")
  case True
  then show ?thesis
    by (cases "so_drive s"; cases "so_pause s")
      (auto simp: source_edge_def drive_bus_def assms on_bus_def held_def src_ok_def src_frames_def)
qed (simp add: source_edge_def)

lemma sink_edge_takes:
  assumes "glued c cur k" "chain c cur (on_bus bus @ ws) out cur'"
  shows "\<exists>k' mid a b. sink_edge c False bus (k, ready) = Inr (k', \<not> pcie_sink_full k \<and> \<not> sk_pause k) \<and> out = a @ b \<and>
    grown k (map (carry c) a) k' \<and> glued c mid k' \<and> length a \<le> pc_seg_count c \<and>
    (\<not> (ready \<and> tx_valid bus \<noteq> 0) \<longrightarrow> a = []) \<and>
    chain c mid ((if ready then [] else on_bus bus) @ ws) b cur'"
proof (cases "ready \<and> tx_valid bus \<noteq> 0")
  case True
  then obtain a b mid where ab: "out = a @ b" "conveys c cur bus a mid" "chain c mid ws b cur'"
    using assms(2) by (auto simp: on_bus_def)
  then obtain k' where "sink_sample c bus k = Inr k'" "grown k (map (carry c) a) k'" "glued c mid k'"
    "length a \<le> pc_seg_count c"
    using assms(1) unfolding conveys_def by blast
  then show ?thesis using True ab by (auto simp: sink_edge_def)
next
  case False
  then show ?thesis using assms
    by (intro exI [of _ k] exI [of _ cur] exI [of _ "[]"] exI [of _ out])
      (auto simp: sink_edge_def grown_refl on_bus_def)
qed

lemma pjoint_edge:
  assumes "pjoint c sent got y"
  shows "\<exists>y' a. pcie_edge c False p q y = Inr y' \<and> pjoint c sent got y' \<and>
    grown ((py_sink y)\<lparr>sk_pause := q\<rparr>) a (py_sink y') \<and> length a \<le> pc_seg_count c \<and> (\<not> py_ready y \<longrightarrow> a = []) \<and>
    py_ready y' = (\<not> pcie_sink_full (py_sink y) \<and> \<not> q) \<and> so_queue (py_src y') = so_queue (py_src y) \<and>
    so_lim_frames (py_src y') = so_lim_frames (py_src y) \<and> so_lim_bytes (py_src y') = so_lim_bytes (py_src y) \<and>
    so_pend (py_src y') = so_pend (py_src y) \<and> so_cur (py_src y') = so_cur (py_src y) \<and>
    (\<not> p \<longrightarrow> py_ready y \<or> tx_valid (py_bus y) = 0 \<longrightarrow> so_drive (py_src y') = None) \<and>
    (if py_ready y \<or> tx_valid (py_bus y) = 0
     then on_bus (py_bus y') @ held c (so_drive (py_src y')) = held c (so_drive (py_src y))
     else py_bus y' = py_bus y \<and> so_drive (py_src y') = so_drive (py_src y))"
proof -
  let ?s = "(py_src y)\<lparr>so_pause := p\<rparr>" and ?k = "(py_sink y)\<lparr>sk_pause := q\<rparr>"
  obtain cur out where g: "glued c cur (py_sink y)" "chain c cur (under_way c y) out (so_cur (py_src y))"
    "map (carry c) sent = got @ sk_queue (py_sink y) @ map (carry c) (out @ src_frames (py_src y))"
    using assms unfolding pjoint_def by blast
  have u: "under_way c y = on_bus (py_bus y) @ held c (so_drive ?s) @ held c (so_pend ?s)"
    by (simp add: under_way_def on_bus_def)
  have fits: "tx_fits (pc_bus c) t" if "so_drive (py_src y) = Some t \<or> so_pend (py_src y) = Some t" for t
    using assms that unfolding pjoint_def by blast
  have "tx_fits (pc_bus c) t \<and> tx_valid t \<noteq> 0" if "so_drive ?s = Some t" for t
    using fits [of t] chain_valid [OF g(2), of "wired c t"] that u by (simp add: held_def)
  then obtain s bus where s: "source_edge c False (py_ready y) (?s, py_bus y) = Inr (s, bus)" "src_ok c s = src_ok c ?s"
    "src_frames s = src_frames ?s" "so_cur s = so_cur ?s" "so_pend s = so_pend ?s"
    "so_lim_bytes s = so_lim_bytes ?s" "so_lim_frames s = so_lim_frames ?s" "so_queue s = so_queue ?s"
    "so_drive s = None \<or> so_drive s = so_drive ?s"
    "\<not> so_pause ?s \<longrightarrow> py_ready y \<or> tx_valid (py_bus y) = 0 \<longrightarrow> so_drive s = None"
    "if py_ready y \<or> tx_valid (py_bus y) = 0 then on_bus bus @ held c (so_drive s) = held c (so_drive ?s)
     else bus = py_bus y \<and> so_drive s = so_drive ?s"
    using source_edge_moves [of ?s c "py_ready y" "py_bus y"] by blast
  have c1: "chain c cur (on_bus (py_bus y) @ held c (so_drive ?s) @ held c (so_pend ?s)) out (so_cur (py_src y))"
    using g(2) u by simp
  obtain k mid a b where k: "sink_edge c False (py_bus y) (?k, py_ready y) = Inr (k, \<not> pcie_sink_full ?k \<and> \<not> sk_pause ?k)"
    "out = a @ b" "grown ?k (map (carry c) a) k" "glued c mid k" "length a \<le> pc_seg_count c"
    "\<not> (py_ready y \<and> tx_valid (py_bus y) \<noteq> 0) \<longrightarrow> a = []"
    "chain c mid ((if py_ready y then [] else on_bus (py_bus y)) @ held c (so_drive ?s) @ held c (so_pend ?s)) b (so_cur (py_src y))"
    using sink_edge_takes [OF _ c1] g(1) by (metis glued_pause)
  let ?y = "\<lparr>py_src = s, py_bus = bus, py_sink = k, py_ready = \<not> pcie_sink_full ?k \<and> \<not> sk_pause ?k\<rparr>"
  have "under_way c ?y = on_bus bus @ held c (so_drive s) @ held c (so_pend s)"
    by (simp add: under_way_def on_bus_def)
  also have "\<dots> = (if py_ready y then [] else on_bus (py_bus y)) @ held c (so_drive ?s) @ held c (so_pend ?s)"
    using s(5,11) by (auto simp: on_bus_def split: if_splits)
  finally have "chain c mid (under_way c ?y) b (so_cur (py_src ?y))" using k(7) s(4) by simp
  moreover have "map (carry c) sent = got @ sk_queue k @ map (carry c) (b @ src_frames s)"
    using g(3) k(2,3) s(3) by (simp add: grown_def src_frames_def)
  moreover have "tx_fits (pc_bus c) t" if "so_drive s = Some t \<or> so_pend s = Some t" for t
    using that fits [of t] s(5,9) by auto
  moreover have "src_ok c s" using s(2) assms by (simp add: src_ok_def src_frames_def pjoint_def)
  ultimately have "pjoint c sent got ?y" using k(4)
    pjointI [where y = ?y and cur = mid and out = b and c = c and sent = sent and got = got] by simp
  moreover have "pcie_edge c False p q y = Inr ?y" using s(1) k(1) by (simp add: pcie_edge_def)
  moreover have "pcie_sink_full ?k = pcie_sink_full (py_sink y)" by (simp add: pcie_sink_full_def)
  ultimately show ?thesis using k(3,5,6) s(4-8,10,11) by (intro exI [of _ ?y] exI [of _ "map (carry c) a"]) simp
qed

lemma pcie_reach_joint: "pcie_reach c lims sent got y \<Longrightarrow> link_cfg c \<Longrightarrow> pjoint c sent got y"
proof (induction rule: pcie_reach.induct)
  case (Build sent got y s)
  then show ?case using pjoint_build by fastforce
next
  case (Edge sent got y p q y')
  then show ?case using pjoint_edge [of c sent got y p q] by auto
qed (auto intro: pjoint_init pjoint_send pjoint_drive pjoint_recv)

end
