(* ===== verification/PcieSystem.thy ===== *)
theory PcieSystem imports PcieBus begin

text \<open>
  The PCIe streaming bus: delivery of frames in order, the types of everything on the bus, the
  bounds of both queues, and that the bus drains.
\<close>

section \<open>Counts and limits\<close>

definition sink_counts :: "pcie_sink \<Rightarrow> bool" where
  "sink_counts k \<longleftrightarrow> sk_occ_frames k = int (length (sk_queue k)) \<and>
     sk_occ_bytes k = sum_list (map (\<lambda>f. int (length (fr_data f))) (sk_queue k))"

definition limits :: "pcie_cfg \<Rightarrow> int \<times> int \<times> int \<times> int \<Rightarrow> pcie_sys \<Rightarrow> bool" where
  "limits c = (\<lambda>(sb, sf, kb, kf) y.
     so_lim_bytes (py_src y) = sb \<and> so_lim_frames (py_src y) = sf \<and>
     sk_lim_bytes (py_sink y) = kb \<and> sk_lim_frames (py_sink y) = kf \<and> sink_counts (py_sink y) \<and>
     (0 < sf \<longrightarrow> int (length (so_queue (py_src y))) \<le> sf + 1) \<and>
     (0 < kf \<longrightarrow> int (length (sk_queue (py_sink y))) \<le> kf + 2 * int (pc_seg_count c) \<and>
       (py_ready y \<longrightarrow> int (length (sk_queue (py_sink y))) \<le> kf + int (pc_seg_count c))))"

lemma over_limit_iff:
  "over_limit lb lf ob nf \<longleftrightarrow> 0 < lb \<and> lb < ob \<or> 0 < lf \<and> lf < nf"
  by (auto simp: over_limit_def)

lemma sink_counts_grown: "sink_counts k \<Longrightarrow> grown k out k' \<Longrightarrow> sink_counts k'"
  by (simp add: sink_counts_def grown_def)

lemma sink_counts_recv:
  "sink_counts k \<Longrightarrow> pcie_recv_nowait k = Inr (f, k') \<Longrightarrow>
     sink_counts k' \<and> sk_queue k = f # sk_queue k' \<and> sk_lim_bytes k' = sk_lim_bytes k \<and>
     sk_lim_frames k' = sk_lim_frames k \<and> sk_pause k' = sk_pause k"
  by (auto simp: sink_counts_def pcie_recv_nowait_def split: list.splits)

lemma source_build_queue:
  assumes "link_cfg c" "src_ok c s" "source_build c s = Inr s'"
  shows "length (so_queue s') \<le> length (so_queue s) \<and> so_lim_bytes s' = so_lim_bytes s \<and> so_lim_frames s' = so_lim_frames s"
  using source_build_conveys [OF assms(1,2)] assms(3) by (auto simp: src_rest_def split: if_splits)

lemma reach_limits: "pcie_reach c lims sent got y \<Longrightarrow> link_cfg c \<Longrightarrow> limits c lims y"
proof (induction rule: pcie_reach.induct)
  case (Init sb sf kb kf)
  then show ?case by (simp add: limits_def pcie_init_def pcie_source_init_def pcie_sink_init_def sink_counts_def)
next
  case (Send sent got y f s)
  then have "src_ok c (py_src y)" using pcie_reach_joint by (auto simp: pjoint_def)
  then have "so_occ_frames (py_src y) = int (length (so_queue (py_src y)))" by (simp add: src_ok_def)
  then show ?case using Send
    by (auto simp: limits_def pcie_send_nowait_def pcie_source_full_def over_limit_iff split: if_splits prod.splits)
next
  case (Build sent got y s)
  then have "src_ok c (py_src y)" using pcie_reach_joint by (auto simp: pjoint_def)
  from source_build_queue [OF Build.prems this Build.hyps(2)] show ?case
    using Build by (auto simp: limits_def split: prod.splits)
next
  case (Drive sent got y)
  then show ?case by (auto simp: limits_def source_drive_def split: prod.splits)
next
  case (Recv sent got y f k)
  then have "sink_counts (py_sink y)" by (auto simp: limits_def split: prod.splits)
  from sink_counts_recv [OF this Recv.hyps(2)] Recv show ?case
    by (auto simp: limits_def split: prod.splits)
next
  case (Edge sent got y p q y')
  obtain a where e: "grown ((py_sink y)\<lparr>sk_pause := q\<rparr>) a (py_sink y')" "length a \<le> pc_seg_count c" "\<not> py_ready y \<longrightarrow> a = []"
    "py_ready y' = (\<not> pcie_sink_full (py_sink y) \<and> \<not> q)" "so_queue (py_src y') = so_queue (py_src y)"
    "so_lim_frames (py_src y') = so_lim_frames (py_src y)" "so_lim_bytes (py_src y') = so_lim_bytes (py_src y)"
    using pjoint_edge [OF pcie_reach_joint [OF Edge.hyps(1) Edge.prems], of p q] Edge.hyps(2) by auto
  obtain sb sf kb kf where l: "lims = (sb, sf, kb, kf)" by (cases lims)
  note old = Edge.IH [OF Edge.prems, unfolded l limits_def prod.case]
  have c: "sink_counts (py_sink y')"
    using sink_counts_grown [OF _ e(1)] old by (simp add: sink_counts_def)
  have q: "length (sk_queue (py_sink y')) = length (sk_queue (py_sink y)) + length a"
    "sk_lim_bytes (py_sink y') = kb" "sk_lim_frames (py_sink y') = kf"
    using e(1) old by (simp_all add: grown_def)
  have "int (length (sk_queue (py_sink y))) \<le> kf" if "py_ready y'" "0 < kf"
    using that e(4) old by (auto simp: pcie_sink_full_def over_limit_iff sink_counts_def)
  then show ?case using old c e(2-7) q by (cases "py_ready y") (auto simp: l limits_def)
qed

section \<open>The bus drains\<close>

text \<open>A cycle in which nobody pauses: the coroutine of the source runs, the clock ticks, and what has
  arrived is received.\<close>

definition pcie_round :: "pcie_cfg \<Rightarrow> pcie_sys \<Rightarrow> (pcie_frame list \<times> pcie_sys) result" where
  "pcie_round c y =
     rbind (source_build c (py_src y)) (\<lambda>s.
     rbind (pcie_edge c False False False (y\<lparr>py_src := source_drive s\<rparr>)) (\<lambda>y1.
     rbind (draws pcie_recv_nowait (length (sk_queue (py_sink y1))) (py_sink y1)) (\<lambda>(fs, k).
     Inr (fs, y1\<lparr>py_sink := k\<rparr>))))"

definition pcie_work :: "pcie_sys \<Rightarrow> nat" where
  "pcie_work y = 4 * src_work (py_src y) + (if so_pend (py_src y) = None then 0 else 3) +
     (if so_drive (py_src y) = None then 0 else 2) + (if tx_valid (py_bus y) = 0 then 0 else 1)"

lemma receive_all:
  assumes "pcie_reach c lims sent got y" "n = length (sk_queue (py_sink y))"
  shows "\<exists>k. draws pcie_recv_nowait n (py_sink y) = Inr (sk_queue (py_sink y), k) \<and> sk_queue k = [] \<and>
    pcie_reach c lims sent (got @ sk_queue (py_sink y)) (y\<lparr>py_sink := k\<rparr>)"
  using assms
proof (induction n arbitrary: got y)
  case 0
  then show ?case by simp
next
  case (Suc n)
  then obtain f fs where q: "sk_queue (py_sink y) = f # fs" by (cases "sk_queue (py_sink y)") auto
  then obtain k1 where k1: "pcie_recv_nowait (py_sink y) = Inr (f, k1)" "sk_queue k1 = fs"
    by (simp add: pcie_recv_nowait_def)
  from Suc.IH [OF pcie_reach.Recv [OF Suc.prems(1) k1(1)]] show ?case
    using Suc.prems(2) q k1 by auto
qed

lemma pcie_work_lengths:
  "pcie_work y = 4 * src_work (py_src y) + 3 * length (held c (so_pend (py_src y))) +
     2 * length (held c (so_drive (py_src y))) + length (on_bus (py_bus y))"
  by (simp add: pcie_work_def held_def on_bus_def split: option.split)

text \<open>The arithmetic of a round: work left, then the places before the bus, and the bus.\<close>

lemma work_step:
  fixes w p d b :: nat
  assumes "if p = 0 \<and> 0 < w then p1 = 1 \<and> d1 = d \<and> w1 < w else p1 = p \<and> d1 = d \<and> w1 = w"
    and "if d1 = 0 \<and> p1 = 1 then d2 = 1 \<and> p2 = 0 else d2 = d1 \<and> p2 = p1"
    and "if ready \<or> b = 0 then b3 + d3 = d2 \<and> d3 = 0 else b3 = b \<and> d3 = d2"
    and "p \<le> 1" "d \<le> 1" "b \<le> 1"
  shows "4 * w1 + 3 * p2 + 2 * d3 + b3 \<le> 4 * w + 3 * p + 2 * d + b \<and>
    (ready \<longrightarrow> 0 < 4 * w + 3 * p + 2 * d + b \<longrightarrow> 4 * w1 + 3 * p2 + 2 * d3 + b3 < 4 * w + 3 * p + 2 * d + b)"
proof -
  from assms(4-6) consider "p = 0" "d = 0" | "p = 0" "d = 1" | "p = 1" "d = 0" | "p = 1" "d = 1" by linarith
  then show ?thesis
    using assms(1-3,6) by cases (cases "0 < w"; cases "b = 0"; cases ready; simp)+
qed

lemma src_work_0: "src_ok c s \<Longrightarrow> src_work s = 0 \<longleftrightarrow> src_frames s = []"
  by (cases "so_queue s") (auto simp: src_ok_def src_work_def src_frames_def split: option.splits)

lemma round_step:
  assumes r: "pcie_reach c lims sent got y" and c: "link_cfg c"
  shows "\<exists>fs y'. pcie_round c y = Inr (fs, y') \<and> pcie_reach c lims sent (got @ fs) y' \<and> sk_queue (py_sink y') = [] \<and>
    (sk_queue (py_sink y) = [] \<longrightarrow> py_ready y') \<and> pcie_work y' \<le> pcie_work y \<and>
    (py_ready y \<longrightarrow> 0 < pcie_work y \<longrightarrow> pcie_work y' < pcie_work y)"
proof -
  obtain s where s: "source_build c (py_src y) = Inr s"
    using pjoint_build [OF c pcie_reach_joint [OF r c]] by blast
  have so: "src_ok c (py_src y)" using pcie_reach_joint [OF r c] by (simp add: pjoint_def)
  have ws: "if so_pend (py_src y) = None \<and> src_frames (py_src y) \<noteq> []
     then so_pend s \<noteq> None \<and> so_drive s = so_drive (py_src y) \<and> src_work s < src_work (py_src y) else s = py_src y"
    using source_build_conveys [OF c so] s by (auto simp: src_rest_def split: if_splits)
  let ?y1 = "y\<lparr>py_src := source_drive s\<rparr>"
  have r1: "pcie_reach c lims sent got ?y1" using pcie_reach.Drive [OF pcie_reach.Build [OF r s]] by simp
  have e: "py_src ?y1 = source_drive s" "py_bus ?y1 = py_bus y" "py_ready ?y1 = py_ready y" "py_sink ?y1 = py_sink y" by simp_all
  obtain y2 where y2: "pcie_edge c False False False ?y1 = Inr y2"
    "py_ready y2 = (\<not> pcie_sink_full (py_sink y) \<and> \<not> False)" "so_queue (py_src y2) = so_queue (source_drive s)"
    "so_pend (py_src y2) = so_pend (source_drive s)" "so_cur (py_src y2) = so_cur (source_drive s)"
    "py_ready y \<or> tx_valid (py_bus y) = 0 \<longrightarrow> so_drive (py_src y2) = None"
    "if py_ready y \<or> tx_valid (py_bus y) = 0
     then on_bus (py_bus y2) @ held c (so_drive (py_src y2)) = held c (so_drive (source_drive s))
     else py_bus y2 = py_bus y \<and> so_drive (py_src y2) = so_drive (source_drive s)"
    using pjoint_edge [OF pcie_reach_joint [OF r1 c], of False False, unfolded e] by blast
  have r2: "pcie_reach c lims sent got y2" using pcie_reach.Edge [OF r1 y2(1)] .
  obtain k where k: "draws pcie_recv_nowait (length (sk_queue (py_sink y2))) (py_sink y2) = Inr (sk_queue (py_sink y2), k)"
    "sk_queue k = []" "pcie_reach c lims sent (got @ sk_queue (py_sink y2)) (y2\<lparr>py_sink := k\<rparr>)"
    using receive_all [OF r2 refl] by blast
  have "pcie_round c y = Inr (sk_queue (py_sink y2), y2\<lparr>py_sink := k\<rparr>)"
    by (simp add: pcie_round_def s y2(1) k(1))
  moreover have "py_ready y2" if "sk_queue (py_sink y) = []"
    using that reach_limits [OF r c] y2(2)
    by (auto simp: limits_def sink_counts_def pcie_sink_full_def over_limit_iff split: prod.splits)
  moreover have "pcie_work (y2\<lparr>py_sink := k\<rparr>) \<le> pcie_work y \<and>
    (py_ready y \<longrightarrow> 0 < pcie_work y \<longrightarrow> pcie_work (y2\<lparr>py_sink := k\<rparr>) < pcie_work y)"
  proof -
    let ?len = "\<lambda>x. length (held c x)" and ?b = "\<lambda>x. length (on_bus x)"
    have len: "?len x \<le> 1" "held c x = [] \<longleftrightarrow> x = None" for x by (simp_all add: held_def split: option.split)
    have b: "?b x \<le> 1" "on_bus x = [] \<longleftrightarrow> tx_valid x = 0" for x by (simp_all add: on_bus_def)
    have w2: "src_work (py_src y2) = src_work s" using y2(3,5) by (simp add: src_work_def source_drive_def)
    have 1: "if ?len (so_pend (py_src y)) = 0 \<and> 0 < src_work (py_src y)
      then ?len (so_pend s) = 1 \<and> ?len (so_drive s) = ?len (so_drive (py_src y)) \<and> src_work s < src_work (py_src y)
      else ?len (so_pend s) = ?len (so_pend (py_src y)) \<and> ?len (so_drive s) = ?len (so_drive (py_src y)) \<and> src_work s = src_work (py_src y)"
    proof (cases "so_pend (py_src y) = None \<and> src_frames (py_src y) \<noteq> []")
      case True
      then have "?len (so_pend s) \<noteq> 0" "so_drive s = so_drive (py_src y)" "src_work s < src_work (py_src y)"
        using ws len(2) by auto
      moreover from this(1) have "?len (so_pend s) = 1" using len(1) [of "so_pend s"] by linarith
      moreover have "held c None = []" by (simp add: held_def)
      ultimately show ?thesis using True by simp
    next
      case False
      then have "s = py_src y" "\<not> (so_pend (py_src y) = None \<and> src_work (py_src y) \<noteq> 0)"
        using ws src_work_0 [OF so] by auto
      then show ?thesis by (auto simp: held_def)
    qed
    have 2: "if ?len (so_drive s) = 0 \<and> ?len (so_pend s) = 1
      then ?len (so_drive (source_drive s)) = 1 \<and> ?len (so_pend (source_drive s)) = 0
      else ?len (so_drive (source_drive s)) = ?len (so_drive s) \<and> ?len (so_pend (source_drive s)) = ?len (so_pend s)"
      by (cases "so_drive s"; cases "so_pend s") (simp_all add: source_drive_def held_def)
    have 3: "if py_ready y \<or> ?b (py_bus y) = 0
      then ?b (py_bus y2) + ?len (so_drive (py_src y2)) = ?len (so_drive (source_drive s)) \<and> ?len (so_drive (py_src y2)) = 0
      else ?b (py_bus y2) = ?b (py_bus y) \<and> ?len (so_drive (py_src y2)) = ?len (so_drive (source_drive s))"
    proof (cases "py_ready y \<or> tx_valid (py_bus y) = 0")
      case True
      from arg_cong [OF y2(7) [unfolded if_P [OF True]], of length] y2(6) True show ?thesis by (simp add: b(2) len(2))
    next
      case False
      then show ?thesis using y2(7) by (simp add: b(2))
    qed
    show ?thesis
      using work_step [OF 1 2 3 len(1) len(1) b(1)] y2(4) w2 by (simp add: pcie_work_lengths [of _ c])
  qed
  ultimately show ?thesis using k(2,3) by auto
qed

lemma rounds_drain:
  assumes c: "link_cfg c" and r: "pcie_reach c lims sent got y"
    and n: "pcie_work y + (if sk_queue (py_sink y) \<noteq> [] then 2 else if py_ready y then 0 else 1) \<le> n"
  shows "\<exists>fss y'. draws (pcie_round c) n y = Inr (fss, y') \<and> pcie_reach c lims sent (got @ concat fss) y' \<and> pcie_work y' = 0 \<and>
    (sk_queue (py_sink y) = [] \<or> 0 < n \<longrightarrow> sk_queue (py_sink y') = [])"
  using r n
proof (induction n arbitrary: got y)
  case 0
  then show ?case by auto
next
  case (Suc n)
  obtain fs y1 where s: "pcie_round c y = Inr (fs, y1)" "pcie_reach c lims sent (got @ fs) y1" "sk_queue (py_sink y1) = []"
    "sk_queue (py_sink y) = [] \<longrightarrow> py_ready y1" "pcie_work y1 \<le> pcie_work y"
    "py_ready y \<longrightarrow> 0 < pcie_work y \<longrightarrow> pcie_work y1 < pcie_work y"
    using round_step [OF Suc.prems(1) c] by (elim exE conjE) (rule that)
  have "pcie_work y1 + (if sk_queue (py_sink y1) \<noteq> [] then 2 else if py_ready y1 then 0 else 1) \<le> n"
    using Suc.prems(2) s(3-6) by (cases "py_ready y"; cases "py_ready y1") (auto split: if_splits)
  from Suc.IH [OF s(2) this] s(1,3) show ?case by auto
qed

lemma drained:
  assumes "link_cfg c" "pcie_reach c lims sent got y" "pcie_work y = 0"
  shows "map (carry c) sent = got @ sk_queue (py_sink y)"
proof -
  have j: "pjoint c sent got y" using pcie_reach_joint assms(1,2) by blast
  then have "src_frames (py_src y) = []"
    using src_work_0 [of c "py_src y"] assms(3) by (simp add: pjoint_def pcie_work_def)
  moreover have "under_way c y = []"
    using assms(3) by (simp add: pcie_work_def under_way_def held_def split: if_splits)
  ultimately show ?thesis using j by (auto simp: pjoint_def)
qed

section \<open>Everything on the bus is well typed\<close>

lemma in_signal_wire: "in_signal l v \<Longrightarrow> in_signal l (on_wire l v)"
  by (simp add: in_signal_def on_wire_def split: option.splits)

lemma tx_fits_wire: "tx_fits b t \<Longrightarrow> tx_fits b (wire_tx b t)"
  by (simp add: tx_fits_def wire_tx_def in_signal_wire)

lemma source_edge_fits:
  assumes "tx_fits (pc_bus c) bus" "source_edge c False ready (s, bus) = Inr (s', bus')"
  shows "tx_fits (pc_bus c) bus'"
proof -
  have "tx_fits b (t\<lparr>tx_valid := 0\<rparr>)" if "tx_fits b t" for b t using that by (simp add: tx_fits_def)
  then show ?thesis using assms
    by (auto simp: source_edge_def drive_bus_def rbind_Inr_iff tx_fits_wire split: if_splits option.splits)
qed

lemma reach_bus_fits: "pcie_reach c lims sent got y \<Longrightarrow> link_cfg c \<Longrightarrow> tx_fits (pc_bus c) (py_bus y)"
proof (induction rule: pcie_reach.induct)
  case (Init sb sf kb kf)
  have "in_signal l 0" for l by (simp add: in_signal_def split: option.split)
  then show ?case by (simp add: pcie_init_def idle_tx_def tx_fits_def)
next
  case (Edge sent got y p q y')
  obtain s where "source_edge c False (py_ready y) ((py_src y)\<lparr>so_pause := p\<rparr>, py_bus y) = Inr (s, py_bus y')"
    using Edge.hyps(2) by (auto simp: pcie_edge_def rbind_Inr_iff)
  from source_edge_fits [OF _ this] show ?case using Edge.IH Edge.prems by blast
qed simp_all

lemma fits_on_wire: "fits n v \<Longrightarrow> fits n (on_wire l v)"
  by (simp add: on_wire_def split: option.split)

lemma frame_ok_carry: "frame_ok c f \<Longrightarrow> frame_ok c (carry c f)"
  by (auto simp: frame_ok_def carry_def Let_def fits_on_wire words_fit_def)

lemma reach_sent_ok: "pcie_reach c lims sent got y \<Longrightarrow> \<forall>f \<in> set sent. frame_ok c f"
  by (induction rule: pcie_reach.induct) auto

section \<open>Properties\<close>

text \<open>C7: Frames on the PCIe streaming bus.  Whatever is sent, in whatever order the coroutines run,
  and whatever the pauses, the frames received and waiting at the sink are the first of those sent,
  in order, each as the signals of the bus carry it; and once nobody pauses, a number of clock
  cycles that depends on the frames and words left delivers all of them.\<close>

theorem pcie_frames_in_order:
  assumes "link_cfg c" "pcie_reach c lims sent got y"
  shows "(\<exists>rest. map (carry c) sent = got @ sk_queue (py_sink y) @ rest) \<and>
    (\<exists>fss y'. draws (pcie_round c) (pcie_work y + 2) y = Inr (fss, y') \<and> got @ concat fss = map (carry c) sent)"
proof -
  define n where "n = pcie_work y + 2"
  then have "pcie_work y + (if sk_queue (py_sink y) \<noteq> [] then 2 else if py_ready y then 0 else 1) \<le> n" "0 < n" by simp_all
  from rounds_drain [OF assms this(1)] this(2) obtain fss y' where d: "draws (pcie_round c) n y = Inr (fss, y')"
    "pcie_reach c lims sent (got @ concat fss) y'" "pcie_work y' = 0" "sk_queue (py_sink y') = []"
    by blast
  from drained [OF assms(1) d(2,3)] d(4) have "got @ concat fss = map (carry c) sent" by simp
  moreover have "\<exists>rest. map (carry c) sent = got @ sk_queue (py_sink y) @ rest"
    using pcie_reach_joint [OF assms(2,1)] unfolding pjoint_def by blast
  ultimately show ?thesis using d(1) by (auto simp: n_def simp del: draws.simps)
qed

text \<open>C15: Types on the bus.  Frames whose fields have the widths of the PCIe interface keep every
  signal within its width, so that no assignment to the bus raises; the sink's assertions hold, the
  next clock edge and the next transaction return, and what arrives has the same types.\<close>

theorem pcie_bus_well_typed:
  assumes "link_cfg c" "pcie_reach c lims sent got y"
  shows "tx_fits (pc_bus c) (py_bus y) \<and> (\<exists>y'. pcie_edge c False p q y = Inr y') \<and>
    (\<exists>s. source_build c (py_src y) = Inr s) \<and> (\<forall>f \<in> set (got @ sk_queue (py_sink y)). frame_ok c f)"
proof -
  note j = pcie_reach_joint [OF assms(2,1)]
  obtain rest where "map (carry c) sent = got @ sk_queue (py_sink y) @ rest" using j unfolding pjoint_def by blast
  then have "set (got @ sk_queue (py_sink y)) \<subseteq> carry c ` set sent"
    by (metis Un_upper1 append_assoc set_append set_map)
  then have "\<forall>f \<in> set (got @ sk_queue (py_sink y)). frame_ok c f"
    using reach_sent_ok [OF assms(2)] frame_ok_carry by blast
  moreover have "\<exists>y'. pcie_edge c False p q y = Inr y'" using pjoint_edge [OF j] by blast
  ultimately show ?thesis using reach_bus_fits [OF assms(2,1)] pjoint_build [OF assms(1) j] by blast
qed

text \<open>C16: Bounds of the queues.  The source holds at most one frame more than its limit.  The ready
  signal of the sink is a cycle late and the limit is checked before the frames of the cycle are
  counted, so the sink holds up to its limit and two transactions more, and not more than that.\<close>

theorem pcie_queue_bounds:
  assumes "link_cfg c" "pcie_reach c (sb, sf, kb, kf) sent got y"
  shows "(0 < sf \<longrightarrow> int (length (so_queue (py_src y))) \<le> sf + 1) \<and>
    (0 < kf \<longrightarrow> int (length (sk_queue (py_sink y))) \<le> kf + 2 * int (pc_seg_count c))"
  using reach_limits [OF assms(2,1)] by (simp add: limits_def)

section \<open>Runs\<close>

datatype pcie_act = DoSend pcie_frame | DoBuild | DoDrive | DoRecv | DoEdge bool bool

fun pcie_do ::
  "pcie_cfg \<Rightarrow> pcie_act \<Rightarrow> pcie_frame list \<times> pcie_frame list \<times> pcie_sys \<Rightarrow>
     (pcie_frame list \<times> pcie_frame list \<times> pcie_sys) result" where
  "pcie_do c (DoSend f) (sent, got, y) =
     (if frame_ok c f then rbind (pcie_send_nowait f (py_src y)) (\<lambda>s. Inr (sent @ [f], got, y\<lparr>py_src := s\<rparr>))
      else Inl ValueError)"
| "pcie_do c DoBuild (sent, got, y) = rbind (source_build c (py_src y)) (\<lambda>s. Inr (sent, got, y\<lparr>py_src := s\<rparr>))"
| "pcie_do c DoDrive (sent, got, y) = Inr (sent, got, y\<lparr>py_src := source_drive (py_src y)\<rparr>)"
| "pcie_do c DoRecv (sent, got, y) = rbind (pcie_recv_nowait (py_sink y)) (\<lambda>(f, k). Inr (sent, got @ [f], y\<lparr>py_sink := k\<rparr>))"
| "pcie_do c (DoEdge p q) (sent, got, y) = rbind (pcie_edge c False p q y) (\<lambda>y'. Inr (sent, got, y'))"

lemma pcie_do_reach:
  "pcie_reach c lims sent got y \<Longrightarrow> pcie_do c a (sent, got, y) = Inr (sent', got', y') \<Longrightarrow> pcie_reach c lims sent' got' y'"
  by (cases a) (auto simp: rbind_Inr_iff split: if_splits intro: pcie_reach.intros)

lemma pcie_run_reach:
  "rfold (pcie_do c) as (sent, got, y) = Inr (sent', got', y') \<Longrightarrow> pcie_reach c lims sent got y \<Longrightarrow>
     pcie_reach c lims sent' got' y'"
proof (induction "as" arbitrary: sent got y)
  case (Cons a as)
  from Cons.prems(1) obtain st where st: "pcie_do c a (sent, got, y) = Inr st" "rfold (pcie_do c) as st = Inr (sent', got', y')"
    by (auto simp: rbind_Inr_iff)
  obtain s1 g1 y1 where "st = (s1, g1, y1)" by (cases st)
  then show ?case using st Cons.IH pcie_do_reach [OF Cons.prems(2)] by blast
qed simp

section \<open>A bus of two segments\<close>

definition demo_pcie_bus :: pcie_bus where
  "demo_pcie_bus = \<lparr>ln_hdr = 256, ln_valid = 2, ln_sop = 2, ln_eop = 2, ln_data = Some 128, ln_empty = Some 2,
     ln_error = Some 8, ln_tlp_prfx = None, ln_vf_active = Some 2, ln_func_num = Some 16, ln_vf_num = Some 22,
     ln_data_par = Some 16, ln_hdr_par = Some 32, ln_tlp_prfx_par = None, ln_seq = Some 12, ln_bar_id = Some 6,
     ln_tlp_abort = Some 2\<rparr>"

definition demo_pcie_cfg :: pcie_cfg where
  "demo_pcie_cfg = (case pcie_if_cfg demo_pcie_bus of Inr c \<Rightarrow> c)"

definition demo_pcie_frame :: "int \<Rightarrow> int list \<Rightarrow> pcie_frame" where
  "demo_pcie_frame tag ds = the (update_parity (new_frame\<lparr>
     fr_hdr := (if ds = [] then tag else push_bit 126 1 + push_bit 96 (int (length ds)) + tag), fr_data := ds,
     fr_func_num := 3, fr_vf_num := Some 9, fr_seq := 5\<rparr>))"

lemma demo_pcie_link: "link_cfg demo_pcie_cfg"
  by code_simp

definition demo_pcie_acts :: "pcie_act list" where
  "demo_pcie_acts = [DoSend (demo_pcie_frame 1 []), DoBuild, DoDrive, DoEdge False False,
     DoSend (demo_pcie_frame 2 []), DoSend (demo_pcie_frame 3 []), DoBuild, DoDrive, DoEdge False False,
     DoSend (demo_pcie_frame 4 []), DoSend (demo_pcie_frame 5 []), DoBuild, DoDrive, DoEdge False False,
     DoEdge False False]"

definition demo_pcie_acts2 :: "pcie_act list" where
  "demo_pcie_acts2 = [DoSend (demo_pcie_frame 7 [1, 2, 3, 4, 0xffffffff]), DoSend (demo_pcie_frame 8 []), DoBuild, DoDrive,
     DoEdge False True, DoBuild, DoEdge True False, DoDrive, DoEdge False False, DoEdge False False, DoRecv]"

lemma demo_pcie_run:
  "\<exists>st. rfold (pcie_do demo_pcie_cfg) demo_pcie_acts ([], [], pcie_init (-1) 2 (-1) 1) = Inr st \<and>
     length (sk_queue (py_sink (snd (snd st)))) = 5"
proof -
  have "(case rfold (pcie_do demo_pcie_cfg) demo_pcie_acts ([], [], pcie_init (-1) 2 (-1) 1) of Inl e \<Rightarrow> False
     | Inr st \<Rightarrow> length (sk_queue (py_sink (snd (snd st)))) = 5)" by code_simp
  then show ?thesis by (auto split: sum.splits)
qed

lemma demo_pcie_run2:
  "\<exists>st. rfold (pcie_do demo_pcie_cfg) demo_pcie_acts2 ([], [], pcie_init (-1) 2 (-1) 1) = Inr st \<and>
     map fr_data (fst (snd st)) = [[1, 2, 3, 4, 0xffffffff]] \<and> length (fst st) = 2"
proof -
  have "(case rfold (pcie_do demo_pcie_cfg) demo_pcie_acts2 ([], [], pcie_init (-1) 2 (-1) 1) of Inl e \<Rightarrow> False
     | Inr st \<Rightarrow> map fr_data (fst (snd st)) = [[1, 2, 3, 4, 0xffffffff]] \<and> length (fst st) = 2)" by code_simp
  then show ?thesis by (auto split: sum.splits)
qed

lemma demo_pcie_reached:
  "\<exists>sent got y. pcie_reach demo_pcie_cfg (-1, 2, -1, 1) sent got y \<and>
     map fr_data got = [[1, 2, 3, 4, 0xffffffff]] \<and> length sent = 2"
  "\<exists>sent got y. pcie_reach demo_pcie_cfg (-1, 2, -1, 1) sent got y \<and> length (sk_queue (py_sink y)) = 5"
proof -
  have init: "pcie_reach demo_pcie_cfg (-1, 2, -1, 1) [] [] (pcie_init (-1) 2 (-1) 1)" by (rule pcie_reach.Init) simp
  obtain sent got y where "rfold (pcie_do demo_pcie_cfg) demo_pcie_acts2 ([], [], pcie_init (-1) 2 (-1) 1) = Inr (sent, got, y)"
    "map fr_data got = [[1, 2, 3, 4, 0xffffffff]]" "length sent = 2"
    using demo_pcie_run2 by (metis fst_conv prod.collapse snd_conv)
  then show "\<exists>sent got y. pcie_reach demo_pcie_cfg (-1, 2, -1, 1) sent got y \<and>
     map fr_data got = [[1, 2, 3, 4, 0xffffffff]] \<and> length sent = 2"
    using pcie_run_reach [OF _ init] by (intro exI conjI)
  obtain sent got y where "rfold (pcie_do demo_pcie_cfg) demo_pcie_acts ([], [], pcie_init (-1) 2 (-1) 1) = Inr (sent, got, y)"
    "length (sk_queue (py_sink y)) = 5"
    using demo_pcie_run by (metis prod.collapse snd_conv)
  then show "\<exists>sent got y. pcie_reach demo_pcie_cfg (-1, 2, -1, 1) sent got y \<and> length (sk_queue (py_sink y)) = 5"
    using pcie_run_reach [OF _ init] by blast
qed

theorem pcie_frames_in_order_witness:
  "\<exists>sent got y fss y'. pcie_reach demo_pcie_cfg (-1, 2, -1, 1) sent got y \<and>
     map fr_data got = [[1, 2, 3, 4, 0xffffffff]] \<and> length sent = 2 \<and>
     draws (pcie_round demo_pcie_cfg) (pcie_work y + 2) y = Inr (fss, y') \<and>
     got @ concat fss = map (carry demo_pcie_cfg) sent"
proof -
  obtain sent got y where r: "pcie_reach demo_pcie_cfg (-1, 2, -1, 1) sent got y"
    "map fr_data got = [[1, 2, 3, 4, 0xffffffff]]" "length sent = 2" using demo_pcie_reached(1) by (elim exE conjE) (rule that)
  from pcie_frames_in_order [OF demo_pcie_link r(1)] obtain fss y' where
    "draws (pcie_round demo_pcie_cfg) (pcie_work y + 2) y = Inr (fss, y')" "got @ concat fss = map (carry demo_pcie_cfg) sent"
    by blast
  with r show ?thesis by (intro exI conjI)
qed

theorem pcie_bus_well_typed_witness:
  "\<exists>sent got y y'. pcie_reach demo_pcie_cfg (-1, 2, -1, 1) sent got y \<and> got \<noteq> [] \<and>
     pcie_edge demo_pcie_cfg False False False y = Inr y' \<and> (\<forall>f \<in> set got. frame_ok demo_pcie_cfg f)"
proof -
  obtain sent got y where r: "pcie_reach demo_pcie_cfg (-1, 2, -1, 1) sent got y"
    "map fr_data got = [[1, 2, 3, 4, 0xffffffff]]"
    using demo_pcie_reached(1) by (elim exE conjE) (rule that)
  have "got \<noteq> []" using r(2) by auto
  with pcie_bus_well_typed [OF demo_pcie_link r(1), of False False] r(1) show ?thesis by auto
qed

text \<open>The bound of the sink is attained: with a limit of one frame it holds five.\<close>

theorem pcie_queue_bounds_witness:
  "\<exists>sent got y. pcie_reach demo_pcie_cfg (-1, 2, -1, 1) sent got y \<and>
     int (length (so_queue (py_src y))) \<le> 2 + 1 \<and>
     int (length (sk_queue (py_sink y))) = 1 + 2 * int (pc_seg_count demo_pcie_cfg)"
proof -
  obtain sent got y where r: "pcie_reach demo_pcie_cfg (-1, 2, -1, 1) sent got y" "length (sk_queue (py_sink y)) = 5"
    using demo_pcie_reached(2) by blast
  have "pc_seg_count demo_pcie_cfg = 2" by code_simp
  with pcie_queue_bounds [OF demo_pcie_link r(1)] r show ?thesis by auto
qed

end
