(* ===== verification/PcieTlp.thy ===== *)
theory PcieTlp imports PcieLink begin

text \<open>
  Transaction layer packets and the frames that carry them (\<open>PcieIfFrame\<close>).  The class \<open>Tlp\<close> comes from
  the PCIe simulation library: the record has the attributes the code uses, any others are in its
  extension, and its methods are the record \<open>tlp_lib\<close> of parameters.
\<close>

section \<open>Packets\<close>

datatype tlp_type =
    MEM_READ | MEM_READ_64 | MEM_READ_LOCKED | MEM_WRITE | MEM_WRITE_64 | IO_READ | IO_WRITE
  | CFG_READ_0 | CFG_WRITE_0 | CFG_READ_1 | CFG_WRITE_1 | CPL | CPL_DATA | CPL_LOCKED | CPL_LOCKED_DATA
  | FETCH_ADD | SWAP | CAS | OtherType nat

datatype cpl_status = SC | OtherStatus nat

record pcie_id =
  id_bus :: int
  id_device :: int
  id_function :: int

record tlp =
  tl_fmt_type :: tlp_type
  tl_requester_id :: pcie_id
  tl_dest_id :: pcie_id
  tl_tag :: int
  tl_address :: int
  tl_length :: int
  tl_first_be :: int
  tl_last_be :: int
  tl_status :: cpl_status
  tl_byte_count :: int
  tl_lower_address :: int
  tl_data :: bytes

record 'x tlp_lib =
  lib_new :: "'x tlp_scheme"
  lib_pack_header :: "'x tlp_scheme \<Rightarrow> bytes"
  lib_unpack_header :: "bytes \<Rightarrow> 'x tlp_scheme result"
  lib_get_data :: "'x tlp_scheme \<Rightarrow> bytes"
  lib_set_data :: "bytes \<Rightarrow> 'x tlp_scheme \<Rightarrow> 'x tlp_scheme"
  lib_set_addr_be :: "int \<Rightarrow> int \<Rightarrow> 'x tlp_scheme \<Rightarrow> 'x tlp_scheme"
  lib_set_addr_be_data :: "int \<Rightarrow> bytes \<Rightarrow> 'x tlp_scheme \<Rightarrow> 'x tlp_scheme"
  lib_first_be_offset :: "'x tlp_scheme \<Rightarrow> int"
  lib_be_byte_count :: "'x tlp_scheme \<Rightarrow> int"
  lib_completion :: "'x tlp_scheme \<Rightarrow> pcie_id \<Rightarrow> 'x tlp_scheme"
  lib_completion_data :: "'x tlp_scheme \<Rightarrow> pcie_id \<Rightarrow> 'x tlp_scheme"
  lib_ur_completion :: "'x tlp_scheme \<Rightarrow> pcie_id \<Rightarrow> 'x tlp_scheme"

section \<open>Packets to frames and back\<close>

definition forced_types :: "tlp_type set" where
  "forced_types = {MEM_READ, MEM_READ_LOCKED, MEM_WRITE, IO_READ, IO_WRITE, FETCH_ADD, SWAP, CAS}"

definition force_64bit :: "bytes \<Rightarrow> bytes result" where
  "force_64bit hdr = rbind (py_get hdr 0) (\<lambda>b.
     Inr ([b OR 0x20] @ py_slice 1 8 hdr @ [0, 0, 0, 0] @ py_slice 8 12 hdr))"

text \<open>\<open>struct.unpack_from('<L', data, k)\<close> and \<open>struct.pack('<L', dw)\<close>.\<close>

definition unpack_L :: "bytes \<Rightarrow> nat \<Rightarrow> int result" where
  "unpack_L data k =
     (if k + 4 \<le> length data then Inr (le_int (py_slice k (k + 4) data)) else Inl StructError)"

definition pack_L :: "int \<Rightarrow> bytes result" where
  "pack_L dw = (if fits 32 dw then Inr (le_bytes 4 dw) else Inl StructError)"

definition dword_offsets :: "bytes \<Rightarrow> nat list" where
  "dword_offsets data = map (\<lambda>i. 4 * i) [0..<(length data + 3) div 4]"

text \<open>\<open>from_tlp\<close>; the result would be None if the loop of \<open>parity\<close> did not end.\<close>

definition from_tlp :: "'x tlp_lib \<Rightarrow> 'x tlp_scheme \<Rightarrow> bool \<Rightarrow> pcie_frame result option" where
  "from_tlp L t force =
     (let hdr = lib_pack_header L t in
      case rbind (if force \<and> tl_fmt_type t \<in> forced_types then force_64bit hdr else Inr hdr) (\<lambda>hdr.
           rbind (rmap (unpack_L (lib_get_data L t)) (dword_offsets (lib_get_data L t))) (\<lambda>ds.
           Inr (new_frame\<lparr>fr_hdr := le_int (rev (hdr @ replicate (16 - length hdr) 0)), fr_data := ds\<rparr>))) of
        Inl e \<Rightarrow> Some (Inl e)
      | Inr f \<Rightarrow> map_option Inr (update_parity f))"

definition to_tlp :: "'x tlp_lib \<Rightarrow> pcie_frame \<Rightarrow> 'x tlp_scheme result" where
  "to_tlp L f =
     rbind (to_bytes_be 16 (fr_hdr f)) (\<lambda>hdr.
     rbind (py_get hdr 0) (\<lambda>b.
     let hdr1 = (if b = 0x22 \<or> b = 0x62 then [b AND 0xdf] @ py_slice 1 8 hdr @ py_slice 12 16 hdr else hdr) in
     rbind (lib_unpack_header L hdr1) (\<lambda>t.
     rbind (rmap pack_L (fr_data f)) (\<lambda>bs.
     Inr (t\<lparr>tl_data := tl_data t @ concat bs\<rparr>)))))"

section \<open>Parity\<close>

text \<open>The parity of one byte of a number: whether an odd number of its bits is set.\<close>

definition byte_odd :: "int \<Rightarrow> nat \<Rightarrow> bool" where
  "byte_odd d k \<longleftrightarrow> odd (card {i. i < 8 \<and> bit d (8 * k + i)})"

lemma card_less_sum: "card {i. i < n \<and> P i} = (\<Sum>i<n. of_bool (P i))" for n :: nat
proof (induction n)
  case (Suc n)
  have "{i. i < Suc n \<and> P i} = (if P n then insert n {i. i < n \<and> P i} else {i. i < n \<and> P i})"
    by (auto simp: less_Suc_eq)
  then show ?case using Suc by simp
qed simp

lemma odd_card_8:
  "odd (card {i. i < 8 \<and> P i}) \<longleftrightarrow> (((P 0 \<noteq> P 4) \<noteq> (P 2 \<noteq> P 6)) \<noteq> ((P 1 \<noteq> P 5) \<noteq> (P 3 \<noteq> P (7 :: nat))))"
proof -
  have "(\<Sum>i<8. f i) = f 0 + f 1 + f 2 + f 3 + f 4 + f 5 + f 6 + f (7 :: nat)" for f :: "nat \<Rightarrow> nat"
    by (simp add: numeral_eq_Suc)
  note s = this
  have e: "even (of_bool b :: nat) \<longleftrightarrow> \<not> b" for b by simp
  show ?thesis unfolding card_less_sum s by (simp only: even_add e) argo
qed

lemma bit_fold_byte: "bit (fold_byte d) (8 * k) \<longleftrightarrow> byte_odd d k"
proof -
  have "bit (fold_byte d) n \<longleftrightarrow> (((bit d n \<noteq> bit d (n + 4)) \<noteq> (bit d (n + 2) \<noteq> bit d (n + 6))) \<noteq>
      ((bit d (n + 1) \<noteq> bit d (n + 5)) \<noteq> (bit d (n + 3) \<noteq> bit d (n + 7))))" for n
    by (simp add: fold_byte_def Let_def bit_simps add.commute numeral_3_eq_3)
  then show ?thesis unfolding byte_odd_def odd_card_8 [of "\<lambda>i. bit d (8 * k + i)"] by simp
qed

lemma parity_loop_step:
  "d \<noteq> 0 \<Longrightarrow> parity_loop d b p = parity_loop (drop_bit 8 d) (push_bit 1 b) (if bit d 0 then p OR b else p)"
  "parity_loop 0 b p = Some p"
proof -
  have "d AND 1 \<noteq> 0 \<longleftrightarrow> bit d 0" using seg_bit_iff [of d 0] by (simp add: seg_bit_def)
  then show "d \<noteq> 0 \<Longrightarrow> parity_loop d b p = parity_loop (drop_bit 8 d) (push_bit 1 b) (if bit d 0 then p OR b else p)"
    by (subst parity_loop.simps) simp
  show "parity_loop 0 b p = Some p" by (subst parity_loop.simps) simp
qed

lemma parity_loop_value:
  "0 \<le> d \<Longrightarrow> \<exists>q. parity_loop d (push_bit n 1) p = Some q \<and>
     (\<forall>k. bit q k \<longleftrightarrow> bit p k \<or> (n \<le> k \<and> bit d (8 * (k - n))))"
proof (induction "nat d" arbitrary: d n p rule: less_induct)
  case less
  show ?case
  proof (cases "d = 0")
    case True
    then show ?thesis by (simp add: parity_loop_step)
  next
    case False
    have d: "drop_bit 8 d = d div 256" by (simp add: drop_bit_eq_div)
    then have "nat (drop_bit 8 d) < nat d" "0 \<le> drop_bit 8 d" using False less.prems by simp_all
    from less.hyps [OF this, of "Suc n" "if bit d 0 then p OR push_bit n 1 else p"]
    obtain q where q: "parity_loop (drop_bit 8 d) (push_bit (Suc n) 1) (if bit d 0 then p OR push_bit n 1 else p) = Some q"
      "\<And>k. bit q k \<longleftrightarrow> bit (if bit d 0 then p OR push_bit n 1 else p) k \<or> (Suc n \<le> k \<and> bit (drop_bit 8 d) (8 * (k - Suc n)))"
      by blast
    have "push_bit 1 (push_bit n 1) = push_bit (Suc n) (1 :: int)" by simp
    then have "parity_loop d (push_bit n 1) p = Some q"
      using parity_loop_step(1) [OF False, of "push_bit n 1" p] q(1) by (simp only:)
    moreover have "bit q k \<longleftrightarrow> bit p k \<or> (n \<le> k \<and> bit d (8 * (k - n)))" for k
    proof -
      have "8 * (k - n) = 8 + 8 * (k - Suc n)" if "Suc n \<le> k" using that by (simp add: Suc_diff_le diff_mult_distrib2)
      then show ?thesis by (cases "k = n") (auto simp: q(2) bit_simps le_Suc_eq not_less_eq_eq split: if_splits)
    qed
    ultimately show ?thesis by blast
  qed
qed

lemma fold_byte_nonneg: "0 \<le> fold_byte d"
proof -
  have "0 \<le> d XOR drop_bit 4 d" by simp
  then show ?thesis by (simp add: fold_byte_def Let_def)
qed

text \<open>The number is folded before the loop, which makes it non-negative, so the loop always ends.\<close>

lemma parity_value: "\<exists>q. parity d = Some q \<and> (\<forall>k. bit q k \<longleftrightarrow> byte_odd d k)"
  using parity_loop_value [OF fold_byte_nonneg, of d 0 0] by (simp add: parity_def bit_fold_byte)

lemma dword_parity_value: "bit (dword_parity d) k \<longleftrightarrow> k < 4 \<and> byte_odd d k"
proof -
  have m: "fold_byte d AND push_bit j 1 \<noteq> 0 \<longleftrightarrow> bit (fold_byte d) j" for j
    using seg_bit_iff [of "fold_byte d" j] by (simp add: seg_bit_def)
  have m: "(fold_byte d AND 0x100 = 0) = (\<not> bit (fold_byte d) 8)" "(fold_byte d AND 0x10000 = 0) = (\<not> bit (fold_byte d) 16)"
    "(fold_byte d AND 0x1000000 = 0) = (\<not> bit (fold_byte d) 24)"
    using m [of 8] m [of 16] m [of 24] by auto
  have "bit (2 ^ j :: int) k \<longleftrightarrow> k = j" for j by (auto simp: bit_exp_iff)
  from this [of 1] this [of 2] this [of 3] have c: "bit (2 :: int) k \<longleftrightarrow> k = 1" "bit (4 :: int) k \<longleftrightarrow> k = 2" "bit (8 :: int) k \<longleftrightarrow> k = 3"
    by simp_all
  have "bit (dword_parity d) k \<longleftrightarrow> (k = 0 \<and> bit (fold_byte d) 0) \<or> (k = 1 \<and> bit (fold_byte d) 8) \<or>
      (k = 2 \<and> bit (fold_byte d) 16) \<or> (k = 3 \<and> bit (fold_byte d) 24)"
    by (auto simp: dword_parity_def Let_def m bit_or_iff bit_and_iff bit_1_iff c)
  also have "\<dots> \<longleftrightarrow> k < 4 \<and> byte_odd d k"
    using bit_fold_byte [of d 0] bit_fold_byte [of d 1] bit_fold_byte [of d 2] bit_fold_byte [of d 3]
    by (auto simp: less_Suc_eq numeral_eq_Suc)
  finally show ?thesis .
qed

lemma check_update_parity: "\<exists>f'. update_parity f = Some f' \<and> check_parity f' = Some True \<and>
    fr_hdr f' = fr_hdr f \<and> fr_data f' = fr_data f \<and> fr_bar_id f' = fr_bar_id f"
proof -
  obtain q where q: "parity (fr_hdr f) = Some q" using parity_value by blast
  let ?f = "f\<lparr>fr_parity := map (\<lambda>d. dword_parity d XOR 0xf) (fr_data f), fr_hdr_par := q,
    fr_tlp_prfx_par := dword_parity (fr_tlp_prfx f)\<rparr>"
  have "update_parity f = Some ?f" "check_parity ?f = Some True" by (simp_all add: update_parity_def check_parity_def q)
  then show ?thesis by (intro exI [of _ ?f]) simp
qed

section \<open>Packets through frames\<close>

text \<open>What the code relies on of the packet class: a header of 12 or 16 bytes that is read back, with
  bytes after it ignored; the codes of I/O requests; and the layout of a request with a 64-bit address,
  in which the upper half comes before the lower.\<close>

definition io_types :: "tlp_type set" where "io_types = {IO_READ, IO_WRITE}"

definition tlp_law :: "'x tlp_lib \<Rightarrow> (tlp_type \<Rightarrow> tlp_type) \<Rightarrow> 'x tlp_scheme \<Rightarrow> bool" where
  "tlp_law L wide t \<longleftrightarrow>
     (let h = lib_pack_header L t; n = length h in
      is_bytes h \<and> n \<in> {12, 16} \<and> lib_get_data L t = tl_data t \<and>
      lib_unpack_header L (h @ replicate (16 - n) 0) = Inr (t\<lparr>tl_data := []\<rparr>) \<and>
      (if tl_fmt_type t \<in> io_types
       then n = 12 \<and> h ! 0 \<in> {0x02, 0x42} \<and> lib_unpack_header L h = Inr (t\<lparr>tl_data := []\<rparr>)
       else h ! 0 OR 0x20 \<notin> {0x22, 0x62}) \<and>
      (tl_fmt_type t \<in> forced_types - io_types \<longrightarrow> n = 12 \<and>
        lib_unpack_header L ([h ! 0 OR 0x20] @ py_slice 1 8 h @ [0, 0, 0, 0] @ py_slice 8 12 h) =
          Inr (t\<lparr>tl_fmt_type := wide (tl_fmt_type t), tl_data := []\<rparr>)))"

definition tlp_laws :: "'x tlp_lib \<Rightarrow> (tlp_type \<Rightarrow> tlp_type) \<Rightarrow> ('x tlp_scheme \<Rightarrow> bool) \<Rightarrow> bool" where
  "tlp_laws L wide ok \<longleftrightarrow> (\<forall>t. ok t \<longrightarrow> tlp_law L wide t)"

lemma dwords_roundtrip:
  assumes "is_bytes d" "4 dvd length d"
  shows "\<exists>ds. rmap (unpack_L d) (dword_offsets d) = Inr ds \<and> words_fit 32 ds \<and> rmap pack_L ds = Inr (map (le_bytes 4) ds) \<and>
    concat (map (le_bytes 4) ds) = d"
proof -
  obtain n where n: "length d = 4 * n" using assms(2) by blast
  then have o: "dword_offsets d = map (\<lambda>i. 4 * i) [0..<n]" by (simp add: dword_offsets_def)
  define ds where "ds = map (\<lambda>k. le_int (take 4 (drop (4 * k) d))) [0..<n]"
  have "rmap (unpack_L d) (dword_offsets d) = Inr (map (\<lambda>k. le_int (py_slice k (k + 4) d)) (dword_offsets d))"
    by (rule rmap_all_Inr) (use n in \<open>auto simp: o unpack_L_def\<close>)
  also have "map (\<lambda>k. le_int (py_slice k (k + 4) d)) (dword_offsets d) = ds"
    by (simp add: o ds_def py_slice_def comp_def)
  finally have 1: "rmap (unpack_L d) (dword_offsets d) = Inr ds" .
  have 2: "words_fit 32 ds"
  proof -
    have "fits 32 (le_int (take 4 (drop (4 * k) d)))" if "k < n" for k
    proof -
      have "is_bytes (take 4 (drop (4 * k) d))" "length (take 4 (drop (4 * k) d)) = 4"
        using assms(1) n that by (simp_all add: is_bytes_take_drop)
      from le_int_bounds [OF this(1)] this(2) show ?thesis by (simp add: fits_def)
    qed
    then show ?thesis by (auto simp: words_fit_def ds_def)
  qed
  have "rmap pack_L ds = Inr (map (le_bytes 4) ds)"
    by (rule rmap_all_Inr) (use 2 in \<open>simp add: pack_L_def words_fit_def\<close>)
  moreover have "concat (map (le_bytes 4) ds) = d"
    using le_chunks [OF assms(1) n] by (simp add: ds_def comp_def)
  ultimately show ?thesis using 1 2 by blast
qed

lemma header_roundtrip:
  assumes "is_bytes h" "length h = 16"
  shows "to_bytes_be 16 (le_int (rev h)) = Inr h" "fits 128 (le_int (rev h))"
proof -
  have r: "is_bytes (rev h)" "length (rev h) = 16" using assms by (simp_all add: is_bytes_def)
  from le_int_bounds [OF r(1)] r(2) have "0 \<le> le_int (rev h) \<and> le_int (rev h) < 2 ^ 128" by simp
  then show "to_bytes_be 16 (le_int (rev h)) = Inr h" "fits 128 (le_int (rev h))"
    using le_bytes_le_int [OF r] by (simp_all add: to_bytes_be_def to_bytes_le_def fits_def)
qed

lemma or_20_byte:
  assumes "0 \<le> b" "b < 256"
  shows "0 \<le> b OR 0x20" "b OR 0x20 < (256 :: int)"
proof -
  have "fits 8 (b OR 0x20)" using assms by (intro fits_bitwise) (simp_all add: fits_def)
  then show "0 \<le> b OR 0x20" "b OR 0x20 < (256 :: int)" by (simp_all add: fits_def)
qed

text \<open>The header of the frame, and the header that \<open>to_tlp\<close> makes of it.\<close>

definition wide_header :: "bytes \<Rightarrow> bytes" where
  "wide_header h = [h ! 0 OR 0x20] @ py_slice 1 8 h @ [0, 0, 0, 0] @ py_slice 8 12 h"

lemma wide_header_facts:
  assumes "is_bytes h" "length h = 12"
  shows "force_64bit h = Inr (wide_header h)" "length (wide_header h) = 16" "is_bytes (wide_header h)"
    "h ! 0 \<in> {0x02, 0x42} \<Longrightarrow> [(h ! 0 OR 0x20) AND 0xdf] @ py_slice 1 8 (wide_header h) @ py_slice 12 16 (wide_header h) = h"
proof -
  obtain b0 b1 b2 b3 b4 b5 b6 b7 b8 b9 b10 b11 where h: "h = [b0, b1, b2, b3, b4, b5, b6, b7, b8, b9, b10, b11]"
    using assms(2) by (auto simp: numeral_eq_Suc length_Suc_conv)
  have s: "py_slice 1 8 h = [b1, b2, b3, b4, b5, b6, b7]" "py_slice 8 12 h = [b8, b9, b10, b11]"
    by (simp_all add: h py_slice_def)
  have w: "wide_header h = [b0 OR 0x20, b1, b2, b3, b4, b5, b6, b7, 0, 0, 0, 0, b8, b9, b10, b11]"
    using s by (simp add: wide_header_def h)
  show "force_64bit h = Inr (wide_header h)" by (simp add: force_64bit_def wide_header_def h py_get_def py_idx_def)
  show "length (wide_header h) = 16" by (simp add: w)
  show "is_bytes (wide_header h)" using assms(1) or_20_byte [of b0] unfolding w unfolding h by simp
  show "[(h ! 0 OR 0x20) AND 0xdf] @ py_slice 1 8 (wide_header h) @ py_slice 12 16 (wide_header h) = h"
    if "h ! 0 \<in> {0x02, 0x42}" using that unfolding w unfolding h by (auto simp: py_slice_def)
qed

text \<open>The header that the frame of a packet carries, and what \<open>to_tlp\<close> hands to the packet class.\<close>

definition frame_header :: "'x tlp_lib \<Rightarrow> 'x tlp_scheme \<Rightarrow> bool \<Rightarrow> bytes" where
  "frame_header L t force = (let h = lib_pack_header L t in
     if force \<and> tl_fmt_type t \<in> forced_types then wide_header h else h @ replicate (16 - length h) 0)"

definition unforced :: "bytes \<Rightarrow> bytes" where
  "unforced h = (if h ! 0 = 0x22 \<or> h ! 0 = 0x62 then [h ! 0 AND 0xdf] @ py_slice 1 8 h @ py_slice 12 16 h else h)"

lemma law_lengths:
  assumes "tlp_law L wide t"
  shows "is_bytes (lib_pack_header L t)" "length (lib_pack_header L t) = 12 \<or> length (lib_pack_header L t) = 16"
    "tl_fmt_type t \<in> forced_types \<Longrightarrow> length (lib_pack_header L t) = 12"
  using assms by (auto simp: tlp_law_def Let_def split: if_splits)

lemma frame_header_facts:
  assumes "tlp_law L wide t"
  shows "\<exists>h'. (if force \<and> tl_fmt_type t \<in> forced_types then force_64bit (lib_pack_header L t) else Inr (lib_pack_header L t)) = Inr h' \<and>
      h' @ replicate (16 - length h') 0 = frame_header L t force"
    "is_bytes (frame_header L t force)" "length (frame_header L t force) = 16"
  using law_lengths [OF assms] wide_header_facts(1-3) [OF law_lengths(1,3) [OF assms]]
  by (auto simp: frame_header_def Let_def is_bytes_def)

lemma header_unpacks:
  assumes "tlp_law L wide t"
  shows "lib_unpack_header L (unforced (frame_header L t force)) =
    Inr ((if force \<and> tl_fmt_type t \<in> forced_types - io_types then t\<lparr>tl_fmt_type := wide (tl_fmt_type t)\<rparr> else t)\<lparr>tl_data := []\<rparr>)"
proof (cases "force \<and> tl_fmt_type t \<in> forced_types")
  let ?h = "lib_pack_header L t"
  note law = assms [unfolded tlp_law_def Let_def]
  case True
  note w = wide_header_facts [OF law_lengths(1,3) [OF assms]]
  have e: "frame_header L t force = wide_header ?h" "wide_header ?h ! 0 = ?h ! 0 OR 0x20"
    using True by (simp_all add: frame_header_def wide_header_def Let_def)
  show ?thesis
  proof (cases "tl_fmt_type t \<in> io_types")
    case io: True
    then have "?h ! 0 \<in> {0x02, 0x42}" "lib_unpack_header L ?h = Inr (t\<lparr>tl_data := []\<rparr>)" using law by simp_all
    moreover from this(1) have "unforced (wide_header ?h) = ?h" using w(4) True e(2) by (auto simp: unforced_def)
    ultimately show ?thesis using io e(1) by simp
  next
    case False
    then have "unforced (wide_header ?h) = wide_header ?h" using law e(2) by (auto simp: unforced_def)
    then show ?thesis using False True law e(1) by (simp add: wide_header_def)
  qed
next
  let ?h = "lib_pack_header L t"
  note law = assms [unfolded tlp_law_def Let_def]
  case False
  then have e: "frame_header L t force = ?h @ replicate (16 - length ?h) 0" by (auto simp: frame_header_def Let_def)
  then have "frame_header L t force ! 0 = ?h ! 0" using law_lengths(2) [OF assms] by (auto simp: nth_append)
  moreover have "(0x22 :: int) OR 0x20 = 0x22" "(0x62 :: int) OR 0x20 = 0x62" by simp_all
  then have "?h ! 0 \<noteq> 0x22" "?h ! 0 \<noteq> 0x62" using law by (auto split: if_splits)
  ultimately have "unforced (frame_header L t force) = frame_header L t force" by (simp add: unforced_def)
  then show ?thesis using False law e by auto
qed

text \<open>The whole way of a packet into a frame and back.\<close>

lemma frame_of_packet:
  assumes law: "tlp_law L wide t" and data: "is_bytes (tl_data t)" "4 dvd length (tl_data t)"
  shows "\<exists>f. from_tlp L t force = Some (Inr f) \<and> check_parity f = Some True \<and>
    fits 128 (fr_hdr f) \<and> words_fit 32 (fr_data f) \<and> fr_bar_id f = 0 \<and>
    to_tlp L f = Inr (if force \<and> tl_fmt_type t \<in> forced_types - io_types
                      then t\<lparr>tl_fmt_type := wide (tl_fmt_type t)\<rparr> else t)"
proof -
  let ?hh = "frame_header L t force"
  note hh = frame_header_facts [OF law, of force]
  obtain h' where h': "(if force \<and> tl_fmt_type t \<in> forced_types then force_64bit (lib_pack_header L t) else Inr (lib_pack_header L t)) = Inr h'"
    "h' @ replicate (16 - length h') 0 = ?hh" using hh(1) by blast
  obtain ds where ds: "rmap (unpack_L (tl_data t)) (dword_offsets (tl_data t)) = Inr ds" "words_fit 32 ds"
    "rmap pack_L ds = Inr (map (le_bytes 4) ds)" "concat (map (le_bytes 4) ds) = tl_data t"
    using dwords_roundtrip [OF data] by blast
  obtain f where f: "update_parity (new_frame\<lparr>fr_hdr := le_int (rev ?hh), fr_data := ds\<rparr>) = Some f"
    "check_parity f = Some True" "fr_hdr f = le_int (rev ?hh)" "fr_data f = ds" "fr_bar_id f = 0"
    using check_update_parity [of "new_frame\<lparr>fr_hdr := le_int (rev ?hh), fr_data := ds\<rparr>"] by (auto simp: new_frame_def)
  have "lib_get_data L t = tl_data t" using law by (simp add: tlp_law_def Let_def)
  then have "from_tlp L t force = Some (Inr f)"
    by (simp only: from_tlp_def Let_def ds(1) h' rbind_simps sum.case f(1) option.map)
  moreover have "py_get ?hh 0 = Inr (?hh ! 0)" using py_get_nat [of 0 ?hh] hh(3) by simp
  then have "to_tlp L f = Inr (if force \<and> tl_fmt_type t \<in> forced_types - io_types then t\<lparr>tl_fmt_type := wide (tl_fmt_type t)\<rparr> else t)"
    using header_roundtrip(1) [OF hh(2,3)] ds(3,4) header_unpacks [OF law, of force]
    by (simp add: to_tlp_def f(3,4) Let_def unforced_def [symmetric])
  ultimately show ?thesis using f(2-5) header_roundtrip(2) [OF hh(2,3)] ds(2) by auto
qed

end
