(* ===== verification/PcieDev.thy ===== *)
theory PcieDev imports PcieTlp begin

text \<open>
  The interface device (\<open>PcieIfDevice\<close>): its functions as configured, the packets from upstream that it
  routes to its functions and its streaming interfaces, the packets that it takes from them, and the
  signals it drives at each clock edge.  The base class and the functions belong to the PCIe simulation
  library: what the code uses of a function is the record \<open>fn_lib\<close> of parameters.
\<close>

section \<open>Configuration\<close>

record msix_cfg =
  mx_table_size :: int
  mx_table_bir :: int
  mx_table_offset :: int
  mx_pba_bir :: int
  mx_pba_offset :: int

record pf_cfg =
  pf_msi_enable :: bool
  pf_msi_count :: int
  pf_msix_enable :: bool
  pf_msix :: msix_cfg

record dev_cfg =
  cf_force_64bit :: bool
  cf_pf_count :: int
  cf_max_payload_size :: int
  cf_extended_tag :: bool
  cf_pf0 :: pf_cfg
  cf_pf1 :: pf_cfg
  cf_pf2 :: pf_cfg
  cf_pf3 :: pf_cfg

text \<open>What the constructor sets in the capabilities of a function.\<close>

record fn_caps =
  fc_msi_multiple :: "nat option"
  fc_msix :: "msix_cfg option"
  fc_max_payload_supported :: nat
  fc_extended_tag :: bool

definition py_bit_length :: "int \<Rightarrow> nat" where "py_bit_length n = bit_length (nat \<bar>n\<bar>)"

text \<open>\<open>off\<close> is what the code subtracts from the number of messages: 1, 1, 2 and 3.\<close>

definition function_caps :: "dev_cfg \<Rightarrow> int \<Rightarrow> pf_cfg \<Rightarrow> fn_caps" where
  "function_caps cf off pf =
     \<lparr>fc_msi_multiple = (if pf_msi_enable pf then Some (py_bit_length (pf_msi_count pf - off)) else None),
      fc_msix = (if pf_msix_enable pf then Some (pf_msix pf) else None),
      fc_max_payload_supported = py_bit_length (cf_max_payload_size cf div 128 - 1),
      fc_extended_tag = cf_extended_tag cf\<rparr>"

definition make_functions :: "dev_cfg \<Rightarrow> fn_caps list" where
  "make_functions cf =
     [function_caps cf 1 (cf_pf0 cf)] @
     (if cf_pf_count cf > 1 then [function_caps cf 1 (cf_pf1 cf)] else []) @
     (if cf_pf_count cf > 2 then [function_caps cf 2 (cf_pf2 cf)] else []) @
     (if cf_pf_count cf > 3 then [function_caps cf 3 (cf_pf3 cf)] else [])"

text \<open>The first two functions announce enough messages, the exponent of the next power of two.\<close>

lemma bit_length_Suc_0: "bit_length (Suc 0) = Suc 0"
  by (simp add: bit_length.simps [of "Suc 0"] bit_length.simps [of 0])

lemma bit_length_bounds: "0 < n \<Longrightarrow> 2 ^ (bit_length n - 1) \<le> n \<and> n < 2 ^ bit_length n"
proof (induction n rule: less_induct)
  case (less n)
  show ?case
  proof (cases "n = 1")
    case False
    then have d: "0 < n div 2" "n div 2 < n" using less.prems by linarith+
    obtain k where k: "bit_length (n div 2) = Suc k" using d(1) bit_length.simps [of "n div 2"] by auto
    have "2 ^ k \<le> n div 2 \<and> n div 2 < 2 ^ Suc k" using less.IH [OF d(2,1)] k by simp
    then show ?thesis using less.prems k by (simp add: bit_length.simps [of n]) linarith
  qed (simp add: bit_length_Suc_0)
qed

lemma msi_enough:
  assumes "pf_msi_enable pf" "1 < pf_msi_count pf"
  shows "\<exists>k. fc_msi_multiple (function_caps cf 1 pf) = Some k \<and>
    pf_msi_count pf \<le> 2 ^ k \<and> 2 ^ k < 2 * pf_msi_count pf"
proof -
  define n where "n = nat (pf_msi_count pf - 1)"
  have n: "0 < n" "int n = pf_msi_count pf - 1" using assms(2) by (simp_all add: n_def)
  then have b: "2 ^ (bit_length n - 1) \<le> n" "n < 2 ^ bit_length n" using bit_length_bounds by blast+
  obtain k where k: "bit_length n = Suc k" using n(1) bit_length.simps [of n] by auto
  have "int n < int (2 ^ Suc k)" "int (2 ^ k) \<le> int n" using b unfolding k of_nat_less_iff of_nat_le_iff by simp_all
  then have "int n < 2 ^ Suc k" "2 ^ k \<le> int n" by simp_all
  then show ?thesis using assms n(2) by (simp add: function_caps_def py_bit_length_def n_def [symmetric] k)
qed

text \<open>The third and the fourth do not: with two messages the third announces one and with one message two,
  with four messages the fourth announces two.\<close>

lemma msi_wrong_count:
  assumes "pf_msi_enable pf"
  shows "pf_msi_count pf = 2 \<Longrightarrow> fc_msi_multiple (function_caps cf 2 pf) = Some 0"
    "pf_msi_count pf = 1 \<Longrightarrow> fc_msi_multiple (function_caps cf 2 pf) = Some 1"
    "pf_msi_count pf = 4 \<Longrightarrow> fc_msi_multiple (function_caps cf 3 pf) = Some 1"
  using assms by (simp_all add: function_caps_def py_bit_length_def bit_length_Suc_0 bit_length.simps [of 0])

section \<open>Packets from upstream\<close>

record ('f, 'x) fn_lib =
  fn_id :: "'f \<Rightarrow> pcie_id"
  fn_recv :: "'x tlp_scheme \<Rightarrow> 'f \<Rightarrow> 'f"
  fn_match :: "int \<Rightarrow> bool \<Rightarrow> 'f \<Rightarrow> int option"

record 'f pcie_dev =
  dv_force_64bit :: bool
  dv_bus_num :: int
  dv_functions :: "'f list"
  dv_rx_cpl :: "pcie_frame list"
  dv_rx_req :: "pcie_frame list"
  dv_rd_seq :: "int list"
  dv_wr_seq :: "int list"

definition pcie_dev_init :: "dev_cfg \<Rightarrow> int \<Rightarrow> 'f list \<Rightarrow> 'f pcie_dev" where
  "pcie_dev_init cf bus fns = \<lparr>dv_force_64bit = cf_force_64bit cf, dv_bus_num = bus, dv_functions = fns,
     dv_rx_cpl = [], dv_rx_req = [], dv_rd_seq = [], dv_wr_seq = []\<rparr>"

text \<open>What the device does to others: flow control credits of the packet released, a completion sent
  upstream, the packet given to a function.\<close>

datatype 'x dev_effect = ReleaseFc | Reply "'x tlp_scheme" | HandTo nat

fun first_fn :: "('f \<Rightarrow> 'a option) \<Rightarrow> nat \<Rightarrow> 'f list \<Rightarrow> (nat \<times> 'a) option" where
  "first_fn p k [] = None"
| "first_fn p k (f # fs) = (case p f of Some x \<Rightarrow> Some (k, x) | None \<Rightarrow> first_fn p (Suc k) fs)"

definition has_id :: "('f, 'x) fn_lib \<Rightarrow> pcie_id \<Rightarrow> 'f \<Rightarrow> unit option" where
  "has_id F i f = (if fn_id F f = i then Some () else None)"

definition ur_reply :: "'x tlp_lib \<Rightarrow> 'x tlp_scheme \<Rightarrow> 'f pcie_dev \<Rightarrow> 'x dev_effect list" where
  "ur_reply L t d = [ReleaseFc, Reply (lib_ur_completion L t \<lparr>id_bus = dv_bus_num d, id_device = 0, id_function = 0\<rparr>)]"

text \<open>A request in a frame, for the function and the base address register that it matched.\<close>

definition put_req ::
  "'x tlp_lib \<Rightarrow> 'x tlp_scheme \<Rightarrow> int \<Rightarrow> 'f pcie_dev \<Rightarrow> ('x dev_effect list \<times> 'f pcie_dev) result option" where
  "put_req L t bar d = map_option (\<lambda>r. rbind r (\<lambda>f. Inr ([ReleaseFc],
     d\<lparr>dv_rx_req := dv_rx_req d @ [f\<lparr>fr_bar_id := bar, fr_func_num := id_function (tl_requester_id t)\<rparr>]\<rparr>)))
     (from_tlp L t (dv_force_64bit d))"

definition put_rx_cpl ::
  "'x tlp_lib \<Rightarrow> 'x tlp_scheme \<Rightarrow> 'f pcie_dev \<Rightarrow> ('x dev_effect list \<times> 'f pcie_dev) result option" where
  "put_rx_cpl L t d = map_option (\<lambda>r. rbind r (\<lambda>f. Inr ([ReleaseFc],
     d\<lparr>dv_rx_cpl := dv_rx_cpl d @ [f\<lparr>fr_func_num := id_function (tl_requester_id t)\<rparr>]\<rparr>)))
     (from_tlp L t (dv_force_64bit d))"

definition upstream_recv ::
  "'x tlp_lib \<Rightarrow> ('f, 'x) fn_lib \<Rightarrow> 'x tlp_scheme \<Rightarrow> 'f pcie_dev \<Rightarrow> ('x dev_effect list \<times> 'f pcie_dev) result option" where
  "upstream_recv L F t d =
     (if tl_fmt_type t \<in> {CFG_READ_0, CFG_WRITE_0} then
        let d1 = d\<lparr>dv_bus_num := id_bus (tl_dest_id t)\<rparr> in
        (case first_fn (has_id F (tl_dest_id t)) 0 (dv_functions d1) of
           Some (k, _) \<Rightarrow> Some (Inr ([HandTo k], d1\<lparr>dv_functions := (dv_functions d1)[k := fn_recv F t (dv_functions d1 ! k)]\<rparr>))
         | None \<Rightarrow> Some (Inr (ur_reply L t d1, d1)))
      else if tl_fmt_type t \<in> {CFG_READ_1, CFG_WRITE_1} then Some (Inr (ur_reply L t d, d))
      else if tl_fmt_type t \<in> {CPL, CPL_DATA, CPL_LOCKED, CPL_LOCKED_DATA} then
        (case first_fn (has_id F (tl_requester_id t)) 0 (dv_functions d) of
           Some _ \<Rightarrow> put_rx_cpl L t d
         | None \<Rightarrow> Some (Inr ([ReleaseFc], d)))
      else if tl_fmt_type t \<in> {IO_READ, IO_WRITE} then
        (case first_fn (fn_match F (tl_address t) True) 0 (dv_functions d) of
           Some (_, bar) \<Rightarrow> put_req L t bar d
         | None \<Rightarrow> Some (Inr (ur_reply L t d, d)))
      else if tl_fmt_type t \<in> {MEM_READ, MEM_READ_64, MEM_WRITE, MEM_WRITE_64} then
        (case first_fn (fn_match F (tl_address t) False) 0 (dv_functions d) of
           Some (_, bar) \<Rightarrow> put_req L t bar d
         | None \<Rightarrow> if tl_fmt_type t \<in> {MEM_WRITE, MEM_WRITE_64} then Some (Inr ([ReleaseFc], d))
                   else Some (Inr (ur_reply L t d, d)))
      else Some (Inl (Raised ''TODO'')))"

section \<open>Between queues and interfaces\<close>

text \<open>A frame goes from the queue of the device to the source of the interface when there is one and the
  source has room; until then the coroutine waits.\<close>

definition run_rx_req :: "'f pcie_dev \<Rightarrow> pcie_source \<Rightarrow> ('f pcie_dev \<times> pcie_source) option" where
  "run_rx_req d s = (case dv_rx_req d of [] \<Rightarrow> None
     | f # fs \<Rightarrow> map_option (\<lambda>s'. (d\<lparr>dv_rx_req := fs\<rparr>, s')) (pcie_send f s))"

definition run_rx_cpl :: "'f pcie_dev \<Rightarrow> pcie_source \<Rightarrow> ('f pcie_dev \<times> pcie_source) option" where
  "run_rx_cpl d s = (case dv_rx_cpl d of [] \<Rightarrow> None
     | f # fs \<Rightarrow> map_option (\<lambda>s'. (d\<lparr>dv_rx_cpl := fs\<rparr>, s')) (pcie_send f s))"

text \<open>A packet from a sink is sent upstream; its sequence number is reported afterwards.\<close>

definition run_tx :: "'x tlp_lib \<Rightarrow> pcie_sink \<Rightarrow> ('x tlp_scheme \<times> int \<times> pcie_sink) result" where
  "run_tx L k = rbind (pcie_recv_nowait k) (\<lambda>(f, k'). rbind (to_tlp L f) (\<lambda>t. Inr (t, fr_seq f, k')))"

definition run_tx_rd_req :: "'x tlp_lib \<Rightarrow> pcie_sink \<Rightarrow> 'f pcie_dev \<Rightarrow> ('x tlp_scheme \<times> pcie_sink \<times> 'f pcie_dev) result" where
  "run_tx_rd_req L k d = rbind (run_tx L k) (\<lambda>(t, s, k'). Inr (t, k', d\<lparr>dv_rd_seq := dv_rd_seq d @ [s]\<rparr>))"

definition run_tx_wr_req :: "'x tlp_lib \<Rightarrow> pcie_sink \<Rightarrow> 'f pcie_dev \<Rightarrow> ('x tlp_scheme \<times> pcie_sink \<times> 'f pcie_dev) result" where
  "run_tx_wr_req L k d = rbind (run_tx L k) (\<lambda>(t, s, k'). Inr (t, k', d\<lparr>dv_wr_seq := dv_wr_seq d @ [s]\<rparr>))"

text \<open>The coroutines for completions and for interrupts send the packet and no more.\<close>

definition run_tx_cpl :: "'x tlp_lib \<Rightarrow> pcie_sink \<Rightarrow> ('x tlp_scheme \<times> pcie_sink) result" where
  "run_tx_cpl L k = rbind (run_tx L k) (\<lambda>(t, _, k'). Inr (t, k'))"

definition run_tx_msi :: "'x tlp_lib \<Rightarrow> pcie_sink \<Rightarrow> ('x tlp_scheme \<times> pcie_sink) result" where
  "run_tx_msi L k = rbind (run_tx L k) (\<lambda>(t, _, k'). Inr (t, k'))"

text \<open>One clock edge of the sequence number signals: their lengths \<open>(data, valid)\<close> if they are connected.\<close>

definition seq_field :: "nat \<Rightarrow> nat \<Rightarrow> int \<times> int \<times> int list \<Rightarrow> int \<times> int \<times> int list" where
  "seq_field w k = (\<lambda>(data, valid, q). case q of [] \<Rightarrow> (data, valid, q)
     | s # q' \<Rightarrow> (data OR push_bit (w * k) s, valid OR push_bit k 1, q'))"

definition seq_edge :: "(nat \<times> nat) option \<Rightarrow> int list \<Rightarrow> ((int \<times> int) option \<times> int list) result" where
  "seq_edge sig q = (case sig of
       Some (ld, n) \<Rightarrow> if n = 0 then Inl (Raised ''ZeroDivisionError'')
         else let (data, valid, q') = fold (seq_field (ld div n)) [0..<n] (0, 0, q) in Inr (Some (data, valid), q')
     | None \<Rightarrow> Inr (None, tl q))"

text \<open>Each edge reports up to \<open>n\<close> sequence numbers, oldest first, one in each field, and forgets them.\<close>

lemma push_field:
  assumes "fits w s" "i < w"
  shows "bit (push_bit (w * k) s) (w * m + i) \<longleftrightarrow> m = k \<and> bit s i"
proof -
  consider "m < k" | "m = k" | j where "m = k + Suc j" using less_iff_Suc_add [of k m] by (metis add_Suc_right linorder_neqE_nat)
  then show ?thesis
  proof cases
    case 1
    then have "w * Suc m \<le> w * k" by (simp only: Suc_leI mult_le_mono2)
    then show ?thesis using 1 assms(2) by (simp add: bit_simps)
  next
    case 3
    then have "w * m + i - w * k = w + (w * j + i)" by (simp add: algebra_simps)
    moreover have "\<not> bit s (w + (w * j + i))" using assms(1) by (simp add: fits_bit)
    ultimately show ?thesis using 3 by (simp add: bit_simps)
  qed (simp add: bit_simps)
qed

lemma seq_fields:
  assumes "\<forall>s \<in> set q. fits w s"
  shows "\<exists>data valid. fold (seq_field w) [0..<n] (0, 0, q) = (data, valid, drop n q) \<and>
    (\<forall>k. bit valid k \<longleftrightarrow> k < n \<and> k < length q) \<and>
    (\<forall>k i. i < w \<longrightarrow> (bit data (w * k + i) \<longleftrightarrow> k < n \<and> k < length q \<and> bit (q ! k) i))"
proof (induction n)
  case (Suc n)
  then obtain data valid where ih: "fold (seq_field w) [0..<n] (0, 0, q) = (data, valid, drop n q)"
    "\<And>k. bit valid k \<longleftrightarrow> k < n \<and> k < length q"
    "\<And>k i. i < w \<Longrightarrow> (bit data (w * k + i) \<longleftrightarrow> k < n \<and> k < length q \<and> bit (q ! k) i)" by blast
  show ?case
  proof (cases "n < length q")
    case True
    then have d: "drop n q = q ! n # drop (Suc n) q" by (simp add: Cons_nth_drop_Suc)
    have f: "fits w (q ! n)" using assms True by simp
    have st: "fold (seq_field w) [0..<Suc n] (0, 0, q) =
        (data OR push_bit (w * n) (q ! n), valid OR push_bit n 1, drop (Suc n) q)"
      by (simp add: ih(1) d) (simp add: seq_field_def)
    have v: "bit (valid OR push_bit n 1) k \<longleftrightarrow> k < Suc n \<and> k < length q" for k
      using True by (auto simp: bit_or_iff bit_exp_iff ih(2) less_Suc_eq)
    have "bit (data OR push_bit (w * n) (q ! n)) (w * k + i) \<longleftrightarrow> k < Suc n \<and> k < length q \<and> bit (q ! k) i" if "i < w" for k i
      using True by (auto simp: bit_or_iff push_field [OF f that] ih(3) [OF that] less_Suc_eq)
    with st v show ?thesis by blast
  next
    case False
    then have "fold (seq_field w) [0..<Suc n] (0, 0, q) = (data, valid, drop (Suc n) q)" by (simp add: ih(1)) (simp add: seq_field_def)
    moreover have "k < Suc n \<and> k < length q \<longleftrightarrow> k < n \<and> k < length q" for k using False by auto
    ultimately show ?thesis using ih(2,3) by (metis (no_types, lifting))
  qed
qed simp

definition run_rd_seq :: "(nat \<times> nat) option \<Rightarrow> 'f pcie_dev \<Rightarrow> ((int \<times> int) option \<times> 'f pcie_dev) result" where
  "run_rd_seq sig d = rbind (seq_edge sig (dv_rd_seq d)) (\<lambda>(out, q). Inr (out, d\<lparr>dv_rd_seq := q\<rparr>))"

definition run_wr_seq :: "(nat \<times> nat) option \<Rightarrow> 'f pcie_dev \<Rightarrow> ((int \<times> int) option \<times> 'f pcie_dev) result" where
  "run_wr_seq sig d = rbind (seq_edge sig (dv_wr_seq d)) (\<lambda>(out, q). Inr (out, d\<lparr>dv_wr_seq := q\<rparr>))"

section \<open>Status signals\<close>

text \<open>The capability registers of the first function, as the library has them, and the signals that are
  connected.\<close>

record cap_regs =
  cr_max_payload_size :: int
  cr_max_read_request_size :: int
  cr_extended_tag_field_enable :: int
  cr_read_completion_boundary :: int

datatype cfg_signal = CfgMaxPayload | CfgMaxReadReq | CfgExtTagEnable | CfgRcb

definition cfg_status :: "(cfg_signal \<Rightarrow> bool) \<Rightarrow> cap_regs \<Rightarrow> cfg_signal \<Rightarrow> int option" where
  "cfg_status connected r sig = (if connected sig then Some (case sig of
       CfgMaxPayload \<Rightarrow> cr_max_payload_size r | CfgMaxReadReq \<Rightarrow> cr_max_read_request_size r
     | CfgExtTagEnable \<Rightarrow> cr_extended_tag_field_enable r | CfgRcb \<Rightarrow> cr_read_completion_boundary r) else None)"

datatype fc_type = PH | PD | NPH | NPD | CPLH | CPLD
datatype fc_kind = FcAvailable | FcLimit | FcConsumed

text \<open>Header credits are shown modulo \<open>2 ^ 8\<close>, data credits modulo \<open>2 ^ 12\<close>.\<close>

definition fc_signal :: "(fc_type \<Rightarrow> fc_kind \<Rightarrow> bool) \<Rightarrow> (fc_type \<Rightarrow> fc_kind \<Rightarrow> int) \<Rightarrow> fc_type \<Rightarrow> fc_kind \<Rightarrow> int option" where
  "fc_signal connected credits ty k =
     (if connected ty k then Some (credits ty k AND (if ty \<in> {PH, NPH, CPLH} then 0xff else 0xfff)) else None)"

end
