(* ===== verification/PcieDma.thy ===== *)
theory PcieDma imports PcieTlp begin

text \<open>
  The test device of \<open>pcie_if.py\<close>: memory regions behind its base address registers, tags, the
  requests it makes (reads and writes cut at the limits of the bus), and the requests it answers
  (byte enables, completions).  Callback regions act on an environment that is a parameter.
\<close>

section \<open>Regions\<close>

text \<open>A region has a size and, if the memory map of the constructor backs it, its contents.\<close>

record ('e, 'x) test_dev =
  td_force_64bit :: bool
  td_bar_ptr :: nat
  td_regions :: "(int \<times> (int \<Rightarrow> int) option) option list"
  td_env :: 'e
  td_current_tag :: int
  td_tag_count :: int
  td_tag_active :: "bool list"
  td_rx_cpl :: "'x tlp_scheme list list"
  td_max_payload :: nat
  td_max_read_req :: nat
  td_bus_num :: int
  td_device_num :: int

record 'e region_calls =
  call_read :: "nat \<Rightarrow> int \<Rightarrow> int \<Rightarrow> 'e \<Rightarrow> (bytes \<times> 'e) result"
  call_write :: "nat \<Rightarrow> int \<Rightarrow> bytes \<Rightarrow> 'e \<Rightarrow> 'e result"

definition test_dev_init :: "bool \<Rightarrow> 'e \<Rightarrow> ('e, 'x) test_dev" where
  "test_dev_init force env = \<lparr>td_force_64bit = force, td_bar_ptr = 0, td_regions = replicate 6 None, td_env = env,
     td_current_tag = 0, td_tag_count = 32, td_tag_active = replicate 256 False, td_rx_cpl = replicate 256 [],
     td_max_payload = 0, td_max_read_req = 0, td_bus_num = 0, td_device_num = 0\<rparr>"

text \<open>\<open>calls\<close> says whether a read or a write callback was given; without them the region is mapped
  memory, which cannot be empty.\<close>

definition add_region :: "int \<Rightarrow> bool \<Rightarrow> bool \<Rightarrow> ('e, 'x) test_dev \<Rightarrow> ('e, 'x) test_dev result" where
  "add_region sz calls ext d =
     (if td_bar_ptr d > 5 \<or> (ext \<and> td_bar_ptr d > 4) then Inl (Raised ''No more BARs available'')
      else if \<not> calls \<and> sz < 0 then Inl OverflowError
      else if \<not> calls \<and> sz = 0 then Inl (Raised ''OSError'')
      else Inr (d\<lparr>td_regions := (td_regions d)[td_bar_ptr d := Some (sz, if calls then None else Some (\<lambda>_. 0))],
                  td_bar_ptr := td_bar_ptr d + (if ext then 2 else 1)\<rparr>))"

definition add_io_region :: "int \<Rightarrow> bool \<Rightarrow> ('e, 'x) test_dev \<Rightarrow> ('e, 'x) test_dev result" where
  "add_io_region sz calls = add_region sz calls False"

definition add_mem_region :: "int \<Rightarrow> bool \<Rightarrow> ('e, 'x) test_dev \<Rightarrow> ('e, 'x) test_dev result" where
  "add_mem_region sz calls = add_region sz calls False"

definition add_prefetchable_mem_region :: "int \<Rightarrow> bool \<Rightarrow> ('e, 'x) test_dev \<Rightarrow> ('e, 'x) test_dev result" where
  "add_prefetchable_mem_region sz calls = add_region sz calls True"

text \<open>Slices of mapped memory: reading is cut at the end, writing must fit.\<close>

definition map_read :: "int \<Rightarrow> (int \<Rightarrow> int) \<Rightarrow> int \<Rightarrow> int \<Rightarrow> bytes" where
  "map_read sz m a n = map (\<lambda>i. m (min a sz + int i)) [0..<nat (min (a + n) sz - min a sz)]"

definition map_write :: "int \<Rightarrow> (int \<Rightarrow> int) \<Rightarrow> int \<Rightarrow> bytes \<Rightarrow> (int \<Rightarrow> int) result" where
  "map_write sz m a d =
     (if min (a + int (length d)) sz - min a sz = int (length d) then Inr (put_bytes a d m)
      else Inl IndexError)"

definition read_region ::
  "'e region_calls \<Rightarrow> int \<Rightarrow> int \<Rightarrow> int \<Rightarrow> ('e, 'x) test_dev \<Rightarrow> (bytes \<times> ('e, 'x) test_dev) result" where
  "read_region C region a n d =
     rbind (py_get (td_regions d) region) (\<lambda>r. case r of
       None \<Rightarrow> Inl (Raised ''Invalid region'')
     | Some (sz, None) \<Rightarrow> rbind (call_read C (nat region) a n (td_env d)) (\<lambda>(bs, e). Inr (bs, d\<lparr>td_env := e\<rparr>))
     | Some (sz, Some m) \<Rightarrow> Inr (map_read sz m a n, d))"

definition write_region ::
  "'e region_calls \<Rightarrow> int \<Rightarrow> int \<Rightarrow> bytes \<Rightarrow> ('e, 'x) test_dev \<Rightarrow> ('e, 'x) test_dev result" where
  "write_region C region a bs d =
     rbind (py_get (td_regions d) region) (\<lambda>r. case r of
       None \<Rightarrow> Inl (Raised ''Invalid region'')
     | Some (sz, None) \<Rightarrow> rbind (call_write C (nat region) a bs (td_env d)) (\<lambda>e. Inr (d\<lparr>td_env := e\<rparr>))
     | Some (sz, Some m) \<Rightarrow> rbind (map_write sz m a bs) (\<lambda>m'.
         Inr (d\<lparr>td_regions := (td_regions d)[nat region := Some (sz, Some m')]\<rparr>)))"

section \<open>Tags and completions\<close>

text \<open>Trying tags from the one after the last; None when all are in use, and the caller waits.\<close>

fun next_tag :: "bool list \<Rightarrow> int \<Rightarrow> nat \<Rightarrow> int \<Rightarrow> int option" where
  "next_tag active count 0 tag = None"
| "next_tag active count (Suc k) tag =
     (let tag' = (tag + 1) mod count in
      if \<not> active ! nat tag' then Some tag' else next_tag active count k tag')"

definition alloc_tag :: "('e, 'x) test_dev \<Rightarrow> (int \<times> ('e, 'x) test_dev) option" where
  "alloc_tag d =
     (let count = min 256 (td_tag_count d) in
      map_option (\<lambda>tag. (tag, d\<lparr>td_tag_active := (td_tag_active d)[nat tag := True], td_current_tag := tag\<rparr>))
        (next_tag (td_tag_active d) count (nat count) (td_current_tag d)))"

definition release_tag :: "int \<Rightarrow> ('e, 'x) test_dev \<Rightarrow> ('e, 'x) test_dev result" where
  "release_tag tag d =
     rbind (py_get (td_tag_active d) tag) (\<lambda>a.
     rbind (guard_err a AssertionError) (\<lambda>_.
     rbind (py_set (td_tag_active d) tag False) (\<lambda>active. Inr (d\<lparr>td_tag_active := active\<rparr>))))"

definition put_cpl :: "'x tlp_scheme \<Rightarrow> ('e, 'x) test_dev \<Rightarrow> ('e, 'x) test_dev result" where
  "put_cpl t d =
     rbind (py_get (td_rx_cpl d) (tl_tag t)) (\<lambda>q.
     rbind (py_set (td_rx_cpl d) (tl_tag t) (q @ [t])) (\<lambda>qs. Inr (d\<lparr>td_rx_cpl := qs\<rparr>)))"

text \<open>\<open>recv_cpl\<close>: the next completion for a tag, or None when it has timed out.\<close>

definition recv_cpl :: "int \<Rightarrow> ('e, 'x) test_dev \<Rightarrow> ('x tlp_scheme option \<times> ('e, 'x) test_dev) result" where
  "recv_cpl tag d =
     rbind (py_get (td_rx_cpl d) tag) (\<lambda>q. case q of
       [] \<Rightarrow> Inr (None, d)
     | t # q' \<Rightarrow> rbind (py_set (td_rx_cpl d) tag q') (\<lambda>qs. Inr (Some t, d\<lparr>td_rx_cpl := qs\<rparr>)))"

text \<open>The loop of \<open>perform_nonposted_operation\<close> over the completions received, in order, up to a
  timeout: whether this completion is the last one.\<close>

definition last_cpl :: "'x tlp_scheme \<Rightarrow> 'x tlp_scheme \<Rightarrow> bool" where
  "last_cpl req cpl \<longleftrightarrow>
     (if tl_status cpl \<noteq> SC then True
      else if tl_fmt_type req \<in> {MEM_READ, MEM_READ_64}
      then tl_byte_count cpl \<le> tl_length cpl * 4 - (tl_lower_address cpl AND 0x3) \<or>
           tl_fmt_type cpl \<in> {CPL, CPL_LOCKED}
      else True)"

fun collect :: "'x tlp_scheme \<Rightarrow> 'x tlp_scheme list \<Rightarrow> 'x tlp_scheme list \<times> 'x tlp_scheme list" where
  "collect req [] = ([], [])"
| "collect req (c # cs) =
     (if last_cpl req c then ([c], cs)
      else let (done, rest) = collect req cs in (c # done, rest))"

section \<open>Cutting transfers\<close>

text \<open>The loop that all transfers share, with the length that each takes for its next request.  A step
  of no bytes would repeat for ever; none of the three takes one.\<close>

function cut_transfer :: "(int \<Rightarrow> nat \<Rightarrow> nat) \<Rightarrow> int \<Rightarrow> nat \<Rightarrow> nat \<Rightarrow> (int \<times> nat \<times> nat) list" where
  "cut_transfer step addr n tot =
     (if n < tot \<and> 0 < step addr (tot - n)
      then (addr, n, step addr (tot - n)) #
        cut_transfer step (addr + int (step addr (tot - n))) (n + step addr (tot - n)) tot
      else [])"
  by pat_completeness auto
termination by (relation "measure (\<lambda>(step, addr, n, tot). tot - n)") auto

declare cut_transfer.simps [simp del]

definition page_left :: "int \<Rightarrow> int" where "page_left addr = 0x1000 - (addr AND 0xfff)"

definition write_step :: "nat \<Rightarrow> int \<Rightarrow> nat \<Rightarrow> nat" where
  "write_step mp addr left =
     (let first_pad = addr mod 4; byte_length = min (int left) (push_bit mp 128 - first_pad)
      in nat (min byte_length (page_left addr)))"

definition read_step :: "nat \<Rightarrow> int \<Rightarrow> nat \<Rightarrow> nat" where
  "read_step mrr addr left =
     (let first_pad = addr mod 4;
          byte_length = (if int left > push_bit mrr 128 - first_pad
                         then min (int left) (push_bit mrr 128 - (addr AND 0x7f)) else int left)
      in nat (min byte_length (page_left addr)))"

definition io_step :: "int \<Rightarrow> nat \<Rightarrow> nat" where
  "io_step addr left = nat (min (int left) (4 - addr mod 4))"

definition dev_id :: "('e, 'x) test_dev \<Rightarrow> pcie_id" where
  "dev_id d = \<lparr>id_bus = td_bus_num d, id_device = td_device_num d, id_function = 0\<rparr>"

definition new_req :: "'x tlp_lib \<Rightarrow> tlp_type \<Rightarrow> ('e, 'x) test_dev \<Rightarrow> 'x tlp_scheme" where
  "new_req L fmt d = (lib_new L)\<lparr>tl_fmt_type := fmt, tl_requester_id := dev_id d\<rparr>"

definition zero_be :: "bool \<Rightarrow> 'x tlp_scheme \<Rightarrow> 'x tlp_scheme" where
  "zero_be zero t = (if zero then t\<lparr>tl_first_be := 0\<rparr> else t)"

definition is_64 :: "int \<Rightarrow> bool" where "is_64 addr \<longleftrightarrow> addr > 0xffffffff"

text \<open>The requests of \<open>dma_mem_write\<close>; an empty write is one byte with no byte enabled.\<close>

definition mem_write_reqs :: "'x tlp_lib \<Rightarrow> ('e, 'x) test_dev \<Rightarrow> int \<Rightarrow> bytes \<Rightarrow> 'x tlp_scheme list" where
  "mem_write_reqs L d addr data0 =
     (let zero = (data0 = []); data = (if zero then [0] else data0) in
      map (\<lambda>(a, n, l). zero_be zero (lib_set_addr_be_data L a (py_slice n (n + l) data)
             (new_req L (if is_64 a then MEM_WRITE_64 else MEM_WRITE) d)))
        (cut_transfer (write_step (td_max_payload d)) addr 0 (length data)))"

definition io_write_reqs :: "'x tlp_lib \<Rightarrow> ('e, 'x) test_dev \<Rightarrow> int \<Rightarrow> bytes \<Rightarrow> 'x tlp_scheme list" where
  "io_write_reqs L d addr data0 =
     (let zero = (data0 = []); data = (if zero then [0] else data0) in
      map (\<lambda>(a, n, l). zero_be zero (lib_set_addr_be_data L a (py_slice n (n + l) data) (new_req L IO_WRITE d)))
        (cut_transfer io_step addr 0 (length data)))"

text \<open>The message of an interrupt: four bytes, cut as a write.\<close>

definition msi_reqs :: "'x tlp_lib \<Rightarrow> ('e, 'x) test_dev \<Rightarrow> int \<Rightarrow> int \<Rightarrow> 'x tlp_scheme list result" where
  "msi_reqs L d addr v =
     rbind (to_bytes_le 4 v) (\<lambda>data. Inr (
      map (\<lambda>(a, n, l). lib_set_addr_be_data L a (py_slice n (n + l) data)
             (new_req L (if is_64 a then MEM_WRITE_64 else MEM_WRITE) d))
        (cut_transfer (write_step (td_max_payload d)) addr 0 (length data))))"

definition mem_read_reqs :: "'x tlp_lib \<Rightarrow> ('e, 'x) test_dev \<Rightarrow> int \<Rightarrow> int \<Rightarrow> (nat \<times> 'x tlp_scheme) list" where
  "mem_read_reqs L d addr len =
     (let zero = (len \<le> 0); tot = (if zero then 1 else nat len) in
      map (\<lambda>(a, n, l). (l, zero_be zero (lib_set_addr_be L a (int l)
             (new_req L (if is_64 a then MEM_READ_64 else MEM_READ) d))))
        (cut_transfer (read_step (td_max_read_req d)) addr 0 tot))"

definition io_read_reqs :: "'x tlp_lib \<Rightarrow> ('e, 'x) test_dev \<Rightarrow> int \<Rightarrow> int \<Rightarrow> (int \<times> 'x tlp_scheme) list" where
  "io_read_reqs L d addr len =
     (let zero = (len \<le> 0); tot = (if zero then 1 else nat len) in
      map (\<lambda>(a, n, l). (a mod 4, zero_be zero (lib_set_addr_be L a (int l) (new_req L IO_READ d))))
        (cut_transfer io_step addr 0 tot))"

text \<open>What the reads and writes make of the completions of each request.\<close>

definition timeout :: py_error where "timeout = Raised ''Timeout''"
definition unsuccessful :: py_error where "unsuccessful = Raised ''Unsuccessful completion''"

definition write_outcome :: "'x tlp_scheme list list \<Rightarrow> unit result" where
  "write_outcome css = rfold (\<lambda>cs _. case cs of [] \<Rightarrow> Inl timeout
     | c # _ \<Rightarrow> guard_err (tl_status c = SC) unsuccessful) css ()"

definition io_read_outcome :: "'x tlp_lib \<Rightarrow> int \<Rightarrow> (int \<times> 'x tlp_scheme list) list \<Rightarrow> bytes result" where
  "io_read_outcome L len ops =
     rbind (rfold (\<lambda>(pad, cs) data. case cs of [] \<Rightarrow> Inl timeout
       | c # _ \<Rightarrow> rbind (guard_err (tl_status c = SC) unsuccessful) (\<lambda>_.
           rbind (guard_err (tl_length c = 1) AssertionError) (\<lambda>_.
           Inr (data @ drop (nat pad) (lib_get_data L c))))) ops []) (\<lambda>data.
     Inr (if len \<le> 0 then [] else take (nat len) data))"

fun gather :: "'x tlp_lib \<Rightarrow> int \<Rightarrow> int \<Rightarrow> 'x tlp_scheme list \<Rightarrow> bytes \<Rightarrow> bytes result" where
  "gather L byte_length m [] data = (if m < byte_length then Inl timeout else Inr data)"
| "gather L byte_length m (c # cs) data =
     (if m < byte_length
      then rbind (guard_err (tl_status c = SC) unsuccessful) (\<lambda>_.
           rbind (guard_err (tl_byte_count c + 3 + (tl_lower_address c AND 3) \<ge> tl_length c * 4) AssertionError) (\<lambda>_.
           rbind (guard_err (tl_byte_count c = max (byte_length - m) 1) AssertionError) (\<lambda>_.
           let d = lib_get_data L c; off = tl_lower_address c AND 3
           in gather L byte_length (m + int (length d) - off) cs
                (data @ py_slice (nat off) (nat (off + tl_byte_count c)) d))))
      else Inr data)"

definition mem_read_outcome :: "'x tlp_lib \<Rightarrow> int \<Rightarrow> (nat \<times> 'x tlp_scheme list) list \<Rightarrow> bytes result" where
  "mem_read_outcome L len ops =
     rbind (rfold (\<lambda>(l, cs) data. gather L (int l) 0 cs data) ops []) (\<lambda>data.
     Inr (if len \<le> 0 then [] else take (nat len) data))"

section \<open>Answering requests\<close>

text \<open>Where in its region a request falls.\<close>

definition region_addr :: "('e, 'x) test_dev \<Rightarrow> int \<Rightarrow> int \<Rightarrow> int result" where
  "region_addr d region addr =
     rbind (py_get (td_regions d) region) (\<lambda>r. case r of
       None \<Rightarrow> Inl TypeError
     | Some (sz, _) \<Rightarrow> if sz = 0 then Inl (Raised ''ZeroDivisionError'') else Inr (addr mod sz))"

text \<open>One byte lane of a write: the state is the start of the run, the offset, and the writes to make.\<close>

type_synonym lane_state = "nat option \<times> nat \<times> (int \<times> bytes) list"

definition be_lane_step :: "int \<Rightarrow> int \<Rightarrow> bytes \<Rightarrow> nat \<Rightarrow> lane_state \<Rightarrow> lane_state" where
  "be_lane_step be addr data k = (\<lambda>(start, off, ops).
     if seg_bit be k then (case start of None \<Rightarrow> (Some off, off + 1, ops) | Some s \<Rightarrow> (Some s, off + 1, ops))
     else (case start of
         Some s \<Rightarrow> if off \<noteq> s then (None, off + 1, ops @ [(addr + int s, py_slice s off data)]) else (None, off + 1, ops)
       | None \<Rightarrow> (None, off + 1, ops)))"

definition last_lanes :: "int \<Rightarrow> bytes \<Rightarrow> lane_state \<Rightarrow> (int \<times> bytes) list" where
  "last_lanes addr data = (\<lambda>(start, off, ops).
     case start of
       Some s \<Rightarrow> if off \<noteq> s then ops @ [(addr + int s, py_slice s off data)] else ops
     | None \<Rightarrow> ops)"

definition middle_lanes :: "int \<Rightarrow> lane_state \<Rightarrow> lane_state" where
  "middle_lanes len = (\<lambda>(start, off, ops).
     if len > 2 then (case start of None \<Rightarrow> Some off | Some s \<Rightarrow> Some s, off + nat (len - 2) * 4, ops)
     else (start, off, ops))"

definition mem_write_ops :: "int \<Rightarrow> int \<Rightarrow> int \<Rightarrow> int \<Rightarrow> bytes \<Rightarrow> (int \<times> bytes) list" where
  "mem_write_ops len first_be last_be addr data =
     (let st1 = fold (be_lane_step first_be addr data) [0..<4] (None, 0, []);
          st2 = middle_lanes len st1;
          st3 = (if len > 1 then fold (be_lane_step last_be addr data) [0..<4] st2 else st2)
      in last_lanes addr data st3)"

definition io_write_ops :: "int \<Rightarrow> int \<Rightarrow> bytes \<Rightarrow> (int \<times> bytes) list" where
  "io_write_ops first_be addr data = last_lanes addr data (fold (be_lane_step first_be addr data) [0..<4] (None, 0, []))"

definition do_writes ::
  "'e region_calls \<Rightarrow> int \<Rightarrow> (int \<times> bytes) list \<Rightarrow> ('e, 'x) test_dev \<Rightarrow> ('e, 'x) test_dev result" where
  "do_writes C region ops d = rfold (\<lambda>(a, bs). write_region C region a bs) ops d"

text \<open>An I/O read fetches the enabled runs of a word; a slice of a \<open>bytearray\<close> is replaced by what
  was read, whatever its length.\<close>

definition io_read_run ::
  "'e region_calls \<Rightarrow> int \<Rightarrow> int \<Rightarrow> nat \<Rightarrow> nat \<Rightarrow> bytes \<times> ('e, 'x) test_dev \<Rightarrow> (bytes \<times> ('e, 'x) test_dev) result" where
  "io_read_run C region addr s off = (\<lambda>(data, d).
     rbind (read_region C region (addr + int s) (int (off - s)) d) (\<lambda>(bs, d').
     Inr (take s data @ bs @ drop off data, d')))"

definition io_read_lane ::
  "'e region_calls \<Rightarrow> int \<Rightarrow> int \<Rightarrow> int \<Rightarrow> nat \<Rightarrow> nat option \<times> bytes \<times> ('e, 'x) test_dev \<Rightarrow>
     (nat option \<times> bytes \<times> ('e, 'x) test_dev) result" where
  "io_read_lane C region addr be k = (\<lambda>(start, st).
     if seg_bit be k then Inr (case start of None \<Rightarrow> Some k | Some s \<Rightarrow> Some s, st)
     else (case start of
         Some s \<Rightarrow> if k \<noteq> s then rbind (io_read_run C region addr s k st) (\<lambda>st'. Inr (None, st')) else Inr (None, st)
       | None \<Rightarrow> Inr (None, st)))"

definition io_read_word ::
  "'e region_calls \<Rightarrow> int \<Rightarrow> int \<Rightarrow> int \<Rightarrow> ('e, 'x) test_dev \<Rightarrow> (bytes \<times> ('e, 'x) test_dev) result" where
  "io_read_word C region addr be d =
     rbind (rfold (io_read_lane C region addr be) [0..<4] (None, [0, 0, 0, 0], d)) (\<lambda>(start, st).
     case start of
       Some s \<Rightarrow> if 4 \<noteq> s then io_read_run C region addr s 4 st else Inr st
     | None \<Rightarrow> Inr st)"

text \<open>The completions of a memory read: each ends on a boundary of the payload size, the last where the
  data end.\<close>

definition cpl_dwords :: "nat \<Rightarrow> nat \<Rightarrow> int \<Rightarrow> nat" where
  "cpl_dwords mp left addr =
     (if left > push_bit mp 32 then push_bit mp 32 - nat (drop_bit 2 (addr AND 0x7c)) else left)"

lemma cpl_dwords_pos: "0 < left \<Longrightarrow> 0 < cpl_dwords mp left addr"
proof -
  have "0 \<le> addr AND 0x7c" "addr AND 0x7c \<le> 0x7c" by (simp_all add: AND_upper2)
  then have "(addr AND 0x7c) div 4 \<le> 31" by linarith
  then have "nat (drop_bit 2 (addr AND 0x7c)) < 32" by (simp add: drop_bit_eq_div)
  moreover have "32 \<le> push_bit mp (32 :: nat)" by (simp add: push_bit_eq_mult)
  ultimately show "0 < left \<Longrightarrow> 0 < cpl_dwords mp left addr" by (simp add: cpl_dwords_def)
qed

function read_cpls ::
  "'x tlp_lib \<Rightarrow> nat \<Rightarrow> 'x tlp_scheme \<Rightarrow> bytes \<Rightarrow> nat \<Rightarrow> int \<Rightarrow> nat \<Rightarrow> int \<Rightarrow> int \<Rightarrow> 'x tlp_scheme list" where
  "read_cpls L mp cpl0 data dw_length byte_length m n addr =
     (if m < dw_length
      then let len = cpl_dwords mp (dw_length - m) addr in
        lib_set_data L (py_slice (m * 4) ((m + len) * 4) data)
          (cpl0\<lparr>tl_byte_count := byte_length - n, tl_lower_address := addr AND 0x7f\<rparr>) #
        read_cpls L mp cpl0 data dw_length byte_length (m + len) (n + int len * 4 - (addr AND 3)) (addr + int len * 4 - (addr AND 3))
      else [])"
  by pat_completeness auto
termination
  by (relation "measure (\<lambda>(L, mp, cpl0, data, dw_length, byte_length, m, n, addr). dw_length - m)")
    (auto simp: cpl_dwords_pos diff_less_mono2)

declare read_cpls.simps [simp del]

text \<open>One packet from the request interface: the completions sent in answer, and the device after it.\<close>

definition rx_req ::
  "'x tlp_lib \<Rightarrow> 'e region_calls \<Rightarrow> int \<Rightarrow> 'x tlp_scheme \<Rightarrow> ('e, 'x) test_dev \<Rightarrow>
     ('x tlp_scheme list \<times> ('e, 'x) test_dev) result" where
  "rx_req L C region t d =
     (if tl_fmt_type t \<in> {CPL, CPL_DATA, CPL_LOCKED, CPL_LOCKED_DATA} then rbind (put_cpl t d) (\<lambda>d'. Inr ([], d'))
      else if tl_fmt_type t = IO_READ then
        let cpl = lib_completion_data L t (dev_id d) in
        rbind (region_addr d region (tl_address t)) (\<lambda>addr.
        rbind (io_read_word C region addr (tl_first_be t) d) (\<lambda>(data, d').
        Inr ([(lib_set_data L data cpl)\<lparr>tl_byte_count := 4, tl_length := 1\<rparr>], d')))
      else if tl_fmt_type t = IO_WRITE then
        rbind (region_addr d region (tl_address t)) (\<lambda>addr.
        rbind (do_writes C region (io_write_ops (tl_first_be t) addr (lib_get_data L t)) d) (\<lambda>d'.
        Inr ([lib_completion L t (dev_id d)], d')))
      else if tl_fmt_type t \<in> {MEM_READ, MEM_READ_64} then
        rbind (region_addr d region (tl_address t)) (\<lambda>addr.
        rbind (read_region C region addr (tl_length t * 4) d) (\<lambda>(data, d').
        Inr (read_cpls L (td_max_payload d) (lib_completion_data L t (dev_id d)) data (nat (tl_length t))
               (lib_be_byte_count L t) 0 0 (tl_address t + lib_first_be_offset L t), d')))
      else if tl_fmt_type t \<in> {MEM_WRITE, MEM_WRITE_64} then
        rbind (region_addr d region (tl_address t)) (\<lambda>addr.
        rbind (do_writes C region (mem_write_ops (tl_length t) (tl_first_be t) (tl_last_be t) addr (lib_get_data L t)) d) (\<lambda>d'.
        Inr ([], d')))
      else Inr ([], d))"

text \<open>One packet from the completion interface.\<close>

definition rx_cpl :: "'x tlp_scheme \<Rightarrow> ('e, 'x) test_dev \<Rightarrow> ('e, 'x) test_dev result" where
  "rx_cpl t d = (if tl_fmt_type t \<in> {CPL, CPL_DATA, CPL_LOCKED, CPL_LOCKED_DATA} then put_cpl t d else Inr d)"

end
