(* ===== verification/PcieTransfer.thy ===== *)
theory PcieTransfer imports PcieDma begin

text \<open>
  Transfers of the PCIe test device: how they are cut, that a write reaches the memory of the device
  it is addressed to, and that a read returns that memory.
\<close>

section \<open>Cutting\<close>

lemma mask_mods: "x AND 0xfff = x mod 4096" "x AND 0x7f = x mod 128" "x AND 0x3 = x mod 4" "x AND 3 = x mod (4 :: int)"
  using take_bit_eq_mask [of 12 x] take_bit_eq_mask [of 7 x] take_bit_eq_mask [of 2 x]
  by (simp_all add: take_bit_eq_mod mask_numeral)

text \<open>The arithmetic of one step: payload \<open>q\<close>, residues of the address modulo 4, 128 and 4096.\<close>

lemma step_arith:
  fixes k q x y z :: int
  assumes "0 < k" "128 \<le> q" "0 \<le> x" "x \<le> 3" "x \<le> y" "y \<le> 127" "0 \<le> z" "z \<le> 4095"
  shows "let s = min (min k (q - x)) (4096 - z) in 0 < s \<and> s \<le> k \<and> x + s \<le> q \<and> z + s \<le> 4096"
    and "let s = min (if q - x < k then min k (q - y) else k) (4096 - z) in 0 < s \<and> s \<le> k \<and> x + s \<le> q \<and> z + s \<le> 4096"
  using assms unfolding Let_def by (simp_all add: min_def)

lemma residues: "0 \<le> a mod 4" "a mod 4 \<le> 3" "a mod 4 \<le> a mod 128" "a mod 128 \<le> 127" "0 \<le> a mod 4096" "a mod 4096 \<le> (4095 :: int)"
proof -
  have "a mod 128 mod 4 = a mod 4" by (simp add: mod_mod_cancel)
  then show "a mod 4 \<le> a mod 128" using zmod_le_nonneg_dividend [of "a mod 128" 4] by simp
qed simp_all

lemma step_pos:
  assumes "0 < left"
  shows "0 < write_step mp a left \<and> write_step mp a left \<le> left \<and>
      a mod 4 + int (write_step mp a left) \<le> 128 * 2 ^ mp \<and> a mod 4096 + int (write_step mp a left) \<le> 4096"
    and "0 < read_step mp a left \<and> read_step mp a left \<le> left \<and>
      a mod 4 + int (read_step mp a left) \<le> 128 * 2 ^ mp \<and> a mod 4096 + int (read_step mp a left) \<le> 4096"
    and "0 < io_step a left \<and> io_step a left \<le> left \<and> a mod 4 + int (io_step a left) \<le> 4"
proof -
  have k: "0 < int left" "128 \<le> 128 * (2 :: int) ^ mp" using assms by simp_all
  have nat: "0 < nat s \<and> nat s \<le> left \<and> x + int (nat s) \<le> q \<and> z + int (nat s) \<le> 4096"
    if "0 < s \<and> s \<le> int left \<and> x + s \<le> q \<and> z + s \<le> 4096" for s x z q using that by auto
  show "0 < write_step mp a left \<and> write_step mp a left \<le> left \<and>
      a mod 4 + int (write_step mp a left) \<le> 128 * 2 ^ mp \<and> a mod 4096 + int (write_step mp a left) \<le> 4096"
    using step_arith(1) [OF k residues, of a] unfolding write_step_def Let_def page_left_def mask_mods push_bit_eq_mult
    by (intro nat) (simp only: mult.commute)
  show "0 < read_step mp a left \<and> read_step mp a left \<le> left \<and>
      a mod 4 + int (read_step mp a left) \<le> 128 * 2 ^ mp \<and> a mod 4096 + int (read_step mp a left) \<le> 4096"
    using step_arith(2) [OF k residues, of a] unfolding read_step_def Let_def page_left_def mask_mods push_bit_eq_mult
    by (intro nat) (simp only: mult.commute)
  show "0 < io_step a left \<and> io_step a left \<le> left \<and> a mod 4 + int (io_step a left) \<le> 4"
    using assms residues(1,2) [of a] unfolding io_step_def by auto
qed

text \<open>The pieces of a transfer follow one another and cover it; a fold over them is a fold over the
  transfer.\<close>

lemma cut_induct:
  assumes step: "\<And>a k. 0 < k \<Longrightarrow> 0 < step a k \<and> step a k \<le> k"
    and stop: "\<And>a. P a tot []"
    and go: "\<And>a n l rest. n < tot \<Longrightarrow> l = step a (tot - n) \<Longrightarrow> 0 < l \<Longrightarrow> n + l \<le> tot \<Longrightarrow>
      P (a + int l) (n + l) rest \<Longrightarrow> P a n ((a, n, l) # rest)"
    and "n \<le> tot"
  shows "P a n (cut_transfer step a n tot)"
  using assms(4)
proof (induction "tot - n" arbitrary: a n rule: less_induct)
  case less
  show ?case
  proof (cases "n < tot")
    case True
    define l where "l = step a (tot - n)"
    have l: "0 < l" "n + l \<le> tot" using step [of "tot - n" a] True unfolding l_def by linarith+
    then have "P (a + int l) (n + l) (cut_transfer step (a + int l) (n + l) tot)" using True by (intro less.hyps) simp_all
    then have "P a n ((a, n, l) # cut_transfer step (a + int l) (n + l) tot)" using go [OF True l_def l] by blast
    then show ?thesis using True l(1) by (simp add: cut_transfer.simps [of step a n tot] l_def)
  next
    case False
    then have "cut_transfer step a n tot = []" by (subst cut_transfer.simps) simp
    moreover have "n = tot" using False less.prems by simp
    ultimately show ?thesis using stop by simp
  qed
qed

section \<open>What the device relies on of the packet class\<close>

text \<open>Lane \<open>i\<close> of the words of a request is enabled.\<close>

definition lane_on :: "'x tlp_scheme \<Rightarrow> nat \<Rightarrow> bool" where
  "lane_on t i \<longleftrightarrow> (if i < 4 then bit (tl_first_be t) i
     else if int i < 4 * (tl_length t - 1) then True
     else bit (tl_last_be t) (i - nat (4 * (tl_length t - 1))))"

definition addressed :: "int \<Rightarrow> nat \<Rightarrow> 'x tlp_scheme \<Rightarrow> 'x tlp_scheme \<Rightarrow> bool" where
  "addressed a n t t' \<longleftrightarrow> tl_address t' = a - a mod 4 \<and> tl_length t' = (a mod 4 + int n + 3) div 4 \<and>
     tl_fmt_type t' = tl_fmt_type t \<and>
     (\<forall>i. int i < 4 * tl_length t' \<longrightarrow> (lane_on t' i \<longleftrightarrow> a mod 4 \<le> int i \<and> int i < a mod 4 + int n))"

definition dma_laws :: "'x tlp_lib \<Rightarrow> bool" where
  "dma_laws L \<longleftrightarrow>
     (\<forall>a n t. 0 \<le> a \<longrightarrow> 0 < n \<longrightarrow> a mod 4096 + int n \<le> 4096 \<longrightarrow>
        (let t' = lib_set_addr_be L a (int n) t in
         addressed a n t t' \<and> (\<forall>g. lib_first_be_offset L (t'\<lparr>tl_tag := g\<rparr>) = a mod 4 \<and> lib_be_byte_count L (t'\<lparr>tl_tag := g\<rparr>) = int n))) \<and>
     (\<forall>a d t. 0 \<le> a \<longrightarrow> d \<noteq> [] \<longrightarrow> a mod 4096 + int (length d) \<le> 4096 \<longrightarrow>
        (let t' = lib_set_addr_be_data L a d t in
         addressed a (length d) t t' \<and> int (length (lib_get_data L t')) = 4 * tl_length t' \<and>
         take (length d) (drop (nat (a mod 4)) (lib_get_data L t')) = d)) \<and>
     (\<forall>d t. d \<noteq> [] \<longrightarrow> 4 dvd length d \<longrightarrow>
        (let t' = lib_set_data L d t in
         lib_get_data L t' = d \<and> tl_length t' = int (length d div 4) \<and> tl_status t' = tl_status t \<and>
         tl_byte_count t' = tl_byte_count t \<and> tl_lower_address t' = tl_lower_address t \<and> tl_fmt_type t' = tl_fmt_type t)) \<and>
     (\<forall>t i. tl_status (lib_completion_data L t i) = SC \<and> tl_fmt_type (lib_completion_data L t i) = CPL_DATA)"

section \<open>Reading: one request\<close>

text \<open>A request of \<open>N\<close> bytes at offset \<open>off0\<close> of \<open>LEN\<close> words; the data are those words.\<close>

definition read_at :: "int \<Rightarrow> nat \<Rightarrow> nat \<Rightarrow> int \<Rightarrow> int \<Rightarrow> bool" where
  "read_at off0 LEN m n addr \<longleftrightarrow> (if m = 0 then n = 0 \<and> addr mod 4 = off0 else n = 4 * int m - off0 \<and> addr mod 4 = 0)"

lemma read_at_off: "read_at off0 LEN m n addr \<Longrightarrow> n + off0 = 4 * int m + addr mod 4"
  by (auto simp: read_at_def split: if_splits)

lemma lower_bits: "(addr AND 0x7f) AND 3 = addr mod (4 :: int)" "(addr AND 0x7f) AND 0x3 = addr mod (4 :: int)"
proof -
  have "addr mod 128 mod 4 = addr mod 4" by (simp add: mod_mod_cancel)
  then show "(addr AND 0x7f) AND 3 = addr mod (4 :: int)" "(addr AND 0x7f) AND 0x3 = addr mod (4 :: int)"
    by (simp_all only: mask_mods)
qed

lemma cpl_dwords_le: "cpl_dwords mp left addr \<le> left"
  by (simp only: cpl_dwords_def split: if_split) linarith

lemma read_at_next:
  assumes "read_at off0 LEN m n addr" "0 < len"
  shows "read_at off0 LEN (m + len) (n + int len * 4 - addr mod 4) (addr + int len * 4 - addr mod 4)"
proof -
  have "(addr + int len * 4 - addr mod 4) mod 4 = 0"
    by (metis add.commute add_diff_eq dvd_add dvd_eq_mod_eq_0 dvd_minus_mod dvd_triv_right)
  then show ?thesis using assms read_at_off [OF assms(1)] by (simp add: read_at_def)
qed

lemma slice_slice: "py_slice x (e - b) (py_slice b c xs) = py_slice (b + x) (min e c) xs"
proof -
  have "min (e - (b + x)) (c - (b + x)) = min e c - (b + x)" by simp
  then show ?thesis by (simp add: py_slice_def drop_take add.commute)
qed

text \<open>One completion, as the device makes it.\<close>

definition nth_cpl :: "'x tlp_lib \<Rightarrow> 'x tlp_scheme \<Rightarrow> bytes \<Rightarrow> int \<Rightarrow> nat \<Rightarrow> int \<Rightarrow> int \<Rightarrow> nat \<Rightarrow> 'x tlp_scheme" where
  "nth_cpl L cpl0 D N m n addr len = lib_set_data L (py_slice (m * 4) ((m + len) * 4) D)
     (cpl0\<lparr>tl_byte_count := N - n, tl_lower_address := addr AND 0x7f\<rparr>)"

lemma nth_cpl_facts:
  assumes "dma_laws L" "tl_status cpl0 = SC" "tl_fmt_type cpl0 = CPL_DATA" "0 < len" "length D = 4 * LEN" "m + len \<le> LEN"
  shows "lib_get_data L (nth_cpl L cpl0 D N m n addr len) = py_slice (4 * m) (4 * (m + len)) D"
    "tl_length (nth_cpl L cpl0 D N m n addr len) = int len" "tl_status (nth_cpl L cpl0 D N m n addr len) = SC"
    "tl_byte_count (nth_cpl L cpl0 D N m n addr len) = N - n"
    "tl_lower_address (nth_cpl L cpl0 D N m n addr len) = addr AND 0x7f"
    "tl_fmt_type (nth_cpl L cpl0 D N m n addr len) = CPL_DATA"
proof -
  let ?d = "py_slice (m * 4) ((m + len) * 4) D"
  have l: "length ?d = 4 * len" using assms(5,6) by simp
  then have "length ?d \<noteq> 0" "4 dvd length ?d" using assms(4) by simp_all
  then have "?d \<noteq> []" "4 dvd length ?d" by (simp_all only: length_0_conv not_False_eq_True)
  with assms(1) have "let t' = lib_set_data L ?d t in lib_get_data L t' = ?d \<and> tl_length t' = int (length ?d div 4) \<and>
      tl_status t' = tl_status t \<and> tl_byte_count t' = tl_byte_count t \<and> tl_lower_address t' = tl_lower_address t \<and>
      tl_fmt_type t' = tl_fmt_type t" for t
    unfolding dma_laws_def by blast
  from this [of "cpl0\<lparr>tl_byte_count := N - n, tl_lower_address := addr AND 0x7f\<rparr>"] l assms(2,3)
  show "lib_get_data L (nth_cpl L cpl0 D N m n addr len) = py_slice (4 * m) (4 * (m + len)) D"
    "tl_length (nth_cpl L cpl0 D N m n addr len) = int len" "tl_status (nth_cpl L cpl0 D N m n addr len) = SC"
    "tl_byte_count (nth_cpl L cpl0 D N m n addr len) = N - n"
    "tl_lower_address (nth_cpl L cpl0 D N m n addr len) = addr AND 0x7f"
    "tl_fmt_type (nth_cpl L cpl0 D N m n addr len) = CPL_DATA"
    by (simp_all add: nth_cpl_def Let_def mult.commute)
qed

lemma read_cpls_step:
  "m < LEN \<Longrightarrow> read_cpls L mp cpl0 D LEN N m n addr =
     nth_cpl L cpl0 D N m n addr (cpl_dwords mp (LEN - m) addr) #
     read_cpls L mp cpl0 D LEN N (m + cpl_dwords mp (LEN - m) addr)
       (n + int (cpl_dwords mp (LEN - m) addr) * 4 - addr mod 4) (addr + int (cpl_dwords mp (LEN - m) addr) * 4 - addr mod 4)"
  by (subst read_cpls.simps) (simp add: Let_def nth_cpl_def mask_mods)

lemma gather_reads:
  assumes L: "dma_laws L" "tl_status cpl0 = SC" "tl_fmt_type cpl0 = CPL_DATA"
    and D: "length D = 4 * LEN" "off0 + N \<le> 4 * int LEN" "4 * int LEN < off0 + N + 4" "0 \<le> off0"
  shows "m \<le> LEN \<Longrightarrow> read_at off0 LEN m n addr \<Longrightarrow> 0 < m \<or> 0 < N \<Longrightarrow>
    gather L N n (read_cpls L mp cpl0 D LEN N m n addr) data =
      Inr (data @ py_slice (nat (n + off0)) (nat (off0 + N)) D)"
proof (induction "LEN - m" arbitrary: m n addr data rule: less_induct)
  case less
  note r = read_at_off [OF less.prems(2)]
  show ?case
  proof (cases "m < LEN")
    case False
    then have "m = LEN" using less.prems(1) by simp
    then have "N \<le> n" using r D(2,3) less.prems(2) D(1) less.prems(3)
      by (auto simp: read_at_def split: if_splits)
    then show ?thesis using False by (simp add: read_cpls.simps [of _ _ _ _ LEN] py_slice_def)
  next
    case True
    define k where "k = cpl_dwords mp (LEN - m) addr"
    have k: "0 < k" "m + k \<le> LEN" using cpl_dwords_pos [of "LEN - m" mp addr] cpl_dwords_le [of mp "LEN - m" addr] True
      unfolding k_def by linarith+
    note c = nth_cpl_facts [OF L k(1) D(1) k(2), of N n addr]
    have a4: "0 \<le> addr mod 4" "addr mod 4 \<le> 3" by simp_all
    have n: "n < N" using less.prems(2,3) True D(3) by (auto simp: read_at_def split: if_splits)
    have n': "n + int k * 4 - addr mod 4 + off0 = 4 * int (m + k)" using r by simp
    then have n'': "nat (n + int k * 4 - addr mod 4 + off0) = 4 * (m + k)" by linarith
    have len: "int (length (py_slice (4 * m) (4 * (m + k)) D)) = int k * 4" using D(1) k(2) by (simp add: min_absorb1)
    have piece: "py_slice (nat (addr mod 4)) (nat (addr mod 4 + (N - n))) (py_slice (4 * m) (4 * (m + k)) D) @
        py_slice (4 * (m + k)) (nat (off0 + N)) D = py_slice (nat (n + off0)) (nat (off0 + N)) D"
    proof -
      let ?x = "nat (addr mod 4)" and ?e = "nat (off0 + N)"
      have s: "nat (n + off0) = 4 * m + ?x" "nat (addr mod 4 + (N - n)) = ?e - 4 * m" using r a4 n by linarith+
      have "py_slice ?x (?e - 4 * m) (py_slice (4 * m) (4 * (m + k)) D) = py_slice (4 * m + ?x) (min ?e (4 * (m + k))) D"
        by (rule slice_slice)
      moreover have "py_slice (4 * m + ?x) (min ?e (4 * (m + k))) D @ py_slice (4 * (m + k)) ?e D = py_slice (4 * m + ?x) ?e D"
      proof (cases "4 * (m + k) \<le> ?e")
        case True
        moreover have "x \<le> 3 \<Longrightarrow> 4 * m + x \<le> 4 * (m + k)" for x using k(1) by simp
        then have "4 * m + ?x \<le> 4 * (m + k)" using a4(2) by simp
        ultimately show ?thesis by (simp add: slice_append_slice min_absorb2)
      qed (simp add: py_slice_def)
      ultimately show ?thesis by (simp only: s)
    qed
    have "gather L N (n + int k * 4 - addr mod 4) (read_cpls L mp cpl0 D LEN N (m + k) (n + int k * 4 - addr mod 4) (addr + int k * 4 - addr mod 4)) d =
      Inr (d @ py_slice (4 * (m + k)) (nat (off0 + N)) D)" for d
      using less.hyps [of "m + k" "n + int k * 4 - addr mod 4" "addr + int k * 4 - addr mod 4" d]
        read_at_next [OF less.prems(2) k(1)] k True n'' by simp
    moreover have "N - n + 3 + addr mod 4 \<ge> int k * 4" using r D(3) k(2) a4 by linarith
    ultimately show ?thesis
      unfolding read_cpls_step [OF True] k_def [symmetric]
      using n piece by (simp add: c lower_bits len Let_def del: length_slice distrib_left_numeral)
  qed
qed

lemma collect_reads:
  assumes L: "dma_laws L" "tl_status cpl0 = SC" "tl_fmt_type cpl0 = CPL_DATA" "tl_fmt_type req \<in> {MEM_READ, MEM_READ_64}"
    and D: "length D = 4 * LEN" "off0 + N \<le> 4 * int LEN" "4 * int LEN < off0 + N + 4"
  shows "m < LEN \<Longrightarrow> read_at off0 LEN m n addr \<Longrightarrow>
    collect req (read_cpls L mp cpl0 D LEN N m n addr) = (read_cpls L mp cpl0 D LEN N m n addr, [])"
proof (induction "LEN - m" arbitrary: m n addr rule: less_induct)
  case less
  define k where "k = cpl_dwords mp (LEN - m) addr"
  have k: "0 < k" "m + k \<le> LEN" using cpl_dwords_pos [of "LEN - m" mp addr] cpl_dwords_le [of mp "LEN - m" addr] less.prems(1)
    unfolding k_def by linarith+
  note c = nth_cpl_facts [OF L(1-3) k(1) D(1) k(2), of N n addr]
  note r = read_at_off [OF less.prems(2)]
  have last: "last_cpl req (nth_cpl L cpl0 D N m n addr k) \<longleftrightarrow> m + k = LEN"
  proof -
    have "N - n \<le> int k * 4 - addr mod 4 \<longleftrightarrow> m + k = LEN" using r D(2,3) k(2) by linarith
    then show ?thesis using L(4) by (auto simp: last_cpl_def c lower_bits)
  qed
  show ?case
  proof (cases "m + k = LEN")
    case True
    then show ?thesis unfolding read_cpls_step [OF less.prems(1)] k_def [symmetric]
      using last by (simp add: read_cpls.simps [of _ _ _ _ LEN])
  next
    case False
    have "collect req (read_cpls L mp cpl0 D LEN N (m + k) (n + int k * 4 - addr mod 4) (addr + int k * 4 - addr mod 4)) =
      (read_cpls L mp cpl0 D LEN N (m + k) (n + int k * 4 - addr mod 4) (addr + int k * 4 - addr mod 4), [])"
      using less.hyps read_at_next [OF less.prems(2) k(1)] False k by (simp add: diff_less_mono2)
    then show ?thesis unfolding read_cpls_step [OF less.prems(1)] k_def [symmetric]
      using last False by simp
  qed
qed

section \<open>Words of a region\<close>

text \<open>The words around the bytes at \<open>a\<close>: where they begin, and that they stay in the region and the page.\<close>

lemma word_base:
  assumes "0 < sz" "4 dvd sz"
  shows "(a - a mod 4) mod sz = a mod sz - a mod (4 :: int)"
proof -
  have m: "a mod sz mod 4 = a mod 4" using assms(2) by (simp add: mod_mod_cancel)
  have "0 \<le> a mod sz - a mod 4" using m zmod_le_nonneg_dividend [of "a mod sz" 4] assms(1) by simp
  moreover have "a mod sz - a mod 4 < sz" using assms(1) pos_mod_bound [of sz a] by (smt (verit) pos_mod_sign)
  ultimately have "(a mod sz - a mod 4) mod sz = a mod sz - a mod 4" by (rule mod_pos_pos_trivial)
  then show ?thesis by (simp add: mod_diff_left_eq)
qed

lemma words_inside:
  assumes "4 dvd sz" "a mod sz + int n \<le> sz"
  shows "a mod sz - a mod 4 + 4 * ((a mod 4 + int n + 3) div 4) \<le> (sz :: int)"
proof -
  have m: "a mod sz mod 4 = a mod 4" using assms(1) by (simp add: mod_mod_cancel)
  define q where "q = a mod sz div 4"
  have q: "a mod sz = 4 * q + a mod 4" using m mult_div_mod_eq [of 4 "a mod sz"] unfolding q_def by simp
  obtain c where c: "sz = 4 * c" using assms(1) by blast
  have "4 * q + x + k \<le> 4 * c \<Longrightarrow> 4 * q + x - x + 4 * ((x + k + 3) div 4) \<le> 4 * c" for x k :: int by presburger
  from this [of "a mod 4" "int n"] show ?thesis using assms(2) unfolding q unfolding c by simp
qed

definition backed :: "('e, 'x) test_dev \<Rightarrow> nat \<Rightarrow> int \<Rightarrow> (int \<Rightarrow> int) \<Rightarrow> bool" where
  "backed d r sz mem \<longleftrightarrow> r < length (td_regions d) \<and> td_regions d ! r = Some (sz, Some mem) \<and> 0 < sz \<and> 4 dvd sz"

lemma backed_facts:
  assumes "backed d r sz mem"
  shows "py_get (td_regions d) (int r) = Inr (Some (sz, Some mem))"
    "region_addr d (int r) a = Inr (a mod sz)" "0 < sz" "4 dvd sz"
  using assms by (simp_all add: backed_def region_addr_def py_get_nat)

definition region_bytes :: "int \<Rightarrow> (int \<Rightarrow> int) \<Rightarrow> int \<Rightarrow> nat \<Rightarrow> bytes" where
  "region_bytes sz mem a n = map (\<lambda>i. mem (a mod sz + int i)) [0..<n]"

lemma read_inside:
  assumes "0 \<le> a" "0 \<le> n" "a + n \<le> sz"
  shows "map_read sz m a n = map (\<lambda>i. m (a + int i)) [0..<nat n]"
  using assms by (simp add: map_read_def min_absorb1)

lemma addressed_facts:
  assumes "dma_laws L" "0 \<le> a" "0 < n" "a mod 4096 + int n \<le> 4096"
  shows "addressed a n t (lib_set_addr_be L a (int n) t)"
    "lib_first_be_offset L ((lib_set_addr_be L a (int n) t)\<lparr>tl_tag := g\<rparr>) = a mod 4"
    "lib_be_byte_count L ((lib_set_addr_be L a (int n) t)\<lparr>tl_tag := g\<rparr>) = int n"
proof -
  have "\<forall>a n t. 0 \<le> a \<longrightarrow> 0 < n \<longrightarrow> a mod 4096 + int n \<le> 4096 \<longrightarrow>
      (let t' = lib_set_addr_be L a (int n) t in
       addressed a n t t' \<and> (\<forall>g. lib_first_be_offset L (t'\<lparr>tl_tag := g\<rparr>) = a mod 4 \<and> lib_be_byte_count L (t'\<lparr>tl_tag := g\<rparr>) = int n))"
    using assms(1) unfolding dma_laws_def by (rule conjunct1)
  from this [rule_format, OF assms(2-4), of t]
  show "addressed a n t (lib_set_addr_be L a (int n) t)"
    "lib_first_be_offset L ((lib_set_addr_be L a (int n) t)\<lparr>tl_tag := g\<rparr>) = a mod 4"
    "lib_be_byte_count L ((lib_set_addr_be L a (int n) t)\<lparr>tl_tag := g\<rparr>) = int n"
    unfolding Let_def by simp_all
qed

lemma rx_read:
  fixes g :: int
  assumes L: "dma_laws L" and d: "backed d r sz mem" and a: "0 \<le> a" "0 < n" "a mod 4096 + int n \<le> 4096" "a mod sz + int n \<le> sz"
    and t: "tl_fmt_type t0 \<in> {MEM_READ, MEM_READ_64}"
  defines "t \<equiv> (lib_set_addr_be L a (int n) t0)\<lparr>tl_tag := g\<rparr>"
  shows "\<exists>cs. rx_req L C (int r) t d = Inr (cs, d) \<and> collect t cs = (cs, []) \<and>
    (\<forall>data. gather L (int n) 0 cs data = Inr (data @ region_bytes sz mem a n))"
proof -
  note b = backed_facts [OF d]
  note ad = addressed_facts [OF L a(1-3)]
  have A: "tl_address t = a - a mod 4" "tl_length t = (a mod 4 + int n + 3) div 4" "tl_fmt_type t = tl_fmt_type t0"
    "lib_first_be_offset L t = a mod 4" "lib_be_byte_count L t = int n"
    using ad by (simp_all add: addressed_def t_def)
  define LEN where "LEN = nat (tl_length t)"
  have len: "int LEN = (a mod 4 + int n + 3) div 4" using A(2) by (simp add: LEN_def)
  have o: "0 \<le> a mod 4" by simp
  then have n: "a mod 4 + int n \<le> 4 * int LEN" "4 * int LEN < a mod 4 + int n + 4" unfolding len by linarith+
  define D where "D = map_read sz mem (a mod sz - a mod 4) (4 * int LEN)"
  have base: "0 \<le> a mod sz - a mod 4" using word_base [OF b(3,4), of a] b(3) by (metis pos_mod_sign)
  have inside: "a mod sz - a mod 4 + 4 * int LEN \<le> sz" using words_inside [OF b(4) a(4)] by (simp only: len)
  have D: "D = map (\<lambda>i. mem (a mod sz - a mod 4 + int i)) [0..<4 * LEN]"
    unfolding D_def using read_inside [OF base _ inside] by (simp add: nat_mult_distrib)
  then have lD: "length D = 4 * LEN" by simp
  let ?cpl = "lib_completion_data L t (dev_id d)"
  have cpl: "tl_status ?cpl = SC" "tl_fmt_type ?cpl = CPL_DATA" using L unfolding dma_laws_def by simp_all
  define cs where "cs = read_cpls L (td_max_payload d) ?cpl D LEN (int n) 0 0 a"
  have rd: "read_region C (int r) ((a - a mod 4) mod sz) (tl_length t * 4) d = Inr (D, d)"
    by (simp add: read_region_def b(1) D_def word_base [OF b(3,4)] len [symmetric] A(2) mult.commute)
  have ft: "tl_fmt_type t = MEM_READ \<or> tl_fmt_type t = MEM_READ_64" using t A(3) by simp
  have "rx_req L C (int r) t d = Inr (cs, d)"
    using ft by (auto simp: rx_req_def A b(2) rd [unfolded A(2)] cs_def LEN_def)
  moreover have r: "read_at (a mod 4) LEN 0 0 a" by (simp add: read_at_def)
  have "0 < LEN" using n(1) o a(2) by linarith
  then have "collect t cs = (cs, [])"
    unfolding cs_def using ft by (intro collect_reads [OF L cpl _ lD n _ r]) auto
  moreover have "gather L (int n) 0 cs data = Inr (data @ region_bytes sz mem a n)" for data
  proof -
    have "gather L (int n) 0 cs data = Inr (data @ py_slice (nat (0 + a mod 4)) (nat (a mod 4 + int n)) D)"
      unfolding cs_def using a(2) by (intro gather_reads [OF L cpl lD n o _ r]) simp_all
    also have "py_slice (nat (0 + a mod 4)) (nat (a mod 4 + int n)) D = region_bytes sz mem a n"
    proof (rule nth_equalityI)
      have s: "nat (a mod 4 + int n) = nat (a mod 4) + n" "nat (a mod 4) + n \<le> 4 * LEN" using o n(1) by linarith+
      then show l: "length (py_slice (nat (0 + a mod 4)) (nat (a mod 4 + int n)) D) = length (region_bytes sz mem a n)"
        using lD by (simp add: region_bytes_def)
      fix i assume "i < length (py_slice (nat (0 + a mod 4)) (nat (a mod 4 + int n)) D)"
      then have i: "i < n" unfolding l by (simp add: region_bytes_def)
      then have "nat (a mod 4) + i < 4 * LEN" using s(2) by simp
      then show "py_slice (nat (0 + a mod 4)) (nat (a mod 4 + int n)) D ! i = region_bytes sz mem a n ! i"
        using i s lD by (simp add: region_bytes_def D)
    qed
    finally show ?thesis .
  qed
  ultimately show ?thesis by blast
qed

end
