(* ===== verification/PcieMemory.thy ===== *)
theory PcieMemory imports PcieTransfer begin

text \<open>
  Whole transfers between two test devices: one makes the requests, the other, with memory behind a
  base address register, answers them.  Reading returns the memory, writing changes it.
\<close>

section \<open>Limits of the requests\<close>

definition within_limits :: "nat \<Rightarrow> 'x tlp_scheme \<Rightarrow> bool" where
  "within_limits p t \<longleftrightarrow> 0 < tl_length t \<and> tl_length t \<le> 32 * 2 ^ p \<and> tl_address t mod 4096 + 4 * tl_length t \<le> 4096"

lemma words_within:
  fixes x z :: int
  assumes "x + int n \<le> 128 * 2 ^ p" "4 * z + x + int n \<le> 4096" "0 < n" "0 \<le> x"
  shows "0 < (x + int n + 3) div 4" "(x + int n + 3) div 4 \<le> 32 * 2 ^ p" "4 * z + 4 * ((x + int n + 3) div 4) \<le> 4096"
proof -
  have "k \<le> 4 * q \<Longrightarrow> (k + 3) div 4 \<le> q" for k q :: int by presburger
  from this [of "x + int n" "32 * 2 ^ p"] this [of "x + int n" "1024 - z"] assms
  show "(x + int n + 3) div 4 \<le> 32 * 2 ^ p" "4 * z + 4 * ((x + int n + 3) div 4) \<le> 4096" by simp_all
qed (use assms in linarith)

lemma limits_addressed:
  assumes "addressed a n t t'" "0 < n" "a mod 4 + int n \<le> 128 * 2 ^ p" "a mod 4096 + int n \<le> 4096"
  shows "within_limits p t'"
proof -
  have m: "a mod 4096 mod 4 = a mod 4" by (simp add: mod_mod_cancel)
  define z where "z = a mod 4096 div 4"
  have z: "a mod 4096 = 4 * z + a mod 4" using m mult_div_mod_eq [of 4 "a mod 4096"] unfolding z_def by simp
  have "(a - a mod 4) mod 4096 = 4 * z" using word_base [of 4096 a] z by simp
  then show ?thesis
    using assms words_within [OF assms(3) _ assms(2), of z] unfolding z by (simp add: within_limits_def addressed_def)
qed

definition step_bounds :: "nat \<Rightarrow> (int \<Rightarrow> nat \<Rightarrow> nat) \<Rightarrow> bool" where
  "step_bounds p step \<longleftrightarrow> (\<forall>a k. 0 < k \<longrightarrow> 0 < step a k \<and> step a k \<le> k \<and>
     a mod 4 + int (step a k) \<le> 128 * 2 ^ p \<and> a mod 4096 + int (step a k) \<le> 4096)"

lemma steps_bounded: "step_bounds p (write_step p)" "step_bounds p (read_step p)"
  using step_pos by (simp_all add: step_bounds_def)

lemma cut_bounds:
  assumes "step_bounds p step" "n \<le> tot"
  shows "\<forall>(a', n', l) \<in> set (cut_transfer step a n tot).
    a \<le> a' \<and> 0 < l \<and> n' + l \<le> tot \<and> a' mod 4 + int l \<le> 128 * 2 ^ p \<and> a' mod 4096 + int l \<le> 4096"
proof -
  have pos: "0 < step a k \<and> step a k \<le> k" if "0 < k" for a k using assms(1) that unfolding step_bounds_def by blast
  let ?P = "\<lambda>a n cs. \<forall>(a', n', l) \<in> set cs.
    a \<le> a' \<and> 0 < l \<and> n' + l \<le> tot \<and> a' mod 4 + int l \<le> 128 * 2 ^ p \<and> a' mod 4096 + int l \<le> 4096"
  have go: "?P a n ((a, n, l) # rest)"
    if *: "n < tot" "l = step a (tot - n)" "0 < l" "n + l \<le> tot" "?P (a + int l) (n + l) rest" for a n l rest
  proof -
    have "a mod 4 + int l \<le> 128 * 2 ^ p \<and> a mod 4096 + int l \<le> 4096"
      using assms(1) *(1) unfolding step_bounds_def *(2) by simp
    then show ?thesis using *(3-5) by (auto simp: case_prod_beta dest!: bspec)
  qed
  show ?thesis by (rule cut_induct [where P = ?P, OF pos _ go assms(2)]) simp_all
qed

section \<open>Reads\<close>

text \<open>The requests of a read with their tags, answered one after the other; for each the completions
  that its operation collects.\<close>

fun answer_reads ::
  "'x tlp_lib \<Rightarrow> 'e region_calls \<Rightarrow> int \<Rightarrow> int list \<Rightarrow> (nat \<times> 'x tlp_scheme) list \<Rightarrow> ('e, 'x) test_dev \<Rightarrow>
     ((nat \<times> 'x tlp_scheme list) list \<times> ('e, 'x) test_dev) result" where
  "answer_reads L C r (g # gs) ((l, req) # ops) d =
     rbind (rx_req L C r (req\<lparr>tl_tag := g\<rparr>) d) (\<lambda>(cs, d').
     rbind (answer_reads L C r gs ops d') (\<lambda>(css, d'').
     Inr ((l, fst (collect (req\<lparr>tl_tag := g\<rparr>) cs)) # css, d'')))"
| "answer_reads L C r _ _ d = Inr ([], d)"

definition read_chunk :: "'x tlp_lib \<Rightarrow> ('e, 'x) test_dev \<Rightarrow> int \<times> nat \<times> nat \<Rightarrow> nat \<times> 'x tlp_scheme" where
  "read_chunk L d = (\<lambda>(a, n, l). (l, lib_set_addr_be L a (int l) (new_req L (if is_64 a then MEM_READ_64 else MEM_READ) d)))"

lemma mem_read_reqs_chunks: "0 < len \<Longrightarrow>
    mem_read_reqs L d a len = map (read_chunk L d) (cut_transfer (read_step (td_max_read_req d)) a 0 (nat len))"
  by (auto simp: mem_read_reqs_def Let_def read_chunk_def zero_be_def)

lemma region_bytes_split:
  assumes "a mod sz + int (l + k) \<le> sz" "0 < sz" "0 < k"
  shows "(a + int l) mod sz = a mod sz + int l"
    "region_bytes sz mem a l @ region_bytes sz mem (a + int l) k = region_bytes sz mem a (l + k)"
proof -
  have "0 \<le> a mod sz + int l" using assms(2) by simp
  then have "(a mod sz + int l) mod sz = a mod sz + int l" using assms by (intro mod_pos_pos_trivial) simp_all
  then show m: "(a + int l) mod sz = a mod sz + int l" by (simp add: mod_add_left_eq)
  show "region_bytes sz mem a l @ region_bytes sz mem (a + int l) k = region_bytes sz mem a (l + k)"
    by (rule nth_equalityI) (auto simp: region_bytes_def nth_append m)
qed

definition read_done :: "'x tlp_lib \<Rightarrow> 'e region_calls \<Rightarrow> nat \<Rightarrow> ('f, 'x) test_dev \<Rightarrow> ('e, 'x) test_dev \<Rightarrow> int \<Rightarrow> (int \<Rightarrow> int) \<Rightarrow>
    int \<Rightarrow> nat \<Rightarrow> (int \<times> nat \<times> nat) list \<Rightarrow> bool" where
  "read_done L C r dq dc sz mem a k cs \<longleftrightarrow> (\<forall>gs. length gs = length cs \<longrightarrow>
     (\<exists>css. answer_reads L C (int r) gs (map (read_chunk L dq) cs) dc = Inr (css, dc) \<and>
        (\<forall>data. rfold (\<lambda>(l, cs) data. gather L (int l) 0 cs data) css data = Inr (data @ region_bytes sz mem a k))))"

lemma read_done_step:
  assumes L: "dma_laws L" and d: "backed dc r sz mem" and a: "0 \<le> a" "0 < l" "a mod 4096 + int l \<le> 4096" "a mod sz + int (l + k) \<le> sz"
    and rest: "read_done L C r dq dc sz mem (a + int l) k cs"
  shows "read_done L C r dq dc sz mem a (l + k) ((a, n, l) # cs)"
  unfolding read_done_def
proof (intro allI impI)
  fix gs :: "int list" assume "length gs = length ((a, n, l) # cs)"
  then obtain g gs' where gs: "gs = g # gs'" "length gs' = length cs" by (cases gs) auto
  let ?t0 = "new_req L (if is_64 a then MEM_READ_64 else MEM_READ) dq"
  have "tl_fmt_type ?t0 \<in> {MEM_READ, MEM_READ_64}" by (simp add: new_req_def)
  from rx_read [OF L d a(1-3) _ this, of C g] a(4)
  obtain c where c: "rx_req L C (int r) ((lib_set_addr_be L a (int l) ?t0)\<lparr>tl_tag := g\<rparr>) dc = Inr (c, dc)"
    "collect ((lib_set_addr_be L a (int l) ?t0)\<lparr>tl_tag := g\<rparr>) c = (c, [])"
    "\<And>data. gather L (int l) 0 c data = Inr (data @ region_bytes sz mem a l)" by auto
  obtain css where css: "answer_reads L C (int r) gs' (map (read_chunk L dq) cs) dc = Inr (css, dc)"
    "\<And>data. rfold (\<lambda>(l, cs) data. gather L (int l) 0 cs data) css data = Inr (data @ region_bytes sz mem (a + int l) k)"
    using rest gs(2) unfolding read_done_def by blast
  have "region_bytes sz mem a l @ region_bytes sz mem (a + int l) k = region_bytes sz mem a (l + k)"
    using region_bytes_split(2) [OF a(4) backed_facts(3) [OF d]] by (cases "k = 0") (simp_all add: region_bytes_def)
  then show "\<exists>css. answer_reads L C (int r) gs (map (read_chunk L dq) ((a, n, l) # cs)) dc = Inr (css, dc) \<and>
      (\<forall>data. rfold (\<lambda>(l, cs) data. gather L (int l) 0 cs data) css data = Inr (data @ region_bytes sz mem a (l + k)))"
    using c css by (intro exI [of _ "(l, c) # css"]) (simp add: gs(1) read_chunk_def)
qed

lemma next_inside:
  assumes "0 < sz" "a mod sz + int (l + k) \<le> sz"
  shows "(a + int l) mod sz + int k \<le> sz"
proof (cases "k = 0")
  case True
  then show ?thesis using pos_mod_bound [OF assms(1), of "a + int l"] by simp
qed (use region_bytes_split(1) [OF assms(2,1)] assms(2) in simp)

lemma read_all:
  assumes L: "dma_laws L" and d: "backed dc r sz mem"
    and a: "0 \<le> a" "n \<le> tot" "a mod sz + int (tot - n) \<le> sz"
  shows "read_done L C r dq dc sz mem a (tot - n) (cut_transfer (read_step p) a n tot)"
proof -
  let ?ok = "\<lambda>a n. 0 \<le> a \<and> a mod sz + int (tot - n) \<le> sz"
  let ?P = "\<lambda>a n cs. ?ok a n \<longrightarrow> read_done L C r dq dc sz mem a (tot - n) cs"
  note sz = backed_facts(3) [OF d]
  have go: "?P a n ((a, n, l) # rest)"
    if *: "n < tot" "l = read_step p a (tot - n)" "0 < l" "n + l \<le> tot" "?P (a + int l) (n + l) rest" for a n l rest
  proof
    assume ok: "?ok a n"
    have l: "tot - n = l + (tot - (n + l))" using *(4) by simp
    have i: "a mod sz + int (l + (tot - (n + l))) \<le> sz" using conjunct2 [OF ok] by (simp only: l)
    from next_inside [OF sz i] have "?ok (a + int l) (n + l)" using conjunct1 [OF ok] by (intro conjI) simp_all
    then have rest: "read_done L C r dq dc sz mem (a + int l) (tot - (n + l)) rest" using *(5) by blast
    have "a mod 4096 + int l \<le> 4096" using step_pos(2) [of "tot - n" p a] *(1,2) by simp
    from read_done_step [OF L d conjunct1 [OF ok] *(3) this i rest]
    show "read_done L C r dq dc sz mem a (tot - n) ((a, n, l) # rest)" unfolding l .
  qed
  have "?P a n (cut_transfer (read_step p) a n tot)"
    by (rule cut_induct [where P = ?P, OF _ _ go a(2)]) (use step_pos(2) in \<open>auto simp: read_done_def region_bytes_def\<close>)
  then show ?thesis using a by blast
qed

section \<open>The bytes a write enables\<close>

text \<open>The lanes of the words of a write, in three parts in the code, are the lanes of one mask.\<close>

definition lane_inv :: "int \<Rightarrow> bytes \<Rightarrow> int \<Rightarrow> nat \<Rightarrow> lane_state \<Rightarrow> bool" where
  "lane_inv addr data be n st \<longleftrightarrow>
     fst (snd st) = n \<and> fold (be_step addr data be) [0..<n] (None, []) = (fst st, snd (snd st))"

lemma lane_inv_step:
  assumes "lane_inv addr data be n st" "seg_bit b k = seg_bit be n"
  shows "lane_inv addr data be (Suc n) (be_lane_step b addr data k st)"
  using assms by (cases st) (auto simp: lane_inv_def be_lane_step_def be_step_def split: option.splits)

lemma lane_inv_word:
  assumes "lane_inv addr data be n st" "\<And>k. k < 4 \<Longrightarrow> seg_bit b k = seg_bit be (n + k)"
  shows "lane_inv addr data be (n + 4) (fold (be_lane_step b addr data) [0..<4] st)"
proof -
  have "j \<le> 4 \<Longrightarrow> lane_inv addr data be (n + j) (fold (be_lane_step b addr data) [0..<j] st)" for j
    using assms by (induction j) (auto intro: lane_inv_step)
  then show ?thesis by simp
qed

lemma be_step_all:
  assumes "\<And>i. n \<le> i \<Longrightarrow> i < n + m \<Longrightarrow> seg_bit be i"
  shows "fold (be_step addr data be) [n..<n + m] (start, ops) =
    (if m = 0 then start else case start of None \<Rightarrow> Some n | Some s \<Rightarrow> Some s, ops)"
  using assms
proof (induction m)
  case (Suc m)
  then have b: "seg_bit be (n + m)" by simp
  have "fold (be_step addr data be) [n..<n + m] (start, ops) =
      (if m = 0 then start else case start of None \<Rightarrow> Some n | Some s \<Rightarrow> Some s, ops)"
    using Suc.prems by (intro Suc.IH) simp
  then have "fold (be_step addr data be) [n..<n + Suc m] (start, ops) =
      be_step addr data be (n + m) (if m = 0 then start else case start of None \<Rightarrow> Some n | Some s \<Rightarrow> Some s, ops)"
    by simp
  also have "\<dots> = (case start of None \<Rightarrow> Some n | Some s \<Rightarrow> Some s, ops)"
    using b by (cases start; cases "m = 0") (simp_all add: be_step_def)
  finally show ?case by simp
qed simp

lemma lane_inv_middle:
  assumes "lane_inv addr data be n st" "\<And>i. n \<le> i \<Longrightarrow> i < n + 4 * nat (len - 2) \<Longrightarrow> seg_bit be i"
  shows "lane_inv addr data be (n + 4 * nat (len - 2)) (middle_lanes len st)"
proof -
  obtain start off ops where st: "st = (start, off, ops)" by (cases st)
  have "[0..<n + 4 * nat (len - 2)] = [0..<n] @ [n..<n + 4 * nat (len - 2)]" by (rule upt_add_eq_append) simp
  moreover have "fold (be_step addr data be) [0..<n] (None, []) = (start, ops)" "off = n" using assms(1) by (simp_all add: lane_inv_def st)
  ultimately have "fold (be_step addr data be) [0..<n + 4 * nat (len - 2)] (None, []) =
      fold (be_step addr data be) [n..<n + 4 * nat (len - 2)] (start, ops)"
    by (simp only: fold_append comp_apply)
  also have "\<dots> = (if 4 * nat (len - 2) = 0 then start else case start of None \<Rightarrow> Some n | Some s \<Rightarrow> Some s, ops)"
    by (rule be_step_all) (rule assms(2))
  finally show ?thesis using \<open>off = n\<close> unfolding lane_inv_def by (cases start) (simp_all add: st middle_lanes_def mult.commute)
qed

lemma last_lanes_write_ops: "lane_inv addr data be n st \<Longrightarrow> last_lanes addr data st = write_ops n addr data be"
  by (cases st) (auto simp: lane_inv_def last_lanes_def write_ops_def split: option.splits)

lemma mem_write_ops_one:
  assumes "\<And>i. i < 4 * LEN \<Longrightarrow> lane_on t i = seg_bit be i" "tl_length t = int LEN" "0 < LEN"
  shows "mem_write_ops (tl_length t) (tl_first_be t) (tl_last_be t) addr data = write_ops (4 * LEN) addr data be"
proof -
  define st1 where "st1 = fold (be_lane_step (tl_first_be t) addr data) [0..<4] (None, 0, [])"
  have "lane_inv addr data be 0 (None, 0, [])" by (simp add: lane_inv_def)
  then have "lane_inv addr data be (0 + 4) st1" unfolding st1_def
  proof (rule lane_inv_word)
    fix k :: nat assume "k < 4"
    then show "seg_bit (tl_first_be t) k = seg_bit be (0 + k)" using assms(1) [of k] assms(3) by (simp add: lane_on_def seg_bit_iff)
  qed
  then have i1: "lane_inv addr data be 4 st1" by simp
  define st2 where "st2 = middle_lanes (tl_length t) st1"
  have i2: "lane_inv addr data be (4 + 4 * nat (tl_length t - 2)) st2" unfolding st2_def
  proof (rule lane_inv_middle [OF i1])
    fix i assume i: "4 \<le> i" "i < 4 + 4 * nat (tl_length t - 2)"
    have "nat (tl_length t - 2) = LEN - 2" using assms(2) by simp
    then have "i < 4 * (LEN - 1)" using i by simp
    then have "int i < 4 * (tl_length t - 1)" "i < 4 * LEN" using assms(2) by simp_all
    then show "seg_bit be i" using assms(1) [of i] i(1) by (simp add: lane_on_def)
  qed
  show ?thesis
  proof (cases "LEN = 1")
    case True
    then have "st2 = st1" "mem_write_ops (tl_length t) (tl_first_be t) (tl_last_be t) addr data = last_lanes addr data st2"
      using assms(2) by (cases st1, simp_all add: st2_def st1_def middle_lanes_def mem_write_ops_def Let_def)
    then show ?thesis using last_lanes_write_ops [OF i1] True by simp
  next
    case False
    then have n: "4 + 4 * nat (tl_length t - 2) = 4 * (LEN - 1)" "1 < tl_length t" using assms(2,3) by simp_all
    have "lane_inv addr data be (4 * (LEN - 1) + 4) (fold (be_lane_step (tl_last_be t) addr data) [0..<4] st2)"
    proof (rule lane_inv_word [OF i2 [unfolded n(1)]])
      fix k :: nat assume k: "k < 4"
      have "4 * (LEN - 1) + k < 4 * LEN" "nat (4 * (tl_length t - 1)) = 4 * (LEN - 1)" "\<not> 4 * (LEN - 1) + k < 4"
        using k False assms(2,3) by simp_all
      then show "seg_bit (tl_last_be t) k = seg_bit be (4 * (LEN - 1) + k)"
        using assms(1) [of "4 * (LEN - 1) + k"] assms(2) by (simp add: lane_on_def seg_bit_iff)
    qed
    moreover have "4 * (LEN - 1) + 4 = 4 * LEN" using assms(3) by simp
    ultimately have i3: "lane_inv addr data be (4 * LEN) (fold (be_lane_step (tl_last_be t) addr data) [0..<4] st2)" by (simp only:)
    have "mem_write_ops (tl_length t) (tl_first_be t) (tl_last_be t) addr data =
        last_lanes addr data (fold (be_lane_step (tl_last_be t) addr data) [0..<4] st2)"
      using n(2) by (simp only: mem_write_ops_def Let_def st2_def st1_def if_True)
    then show ?thesis using last_lanes_write_ops [OF i3] by simp
  qed
qed

section \<open>Writes\<close>

text \<open>Mapped memory is a byte store: inside its size a slice can be assigned and read back.\<close>

interpretation mapped: byte_store "\<lambda>a d m. map_write sz m a d" "\<lambda>a n m. Inr (map_read sz m a n)" "\<lambda>m. m" sz for sz
  by unfold_locales (simp_all add: map_write_def read_inside min_absorb1)

definition put_mem :: "nat \<Rightarrow> int \<Rightarrow> (int \<Rightarrow> int) \<Rightarrow> ('e, 'x) test_dev \<Rightarrow> ('e, 'x) test_dev" where
  "put_mem r sz m d = d\<lparr>td_regions := (td_regions d)[r := Some (sz, Some m)]\<rparr>"

lemma put_mem_facts:
  assumes "backed d r sz mem"
  shows "backed (put_mem r sz m d) r sz m" "put_mem r sz m' (put_mem r sz m d) = put_mem r sz m' d" "put_mem r sz mem d = d"
  using assms by (simp_all add: backed_def put_mem_def list_update_same_conv)

lemma do_writes_mapped:
  assumes "backed d r sz mem" "rfold (\<lambda>(a, bs) m. map_write sz m a bs) ops mem = Inr m"
  shows "do_writes C (int r) ops d = Inr (put_mem r sz m d)"
  using assms
proof (induction ops arbitrary: d mem)
  case Nil
  then show ?case by (simp add: do_writes_def put_mem_facts)
next
  case (Cons x ops)
  obtain a bs where x: "x = (a, bs)" by (cases x)
  obtain m1 where m1: "map_write sz mem a bs = Inr m1" "rfold (\<lambda>(a, bs) m. map_write sz m a bs) ops m1 = Inr m"
    using Cons.prems(2) unfolding x by (auto simp: rbind_Inr_iff)
  have "write_region C (int r) a bs d = Inr (put_mem r sz m1 d)"
    by (simp add: write_region_def backed_facts(1) [OF Cons.prems(1)] m1(1) put_mem_def)
  then show ?case
    using Cons.IH [OF put_mem_facts(1) [OF Cons.prems(1)] m1(2)] put_mem_facts(2) [OF Cons.prems(1)]
    by (simp add: x do_writes_def)
qed

text \<open>Bytes \<open>off\<close> to \<open>off + length d\<close> of the words at \<open>base\<close>.\<close>

lemma enabled_run:
  assumes "take (length d) (drop off gd) = d" "off + length d \<le> length gd"
  shows "enabled_bytes base gd (push_bit off (ones (length d))) (length gd) f = put_bytes (base + int off) d f"
proof
  fix x
  have b: "bit (push_bit off (ones (length d))) k \<longleftrightarrow> off \<le> k \<and> k < off + length d" for k
    by (auto simp: bit_simps bit_ones)
  show "enabled_bytes base gd (push_bit off (ones (length d))) (length gd) f x = put_bytes (base + int off) d f x"
  proof (cases "base + int off \<le> x \<and> x < base + int off + int (length d)")
    case True
    then have n: "base \<le> x \<and> x < base + int (length gd)" "off \<le> nat (x - base) \<and> nat (x - base) < off + length d"
      "nat (x - base) = off + nat (x - (base + int off))" "nat (x - (base + int off)) < length d" using assms(2) by linarith+
    have "d ! nat (x - (base + int off)) = gd ! nat (x - base)"
      using arg_cong [OF assms(1), of "\<lambda>l. l ! nat (x - (base + int off))"] n(3,4) assms(2) by simp
    then show ?thesis using True n(1,2) by (simp add: enabled_bytes_def put_bytes_def b)
  next
    case False
    then have "\<not> (base \<le> x \<and> off \<le> nat (x - base) \<and> nat (x - base) < off + length d)" by linarith
    then show ?thesis using False by (auto simp: enabled_bytes_def put_bytes_def b)
  qed
qed

lemma data_facts:
  assumes "dma_laws L" "0 \<le> a" "d \<noteq> []" "a mod 4096 + int (length d) \<le> 4096"
  shows "addressed a (length d) t (lib_set_addr_be_data L a d t)"
    "int (length (lib_get_data L (lib_set_addr_be_data L a d t))) = 4 * tl_length (lib_set_addr_be_data L a d t)"
    "take (length d) (drop (nat (a mod 4)) (lib_get_data L (lib_set_addr_be_data L a d t))) = d"
proof -
  have "\<forall>a d t. 0 \<le> a \<longrightarrow> d \<noteq> [] \<longrightarrow> a mod 4096 + int (length d) \<le> 4096 \<longrightarrow>
      (let t' = lib_set_addr_be_data L a d t in
       addressed a (length d) t t' \<and> int (length (lib_get_data L t')) = 4 * tl_length t' \<and>
       take (length d) (drop (nat (a mod 4)) (lib_get_data L t')) = d)"
    using assms(1) unfolding dma_laws_def by (elim conjE)
  from this [rule_format, OF assms(2-4), of t]
  show "addressed a (length d) t (lib_set_addr_be_data L a d t)"
    "int (length (lib_get_data L (lib_set_addr_be_data L a d t))) = 4 * tl_length (lib_set_addr_be_data L a d t)"
    "take (length d) (drop (nat (a mod 4)) (lib_get_data L (lib_set_addr_be_data L a d t))) = d"
    unfolding Let_def by simp_all
qed

lemma rx_write:
  assumes L: "dma_laws L" and d: "backed d r sz mem"
    and a: "0 \<le> a" "bs \<noteq> []" "a mod 4096 + int (length bs) \<le> 4096" "a mod sz + int (length bs) \<le> sz"
    and t: "tl_fmt_type t0 \<in> {MEM_WRITE, MEM_WRITE_64}"
  defines "t \<equiv> lib_set_addr_be_data L a bs t0"
  shows "rx_req L C (int r) t d = Inr ([], put_mem r sz (put_bytes (a mod sz) bs mem) d)"
proof -
  note b = backed_facts [OF d]
  note f = data_facts [OF L a(1-3), of t0, folded t_def]
  define gd where "gd = lib_get_data L t"
  define off where "off = nat (a mod 4)"
  define be where "be = push_bit off (ones (length bs))"
  define LEN where "LEN = nat (tl_length t)"
  define base where "base = a mod sz - a mod 4"
  have o: "int off = a mod 4" by (simp add: off_def)
  have A: "tl_address t = a - a mod 4" "tl_length t = (a mod 4 + int (length bs) + 3) div 4" "tl_fmt_type t = tl_fmt_type t0"
    using f(1) by (simp_all add: addressed_def)
  have n: "0 < length bs" using a(2) by simp
  have len: "tl_length t = int LEN" "0 < LEN" "off + length bs \<le> 4 * LEN"
    using A(2) n o unfolding LEN_def by linarith+
  have gd: "length gd = 4 * LEN" using f(2) len(1) by (simp add: gd_def)
  have bit_be: "bit be i \<longleftrightarrow> off \<le> i \<and> i < off + length bs" for i by (auto simp: be_def bit_simps bit_ones)
  have "lane_on t i = seg_bit be i" if "i < 4 * LEN" for i
    using f(1) that len(1) o by (auto simp: addressed_def seg_bit_iff bit_be)
  from mem_write_ops_one [OF this len(1,2)]
  have ops: "mem_write_ops (tl_length t) (tl_first_be t) (tl_last_be t) base gd = write_ops (4 * LEN) base gd be" by blast
  have base: "0 \<le> base" "(a - a mod 4) mod sz = base"
    using word_base [OF b(3,4), of a] b(3) unfolding base_def by (metis pos_mod_sign, simp)
  have inside: "base + int (length gd) \<le> sz"
    using words_inside [OF b(4) a(4)] len(1) A(2) gd unfolding base_def by simp
  have e: "\<And>i. bit be i \<Longrightarrow> i < length gd" "length gd \<le> 4 * LEN" using bit_be len(3) gd by auto
  have w: "fold (\<lambda>(a, d). put_bytes a d) (write_ops (4 * LEN) base gd be) mem = enabled_bytes base gd be (length gd) mem"
    "(a', d') \<in> set (write_ops (4 * LEN) base gd be) \<Longrightarrow> base \<le> a' \<and> a' + int (length d') \<le> base + int (length gd)" for a' d'
    using write_ops_effect [where be = be and data = gd and lanes = "4 * LEN" and addr = base] e by blast+
  have "\<exists>m. rfold (\<lambda>(a, d). \<lambda>m. map_write sz m a d) (write_ops (4 * LEN) base gd be) mem = Inr m \<and>
      m = fold (\<lambda>(a, d). put_bytes a d) (write_ops (4 * LEN) base gd be) mem"
  proof (rule mapped.wr_all)
    fix a' d' assume "(a', d') \<in> set (write_ops (4 * LEN) base gd be)"
    from w(2) [OF this] show "0 \<le> a' \<and> a' + int (length d') \<le> sz" using base(1) inside by linarith
  qed
  moreover have "fold (\<lambda>(a, d). put_bytes a d) (write_ops (4 * LEN) base gd be) mem = put_bytes (a mod sz) bs mem"
    using enabled_run [OF f(3) [folded off_def gd_def], of base mem] len(3) gd w(1) o
    by (simp add: be_def base_def)
  ultimately have "rfold (\<lambda>(a, d). \<lambda>m. map_write sz m a d) (write_ops (4 * LEN) base gd be) mem = Inr (put_bytes (a mod sz) bs mem)"
    by simp
  then have "do_writes C (int r) (write_ops (4 * LEN) base gd be) d = Inr (put_mem r sz (put_bytes (a mod sz) bs mem) d)"
    using do_writes_mapped [OF d] by (simp add: case_prod_beta)
  then show ?thesis using t A(3) ops by (auto simp: rx_req_def A(1) b(2) base(2) gd_def)
qed

lemma put_bytes_append: "put_bytes a (d @ e) f = put_bytes (a + int (length d)) e (put_bytes a d f)"
proof
  fix x
  have "nat (x - a) - length d = nat (x - (a + int (length d)))" by simp
  then show "put_bytes a (d @ e) f x = put_bytes (a + int (length d)) e (put_bytes a d f) x"
    by (simp add: put_bytes_def nth_append nat_less_iff)
qed

lemma put_bytes_none: "put_bytes a [] f = f"
  by (rule ext) (simp add: put_bytes_def)

text \<open>The requests of a write, taken one after the other; nothing is answered.\<close>

definition answer_writes ::
  "'x tlp_lib \<Rightarrow> 'e region_calls \<Rightarrow> int \<Rightarrow> 'x tlp_scheme list \<Rightarrow> ('e, 'x) test_dev \<Rightarrow> ('e, 'x) test_dev result" where
  "answer_writes L C r reqs d = rfold (\<lambda>t d. rbind (rx_req L C r t d) (\<lambda>(_, d'). Inr d')) reqs d"

definition write_chunk :: "'x tlp_lib \<Rightarrow> ('e, 'x) test_dev \<Rightarrow> bytes \<Rightarrow> int \<times> nat \<times> nat \<Rightarrow> 'x tlp_scheme" where
  "write_chunk L d data = (\<lambda>(a, n, l). lib_set_addr_be_data L a (py_slice n (n + l) data)
     (new_req L (if is_64 a then MEM_WRITE_64 else MEM_WRITE) d))"

lemma mem_write_reqs_chunks: "data \<noteq> [] \<Longrightarrow>
    mem_write_reqs L d a data = map (write_chunk L d data) (cut_transfer (write_step (td_max_payload d)) a 0 (length data))"
  by (auto simp: mem_write_reqs_def Let_def write_chunk_def zero_be_def)

definition write_done :: "'x tlp_lib \<Rightarrow> 'e region_calls \<Rightarrow> nat \<Rightarrow> ('f, 'x) test_dev \<Rightarrow> int \<Rightarrow> bytes \<Rightarrow>
    int \<Rightarrow> nat \<Rightarrow> (int \<times> nat \<times> nat) list \<Rightarrow> bool" where
  "write_done L C r dq sz data a n cs \<longleftrightarrow> (\<forall>dc mem. backed dc r sz mem \<longrightarrow>
     answer_writes L C (int r) (map (write_chunk L dq data) cs) dc =
       Inr (put_mem r sz (put_bytes (a mod sz) (drop n data) mem) dc))"

lemma write_done_step:
  fixes L :: "'x tlp_lib" and C :: "'e region_calls"
  assumes L: "dma_laws L" and sz: "0 < sz"
    and a: "0 \<le> a" "0 < l" "n + l \<le> length data" "a mod 4096 + int l \<le> 4096" "a mod sz + int (l + (length data - (n + l))) \<le> sz"
    and rest: "write_done L C r dq sz data (a + int l) (n + l) cs"
  shows "write_done L C r dq sz data a n ((a, n, l) # cs)"
  unfolding write_done_def
proof (intro allI impI)
  fix dc :: "('e, 'x) test_dev" and mem assume d: "backed dc r sz mem"
  let ?bs = "py_slice n (n + l) data" and ?t0 = "new_req L (if is_64 a then MEM_WRITE_64 else MEM_WRITE) dq"
  have l: "length ?bs = l" using a(3) by simp
  then have ne: "?bs \<noteq> []" using a(2) by (metis length_0_conv less_irrefl)
  have "tl_fmt_type ?t0 \<in> {MEM_WRITE, MEM_WRITE_64}" by (simp add: new_req_def)
  from rx_write [OF L d a(1) ne _ _ this, of C] a(4,5)
  have w: "rx_req L C (int r) (write_chunk L dq data (a, n, l)) dc = Inr ([], put_mem r sz (put_bytes (a mod sz) ?bs mem) dc)"
    unfolding l write_chunk_def by simp
  note p = put_mem_facts [OF d]
  have split: "drop n data = ?bs @ drop (n + l) data"
    by (simp add: py_slice_def) (metis add.commute append_take_drop_id drop_drop)
  have "put_bytes ((a + int l) mod sz) (drop (n + l) data) f = put_bytes (a mod sz + int l) (drop (n + l) data) f" for f
  proof (cases "n + l = length data")
    case False
    then show ?thesis using region_bytes_split(1) [OF a(5) sz] a(3) by simp
  qed (simp add: put_bytes_none)
  then have "put_bytes ((a + int l) mod sz) (drop (n + l) data) (put_bytes (a mod sz) ?bs mem) = put_bytes (a mod sz) (drop n data) mem"
    unfolding split put_bytes_append l by blast
  moreover have "answer_writes L C (int r) (map (write_chunk L dq data) cs) (put_mem r sz (put_bytes (a mod sz) ?bs mem) dc) =
      Inr (put_mem r sz (put_bytes ((a + int l) mod sz) (drop (n + l) data) (put_bytes (a mod sz) ?bs mem))
        (put_mem r sz (put_bytes (a mod sz) ?bs mem) dc))"
    using rest p(1) unfolding write_done_def by blast
  ultimately show "answer_writes L C (int r) (map (write_chunk L dq data) ((a, n, l) # cs)) dc =
      Inr (put_mem r sz (put_bytes (a mod sz) (drop n data) mem) dc)"
    by (simp add: answer_writes_def w p(2))
qed

lemma write_all:
  assumes L: "dma_laws L" and sz: "0 < sz" and a: "0 \<le> a" "n \<le> length data" "a mod sz + int (length data - n) \<le> sz"
  shows "write_done L C r dq sz data a n (cut_transfer (write_step p) a n (length data))"
proof -
  let ?ok = "\<lambda>a n. 0 \<le> a \<and> a mod sz + int (length data - n) \<le> sz"
  let ?P = "\<lambda>a n cs. ?ok a n \<longrightarrow> write_done L C r dq sz data a n cs"
  have go: "?P a n ((a, n, l) # rest)"
    if *: "n < length data" "l = write_step p a (length data - n)" "0 < l" "n + l \<le> length data" "?P (a + int l) (n + l) rest" for a n l rest
  proof
    assume ok: "?ok a n"
    have l: "length data - n = l + (length data - (n + l))" using *(4) by simp
    have i: "a mod sz + int (l + (length data - (n + l))) \<le> sz" using conjunct2 [OF ok] by (simp only: l)
    from next_inside [OF sz i] have "?ok (a + int l) (n + l)" using conjunct1 [OF ok] by (intro conjI) simp_all
    then have rest: "write_done L C r dq sz data (a + int l) (n + l) rest" using *(5) by blast
    have "a mod 4096 + int l \<le> 4096" using step_pos(1) [of "length data - n" p a] *(1,2) by simp
    from write_done_step [OF L sz conjunct1 [OF ok] *(3,4) this i rest]
    show "write_done L C r dq sz data a n ((a, n, l) # rest)" .
  qed
  have stop: "?P a (length data) []" for a
    by (simp add: write_done_def answer_writes_def put_bytes_none put_mem_facts)
  have "?P a n (cut_transfer (write_step p) a n (length data))"
    by (rule cut_induct [where P = ?P, OF _ _ go a(2)]) (use step_pos(1) stop in auto)
  then show ?thesis using a by blast
qed

end
