(* ===== verification/PcieStd.thy ===== *)
theory PcieStd imports PcieMemory begin

text \<open>
  The properties of packets in frames and of DMA transfers.  They are evaluated on a packet class for which
  everything holds that the code relies on: the header layout of memory and I/O requests, byte enables as a
  mask over the words, data padded to whole words.
\<close>

section \<open>Headers\<close>

definition std_codes :: "(tlp_type \<times> int) list" where
  "std_codes = [(MEM_READ, 0x00), (MEM_READ_64, 0x20), (MEM_WRITE, 0x40), (MEM_WRITE_64, 0x60), (IO_READ, 0x02), (IO_WRITE, 0x42)]"

definition std_wide :: "tlp_type \<Rightarrow> tlp_type" where
  "std_wide ty = (case ty of MEM_READ \<Rightarrow> MEM_READ_64 | MEM_WRITE \<Rightarrow> MEM_WRITE_64 | _ \<Rightarrow> ty)"

definition be_bytes :: "nat \<Rightarrow> int \<Rightarrow> bytes" where "be_bytes n v = rev (le_bytes n v)"

definition id_word :: "pcie_id \<Rightarrow> int" where "id_word i = id_bus i * 256 + id_device i * 8 + id_function i"

definition std_new :: tlp where
  "std_new = \<lparr>tl_fmt_type = MEM_READ, tl_requester_id = \<lparr>id_bus = 0, id_device = 0, id_function = 0\<rparr>,
     tl_dest_id = \<lparr>id_bus = 0, id_device = 0, id_function = 0\<rparr>, tl_tag = 0, tl_address = 0, tl_length = 0,
     tl_first_be = 0, tl_last_be = 0, tl_status = SC, tl_byte_count = 4, tl_lower_address = 0, tl_data = []\<rparr>"

definition std_pack :: "tlp \<Rightarrow> bytes" where
  "std_pack t = [case map_of std_codes (tl_fmt_type t) of Some b \<Rightarrow> b | None \<Rightarrow> 0x4a, 0] @ be_bytes 2 (tl_length t mod 1024) @
     be_bytes 2 (id_word (tl_requester_id t)) @ [tl_tag t, tl_last_be t * 16 + tl_first_be t] @
     be_bytes (if tl_fmt_type t \<in> {MEM_READ_64, MEM_WRITE_64} then 8 else 4) (tl_address t)"

definition std_unpack :: "bytes \<Rightarrow> tlp result" where
  "std_unpack h = (case map_of (map (\<lambda>(ty, b). (b, ty)) std_codes) (h ! 0) of
     None \<Rightarrow> Inl ValueError
   | Some ty \<Rightarrow> Inr (std_new\<lparr>tl_fmt_type := ty,
       tl_length := (let l = h ! 2 * 256 + h ! 3 in if l = 0 then 1024 else l),
       tl_requester_id := \<lparr>id_bus = h ! 4, id_device = h ! 5 div 8, id_function = h ! 5 mod 8\<rparr>,
       tl_tag := h ! 6, tl_last_be := h ! 7 div 16, tl_first_be := h ! 7 mod 16,
       tl_address := le_int (rev (if ty \<in> {MEM_READ_64, MEM_WRITE_64} then py_slice 8 16 h else py_slice 8 12 h))\<rparr>))"

section \<open>Byte enables\<close>

definition std_words :: "int \<Rightarrow> int \<Rightarrow> int" where "std_words a n = (a mod 4 + n + 3) div 4"
definition std_mask :: "int \<Rightarrow> int \<Rightarrow> int" where "std_mask a n = push_bit (nat (a mod 4)) (ones (nat n))"

definition std_set_addr_be :: "int \<Rightarrow> int \<Rightarrow> tlp \<Rightarrow> tlp" where
  "std_set_addr_be a n t = t\<lparr>tl_address := a - a mod 4, tl_length := std_words a n, tl_first_be := std_mask a n AND 0xf,
     tl_last_be := (if std_words a n > 1 then drop_bit (nat (4 * (std_words a n - 1))) (std_mask a n) AND 0xf else 0)\<rparr>"

definition std_set_data :: "bytes \<Rightarrow> tlp \<Rightarrow> tlp" where
  "std_set_data d t = t\<lparr>tl_data := d @ replicate ((4 - length d mod 4) mod 4) 0, tl_length := int ((length d + 3) div 4)\<rparr>"

definition std_set_addr_be_data :: "int \<Rightarrow> bytes \<Rightarrow> tlp \<Rightarrow> tlp" where
  "std_set_addr_be_data a d t =
     (let d' = replicate (nat (a mod 4)) 0 @ d
      in (std_set_addr_be a (int (length d)) t)\<lparr>tl_data := d' @ replicate (nat (4 * std_words a (int (length d))) - length d') 0\<rparr>)"

definition std_low :: "int \<Rightarrow> int" where
  "std_low b = (if bit b 0 then 0 else if bit b 1 then 1 else if bit b 2 then 2 else if bit b 3 then 3 else 0)"

definition std_high :: "int \<Rightarrow> int" where
  "std_high b = (if bit b 3 then 4 else if bit b 2 then 3 else if bit b 1 then 2 else 1)"

definition std_count :: "tlp \<Rightarrow> int" where
  "std_count t = (if tl_length t = 1 then std_high (tl_first_be t) - std_low (tl_first_be t)
     else 4 * tl_length t - std_low (tl_first_be t) - (4 - std_high (tl_last_be t)))"

definition std_cpl :: "tlp_type \<Rightarrow> cpl_status \<Rightarrow> tlp \<Rightarrow> pcie_id \<Rightarrow> tlp" where
  "std_cpl ty st t i = std_new\<lparr>tl_fmt_type := ty, tl_status := st, tl_requester_id := i, tl_dest_id := tl_requester_id t, tl_tag := tl_tag t\<rparr>"

definition std_lib :: "unit tlp_lib" where
  "std_lib = \<lparr>lib_new = std_new, lib_pack_header = std_pack, lib_unpack_header = std_unpack, lib_get_data = tl_data,
     lib_set_data = std_set_data, lib_set_addr_be = std_set_addr_be, lib_set_addr_be_data = std_set_addr_be_data,
     lib_first_be_offset = (\<lambda>t. std_low (tl_first_be t)), lib_be_byte_count = std_count,
     lib_completion = std_cpl CPL SC, lib_completion_data = std_cpl CPL_DATA SC, lib_ur_completion = std_cpl CPL (OtherStatus 1)\<rparr>"

lemma std_mask_bit: "bit (std_mask a n) i \<longleftrightarrow> a mod 4 \<le> int i \<and> int i < a mod 4 + int (nat n)"
  by (auto simp: std_mask_def bit_simps bit_ones nat_le_iff)

lemma low_nibble: "bit (x AND 0xf) i \<longleftrightarrow> i < 4 \<and> bit x i" for x :: int
proof -
  have "(0xf :: int) = ones 4" by simp
  then show ?thesis by (simp only: bit_and_iff bit_ones) auto
qed

lemma words_last:
  assumes "\<not> i < 4" "\<not> int i < 4 * (w - 1)" "int i < 4 * w"
  shows "1 < w \<and> i - nat (4 * (w - 1)) < 4 \<and> nat (4 * (w - 1)) + (i - nat (4 * (w - 1))) = i"
proof -
  define c where "c = nat (4 * (w - 1))"
  have "1 < w" using assms by simp
  then have "int c = 4 * (w - 1)" by (simp add: c_def)
  then have "int c \<le> int i \<and> int i < int c + 4" using assms(2,3) by simp
  then have "c \<le> i" "i < c + 4" by simp_all
  then show ?thesis using \<open>1 < w\<close> unfolding c_def [symmetric] by simp
qed

lemma std_addressed:
  assumes "0 < n"
  shows "addressed a n t (std_set_addr_be a (int n) t)"
proof -
  let ?w = "std_words a (int n)"
  have w: "a mod 4 + int n \<le> 4 * ?w" "4 * ?w < a mod 4 + int n + 4" "0 < ?w"
    using assms pos_mod_sign [of 4 a] unfolding std_words_def by presburger+
  have "lane_on (std_set_addr_be a (int n) t) i \<longleftrightarrow> a mod 4 \<le> int i \<and> int i < a mod 4 + int n" if "int i < 4 * ?w" for i
  proof (cases "i < 4")
    case True
    then show ?thesis by (simp add: lane_on_def std_set_addr_be_def low_nibble std_mask_bit)
  next
    case i: False
    have a3: "a mod 4 \<le> 3" by simp
    show ?thesis
    proof (cases "int i < 4 * (?w - 1)")
      case True
      have "k < 4 * (w - 1) \<Longrightarrow> 4 * w < x + m + 4 \<Longrightarrow> k < x + m" for k w x m :: int by simp
      from this [OF True w(2)] have "a mod 4 \<le> int i" "int i < a mod 4 + int n" using i a3 by simp_all
      then show ?thesis using True i by (simp add: lane_on_def std_set_addr_be_def)
    next
      case False
      then have "1 < ?w" "i - nat (4 * (?w - 1)) < 4" "nat (4 * (?w - 1)) + (i - nat (4 * (?w - 1))) = i"
        using i that words_last [of i ?w] by simp_all
      then show ?thesis using False i by (simp add: lane_on_def std_set_addr_be_def low_nibble bit_drop_bit_eq std_mask_bit)
    qed
  qed
  then show ?thesis by (simp add: addressed_def std_set_addr_be_def std_words_def)
qed

lemma std_low_high:
  assumes "0 \<le> x" "x \<le> 3" "0 < n" "\<And>i. i < 4 \<Longrightarrow> bit b i \<longleftrightarrow> x \<le> int i \<and> int i < x + n"
  shows "std_low b = x" "std_high b = min 4 (x + n)"
proof -
  have b: "bit b 0 \<longleftrightarrow> x \<le> 0 \<and> 0 < x + n" "bit b 1 \<longleftrightarrow> x \<le> 1 \<and> 1 < x + n" "bit b 2 \<longleftrightarrow> x \<le> 2 \<and> 2 < x + n" "bit b 3 \<longleftrightarrow> x \<le> 3 \<and> 3 < x + n"
    using assms(4) [of 0] assms(4) [of 1] assms(4) [of 2] assms(4) [of 3] by simp_all
  show "std_low b = x" "std_high b = min 4 (x + n)" using assms(1-3) unfolding std_low_def std_high_def b by auto
qed

lemma std_counts:
  assumes "0 < n"
  shows "std_low (tl_first_be (std_set_addr_be a (int n) t)) = a mod 4"
    "std_count ((std_set_addr_be a (int n) t)\<lparr>tl_tag := g\<rparr>) = int n"
proof -
  let ?w = "std_words a (int n)" and ?t = "std_set_addr_be a (int n) t"
  have w: "a mod 4 + int n \<le> 4 * ?w" "4 * ?w < a mod 4 + int n + 4" "0 < ?w"
    using assms pos_mod_sign [of 4 a] unfolding std_words_def by presburger+
  have a3: "0 \<le> a mod 4" "a mod 4 \<le> 3" by simp_all
  have f: "std_low (tl_first_be ?t) = a mod 4" "std_high (tl_first_be ?t) = min 4 (a mod 4 + int n)"
    by (rule std_low_high [OF a3, of "int n"]; use assms in \<open>simp add: std_set_addr_be_def low_nibble std_mask_bit\<close>)+
  then show "std_low (tl_first_be ?t) = a mod 4" by blast
  show "std_count (?t\<lparr>tl_tag := g\<rparr>) = int n"
  proof (cases "?w = 1")
    case True
    then show ?thesis using f w(1) by (simp add: std_count_def std_set_addr_be_def)
  next
    case False
    then have w1: "1 < ?w" using w(3) by simp
    let ?m = "a mod 4 + int n - 4 * (?w - 1)"
    have "bit (tl_last_be ?t) i \<longleftrightarrow> 0 \<le> int i \<and> int i < 0 + ?m" if "i < 4" for i
    proof -
      have "int (nat (4 * (?w - 1)) + i) = 4 * (?w - 1) + int i" using w1 by simp
      then show ?thesis using w1 that a3 by (simp add: std_set_addr_be_def low_nibble bit_drop_bit_eq std_mask_bit) linarith
    qed
    moreover have m: "0 < ?m" "?m \<le> 4" using w(1,2) by simp_all
    ultimately have "std_high (tl_last_be ?t) = ?m" using std_low_high(2) [of 0 ?m "tl_last_be ?t"] by simp
    then show ?thesis using False f(1) by (simp add: std_count_def std_set_addr_be_def)
  qed
qed

lemma addressed_data: "addressed a n t (t'\<lparr>tl_data := d\<rparr>) = addressed a n t t'"
  by (simp add: addressed_def lane_on_def)

lemma std_data:
  fixes a :: int and t :: tlp
  assumes "d \<noteq> []"
  defines "t' \<equiv> std_set_addr_be_data a d t"
  shows "addressed a (length d) t t'" "int (length (tl_data t')) = 4 * tl_length t'"
    "take (length d) (drop (nat (a mod 4)) (tl_data t')) = d"
proof -
  let ?w = "std_words a (int (length d))"
  have w: "a mod 4 + int (length d) \<le> 4 * ?w" unfolding std_words_def by presburger
  have n: "0 < length d" using assms(1) by simp
  from std_addressed [OF n, of a t] show "addressed a (length d) t t'"
    by (simp only: t'_def std_set_addr_be_data_def Let_def addressed_data)
  have "0 \<le> a mod 4" by simp
  then have "nat (a mod 4) + length d \<le> nat (4 * ?w)" "0 \<le> 4 * ?w" using w by linarith+
  then show "int (length (tl_data t')) = 4 * tl_length t'"
    by (simp add: t'_def std_set_addr_be_data_def Let_def std_set_addr_be_def)
  show "take (length d) (drop (nat (a mod 4)) (tl_data t')) = d"
    by (simp add: t'_def std_set_addr_be_data_def Let_def)
qed

lemma std_dma_laws: "dma_laws std_lib"
  unfolding dma_laws_def Let_def
proof (intro conjI allI impI)
  fix d :: bytes and t :: tlp assume d: "d \<noteq> []" "4 dvd length d"
  then have "length d mod 4 = 0" "(length d + 3) div 4 = length d div 4" by auto
  then show "lib_get_data std_lib (lib_set_data std_lib d t) = d" "tl_length (lib_set_data std_lib d t) = int (length d div 4)"
    by (simp_all add: std_lib_def std_set_data_def)
qed (simp_all add: std_lib_def std_addressed std_counts std_data std_set_data_def std_cpl_def)

section \<open>Packets through frames, and back\<close>

text \<open>C10: A packet put into a frame and taken out again.  Whatever its type and whether or not 64-bit
  addresses are forced, the frame fits the bus, its parity checks, and the packet comes back: unchanged,
  except that a forced memory request has become the same request with a 64-bit address.\<close>

theorem tlp_frame_roundtrip:
  assumes "tlp_laws L wide ok" "ok t" "is_bytes (tl_data t)" "4 dvd length (tl_data t)"
  shows "\<exists>f. from_tlp L t force = Some (Inr f) \<and> check_parity f = Some True \<and>
    fits 128 (fr_hdr f) \<and> words_fit 32 (fr_data f) \<and>
    to_tlp L f = Inr (if force \<and> tl_fmt_type t \<in> forced_types - io_types
                      then t\<lparr>tl_fmt_type := wide (tl_fmt_type t)\<rparr> else t)"
proof -
  have "tlp_law L wide t" using assms(1,2) by (simp add: tlp_laws_def)
  from frame_of_packet [OF this assms(3,4)] show ?thesis by blast
qed

definition std_packet :: "tlp_type \<Rightarrow> tlp" where
  "std_packet ty = std_new\<lparr>tl_fmt_type := ty, tl_requester_id := \<lparr>id_bus = 1, id_device = 2, id_function = 3\<rparr>, tl_tag := 5,
     tl_address := 0x1000, tl_length := 2, tl_first_be := 0xc, tl_last_be := 0x1, tl_data := [0, 0, 7, 8, 9, 0, 0, 0]\<rparr>"

lemma std_tlp_law: "tlp_law std_lib std_wide (std_packet MEM_WRITE)" "tlp_law std_lib std_wide (std_packet IO_WRITE)"
  by code_simp+

lemma std_tlp_laws: "tlp_laws std_lib std_wide (\<lambda>t. t \<in> {std_packet MEM_WRITE, std_packet IO_WRITE})"
  using std_tlp_law by (auto simp: tlp_laws_def)

lemma std_packet_data:
  "is_bytes (tl_data (std_packet ty))" "4 dvd length (tl_data (std_packet ty))" "tl_fmt_type (std_packet ty) = ty"
proof -
  have "length (tl_data (std_packet ty)) = 4 * 2" by (simp add: std_packet_def)
  then show "4 dvd length (tl_data (std_packet ty))" by presburger
qed (simp_all add: std_packet_def is_bytes_def)

theorem tlp_frame_roundtrip_witness:
  "(\<exists>f. from_tlp std_lib (std_packet MEM_WRITE) True = Some (Inr f) \<and> check_parity f = Some True \<and>
      to_tlp std_lib f = Inr (std_packet MEM_WRITE_64)) \<and>
   (\<exists>f. from_tlp std_lib (std_packet IO_WRITE) True = Some (Inr f) \<and> check_parity f = Some True \<and>
      to_tlp std_lib f = Inr (std_packet IO_WRITE))"
proof -
  have ok: "std_packet MEM_WRITE \<in> {std_packet MEM_WRITE, std_packet IO_WRITE}" "std_packet IO_WRITE \<in> {std_packet MEM_WRITE, std_packet IO_WRITE}"
    by simp_all
  have "(std_packet MEM_WRITE)\<lparr>tl_fmt_type := std_wide MEM_WRITE\<rparr> = std_packet MEM_WRITE_64" by (simp add: std_packet_def std_wide_def)
  then show ?thesis
    using tlp_frame_roundtrip [OF std_tlp_laws ok(1) std_packet_data(1,2), of True] tlp_frame_roundtrip [OF std_tlp_laws ok(2) std_packet_data(1,2), of True]
    by (auto simp: std_packet_data(3) forced_types_def io_types_def)
qed

section \<open>Transfers\<close>

text \<open>A device with 8 KiB of memory behind its first base address register.\<close>

definition std_dev :: "(unit, unit) test_dev" where
  "std_dev = (test_dev_init False ())\<lparr>td_regions := [Some (8192, Some (\<lambda>x. x mod 256)), None, None, None, None, None]\<rparr>"

definition std_calls :: "unit region_calls" where
  "std_calls = \<lparr>call_read = (\<lambda>_ _ _ _. Inl TypeError), call_write = (\<lambda>_ _ _ _. Inl TypeError)\<rparr>"

lemma std_backed: "backed std_dev 0 8192 (\<lambda>x. x mod 256)"
  by (simp add: backed_def std_dev_def test_dev_init_def)

text \<open>C8: A DMA read returns the memory it asks for.  However the transfer is cut (by the largest read
  request, at boundaries of 128 bytes and of pages) and however the device that answers cuts its
  completions (by its largest payload), the completions collected for each request pass every check
  of the requester, and together they are the bytes of the region at the address, which is unchanged.
  Every request keeps the limits of the bus.\<close>

theorem dma_read_returns_memory:
  assumes "dma_laws L" "backed dc r sz mem" "0 \<le> a" "0 < len" "a mod sz + len \<le> sz"
    "length gs = length (mem_read_reqs L dq a len)"
  shows "(\<forall>(l, t) \<in> set (mem_read_reqs L dq a len). within_limits (td_max_read_req dq) t) \<and>
    (\<exists>css. answer_reads L C (int r) gs (mem_read_reqs L dq a len) dc = Inr (css, dc) \<and>
       mem_read_outcome L len css = Inr (map (\<lambda>i. mem (a mod sz + int i)) [0..<nat len]))"
proof
  let ?cs = "cut_transfer (read_step (td_max_read_req dq)) a 0 (nat len)"
  note reqs = mem_read_reqs_chunks [OF assms(4), of L dq a]
  show "\<forall>(l, t) \<in> set (mem_read_reqs L dq a len). within_limits (td_max_read_req dq) t"
  proof -
    have "within_limits (td_max_read_req dq) (snd (read_chunk L dq c))" if "c \<in> set ?cs" for c
    proof -
      obtain a' n' l where c: "c = (a', n', l)" by (cases c)
      have b: "a \<le> a'" "0 < l" "a' mod 4 + int l \<le> 128 * 2 ^ td_max_read_req dq" "a' mod 4096 + int l \<le> 4096"
        using cut_bounds [OF steps_bounded(2), of 0 "nat len" "td_max_read_req dq" a] that unfolding c by auto
      have "0 \<le> a'" using b(1) assms(3) by simp
      from limits_addressed [OF addressed_facts(1) [OF assms(1) this b(2,4)] b(2-4)]
      show ?thesis by (simp add: c read_chunk_def)
    qed
    then show ?thesis unfolding reqs by (simp add: case_prod_beta)
  qed
  have "read_done L C r dq dc sz mem a (nat len - 0) ?cs"
    using assms(3-5) by (intro read_all [OF assms(1,2)]) simp_all
  moreover have "length gs = length ?cs" using assms(6) by (simp add: reqs)
  ultimately obtain css where "answer_reads L C (int r) gs (map (read_chunk L dq) ?cs) dc = Inr (css, dc)"
    "\<And>data. rfold (\<lambda>(l, cs) data. gather L (int l) 0 cs data) css data = Inr (data @ region_bytes sz mem a (nat len))"
    unfolding read_done_def diff_zero by blast
  then show "\<exists>css. answer_reads L C (int r) gs (mem_read_reqs L dq a len) dc = Inr (css, dc) \<and>
      mem_read_outcome L len css = Inr (map (\<lambda>i. mem (a mod sz + int i)) [0..<nat len])"
    using assms(4) by (intro exI [of _ css]) (simp add: reqs mem_read_outcome_def region_bytes_def)
qed


theorem dma_read_returns_memory_witness:
  "\<exists>css. answer_reads std_lib std_calls (int 0) (replicate (length (mem_read_reqs std_lib std_dev 0x10fa1 200)) 7)
      (mem_read_reqs std_lib std_dev 0x10fa1 200) std_dev = Inr (css, std_dev) \<and>
    mem_read_outcome std_lib 200 css = Inr (map (\<lambda>i. (4001 + int i) mod 256) [0..<200])"
  using dma_read_returns_memory [OF std_dma_laws std_backed, of "0x10fa1" "200"
      "replicate (length (mem_read_reqs std_lib std_dev 0x10fa1 200)) 7" std_dev std_calls] by simp

text \<open>C9: A DMA write changes exactly the bytes it names.  However the data are cut into requests (by the
  largest payload, at boundaries of pages), and whatever alignment the byte enables of the first and the
  last word stand for, the device that takes the requests ends with the data at the address in its
  region and with every other byte, region and field as before.  Every request keeps the limits of the bus.\<close>

theorem dma_write_reaches_memory:
  assumes "dma_laws L" "backed dc r sz mem" "0 \<le> a" "data \<noteq> []" "a mod sz + int (length data) \<le> sz"
  shows "(\<forall>t \<in> set (mem_write_reqs L dq a data). within_limits (td_max_payload dq) t) \<and>
    answer_writes L C (int r) (mem_write_reqs L dq a data) dc =
      Inr (put_mem r sz (put_bytes (a mod sz) data mem) dc)"
proof
  let ?cs = "cut_transfer (write_step (td_max_payload dq)) a 0 (length data)"
  note reqs = mem_write_reqs_chunks [OF assms(4), of L dq a]
  have "within_limits (td_max_payload dq) (write_chunk L dq data c)" if "c \<in> set ?cs" for c
  proof -
    obtain a' n l where c: "c = (a', n, l)" by (cases c)
    have b: "a \<le> a'" "0 < l" "n + l \<le> length data" "a' mod 4 + int l \<le> 128 * 2 ^ td_max_payload dq" "a' mod 4096 + int l \<le> 4096"
      using cut_bounds [OF steps_bounded(1), of 0 "length data" "td_max_payload dq" a] that unfolding c by auto
    let ?bs = "py_slice n (n + l) data"
    have l: "length ?bs = l" using b(3) by simp
    then have "?bs \<noteq> []" using b(2) by (metis length_0_conv less_irrefl)
    moreover have "0 \<le> a'" using b(1) assms(3) by simp
    moreover have "a' mod 4096 + int (length ?bs) \<le> 4096" unfolding l by (rule b(5))
    ultimately have ad: "addressed a' (length ?bs) t (lib_set_addr_be_data L a' ?bs t)" for t
      using data_facts(1) [OF assms(1)] by blast
    have "within_limits (td_max_payload dq) (lib_set_addr_be_data L a' ?bs t)" for t
      by (rule limits_addressed [OF ad]) (simp_all only: l b)
    then show ?thesis by (simp only: c write_chunk_def prod.case)
  qed
  then show "\<forall>t \<in> set (mem_write_reqs L dq a data). within_limits (td_max_payload dq) t" by (simp add: reqs)
  have "write_done L C r dq sz data a 0 ?cs"
    using assms(3-5) by (intro write_all [OF assms(1) backed_facts(3) [OF assms(2)]]) simp_all
  then show "answer_writes L C (int r) (mem_write_reqs L dq a data) dc =
      Inr (put_mem r sz (put_bytes (a mod sz) data mem) dc)"
    using assms(2) by (simp add: write_done_def reqs)
qed


theorem dma_write_reaches_memory_witness:
  "answer_writes std_lib std_calls (int 0) (mem_write_reqs std_lib std_dev 0x10fa1 (map int [0..<200])) std_dev =
     Inr (put_mem 0 8192 (put_bytes 4001 (map int [0..<200]) (\<lambda>x. x mod 256)) std_dev)"
  using dma_write_reaches_memory [OF std_dma_laws std_backed, of "0x10fa1" "map int [0..<200]" std_dev std_calls] by simp

end
