(* ===== verification/PcieRoute.thy ===== *)
theory PcieRoute imports PcieDev PcieStd begin

text \<open>
  Where the interface device sends the packets from upstream: a routing decision per packet, and the proof
  that the device carries the decisions out for any sequence of packets, in order.
\<close>

section \<open>The decisions\<close>

datatype route = ToFunction nat | ToReq int | ToCpl | Refused | Dropped

definition known_types :: "tlp_type set" where
  "known_types = {CFG_READ_0, CFG_WRITE_0, CFG_READ_1, CFG_WRITE_1, CPL, CPL_DATA, CPL_LOCKED, CPL_LOCKED_DATA,
     IO_READ, IO_WRITE, MEM_READ, MEM_READ_64, MEM_WRITE, MEM_WRITE_64}"

definition is_cfg0 :: "'x tlp_scheme \<Rightarrow> bool" where "is_cfg0 t \<longleftrightarrow> tl_fmt_type t \<in> {CFG_READ_0, CFG_WRITE_0}"

definition posted :: "'x tlp_scheme \<Rightarrow> bool" where
  "posted t \<longleftrightarrow> tl_fmt_type t \<in> {MEM_WRITE, MEM_WRITE_64, CPL, CPL_DATA, CPL_LOCKED, CPL_LOCKED_DATA}"

text \<open>A configuration request goes to the function it names, a completion to the requester, any other request
  to the first function with a matching base address register.  What goes nowhere is refused, unless it is posted.\<close>

definition route_of :: "('f, 'x) fn_lib \<Rightarrow> 'f list \<Rightarrow> 'x tlp_scheme \<Rightarrow> route" where
  "route_of F fs t =
     (let nowhere = (if posted t then Dropped else Refused) in
      if is_cfg0 t then case_option nowhere (ToFunction \<circ> fst) (first_fn (has_id F (tl_dest_id t)) 0 fs)
      else if tl_fmt_type t \<in> {CFG_READ_1, CFG_WRITE_1} then nowhere
      else if tl_fmt_type t \<in> {CPL, CPL_DATA, CPL_LOCKED, CPL_LOCKED_DATA}
      then case_option nowhere (\<lambda>_. ToCpl) (first_fn (has_id F (tl_requester_id t)) 0 fs)
      else case_option nowhere (ToReq \<circ> snd)
        (first_fn (fn_match F (tl_address t) (tl_fmt_type t \<in> {IO_READ, IO_WRITE})) 0 fs))"

text \<open>The decisions for a sequence, each with the bus number at that time: configuration requests change the
  bus number and the functions.\<close>

fun routes :: "('f, 'x) fn_lib \<Rightarrow> int \<Rightarrow> 'f list \<Rightarrow> 'x tlp_scheme list \<Rightarrow> ('x tlp_scheme \<times> route \<times> int) list" where
  "routes F bus fs [] = []"
| "routes F bus fs (t # ts) =
     (let r = route_of F fs t; bus' = (if is_cfg0 t then id_bus (tl_dest_id t) else bus) in
      (t, r, bus') # routes F bus' (case r of ToFunction k \<Rightarrow> fs[k := fn_recv F t (fs ! k)] | _ \<Rightarrow> fs) ts)"

definition route_effects :: "'x tlp_lib \<Rightarrow> 'x tlp_scheme \<times> route \<times> int \<Rightarrow> 'x dev_effect list" where
  "route_effects L = (\<lambda>(t, r, bus). case r of
       ToFunction k \<Rightarrow> [HandTo k]
     | Refused \<Rightarrow> [ReleaseFc, Reply (lib_ur_completion L t \<lparr>id_bus = bus, id_device = 0, id_function = 0\<rparr>)]
     | _ \<Rightarrow> [ReleaseFc])"

definition to_req :: "'x tlp_scheme \<times> route \<times> int \<Rightarrow> ('x tlp_scheme \<times> int) list" where
  "to_req = (\<lambda>(t, r, bus). case r of ToReq b \<Rightarrow> [(t, b)] | _ \<Rightarrow> [])"

definition to_cpl :: "'x tlp_scheme \<times> route \<times> int \<Rightarrow> ('x tlp_scheme \<times> int) list" where
  "to_cpl = (\<lambda>(t, r, bus). case r of ToCpl \<Rightarrow> [(t, 0)] | _ \<Rightarrow> [])"

text \<open>A frame that carries a packet: it fits the bus, its parity checks, the packet can be taken out.\<close>

definition carries :: "'x tlp_lib \<Rightarrow> (tlp_type \<Rightarrow> tlp_type) \<Rightarrow> bool \<Rightarrow> 'x tlp_scheme \<times> int \<Rightarrow> pcie_frame \<Rightarrow> bool" where
  "carries L wide force = (\<lambda>(t, bar) f. check_parity f = Some True \<and> fits 128 (fr_hdr f) \<and> words_fit 32 (fr_data f) \<and>
     fr_bar_id f = bar \<and> fr_func_num f = id_function (tl_requester_id t) \<and>
     to_tlp L f = Inr (if force \<and> tl_fmt_type t \<in> forced_types - io_types
                       then t\<lparr>tl_fmt_type := wide (tl_fmt_type t)\<rparr> else t))"

definition packet_ok :: "'x tlp_lib \<Rightarrow> (tlp_type \<Rightarrow> tlp_type) \<Rightarrow> 'x tlp_scheme \<Rightarrow> bool" where
  "packet_ok L wide t \<longleftrightarrow> tlp_law L wide t \<and> is_bytes (tl_data t) \<and> 4 dvd length (tl_data t)"

section \<open>One packet\<close>

text \<open>The device after a packet: bus number, functions, and the frames added to its queues.\<close>

definition after_recv :: "('f, 'x) fn_lib \<Rightarrow> 'x tlp_scheme \<Rightarrow> 'f pcie_dev \<Rightarrow> pcie_frame list \<Rightarrow> pcie_frame list \<Rightarrow> 'f pcie_dev" where
  "after_recv F t d reqs cpls = d\<lparr>
     dv_bus_num := (if is_cfg0 t then id_bus (tl_dest_id t) else dv_bus_num d),
     dv_functions := (case route_of F (dv_functions d) t of
        ToFunction k \<Rightarrow> (dv_functions d)[k := fn_recv F t (dv_functions d ! k)] | _ \<Rightarrow> dv_functions d),
     dv_rx_req := dv_rx_req d @ reqs, dv_rx_cpl := dv_rx_cpl d @ cpls\<rparr>"

lemma frame_addressed:
  "check_parity (f\<lparr>fr_bar_id := b\<rparr>) = check_parity f" "to_tlp L (f\<lparr>fr_bar_id := b\<rparr>) = to_tlp L f"
  "check_parity (f\<lparr>fr_func_num := n\<rparr>) = check_parity f" "to_tlp L (f\<lparr>fr_func_num := n\<rparr>) = to_tlp L f"
  by (simp_all add: check_parity_def to_tlp_def)

lemma put_frames:
  assumes "packet_ok L wide t"
  shows "\<exists>f. put_req L t bar d = Some (Inr ([ReleaseFc], d\<lparr>dv_rx_req := dv_rx_req d @ [f]\<rparr>)) \<and>
      carries L wide (dv_force_64bit d) (t, bar) f"
    and "\<exists>f. put_rx_cpl L t d = Some (Inr ([ReleaseFc], d\<lparr>dv_rx_cpl := dv_rx_cpl d @ [f]\<rparr>)) \<and>
      carries L wide (dv_force_64bit d) (t, 0) f"
proof -
  obtain f where f: "from_tlp L t (dv_force_64bit d) = Some (Inr f)" "check_parity f = Some True"
    "fits 128 (fr_hdr f)" "words_fit 32 (fr_data f)"
    "to_tlp L f = Inr (if dv_force_64bit d \<and> tl_fmt_type t \<in> forced_types - io_types
                       then t\<lparr>tl_fmt_type := wide (tl_fmt_type t)\<rparr> else t)" "fr_bar_id f = 0"
    using frame_of_packet [of L wide t "dv_force_64bit d"] assms unfolding packet_ok_def by blast
  show "\<exists>f. put_req L t bar d = Some (Inr ([ReleaseFc], d\<lparr>dv_rx_req := dv_rx_req d @ [f]\<rparr>)) \<and>
      carries L wide (dv_force_64bit d) (t, bar) f"
    using f by (intro exI [of _ "f\<lparr>fr_bar_id := bar, fr_func_num := id_function (tl_requester_id t)\<rparr>"])
      (simp add: put_req_def carries_def frame_addressed)
  show "\<exists>f. put_rx_cpl L t d = Some (Inr ([ReleaseFc], d\<lparr>dv_rx_cpl := dv_rx_cpl d @ [f]\<rparr>)) \<and>
      carries L wide (dv_force_64bit d) (t, 0) f"
    using f by (intro exI [of _ "f\<lparr>fr_func_num := id_function (tl_requester_id t)\<rparr>"])
      (simp add: put_rx_cpl_def carries_def frame_addressed)
qed

lemma recv_by_route:
  assumes "tl_fmt_type t \<in> known_types"
  shows "upstream_recv L F t d = (case route_of F (dv_functions d) t of
      ToReq bar \<Rightarrow> put_req L t bar d
    | ToCpl \<Rightarrow> put_rx_cpl L t d
    | r \<Rightarrow> Some (Inr (route_effects L (t, r, dv_bus_num (after_recv F t d [] [])), after_recv F t d [] [])))"
proof -
  note defs = upstream_recv_def route_of_def is_cfg0_def posted_def after_recv_def route_effects_def ur_reply_def
  consider "is_cfg0 t" | "tl_fmt_type t \<in> {CFG_READ_1, CFG_WRITE_1}" | "tl_fmt_type t \<in> {CPL, CPL_DATA, CPL_LOCKED, CPL_LOCKED_DATA}"
    | "tl_fmt_type t \<in> {IO_READ, IO_WRITE}" | "tl_fmt_type t \<in> {MEM_READ, MEM_READ_64}" | "tl_fmt_type t \<in> {MEM_WRITE, MEM_WRITE_64}"
    using assms unfolding known_types_def is_cfg0_def by blast
  then show ?thesis
  proof cases
    case 1
    then show ?thesis by (cases "first_fn (has_id F (tl_dest_id t)) 0 (dv_functions d)") (auto simp: defs Let_def)
  next
    case 3
    then show ?thesis by (cases "first_fn (has_id F (tl_requester_id t)) 0 (dv_functions d)") (auto simp: defs Let_def)
  next
    case 4
    then show ?thesis by (cases "first_fn (fn_match F (tl_address t) True) 0 (dv_functions d)") (auto simp: defs Let_def)
  next
    case 5
    then show ?thesis by (cases "first_fn (fn_match F (tl_address t) False) 0 (dv_functions d)") (auto simp: defs Let_def)
  next
    case 6
    then show ?thesis by (cases "first_fn (fn_match F (tl_address t) False) 0 (dv_functions d)") (auto simp: defs Let_def)
  qed (auto simp: defs Let_def)
qed

lemma route_not_cfg0: "route_of F fs t = ToReq b \<Longrightarrow> \<not> is_cfg0 t" "route_of F fs t = ToCpl \<Longrightarrow> \<not> is_cfg0 t"
  by (auto simp: route_of_def Let_def split: option.splits if_splits)

lemma recv_one:
  assumes "packet_ok L wide t" "tl_fmt_type t \<in> known_types"
  shows "\<exists>reqs cpls. upstream_recv L F t d =
      Some (Inr (route_effects L (t, route_of F (dv_functions d) t, dv_bus_num (after_recv F t d reqs cpls)),
        after_recv F t d reqs cpls)) \<and>
    list_all2 (carries L wide (dv_force_64bit d)) (to_req (t, route_of F (dv_functions d) t, b)) reqs \<and>
    list_all2 (carries L wide (dv_force_64bit d)) (to_cpl (t, route_of F (dv_functions d) t, b)) cpls"
proof (cases "route_of F (dv_functions d) t")
  case (ToReq bar)
  obtain h where h: "put_req L t bar d = Some (Inr ([ReleaseFc], d\<lparr>dv_rx_req := dv_rx_req d @ [h]\<rparr>))"
    "carries L wide (dv_force_64bit d) (t, bar) h" using put_frames(1) [OF assms(1)] by blast
  then show ?thesis using ToReq route_not_cfg0(1) [OF ToReq]
    by (intro exI [of _ "[h]"] exI [of _ "[]"]) (simp add: recv_by_route [OF assms(2)] after_recv_def route_effects_def to_req_def to_cpl_def)
next
  case ToCpl
  obtain f where "put_rx_cpl L t d = Some (Inr ([ReleaseFc], d\<lparr>dv_rx_cpl := dv_rx_cpl d @ [f]\<rparr>))"
    "carries L wide (dv_force_64bit d) (t, 0) f" using put_frames(2) [OF assms(1)] by blast
  then show ?thesis using ToCpl route_not_cfg0(2) [OF ToCpl]
    by (intro exI [of _ "[]"] exI [of _ "[f]"]) (simp add: recv_by_route [OF assms(2)] after_recv_def route_effects_def to_req_def to_cpl_def)
qed (simp_all add: recv_by_route [OF assms(2)] to_req_def to_cpl_def exI [of _ "[]"])

section \<open>Sequences of packets\<close>

fun recv_all ::
  "'x tlp_lib \<Rightarrow> ('f, 'x) fn_lib \<Rightarrow> 'x tlp_scheme list \<Rightarrow> 'f pcie_dev \<Rightarrow> ('x dev_effect list \<times> 'f pcie_dev) result option" where
  "recv_all L F [] d = Some (Inr ([], d))"
| "recv_all L F (t # ts) d = (case upstream_recv L F t d of
       None \<Rightarrow> None
     | Some (Inl e) \<Rightarrow> Some (Inl e)
     | Some (Inr (es, d')) \<Rightarrow> map_option (\<lambda>r. rbind r (\<lambda>(es', d''). Inr (es @ es', d''))) (recv_all L F ts d'))"

text \<open>A sequence of packets of known types.\<close>

lemma known_packets_routed:
  assumes "\<forall>t \<in> set ts. packet_ok L wide t \<and> tl_fmt_type t \<in> known_types"
  shows "\<exists>d' reqs cpls. let rs = routes F (dv_bus_num d) (dv_functions d) ts in
    recv_all L F ts d = Some (Inr (concat (map (route_effects L) rs), d')) \<and>
    dv_rx_req d' = dv_rx_req d @ reqs \<and> dv_rx_cpl d' = dv_rx_cpl d @ cpls \<and>
    list_all2 (carries L wide (dv_force_64bit d)) (concat (map to_req rs)) reqs \<and>
    list_all2 (carries L wide (dv_force_64bit d)) (concat (map to_cpl rs)) cpls"
  using assms
proof (induction ts arbitrary: d)
  case (Cons t ts)
  let ?r = "route_of F (dv_functions d) t"
  let ?b = "if is_cfg0 t then id_bus (tl_dest_id t) else dv_bus_num d"
  obtain reqs cpls where one: "upstream_recv L F t d =
      Some (Inr (route_effects L (t, ?r, dv_bus_num (after_recv F t d reqs cpls)), after_recv F t d reqs cpls))"
    "list_all2 (carries L wide (dv_force_64bit d)) (to_req (t, ?r, ?b)) reqs"
    "list_all2 (carries L wide (dv_force_64bit d)) (to_cpl (t, ?r, ?b)) cpls"
    using recv_one [of L wide t F d ?b] Cons.prems by auto
  define d1 where "d1 = after_recv F t d reqs cpls"
  have d1: "dv_bus_num d1 = ?b" "dv_rx_req d1 = dv_rx_req d @ reqs" "dv_rx_cpl d1 = dv_rx_cpl d @ cpls"
    "dv_force_64bit d1 = dv_force_64bit d"
    "dv_functions d1 = (case ?r of ToFunction k \<Rightarrow> (dv_functions d)[k := fn_recv F t (dv_functions d ! k)] | _ \<Rightarrow> dv_functions d)"
    by (simp_all add: d1_def after_recv_def)
  let ?rs = "routes F (dv_bus_num d1) (dv_functions d1) ts"
  obtain d' reqs' cpls' where rest: "recv_all L F ts d1 = Some (Inr (concat (map (route_effects L) ?rs), d'))"
    "dv_rx_req d' = dv_rx_req d1 @ reqs'" "dv_rx_cpl d' = dv_rx_cpl d1 @ cpls'"
    "list_all2 (carries L wide (dv_force_64bit d1)) (concat (map to_req ?rs)) reqs'"
    "list_all2 (carries L wide (dv_force_64bit d1)) (concat (map to_cpl ?rs)) cpls'"
    using Cons.IH [of d1] Cons.prems unfolding Let_def by auto
  have rs: "routes F (dv_bus_num d) (dv_functions d) (t # ts) = (t, ?r, ?b) # ?rs" by (simp add: Let_def d1)
  show ?case unfolding rs
    using one rest d1(1-4)
    by (intro exI [of _ d'] exI [of _ "reqs @ reqs'"] exI [of _ "cpls @ cpls'"])
      (simp add: Let_def d1_def [symmetric] list_all2_appendI)
qed simp

text \<open>A packet of any other type raises, and with it the sequence, whatever went before and comes after.\<close>

lemma recv_unknown: "tl_fmt_type t \<notin> known_types \<Longrightarrow> upstream_recv L F t d = Some (Inl (Raised ''TODO''))"
  by (simp add: upstream_recv_def known_types_def)

lemma recv_all_raises:
  "recv_all L F ts d = Some (Inr (es, d')) \<Longrightarrow> upstream_recv L F u d' = Some (Inl e) \<Longrightarrow> recv_all L F (ts @ u # us) d = Some (Inl e)"
proof (induction ts arbitrary: d es)
  case (Cons t ts)
  from Cons.prems(1) obtain es1 d1 where 1: "upstream_recv L F t d = Some (Inr (es1, d1))" by (auto split: option.splits sum.splits)
  with Cons.prems(1) obtain es2 where "recv_all L F ts d1 = Some (Inr (es2, d'))" by (auto simp: rbind_Inr_iff)
  from Cons.IH [OF this Cons.prems(2)] 1 show ?case by (simp add: rbind_def)
qed simp

text \<open>C11: The interface device routes the packets from upstream that are of one of the fourteen types it knows:
  configuration requests, completions (locked or not), I/O requests, memory reads and writes.  On a sequence of such
  packets it does not raise; a type 0 configuration request is handed to the function it names; for any other packet the
  flow control credits are released once, and the packet goes on in one frame to the requests or the completions, is
  refused with a completion of its own if it is not posted, or is dropped.  Each queue has the frames in the order
  of the packets, every frame fits the bus and gives its packet back, with the base address register
  that matched; the function number of a request is that of its requester, not of the function that matched.
  A packet of any other type (a locked read, an atomic operation, a message) after such a sequence raises.\<close>

theorem device_routes_packets:
  assumes "\<forall>t \<in> set ts. packet_ok L wide t \<and> tl_fmt_type t \<in> known_types"
  shows "(\<exists>d' reqs cpls. let rs = routes F (dv_bus_num d) (dv_functions d) ts in
      recv_all L F ts d = Some (Inr (concat (map (route_effects L) rs), d')) \<and>
      dv_rx_req d' = dv_rx_req d @ reqs \<and> dv_rx_cpl d' = dv_rx_cpl d @ cpls \<and>
      list_all2 (carries L wide (dv_force_64bit d)) (concat (map to_req rs)) reqs \<and>
      list_all2 (carries L wide (dv_force_64bit d)) (concat (map to_cpl rs)) cpls) \<and>
    (\<forall>u us. tl_fmt_type u \<notin> known_types \<longrightarrow> recv_all L F (ts @ u # us) d = Some (Inl (Raised ''TODO'')))"
proof
  note k = known_packets_routed [OF assms, of F d]
  show "\<exists>d' reqs cpls. let rs = routes F (dv_bus_num d) (dv_functions d) ts in
      recv_all L F ts d = Some (Inr (concat (map (route_effects L) rs), d')) \<and>
      dv_rx_req d' = dv_rx_req d @ reqs \<and> dv_rx_cpl d' = dv_rx_cpl d @ cpls \<and>
      list_all2 (carries L wide (dv_force_64bit d)) (concat (map to_req rs)) reqs \<and>
      list_all2 (carries L wide (dv_force_64bit d)) (concat (map to_cpl rs)) cpls" by (rule k)
  from k obtain es d' where "recv_all L F ts d = Some (Inr (es, d'))" unfolding Let_def by blast
  then show "\<forall>u us. tl_fmt_type u \<notin> known_types \<longrightarrow> recv_all L F (ts @ u # us) d = Some (Inl (Raised ''TODO''))"
    using recv_all_raises recv_unknown by blast
qed

text \<open>Two functions, with a memory region and with I/O; a write that matches, and an I/O write that does not.\<close>

definition std_fns :: "(nat, unit) fn_lib" where
  "std_fns = \<lparr>fn_id = (\<lambda>k. \<lparr>id_bus = 1, id_device = 0, id_function = int k\<rparr>), fn_recv = (\<lambda>_ k. k),
     fn_match = (\<lambda>a io k. if \<not> io \<and> k = 1 \<and> 0x1000 \<le> a \<and> a < 0x3000 then Some 2 else None)\<rparr>"

definition std_pcie_dev :: "nat pcie_dev" where
  "std_pcie_dev = \<lparr>dv_force_64bit = True, dv_bus_num = 1, dv_functions = [0, 1], dv_rx_cpl = [], dv_rx_req = [],
     dv_rd_seq = [], dv_wr_seq = []\<rparr>"

theorem device_routes_packets_witness:
  "\<exists>d' f. recv_all std_lib std_fns [std_packet MEM_WRITE, std_packet IO_WRITE] std_pcie_dev =
      Some (Inr ([ReleaseFc, ReleaseFc, Reply (lib_ur_completion std_lib (std_packet IO_WRITE) \<lparr>id_bus = 1, id_device = 0, id_function = 0\<rparr>)], d')) \<and>
    dv_rx_req d' = [f] \<and> fr_bar_id f = 2 \<and> to_tlp std_lib f = Inr (std_packet MEM_WRITE_64) \<and>
    recv_all std_lib std_fns [std_packet MEM_WRITE, std_packet IO_WRITE, std_packet MEM_READ_LOCKED, std_packet IO_WRITE] std_pcie_dev =
      Some (Inl (Raised ''TODO''))"
proof -
  let ?ts = "[std_packet MEM_WRITE, std_packet IO_WRITE]"
  have ok: "\<forall>t \<in> set ?ts. packet_ok std_lib std_wide t \<and> tl_fmt_type t \<in> known_types"
    using std_tlp_law std_packet_data by (auto simp: packet_ok_def known_types_def)
  have "tl_fmt_type (std_packet MEM_READ_LOCKED) \<notin> known_types" by (simp add: std_packet_def std_new_def known_types_def)
  then have "recv_all std_lib std_fns (?ts @ std_packet MEM_READ_LOCKED # [std_packet IO_WRITE]) std_pcie_dev = Some (Inl (Raised ''TODO''))"
    using device_routes_packets [OF ok, of std_fns std_pcie_dev] by blast
  moreover have "routes std_fns 1 [0, 1] ?ts = [(std_packet MEM_WRITE, ToReq 2, 1), (std_packet IO_WRITE, Refused, 1)]"
    by (simp add: route_of_def is_cfg0_def posted_def std_fns_def std_packet_def std_new_def Let_def)
  moreover have "(std_packet MEM_WRITE)\<lparr>tl_fmt_type := std_wide MEM_WRITE\<rparr> = std_packet MEM_WRITE_64"
    by (simp add: std_packet_def std_wide_def)
  ultimately show ?thesis
    using conjunct1 [OF device_routes_packets [OF ok, of std_fns std_pcie_dev]]
    by (auto simp: std_pcie_dev_def Let_def route_effects_def to_req_def to_cpl_def carries_def list_all2_Cons1
        std_packet_data forced_types_def io_types_def)
qed

end
