(* ===== verification/Spec2Isabelle.thy ===== *)
theory Spec2Isabelle imports Mersenne64 Xfcp PllGen PtpSync PsdpRead BaseRSystem NicSystem CndmIrq BaseXSystem PcieSystem PcieRoute begin

section \<open>The Python models of the repository\<close>

text \<open>
  The repository is a library of SystemVerilog cores with models of its interfaces and drivers in
  Python, and generators that write SystemVerilog.  This development verifies the Python code:

  \<^item> \<open>src/eth/tb/baser.py\<close>: a source and a sink for 10GBASE-R serial links, with gearbox, scrambler,
    64b/66b blocks, and frames on XGMII lanes;
  \<^item> \<open>src/eth/tb/basex.py\<close>: the same for 1000BASE-X, with code groups, byte repetition and the
    configuration register of the autonegotiation;
  \<^item> \<open>src/cndm_proto/tb/cndm_proto.py\<close> and \<open>src/cndm/tb/cndm.py\<close>: two network drivers with
    descriptor rings, completion and event queues and a pool of packet buffers; the second also
    talks to a command mailbox;
  \<^item> \<open>src/dma/tb/dma_psdp_ram.py\<close>: masters and memory on a segmented RAM interface with ready/valid
    handshakes;
  \<^item> \<open>src/pcie/tb/pcie_if.py\<close>: source and sink of a segmented PCIe streaming interface, the frames that
    carry transaction layer packets on it, a test device that makes DMA requests and answers them, and a
    device that connects the interfaces to a PCIe hierarchy;
  \<^item> \<open>src/ptp/tb/ptp_td.py\<close>: a PTP clock, its serial distribution, and the receiver that follows it;
  \<^item> \<open>pll_i2c_init.py\<close>, \<open>si5340_i2c_init.py\<close>, \<open>si5341_i2c_init.py\<close> of four boards: generators that turn a
    list of registers into the ROM of a state machine that programs clock chips over I2C;
  \<^item> \<open>src/xfcp/tb/xfcp.py\<close>: frames of a control protocol with COBS framing;
  \<^item> \<open>src/math/tb/mt19937.py\<close> and \<open>mt19937_64.py\<close>: the Mersenne Twister.
\<close>

section \<open>Theories\<close>

text \<open>
  \<open>Prelude\<close> has the result type (a raised exception is \<open>Inl\<close>), its bind and folds, Python's indexing
  of lists, byte strings and their conversion to integers, and the locales \<open>codec\<close> and \<open>codec_stack\<close>
  of encoders with their decoders.  Integers of Python are HOL integers with every mask of the code
  written out; registers of the SystemVerilog module are words.

  \<^item> Mersenne Twister.  \<open>Mersenne\<close>, \<open>Mersenne64\<close>: the state is the record \<open>mt_state\<close>; seeding, both
    drawing methods.  The locales \<open>twist_generator\<close> and \<open>recurrence_generator\<close> have what the two
    sizes share: drawing in blocks and drawing word by word give the same stream, and this is the
    linear recurrence of the generator.
  \<^item> XFCP.  \<open>Xfcp\<close>: COBS (\<open>cobs_encode\<close>, \<open>cobs_decode\<close>), frames (\<open>build\<close>, \<open>parse\<close>) and both composed.
  \<^item> PLL generators.  \<open>PllFsm\<close>: the state machine that the generators print, clock by clock.
    \<open>PllExec\<close>: the program of its ROM at the level of instructions, with the beats on the bus that it
    means, and the proof that the registers follow it under back-pressure.  \<open>PllProg\<close>: programs with
    blocks repeated for several devices.  \<open>PllGen\<close>: the Python generators, and the composition from a
    list of registers to the contents of the chips.
  \<^item> PTP.  \<open>PtpTd\<close>: the clock of the source.  \<open>PtpSync\<close>: messages, serial line, receiver, and the lock of
    the receiver onto the source.
  \<^item> Segmented RAM.  \<open>ByteRuns\<close>: bit fields of segments, byte enables as runs of bytes, and the locale
    \<open>byte_store\<close> of what the runs are written to; the PCIe theories use it too.  \<open>PsdpRam\<close>: write master and
    RAM half.  \<open>PsdpLink\<close>, \<open>PsdpWrite\<close>: the joint invariant of both over the bus.  \<open>PsdpRead\<close>: the read side.
  \<^item> PCIe.  \<open>PcieIf\<close>: frames, parity, the widths read off the bus, source and sink, edge by edge.  \<open>PcieLink\<close>:
    one segment keeps both in step.  \<open>PcieBus\<close>, \<open>PcieSystem\<close>: both ends on one bus.  \<open>PcieTlp\<close>: packets to
    frames and back (\<open>from_tlp\<close>, \<open>to_tlp\<close>).  \<open>PcieDma\<close>: the test device, its regions, tags, requests
    (\<open>mem_read_reqs\<close>, \<open>mem_write_reqs\<close>), answers (\<open>rx_req\<close>) and what it makes of completions.
    \<open>PcieTransfer\<close>: how transfers are cut, and one read request with its completions.  \<open>PcieMemory\<close>: byte
    enables, one write request, and both over a whole transfer; mapped memory is a \<open>byte_store\<close>.
    \<open>PcieStd\<close>: the properties of frames and transfers, and a packet class on which they are evaluated.
    \<open>PcieDev\<close>: the interface device; \<open>PcieRoute\<close>: where it sends the packets from upstream.
  \<^item> Serial links.  \<open>Gearbox\<close>: the bookkeeping of the gearbox.  \<open>BaseR\<close>: source and sink.  \<open>BaseRBlock\<close>:
    the block code is inverted.  \<open>BaseRScr\<close>: the scrambler is inverted and resynchronises.  \<open>BaseRLink\<close>,
    \<open>BaseRSystem\<close>: both ends on one bus (locale \<open>frame_laws\<close> for the frame class of the library).
    \<open>BaseX\<close>: source and sink for 1000BASE-X, with the same gearbox.  \<open>BaseXLink\<close>: one code group keeps both
    in step (locale \<open>gmii_laws\<close>).  \<open>BaseXSystem\<close>: both ends on one bus, and the tables of the running disparity.
  \<^item> Network drivers.  \<open>Structs\<close>: the formats of \<open>struct\<close>.  \<open>NicRing\<close>: pool, rings, completion queues, which
    both drivers have in the same form.  \<open>NicOwn\<close>: who owns a packet buffer; locale \<open>dma_memory\<close>.
    \<open>NicOps\<close>: the ring operations under the ownership invariant.  \<open>NicProto\<close>, \<open>NicSystem\<close>: the prototype
    driver against a device that may do anything that the rings allow.  \<open>CndmCmd\<close>: the command mailbox;
    locale \<open>mailbox\<close>.  \<open>CndmQueue\<close>: the queues and their handlers.  \<open>CndmDriver\<close>: ports, start, interrupts.
    \<open>CndmStep\<close>, \<open>CndmSystem\<close>: queues of the driver and of the device in step, numbered per kind and port;
    locale \<open>queue_device\<close>, interpreted by the create and destroy commands of \<open>cndm_micro_dp_mgr.sv\<close>.
    \<open>CndmFlow\<close>, \<open>CndmIrq\<close>: interrupts over the whole state.
\<close>

section \<open>Parameters, bounds and termination\<close>

text \<open>
  Code that is not in the repository is a parameter: the byte store and the memory regions of the
  simulation library (\<open>byte_store\<close>, \<open>mem_env\<close>), its frame class and constants (records of \<open>BaseR\<close>), the
  register window of the device (\<open>mmio\<close>), the PCIe packet class (\<open>tlp_lib\<close>), the functions of a PCIe device (\<open>fn_lib\<close>) and the callbacks of a region.  What the code relies on is stated by the locales, and each
  locale is interpreted: the stores by a sparse memory and by a flat one of 1024 pages, the frame
  laws by frames as lists of bytes, the laws of packets (\<open>tlp_laws\<close>, \<open>dma_laws\<close>) hold for \<open>std_lib\<close>, the devices by a mailbox that runs commands after some polls and
  by the queue registers of two ports.

  A coroutine is a step function over the state between two clock edges; its inputs are whatever the
  other side drives, and the pauses of a simulation are an argument of each step.  A handler of the
  drivers is one step with respect to the device: the buffers of events and completions are read as they are when
  the handler starts, and what the device writes during its awaits is found by the next call.  The transfers of the test device are cut by steps that are
  never empty (\<open>step_pos\<close>), and so are its completions (\<open>cpl_dwords_pos\<close>).  The loop over a completion queue ends within one
  lap (\<open>cq_loop_terminates\<close>: fuel \<open>2 ^ lg + 1\<close> is enough whatever is in the buffer), so it is a function;
  the wait for the mailbox need not end and is a \<open>partial_function (option)\<close> with the exact condition in
  \<open>exec_hangs_iff\<close>.  All other loops are bounded by data.
\<close>

section \<open>What the properties show\<close>

text \<open>
  The refinement properties compose a component's parts: frames put into the link source come out of
  the sink in order, whatever the configuration of width, scrambling, bit order and gearbox; packets
  of the prototype driver are neither lost nor reordered, and each buffer is in exactly one place;
  writes and reads of the RAM masters take effect in request order under any pauses; frames cross the
  PCIe bus in order under any pauses, DMA reads return the memory they name and DMA writes change just
  that, and every packet from upstream of a type that the device knows goes where it belongs; the PTP receiver shows the time of the source; a list of registers arrives in the registers of the chip; queues of
  driver and device stay in step; both Mersenne Twisters follow their recurrence.  Round trips: blocks,
  scrambler, COBS, frames, packed time stamps.  Invariants: gearbox balance, the clock in range, buffer
  ownership, the driver's state over an interrupt.  Several properties are about what the code does
  wrong: the blocks of ordered sets beside control characters or a terminate, the transmit ring without a check for room, the
  packed time setter, the wait for the mailbox, the function number of a routed request.
\<close>

section \<open>Not modelled\<close>

text \<open>
  The SystemVerilog cores and their tests, the Python tests under the test directories, and the
  documentation's configuration.  Of the modelled files: logging and printing, the conversions through
  \<open>Decimal\<close> and \<open>Fraction\<close> in the PTP classes, the blocking waits (\<open>recv\<close>, the waits for tags and completions
  of concurrent DMA requests), the creation of buses and of the base classes of the simulation library,
  and the state that is left after an exception has been raised.
\<close>

end
